(* ===== verification/Sec_Prelude.thy ===== *)
theory Sec_Prelude
  imports Main "HOL-Library.Word" "HOL-Library.List_Lexorder" "HOL-Library.Product_Lexorder"
begin

text \<open>
  Shared vocabulary of the development.

  \<^item> machine integers and byte strings (\<open>u8\<close>, \<open>u16\<close>, \<open>u32\<close>, \<open>u64\<close>, \<open>bytes\<close>) and the
    little-endian conversions of Rust's \<open>to_le_bytes\<close> / \<open>from_le_bytes\<close>;
  \<^item> \<open>Result\<close> as a sum type: \<open>rbind\<close> is the question-mark operator, \<open>map_err\<close> and
    \<open>ok_or\<close> are the methods of that name;
  \<^item> \<open>BTreeMap\<close> and \<open>BTreeSet\<close> as strictly ascending lists, with the ordered-map laws
    stated once in the locale \<open>ordered_map\<close> and interpreted on the list operations;
  \<^item> list and saturating-arithmetic lemmas that several components use.
\<close>

unbundle bit_operations_syntax

section \<open>Machine integers and byte strings\<close>

type_synonym u8 = "8 word"
type_synonym u16 = "16 word"
type_synonym u32 = "32 word"
type_synonym u64 = "64 word"
type_synonym bytes = "u8 list"

primrec le_bytes :: "nat \<Rightarrow> 'a::len word \<Rightarrow> bytes" where
  "le_bytes 0 w = []"
| "le_bytes (Suc n) w = ucast w # le_bytes n (drop_bit 8 w)"

primrec from_le :: "bytes \<Rightarrow> 'a::len word" where
  "from_le [] = 0"
| "from_le (b # bs) = ucast b OR push_bit 8 (from_le bs)"

lemma length_le_bytes [simp]: "length (le_bytes n w) = n"
  by (induction n arbitrary: w) auto

lemma from_le_le_bytes_take: "from_le (le_bytes n (w :: 'a::len word)) = take_bit (8 * n) w"
proof (induction n arbitrary: w)
  case 0
  then show ?case by simp
next
  case (Suc n)
  show ?case
    by (rule bit_word_eqI)
      (auto simp: Suc.IH bit_or_iff bit_push_bit_iff bit_take_bit_iff bit_drop_bit_eq
        bit_ucast_iff dest: bit_imp_le_length)
qed

lemma from_le_le_bytes:
  "LENGTH('a::len) \<le> 8 * n \<Longrightarrow> from_le (le_bytes n (w :: 'a word)) = w"
  by (auto simp: from_le_le_bytes_take bit_take_bit_iff intro!: bit_word_eqI)

lemma bit_from_le_ge: "8 * length bs \<le> k \<Longrightarrow> \<not> bit (from_le bs :: 'a::len word) k"
proof (induction bs arbitrary: k)
  case Nil
  then show ?case by simp
next
  case (Cons b bs)
  then have "8 * length bs \<le> k - 8" by simp
  with Cons.IH have "\<not> bit (from_le bs :: 'a word) (k - 8)" by blast
  with Cons.prems show ?case
    by (auto simp: bit_or_iff bit_push_bit_iff bit_ucast_iff dest: bit_imp_le_length)
qed

lemma drop_bit_8_push:
  assumes "8 * length bs + 8 \<le> LENGTH('a::len)"
  shows "drop_bit 8 (ucast (b :: u8) OR push_bit 8 (from_le bs :: 'a word)) = from_le bs"
proof (rule bit_word_eqI)
  fix k assume k: "k < LENGTH('a)"
  have "\<not> bit (from_le bs :: 'a word) k" if "LENGTH('a) \<le> k + 8"
    using bit_from_le_ge [of bs k] assms that by simp
  moreover have "\<not> bit b (k + 8)"
    by (auto dest: bit_imp_le_length)
  ultimately show "bit (drop_bit 8 (ucast b OR push_bit 8 (from_le bs :: 'a word))) k
      = bit (from_le bs :: 'a word) k"
    by (cases "LENGTH('a) \<le> k + 8")
      (auto simp: bit_or_iff bit_push_bit_iff bit_drop_bit_eq bit_ucast_iff add.commute)
qed

lemma ucast_low_byte: "8 \<le> LENGTH('a::len) \<Longrightarrow>
    ucast (ucast (b :: u8) OR push_bit 8 (w :: 'a word)) = b"
  by (intro bit_word_eqI) (auto simp: bit_or_iff bit_push_bit_iff bit_ucast_iff)

lemma le_bytes_from_le:
  "length bs = n \<Longrightarrow> 8 * n \<le> LENGTH('a::len) \<Longrightarrow> le_bytes n (from_le bs :: 'a word) = bs"
proof (induction bs arbitrary: n)
  case Nil
  then show ?case by simp
next
  case (Cons b bs)
  then show ?case by (auto simp: drop_bit_8_push ucast_low_byte simp del: drop_bit_or)
qed

section \<open>Results\<close>

text \<open>A Rust \<open>Result<T, E>\<close> is \<open>'e + 'a\<close>; \<open>rbind m f\<close> is \<open>f(m?)\<close>.\<close>

fun rbind :: "'e + 'a \<Rightarrow> ('a \<Rightarrow> 'e + 'b) \<Rightarrow> 'e + 'b" where
  "rbind (Inl e) f = Inl e"
| "rbind (Inr x) f = f x"

fun map_err :: "('e \<Rightarrow> 'f) \<Rightarrow> 'e + 'a \<Rightarrow> 'f + 'a" where
  "map_err h (Inl e) = Inl (h e)"
| "map_err h (Inr x) = Inr x"

fun ok_or :: "'e \<Rightarrow> 'a option \<Rightarrow> 'e + 'a" where
  "ok_or e None = Inl e"
| "ok_or e (Some x) = Inr x"

lemma rbind_eq_Inr: "rbind m f = Inr y \<longleftrightarrow> (\<exists>x. m = Inr x \<and> f x = Inr y)"
  by (cases m) auto

lemma rbind_eq_Inl: "rbind m f = Inl e \<longleftrightarrow> m = Inl e \<or> (\<exists>x. m = Inr x \<and> f x = Inl e)"
  by (cases m) auto

lemma map_err_eq_Inr [simp]: "map_err h m = Inr x \<longleftrightarrow> m = Inr x"
  by (cases m) auto

lemma map_err_eq_Inl: "map_err h m = Inl e \<longleftrightarrow> (\<exists>e'. m = Inl e' \<and> e = h e')"
  by (cases m) auto

lemma ok_or_eq_Inr [simp]: "ok_or e m = Inr x \<longleftrightarrow> m = Some x"
  by (cases m) auto

lemma ok_or_eq_Inl [simp]: "ok_or e m = Inl e' \<longleftrightarrow> m = None \<and> e' = e"
  by (cases m) auto

lemma rbind_cong [fundef_cong]:
  "m = m' \<Longrightarrow> (\<And>x. m' = Inr x \<Longrightarrow> f x = g x) \<Longrightarrow> rbind m f = rbind m' g"
  by (cases m') auto

lemma rbindE: "rbind m f = Inr y \<Longrightarrow> (\<And>x. m = Inr x \<Longrightarrow> f x = Inr y \<Longrightarrow> P) \<Longrightarrow> P"
  by (auto simp: rbind_eq_Inr)

text \<open>
  A call that may also abort the process is \<open>('e + 'a) option\<close>, with \<open>None\<close> for the abort;
  \<open>orbind\<close> is then the question-mark operator.
\<close>

fun orbind :: "('e + 'a) option \<Rightarrow> ('a \<Rightarrow> ('e + 'b) option) \<Rightarrow> ('e + 'b) option" where
  "orbind None f = None"
| "orbind (Some (Inl e)) f = Some (Inl e)"
| "orbind (Some (Inr x)) f = f x"

lemma orbind_eq_ok: "orbind m f = Some (Inr y) \<longleftrightarrow> (\<exists>x. m = Some (Inr x) \<and> f x = Some (Inr y))"
  by (cases m; cases "the m") auto

lemma orbind_eq_None: "orbind m f = None \<longleftrightarrow> m = None \<or> (\<exists>x. m = Some (Inr x) \<and> f x = None)"
  by (cases m; cases "the m") auto

lemma orbind_cong [fundef_cong]:
  "m = m' \<Longrightarrow> (\<And>x. m' = Some (Inr x) \<Longrightarrow> f x = g x) \<Longrightarrow> orbind m f = orbind m' g"
  by (cases m'; cases "the m'") auto

section \<open>Saturating and checked 64-bit arithmetic on natural numbers\<close>

text \<open>
  The rate limiters compute on \<open>u64\<close> with \<open>saturating_*\<close> and \<open>checked_*\<close> methods. They are
  modelled on \<open>nat\<close> with the bound \<open>u64::MAX\<close> written out; \<open>saturating_sub\<close> is the
  truncated subtraction of \<open>nat\<close>.
\<close>

definition u64_max :: nat where
  "u64_max = 18446744073709551615"

definition sat_add :: "nat \<Rightarrow> nat \<Rightarrow> nat" where
  "sat_add a b = min (a + b) u64_max"

definition sat_mul :: "nat \<Rightarrow> nat \<Rightarrow> nat" where
  "sat_mul a b = min (a * b) u64_max"

definition checked_add :: "nat \<Rightarrow> nat \<Rightarrow> nat option" where
  "checked_add a b = (if a + b \<le> u64_max then Some (a + b) else None)"

lemma u64_max_power: "u64_max = 2 ^ 64 - 1"
  by (simp add: u64_max_def)

lemma sat_add_le [simp]: "sat_add a b \<le> a + b" "sat_add a b \<le> u64_max"
  by (simp_all add: sat_add_def)

lemma sat_mul_le [simp]: "sat_mul a b \<le> a * b" "sat_mul a b \<le> u64_max"
  by (simp_all add: sat_mul_def)

lemma sat_add_exact: "a + b \<le> u64_max \<Longrightarrow> sat_add a b = a + b"
  by (simp add: sat_add_def)

section \<open>Ordered maps and sets\<close>

text \<open>
  A \<open>BTreeMap\<close> (and a \<open>redb\<close> table, which iterates in key order as well) is an association
  list whose keys ascend strictly: iteration is list order, lookup is \<^const>\<open>map_of\<close>.
  \<open>[u8; N]\<close>, \<open>Vec<u8>\<close> and \<open>String\<close> keys compare bytewise and lexicographically in Rust,
  which is the order of \<open>List_Lexorder\<close> on \<open>bytes\<close>.
\<close>

type_synonym ('k, 'v) btree = "('k \<times> 'v) list"

primrec bt_insert :: "'k::linorder \<Rightarrow> 'v \<Rightarrow> ('k, 'v) btree \<Rightarrow> ('k, 'v) btree" where
  "bt_insert k v [] = [(k, v)]"
| "bt_insert k v (e # m) =
     (if k = fst e then (k, v) # m else if fst e < k then e # bt_insert k v m else (k, v) # e # m)"

definition bt_remove :: "'k \<Rightarrow> ('k, 'v) btree \<Rightarrow> ('k, 'v) btree" where
  "bt_remove k m = filter (\<lambda>e. fst e \<noteq> k) m"

definition bt_keys :: "('k, 'v) btree \<Rightarrow> 'k list" where
  "bt_keys m = map fst m"

definition bt_wf :: "('k::linorder, 'v) btree \<Rightarrow> bool" where
  "bt_wf m \<longleftrightarrow> sorted_wrt (<) (map fst m)"

definition bt_range :: "'k::linorder \<Rightarrow> 'k \<Rightarrow> ('k, 'v) btree \<Rightarrow> ('k, 'v) btree" where
  "bt_range lo hi m = filter (\<lambda>e. lo \<le> fst e \<and> fst e \<le> hi) m"

lemma map_of_bt_insert: "map_of (bt_insert k v m) = (map_of m)(k \<mapsto> v)"
  by (induction m) auto

lemma map_of_bt_remove: "map_of (bt_remove k m) = (map_of m)(k := None)"
  by (induction m) (auto simp: bt_remove_def)

lemma set_map_fst_bt_insert: "fst ` set (bt_insert k v m) = insert k (fst ` set m)"
  by (induction m) auto

lemma bt_wf_Nil [simp]: "bt_wf []"
  by (simp add: bt_wf_def)

lemma bt_wf_bt_insert: "bt_wf m \<Longrightarrow> bt_wf (bt_insert k v m)"
proof (induction m)
  case Nil
  then show ?case by (simp add: bt_wf_def)
next
  case (Cons e m)
  then show ?case
    using set_map_fst_bt_insert [of k v m] by (force simp: bt_wf_def)
qed

lemma bt_wf_filter: "bt_wf m \<Longrightarrow> bt_wf (filter p m)"
  by (induction m) (auto simp: bt_wf_def)

lemma bt_wf_bt_remove: "bt_wf m \<Longrightarrow> bt_wf (bt_remove k m)"
  by (simp add: bt_remove_def bt_wf_filter)

lemma bt_wf_distinct: "bt_wf m \<Longrightarrow> distinct (map fst m)"
  by (simp add: bt_wf_def strict_sorted_iff)

lemma bt_get_iff: "bt_wf m \<Longrightarrow> map_of m k = Some v \<longleftrightarrow> (k, v) \<in> set m"
  by (auto dest: bt_wf_distinct map_of_is_SomeI map_of_SomeD)

lemma length_bt_insert_new: "map_of m k = None \<Longrightarrow> length (bt_insert k v m) = Suc (length m)"
  by (induction m) (auto split: if_splits)

lemma length_bt_insert_le: "length (bt_insert k v m) \<le> Suc (length m)"
  by (induction m) auto

lemma bt_from_keys: "bt_wf m \<Longrightarrow> map (\<lambda>k. (k, the (map_of m k))) (map fst m) = m"
proof (induction m)
  case Nil
  then show ?case by simp
next
  case (Cons e m)
  then have "map (\<lambda>k. (k, the (map_of (e # m) k))) (map fst m)
      = map (\<lambda>k. (k, the (map_of m k))) (map fst m)"
    by (intro map_cong) (auto simp: bt_wf_def)
  with Cons show ?case by (simp add: bt_wf_def)
qed

lemma bt_eqI:
  assumes "bt_wf m" "bt_wf m'" "map_of m = map_of m'"
  shows "m = m'"
proof -
  have "set (map fst m) = set (map fst m')"
    using assms(3) by (metis dom_map_of_conv_image_fst set_map)
  with assms have "map fst m = map fst m'"
    by (simp add: bt_wf_def strict_sorted_equal)
  with assms show ?thesis by (metis bt_from_keys)
qed

text \<open>
  The interface the components use: what a lookup returns after an insert or a removal, and
  that both keep the representation invariant.
\<close>

locale ordered_map =
  fixes get :: "'m \<Rightarrow> 'k \<Rightarrow> 'v option"
    and put :: "'k \<Rightarrow> 'v \<Rightarrow> 'm \<Rightarrow> 'm"
    and del :: "'k \<Rightarrow> 'm \<Rightarrow> 'm"
    and invar :: "'m \<Rightarrow> bool"
  assumes get_put: "get (put k v m) = (get m)(k \<mapsto> v)"
    and get_del: "get (del k m) = (get m)(k := None)"
    and invar_put: "invar m \<Longrightarrow> invar (put k v m)"
    and invar_del: "invar m \<Longrightarrow> invar (del k m)"
begin

lemma get_fold_del: "get (fold del ks m) k = (if k \<in> set ks then None else get m k)"
  by (induction ks arbitrary: m) (auto simp: get_del)

lemma invar_fold_del: "invar m \<Longrightarrow> invar (fold del ks m)"
  by (induction ks arbitrary: m) (auto simp: invar_del)

lemma get_fold_put:
  "get (fold (\<lambda>x. put (f x) (g x)) xs m) k
     = (case map_of (rev (map (\<lambda>x. (f x, g x)) xs)) k of Some v \<Rightarrow> Some v | None \<Rightarrow> get m k)"
  by (induction xs arbitrary: m) (auto simp: get_put map_add_def split: option.splits)

lemma invar_fold_put: "invar m \<Longrightarrow> invar (fold (\<lambda>x. put (f x) (g x)) xs m)"
  by (induction xs arbitrary: m) (auto simp: invar_put)

lemma get_fold_put_other:
  "k \<notin> f ` set xs \<Longrightarrow> get (fold (\<lambda>x. put (f x) (g x)) xs m) k = get m k"
  by (induction xs arbitrary: m) (auto simp: get_put)

end

interpretation bt: ordered_map map_of bt_insert bt_remove bt_wf
  by unfold_locales (simp_all add: map_of_bt_insert map_of_bt_remove bt_wf_bt_insert bt_wf_bt_remove)

lemmas bt_simps [simp] = bt.get_put bt.get_del
lemmas bt_invars [intro] = bt.invar_put bt.invar_del

text \<open>A \<open>BTreeSet\<close> is a strictly ascending list; insertion is \<^const>\<open>insort_insert\<close>.\<close>

abbreviation bs_wf :: "'a::linorder list \<Rightarrow> bool" where
  "bs_wf xs \<equiv> sorted_wrt (<) xs"

lemma bs_wf_insort_insert: "bs_wf xs \<Longrightarrow> bs_wf (insort_insert x xs)"
  by (simp add: strict_sorted_iff sorted_insort_insert distinct_insort_insert)

lemma bs_eqI: "bs_wf xs \<Longrightarrow> bs_wf ys \<Longrightarrow> set xs = set ys \<Longrightarrow> xs = ys"
  by (simp add: strict_sorted_equal)

lemma bs_wf_fold_insort: "bs_wf xs \<Longrightarrow> bs_wf (fold insort_insert ys xs)"
  by (induction ys arbitrary: xs) (auto simp: bs_wf_insort_insert)

lemma set_fold_insort: "set (fold insort_insert ys xs) = set ys \<union> set xs"
  by (induction ys arbitrary: xs) (auto simp: set_insort_insert)

end
