(* ===== verification/Chunk.thy ===== *)
theory Chunk
  imports Sec_Prelude
begin

text \<open>
  \<open>crates/secsec-chunk\<close>: keyed content-defined chunking. The gear table comes from an
  extendable-output hash of the seed, which is the parameter \<open>xof\<close> (key, input, output
  length). \<open>chunks\<close> cuts a whole buffer; \<open>chunk_stream\<close> cuts a source that is read piecemeal
  through a buffer of at most \<open>max\<close> bytes. The lemmas bound the chunks, show that they
  concatenate to the input, that both loops end, and that the two agree.
\<close>

section \<open>Constants and configuration\<close>

definition DEFAULT_MIN :: nat where "DEFAULT_MIN = 16 * 1024"
definition DEFAULT_AVG :: nat where "DEFAULT_AVG = 64 * 1024"
definition DEFAULT_MAX :: nat where "DEFAULT_MAX = 256 * 1024"
definition MAX_CHUNK_LEN :: nat where "MAX_CHUNK_LEN = DEFAULT_MAX"
definition NORMALIZATION :: nat where "NORMALIZATION = 2"

definition GEAR_LABEL :: bytes where
  "GEAR_LABEL = map (of_char :: char \<Rightarrow> u8) ''secsec-cdc-gear-v1''"

record chunker =
  gear :: "u64 list"
  cmin :: nat
  cavg :: nat
  cmax :: nat
  mask_s :: u64
  mask_l :: u64

definition build_gear :: "(bytes \<Rightarrow> bytes \<Rightarrow> nat \<Rightarrow> bytes) \<Rightarrow> bytes \<Rightarrow> u64 list" where
  "build_gear xof cdc_seed =
     (let b = xof cdc_seed GEAR_LABEL (256 * 8)
      in map (\<lambda>i. from_le (take 8 (drop (i * 8) b))) [0..<256])"

definition spread_mask :: "nat \<Rightarrow> u64" where
  "spread_mask count =
     (let count = max 1 (min 30 count)
      in fold (\<lambda>j m. m OR push_bit (63 - 2 * j) 1) [0..<count] 0)"

text \<open>\<open>usize::leading_zeros\<close> on a 64-bit target.\<close>

definition leading_zeros :: "nat \<Rightarrow> nat" where
  "leading_zeros x = length (takeWhile (\<lambda>i. \<not> bit x (63 - i)) [0..<64])"

definition floor_log2 :: "nat \<Rightarrow> nat" where
  "floor_log2 x = (64 - 1) - leading_zeros x"

text \<open>\<open>None\<close> is the failed assertion.\<close>

definition Chunker_new ::
    "(bytes \<Rightarrow> bytes \<Rightarrow> nat \<Rightarrow> bytes) \<Rightarrow> bytes \<Rightarrow> nat \<Rightarrow> nat \<Rightarrow> nat \<Rightarrow> chunker option" where
  "Chunker_new xof cdc_seed mn avg mx =
     (if 0 < mn \<and> mn \<le> avg \<and> avg \<le> mx then
        let bits = floor_log2 avg
        in Some \<lparr>gear = build_gear xof cdc_seed, cmin = mn, cavg = avg, cmax = mx,
             mask_s = spread_mask (bits + NORMALIZATION),
             mask_l = spread_mask (bits - NORMALIZATION)\<rparr>
      else None)"

definition Chunker_with_defaults :: "(bytes \<Rightarrow> bytes \<Rightarrow> nat \<Rightarrow> bytes) \<Rightarrow> bytes \<Rightarrow> chunker option" where
  "Chunker_with_defaults xof cdc_seed =
     Chunker_new xof cdc_seed DEFAULT_MIN DEFAULT_AVG DEFAULT_MAX"

section \<open>Cutting\<close>

text \<open>
  One of the two scanning loops of \<open>next_cut\<close>: \<open>Inl\<close> is a cut found (the early return),
  \<open>Inr\<close> the fingerprint when the loop runs out.
\<close>

function scan :: "chunker \<Rightarrow> u64 \<Rightarrow> bytes \<Rightarrow> nat \<Rightarrow> nat \<Rightarrow> u64 \<Rightarrow> nat + u64" where
  "scan c mk data lim i fp =
     (if i < lim then
        let fp = push_bit 1 fp + gear c ! unat (data ! i)
        in if fp AND mk = 0 then Inl (i + 1) else scan c mk data lim (i + 1) fp
      else Inr fp)"
  by pat_completeness auto
termination
  by (relation "measure (\<lambda>(c, mk, data, lim, i, fp). lim - i)") auto

declare scan.simps [simp del]

definition next_cut :: "chunker \<Rightarrow> bytes \<Rightarrow> nat" where
  "next_cut c data =
     (let n = length data
      in if n \<le> cmin c then n
         else
           let lim = min n (cmax c);
               center = min (cavg c) lim
           in case scan c (mask_s c) data center (cmin c) 0 of
                Inl k \<Rightarrow> k
              | Inr fp \<Rightarrow>
                  (case scan c (mask_l c) data lim (max (cmin c) center) fp of
                     Inl k \<Rightarrow> k
                   | Inr _ \<Rightarrow> lim))"

partial_function (option) chunks :: "chunker \<Rightarrow> bytes \<Rightarrow> bytes list option" where
  "chunks c data =
     (if data = [] then Some []
      else
        let len = next_cut c data
        in Option.bind (chunks c (drop len data)) (\<lambda>out. Some (take len data # out)))"

section \<open>Streaming\<close>

text \<open>
  A \<open>Read\<close> source, as the sequence of what its reads see: a piece of data (an empty piece is
  the \<open>Ok(0)\<close> of end of file, a piece longer than the buffer is delivered over several reads),
  an \<open>Interrupted\<close> error, or another error. The end of the sequence is end of file.
\<close>

datatype 'e read_event = Piece bytes | Interrupted | Failed 'e

datatype ('e, 'f) stream_error = Read 'e | Emit 'f

text \<open>The refill loop: fill \<open>buf\<close> up to \<open>mx\<close> bytes; the flag is \<open>eof\<close>.\<close>

fun refill_loop :: "nat \<Rightarrow> bytes \<Rightarrow> 'e read_event list \<Rightarrow> 'e + bytes \<times> bool \<times> 'e read_event list" where
  "refill_loop mx buf src =
     (if length buf < mx then
        (case src of
           [] \<Rightarrow> Inr (buf, True, [])
         | Interrupted # src' \<Rightarrow> refill_loop mx buf src'
         | Failed e # src' \<Rightarrow> Inl e
         | Piece p # src' \<Rightarrow>
             if p = [] then Inr (buf, True, src')
             else if length p \<le> mx - length buf then refill_loop mx (buf @ p) src'
             else Inr (buf @ take (mx - length buf) p, False, Piece (drop (mx - length buf) p) # src'))
      else Inr (buf, False, src))"

declare refill_loop.simps [simp del]

partial_function (option) chunk_loop ::
    "chunker \<Rightarrow> ('s \<Rightarrow> bytes \<Rightarrow> 'f + 's) \<Rightarrow> bytes \<Rightarrow> bool \<Rightarrow> 'e read_event list \<Rightarrow> nat \<Rightarrow> 's
      \<Rightarrow> (('e, 'f) stream_error \<times> 's + nat \<times> 's) option" where
  "chunk_loop c emit buf eof src tot s =
     (case (if \<not> eof \<and> length buf < cmax c then refill_loop (cmax c) buf src
            else Inr (buf, eof, src)) of
        Inl e \<Rightarrow> Some (Inl (Read e, s))
      | Inr st \<Rightarrow>
          if fst st = [] then Some (Inr (tot, s))
          else
            let k = next_cut c (fst st)
            in case emit s (take k (fst st)) of
                 Inl e \<Rightarrow> Some (Inl (Emit e, s))
               | Inr s' \<Rightarrow>
                   chunk_loop c emit (drop k (fst st)) (fst (snd st)) (snd (snd st)) (tot + k) s')"

definition chunk_stream ::
    "chunker \<Rightarrow> ('s \<Rightarrow> bytes \<Rightarrow> 'f + 's) \<Rightarrow> 'e read_event list \<Rightarrow> 's
      \<Rightarrow> (('e, 'f) stream_error \<times> 's + nat \<times> 's) option" where
  "chunk_stream c emit src s = chunk_loop c emit [] False src 0 s"

section \<open>The configuration invariant\<close>

definition chunker_ok :: "chunker \<Rightarrow> bool" where
  "chunker_ok c \<longleftrightarrow> 0 < cmin c \<and> cmin c \<le> cavg c \<and> cavg c \<le> cmax c \<and> length (gear c) = 256"

lemma Chunker_new_ok: "Chunker_new xof seed mn avg mx = Some c \<Longrightarrow> chunker_ok c"
  by (auto simp: Chunker_new_def chunker_ok_def build_gear_def Let_def split: if_splits)

lemma Chunker_new_total: "0 < mn \<Longrightarrow> mn \<le> avg \<Longrightarrow> avg \<le> mx \<Longrightarrow> \<exists>c. Chunker_new xof seed mn avg mx = Some c"
  by (simp add: Chunker_new_def Let_def)

lemma Chunker_with_defaults_total: "\<exists>c. Chunker_with_defaults xof seed = Some c"
  unfolding Chunker_with_defaults_def
  by (rule Chunker_new_total) (simp_all add: DEFAULT_MIN_def DEFAULT_AVG_def DEFAULT_MAX_def)

lemma default_max: "Chunker_with_defaults xof seed = Some c \<Longrightarrow> cmax c = MAX_CHUNK_LEN"
  by (auto simp: Chunker_with_defaults_def Chunker_new_def MAX_CHUNK_LEN_def Let_def
      split: if_splits)

section \<open>Bounds of a cut\<close>

lemma scan_Inl: "scan c mk data lim i fp = Inl k \<Longrightarrow> i < k \<and> k \<le> lim"
proof (induction c mk data lim i fp rule: scan.induct)
  case (1 c mk data lim i fp)
  then show ?case
    by (subst (asm) scan.simps) (force simp: Let_def split: if_splits)
qed

lemma scan_cong:
  "(\<And>k. k < lim \<Longrightarrow> data ! k = data' ! k) \<Longrightarrow> scan c mk data lim i fp = scan c mk data' lim i fp"
proof (induction c mk data lim i fp rule: scan.induct)
  case (1 c mk data lim i fp)
  then show ?case
    by (simp add: scan.simps [of c mk data lim i fp] scan.simps [of c mk data' lim i fp] Let_def)
qed

lemma next_cut_bounds:
  assumes "chunker_ok c" "data \<noteq> []"
  shows "0 < next_cut c data" "next_cut c data \<le> length data" "next_cut c data \<le> cmax c"
    "min (cmin c) (length data) \<le> next_cut c data"
  using assms
  by (auto simp: next_cut_def chunker_ok_def Let_def split: sum.splits dest!: scan_Inl)

text \<open>A cut looks at no byte past \<open>max\<close>: this is what lets the stream keep a bounded buffer.\<close>

lemma next_cut_prefix:
  assumes "chunker_ok c" "cmax c \<le> length buf"
  shows "next_cut c (buf @ rest) = next_cut c buf"
proof -
  have e: "min (length (buf @ rest)) (cmax c) = cmax c" "min (length buf) (cmax c) = cmax c"
    using assms(2) by auto
  have s: "scan c mk (buf @ rest) lim i fp = scan c mk buf lim i fp" if "lim \<le> cmax c"
    for mk lim i fp
    using assms(2) that by (intro scan_cong) (simp add: nth_append)
  show ?thesis
  proof (cases "cmin c < length buf")
    case True
    then show ?thesis
      using e by (simp add: next_cut_def Let_def s split: sum.split)
  next
    case False
    with assms have eq: "cmax c = cmin c" "cavg c = cmin c" "length buf = cmin c"
      by (auto simp: chunker_ok_def)
    have "scan c mk data (cmin c) (cmin c) fp = Inr fp" for mk data fp
      by (simp add: scan.simps)
    then show ?thesis by (simp add: next_cut_def Let_def eq)
  qed
qed

section \<open>Whole buffers\<close>

text \<open>The chunks of \<open>data\<close> computed by recursion on the length: the loop always ends.\<close>

lemma chunks_total: "chunker_ok c \<Longrightarrow> \<exists>out. chunks c data = Some out"
proof (induction data rule: length_induct)
  case (1 data)
  show ?case
  proof (cases "data = []")
    case True
    then show ?thesis by (simp add: chunks.simps)
  next
    case False
    with 1 next_cut_bounds(1) [of c data]
    have "\<exists>out. chunks c (drop (next_cut c data) data) = Some out" by simp
    with False show ?thesis by (auto simp: chunks.simps [of c data] Let_def)
  qed
qed

lemma chunks_step:
  assumes "data \<noteq> []"
  shows "chunks c data = Some out \<longleftrightarrow>
    (\<exists>out'. chunks c (drop (next_cut c data) data) = Some out' \<and> out = take (next_cut c data) data # out')"
  using assms by (auto simp: chunks.simps [of c data] Let_def bind_eq_Some_conv)

lemma chunks_props:
  "chunker_ok c \<Longrightarrow> chunks c data = Some out \<Longrightarrow>
     concat out = data \<and> (\<forall>x \<in> set out. x \<noteq> [] \<and> length x \<le> cmax c)
     \<and> (\<forall>x \<in> set (butlast out). cmin c \<le> length x)"
proof (induction data arbitrary: out rule: length_induct)
  case (1 data)
  show ?case
  proof (cases "data = []")
    case True
    with 1 show ?thesis by (simp add: chunks.simps)
  next
    case False
    let ?n = "next_cut c data"
    obtain out' where out': "chunks c (drop ?n data) = Some out'" "out = take ?n data # out'"
      using "1.prems"(2) chunks_step [OF False] by blast
    note b = next_cut_bounds [OF "1.prems"(1) False]
    have "length (drop ?n data) < length data" using b(1) False by simp
    then have ih: "concat out' = drop ?n data" "\<forall>x \<in> set out'. x \<noteq> [] \<and> length x \<le> cmax c"
      "\<forall>x \<in> set (butlast out'). cmin c \<le> length x"
      using "1.IH" "1.prems"(1) out'(1) by blast+
    have "cmin c \<le> length (take ?n data)" if "out' \<noteq> []"
    proof (rule ccontr)
      assume "\<not> ?thesis"
      with b(2,4) have "?n = length data" by (auto simp: min_def split: if_splits)
      with out'(1) that show False by (simp add: chunks.simps [of c "[]"])
    qed
    with ih b False out'(2) show ?thesis by auto
  qed
qed

section \<open>Streams\<close>

text \<open>
  What a source delivers before its end, if no read of it fails: the pieces up to the first
  empty one.
\<close>

fun delivered :: "'e read_event list \<Rightarrow> bytes option" where
  "delivered [] = Some []"
| "delivered (Interrupted # src) = delivered src"
| "delivered (Failed e # src) = None"
| "delivered (Piece p # src) = (if p = [] then Some [] else map_option ((@) p) (delivered src))"

text \<open>The emits of a list of chunks, with the count of bytes emitted so far.\<close>

fun emit_all :: "('s \<Rightarrow> bytes \<Rightarrow> 'f + 's) \<Rightarrow> bytes list \<Rightarrow> nat \<Rightarrow> 's \<Rightarrow> ('e, 'f) stream_error \<times> 's + nat \<times> 's" where
  "emit_all emit [] tot s = Inr (tot, s)"
| "emit_all emit (x # xs) tot s =
     (case emit s x of
        Inl e \<Rightarrow> Inl (Emit e, s)
      | Inr s' \<Rightarrow> emit_all emit xs (tot + length x) s')"

lemma refill_loop_spec:
  assumes "delivered src = Some d" "length buf \<le> mx"
  shows "\<exists>buf' eof src' d'. refill_loop mx buf src = Inr (buf', eof, src') \<and> buf @ d = buf' @ d'
    \<and> length buf' \<le> mx \<and> (if eof then d' = [] else length buf' = mx \<and> delivered src' = Some d')"
  using assms
proof (induction src arbitrary: buf d)
  case Nil
  then show ?case by (subst refill_loop.simps) auto
next
  case (Cons ev src)
  show ?case
  proof (cases ev)
    case (Piece p)
    show ?thesis
    proof (cases "p = [] \<or> length buf = mx")
      case True
      with Cons.prems Piece show ?thesis
        by (subst refill_loop.simps) (cases "length buf < mx"; auto)
    next
      case False
      with Cons.prems Piece obtain d1 where d1: "delivered src = Some d1" "d = p @ d1" by auto
      show ?thesis
      proof (cases "length p \<le> mx - length buf")
        case True
        with False Cons.prems Cons.IH [OF d1(1), of "buf @ p"] Piece d1(2) show ?thesis
          by (subst refill_loop.simps) auto
      next
        case over: False
        let ?k = "mx - length buf"
        have "d = take ?k p @ drop ?k p @ d1" using d1(2) by simp
        with over False Cons.prems Piece d1(1) show ?thesis
          by (subst refill_loop.simps) auto
      qed
    qed
  next
    case Interrupted
    with Cons show ?thesis
      by (subst refill_loop.simps) (cases "length buf < mx"; auto)
  qed (use Cons.prems in auto)
qed

text \<open>
  The loop state: \<open>pending\<close> is what is still to be cut, the buffer and then what the source has
  left, unless the end was seen.
\<close>

lemma chunk_loop_chunks:
  assumes "chunker_ok c" "chunks c pending = Some out" "length buf \<le> cmax c"
    "if eof then pending = buf else \<exists>d. delivered src = Some d \<and> pending = buf @ d"
  shows "chunk_loop c emit buf eof src tot s = Some (emit_all emit out tot s)"
  using assms(2-)
proof (induction pending arbitrary: out buf eof src tot s rule: length_induct)
  case (1 pending)
  define st where "st = (if \<not> eof \<and> length buf < cmax c then refill_loop (cmax c) buf src
    else Inr (buf, eof, src))"
  obtain buf' eof' src' d' where st: "st = Inr (buf', eof', src')" "pending = buf' @ d'"
    "length buf' \<le> cmax c"
    "if eof' then d' = [] else length buf' = cmax c \<and> delivered src' = Some d'"
  proof (cases "\<not> eof \<and> length buf < cmax c")
    case True
    with "1.prems" obtain d where "delivered src = Some d" "pending = buf @ d" by auto
    with True "1.prems"(2) refill_loop_spec [of src d buf "cmax c"] that show thesis
      unfolding st_def by auto
  next
    case False
    with "1.prems" that [of buf eof src "the (delivered src)"] that [of buf eof src "[]"]
    show thesis unfolding st_def by (cases eof) auto
  qed
  note step = chunk_loop.simps [of c emit buf eof src tot s, folded st_def, unfolded st(1)]
  show ?case
  proof (cases "buf' = []")
    case True
    with st(4) assms(1) have "pending = []" using st(2) by (auto simp: chunker_ok_def split: if_splits)
    with "1.prems"(1) True show ?thesis by (simp add: step chunks.simps)
  next
    case False
    let ?n = "next_cut c buf'"
    note b = next_cut_bounds [OF assms(1) False]
    have n: "next_cut c pending = ?n"
      using st(2,4) next_cut_prefix [OF assms(1), of buf' d'] by (auto split: if_splits)
    have split: "take ?n pending = take ?n buf'" "drop ?n pending = drop ?n buf' @ d'"
      using st(2) b(2) by simp_all
    obtain out' where out': "chunks c (drop ?n pending) = Some out'" "out = take ?n buf' # out'"
      using "1.prems"(1) chunks_step [of pending c out] False st(2) n split(1) by auto
    have "chunk_loop c emit (drop ?n buf') eof' src' (tot + ?n) s' =
        Some (emit_all emit out' (tot + ?n) s')" for s'
    proof (rule "1.IH" [rule_format, OF _ out'(1)])
      show "length (drop ?n pending) < length pending" using b(1,2) False unfolding split(2) st(2) by simp
      show "if eof' then drop ?n pending = drop ?n buf'
          else \<exists>d. delivered src' = Some d \<and> drop ?n pending = drop ?n buf' @ d"
        using st(4) unfolding split(2) by (auto split: if_splits)
    qed (use st(3) in simp)
    with False b(2) out'(2) show ?thesis
      by (simp add: step Let_def min_def split: sum.splits)
  qed
qed

section \<open>Properties\<close>

text \<open>
  C33: the chunker is total and lossless: for every configuration \<open>Chunker::new\<close> accepts and every
  buffer, \<open>chunks\<close> returns; the slices concatenate to the buffer, none is empty or longer than
  \<open>max\<close>, and every slice but the last has at least \<open>min\<close> bytes.
\<close>

theorem chunks_lossless_bounded:
  assumes "Chunker_new xof seed mn avg mx = Some c"
  shows "\<exists>out. chunks c data = Some out \<and> concat out = data
    \<and> (\<forall>x \<in> set out. 0 < length x \<and> length x \<le> mx)
    \<and> (\<forall>x \<in> set (butlast out). mn \<le> length x)"
proof -
  have ok: "chunker_ok c" using assms by (rule Chunker_new_ok)
  moreover have "cmin c = mn" "cmax c = mx"
    using assms by (auto simp: Chunker_new_def Let_def split: if_splits)
  moreover obtain out where "chunks c data = Some out" using chunks_total [OF ok] by blast
  ultimately show ?thesis using chunks_props [OF ok, of data out] by auto
qed

definition toy_xof :: "bytes \<Rightarrow> bytes \<Rightarrow> nat \<Rightarrow> bytes" where
  "toy_xof key label n = map (\<lambda>i. of_nat (i * i + length key)) [0..<n]"

theorem chunks_lossless_bounded_witness:
  "\<exists>c. Chunker_new toy_xof [7] 2 4 8 = Some c \<and>
     (\<exists>out. chunks c [1, 2, 3, 4, 5, 6, 7, 8, 9, 10] = Some out
        \<and> concat out = [1, 2, 3, 4, 5, 6, 7, 8, 9, 10]
        \<and> (\<forall>x \<in> set out. 0 < length x \<and> length x \<le> 8)
        \<and> (\<forall>x \<in> set (butlast out). 2 \<le> length x))"
proof -
  obtain c where "Chunker_new toy_xof [7] 2 4 8 = Some c"
    using Chunker_new_total [of 2 4 8] by auto
  with chunks_lossless_bounded [OF this] show ?thesis by blast
qed

text \<open>
  C32: streaming is chunking: a source that delivers \<open>d\<close> in pieces of any size, with any number of
  interrupted reads, is cut by \<open>chunk_stream\<close> exactly as \<open>chunks\<close> cuts \<open>d\<close> whole; the callback sees
  those slices in order, its first error ends the stream, and otherwise the count returned is the
  length of \<open>d\<close>. The stream always returns.
\<close>

theorem chunk_stream_is_chunks:
  assumes "Chunker_new xof seed mn avg mx = Some c" "delivered src = Some d"
  shows "\<exists>out. chunks c d = Some out \<and> chunk_stream c emit src s = Some (emit_all emit out 0 s)"
proof -
  have ok: "chunker_ok c" using assms(1) by (rule Chunker_new_ok)
  obtain out where "chunks c d = Some out" using chunks_total [OF ok] by blast
  with chunk_loop_chunks [OF ok this, of "[]" False src emit 0 s] assms(2) show ?thesis
    by (simp add: chunk_stream_def)
qed

theorem chunk_stream_is_chunks_witness:
  "\<exists>c out. Chunker_new toy_xof [7] 2 4 8 = Some c \<and> chunks c [1, 2, 3, 4, 5] = Some out \<and>
     chunk_stream c (\<lambda>s x. Inr (s @ [x]) :: unit + bytes list)
       ([Piece [1, 2], Interrupted, Piece [3, 4, 5], Piece []] :: unit read_event list) []
       = Some (emit_all (\<lambda>s x. Inr (s @ [x])) out 0 [])"
proof -
  obtain c where c: "Chunker_new toy_xof [7] 2 4 8 = Some c"
    using Chunker_new_total [of 2 4 8] by auto
  have "delivered ([Piece [1, 2], Interrupted, Piece [3, 4, 5], Piece []] :: unit read_event list) = Some [1, 2, 3, 4, 5]"
    by simp
  from chunk_stream_is_chunks [OF c this, of "\<lambda>s x. Inr (s @ [x])" "[]"] c show ?thesis
    by (elim exE conjE) (intro exI conjI)
qed

end
