(* ===== verification/Canon.thy ===== *)
theory Canon
  imports Sec_Prelude
begin

text \<open>
  \<open>crates/secsec-canon\<close>: the canonical encoder \<open>Writer\<close> and the strict decoder \<open>Reader\<close>.

  A writer is its buffer, or \<open>None\<close> once \<open>Writer::bytes\<close> has panicked on a byte string longer
  than \<open>u32::MAX\<close> (release builds abort on panic, so nothing runs after it). A reader is the
  buffer and the position, threaded through the reads; every read returns a \<open>Result\<close>.

  The locale \<open>codec\<close> states what it means for a writer function and a reader function to belong
  together: reading an image back gives the value and consumes exactly the image, and a read
  that succeeds has consumed exactly the image of an admissible value. List fields and whole
  messages are proved once inside the locale.
\<close>


section \<open>Errors\<close>

datatype canon_error =
    UnexpectedEof nat nat
  | LengthExceedsMax nat nat
  | TrailingBytes nat
  | NonCanonical
  | CanonPanic \<comment> \<open>the encoder called by \<open>verify_reencode\<close> panicked\<close>

section \<open>Writer\<close>

type_synonym writer = "bytes option"

definition Writer_new :: writer where
  "Writer_new = Some []"

definition Writer_raw :: "bytes \<Rightarrow> writer \<Rightarrow> writer" where
  "Writer_raw b w = map_option (\<lambda>buf. buf @ b) w"

definition Writer_u8 :: "u8 \<Rightarrow> writer \<Rightarrow> writer" where
  "Writer_u8 v w = map_option (\<lambda>buf. buf @ [v]) w"

definition Writer_u16 :: "u16 \<Rightarrow> writer \<Rightarrow> writer" where
  "Writer_u16 v w = map_option (\<lambda>buf. buf @ le_bytes 2 v) w"

definition Writer_u32 :: "u32 \<Rightarrow> writer \<Rightarrow> writer" where
  "Writer_u32 v w = map_option (\<lambda>buf. buf @ le_bytes 4 v) w"

definition Writer_u64 :: "u64 \<Rightarrow> writer \<Rightarrow> writer" where
  "Writer_u64 v w = map_option (\<lambda>buf. buf @ le_bytes 8 v) w"

definition u32_max :: nat where
  "u32_max = 4294967295"

definition Writer_bytes :: "bytes \<Rightarrow> writer \<Rightarrow> writer" where
  "Writer_bytes b w =
     (if length b \<le> u32_max then Writer_raw b (Writer_u32 (of_nat (length b)) w) else None)"

text \<open>A chain of calls on one writer, \<open>w.u8(..).raw(..)\<close> in the source.\<close>

definition writes :: "(writer \<Rightarrow> writer) list \<Rightarrow> writer \<Rightarrow> writer" where
  "writes calls w = fold (\<lambda>f. f) calls w"

lemma writes_simps [simp]: "writes [] w = w" "writes (f # fs) w = writes fs (f w)"
  by (simp_all add: writes_def)

definition Writer_finish :: "writer \<Rightarrow> bytes option" where
  "Writer_finish w = w"

section \<open>Reader\<close>

record reader =
  rbuf :: bytes
  rpos :: nat

definition Reader_new :: "bytes \<Rightarrow> reader" where
  "Reader_new b = \<lparr>rbuf = b, rpos = 0\<rparr>"

definition Reader_remaining :: "reader \<Rightarrow> nat" where
  "Reader_remaining r = length (rbuf r) - rpos r"

definition Reader_take :: "nat \<Rightarrow> reader \<Rightarrow> canon_error + bytes \<times> reader" where
  "Reader_take n r =
     (let have = Reader_remaining r
      in if have < n then Inl (UnexpectedEof n have)
         else Inr (take n (drop (rpos r) (rbuf r)), r\<lparr>rpos := rpos r + n\<rparr>))"

definition Reader_u8 :: "reader \<Rightarrow> canon_error + u8 \<times> reader" where
  "Reader_u8 r = rbind (Reader_take 1 r) (\<lambda>(b, r). Inr (hd b, r))"

definition Reader_u16 :: "reader \<Rightarrow> canon_error + u16 \<times> reader" where
  "Reader_u16 r = rbind (Reader_take 2 r) (\<lambda>(b, r). Inr (from_le b, r))"

definition Reader_u32 :: "reader \<Rightarrow> canon_error + u32 \<times> reader" where
  "Reader_u32 r = rbind (Reader_take 4 r) (\<lambda>(b, r). Inr (from_le b, r))"

definition Reader_u64 :: "reader \<Rightarrow> canon_error + u64 \<times> reader" where
  "Reader_u64 r = rbind (Reader_take 8 r) (\<lambda>(b, r). Inr (from_le b, r))"

definition Reader_bytes :: "nat \<Rightarrow> reader \<Rightarrow> canon_error + bytes \<times> reader" where
  "Reader_bytes mx r =
     rbind (Reader_u32 r) (\<lambda>(len, r).
       if mx < unat len then Inl (LengthExceedsMax (unat len) mx)
       else Reader_take (unat len) r)"

definition Reader_raw :: "nat \<Rightarrow> reader \<Rightarrow> canon_error + bytes \<times> reader" where
  "Reader_raw n r = Reader_take n r"

definition Reader_finish :: "reader \<Rightarrow> canon_error + unit" where
  "Reader_finish r =
     (let remaining = Reader_remaining r
      in if remaining = 0 then Inr () else Inl (TrailingBytes remaining))"

definition verify_reencode :: "bytes \<Rightarrow> 'a \<Rightarrow> ('a \<Rightarrow> bytes option) \<Rightarrow> canon_error + unit" where
  "verify_reencode received v encode =
     (case encode v of
        None \<Rightarrow> Inl CanonPanic
      | Some b \<Rightarrow> if b = received then Inr () else Inl NonCanonical)"

text \<open>
  The loop \<open>for _ in 0..n { v.push(read(&mut r)?); }\<close> of every list decoder, and the
  conversion of a reader's error by the question-mark operator.
\<close>

fun read_times :: "nat \<Rightarrow> (reader \<Rightarrow> 'e + 'a \<times> reader) \<Rightarrow> reader \<Rightarrow> 'e + 'a list \<times> reader" where
  "read_times 0 rd r = Inr ([], r)"
| "read_times (Suc n) rd r =
     rbind (rd r) (\<lambda>(x, r). rbind (read_times n rd r) (\<lambda>(xs, r). Inr (x # xs, r)))"

section \<open>The view of a reader as its unread suffix\<close>

definition rest :: "reader \<Rightarrow> bytes" where
  "rest r = drop (rpos r) (rbuf r)"

definition adv :: "nat \<Rightarrow> reader \<Rightarrow> reader" where
  "adv n r = r\<lparr>rpos := rpos r + n\<rparr>"

lemma rest_new [simp]: "rest (Reader_new b) = b"
  by (simp add: rest_def Reader_new_def)

lemma rest_adv [simp]: "rest (adv n r) = drop n (rest r)"
  by (simp add: rest_def adv_def add.commute)

lemma adv_adv: "adv n (adv m r) = adv (m + n) r"
  by (simp add: adv_def add.assoc)

lemma adv_0 [simp]: "adv 0 r = r"
  by (simp add: adv_def)

lemma remaining_rest: "Reader_remaining r = length (rest r)"
  by (simp add: Reader_remaining_def rest_def)

lemma Reader_take_rest:
  "Reader_take n r =
     (if length (rest r) < n then Inl (UnexpectedEof n (length (rest r)))
      else Inr (take n (rest r), adv n r))"
  by (simp add: Reader_take_def remaining_rest rest_def adv_def Let_def)

lemma Reader_finish_rest:
  "Reader_finish r = (if rest r = [] then Inr () else Inl (TrailingBytes (length (rest r))))"
  by (simp add: Reader_finish_def remaining_rest Let_def)

lemma Reader_finish_eq_Inr [simp]: "Reader_finish r = Inr u \<longleftrightarrow> rest r = []"
  by (simp add: Reader_finish_rest)

lemma Reader_take_accepted:
  "Reader_take n r = Inr (b, r') \<Longrightarrow> length b = n \<and> rest r = b @ rest r'"
  by (auto simp: Reader_take_rest split: if_splits)

section \<open>The codec interface\<close>

text \<open>
  \<open>img\<close> is the wire image of an admissible value (\<open>ok\<close>), \<open>wr\<close> the code that writes it and
  \<open>rd\<close> the code that reads it.
\<close>

locale codec =
  fixes img :: "'a \<Rightarrow> bytes"
    and ok :: "'a \<Rightarrow> bool"
    and wr :: "'a \<Rightarrow> writer \<Rightarrow> writer"
    and rd :: "reader \<Rightarrow> 'e + 'a \<times> reader"
  assumes written: "ok x \<Longrightarrow> wr x (Some s) = Some (s @ img x)"
    and read_back: "rest r = img x @ ys \<Longrightarrow> ok x \<Longrightarrow> rd r = Inr (x, adv (length (img x)) r)"
    and accepted: "rd r = Inr (x, r') \<Longrightarrow> ok x \<and> rest r = img x @ rest r'"
begin

lemma written_list: "list_all ok xs \<Longrightarrow> fold wr xs (Some s) = Some (s @ concat (map img xs))"
  by (induction xs arbitrary: s) (auto simp: written)

lemma times_read_back:
  "rest r = concat (map img xs) @ ys \<Longrightarrow> list_all ok xs \<Longrightarrow>
     read_times (length xs) rd r = Inr (xs, adv (length (concat (map img xs))) r)"
proof (induction xs arbitrary: r)
  case Nil
  then show ?case by simp
next
  case (Cons x xs)
  then have "rd r = Inr (x, adv (length (img x)) r)"
    by (intro read_back [where ys = "concat (map img xs) @ ys"]) auto
  with Cons show ?case by (simp add: adv_adv)
qed

lemma times_accepted:
  "read_times n rd r = Inr (xs, r') \<Longrightarrow>
     list_all ok xs \<and> length xs = n \<and> rest r = concat (map img xs) @ rest r'"
proof (induction n arbitrary: r xs)
  case 0
  then show ?case by auto
next
  case (Suc n)
  then obtain x r1 ys where x: "rd r = Inr (x, r1)"
    and ys: "read_times n rd r1 = Inr (ys, r')" and xs: "xs = x # ys"
    by (auto simp: rbind_eq_Inr split: prod.splits)
  from accepted [OF x] Suc.IH [OF ys] xs show ?case by simp
qed

lemma lift_err: "codec img ok wr (\<lambda>r. map_err h (rd r))"
  by unfold_locales (auto simp: written read_back dest: accepted)

text \<open>A message that is one value and nothing else.\<close>

lemma whole_iff:
  "rbind (rd (Reader_new b)) (\<lambda>(x, r). rbind (map_err h (Reader_finish r)) (\<lambda>_. Inr x)) = Inr x
     \<longleftrightarrow> ok x \<and> b = img x"
proof
  assume "ok x \<and> b = img x"
  then show "rbind (rd (Reader_new b))
      (\<lambda>(x, r). rbind (map_err h (Reader_finish r)) (\<lambda>_. Inr x)) = Inr x"
    using read_back [of "Reader_new b" x "[]"] by (simp add: Reader_finish_rest)
next
  assume "rbind (rd (Reader_new b))
      (\<lambda>(x, r). rbind (map_err h (Reader_finish r)) (\<lambda>_. Inr x)) = Inr x"
  then obtain r where "rd (Reader_new b) = Inr (x, r)" and "rest r = []"
    by (auto simp: rbind_eq_Inr split: prod.splits)
  with accepted [of "Reader_new b" x r] show "ok x \<and> b = img x"
    by simp
qed

end

section \<open>The primitive codecs\<close>

lemmas Writer_defs = Writer_new_def Writer_raw_def Writer_u8_def Writer_u16_def Writer_u32_def
  Writer_u64_def Writer_bytes_def Writer_finish_def

lemmas Reader_defs = Reader_u8_def Reader_u16_def Reader_u32_def Reader_u64_def Reader_raw_def
  Reader_take_rest

lemma take_length_append: "rest r = xs @ ys \<Longrightarrow> Reader_take (length xs) r = Inr (xs, adv (length xs) r)"
  by (simp add: Reader_take_rest)

interpretation c_u8: codec "\<lambda>v. [v]" "\<lambda>_. True" Writer_u8 Reader_u8
proof unfold_locales
  fix r :: reader and x r'
  assume "Reader_u8 r = Inr (x, r')"
  then obtain b where "Reader_take 1 r = Inr (b, r')" "x = hd b"
    by (auto simp: Reader_u8_def rbind_eq_Inr)
  then show "True \<and> rest r = [x] @ rest r'"
    by (auto dest!: Reader_take_accepted simp: length_Suc_conv)
qed (auto simp: Writer_u8_def Reader_u8_def Reader_take_rest)

interpretation c_u16: codec "le_bytes 2" "\<lambda>_. True" Writer_u16 Reader_u16
  by unfold_locales
    (auto simp: Writer_u16_def Reader_u16_def rbind_eq_Inr from_le_le_bytes le_bytes_from_le
      take_length_append [where xs = "le_bytes 2 _", simplified] dest!: Reader_take_accepted)

interpretation c_u32: codec "le_bytes 4" "\<lambda>_. True" Writer_u32 Reader_u32
  by unfold_locales
    (auto simp: Writer_u32_def Reader_u32_def rbind_eq_Inr from_le_le_bytes le_bytes_from_le
      take_length_append [where xs = "le_bytes 4 _", simplified] dest!: Reader_take_accepted)

interpretation c_u64: codec "le_bytes 8" "\<lambda>_. True" Writer_u64 Reader_u64
  by unfold_locales
    (auto simp: Writer_u64_def Reader_u64_def rbind_eq_Inr from_le_le_bytes le_bytes_from_le
      take_length_append [where xs = "le_bytes 8 _", simplified] dest!: Reader_take_accepted)

lemma raw_codec: "codec (\<lambda>b. b) (\<lambda>b. length b = n) Writer_raw (Reader_raw n)"
  by unfold_locales
    (auto simp: Writer_raw_def Reader_raw_def take_length_append dest!: Reader_take_accepted)

text \<open>A length-prefixed byte string bounded by \<open>mx\<close>.\<close>

definition bytes_img :: "bytes \<Rightarrow> bytes" where
  "bytes_img b = le_bytes 4 (of_nat (length b) :: u32) @ b"

lemma length_bytes_img [simp]: "length (bytes_img b) = 4 + length b"
  by (simp add: bytes_img_def)

lemma Writer_Some [simp]:
  "Writer_raw b (Some s) = Some (s @ b)"
  "Writer_u8 v8 (Some s) = Some (s @ [v8])"
  "Writer_u16 v16 (Some s) = Some (s @ le_bytes 2 v16)"
  "Writer_u32 v32 (Some s) = Some (s @ le_bytes 4 v32)"
  "Writer_u64 v64 (Some s) = Some (s @ le_bytes 8 v64)"
  "Writer_new = Some []"
  "Writer_finish w = w"
  by (simp_all add: Writer_defs)

lemma Writer_bytes_Some [simp]: "length b \<le> u32_max \<Longrightarrow> Writer_bytes b (Some s) = Some (s @ bytes_img b)"
  by (simp add: Writer_bytes_def bytes_img_def)

lemma fold_Writer_raw [simp]: "fold Writer_raw bs (Some s) = Some (s @ concat bs)"
  by (induction bs arbitrary: s) auto

lemma unat_of_nat_u32: "n \<le> u32_max \<Longrightarrow> unat (of_nat n :: u32) = n"
  by (simp add: unat_of_nat u32_max_def)

lemma unat_u32_le: "unat (v :: u32) \<le> u32_max"
proof -
  have "unat v < 2 ^ 32" using unsigned_less [of v] by simp
  then show ?thesis by (simp add: u32_max_def)
qed

lemma bytes_codec:
  "codec bytes_img (\<lambda>b. length b \<le> mx \<and> length b \<le> u32_max) Writer_bytes (Reader_bytes mx)"
proof unfold_locales
  fix x :: bytes and r :: reader and ys
  assume "length x \<le> mx \<and> length x \<le> u32_max" "rest r = bytes_img x @ ys"
  then show "Reader_bytes mx r = Inr (x, adv (length (bytes_img x)) r)"
    using c_u32.read_back [where x = "of_nat (length x)" and r = r and ys = "x @ ys"]
    by (simp add: Reader_bytes_def bytes_img_def unat_of_nat_u32 Reader_take_rest adv_adv)
next
  fix x :: bytes and r r' :: reader
  assume "Reader_bytes mx r = Inr (x, r')"
  then obtain len r1 where len: "Reader_u32 r = Inr (len, r1)" "unat len \<le> mx"
    and x: "Reader_take (unat len) r1 = Inr (x, r')"
    by (auto simp: Reader_bytes_def rbind_eq_Inr split: prod.splits if_splits)
  from Reader_take_accepted [OF x] have l: "length x = unat len" by simp
  have "rest r = le_bytes 4 len @ x @ rest r'"
    using c_u32.accepted [OF len(1)] Reader_take_accepted [OF x] by simp
  with l len(2) show "(length x \<le> mx \<and> length x \<le> u32_max) \<and> rest r = bytes_img x @ rest r'"
    by (simp add: bytes_img_def unat_u32_le)
qed simp

end
