(* ===== verification/Frame.thy ===== *)
theory Frame
  imports Canon
begin

text \<open>
  \<open>crates/secsec-frame\<close>: the 11-byte object FRAME, the stored-blob layout
  \<open>FRAME | ctx_tag(32) | ciphertext\<close>, and the decoder bounds. The lemmas show that
  \<open>Frame::decode\<close> accepts exactly the encodings of supported frames, and that
  \<open>parse_blob\<close> accepts exactly the blobs \<open>assemble_blob\<close> builds under the expected FRAME.
\<close>

section \<open>Constants\<close>

definition MAGIC :: bytes where
  "MAGIC = [0x73, 0x73, 0x65, 0x63]"

definition FORMAT_VERSION_V1 :: u8 where "FORMAT_VERSION_V1 = 1"
definition FORMAT_VERSION_V2 :: u8 where "FORMAT_VERSION_V2 = 2"
definition MIN_FORMAT_VERSION :: u8 where "MIN_FORMAT_VERSION = 1"
definition MAX_FORMAT_VERSION :: u8 where "MAX_FORMAT_VERSION = FORMAT_VERSION_V2"
definition ALGO_V1 :: u8 where "ALGO_V1 = 1"
definition MIN_ALGO_ID :: u8 where "MIN_ALGO_ID = 1"

definition FRAME_LEN :: nat where "FRAME_LEN = 11"
definition CTX_TAG_LEN :: nat where "CTX_TAG_LEN = 32"
definition ID_LEN :: nat where "ID_LEN = 32"
definition MAX_BLOB_SIZE :: nat where "MAX_BLOB_SIZE = 16 * 1024 * 1024"
definition MAX_TREE_DEPTH :: nat where "MAX_TREE_DEPTH = 64"
definition MAX_ROSTER_ENTRY_SIZE :: nat where "MAX_ROSTER_ENTRY_SIZE = 4 * 1024"
definition MAX_LIST_ELEMENTS :: nat where "MAX_LIST_ELEMENTS = 4096"
definition MAX_NAME_LEN :: nat where "MAX_NAME_LEN = 4096"

lemmas frame_consts = MAGIC_def FORMAT_VERSION_V1_def FORMAT_VERSION_V2_def
  MIN_FORMAT_VERSION_def MAX_FORMAT_VERSION_def ALGO_V1_def MIN_ALGO_ID_def FRAME_LEN_def
  CTX_TAG_LEN_def ID_LEN_def MAX_BLOB_SIZE_def MAX_ROSTER_ENTRY_SIZE_def MAX_LIST_ELEMENTS_def

section \<open>Object types\<close>

datatype obj_type =
  TChunk | TTree | TCommit | THead | TRosterEntry | TKeyhist | TRosterKeyhist

fun ObjType_as_u8 :: "obj_type \<Rightarrow> u8" where
  "ObjType_as_u8 TChunk = 0"
| "ObjType_as_u8 TTree = 1"
| "ObjType_as_u8 TCommit = 2"
| "ObjType_as_u8 THead = 3"
| "ObjType_as_u8 TRosterEntry = 4"
| "ObjType_as_u8 TKeyhist = 6"
| "ObjType_as_u8 TRosterKeyhist = 7"

definition ObjType_from_u8 :: "u8 \<Rightarrow> obj_type option" where
  "ObjType_from_u8 v =
     (if v = 0 then Some TChunk
      else if v = 1 then Some TTree
      else if v = 2 then Some TCommit
      else if v = 3 then Some THead
      else if v = 4 then Some TRosterEntry
      else if v = 6 then Some TKeyhist
      else if v = 7 then Some TRosterKeyhist
      else None)"

lemma ObjType_from_as [simp]: "ObjType_from_u8 (ObjType_as_u8 t) = Some t"
  by (cases t) (simp_all add: ObjType_from_u8_def)

lemma ObjType_from_u8_Some: "ObjType_from_u8 v = Some t \<longleftrightarrow> v = ObjType_as_u8 t"
  by (cases t) (auto simp: ObjType_from_u8_def split: if_splits)

section \<open>FRAME\<close>

record frame =
  format_version :: u8
  algo_id :: u8
  gen :: u32
  obj_type :: obj_type

datatype frame_error =
    BadMagic
  | UnsupportedFormatVersion u8
  | UnsupportedAlgo u8
  | UnknownType u8
  | Truncated
  | BlobTooLarge nat nat
  | ShortBlob
  | FrameMismatch

definition Frame_v1 :: "u32 \<Rightarrow> obj_type \<Rightarrow> frame" where
  "Frame_v1 g t =
     \<lparr>format_version = FORMAT_VERSION_V1, algo_id = ALGO_V1, gen = g, obj_type = t\<rparr>"

definition Frame_v2 :: "u32 \<Rightarrow> obj_type \<Rightarrow> frame" where
  "Frame_v2 g t = (Frame_v1 g t)\<lparr>format_version := FORMAT_VERSION_V2\<rparr>"

definition Frame_is_v2 :: "frame \<Rightarrow> bool" where
  "Frame_is_v2 f \<longleftrightarrow> format_version f = FORMAT_VERSION_V2"

text \<open>No length-prefixed field is written, so the writer cannot panic here.\<close>

definition Frame_encode :: "frame \<Rightarrow> bytes" where
  "Frame_encode f =
     the (Writer_finish
       (writes [Writer_raw MAGIC, Writer_u8 (format_version f), Writer_u8 (algo_id f),
          Writer_u32 (gen f), Writer_u8 (ObjType_as_u8 (obj_type f))] Writer_new))"

definition Frame_decode :: "bytes \<Rightarrow> frame_error + frame" where
  "Frame_decode b =
     rbind (map_err (\<lambda>_. Truncated) (Reader_raw 4 (Reader_new b))) (\<lambda>(magic, r).
     if magic \<noteq> MAGIC then Inl BadMagic else
     rbind (map_err (\<lambda>_. Truncated) (Reader_u8 r)) (\<lambda>(version, r).
     if \<not> (MIN_FORMAT_VERSION \<le> version \<and> version \<le> MAX_FORMAT_VERSION)
     then Inl (UnsupportedFormatVersion version) else
     rbind (map_err (\<lambda>_. Truncated) (Reader_u8 r)) (\<lambda>(algo, r).
     if algo < MIN_ALGO_ID \<or> algo \<noteq> ALGO_V1 then Inl (UnsupportedAlgo algo) else
     rbind (map_err (\<lambda>_. Truncated) (Reader_u32 r)) (\<lambda>(g, r).
     rbind (map_err (\<lambda>_. Truncated) (Reader_u8 r)) (\<lambda>(t, r).
     rbind (ok_or (UnknownType t) (ObjType_from_u8 t)) (\<lambda>ty.
     rbind (map_err (\<lambda>_. Truncated) (Reader_finish r)) (\<lambda>_.
     Inr \<lparr>format_version = version, algo_id = algo, gen = g, obj_type = ty\<rparr>)))))))"

text \<open>The frames this build decodes.\<close>

definition frame_ok :: "frame \<Rightarrow> bool" where
  "frame_ok f \<longleftrightarrow>
     (format_version f = FORMAT_VERSION_V1 \<or> format_version f = FORMAT_VERSION_V2) \<and>
     algo_id f = ALGO_V1"

section \<open>Blobs\<close>

definition aead_ad :: "frame \<Rightarrow> bytes \<Rightarrow> bytes" where
  "aead_ad f i = Frame_encode f @ i"

definition assemble_blob :: "frame \<Rightarrow> bytes \<Rightarrow> bytes \<Rightarrow> bytes" where
  "assemble_blob f ctx_tag ct = Frame_encode f @ ctx_tag @ ct"

definition parse_frame_prefix :: "bytes \<Rightarrow> frame \<Rightarrow> frame_error + bytes" where
  "parse_frame_prefix b expected =
     (if MAX_BLOB_SIZE < length b then Inl (BlobTooLarge (length b) MAX_BLOB_SIZE)
      else if length b < FRAME_LEN then Inl ShortBlob
      else rbind (Frame_decode (take FRAME_LEN b)) (\<lambda>f.
        if f \<noteq> expected then Inl FrameMismatch else Inr (drop FRAME_LEN b)))"

definition parse_blob :: "bytes \<Rightarrow> frame \<Rightarrow> frame_error + bytes \<times> bytes" where
  "parse_blob b expected =
     rbind (parse_frame_prefix b expected) (\<lambda>rs.
       if length rs < CTX_TAG_LEN then Inl ShortBlob
       else Inr (take CTX_TAG_LEN rs, drop CTX_TAG_LEN rs))"

section \<open>Correctness\<close>

lemma Frame_encode_eq:
  "Frame_encode f = MAGIC @ [format_version f, algo_id f] @ le_bytes 4 (gen f)
     @ [ObjType_as_u8 (obj_type f)]"
  by (simp add: Frame_encode_def)

lemma length_Frame_encode [simp]: "length (Frame_encode f) = FRAME_LEN"
  by (simp add: Frame_encode_eq MAGIC_def FRAME_LEN_def)

lemma frame_ok_v1 [simp]: "frame_ok (Frame_v1 g t)"
  by (simp add: frame_ok_def Frame_v1_def)

lemma frame_ok_v2 [simp]: "frame_ok (Frame_v2 g t)"
  by (simp add: frame_ok_def Frame_v2_def Frame_v1_def)

lemma Frame_v1_neq_v2 [simp]: "Frame_v1 g t \<noteq> Frame_v2 g' t'"
  by (simp add: Frame_v1_def Frame_v2_def FORMAT_VERSION_V1_def FORMAT_VERSION_V2_def)

lemma gen_Frame_v [simp]: "gen (Frame_v1 g t) = g" "gen (Frame_v2 g t) = g"
  by (simp_all add: Frame_v1_def Frame_v2_def)

lemma Frame_is_v2_simps [simp]: "\<not> Frame_is_v2 (Frame_v1 g t)" "Frame_is_v2 (Frame_v2 g t)"
  by (simp_all add: Frame_is_v2_def Frame_v1_def Frame_v2_def FORMAT_VERSION_V1_def
      FORMAT_VERSION_V2_def)

lemma version_range:
  "(MIN_FORMAT_VERSION \<le> v \<and> v \<le> MAX_FORMAT_VERSION) \<longleftrightarrow>
     v = FORMAT_VERSION_V1 \<or> v = FORMAT_VERSION_V2"
  unfolding frame_consts by unat_arith

lemma Frame_decode_encode: "frame_ok f \<Longrightarrow> Frame_decode (Frame_encode f) = Inr f"
  by (auto simp: Frame_decode_def Frame_encode_eq Reader_defs MAGIC_def version_range frame_ok_def
      from_le_le_bytes Reader_finish_rest ALGO_V1_def MIN_ALGO_ID_def split del: if_split)

lemma Frame_decode_accepted:
  assumes "Frame_decode b = Inr f"
  shows "frame_ok f \<and> b = Frame_encode f"
proof -
  from assms obtain m r1 v r2 a r3 g r4 t r5 ty where
    m: "Reader_take 4 (Reader_new b) = Inr (m, r1)" "m = MAGIC"
    and v: "Reader_u8 r1 = Inr (v, r2)" "v = FORMAT_VERSION_V1 \<or> v = FORMAT_VERSION_V2"
    and a: "Reader_u8 r2 = Inr (a, r3)" "a = ALGO_V1"
    and g: "Reader_u32 r3 = Inr (g, r4)"
    and t: "Reader_u8 r4 = Inr (t, r5)" "t = ObjType_as_u8 ty"
    and fin: "rest r5 = []"
    and f: "f = \<lparr>format_version = v, algo_id = a, gen = g, obj_type = ty\<rparr>"
    by (auto simp: Frame_decode_def rbind_eq_Inr Reader_raw_def version_range ObjType_from_u8_Some
        split: prod.splits if_splits)
  from Reader_take_accepted [OF m(1)] c_u8.accepted [OF v(1)] c_u8.accepted [OF a(1)]
    c_u32.accepted [OF g] c_u8.accepted [OF t(1)] fin
  have "b = m @ [v] @ [a] @ le_bytes 4 g @ [t]" by simp
  with m(2) v(2) a(2) t(2) f show ?thesis by (auto simp: Frame_encode_eq frame_ok_def)
qed

lemma Frame_decode_iff: "Frame_decode b = Inr f \<longleftrightarrow> frame_ok f \<and> b = Frame_encode f"
  using Frame_decode_encode Frame_decode_accepted by blast

lemma Frame_encode_inj: "Frame_encode f = Frame_encode f' \<Longrightarrow> frame_ok f \<Longrightarrow> frame_ok f' \<Longrightarrow> f = f'"
  by (metis Frame_decode_encode sum.inject(2))

lemma parse_frame_prefix_iff:
  "parse_frame_prefix b f = Inr rs \<longleftrightarrow>
     frame_ok f \<and> b = Frame_encode f @ rs \<and> length b \<le> MAX_BLOB_SIZE"
proof
  assume "parse_frame_prefix b f = Inr rs"
  then have "Frame_decode (take FRAME_LEN b) = Inr f" "rs = drop FRAME_LEN b"
    "length b \<le> MAX_BLOB_SIZE"
    by (auto simp: parse_frame_prefix_def rbind_eq_Inr split: if_splits)
  then show "frame_ok f \<and> b = Frame_encode f @ rs \<and> length b \<le> MAX_BLOB_SIZE"
    by (metis Frame_decode_accepted append_take_drop_id)
next
  assume "frame_ok f \<and> b = Frame_encode f @ rs \<and> length b \<le> MAX_BLOB_SIZE"
  then show "parse_frame_prefix b f = Inr rs"
    by (auto simp: parse_frame_prefix_def Frame_decode_encode)
qed

lemma parse_blob_accepts:
  "parse_blob b f = Inr (tag, ct) \<longleftrightarrow>
     frame_ok f \<and> length tag = CTX_TAG_LEN \<and> b = assemble_blob f tag ct
       \<and> length b \<le> MAX_BLOB_SIZE"
  (is "?l \<longleftrightarrow> ?r")
proof
  show "?l \<Longrightarrow> ?r"
    by (auto simp: parse_blob_def rbind_eq_Inr parse_frame_prefix_iff assemble_blob_def
        split: if_splits)
next
  assume r: ?r
  then have "parse_frame_prefix b f = Inr (tag @ ct)"
    by (auto simp: parse_frame_prefix_iff assemble_blob_def)
  with r show ?l by (simp add: parse_blob_def)
qed

end
