(* ===== verification/Crypto.thy ===== *)
theory Crypto
  imports Frame
begin

text \<open>
  \<open>crates/secsec-aead\<close> and \<open>crates/secsec-kdf\<close>. The primitives of the crates they call (BLAKE3,
  ChaCha20, Poly1305) are the fields of the parameter \<open>crypto\<close>; their fixed output widths are
  types, and a stream cipher is its key stream, a function from the byte position. Sealing and
  opening are then the source's own composition of them, and the locale \<open>sealing\<close> states the one
  law every caller relies on: a ciphertext opens to a plaintext exactly when it is the sealing of
  that plaintext.
\<close>

section \<open>Primitives\<close>

record crypto =
  blake3_256 :: "bytes \<Rightarrow> 256 word"
  blake3_keyed :: "bytes \<Rightarrow> bytes \<Rightarrow> 256 word"
  blake3_derive :: "bytes \<Rightarrow> bytes \<Rightarrow> 256 word"
  chacha20_stream :: "bytes \<Rightarrow> bytes \<Rightarrow> nat \<Rightarrow> u8"
  poly1305_tag :: "bytes \<Rightarrow> bytes \<Rightarrow> 128 word"

definition ascii :: "string \<Rightarrow> bytes" where
  "ascii s = map of_char s"

definition hash :: "crypto \<Rightarrow> bytes \<Rightarrow> bytes" where
  "hash cr m = le_bytes 32 (blake3_256 cr m)"

definition keyed_hash :: "crypto \<Rightarrow> bytes \<Rightarrow> bytes \<Rightarrow> bytes" where
  "keyed_hash cr key m = le_bytes 32 (blake3_keyed cr key m)"

definition derive_key :: "crypto \<Rightarrow> bytes \<Rightarrow> bytes \<Rightarrow> bytes" where
  "derive_key cr label m = le_bytes 32 (blake3_derive cr label m)"

definition poly1305 :: "crypto \<Rightarrow> bytes \<Rightarrow> bytes \<Rightarrow> bytes" where
  "poly1305 cr otk m = le_bytes 16 (poly1305_tag cr otk m)"

lemma length_hash [simp]: "length (hash cr m) = 32"
  by (simp add: hash_def)

lemma length_keyed_hash [simp]: "length (keyed_hash cr k m) = 32"
  by (simp add: keyed_hash_def)

lemma length_derive_key [simp]: "length (derive_key cr l m) = 32"
  by (simp add: derive_key_def)

lemma length_poly1305 [simp]: "length (poly1305 cr k m) = 16"
  by (simp add: poly1305_def)

text \<open>\<open>apply_keystream\<close> from byte position \<open>off\<close>.\<close>

definition apply_keystream :: "crypto \<Rightarrow> bytes \<Rightarrow> bytes \<Rightarrow> nat \<Rightarrow> bytes \<Rightarrow> bytes" where
  "apply_keystream cr key nonce off data =
     map2 (\<lambda>b i. b XOR chacha20_stream cr key nonce (off + i)) data [0..<length data]"

lemma length_apply_keystream [simp]: "length (apply_keystream cr k n off d) = length d"
  by (simp add: apply_keystream_def)

lemma apply_keystream_twice [simp]: "apply_keystream cr k n off (apply_keystream cr k n off d) = d"
  by (rule nth_equalityI) (simp_all add: apply_keystream_def xor.assoc)

section \<open>The AEAD\<close>

definition NONCE :: bytes where "NONCE = replicate 12 0"
definition CTX_LABEL :: bytes where "CTX_LABEL = ascii ''secsec-ctx-v1''"

datatype aead_error = AeadError

definition pad16 :: "bytes \<Rightarrow> bytes" where
  "pad16 b = b @ replicate ((16 - length b mod 16) mod 16) 0"

definition mac_input :: "bytes \<Rightarrow> bytes \<Rightarrow> bytes" where
  "mac_input aad ct =
     pad16 aad @ pad16 ct
       @ pad16 (le_bytes 8 (of_nat (length aad) :: u64) @ le_bytes 8 (of_nat (length ct) :: u64))"

definition poly1305_aead_tag :: "crypto \<Rightarrow> bytes \<Rightarrow> bytes \<Rightarrow> bytes \<Rightarrow> bytes" where
  "poly1305_aead_tag cr otk aad ct = poly1305 cr otk (mac_input aad ct)"

definition ctx_commit :: "crypto \<Rightarrow> bytes \<Rightarrow> bytes \<Rightarrow> bytes \<Rightarrow> bytes" where
  "ctx_commit cr key ad t = keyed_hash cr key (CTX_LABEL @ ad @ t)"

text \<open>The one-time key is the first 32 bytes of the key stream, applied to zeros.\<close>

definition otk :: "crypto \<Rightarrow> bytes \<Rightarrow> bytes \<Rightarrow> bytes" where
  "otk cr key nonce = apply_keystream cr key nonce 0 (replicate 32 0)"

definition seal :: "crypto \<Rightarrow> bytes \<Rightarrow> bytes \<Rightarrow> bytes \<Rightarrow> bytes \<times> bytes" where
  "seal cr key ad plaintext =
     (let ct = apply_keystream cr key NONCE 64 plaintext;
          t = poly1305_aead_tag cr (otk cr key NONCE) ad ct
      in (ctx_commit cr key ad t, ct))"

definition open_ctx :: "crypto \<Rightarrow> bytes \<Rightarrow> bytes \<Rightarrow> bytes \<Rightarrow> bytes \<Rightarrow> aead_error + bytes" where
  "open_ctx cr key ad ctx_tag ciphertext =
     (let t = poly1305_aead_tag cr (otk cr key NONCE) ad ciphertext;
          expected = ctx_commit cr key ad t
      in if ctx_tag \<noteq> expected then Inl AeadError
         else Inr (apply_keystream cr key NONCE 64 ciphertext))"

definition seal_mut :: "crypto \<Rightarrow> bytes \<Rightarrow> bytes \<Rightarrow> bytes \<Rightarrow> bytes \<Rightarrow> bytes \<times> bytes" where
  "seal_mut cr key nonce ad plaintext =
     (let ct = apply_keystream cr key nonce 64 plaintext
      in (poly1305_aead_tag cr (otk cr key nonce) ad ct, ct))"

definition open_mut :: "crypto \<Rightarrow> bytes \<Rightarrow> bytes \<Rightarrow> bytes \<Rightarrow> bytes \<Rightarrow> bytes \<Rightarrow> aead_error + bytes" where
  "open_mut cr key nonce ad tag ciphertext =
     (let expected = poly1305_aead_tag cr (otk cr key nonce) ad ciphertext
      in if tag \<noteq> expected then Inl AeadError
         else Inr (apply_keystream cr key nonce 64 ciphertext))"

section \<open>The sealing contract\<close>

locale sealing =
  fixes sl :: "'k \<Rightarrow> bytes \<Rightarrow> bytes \<Rightarrow> bytes \<times> bytes"
    and op :: "'k \<Rightarrow> bytes \<Rightarrow> bytes \<Rightarrow> bytes \<Rightarrow> 'e + bytes"
    and tag_len :: nat
  assumes opens_iff: "op k ad t ct = Inr p \<longleftrightarrow> sl k ad p = (t, ct)"
    and ct_length: "length (snd (sl k ad p)) = length p"
    and tag_length: "length (fst (sl k ad p)) = tag_len"
begin

lemma round_trip: "op k ad (fst (sl k ad p)) (snd (sl k ad p)) = Inr p"
  by (simp add: opens_iff)

lemma opens_seal: "sl k ad p = (t, ct) \<Longrightarrow> op k ad t ct = Inr p"
  by (simp add: opens_iff)

lemma opened: "op k ad t ct = Inr p \<Longrightarrow> length t = tag_len \<and> length ct = length p"
  using ct_length [of k ad p] tag_length [of k ad p] by (simp add: opens_iff)

lemma seal_inj: "sl k ad p = sl k ad p' \<Longrightarrow> p = p'"
  by (metis round_trip sum.inject(2))

end

interpretation ctx: sealing "seal cr" "open_ctx cr" 32 for cr
  by unfold_locales (auto simp: seal_def open_ctx_def Let_def ctx_commit_def split: if_splits)

interpretation mut: sealing "\<lambda>(k, n). seal_mut cr k n" "\<lambda>(k, n). open_mut cr k n" 16 for cr
  by unfold_locales
    (auto simp: seal_mut_def open_mut_def Let_def poly1305_aead_tag_def split: if_splits)

section \<open>The commitment\<close>

lemma pad16_inj: "pad16 a @ x = pad16 b @ y \<Longrightarrow> length a = length b \<Longrightarrow> a = b \<and> x = y"
  by (auto simp: pad16_def)

lemma length_pad16_eq: "length a = length b \<Longrightarrow> length (pad16 a) = length (pad16 b)"
  by (simp add: pad16_def)

lemma u32_fits: "LENGTH(32) \<le> 8 * 4" and u64_fits: "LENGTH(64) \<le> 8 * 8"
  by simp_all

lemma le_bytes_4_inj: "le_bytes 4 (v :: u32) = le_bytes 4 v' \<longleftrightarrow> v = v'"
  by (metis from_le_le_bytes u32_fits)

lemma le_bytes_8_inj: "le_bytes 8 (v :: u64) = le_bytes 8 v' \<longleftrightarrow> v = v'"
  by (metis from_le_le_bytes u64_fits)

lemma le_bytes_of_nat_inj:
  assumes "le_bytes 8 (of_nat m :: u64) = le_bytes 8 (of_nat n :: u64)" "m < 2 ^ 64" "n < 2 ^ 64"
  shows "m = n"
proof -
  have "unat (of_nat m :: u64) = unat (of_nat n :: u64)" using assms(1) le_bytes_8_inj by metis
  with assms(2,3) show ?thesis by (simp add: unat_of_nat)
qed

lemma mac_input_inj:
  assumes eq: "mac_input a c = mac_input a' c'"
    and b: "length a < 2 ^ 64" "length c < 2 ^ 64" "length a' < 2 ^ 64" "length c' < 2 ^ 64"
  shows "a = a' \<and> c = c'"
proof -
  let ?l = "\<lambda>a c. le_bytes 8 (of_nat (length a) :: u64) @ le_bytes 8 (of_nat (length c) :: u64)"
  have tail: "mac_input x y = (pad16 x @ pad16 y) @ ?l x y" for x y
    by (simp add: mac_input_def pad16_def)
  have "?l a c = ?l a' c'" using eq unfolding tail by (subst (asm) append_eq_append_conv) auto
  then have "length a = length a'" "length c = length c'"
    using b by (auto dest: le_bytes_of_nat_inj)
  with eq show ?thesis
    unfolding mac_input_def by (metis pad16_inj)
qed

text \<open>
  A binding theorem about a hash has the shape \<open>the two things agree, or these two inputs collide\<close>:
  the colliding inputs are always the ones the code hashed, never merely some inputs, of which every
  hash has a pair.
\<close>

definition hash_clash :: "crypto \<Rightarrow> bytes \<Rightarrow> bytes \<Rightarrow> bool" where
  "hash_clash cr m m' \<longleftrightarrow> m \<noteq> m' \<and> hash cr m = hash cr m'"

definition keyed_clash :: "crypto \<Rightarrow> bytes \<times> bytes \<Rightarrow> bytes \<times> bytes \<Rightarrow> bool" where
  "keyed_clash cr x x' \<longleftrightarrow> x \<noteq> x' \<and> keyed_hash cr (fst x) (snd x) = keyed_hash cr (fst x') (snd x')"

definition derive_clash :: "crypto \<Rightarrow> bytes \<times> bytes \<Rightarrow> bytes \<times> bytes \<Rightarrow> bool" where
  "derive_clash cr x x' \<longleftrightarrow> x \<noteq> x' \<and> derive_key cr (fst x) (snd x) = derive_key cr (fst x') (snd x')"

lemma hash_inj: "hash cr m = hash cr m' \<Longrightarrow> hash_clash cr m m' \<or> m = m'"
  unfolding hash_clash_def by blast

lemma keyed_hash_inj:
  "keyed_hash cr k m = keyed_hash cr k' m' \<Longrightarrow> keyed_clash cr (k, m) (k', m') \<or> k = k' \<and> m = m'"
  unfolding keyed_clash_def by auto

lemma derive_key_inj:
  "derive_key cr l m = derive_key cr l' m' \<Longrightarrow> derive_clash cr (l, m) (l', m') \<or> l = l' \<and> m = m'"
  unfolding derive_clash_def by auto

section \<open>Key derivation\<close>

definition L_ENC :: bytes where "L_ENC = ascii ''secsec-enc-key-v1''"
definition L_ID :: bytes where "L_ID = ascii ''secsec-id-key-v1''"
definition L_CDC :: bytes where "L_CDC = ascii ''secsec-cdc-seed-v1''"
definition L_HEAD :: bytes where "L_HEAD = ascii ''secsec-head-enc-v1''"
definition L_ROSTER :: bytes where "L_ROSTER = ascii ''secsec-roster-enc-v1''"
definition L_REFNAME :: bytes where "L_REFNAME = ascii ''secsec-ref-name-v1''"
definition L_ROSTER_ENTRY :: bytes where "L_ROSTER_ENTRY = ascii ''secsec-roster-entry-v1''"
definition L_ROSTER_ENTRY_V2 :: bytes where "L_ROSTER_ENTRY_V2 = ascii ''secsec-roster-entry-v2''"
definition L_ROSTER_KEYHIST :: bytes where "L_ROSTER_KEYHIST = ascii ''secsec-roster-keyhist-v1''"
definition L_KEYHIST :: bytes where "L_KEYHIST = ascii ''secsec-keyhist-enc-v1''"
definition L_OBJ :: bytes where "L_OBJ = ascii ''secsec-obj-key-v1''"
definition MK_COMMIT_MSG_LABEL :: bytes where "MK_COMMIT_MSG_LABEL = ascii ''secsec-mk-commit-v1''"
definition ROSTER_ENTRY_SALT_LEN :: nat where "ROSTER_ENTRY_SALT_LEN = 32"

definition derive :: "crypto \<Rightarrow> bytes \<Rightarrow> bytes list \<Rightarrow> bytes" where
  "derive cr label parts = derive_key cr label (concat parts)"

record master_key =
  generation :: u32
  mk_key :: bytes

definition MasterKey_new :: "u32 \<Rightarrow> bytes \<Rightarrow> master_key" where
  "MasterKey_new g key = \<lparr>generation = g, mk_key = key\<rparr>"

definition enc_key :: "crypto \<Rightarrow> master_key \<Rightarrow> u8 \<Rightarrow> bytes" where
  "enc_key cr mk t = derive cr L_ENC [mk_key mk, le_bytes 4 (generation mk), [t]]"

definition id_key :: "crypto \<Rightarrow> master_key \<Rightarrow> u8 \<Rightarrow> bytes" where
  "id_key cr mk t = derive cr L_ID [mk_key mk, le_bytes 4 (generation mk), [t]]"

definition cdc_seed :: "crypto \<Rightarrow> master_key \<Rightarrow> bytes" where
  "cdc_seed cr mk = derive cr L_CDC [mk_key mk, le_bytes 4 (generation mk)]"

definition head_key :: "crypto \<Rightarrow> master_key \<Rightarrow> bytes" where
  "head_key cr mk = derive cr L_HEAD [mk_key mk, le_bytes 4 (generation mk)]"

definition roster_key :: "crypto \<Rightarrow> master_key \<Rightarrow> bytes" where
  "roster_key cr mk = derive cr L_ROSTER [mk_key mk]"

definition mk_ref_name_key :: "crypto \<Rightarrow> master_key \<Rightarrow> bytes" where
  "mk_ref_name_key cr mk = derive cr L_REFNAME [mk_key mk]"

definition mk_commit :: "crypto \<Rightarrow> master_key \<Rightarrow> bytes" where
  "mk_commit cr mk = keyed_hash cr (mk_key mk) (MK_COMMIT_MSG_LABEL @ le_bytes 4 (generation mk))"

text \<open>
  The trait \<open>MasterKeys\<close>, as the record of its two required methods; \<open>current\<close> of an empty ring
  panics, which is \<open>None\<close>.
\<close>

record master_keys =
  for_gen :: "u32 \<Rightarrow> master_key option"
  current :: "master_key option"

definition MasterKey_keys :: "master_key \<Rightarrow> master_keys" where
  "MasterKey_keys mk =
     \<lparr>for_gen = (\<lambda>g. if generation mk = g then Some mk else None), current = Some mk\<rparr>"

definition ring_keys :: "(u32, master_key) btree \<Rightarrow> master_keys" where
  "ring_keys ring =
     \<lparr>for_gen = map_of ring, current = (if ring = [] then None else Some (snd (last ring)))\<rparr>"

definition ref_name_key :: "crypto \<Rightarrow> master_keys \<Rightarrow> bytes option" where
  "ref_name_key cr keys =
     map_option (mk_ref_name_key cr)
       (case for_gen keys 1 of None \<Rightarrow> current keys | Some mk \<Rightarrow> Some mk)"

definition obj_key :: "crypto \<Rightarrow> bytes \<Rightarrow> bytes \<Rightarrow> bytes" where
  "obj_key cr enc i = derive cr L_OBJ [enc, i]"

definition roster_entry_key :: "crypto \<Rightarrow> bytes \<Rightarrow> u64 \<Rightarrow> bytes" where
  "roster_entry_key cr rk sq = derive cr L_ROSTER_ENTRY [rk, le_bytes 8 sq]"

definition roster_entry_key_v2 :: "crypto \<Rightarrow> bytes \<Rightarrow> u64 \<Rightarrow> bytes \<Rightarrow> bytes" where
  "roster_entry_key_v2 cr rk sq salt = derive cr L_ROSTER_ENTRY_V2 [rk, le_bytes 8 sq, salt]"

definition roster_keyhist_key :: "crypto \<Rightarrow> bytes \<Rightarrow> u32 \<Rightarrow> bytes" where
  "roster_keyhist_key cr rk_next g = derive cr L_ROSTER_KEYHIST [rk_next, le_bytes 4 g]"

definition data_keyhist_key :: "crypto \<Rightarrow> bytes \<Rightarrow> u32 \<Rightarrow> bytes" where
  "data_keyhist_key cr mk_next g = derive cr L_KEYHIST [mk_next, le_bytes 4 g]"

section \<open>Domain separation\<close>

text \<open>Every use of the derivation hierarchy, with the arguments the caller supplies.\<close>

datatype key_use =
    UEnc master_key u8
  | UId master_key u8
  | UCdc master_key
  | UHead master_key
  | URoster bytes
  | URefName bytes
  | UObj bytes bytes
  | UEntry bytes u64
  | UEntryV2 bytes u64 bytes
  | URosterKeyhist bytes u32
  | UKeyhist bytes u32

fun derived :: "crypto \<Rightarrow> key_use \<Rightarrow> bytes" where
  "derived cr (UEnc mk t) = enc_key cr mk t"
| "derived cr (UId mk t) = id_key cr mk t"
| "derived cr (UCdc mk) = cdc_seed cr mk"
| "derived cr (UHead mk) = head_key cr mk"
| "derived cr (URoster k) = roster_key cr (MasterKey_new 0 k)"
| "derived cr (URefName k) = mk_ref_name_key cr (MasterKey_new 0 k)"
| "derived cr (UObj e i) = obj_key cr e i"
| "derived cr (UEntry rk sq) = roster_entry_key cr rk sq"
| "derived cr (UEntryV2 rk sq salt) = roster_entry_key_v2 cr rk sq salt"
| "derived cr (URosterKeyhist rk g) = roster_keyhist_key cr rk g"
| "derived cr (UKeyhist k g) = data_keyhist_key cr k g"

text \<open>The array types of the source: keys, ids and salts have 32 bytes.\<close>

fun use_ok :: "key_use \<Rightarrow> bool" where
  "use_ok (UEnc mk t) = (length (mk_key mk) = 32)"
| "use_ok (UId mk t) = (length (mk_key mk) = 32)"
| "use_ok (UCdc mk) = (length (mk_key mk) = 32)"
| "use_ok (UHead mk) = (length (mk_key mk) = 32)"
| "use_ok (URoster k) = (length k = 32)"
| "use_ok (URefName k) = (length k = 32)"
| "use_ok (UObj e i) = (length e = 32 \<and> length i = 32)"
| "use_ok (UEntry rk sq) = (length rk = 32)"
| "use_ok (UEntryV2 rk sq salt) = (length rk = 32 \<and> length salt = ROSTER_ENTRY_SALT_LEN)"
| "use_ok (URosterKeyhist rk g) = (length rk = 32)"
| "use_ok (UKeyhist k g) = (length k = 32)"

lemmas kdf_labels = L_ENC_def L_ID_def L_CDC_def L_HEAD_def L_ROSTER_def L_REFNAME_def
  L_ROSTER_ENTRY_def L_ROSTER_ENTRY_V2_def L_ROSTER_KEYHIST_def L_KEYHIST_def L_OBJ_def

lemmas kdf_defs = enc_key_def id_key_def cdc_seed_def head_key_def roster_key_def
  mk_ref_name_key_def obj_key_def roster_entry_key_def roster_entry_key_v2_def
  roster_keyhist_key_def data_keyhist_key_def derive_def MasterKey_new_def

fun use_label :: "key_use \<Rightarrow> bytes" where
  "use_label (UEnc mk t) = L_ENC"
| "use_label (UId mk t) = L_ID"
| "use_label (UCdc mk) = L_CDC"
| "use_label (UHead mk) = L_HEAD"
| "use_label (URoster k) = L_ROSTER"
| "use_label (URefName k) = L_REFNAME"
| "use_label (UObj e i) = L_OBJ"
| "use_label (UEntry rk sq) = L_ROSTER_ENTRY"
| "use_label (UEntryV2 rk sq salt) = L_ROSTER_ENTRY_V2"
| "use_label (URosterKeyhist rk g) = L_ROSTER_KEYHIST"
| "use_label (UKeyhist k g) = L_KEYHIST"

fun use_input :: "key_use \<Rightarrow> bytes" where
  "use_input (UEnc mk t) = mk_key mk @ le_bytes 4 (generation mk) @ [t]"
| "use_input (UId mk t) = mk_key mk @ le_bytes 4 (generation mk) @ [t]"
| "use_input (UCdc mk) = mk_key mk @ le_bytes 4 (generation mk)"
| "use_input (UHead mk) = mk_key mk @ le_bytes 4 (generation mk)"
| "use_input (URoster k) = k"
| "use_input (URefName k) = k"
| "use_input (UObj e i) = e @ i"
| "use_input (UEntry rk sq) = rk @ le_bytes 8 sq"
| "use_input (UEntryV2 rk sq salt) = rk @ le_bytes 8 sq @ salt"
| "use_input (URosterKeyhist rk g) = rk @ le_bytes 4 g"
| "use_input (UKeyhist k g) = k @ le_bytes 4 g"

lemma derived_eq: "derived cr u = derive_key cr (use_label u) (use_input u)"
  by (cases u) (simp_all add: kdf_defs)

lemma use_inj:
  assumes "use_label u = use_label u'" "use_input u = use_input u'" "use_ok u" "use_ok u'"
  shows "u = u'"
  using assms
  by (cases u; cases u')
    (simp_all add: kdf_labels ascii_def le_bytes_4_inj le_bytes_8_inj master_key.equality)

text \<open>
  Key separation. Two uses of the derivation hierarchy (any of the eleven derivations, any
  master key, generation, object type, content id, sequence number or salt) that produce the same
  key are the same use, unless BLAKE3's key derivation collides on their two different inputs: the
  labels are distinct and each label's input encoding is injective.
\<close>

lemma kdf_domain_separation:
  assumes "derived cr u = derived cr u'" "use_ok u" "use_ok u'"
  shows "u = u' \<or> derive_clash cr (use_label u, use_input u) (use_label u', use_input u')"
  using derive_key_inj [OF assms(1) [unfolded derived_eq]] use_inj assms(2,3) by blast

definition toy_crypto :: crypto where
  "toy_crypto =
     \<lparr>blake3_256 = (\<lambda>m. from_le m),
      blake3_keyed = (\<lambda>k m. from_le k + 3 * from_le m),
      blake3_derive = (\<lambda>l m. from_le l XOR from_le m),
      chacha20_stream = (\<lambda>k n i. of_nat (i + length k)),
      poly1305_tag = (\<lambda>k m. from_le k + from_le (rev m))\<rparr>"

lemma kdf_domain_separation_witness:
  "derived toy_crypto (URoster (replicate 32 7)) = derived toy_crypto (URoster (replicate 32 7))
    \<and> use_ok (URoster (replicate 32 7))
    \<and> (URoster (replicate 32 7) = URoster (replicate 32 7)
      \<or> derive_clash toy_crypto (use_label (URoster (replicate 32 7)), use_input (URoster (replicate 32 7)))
          (use_label (URoster (replicate 32 7)), use_input (URoster (replicate 32 7))))"
  using kdf_domain_separation [of toy_crypto "URoster (replicate 32 7)" "URoster (replicate 32 7)"]
  by simp

text \<open>The key and the message that \<open>mk_commit\<close> hashes.\<close>

definition mk_commit_input :: "master_key \<Rightarrow> bytes \<times> bytes" where
  "mk_commit_input mk = (mk_key mk, MK_COMMIT_MSG_LABEL @ le_bytes 4 (generation mk))"

lemma mk_commit_binding:
  assumes "mk_commit cr mk = mk_commit cr mk'"
  shows "mk = mk' \<or> keyed_clash cr (mk_commit_input mk) (mk_commit_input mk')"
  unfolding mk_commit_input_def using keyed_hash_inj [OF assms [unfolded mk_commit_def]] le_bytes_4_inj
  by (auto intro: master_key.equality)

section \<open>Commitment of the AEAD\<close>

text \<open>The key and the message that the commitment tag of a ciphertext hashes.\<close>

definition ctx_input :: "crypto \<Rightarrow> bytes \<Rightarrow> bytes \<Rightarrow> bytes \<Rightarrow> bytes \<times> bytes" where
  "ctx_input cr k ad ct = (k, CTX_LABEL @ ad @ poly1305_aead_tag cr (otk cr k NONCE) ad ct)"

text \<open>
  C39: the AEAD commits to its key and associated data. If one tag opens two ciphertexts, under
  any keys and associated data, then the key and the associated data agree, and so do the
  Poly1305 tags of the two ciphertexts; equal ciphertexts then have equal plaintexts. Otherwise
  the two commitments, to these keys, data and tags, are a collision of the keyed hash.
\<close>

theorem aead_key_committing:
  assumes "open_ctx cr k ad tag ct = Inr p" "open_ctx cr k' ad' tag ct' = Inr p'"
  shows "(k = k' \<and> ad = ad' \<and> (ct = ct' \<longrightarrow> p = p')
      \<and> poly1305_aead_tag cr (otk cr k NONCE) ad ct = poly1305_aead_tag cr (otk cr k' NONCE) ad' ct')
    \<or> keyed_clash cr (ctx_input cr k ad ct) (ctx_input cr k' ad' ct')"
proof -
  let ?t = "\<lambda>k ad ct. poly1305_aead_tag cr (otk cr k NONCE) ad ct"
  have "ctx_commit cr k ad (?t k ad ct) = ctx_commit cr k' ad' (?t k' ad' ct')"
    using assms by (simp add: open_ctx_def Let_def split: if_splits)
  then have "keyed_clash cr (ctx_input cr k ad ct) (ctx_input cr k' ad' ct')
      \<or> k = k' \<and> CTX_LABEL @ ad @ ?t k ad ct = CTX_LABEL @ ad' @ ?t k' ad' ct'"
    unfolding ctx_commit_def ctx_input_def by (rule keyed_hash_inj)
  moreover have "length (?t k ad ct) = length (?t k' ad' ct')"
    by (simp add: poly1305_aead_tag_def)
  ultimately show ?thesis using assms by auto
qed

definition toy_sealed :: "bytes \<times> bytes" where
  "toy_sealed = seal toy_crypto [1] [2] [3, 4]"

theorem aead_key_committing_witness:
  "open_ctx toy_crypto [1] [2] (fst toy_sealed) (snd toy_sealed) = Inr [3, 4]
    \<and> ((snd toy_sealed = snd toy_sealed \<longrightarrow> [3, 4] = [3, 4 :: u8])
      \<or> keyed_clash toy_crypto (ctx_input toy_crypto [1] [2] (snd toy_sealed)) (ctx_input toy_crypto [1] [2] (snd toy_sealed)))"
proof -
  have o: "open_ctx toy_crypto [1] [2] (fst toy_sealed) (snd toy_sealed) = Inr [3, 4]"
    unfolding toy_sealed_def by (rule ctx.round_trip)
  with aead_key_committing [OF o o] show ?thesis by blast
qed

end
