(* ===== verification/Objects.thy ===== *)
theory Objects
  imports Crypto
begin

text \<open>
  \<open>crates/secsec-object\<close>: content addresses, sealing and opening of objects, chunk padding. The
  central fact is that \<open>open_object\<close> accepts exactly one blob per plaintext and address, the one
  \<open>seal_object\<close> makes.
\<close>

section \<open>Model\<close>

definition ZERO_SALT :: bytes where "ZERO_SALT = replicate 16 0"

datatype padding = PadNone | PowerOfTwo

datatype obj_error =
    ObjFrame frame_error
  | ObjAuth
  | IdMismatch
  | BadPadding
  | UnknownGeneration u32

definition content_id :: "crypto \<Rightarrow> bytes \<Rightarrow> frame \<Rightarrow> bytes \<Rightarrow> bytes \<Rightarrow> bytes" where
  "content_id cr idk f path_salt plaintext =
     keyed_hash cr idk (Frame_encode f @ path_salt @ plaintext)"

definition seal_object ::
    "crypto \<Rightarrow> master_key \<Rightarrow> obj_type \<Rightarrow> bytes \<Rightarrow> bytes \<Rightarrow> bytes \<times> bytes" where
  "seal_object cr mk t path_salt plaintext =
     (let f = Frame_v1 (generation mk) t;
          i = content_id cr (id_key cr mk (ObjType_as_u8 t)) f path_salt plaintext;
          k_obj = obj_key cr (enc_key cr mk (ObjType_as_u8 t)) i;
          ad = aead_ad f i;
          (ctx_tag, ct) = seal cr k_obj ad plaintext
      in (i, assemble_blob f ctx_tag ct))"

definition open_object ::
    "crypto \<Rightarrow> master_keys \<Rightarrow> obj_type \<Rightarrow> bytes \<Rightarrow> bytes \<Rightarrow> bytes \<Rightarrow> obj_error + bytes" where
  "open_object cr keys t path_salt requested_id blob =
     (if length blob < FRAME_LEN then Inl (ObjFrame ShortBlob) else
      rbind (map_err ObjFrame (Frame_decode (take FRAME_LEN blob))) (\<lambda>h.
      rbind (ok_or (UnknownGeneration (gen h)) (for_gen keys (gen h))) (\<lambda>mk.
      let f = Frame_v1 (generation mk) t in
      rbind (map_err ObjFrame (parse_blob blob f)) (\<lambda>(ctx_tag, ct).
      let k_obj = obj_key cr (enc_key cr mk (ObjType_as_u8 t)) requested_id;
          ad = aead_ad f requested_id in
      rbind (map_err (\<lambda>_. ObjAuth) (open_ctx cr k_obj ad ctx_tag ct)) (\<lambda>plaintext.
      if content_id cr (id_key cr mk (ObjType_as_u8 t)) f path_salt plaintext \<noteq> requested_id
      then Inl IdMismatch else Inr plaintext)))))"

text \<open>\<open>usize::next_power_of_two\<close>, by doubling.\<close>

function next_pow2_from :: "nat \<Rightarrow> nat \<Rightarrow> nat" where
  "next_pow2_from k n = (if k = 0 \<or> n \<le> k then k else next_pow2_from (2 * k) n)"
  by pat_completeness auto
termination
  by (relation "measure (\<lambda>(k, n). n - k)") auto

declare next_pow2_from.simps [simp del]

definition next_power_of_two :: "nat \<Rightarrow> nat" where
  "next_power_of_two n = next_pow2_from 1 n"

definition pad_chunk :: "bytes \<Rightarrow> padding \<Rightarrow> bytes" where
  "pad_chunk data policy =
     (case policy of
        PadNone \<Rightarrow> data
      | PowerOfTwo \<Rightarrow>
          let target = next_power_of_two (length data + 1);
              v = data @ [0x80]
          in v @ replicate (target - length v) 0)"

text \<open>The scan back over the zero bytes; its argument is \<open>end\<close>.\<close>

fun strip_zeros :: "bytes \<Rightarrow> nat \<Rightarrow> nat" where
  "strip_zeros padded 0 = 0"
| "strip_zeros padded (Suc e) = (if padded ! e = 0 then strip_zeros padded e else Suc e)"

definition unpad_chunk :: "bytes \<Rightarrow> padding \<Rightarrow> obj_error + bytes" where
  "unpad_chunk padded policy =
     (case policy of
        PadNone \<Rightarrow> Inr padded
      | PowerOfTwo \<Rightarrow>
          let e = strip_zeros padded (length padded)
          in if e = 0 \<or> padded ! (e - 1) \<noteq> 0x80 then Inl BadPadding else Inr (take (e - 1) padded))"

section \<open>Opening accepts exactly the sealing\<close>

lemma open_object_iff:
  "open_object cr keys t salt i blob = Inr p \<longleftrightarrow>
     (\<exists>mk. for_gen keys (generation mk) = Some mk \<and> seal_object cr mk t salt p = (i, blob)
        \<and> length blob \<le> MAX_BLOB_SIZE)" (is "?l \<longleftrightarrow> ?r")
proof
  assume ?l
  then obtain h mk tag ct where *: "Frame_decode (take FRAME_LEN blob) = Inr h"
    "for_gen keys (gen h) = Some mk" "parse_blob blob (Frame_v1 (generation mk) t) = Inr (tag, ct)"
    "open_ctx cr (obj_key cr (enc_key cr mk (ObjType_as_u8 t)) i)
       (aead_ad (Frame_v1 (generation mk) t) i) tag ct = Inr p"
    "content_id cr (id_key cr mk (ObjType_as_u8 t)) (Frame_v1 (generation mk) t) salt p = i"
    by (auto simp: open_object_def Let_def rbind_eq_Inr split: if_splits)
  from *(3) have blob: "blob = assemble_blob (Frame_v1 (generation mk) t) tag ct"
    "length blob \<le> MAX_BLOB_SIZE" by (auto simp: parse_blob_accepts)
  have "take FRAME_LEN blob = Frame_encode (Frame_v1 (generation mk) t)"
    by (simp add: blob(1) assemble_blob_def)
  with *(1) have "h = Frame_v1 (generation mk) t" by (simp add: Frame_decode_encode)
  with * blob show ?r
    by (intro exI [of _ mk]) (simp add: seal_object_def Let_def ctx.opens_iff)
next
  assume ?r
  then obtain mk where mk: "for_gen keys (generation mk) = Some mk" "length blob \<le> MAX_BLOB_SIZE"
    and s: "seal_object cr mk t salt p = (i, blob)" by blast
  let ?f = "Frame_v1 (generation mk) t"
  obtain tag ct where sl: "seal cr (obj_key cr (enc_key cr mk (ObjType_as_u8 t)) i) (aead_ad ?f i) p = (tag, ct)"
    "blob = assemble_blob ?f tag ct" "content_id cr (id_key cr mk (ObjType_as_u8 t)) ?f salt p = i"
    using s by (auto simp: seal_object_def Let_def split: prod.splits)
  have "length tag = CTX_TAG_LEN" using ctx.tag_length sl(1) by (metis CTX_TAG_LEN_def fst_conv)
  with mk(2) sl(2) have "parse_blob blob ?f = Inr (tag, ct)" by (simp add: parse_blob_accepts)
  moreover have "Frame_decode (take FRAME_LEN blob) = Inr ?f" "FRAME_LEN \<le> length blob"
    by (simp_all add: sl(2) assemble_blob_def Frame_decode_encode)
  moreover note ctx.opens_seal [OF sl(1)]
  ultimately show ?l using mk(1) sl(3) by (simp add: open_object_def Let_def)
qed

lemma length_seal_object: "length (snd (seal_object cr mk t salt p)) = FRAME_LEN + CTX_TAG_LEN + length p"
proof -
  have "length (fst (seal cr k ad p)) = CTX_TAG_LEN" "length (snd (seal cr k ad p)) = length p" for k ad
    using ctx.tag_length ctx.ct_length by (simp_all add: CTX_TAG_LEN_def)
  then show ?thesis by (simp add: seal_object_def Let_def assemble_blob_def case_prod_beta)
qed

lemma fst_seal_object:
  "fst (seal_object cr mk t salt p) =
     content_id cr (id_key cr mk (ObjType_as_u8 t)) (Frame_v1 (generation mk) t) salt p"
  by (simp add: seal_object_def Let_def split: prod.splits)

lemma length_fst_seal_object [simp]: "length (fst (seal_object cr mk t salt p)) = 32"
  by (simp add: fst_seal_object content_id_def)

text \<open>The key and the message a content address hashes.\<close>

definition address_input :: "crypto \<Rightarrow> master_key \<Rightarrow> obj_type \<Rightarrow> bytes \<Rightarrow> bytes \<Rightarrow> bytes \<times> bytes" where
  "address_input cr mk t salt p =
     (id_key cr mk (ObjType_as_u8 t), Frame_encode (Frame_v1 (generation mk) t) @ salt @ p)"

section \<open>Padding\<close>

lemma next_pow2_from_bounds:
  "0 < k \<Longrightarrow> k < 2 * n \<Longrightarrow> n \<le> next_pow2_from k n \<and> next_pow2_from k n < 2 * n
     \<and> (\<exists>j. next_pow2_from k n = k * 2 ^ j)"
proof (induction k n rule: next_pow2_from.induct)
  case (1 k n)
  show ?case
  proof (cases "n \<le> k")
    case True
    with 1 show ?thesis by (auto simp: next_pow2_from.simps [of k n] intro: exI [of _ 0])
  next
    case False
    with 1 obtain j where "next_pow2_from (2 * k) n = 2 * k * 2 ^ j"
      "n \<le> next_pow2_from (2 * k) n" "next_pow2_from (2 * k) n < 2 * n" by auto
    with False 1 show ?thesis
      by (auto simp: next_pow2_from.simps [of k n] intro: exI [of _ "Suc j"])
  qed
qed

lemma strip_zeros_le: "strip_zeros p e \<le> e"
  by (induction e) auto

lemma strip_zeros_tail: "j < e \<Longrightarrow> strip_zeros p e \<le> j \<Longrightarrow> p ! j = 0"
  by (induction e) (auto simp: less_Suc_eq split: if_splits)

lemma strip_zeros_replicate:
  "x \<noteq> 0 \<Longrightarrow> strip_zeros (d @ x # replicate z 0) (Suc (length d) + z') = Suc (length d)"
  if "z' \<le> z"
  using that
  by (induction z') (auto simp: nth_append)

lemma unpad_chunk_iff:
  "unpad_chunk p PowerOfTwo = Inr d \<longleftrightarrow> (\<exists>z. p = d @ [0x80] @ replicate z 0)"
proof
  let ?e = "strip_zeros p (length p)"
  assume "unpad_chunk p PowerOfTwo = Inr d"
  then have e: "?e \<noteq> 0" "p ! (?e - 1) = 0x80" "d = take (?e - 1) p"
    by (auto simp: unpad_chunk_def Let_def split: if_splits)
  have le: "?e \<le> length p" by (rule strip_zeros_le)
  have "drop ?e p = replicate (length p - ?e) 0"
    by (rule nth_equalityI) (use le strip_zeros_tail [of _ "length p" p] in \<open>simp_all\<close>)
  with e le have "p = take (?e - 1) p @ p ! (?e - 1) # replicate (length p - ?e) 0"
    by (metis Suc_diff_1 Suc_le_eq bot_nat_0.not_eq_extremum id_take_nth_drop)
  with e show "\<exists>z. p = d @ [0x80] @ replicate z 0" by auto
next
  assume "\<exists>z. p = d @ [0x80] @ replicate z 0"
  then obtain z where p: "p = d @ 0x80 # replicate z 0" by auto
  then have "strip_zeros p (length p) = Suc (length d)"
    using strip_zeros_replicate [of z z "0x80" d] by simp
  with p show "unpad_chunk p PowerOfTwo = Inr d" by (simp add: unpad_chunk_def Let_def)
qed

section \<open>Properties\<close>

text \<open>
  C19: an object opens exactly as its own sealing. \<open>open_object\<close> returns a plaintext for a
  requested id if and only if the key ring resolves a master key (filed under its own generation)
  whose \<open>seal_object\<close> of that plaintext, type and path salt is precisely the requested id and the
  given bytes, and the blob is within \<open>MAX_BLOB_SIZE\<close>. So a server can neither substitute, extend
  nor re-frame a blob, and every object a client seals within the size bound opens again.
\<close>

theorem open_object_accepts_exactly_sealings:
  "open_object cr keys t salt i blob = Inr p \<longleftrightarrow>
     (\<exists>mk. for_gen keys (generation mk) = Some mk \<and> seal_object cr mk t salt p = (i, blob)
        \<and> length blob \<le> MAX_BLOB_SIZE)"
  by (rule open_object_iff)

text \<open>
  A content address binds type, path salt and plaintext. Two objects that open under the same
  id with the same master key have the same type, salt and plaintext, unless the keyed hash
  collides on the two inputs the addresses are computed from.
\<close>

theorem content_address_binding:
  assumes "open_object cr (MasterKey_keys mk) t salt i blob = Inr p"
    and "open_object cr (MasterKey_keys mk) t' salt' i blob' = Inr p'"
    and "length salt = 16" "length salt' = 16" "length (mk_key mk) = 32"
  shows "t = t' \<and> salt = salt' \<and> p = p' \<and> blob = blob'
    \<or> keyed_clash cr (address_input cr mk t salt p) (address_input cr mk t' salt' p')"
proof (rule disjCI)
  assume no: "\<not> keyed_clash cr (address_input cr mk t salt p) (address_input cr mk t' salt' p')"
  have s: "seal_object cr mk t salt p = (i, blob)" "seal_object cr mk t' salt' p' = (i, blob')"
    using assms(1,2) by (auto simp: open_object_iff MasterKey_keys_def split: if_splits)
  then have eq: "content_id cr (id_key cr mk (ObjType_as_u8 t)) (Frame_v1 (generation mk) t) salt p
      = content_id cr (id_key cr mk (ObjType_as_u8 t')) (Frame_v1 (generation mk) t') salt' p'"
    by (metis fst_conv fst_seal_object)
  have m: "Frame_encode (Frame_v1 (generation mk) t) @ salt @ p
      = Frame_encode (Frame_v1 (generation mk) t') @ salt' @ p'"
    using keyed_hash_inj [OF eq [unfolded content_id_def]] no by (auto simp: address_input_def)
  then have "Frame_encode (Frame_v1 (generation mk) t) = Frame_encode (Frame_v1 (generation mk) t')"
    by (subst (asm) append_eq_append_conv) simp_all
  then have "t = t'" using Frame_encode_inj by (fastforce simp: Frame_v1_def frame_ok_def)
  with m assms(3,4) have "salt = salt' \<and> p = p'" by simp
  with \<open>t = t'\<close> s show "t = t' \<and> salt = salt' \<and> p = p' \<and> blob = blob'" by simp
qed

definition toy_object :: "bytes \<times> bytes" where
  "toy_object = seal_object toy_crypto (MasterKey_new 1 (replicate 32 9)) TChunk (replicate 16 1) [5, 6]"

lemma toy_object_opens:
  "open_object toy_crypto (MasterKey_keys (MasterKey_new 1 (replicate 32 9))) TChunk (replicate 16 1)
     (fst toy_object) (snd toy_object) = Inr [5, 6]"
proof -
  have "length (snd toy_object) \<le> MAX_BLOB_SIZE"
    by (simp add: toy_object_def length_seal_object FRAME_LEN_def CTX_TAG_LEN_def MAX_BLOB_SIZE_def)
  then show ?thesis
    unfolding open_object_iff
    by (intro exI [of _ "MasterKey_new 1 (replicate 32 9)"])
      (simp add: toy_object_def MasterKey_keys_def)
qed

theorem content_address_binding_witness:
  "TChunk = TChunk \<and> replicate 16 (1 :: u8) = replicate 16 1 \<and> [5, 6 :: u8] = [5, 6]
      \<and> snd toy_object = snd toy_object
    \<or> keyed_clash toy_crypto (address_input toy_crypto (MasterKey_new 1 (replicate 32 9)) TChunk (replicate 16 1) [5, 6])
        (address_input toy_crypto (MasterKey_new 1 (replicate 32 9)) TChunk (replicate 16 1) [5, 6])"
  using content_address_binding [OF toy_object_opens toy_object_opens]
  by (simp add: MasterKey_new_def)

text \<open>
  Chunk padding is reversible and bounded. For either policy \<open>unpad_chunk\<close> returns what
  \<open>pad_chunk\<close> padded; the power-of-two policy yields a power-of-two length above the data length
  and at most twice it (one byte for empty data).
\<close>

lemma pad_unpad_chunk:
  "unpad_chunk (pad_chunk d policy) policy = Inr d
    \<and> (\<exists>j. length (pad_chunk d PowerOfTwo) = 2 ^ j)
    \<and> length d < length (pad_chunk d PowerOfTwo)
    \<and> length (pad_chunk d PowerOfTwo) \<le> max 1 (2 * length d)"
proof -
  let ?n = "next_power_of_two (length d + 1)"
  have b: "length d + 1 \<le> ?n" "?n < 2 * (length d + 1)" "\<exists>j. ?n = 2 ^ j"
    using next_pow2_from_bounds [of 1 "length d + 1"] by (auto simp: next_power_of_two_def)
  then have len: "length (pad_chunk d PowerOfTwo) = ?n" by (simp add: pad_chunk_def Let_def)
  have "unpad_chunk (pad_chunk d policy) policy = Inr d"
  proof (cases policy)
    case PadNone
    then show ?thesis by (simp add: pad_chunk_def unpad_chunk_def)
  next
    case PowerOfTwo
    then show ?thesis unfolding PowerOfTwo unpad_chunk_iff by (auto simp: pad_chunk_def Let_def)
  qed
  moreover have "?n \<le> max 1 (2 * length d)"
  proof (cases "d = []")
    case True
    then show ?thesis by (simp add: next_power_of_two_def next_pow2_from.simps)
  next
    case False
    from b(3) obtain j where j: "?n = 2 ^ j" by blast
    have "1 < ?n" using b(1) False by (cases d) auto
    with j have "j \<noteq> 0" by (cases j) auto
    then have "even ?n" using j by simp
    with b(2) show ?thesis by (elim evenE) (simp add: max_def)
  qed
  ultimately show ?thesis using b len by auto
qed

text \<open>
  \<open>unpad_chunk\<close> accepts a padded chunk exactly when it is the data, the marker byte and a run
  of zeros; in particular every byte string has at most one unpadding.
\<close>

lemma unpad_chunk_accepts:
  "unpad_chunk p PowerOfTwo = Inr d \<longleftrightarrow> (\<exists>z. p = d @ [0x80] @ replicate z 0)"
  by (rule unpad_chunk_iff)

end
