(* ===== verification/Store.thy ===== *)
theory Store
  imports Crypto
begin

text \<open>
  \<open>crates/secsec-store\<close>: the blob store. A \<open>redb\<close> table is an ordered map, a write transaction
  that commits is the updated record, one that aborts leaves the record as it was. The
  representation invariant \<open>store_ok\<close> says that keys have their fixed lengths, that the roster is a
  gapless sequence, and that every staged blob belongs to a push with an activity clock, so the
  reclaimer can reach it. BLAKE3 comes from the \<open>crypto\<close> parameter.
\<close>

section \<open>Tables and keys\<close>

record store =
  t_objects :: "(bytes, bytes) btree"
  t_staging :: "(bytes, bytes) btree"
  t_staging_meta :: "(bytes, nat) btree"
  t_keyslots :: "(bytes, bytes) btree"
  t_refs :: "(bytes, bytes) btree"
  t_roster :: "(nat, bytes) btree"
  t_roster_keyhist :: "(u32, bytes) btree"
  t_keyhist :: "(u32, bytes) btree"

definition Store_empty :: store where
  "Store_empty = \<lparr>t_objects = [], t_staging = [], t_staging_meta = [], t_keyslots = [],
     t_refs = [], t_roster = [], t_roster_keyhist = [], t_keyhist = []\<rparr>"

definition ABSENT_HEAD :: bytes where "ABSENT_HEAD = replicate 32 0"
definition STAGE_PUSH_LEN :: nat where "STAGE_PUSH_LEN = 16"
definition STAGING_KEY_LEN :: nat where "STAGING_KEY_LEN = STAGE_PUSH_LEN + 32"
definition KEYSLOT_KEY_LEN :: nat where "KEYSLOT_KEY_LEN = 36"

record cas_outcome =
  swapped :: bool
  promoted_bytes :: nat

record keyslot_write =
  kw_device_id :: bytes
  kw_gen :: u32
  kw_blob :: bytes

record head_swap =
  hs_ref_h :: bytes
  hs_expected_old :: bytes
  hs_new_blob :: bytes

record roster_batch_rec =
  rb_expected_tip :: bytes
  rb_entries :: "bytes list"
  rb_keyslots :: "keyslot_write list"
  rb_keyhist :: "(u32 \<times> bytes) option"
  rb_roster_keyhist :: "(u32 \<times> bytes) option"
  rb_revoke :: "bytes list"
  rb_head :: "head_swap option"

definition staging_key :: "bytes \<Rightarrow> bytes \<Rightarrow> bytes" where
  "staging_key push_id i = push_id @ i"

definition staging_range :: "bytes \<Rightarrow> bytes \<times> bytes" where
  "staging_range push_id =
     (staging_key push_id (replicate 32 0), staging_key push_id (replicate 32 0xff))"

definition keyslot_key :: "bytes \<Rightarrow> u32 \<Rightarrow> bytes" where
  "keyslot_key device_id g = device_id @ le_bytes 4 g"

definition keyslot_range :: "bytes \<Rightarrow> bytes \<times> bytes" where
  "keyslot_range device_id = (device_id @ replicate 4 0, device_id @ replicate 4 0xff)"

definition frame_gen :: "bytes \<Rightarrow> u32 option" where
  "frame_gen blob =
     (if length blob < FRAME_LEN then None
      else case Frame_decode (take FRAME_LEN blob) of Inl _ \<Rightarrow> None | Inr f \<Rightarrow> Some (gen f))"

section \<open>Operations\<close>

definition roster_len :: "store \<Rightarrow> nat" where
  "roster_len st = length (t_roster st)"

definition get_roster_entry :: "store \<Rightarrow> nat \<Rightarrow> bytes option" where
  "get_roster_entry st sq = map_of (t_roster st) sq"

definition get_roster_keyhist :: "store \<Rightarrow> u32 \<Rightarrow> bytes option" where
  "get_roster_keyhist st g = map_of (t_roster_keyhist st) g"

definition get_keyhist :: "store \<Rightarrow> u32 \<Rightarrow> bytes option" where
  "get_keyhist st g = map_of (t_keyhist st) g"

definition get_ref :: "store \<Rightarrow> bytes \<Rightarrow> bytes option" where
  "get_ref st ref_h = map_of (t_refs st) ref_h"

text \<open>The compare token of a stored blob: its hash, or the absent sentinel.\<close>

definition blob_token :: "crypto \<Rightarrow> bytes option \<Rightarrow> bytes" where
  "blob_token cr b = (case b of Some v \<Rightarrow> hash cr v | None \<Rightarrow> ABSENT_HEAD)"

definition roster_tip :: "crypto \<Rightarrow> store \<Rightarrow> bytes \<times> u32 option" where
  "roster_tip cr st =
     (if roster_len st = 0 then (ABSENT_HEAD, None)
      else case map_of (t_roster st) (roster_len st - 1) of
             Some v \<Rightarrow> (hash cr v, frame_gen v)
           | None \<Rightarrow> (ABSENT_HEAD, None))"

text \<open>The three guards of \<open>roster_batch\<close>.\<close>

definition wrap_free :: "u32 option \<Rightarrow> (u32, bytes) btree \<Rightarrow> (u32 \<times> bytes) option \<Rightarrow> bool" where
  "wrap_free tip_gen table w =
     (case w of None \<Rightarrow> True | Some (g, _) \<Rightarrow> map_of table g = None \<or> tip_gen = Some g)"

definition head_cas_ok :: "crypto \<Rightarrow> store \<Rightarrow> head_swap option \<Rightarrow> bool" where
  "head_cas_ok cr st h =
     (case h of None \<Rightarrow> True
      | Some h \<Rightarrow> blob_token cr (map_of (t_refs st) (hs_ref_h h)) = hs_expected_old h)"

definition revoke_keyslots :: "bytes \<Rightarrow> (bytes, bytes) btree \<Rightarrow> (bytes, bytes) btree" where
  "revoke_keyslots dev ks =
     (let (lo, hi) = keyslot_range dev; gone = bt_keys (bt_range lo hi ks)
      in fold bt_remove gone ks)"

definition insert_wrap :: "(u32 \<times> bytes) option \<Rightarrow> (u32, bytes) btree \<Rightarrow> (u32, bytes) btree" where
  "insert_wrap w table = (case w of None \<Rightarrow> table | Some (g, b) \<Rightarrow> bt_insert g b table)"

definition roster_batch :: "crypto \<Rightarrow> roster_batch_rec \<Rightarrow> store \<Rightarrow> nat option \<times> store" where
  "roster_batch cr b st =
     (let count = roster_len st;
          (current_tip, tip_gen) = roster_tip cr st;
          keyhist_free = (wrap_free tip_gen (t_keyhist st) (rb_keyhist b)
            \<and> wrap_free tip_gen (t_roster_keyhist st) (rb_roster_keyhist b))
      in if current_tip \<noteq> rb_expected_tip b \<or> \<not> head_cas_ok cr st (rb_head b) \<or> \<not> keyhist_free
         then (None, st)
         else
           let ks0 = (if count = 0 then fold bt_remove (bt_keys (t_keyslots st)) (t_keyslots st)
                      else t_keyslots st);
               roster = fold (\<lambda>(i, e). bt_insert (count + i) e) (enumerate 0 (rb_entries b)) (t_roster st);
               ks1 = fold revoke_keyslots (rb_revoke b) ks0;
               ks2 = fold (\<lambda>k. bt_insert (keyslot_key (kw_device_id k) (kw_gen k)) (kw_blob k))
                       (rb_keyslots b) ks1
           in (Some count,
               st\<lparr>t_roster := roster, t_keyslots := ks2,
                  t_keyhist := insert_wrap (rb_keyhist b) (t_keyhist st),
                  t_roster_keyhist := insert_wrap (rb_roster_keyhist b) (t_roster_keyhist st),
                  t_refs := (case rb_head b of None \<Rightarrow> t_refs st
                             | Some h \<Rightarrow> bt_insert (hs_ref_h h) (hs_new_blob h) (t_refs st))\<rparr>))"

definition ref_blob_hashes :: "crypto \<Rightarrow> store \<Rightarrow> (bytes \<times> bytes) list" where
  "ref_blob_hashes cr st =
     map (\<lambda>(k, v). (k, hash cr v)) (filter (\<lambda>(k, v). length k = 32) (t_refs st))"

text \<open>The promotion loop of \<open>cas_ref\<close>, over the staged entries of one push.\<close>

definition promote_one ::
    "bytes \<times> bytes \<Rightarrow> (bytes, bytes) btree \<times> nat \<Rightarrow> (bytes, bytes) btree \<times> nat" where
  "promote_one e acc =
     (let i = drop STAGE_PUSH_LEN (fst e); (objs, n) = acc
      in if map_of objs i = None then (bt_insert i (snd e) objs, n + length (snd e)) else acc)"

definition cas_ref ::
    "crypto \<Rightarrow> bytes \<Rightarrow> bytes \<Rightarrow> bytes \<Rightarrow> bytes \<Rightarrow> store \<Rightarrow> cas_outcome \<times> store" where
  "cas_ref cr ref_h expected_old new_blob promote st =
     (if blob_token cr (map_of (t_refs st) ref_h) \<noteq> expected_old
      then (\<lparr>swapped = False, promoted_bytes = 0\<rparr>, st)
      else
        let (lo, hi) = staging_range promote;
            staged = bt_range lo hi (t_staging st);
            (objs, n) = fold promote_one staged (t_objects st, 0)
        in (\<lparr>swapped = True, promoted_bytes = n\<rparr>,
            st\<lparr>t_objects := objs, t_staging := fold bt_remove (bt_keys staged) (t_staging st),
               t_staging_meta := bt_remove promote (t_staging_meta st),
               t_refs := bt_insert ref_h new_blob (t_refs st)\<rparr>))"

definition put_keyslot :: "bytes \<Rightarrow> u32 \<Rightarrow> bytes \<Rightarrow> store \<Rightarrow> store" where
  "put_keyslot device_id g blob st =
     st\<lparr>t_keyslots := bt_insert (keyslot_key device_id g) blob (t_keyslots st)\<rparr>"

definition get_keyslot :: "store \<Rightarrow> bytes \<Rightarrow> u32 \<Rightarrow> bytes option" where
  "get_keyslot st device_id g = map_of (t_keyslots st) (keyslot_key device_id g)"

definition keyslot_exists :: "store \<Rightarrow> bytes \<Rightarrow> bool" where
  "keyslot_exists st device_id =
     (let (lo, hi) = keyslot_range device_id in bt_range lo hi (t_keyslots st) \<noteq> [])"

definition put_one :: "bytes \<times> bytes \<Rightarrow> (bytes, bytes) btree \<times> nat \<Rightarrow> (bytes, bytes) btree \<times> nat" where
  "put_one e acc =
     (let (objs, n) = acc
      in if map_of objs (fst e) = None then (bt_insert (fst e) (snd e) objs, n + 1) else acc)"

definition put_many :: "(bytes \<times> bytes) list \<Rightarrow> store \<Rightarrow> nat \<times> store" where
  "put_many items st =
     (let (objs, newly) = fold put_one items (t_objects st, 0)
      in if 0 < newly then (newly, st\<lparr>t_objects := objs\<rparr>) else (newly, st))"

definition put :: "bytes \<Rightarrow> bytes \<Rightarrow> store \<Rightarrow> bool \<times> store" where
  "put i blob st = (let (n, st') = put_many [(i, blob)] st in (n = 1, st'))"

definition stage :: "bytes \<Rightarrow> bytes \<Rightarrow> bytes \<Rightarrow> nat \<Rightarrow> store \<Rightarrow> store" where
  "stage push_id i blob now st =
     st\<lparr>t_staging := bt_insert (staging_key push_id i) blob (t_staging st),
        t_staging_meta := bt_insert push_id now (t_staging_meta st)\<rparr>"

definition get :: "store \<Rightarrow> bytes \<Rightarrow> bytes option" where
  "get st i = map_of (t_objects st) i"

definition has :: "store \<Rightarrow> bytes list \<Rightarrow> bool list" where
  "has st ids = map (\<lambda>i. map_of (t_objects st) i \<noteq> None) ids"

definition staged_bytes :: "store \<Rightarrow> bytes \<Rightarrow> nat" where
  "staged_bytes st push_id =
     (let (lo, hi) = staging_range push_id
      in sum_list (map (\<lambda>(k, v). if map_of (t_objects st) (drop STAGE_PUSH_LEN k) = None
                                then length v else 0)
           (bt_range lo hi (t_staging st))))"

definition reclaim_push :: "bytes \<Rightarrow> (bytes, bytes) btree \<times> (bytes, nat) btree \<times> nat
    \<Rightarrow> (bytes, bytes) btree \<times> (bytes, nat) btree \<times> nat" where
  "reclaim_push pid acc =
     (let (staging, meta, reclaimed) = acc; (lo, hi) = staging_range pid;
          ks = bt_keys (bt_range lo hi staging)
      in (fold bt_remove ks staging, bt_remove pid meta, reclaimed + 1))"

definition reclaim_staging :: "nat \<Rightarrow> nat \<Rightarrow> store \<Rightarrow> nat \<times> store" where
  "reclaim_staging now ttl_secs st =
     (let cutoff = now - ttl_secs;
          idle = map fst (filter (\<lambda>(k, v). v \<le> cutoff \<and> length k = STAGE_PUSH_LEN) (t_staging_meta st));
          (staging, meta, reclaimed) = fold reclaim_push idle (t_staging st, t_staging_meta st, 0)
      in if 0 < reclaimed then (reclaimed, st\<lparr>t_staging := staging, t_staging_meta := meta\<rparr>)
         else (reclaimed, st))"

definition delete_one :: "bytes \<Rightarrow> (bytes, bytes) btree \<times> nat \<Rightarrow> (bytes, bytes) btree \<times> nat" where
  "delete_one i acc =
     (let (objs, n) = acc
      in (bt_remove i objs, if map_of objs i \<noteq> None then n + 1 else n))"

definition delete_objects :: "bytes list \<Rightarrow> store \<Rightarrow> nat \<times> store" where
  "delete_objects ids st =
     (let (objs, removed) = fold delete_one ids (t_objects st, 0)
      in if 0 < removed then (removed, st\<lparr>t_objects := objs\<rparr>) else (removed, st))"

definition prune_if ::
    "crypto \<Rightarrow> bytes list \<Rightarrow> ((bytes \<times> bytes) list \<Rightarrow> nat \<Rightarrow> bool) \<Rightarrow> store \<Rightarrow> bool \<times> store" where
  "prune_if cr ids accept st =
     (if accept (ref_blob_hashes cr st) (roster_len st)
      then (True, st\<lparr>t_objects := fold bt_remove ids (t_objects st)\<rparr>) else (False, st))"

definition retain :: "bytes list \<Rightarrow> store \<Rightarrow> nat \<times> store" where
  "retain keep st =
     (let to_delete = filter (\<lambda>i. length i = 32 \<and> i \<notin> set keep) (bt_keys (t_objects st))
      in if to_delete = [] then (0, st)
         else (length to_delete, st\<lparr>t_objects := fold bt_remove to_delete (t_objects st)\<rparr>))"

definition object_count :: "store \<Rightarrow> nat" where
  "object_count st = length (t_objects st)"

section \<open>Range scans are prefix scans\<close>

lemma byte_bounds: "(0 :: u8) \<le> b" "b \<le> (0xff :: u8)"
proof -
  have "unat b < 2 ^ LENGTH(8)" by (rule unsigned_less)
  then show "b \<le> 0xff" by (simp add: word_le_nat_alt)
qed simp

lemma replicate_zero_le: "length k = n \<Longrightarrow> replicate n (0 :: u8) \<le> k"
proof (induction n arbitrary: k)
  case 0
  then show ?case by simp
next
  case (Suc n)
  then obtain x xs where k: "k = x # xs" "length xs = n" by (cases k) auto
  show ?case using Suc.IH [OF k(2)] by (cases "x = 0") (auto simp: k word_gt_0 less_eq_list_code)
qed

lemma le_replicate_ff: "length k = n \<Longrightarrow> k \<le> replicate n (0xff :: u8)"
proof (induction n arbitrary: k)
  case 0
  then show ?case by simp
next
  case (Suc n)
  then obtain x xs where k: "k = x # xs" "length xs = n" by (cases k) auto
  have "x < 0xff" if "x \<noteq> 0xff" using byte_bounds(2) [of x] that by (rule order.not_eq_order_implies_strict [rotated])
  then show ?case using Suc.IH [OF k(2)] by (cases "x = 0xff") (auto simp: k less_eq_list_code)
qed

lemma append_le_append: "(p @ xs \<le> p @ ys) = (xs \<le> (ys :: u8 list))"
  by (induction p) (auto simp: less_eq_list_code)

lemma prefix_squeeze:
  "p @ lo \<le> q @ k \<Longrightarrow> q @ k \<le> p @ hi \<Longrightarrow> length q = length p \<Longrightarrow> q = (p :: u8 list)"
proof (induction p arbitrary: q)
  case Nil
  then show ?case by simp
next
  case (Cons x p)
  then obtain y q' where "q = y # q'" "length q' = length p" by (cases q) auto
  with Cons show ?case by (auto simp: less_eq_list_code)
qed

lemma prefix_range:
  assumes "length k = length p + n"
  shows "p @ replicate n 0 \<le> k \<and> k \<le> p @ replicate n (0xff :: u8) \<longleftrightarrow> take (length p) k = p"
proof
  let ?q = "take (length p) k" and ?r = "drop (length p) k"
  have k: "k = ?q @ ?r" "length ?q = length p" "length ?r = n" using assms by auto
  show "?q = p" if "p @ replicate n 0 \<le> k \<and> k \<le> p @ replicate n (0xff :: u8)"
    using that k(1,2) prefix_squeeze by metis
  show "p @ replicate n 0 \<le> k \<and> k \<le> p @ replicate n (0xff :: u8)" if "?q = p"
    using that k replicate_zero_le [OF k(3)] le_replicate_ff [OF k(3)] append_le_append by metis
qed

section \<open>Table lemmas\<close>

lemma fold_bt_remove: "fold bt_remove ks m = filter (\<lambda>e. fst e \<notin> set ks) m"
proof (induction ks arbitrary: m)
  case Nil
  then show ?case by simp
next
  case (Cons k ks)
  then show ?case by (auto simp: bt_remove_def intro: filter_cong)
qed

lemma remove_filtered:
  "fold bt_remove (bt_keys (filter (\<lambda>e. P (fst e)) m)) m = filter (\<lambda>e. \<not> P (fst e)) m"
  unfolding fold_bt_remove bt_keys_def by (rule filter_cong) auto

lemma remove_all: "fold bt_remove (bt_keys m) m = []"
  using remove_filtered [of "\<lambda>_. True" m] by simp

lemma map_of_filter_key: "map_of (filter (\<lambda>e. P (fst e)) m) k = (if P k then map_of m k else None)"
  by (induction m) auto

lemma map_of_filter_key_not:
  "map_of (filter (\<lambda>e. \<not> P (fst e)) m) k = (if P k then None else map_of m k)"
  using map_of_filter_key [of "\<lambda>k. \<not> P k" m k] by simp

lemma bt_range_prefix:
  assumes "\<forall>e \<in> set m. length (fst e) = length p + n"
  shows "bt_range (p @ replicate n 0) (p @ replicate n (0xff :: u8)) m
    = filter (\<lambda>e. take (length p) (fst e) = p) m"
  unfolding bt_range_def by (rule filter_cong) (use assms prefix_range in auto)

lemma map_of_insert_other: "map_of (bt_insert k v m) k' = (if k' = k then Some v else map_of m k')"
  by simp

text \<open>First write wins: both insertion loops extend the map without replacing a value.\<close>

lemma put_loop:
  "map_of (fst (fold put_one es (objs, n))) = map_of es ++ map_of objs
   \<and> (bt_wf objs \<longrightarrow> bt_wf (fst (fold put_one es (objs, n))))
   \<and> (snd (fold put_one es (objs, n)) = n \<longrightarrow> fst (fold put_one es (objs, n)) = objs)
   \<and> n \<le> snd (fold put_one es (objs, n))"
proof (induction es arbitrary: objs n)
  case Nil
  then show ?case by simp
next
  case (Cons e es)
  show ?case
  proof (cases "map_of objs (fst e)")
    case None
    with Cons [of "bt_insert (fst e) (snd e) objs" "n + 1"] show ?thesis
      by (auto simp: put_one_def map_add_def fun_eq_iff split: option.splits)
  next
    case (Some v)
    with Cons [of objs n] show ?thesis
      by (auto simp: put_one_def map_add_def fun_eq_iff split: option.splits)
  qed
qed

lemma promote_loop:
  assumes "distinct (map (\<lambda>e. drop STAGE_PUSH_LEN (fst e)) es)"
  shows "map_of (fst (fold promote_one es (objs, n)))
      = map_of (map (\<lambda>e. (drop STAGE_PUSH_LEN (fst e), snd e)) es) ++ map_of objs
   \<and> (bt_wf objs \<longrightarrow> bt_wf (fst (fold promote_one es (objs, n))))
   \<and> snd (fold promote_one es (objs, n)) = n + sum_list
        (map (\<lambda>e. if map_of objs (drop STAGE_PUSH_LEN (fst e)) = None then length (snd e) else 0) es)"
  using assms
proof (induction es arbitrary: objs n)
  case Nil
  then show ?case by simp
next
  case (Cons e es)
  let ?i = "drop STAGE_PUSH_LEN (fst e)"
  show ?case
  proof (cases "map_of objs ?i")
    case None
    have other: "map (\<lambda>x. if map_of (bt_insert ?i (snd e) objs) (drop STAGE_PUSH_LEN (fst x)) = None
          then length (snd x) else 0) es
        = map (\<lambda>x. if map_of objs (drop STAGE_PUSH_LEN (fst x)) = None then length (snd x) else 0) es"
    proof (intro map_cong refl)
      fix x assume "x \<in> set es"
      with Cons.prems have "drop STAGE_PUSH_LEN (fst x) \<noteq> ?i" by (auto simp: image_iff)
      then show "(if map_of (bt_insert ?i (snd e) objs) (drop STAGE_PUSH_LEN (fst x)) = None
          then length (snd x) else 0)
        = (if map_of objs (drop STAGE_PUSH_LEN (fst x)) = None then length (snd x) else 0)"
        by simp
    qed
    from None Cons.prems Cons.IH [of "bt_insert ?i (snd e) objs" "n + length (snd e)"]
    show ?thesis unfolding other
      by (auto simp: promote_one_def map_add_def fun_eq_iff split: option.splits)
  next
    case (Some v)
    with Cons.prems Cons.IH [of objs n] show ?thesis
      by (auto simp: promote_one_def map_add_def fun_eq_iff split: option.splits)
  qed
qed

lemma delete_loop:
  "fst (fold delete_one ids (objs, n)) = fold bt_remove ids objs
   \<and> n \<le> snd (fold delete_one ids (objs, n))
   \<and> (snd (fold delete_one ids (objs, n)) = n \<longrightarrow> map_of (fold bt_remove ids objs) = map_of objs)"
proof (induction ids arbitrary: objs n)
  case Nil
  then show ?case by simp
next
  case (Cons i ids)
  show ?case
  proof (cases "map_of objs i")
    case None
    with Cons [of "bt_remove i objs" n] show ?thesis by (auto simp: delete_one_def)
  next
    case (Some v)
    with Cons [of "bt_remove i objs" "n + 1"] show ?thesis by (auto simp: delete_one_def)
  qed
qed

section \<open>The invariant\<close>

definition store_ok :: "store \<Rightarrow> bool" where
  "store_ok st \<longleftrightarrow>
     bt_wf (t_objects st) \<and> bt_wf (t_staging st) \<and> bt_wf (t_staging_meta st)
     \<and> bt_wf (t_keyslots st) \<and> bt_wf (t_refs st) \<and> bt_wf (t_roster_keyhist st) \<and> bt_wf (t_keyhist st)
     \<and> (\<forall>k \<in> dom (map_of (t_staging st)). length k = STAGING_KEY_LEN
          \<and> take STAGE_PUSH_LEN k \<in> dom (map_of (t_staging_meta st)))
     \<and> (\<forall>k \<in> dom (map_of (t_staging_meta st)). length k = STAGE_PUSH_LEN)
     \<and> (\<forall>k \<in> dom (map_of (t_keyslots st)). length k = KEYSLOT_KEY_LEN)
     \<and> (\<forall>k \<in> dom (map_of (t_refs st)). length k = 32)
     \<and> map fst (t_roster st) = [0..<length (t_roster st)]"

lemma store_okD:
  assumes "store_ok st"
  shows "bt_wf (t_objects st)" "bt_wf (t_staging st)" "bt_wf (t_staging_meta st)"
    "bt_wf (t_keyslots st)" "bt_wf (t_refs st)"
    "\<And>e. e \<in> set (t_staging st) \<Longrightarrow> length (fst e) = STAGING_KEY_LEN"
    "\<And>e. e \<in> set (t_staging st) \<Longrightarrow> take STAGE_PUSH_LEN (fst e) \<in> dom (map_of (t_staging_meta st))"
    "\<And>k. k \<in> dom (map_of (t_staging_meta st)) \<Longrightarrow> length k = STAGE_PUSH_LEN"
    "\<And>e. e \<in> set (t_keyslots st) \<Longrightarrow> length (fst e) = KEYSLOT_KEY_LEN"
    "map fst (t_roster st) = [0..<length (t_roster st)]"
  using assms by (auto simp: store_ok_def dom_map_of_conv_image_fst)

lemma staging_scan:
  assumes "store_ok st" "length pid = STAGE_PUSH_LEN"
  shows "(let (lo, hi) = staging_range pid in bt_range lo hi (t_staging st))
    = filter (\<lambda>e. take STAGE_PUSH_LEN (fst e) = pid) (t_staging st)"
  using bt_range_prefix [of "t_staging st" pid 32] store_okD(6) [OF assms(1)] assms(2)
  by (simp add: staging_range_def staging_key_def STAGING_KEY_LEN_def)

lemma keyslot_scan:
  assumes "\<forall>e \<in> set ks. length (fst e) = KEYSLOT_KEY_LEN" "length dev = 32"
  shows "(let (lo, hi) = keyslot_range dev in bt_range lo hi ks)
    = filter (\<lambda>e. take 32 (fst e) = dev) ks"
  using bt_range_prefix [of ks dev 4] assms by (simp add: keyslot_range_def KEYSLOT_KEY_LEN_def)

lemma Store_empty_ok: "store_ok Store_empty"
  by (simp add: store_ok_def Store_empty_def)

section \<open>Compare-and-swap of a head\<close>

lemma staged_ids_distinct:
  assumes "store_ok st" "length pid = STAGE_PUSH_LEN"
  shows "distinct (map (\<lambda>e. drop STAGE_PUSH_LEN (fst e))
    (filter (\<lambda>e. take STAGE_PUSH_LEN (fst e) = pid) (t_staging st)))"
proof -
  let ?f = "filter (\<lambda>e. take STAGE_PUSH_LEN (fst e) = pid) (t_staging st)"
  have d: "distinct (map fst ?f)"
    using bt_wf_distinct [OF store_okD(2) [OF assms(1)]] by (rule distinct_map_filter)
  have "inj_on (drop STAGE_PUSH_LEN) (set (map fst ?f))"
    by (rule inj_onI) (auto, metis append_take_drop_id)
  with d have "distinct (map (drop STAGE_PUSH_LEN) (map fst ?f))" using distinct_map by blast
  then show ?thesis by (simp add: comp_def)
qed

lemma staged_lookup:
  assumes "length pid = STAGE_PUSH_LEN"
  shows "map_of (map (\<lambda>e. (drop STAGE_PUSH_LEN (fst e), snd e))
      (filter (\<lambda>e. take STAGE_PUSH_LEN (fst e) = pid) m)) = (\<lambda>i. map_of m (staging_key pid i))"
proof (induction m)
  case Nil
  then show ?case by simp
next
  case (Cons e m)
  show ?case
  proof (rule ext, goal_cases)
    case (1 i)
    show ?case
    proof (cases "take STAGE_PUSH_LEN (fst e) = pid \<and> drop STAGE_PUSH_LEN (fst e) = i")
      case True
      then have "fst e = pid @ i" by (metis append_take_drop_id)
      with True show ?thesis by (simp add: staging_key_def)
    next
      case False
      then have "fst e \<noteq> pid @ i" using assms by auto
      with False fun_cong [OF Cons.IH, of i] show ?thesis by (auto simp: staging_key_def)
    qed
  qed
qed

lemma bt_wf_fold_remove: "bt_wf m \<Longrightarrow> bt_wf (fold bt_remove ks m)"
  by (simp add: fold_bt_remove bt_wf_filter)

text \<open>A committed swap, in terms of the tables.\<close>

lemma cas_ref_swapped:
  assumes "store_ok st" "length promote = STAGE_PUSH_LEN"
    "blob_token cr (map_of (t_refs st) ref_h) = old"
  obtains st' where
    "cas_ref cr ref_h old blob promote st
       = (\<lparr>swapped = True, promoted_bytes = staged_bytes st promote\<rparr>, st')"
    "map_of (t_objects st') = (\<lambda>i. map_of (t_staging st) (staging_key promote i)) ++ map_of (t_objects st)"
    "bt_wf (t_objects st')"
    "t_staging st' = filter (\<lambda>e. take STAGE_PUSH_LEN (fst e) \<noteq> promote) (t_staging st)"
    "t_staging_meta st' = bt_remove promote (t_staging_meta st)"
    "t_refs st' = bt_insert ref_h blob (t_refs st)"
    "t_keyslots st' = t_keyslots st" "t_roster st' = t_roster st"
    "t_keyhist st' = t_keyhist st" "t_roster_keyhist st' = t_roster_keyhist st"
proof -
  let ?es = "filter (\<lambda>e. take STAGE_PUSH_LEN (fst e) = promote) (t_staging st)"
  obtain lo hi where r: "staging_range promote = (lo, hi)" by (cases "staging_range promote") auto
  with staging_scan [OF assms(1,2)] have sc: "bt_range lo hi (t_staging st) = ?es" by simp
  obtain objs n where f: "fold promote_one ?es (t_objects st, 0) = (objs, n)"
    by (cases "fold promote_one ?es (t_objects st, 0)") auto
  note pl = promote_loop [OF staged_ids_distinct [OF assms(1,2)], of "t_objects st" 0, unfolded f]
  have o: "map_of objs = (\<lambda>i. map_of (t_staging st) (staging_key promote i)) ++ map_of (t_objects st)"
    using pl staged_lookup [OF assms(2), of "t_staging st"] by simp
  have n: "n = staged_bytes st promote"
    using pl by (simp add: staged_bytes_def r sc case_prod_unfold)
  have w: "bt_wf objs" using pl store_okD(1) [OF assms(1)] by simp
  show thesis
    by (rule that [of "st\<lparr>t_objects := objs, t_staging := fold bt_remove (bt_keys ?es) (t_staging st),
        t_staging_meta := bt_remove promote (t_staging_meta st),
        t_refs := bt_insert ref_h blob (t_refs st)\<rparr>"])
      (use o n w assms(3) in \<open>simp_all add: cas_ref_def r sc f
          remove_filtered [of "\<lambda>k. take STAGE_PUSH_LEN k = promote"]\<close>)
qed

lemma cas_ref_conflict:
  "blob_token cr (map_of (t_refs st) ref_h) \<noteq> old \<Longrightarrow>
     cas_ref cr ref_h old blob promote st = (\<lparr>swapped = False, promoted_bytes = 0\<rparr>, st)"
  by (simp add: cas_ref_def)

lemma dom_filter_key: "dom (map_of (filter (\<lambda>e. P (fst e)) m)) = {k \<in> dom (map_of m). P k}"
  by (auto simp: dom_map_of_conv_image_fst)

lemma cas_ref_ok:
  assumes "store_ok st" "length promote = STAGE_PUSH_LEN" "length ref_h = 32"
  shows "store_ok (snd (cas_ref cr ref_h old blob promote st))"
proof (cases "blob_token cr (map_of (t_refs st) ref_h) = old")
  case True
  obtain st' where st': "cas_ref cr ref_h old blob promote st
       = (\<lparr>swapped = True, promoted_bytes = staged_bytes st promote\<rparr>, st')"
    and t: "bt_wf (t_objects st')"
    "t_staging st' = filter (\<lambda>e. take STAGE_PUSH_LEN (fst e) \<noteq> promote) (t_staging st)"
    "t_staging_meta st' = bt_remove promote (t_staging_meta st)"
    "t_refs st' = bt_insert ref_h blob (t_refs st)"
    "t_keyslots st' = t_keyslots st" "t_roster st' = t_roster st"
    "t_keyhist st' = t_keyhist st" "t_roster_keyhist st' = t_roster_keyhist st"
    using cas_ref_swapped [OF assms(1,2) True] by metis
  have "dom (map_of (t_staging st')) = {k \<in> dom (map_of (t_staging st)). take STAGE_PUSH_LEN k \<noteq> promote}"
    unfolding t by (rule dom_filter_key [of "\<lambda>k. take STAGE_PUSH_LEN k \<noteq> promote"])
  with assms t show ?thesis unfolding st' snd_conv
    by (auto simp: store_ok_def bt_wf_filter)
next
  case False
  with assms show ?thesis by (simp add: cas_ref_conflict)
qed

section \<open>Keyslots\<close>

lemma keyslot_key_prefix: "length d = 32 \<Longrightarrow> take 32 (keyslot_key d g) = d"
  by (simp add: keyslot_key_def)

lemma keyslot_key_inj:
  "length d = 32 \<Longrightarrow> length d' = 32 \<Longrightarrow> keyslot_key d g = keyslot_key d' g' \<longleftrightarrow> d = d' \<and> g = g'"
  by (auto simp: keyslot_key_def le_bytes_4_inj)

definition slots_ok :: "(bytes, bytes) btree \<Rightarrow> bool" where
  "slots_ok ks \<longleftrightarrow> bt_wf ks \<and> (\<forall>k \<in> fst ` set ks. length k = KEYSLOT_KEY_LEN)"

lemma slots_ok_filter: "slots_ok ks \<Longrightarrow> slots_ok (filter P ks)"
  by (auto simp: slots_ok_def bt_wf_filter)

lemma slots_ok_insert: "slots_ok ks \<Longrightarrow> length k = KEYSLOT_KEY_LEN \<Longrightarrow> slots_ok (bt_insert k v ks)"
  by (simp add: slots_ok_def set_map_fst_bt_insert bt_wf_bt_insert)

lemma revoke_keyslots_filter:
  assumes "slots_ok ks" "length dev = 32"
  shows "revoke_keyslots dev ks = filter (\<lambda>e. take 32 (fst e) \<noteq> dev) ks"
proof -
  obtain lo hi where r: "keyslot_range dev = (lo, hi)" by (cases "keyslot_range dev") auto
  have "bt_range lo hi ks = filter (\<lambda>e. take 32 (fst e) = dev) ks"
    using keyslot_scan [of ks dev] assms by (simp add: r slots_ok_def)
  then show ?thesis
    using remove_filtered [of "\<lambda>k. take 32 k = dev" ks] by (simp add: revoke_keyslots_def r)
qed

lemma fold_revoke_filter:
  assumes "slots_ok ks" "\<forall>d \<in> set devs. length d = 32"
  shows "fold revoke_keyslots devs ks = filter (\<lambda>e. take 32 (fst e) \<notin> set devs) ks"
  using assms
proof (induction devs arbitrary: ks)
  case Nil
  then show ?case by simp
next
  case (Cons d devs)
  then show ?case
    by (auto simp: revoke_keyslots_filter slots_ok_filter intro: filter_cong)
qed

lemma keyslot_exists_iff:
  assumes "store_ok st" "length d = 32"
  shows "keyslot_exists st d \<longleftrightarrow> (\<exists>g. get_keyslot st d g \<noteq> None)"
proof -
  have sc: "keyslot_exists st d \<longleftrightarrow> filter (\<lambda>e. take 32 (fst e) = d) (t_keyslots st) \<noteq> []"
    using keyslot_scan [of "t_keyslots st" d] store_okD(9) [OF assms(1)] assms(2)
    by (auto simp: keyslot_exists_def split: prod.splits)
  have "(\<exists>e \<in> set (t_keyslots st). take 32 (fst e) = d)
      \<longleftrightarrow> (\<exists>g. keyslot_key d g \<in> fst ` set (t_keyslots st))"
  proof
    assume "\<exists>e \<in> set (t_keyslots st). take 32 (fst e) = d"
    then obtain e where e: "e \<in> set (t_keyslots st)" "take 32 (fst e) = d" by blast
    with store_okD(9) [OF assms(1)] have "length (drop 32 (fst e)) = 4" by (simp add: KEYSLOT_KEY_LEN_def)
    then have "le_bytes 4 (from_le (drop 32 (fst e)) :: u32) = drop 32 (fst e)"
      by (rule le_bytes_from_le) simp
    with e(2) have "keyslot_key d (from_le (drop 32 (fst e))) = fst e"
      by (metis append_take_drop_id keyslot_key_def)
    with e(1) show "\<exists>g. keyslot_key d g \<in> fst ` set (t_keyslots st)" by (metis imageI)
  next
    assume "\<exists>g. keyslot_key d g \<in> fst ` set (t_keyslots st)"
    then show "\<exists>e \<in> set (t_keyslots st). take 32 (fst e) = d"
      using keyslot_key_prefix [OF assms(2)] by (metis imageE)
  qed
  then show ?thesis
    unfolding sc get_keyslot_def filter_empty_conv by (auto simp: map_of_eq_None_iff)
qed

section \<open>Roster batches\<close>

lemma roster_append:
  "map fst m = [0..<length m] \<Longrightarrow>
     fold (\<lambda>(i, e). bt_insert (length m + i) e) (enumerate j es) m' = m' @ enumerate (length m + j) es"
  if "map fst m' = [0..<length m + j]"
  using that
proof (induction es arbitrary: m' j)
  case Nil
  then show ?case by simp
next
  case (Cons e es)
  have "bt_insert n e m'' = m'' @ [(n, e)]" if "\<forall>x \<in> set m''. fst x < n" for n and m'' :: "(nat, 'a) btree"
    using that by (induction m'') auto
  moreover have "\<forall>x \<in> set m'. fst x < length m + j"
    using Cons.prems(2) by (metis atLeastLessThan_iff imageI image_set set_upt)
  ultimately have "bt_insert (length m + j) e m' = m' @ [(length m + j, e)]" by blast
  with Cons show ?case by simp
qed

lemma roster_batch_conflict:
  "fst (roster_batch cr b st) = None \<Longrightarrow> snd (roster_batch cr b st) = st"
  by (auto simp: roster_batch_def Let_def split: prod.splits if_splits)

text \<open>A committed batch, in terms of the tables.\<close>

definition batch_ok :: "roster_batch_rec \<Rightarrow> bool" where
  "batch_ok b \<longleftrightarrow> (\<forall>d \<in> set (rb_revoke b). length d = 32)
     \<and> (\<forall>k \<in> set (rb_keyslots b). length (kw_device_id k) = 32)
     \<and> (case rb_head b of None \<Rightarrow> True | Some h \<Rightarrow> length (hs_ref_h h) = 32)"

lemma roster_batch_applied:
  assumes "store_ok st" "batch_ok b" "fst (roster_batch cr b st) = Some n"
  defines "st' \<equiv> snd (roster_batch cr b st)"
  shows "n = roster_len st" "fst (roster_tip cr st) = rb_expected_tip b"
    "t_roster st' = t_roster st @ enumerate n (rb_entries b)"
    "t_keyslots st' = fold (\<lambda>k. bt_insert (keyslot_key (kw_device_id k) (kw_gen k)) (kw_blob k)) (rb_keyslots b)
       (filter (\<lambda>e. n \<noteq> 0 \<and> take 32 (fst e) \<notin> set (rb_revoke b)) (t_keyslots st))"
    "t_keyhist st' = insert_wrap (rb_keyhist b) (t_keyhist st)"
    "t_roster_keyhist st' = insert_wrap (rb_roster_keyhist b) (t_roster_keyhist st)"
    "wrap_free (snd (roster_tip cr st)) (t_keyhist st) (rb_keyhist b)"
    "wrap_free (snd (roster_tip cr st)) (t_roster_keyhist st) (rb_roster_keyhist b)"
    "t_objects st' = t_objects st" "t_staging st' = t_staging st" "t_staging_meta st' = t_staging_meta st"
    "t_refs st' = (case rb_head b of None \<Rightarrow> t_refs st
       | Some h \<Rightarrow> bt_insert (hs_ref_h h) (hs_new_blob h) (t_refs st))"
proof -
  obtain tip tg where tip: "roster_tip cr st = (tip, tg)" by (cases "roster_tip cr st") auto
  let ?ks0 = "if roster_len st = 0 then fold bt_remove (bt_keys (t_keyslots st)) (t_keyslots st)
    else t_keyslots st"
  have ks0: "?ks0 = filter (\<lambda>e. roster_len st \<noteq> 0) (t_keyslots st)" by (simp add: remove_all)
  have "slots_ok (t_keyslots st)"
    using store_okD(4,9) [OF assms(1)] by (simp add: slots_ok_def)
  then have ks1: "fold revoke_keyslots (rb_revoke b) ?ks0
      = filter (\<lambda>e. roster_len st \<noteq> 0 \<and> take 32 (fst e) \<notin> set (rb_revoke b)) (t_keyslots st)"
    unfolding ks0 using fold_revoke_filter [OF slots_ok_filter] assms(2)
    by (auto simp: batch_ok_def intro: filter_cong)
  have ro: "fold (\<lambda>(i, e). bt_insert (roster_len st + i) e) (enumerate 0 (rb_entries b)) (t_roster st)
      = t_roster st @ enumerate (roster_len st) (rb_entries b)"
    using roster_append [of "t_roster st" "t_roster st" 0 "rb_entries b"] store_okD(10) [OF assms(1)]
    by (simp add: roster_len_def)
  show "n = roster_len st" "fst (roster_tip cr st) = rb_expected_tip b"
    "t_roster st' = t_roster st @ enumerate n (rb_entries b)"
    "t_keyslots st' = fold (\<lambda>k. bt_insert (keyslot_key (kw_device_id k) (kw_gen k)) (kw_blob k)) (rb_keyslots b)
       (filter (\<lambda>e. n \<noteq> 0 \<and> take 32 (fst e) \<notin> set (rb_revoke b)) (t_keyslots st))"
    "t_keyhist st' = insert_wrap (rb_keyhist b) (t_keyhist st)"
    "t_roster_keyhist st' = insert_wrap (rb_roster_keyhist b) (t_roster_keyhist st)"
    "wrap_free (snd (roster_tip cr st)) (t_keyhist st) (rb_keyhist b)"
    "wrap_free (snd (roster_tip cr st)) (t_roster_keyhist st) (rb_roster_keyhist b)"
    "t_objects st' = t_objects st" "t_staging st' = t_staging st" "t_staging_meta st' = t_staging_meta st"
    "t_refs st' = (case rb_head b of None \<Rightarrow> t_refs st
       | Some h \<Rightarrow> bt_insert (hs_ref_h h) (hs_new_blob h) (t_refs st))"
    using assms(3) unfolding st'_def roster_batch_def Let_def tip prod.case ks1 ro
    by (auto split: if_splits)
qed

lemma roster_batch_ok:
  assumes "store_ok st" "batch_ok b"
  shows "store_ok (snd (roster_batch cr b st))"
proof (cases "fst (roster_batch cr b st)")
  case None
  with assms show ?thesis by (simp add: roster_batch_conflict)
next
  case (Some n)
  let ?st' = "snd (roster_batch cr b st)"
  note ap = roster_batch_applied [OF assms Some]
  have slots: "slots_ok (t_keyslots ?st')"
  proof -
    have "slots_ok (fold (\<lambda>k. bt_insert (keyslot_key (kw_device_id k) (kw_gen k)) (kw_blob k)) ws ks)"
      if "slots_ok ks" "\<forall>k \<in> set ws. length (kw_device_id k) = 32" for ws ks
      using that by (induction ws arbitrary: ks)
        (simp_all add: slots_ok_insert keyslot_key_def KEYSLOT_KEY_LEN_def)
    moreover have "slots_ok (t_keyslots st)"
      using store_okD(4,9) [OF assms(1)] by (auto simp: slots_ok_def)
    ultimately show ?thesis
      unfolding ap(4) using assms(2) slots_ok_filter unfolding batch_ok_def by blast
  qed
  have "map fst (t_roster ?st') = [0..<length (t_roster ?st')]"
    using store_okD(10) [OF assms(1)] unfolding ap(3)
    by (simp add: ap(1) roster_len_def upt_add_eq_append [of 0, simplified])
  moreover have "bt_wf (insert_wrap w t)" if "bt_wf t" for w t
    using that by (auto simp: insert_wrap_def split: option.split)
  moreover have "bt_wf (t_refs ?st') \<and> (\<forall>k \<in> dom (map_of (t_refs ?st')). length k = 32)"
    using assms unfolding ap(12) by (auto simp: store_ok_def batch_ok_def split: option.split)
  ultimately show ?thesis
    using assms(1) slots unfolding store_ok_def ap(5,6,9,10,11)
    by (simp add: slots_ok_def dom_map_of_conv_image_fst)
qed

section \<open>Staging and reclamation\<close>

lemma stage_ok:
  assumes "store_ok st" "length pid = STAGE_PUSH_LEN" "length i = 32"
  shows "store_ok (stage pid i blob now st)"
  using assms
  by (auto simp: store_ok_def stage_def staging_key_def STAGING_KEY_LEN_def)

lemma reclaim_loop:
  assumes "\<forall>e \<in> set staging. length (fst e) = STAGING_KEY_LEN" "\<forall>p \<in> set idle. length p = STAGE_PUSH_LEN"
  shows "fold reclaim_push idle (staging, meta, n)
    = (filter (\<lambda>e. take STAGE_PUSH_LEN (fst e) \<notin> set idle) staging,
       filter (\<lambda>e. fst e \<notin> set idle) meta, n + length idle)"
  using assms
proof (induction idle arbitrary: staging meta n)
  case Nil
  then show ?case by simp
next
  case (Cons p idle)
  obtain lo hi where r: "staging_range p = (lo, hi)" by (cases "staging_range p") auto
  have "bt_range lo hi staging = filter (\<lambda>e. take STAGE_PUSH_LEN (fst e) = p) staging"
    using bt_range_prefix [of staging p 32] Cons.prems r
    by (simp add: staging_range_def staging_key_def STAGING_KEY_LEN_def)
  then have "reclaim_push p (staging, meta, n)
      = (filter (\<lambda>e. take STAGE_PUSH_LEN (fst e) \<noteq> p) staging, bt_remove p meta, n + 1)"
    using remove_filtered [of "\<lambda>k. take STAGE_PUSH_LEN k = p" staging] by (simp add: reclaim_push_def r)
  with Cons.IH [of "filter (\<lambda>e. take STAGE_PUSH_LEN (fst e) \<noteq> p) staging" "bt_remove p meta" "n + 1"]
    Cons.prems show ?case
    by (auto simp: bt_remove_def intro: filter_cong)
qed

text \<open>The pushes \<open>reclaim_staging\<close> drops.\<close>

definition idle_pushes :: "nat \<Rightarrow> store \<Rightarrow> bytes set" where
  "idle_pushes cutoff st = {p. \<exists>t \<le> cutoff. map_of (t_staging_meta st) p = Some t}"

lemma reclaim_staging_tables:
  fixes now ttl :: nat
  assumes "store_ok st"
  defines "st' \<equiv> snd (reclaim_staging now ttl st)"
  shows "t_staging st' = filter (\<lambda>e. take STAGE_PUSH_LEN (fst e) \<notin> idle_pushes (now - ttl) st) (t_staging st)"
    "t_staging_meta st' = filter (\<lambda>e. fst e \<notin> idle_pushes (now - ttl) st) (t_staging_meta st)"
    "fst (reclaim_staging now ttl st) = card (idle_pushes (now - ttl) st)"
    "t_objects st' = t_objects st" "t_keyslots st' = t_keyslots st" "t_refs st' = t_refs st"
    "t_roster st' = t_roster st" "t_keyhist st' = t_keyhist st" "t_roster_keyhist st' = t_roster_keyhist st"
proof -
  let ?idle = "map fst (filter (\<lambda>(k, v). v \<le> now - ttl \<and> length k = STAGE_PUSH_LEN) (t_staging_meta st))"
  have meta: "(k, v) \<in> set (t_staging_meta st) \<longleftrightarrow> map_of (t_staging_meta st) k = Some v" for k v
    using bt_get_iff [OF store_okD(3) [OF assms(1)]] by simp
  have set: "set ?idle = idle_pushes (now - ttl) st"
    using store_okD(8) [OF assms(1)] by (force simp: idle_pushes_def meta)
  have "distinct ?idle"
    using bt_wf_distinct [OF store_okD(3) [OF assms(1)]] by (rule distinct_map_filter)
  then have len: "length ?idle = card (idle_pushes (now - ttl) st)"
    using set distinct_card by metis
  have "\<forall>p \<in> set ?idle. length p = STAGE_PUSH_LEN" by auto
  then have loop: "fold reclaim_push ?idle (t_staging st, t_staging_meta st, 0)
    = (filter (\<lambda>e. take STAGE_PUSH_LEN (fst e) \<notin> idle_pushes (now - ttl) st) (t_staging st),
       filter (\<lambda>e. fst e \<notin> idle_pushes (now - ttl) st) (t_staging_meta st),
       card (idle_pushes (now - ttl) st))"
    using reclaim_loop [of "t_staging st" ?idle "t_staging_meta st" 0] store_okD(6) [OF assms(1)]
    unfolding set len by simp
  have none: "idle_pushes (now - ttl) st = {}" if "card (idle_pushes (now - ttl) st) = 0"
    using that set by (metis card_0_eq finite_set)
  show "t_staging st' = filter (\<lambda>e. take STAGE_PUSH_LEN (fst e) \<notin> idle_pushes (now - ttl) st) (t_staging st)"
    "t_staging_meta st' = filter (\<lambda>e. fst e \<notin> idle_pushes (now - ttl) st) (t_staging_meta st)"
    "fst (reclaim_staging now ttl st) = card (idle_pushes (now - ttl) st)"
    "t_objects st' = t_objects st" "t_keyslots st' = t_keyslots st" "t_refs st' = t_refs st"
    "t_roster st' = t_roster st" "t_keyhist st' = t_keyhist st" "t_roster_keyhist st' = t_roster_keyhist st"
    unfolding st'_def reclaim_staging_def Let_def loop using none by auto
qed

lemma reclaim_staging_ok:
  assumes "store_ok st"
  shows "store_ok (snd (reclaim_staging now ttl st))"
proof -
  note t = reclaim_staging_tables [OF assms, of now ttl]
  have "dom (map_of (t_staging (snd (reclaim_staging now ttl st))))
      = {k \<in> dom (map_of (t_staging st)). take STAGE_PUSH_LEN k \<notin> idle_pushes (now - ttl) st}"
    unfolding t by (rule dom_filter_key [of "\<lambda>k. take STAGE_PUSH_LEN k \<notin> idle_pushes (now - ttl) st"])
  moreover have "dom (map_of (t_staging_meta (snd (reclaim_staging now ttl st))))
      = {k \<in> dom (map_of (t_staging_meta st)). k \<notin> idle_pushes (now - ttl) st}"
    unfolding t by (rule dom_filter_key [of "\<lambda>k. k \<notin> idle_pushes (now - ttl) st"])
  ultimately show ?thesis
    using assms unfolding store_ok_def t(4-9) by (auto simp: t(1,2) bt_wf_filter)
qed

section \<open>The remaining operations\<close>

lemma put_many_ok: "store_ok st \<Longrightarrow> store_ok (snd (put_many items st))"
  using put_loop [of items "t_objects st" 0]
  by (auto simp: put_many_def store_ok_def split: prod.splits)

lemma put_many_objects:
  "map_of (t_objects (snd (put_many items st))) = map_of items ++ map_of (t_objects st)"
proof -
  obtain objs n where f: "fold put_one items (t_objects st, 0) = (objs, n)"
    by (cases "fold put_one items (t_objects st, 0)") auto
  with put_loop [of items "t_objects st" 0] show ?thesis by (auto simp: put_many_def)
qed

lemma delete_objects_objects:
  "map_of (t_objects (snd (delete_objects ids st))) i = (if i \<in> set ids then None else map_of (t_objects st) i)"
proof -
  obtain objs n where f: "fold delete_one ids (t_objects st, 0) = (objs, n)"
    by (cases "fold delete_one ids (t_objects st, 0)") auto
  with delete_loop [of ids "t_objects st" 0] bt.get_fold_del [of ids "t_objects st" i]
  show ?thesis by (auto simp: delete_objects_def)
qed

lemma delete_objects_ok: "store_ok st \<Longrightarrow> store_ok (snd (delete_objects ids st))"
  using delete_loop [of ids "t_objects st" 0]
  by (auto simp: delete_objects_def store_ok_def bt_wf_fold_remove split: prod.splits)

lemma prune_if_ok: "store_ok st \<Longrightarrow> store_ok (snd (prune_if cr ids accept st))"
  by (simp add: prune_if_def store_ok_def bt_wf_fold_remove)

lemma retain_ok: "store_ok st \<Longrightarrow> store_ok (snd (retain keep st))"
  by (simp add: retain_def Let_def store_ok_def bt_wf_fold_remove)

lemma put_keyslot_ok: "store_ok st \<Longrightarrow> length d = 32 \<Longrightarrow> store_ok (put_keyslot d g blob st)"
  by (auto simp: put_keyslot_def store_ok_def keyslot_key_def KEYSLOT_KEY_LEN_def)

section \<open>Runs\<close>

text \<open>
  A step is one committed or aborted transaction with arguments of the source's array lengths;
  handlers on different connections interleave at this granularity.
\<close>

inductive store_step :: "crypto \<Rightarrow> store \<Rightarrow> store \<Rightarrow> bool" for cr where
  step_batch: "batch_ok b \<Longrightarrow> store_step cr st (snd (roster_batch cr b st))"
| step_cas: "length ref_h = 32 \<Longrightarrow> length promote = STAGE_PUSH_LEN \<Longrightarrow>
    store_step cr st (snd (cas_ref cr ref_h old blob promote st))"
| step_stage: "length pid = STAGE_PUSH_LEN \<Longrightarrow> length i = 32 \<Longrightarrow> store_step cr st (stage pid i blob now st)"
| step_reclaim: "store_step cr st (snd (reclaim_staging now ttl st))"
| step_prune: "store_step cr st (snd (prune_if cr ids accept st))"
| step_put: "store_step cr st (snd (put_many items st))"
| step_delete: "store_step cr st (snd (delete_objects ids st))"
| step_retain: "store_step cr st (snd (retain keep st))"
| step_keyslot: "length d = 32 \<Longrightarrow> store_step cr st (put_keyslot d g blob st)"

abbreviation store_reach :: "crypto \<Rightarrow> store \<Rightarrow> store \<Rightarrow> bool" where
  "store_reach cr \<equiv> (store_step cr)\<^sup>*\<^sup>*"

lemma store_step_ok: "store_step cr st st' \<Longrightarrow> store_ok st \<Longrightarrow> store_ok st'"
  by (induction rule: store_step.induct)
    (simp_all add: roster_batch_ok cas_ref_ok stage_ok reclaim_staging_ok prune_if_ok put_many_ok
      delete_objects_ok retain_ok put_keyslot_ok)

lemma store_reach_ok: "store_reach cr st st' \<Longrightarrow> store_ok st \<Longrightarrow> store_ok st'"
  by (induction rule: rtranclp_induct) (auto intro: store_step_ok)

text \<open>Only a roster batch touches the roster, and it appends.\<close>

lemma cas_ref_roster: "t_roster (snd (cas_ref cr ref_h old blob promote st)) = t_roster st"
  by (auto simp: cas_ref_def Let_def split: prod.split)

lemma small_ops_roster:
  "t_roster (stage pid i blob now st) = t_roster st"
  "t_roster (snd (prune_if cr ids accept st)) = t_roster st"
  "t_roster (snd (put_many items st)) = t_roster st"
  "t_roster (snd (delete_objects ids st)) = t_roster st"
  "t_roster (snd (retain keep st)) = t_roster st"
  "t_roster (put_keyslot d g blob st) = t_roster st"
  by (auto simp: stage_def prune_if_def put_many_def delete_objects_def retain_def put_keyslot_def
      Let_def split: prod.split)

lemma store_step_roster: "store_step cr st st' \<Longrightarrow> store_ok st \<Longrightarrow> \<exists>ext. t_roster st' = t_roster st @ ext"
proof (induction rule: store_step.induct)
  case (step_batch b st)
  then show ?case
    using roster_batch_applied(3) [OF step_batch(2,1)] roster_batch_conflict [of cr b st]
    by (cases "fst (roster_batch cr b st)") auto
next
  case (step_reclaim st now ttl)
  then show ?case using reclaim_staging_tables(7) by simp
qed (simp_all add: cas_ref_roster small_ops_roster)

lemma store_reach_roster: "store_reach cr st st' \<Longrightarrow> store_ok st \<Longrightarrow> \<exists>ext. t_roster st' = t_roster st @ ext"
proof (induction rule: rtranclp_induct)
  case base
  then show ?case by simp
next
  case (step st1 st2)
  then show ?case
    using store_step_roster [OF step(2) store_reach_ok [OF step(1)]] by force
qed

lemma get_map: "get st = map_of (t_objects st)" and get_ref_map: "get_ref st = map_of (t_refs st)"
  by (simp_all add: fun_eq_iff get_def get_ref_def)

lemma map_of_append_prefix: "map_of m k = Some v \<Longrightarrow> map_of (m @ ext) k = Some v"
  by (induction m) (auto split: if_splits)

section \<open>Properties\<close>

text \<open>
  C1: the store invariant holds in every reachable state. Starting from the empty database, any
  sequence of transactions keeps every table strictly ordered, every key at its fixed length, the
  roster gapless from sequence number zero, and every staged blob under a push that has an
  activity clock, so nothing staged can escape reclamation.
\<close>

theorem store_invariant_reachable: "store_reach cr Store_empty st \<Longrightarrow> store_ok st"
  by (rule store_reach_ok) (use Store_empty_ok in auto)

theorem store_invariant_reachable_witness:
  "store_ok (stage (replicate 16 1) (replicate 32 2) [3] 7 Store_empty)"
proof -
  have "store_step toy_crypto Store_empty (stage (replicate 16 1) (replicate 32 2) [3] 7 Store_empty)"
    by (rule step_stage) (simp_all add: STAGE_PUSH_LEN_def)
  then show ?thesis by (intro store_invariant_reachable [of toy_crypto] r_into_rtranclp)
qed

text \<open>
  C21: the sigchain is append-only. Whatever transactions run, a stored roster entry stays at its
  sequence number with its bytes unchanged, and the roster never gets shorter.
\<close>

theorem roster_append_only:
  assumes "store_ok st" "store_reach cr st st'"
  shows "(\<forall>sq e. get_roster_entry st sq = Some e \<longrightarrow> get_roster_entry st' sq = Some e)
    \<and> roster_len st \<le> roster_len st'"
  using store_reach_roster [OF assms(2,1)]
  by (auto simp: get_roster_entry_def roster_len_def map_of_append_prefix)

definition toy_batch :: roster_batch_rec where
  "toy_batch = \<lparr>rb_expected_tip = ABSENT_HEAD, rb_entries = [[1, 2]], rb_keyslots = [], rb_keyhist = None,
     rb_roster_keyhist = None, rb_revoke = [], rb_head = None\<rparr>"

definition toy_store :: store where
  "toy_store = snd (roster_batch toy_crypto toy_batch Store_empty)"

lemma toy_batch_applies: "fst (roster_batch toy_crypto toy_batch Store_empty) = Some 0"
  by (simp add: roster_batch_def toy_batch_def Store_empty_def roster_tip_def roster_len_def head_cas_ok_def
      wrap_free_def)

lemma toy_batch_ok: "batch_ok toy_batch"
  by (simp add: batch_ok_def toy_batch_def)

lemma toy_store_entry: "get_roster_entry toy_store 0 = Some [1, 2]"
  using roster_batch_applied(3) [OF Store_empty_ok toy_batch_ok toy_batch_applies]
  by (simp add: toy_store_def get_roster_entry_def Store_empty_def toy_batch_def)

theorem roster_append_only_witness:
  "get_roster_entry (stage (replicate 16 1) (replicate 32 2) [3] 7 toy_store) 0 = Some [1, 2]"
proof -
  have ok: "store_ok toy_store"
    unfolding toy_store_def by (intro roster_batch_ok Store_empty_ok toy_batch_ok)
  have "store_reach toy_crypto toy_store (stage (replicate 16 1) (replicate 32 2) [3] 7 toy_store)"
    by (intro r_into_rtranclp step_stage) (simp_all add: STAGE_PUSH_LEN_def)
  from roster_append_only [OF ok this] toy_store_entry show ?thesis by simp
qed

text \<open>
  C7: a head swap is atomic and promotes exactly the push. \<open>cas_ref\<close> swaps if and only if the
  expected token is the hash of the stored head (or the absent sentinel); otherwise the store is
  unchanged. On a swap the ref holds the new blob, every object staged under the push is durable
  and no durable object is replaced, the push's staging and clock are gone, other pushes keep
  theirs, and the bytes reported are the bytes \<open>staged_bytes\<close> counted.
\<close>

theorem cas_ref_atomic:
  assumes "store_ok st" "length promote = STAGE_PUSH_LEN"
    "cas_ref cr ref_h old blob promote st = (outcome, st')"
  shows "if blob_token cr (get_ref st ref_h) = old
    then outcome = \<lparr>swapped = True, promoted_bytes = staged_bytes st promote\<rparr>
      \<and> get_ref st' = (get_ref st)(ref_h \<mapsto> blob)
      \<and> get st' = (\<lambda>i. map_of (t_staging st) (staging_key promote i)) ++ get st
      \<and> (\<forall>k. map_of (t_staging st') k
            = (if take STAGE_PUSH_LEN k = promote then None else map_of (t_staging st) k))
      \<and> map_of (t_staging_meta st') = (map_of (t_staging_meta st))(promote := None)
      \<and> t_roster st' = t_roster st \<and> t_keyslots st' = t_keyslots st
    else outcome = \<lparr>swapped = False, promoted_bytes = 0\<rparr> \<and> st' = st"
proof (cases "blob_token cr (get_ref st ref_h) = old")
  case True
  obtain st'' where s: "cas_ref cr ref_h old blob promote st
       = (\<lparr>swapped = True, promoted_bytes = staged_bytes st promote\<rparr>, st'')"
    "map_of (t_objects st'') = (\<lambda>i. map_of (t_staging st) (staging_key promote i)) ++ map_of (t_objects st)"
    "t_staging st'' = filter (\<lambda>e. take STAGE_PUSH_LEN (fst e) \<noteq> promote) (t_staging st)"
    "t_staging_meta st'' = bt_remove promote (t_staging_meta st)"
    "t_refs st'' = bt_insert ref_h blob (t_refs st)"
    "t_keyslots st'' = t_keyslots st" "t_roster st'' = t_roster st"
    using cas_ref_swapped [OF assms(1,2)] True unfolding get_ref_def by metis
  then have "st'' = st'" "outcome = \<lparr>swapped = True, promoted_bytes = staged_bytes st promote\<rparr>"
    using assms(3) by simp_all
  moreover have "map_of (t_staging st'') k
      = (if take STAGE_PUSH_LEN k = promote then None else map_of (t_staging st) k)" for k
    unfolding s(3) by (rule map_of_filter_key_not [of "\<lambda>k. take STAGE_PUSH_LEN k = promote"])
  ultimately show ?thesis using True s by (simp add: get_ref_map get_map)
next
  case False
  with assms(3) show ?thesis by (simp add: cas_ref_conflict get_ref_def)
qed

theorem cas_ref_atomic_witness:
  "get (snd (cas_ref toy_crypto (replicate 32 9) ABSENT_HEAD [5] (replicate 16 1)
     (stage (replicate 16 1) (replicate 32 2) [3] 7 Store_empty))) (replicate 32 2) = Some [3]"
proof -
  let ?st = "stage (replicate 16 1) (replicate 32 2) [3] 7 Store_empty"
  obtain oc st' where c: "cas_ref toy_crypto (replicate 32 9) ABSENT_HEAD [5] (replicate 16 1) ?st = (oc, st')"
    by (cases "cas_ref toy_crypto (replicate 32 9) ABSENT_HEAD [5] (replicate 16 1) ?st") auto
  have ok: "store_ok ?st" by (intro stage_ok Store_empty_ok) (simp_all add: STAGE_PUSH_LEN_def)
  have "blob_token toy_crypto (get_ref ?st (replicate 32 9)) = ABSENT_HEAD"
    by (simp add: blob_token_def get_ref_def stage_def Store_empty_def)
  with cas_ref_atomic [OF ok _ c] show ?thesis
    unfolding c by (simp add: STAGE_PUSH_LEN_def map_add_def get_def stage_def Store_empty_def staging_key_def)
qed

text \<open>
  C22: a roster batch is one transaction under three compare tokens. \<open>roster_batch\<close> refuses exactly
  when the expected tip is not the current one, a head comes with it and the ref's token is not the
  expected one, or it would replace a key-history wrap of a generation the chain has rotated past, and then
  changes nothing. Otherwise all of it takes effect: the entries follow the old ones; a keyslot is
  the last one the batch wrote for it, else absent for a revoked device (and for everyone at genesis),
  else the old one; exactly the given wraps and the given head are written; objects and staging
  are untouched.
\<close>

theorem roster_batch_atomic:
  assumes "store_ok st" "batch_ok b" "roster_batch cr b st = (r, st')"
  shows "(r = None \<longleftrightarrow> fst (roster_tip cr st) \<noteq> rb_expected_tip b
        \<or> (\<exists>h. rb_head b = Some h \<and> blob_token cr (get_ref st (hs_ref_h h)) \<noteq> hs_expected_old h)
        \<or> (\<exists>g w. rb_keyhist b = Some (g, w) \<and> get_keyhist st g \<noteq> None \<and> snd (roster_tip cr st) \<noteq> Some g)
        \<or> (\<exists>g w. rb_roster_keyhist b = Some (g, w) \<and> get_roster_keyhist st g \<noteq> None \<and> snd (roster_tip cr st) \<noteq> Some g))
    \<and> (case r of
      None \<Rightarrow> st' = st
    | Some n \<Rightarrow> n = roster_len st \<and> map snd (t_roster st') = map snd (t_roster st) @ rb_entries b
        \<and> (\<forall>d g. length d = 32 \<longrightarrow> get_keyslot st' d g =
              (case map_of (rev (map (\<lambda>k. (keyslot_key (kw_device_id k) (kw_gen k), kw_blob k)) (rb_keyslots b)))
                      (keyslot_key d g) of
                 Some v \<Rightarrow> Some v
               | None \<Rightarrow> if n = 0 \<or> d \<in> set (rb_revoke b) then None else get_keyslot st d g))
        \<and> (\<forall>g. get_keyhist st' g = (case rb_keyhist b of
              Some (g', w) \<Rightarrow> if g = g' then Some w else get_keyhist st g | None \<Rightarrow> get_keyhist st g))
        \<and> (\<forall>g. get_roster_keyhist st' g = (case rb_roster_keyhist b of
              Some (g', w) \<Rightarrow> if g = g' then Some w else get_roster_keyhist st g | None \<Rightarrow> get_roster_keyhist st g))
        \<and> (\<forall>x. get_ref st' x = (case rb_head b of
              Some h \<Rightarrow> if x = hs_ref_h h then Some (hs_new_blob h) else get_ref st x | None \<Rightarrow> get_ref st x))
        \<and> t_objects st' = t_objects st \<and> t_staging st' = t_staging st \<and> t_staging_meta st' = t_staging_meta st)"
proof (cases r)
  case None
  have "\<not> wrap_free tg t w \<longleftrightarrow> (\<exists>g v. w = Some (g, v) \<and> map_of t g \<noteq> None \<and> tg \<noteq> Some g)" for tg t w
    by (auto simp: wrap_free_def split: option.splits)
  then show ?thesis
    using None assms(3) roster_batch_conflict [of cr b st]
    by (auto simp: roster_batch_def Let_def head_cas_ok_def get_ref_def get_keyhist_def get_roster_keyhist_def split: prod.splits if_splits option.splits)
next
  case (Some n)
  with assms(3) have r: "fst (roster_batch cr b st) = Some n" and s: "snd (roster_batch cr b st) = st'"
    by simp_all
  note ap = roster_batch_applied [OF assms(1,2) r, unfolded s]
  have ks: "get_keyslot st' d g =
      (case map_of (rev (map (\<lambda>k. (keyslot_key (kw_device_id k) (kw_gen k), kw_blob k)) (rb_keyslots b)))
              (keyslot_key d g) of
         Some v \<Rightarrow> Some v
       | None \<Rightarrow> if n = 0 \<or> d \<in> set (rb_revoke b) then None else get_keyslot st d g)"
    if "length d = 32" for d g
    using map_of_filter_key [of "\<lambda>k. n \<noteq> 0 \<and> take 32 k \<notin> set (rb_revoke b)" "t_keyslots st" "keyslot_key d g"]
      keyslot_key_prefix [OF that, of g]
    unfolding get_keyslot_def ap(4) bt.get_fold_put by (auto split: option.split)
  have wrap: "map_of (insert_wrap w t) g = (case w of Some (g', v) \<Rightarrow> if g = g' then Some v else map_of t g | None \<Rightarrow> map_of t g)"
    for w t and g :: u32 by (simp add: insert_wrap_def split: option.split)
  have free: "\<not> (\<exists>g v. w = Some (g, v) \<and> map_of t g \<noteq> None \<and> tg \<noteq> Some g)" if "wrap_free tg t w" for tg t w
    using that by (auto simp: wrap_free_def split: option.splits)
  have head: "head_cas_ok cr st (rb_head b)" using r by (simp add: roster_batch_def Let_def case_prod_beta split: if_splits)
  have refs: "get_ref st' x = (case rb_head b of Some h \<Rightarrow> if x = hs_ref_h h then Some (hs_new_blob h) else get_ref st x | None \<Rightarrow> get_ref st x)" for x
    by (simp add: get_ref_def ap(12) split: option.split)
  have kh: "get_keyhist st' g = (case rb_keyhist b of Some (g', w) \<Rightarrow> if g = g' then Some w else get_keyhist st g | None \<Rightarrow> get_keyhist st g)"
    "get_roster_keyhist st' g = (case rb_roster_keyhist b of
       Some (g', w) \<Rightarrow> if g = g' then Some w else get_roster_keyhist st g | None \<Rightarrow> get_roster_keyhist st g)" for g
    by (simp_all add: get_keyhist_def get_roster_keyhist_def ap(5,6) wrap split: option.split)
  have "\<not> (\<exists>h. rb_head b = Some h \<and> blob_token cr (get_ref st (hs_ref_h h)) \<noteq> hs_expected_old h)"
    using head by (auto simp: head_cas_ok_def get_ref_def)
  with ap(2) free [OF ap(7)] free [OF ap(8)] have "\<not> (fst (roster_tip cr st) \<noteq> rb_expected_tip b
      \<or> (\<exists>h. rb_head b = Some h \<and> blob_token cr (get_ref st (hs_ref_h h)) \<noteq> hs_expected_old h)
      \<or> (\<exists>g w. rb_keyhist b = Some (g, w) \<and> get_keyhist st g \<noteq> None \<and> snd (roster_tip cr st) \<noteq> Some g)
      \<or> (\<exists>g w. rb_roster_keyhist b = Some (g, w) \<and> get_roster_keyhist st g \<noteq> None \<and> snd (roster_tip cr st) \<noteq> Some g))"
    unfolding get_keyhist_def get_roster_keyhist_def by blast
  moreover have "map snd (t_roster st') = map snd (t_roster st) @ rb_entries b" by (simp add: ap(3))
  ultimately show ?thesis unfolding Some option.case using ap(1,9-11) ks refs kh by (intro conjI) simp_all
qed

text \<open>A genesis batch with a key-history wrap and a head.\<close>

theorem roster_batch_atomic_witness:
  "\<exists>st'. roster_batch toy_crypto (toy_batch\<lparr>rb_keyhist := Some (1, [9]),
       rb_head := Some \<lparr>hs_ref_h = replicate 32 6, hs_expected_old = ABSENT_HEAD, hs_new_blob = [5]\<rparr>\<rparr>) Store_empty = (Some 0, st')
     \<and> map snd (t_roster st') = [[1, 2]] \<and> get_keyhist st' 1 = Some [9] \<and> get_ref st' (replicate 32 6) = Some [5]
     \<and> get_keyslot st' (replicate 32 4) 1 = None"
proof -
  let ?b = "toy_batch\<lparr>rb_keyhist := Some (1, [9]),
       rb_head := Some \<lparr>hs_ref_h = replicate 32 6, hs_expected_old = ABSENT_HEAD, hs_new_blob = [5]\<rparr>\<rparr>"
  have ok: "batch_ok ?b" using toy_batch_ok by (simp add: batch_ok_def)
  obtain st' where r: "roster_batch toy_crypto ?b Store_empty = (Some 0, st')"
    by (simp add: roster_batch_def roster_tip_def roster_len_def toy_batch_def Store_empty_def head_cas_ok_def blob_token_def wrap_free_def Let_def)
  from roster_batch_atomic [OF Store_empty_ok ok r] r show ?thesis by (simp add: Store_empty_def toy_batch_def)
qed

text \<open>
  Reclamation drops the idle pushes and nothing else. After \<open>reclaim_staging\<close> no push whose
  clock is at or before the cutoff has a staged blob or a clock, every other push keeps both, the
  count returned is the number of pushes dropped, and every other table is unchanged.
\<close>

theorem reclaim_staging_exact:
  assumes "store_ok st" "reclaim_staging now ttl st = (n, st')"
  shows "n = card (idle_pushes (now - ttl) st)
    \<and> (\<forall>k. map_of (t_staging st') k =
          (if take STAGE_PUSH_LEN k \<in> idle_pushes (now - ttl) st then None else map_of (t_staging st) k))
    \<and> (\<forall>p. map_of (t_staging_meta st') p =
          (if p \<in> idle_pushes (now - ttl) st then None else map_of (t_staging_meta st) p))
    \<and> t_objects st' = t_objects st \<and> t_refs st' = t_refs st \<and> t_keyslots st' = t_keyslots st
    \<and> t_roster st' = t_roster st"
proof -
  have s: "fst (reclaim_staging now ttl st) = n" "snd (reclaim_staging now ttl st) = st'"
    using assms(2) by simp_all
  note t = reclaim_staging_tables [OF assms(1), of now ttl, unfolded s]
  note f = map_of_filter_key_not [of "\<lambda>k. take STAGE_PUSH_LEN k \<in> idle_pushes (now - ttl) st"]
    map_of_filter_key_not [of "\<lambda>p. p \<in> idle_pushes (now - ttl) st"]
  show ?thesis using t(3-8) unfolding t(1,2) f by simp
qed

theorem reclaim_staging_exact_witness:
  "fst (reclaim_staging 100 50 (stage (replicate 16 1) (replicate 32 2) [3] 7 Store_empty)) = 1"
proof -
  let ?st = "stage (replicate 16 1) (replicate 32 2) [3] 7 Store_empty"
  have ok: "store_ok ?st" by (intro stage_ok Store_empty_ok) (simp_all add: STAGE_PUSH_LEN_def)
  have "idle_pushes (100 - 50) ?st = {replicate 16 1}"
    by (auto simp: idle_pushes_def stage_def Store_empty_def split: if_splits)
  with reclaim_staging_exact [OF ok, of 100 50] show ?thesis
    by (cases "reclaim_staging 100 50 ?st") simp
qed

end
