(* ===== verification/Wire.thy ===== *)
theory Wire
  imports Frame
begin

text \<open>
  \<open>crates/secsec-proto/src/wire.rs\<close>: the wire messages of the handshake and of the RPC
  surface. \<open>[u8; N]\<close> fields are byte lists; \<open>wf_request\<close> and its companions state the array
  lengths the Rust types enforce. The lemmas show that every decoder accepts exactly the
  encodings of well-typed messages within the decoder's bounds, that a locally validated
  request always encodes without a panic and decodes to itself on the server, and that no
  decoder ever panics.
\<close>

section \<open>Constants and errors\<close>

definition PUSH_ID_LEN :: nat where "PUSH_ID_LEN = 16"
definition MAX_HAS_IDS :: nat where "MAX_HAS_IDS = 1024"
definition MAX_SIG_LEN :: nat where "MAX_SIG_LEN = 4096"
definition MAX_PUBKEY :: nat where "MAX_PUBKEY = 1024"
definition MAX_REQUEST_LEN :: nat where "MAX_REQUEST_LEN = MAX_BLOB_SIZE + 4096"

definition GENESIS_BATCH_MAX :: nat where
  "GENESIS_BATCH_MAX = 1 + 32 + 4 + (4 + MAX_ROSTER_ENTRY_SIZE) + 4
     + (32 + 4 + 4 + MAX_ROSTER_ENTRY_SIZE) + 1 + 1 + 4 + 1"

definition PAIR_PUT_MAX :: nat where
  "PAIR_PUT_MAX = 1 + 32 + 4 + MAX_ROSTER_ENTRY_SIZE"

definition MAX_UNENROLLED_AUTHED_LEN :: nat where
  "MAX_UNENROLLED_AUTHED_LEN = 4 + MAX_SIG_LEN + 4 + GENESIS_BATCH_MAX"

definition MAX_AUTHED_LEN :: nat where
  "MAX_AUTHED_LEN = 4 + MAX_SIG_LEN + 4 + MAX_REQUEST_LEN"

lemmas wire_consts = PUSH_ID_LEN_def MAX_HAS_IDS_def MAX_SIG_LEN_def MAX_PUBKEY_def
  MAX_REQUEST_LEN_def GENESIS_BATCH_MAX_def PAIR_PUT_MAX_def MAX_UNENROLLED_AUTHED_LEN_def
  MAX_AUTHED_LEN_def MAX_BLOB_SIZE_def MAX_ROSTER_ENTRY_SIZE_def MAX_LIST_ELEMENTS_def u32_max_def

datatype wire_error =
    BadTag u8
  | TooLarge
  | FieldTooLong
  | WireCanon canon_error
  | WirePanic \<comment> \<open>\<open>Writer::bytes\<close> panicked inside \<open>validate\<close>\<close>

section \<open>Primitive reads\<close>

definition wire_u8 :: "reader \<Rightarrow> wire_error + u8 \<times> reader" where
  "wire_u8 r = map_err WireCanon (Reader_u8 r)"

definition wire_u16 :: "reader \<Rightarrow> wire_error + u16 \<times> reader" where
  "wire_u16 r = map_err WireCanon (Reader_u16 r)"

definition wire_u32 :: "reader \<Rightarrow> wire_error + u32 \<times> reader" where
  "wire_u32 r = map_err WireCanon (Reader_u32 r)"

definition wire_u64 :: "reader \<Rightarrow> wire_error + u64 \<times> reader" where
  "wire_u64 r = map_err WireCanon (Reader_u64 r)"

definition wire_bytes :: "nat \<Rightarrow> reader \<Rightarrow> wire_error + bytes \<times> reader" where
  "wire_bytes mx r = map_err WireCanon (Reader_bytes mx r)"

definition wire_finish :: "reader \<Rightarrow> wire_error + unit" where
  "wire_finish r = map_err WireCanon (Reader_finish r)"

definition read32 :: "reader \<Rightarrow> wire_error + bytes \<times> reader" where
  "read32 r = map_err WireCanon (Reader_raw 32 r)"

definition read_push_id :: "reader \<Rightarrow> wire_error + bytes \<times> reader" where
  "read_push_id r = map_err WireCanon (Reader_raw PUSH_ID_LEN r)"

definition read_flag :: "reader \<Rightarrow> wire_error + bool \<times> reader" where
  "read_flag r = rbind (wire_u8 r) (\<lambda>(t, r).
     if t = 0 then Inr (False, r) else if t = 1 then Inr (True, r) else Inl (BadTag t))"

definition read_count :: "nat \<Rightarrow> reader \<Rightarrow> wire_error + nat \<times> reader" where
  "read_count mx r = rbind (wire_u32 r) (\<lambda>(n, r).
     if mx < unat n then Inl TooLarge else Inr (unat n, r))"

section \<open>Hellos\<close>

record client_hello =
  ch_version :: u16
  client_nonce :: bytes

definition ClientHello_encode :: "client_hello \<Rightarrow> bytes option" where
  "ClientHello_encode h =
     Writer_finish (writes [Writer_u16 (ch_version h), Writer_raw (client_nonce h)] Writer_new)"

definition ClientHello_decode :: "bytes \<Rightarrow> wire_error + client_hello" where
  "ClientHello_decode b =
     rbind (wire_u16 (Reader_new b)) (\<lambda>(v, r).
     rbind (read32 r) (\<lambda>(n, r).
     rbind (wire_finish r) (\<lambda>_.
     Inr \<lparr>ch_version = v, client_nonce = n\<rparr>)))"

record server_hello =
  sh_version :: u16
  server_nonce :: bytes
  host_id :: bytes

definition ServerHello_encode :: "server_hello \<Rightarrow> bytes option" where
  "ServerHello_encode h =
     Writer_finish (writes [Writer_u16 (sh_version h), Writer_raw (server_nonce h),
        Writer_raw (host_id h)] Writer_new)"

definition ServerHello_decode :: "bytes \<Rightarrow> wire_error + server_hello" where
  "ServerHello_decode b =
     rbind (wire_u16 (Reader_new b)) (\<lambda>(v, r).
     rbind (read32 r) (\<lambda>(n, r).
     rbind (read32 r) (\<lambda>(h, r).
     rbind (wire_finish r) (\<lambda>_.
     Inr \<lparr>sh_version = v, server_nonce = n, host_id = h\<rparr>))))"

section \<open>Requests\<close>

record keyslot_put =
  ks_device_id :: bytes
  ks_gen :: u32
  ks_blob :: bytes

record head_put =
  hp_ref_h :: bytes
  hp_old_head :: bytes
  hp_new_blob :: bytes

type_synonym wrap = "(u32 \<times> bytes) option"

datatype request =
    Get bytes
  | Has "bytes list"
  | Put bytes u32 bytes bytes \<comment> \<open>id, declared size, push id, blob\<close>
  | CasHead bytes bytes bytes bytes bytes \<comment> \<open>ref, old head, new head, promote, new blob\<close>
  | RosterBatch bytes "bytes list" "keyslot_put list" wrap wrap "bytes list" "head_put option"
      \<comment> \<open>old tip, entries, keyslots, keyhist, roster keyhist, revoke, head\<close>
  | GetRef bytes
  | GetRosterEntry u64
  | GetKeyslot bytes u32
  | Prune "bytes list" bytes u64 \<comment> \<open>dead, all heads hash, roster length\<close>
  | GetRosterKeyhist u32
  | GetKeyhist u32
  | PairPut bytes bytes
  | PairGet bytes

definition write_wrap :: "wrap \<Rightarrow> writer \<Rightarrow> writer" where
  "write_wrap x w =
     (case x of
        None \<Rightarrow> Writer_u8 0 w
      | Some (g, blob) \<Rightarrow> writes [Writer_u8 1, Writer_u32 g, Writer_bytes blob] w)"

definition read_wrap :: "reader \<Rightarrow> wire_error + wrap \<times> reader" where
  "read_wrap r =
     rbind (read_flag r) (\<lambda>(present, r).
       if present then
         rbind (wire_u32 r) (\<lambda>(g, r).
         rbind (wire_bytes MAX_ROSTER_ENTRY_SIZE r) (\<lambda>(b, r). Inr (Some (g, b), r)))
       else Inr (None, r))"

definition write_keyslot :: "keyslot_put \<Rightarrow> writer \<Rightarrow> writer" where
  "write_keyslot k =
     writes [Writer_raw (ks_device_id k), Writer_u32 (ks_gen k), Writer_bytes (ks_blob k)]"

definition read_keyslot :: "reader \<Rightarrow> wire_error + keyslot_put \<times> reader" where
  "read_keyslot r =
     rbind (read32 r) (\<lambda>(d, r).
     rbind (wire_u32 r) (\<lambda>(g, r).
     rbind (wire_bytes MAX_ROSTER_ENTRY_SIZE r) (\<lambda>(b, r).
     Inr (\<lparr>ks_device_id = d, ks_gen = g, ks_blob = b\<rparr>, r))))"

definition write_head_put :: "head_put option \<Rightarrow> writer \<Rightarrow> writer" where
  "write_head_put x w =
     (case x of
        None \<Rightarrow> Writer_u8 0 w
      | Some h \<Rightarrow> writes [Writer_u8 1, Writer_raw (hp_ref_h h), Writer_raw (hp_old_head h),
           Writer_bytes (hp_new_blob h)] w)"

definition read_head_put :: "reader \<Rightarrow> wire_error + head_put option \<times> reader" where
  "read_head_put r =
     rbind (read_flag r) (\<lambda>(present, r).
       if present then
         rbind (read32 r) (\<lambda>(h, r).
         rbind (read32 r) (\<lambda>(old, r).
         rbind (wire_bytes MAX_BLOB_SIZE r) (\<lambda>(b, r).
         Inr (Some \<lparr>hp_ref_h = h, hp_old_head = old, hp_new_blob = b\<rparr>, r))))
       else Inr (None, r))"

text \<open>\<open>xs.len() as u32\<close> truncates: \<open>of_nat\<close> into a 32-bit word.\<close>

fun Request_write :: "request \<Rightarrow> writer \<Rightarrow> writer" where
  "Request_write (Get i) = writes [Writer_u8 0, Writer_raw i]"
| "Request_write (Has ids) =
     writes [Writer_u8 1, Writer_u32 (of_nat (length ids)), fold Writer_raw ids]"
| "Request_write (Put i declared_size push_id blob) =
     writes [Writer_u8 2, Writer_raw i, Writer_u32 declared_size, Writer_raw push_id,
        Writer_bytes blob]"
| "Request_write (CasHead ref_h old_head new_head promote new_blob) =
     writes [Writer_u8 3, Writer_raw ref_h, Writer_raw old_head, Writer_raw new_head,
        Writer_raw promote, Writer_bytes new_blob]"
| "Request_write (RosterBatch old_tip entries keyslots keyhist roster_keyhist revoke head) =
     writes [Writer_u8 4, Writer_raw old_tip, Writer_u32 (of_nat (length entries)),
        fold Writer_bytes entries, Writer_u32 (of_nat (length keyslots)),
        fold write_keyslot keyslots, write_wrap keyhist, write_wrap roster_keyhist,
        Writer_u32 (of_nat (length revoke)), fold Writer_raw revoke,
        write_head_put head]"
| "Request_write (GetRef ref_h) = writes [Writer_u8 5, Writer_raw ref_h]"
| "Request_write (GetRosterEntry s) = writes [Writer_u8 6, Writer_u64 s]"
| "Request_write (GetKeyslot device_id g) =
     writes [Writer_u8 7, Writer_raw device_id, Writer_u32 g]"
| "Request_write (Prune dead all_heads_hash roster_len) =
     writes [Writer_u8 8, Writer_u32 (of_nat (length dead)), fold Writer_raw dead,
        Writer_raw all_heads_hash, Writer_u64 roster_len]"
| "Request_write (GetRosterKeyhist g) = writes [Writer_u8 9, Writer_u32 g]"
| "Request_write (GetKeyhist g) = writes [Writer_u8 10, Writer_u32 g]"
| "Request_write (PairPut slot blob) = writes [Writer_u8 12, Writer_raw slot, Writer_bytes blob]"
| "Request_write (PairGet slot) = writes [Writer_u8 13, Writer_raw slot]"

definition Request_encode :: "request \<Rightarrow> bytes option" where
  "Request_encode req = Writer_finish (Request_write req Writer_new)"

definition within :: "bool \<Rightarrow> wire_error + unit" where
  "within ok = (if ok then Inr () else Inl FieldTooLong)"

definition wrap_fits :: "wrap \<Rightarrow> bool" where
  "wrap_fits x = (case x of None \<Rightarrow> True | Some (_, b) \<Rightarrow> length b \<le> MAX_ROSTER_ENTRY_SIZE)"

fun Request_validate_fields :: "request \<Rightarrow> wire_error + unit" where
  "Request_validate_fields (Has ids) =
     (if MAX_HAS_IDS < length ids then Inl TooLarge else Inr ())"
| "Request_validate_fields (Prune dead _ _) =
     (if MAX_HAS_IDS < length dead then Inl TooLarge else Inr ())"
| "Request_validate_fields (Put _ _ _ blob) = within (length blob \<le> MAX_BLOB_SIZE)"
| "Request_validate_fields (CasHead _ _ _ _ new_blob) = within (length new_blob \<le> MAX_BLOB_SIZE)"
| "Request_validate_fields (PairPut _ blob) = within (length blob \<le> MAX_ROSTER_ENTRY_SIZE)"
| "Request_validate_fields (RosterBatch _ entries keyslots keyhist roster_keyhist revoke head) =
     (if MAX_LIST_ELEMENTS < length entries \<or> MAX_LIST_ELEMENTS < length keyslots
         \<or> MAX_LIST_ELEMENTS < length revoke
      then Inl TooLarge else
      rbind (within (list_all (\<lambda>e. length e \<le> MAX_ROSTER_ENTRY_SIZE) entries)) (\<lambda>_.
      rbind (within (list_all (\<lambda>k. length (ks_blob k) \<le> MAX_ROSTER_ENTRY_SIZE) keyslots)) (\<lambda>_.
      rbind (within (wrap_fits keyhist \<and> wrap_fits roster_keyhist)) (\<lambda>_.
      within (case head of None \<Rightarrow> True | Some h \<Rightarrow> length (hp_new_blob h) \<le> MAX_BLOB_SIZE)))))"
| "Request_validate_fields _ = Inr ()"

definition Request_validate :: "request \<Rightarrow> wire_error + unit" where
  "Request_validate req =
     rbind (Request_validate_fields req) (\<lambda>_.
       case Request_encode req of
         None \<Rightarrow> Inl WirePanic
       | Some b \<Rightarrow> within (length b \<le> MAX_REQUEST_LEN))"

definition Request_read :: "reader \<Rightarrow> wire_error + request \<times> reader" where
  "Request_read r =
     rbind (wire_u8 r) (\<lambda>(tag, r).
     if tag = 0 then rbind (read32 r) (\<lambda>(i, r). Inr (Get i, r))
     else if tag = 1 then
       rbind (read_count MAX_HAS_IDS r) (\<lambda>(n, r).
       rbind (read_times n read32 r) (\<lambda>(ids, r). Inr (Has ids, r)))
     else if tag = 2 then
       rbind (read32 r) (\<lambda>(i, r).
       rbind (wire_u32 r) (\<lambda>(sz, r).
       rbind (read_push_id r) (\<lambda>(p, r).
       rbind (wire_bytes MAX_BLOB_SIZE r) (\<lambda>(b, r). Inr (Put i sz p b, r)))))
     else if tag = 3 then
       rbind (read32 r) (\<lambda>(h, r).
       rbind (read32 r) (\<lambda>(old, r).
       rbind (read32 r) (\<lambda>(new, r).
       rbind (read_push_id r) (\<lambda>(p, r).
       rbind (wire_bytes MAX_BLOB_SIZE r) (\<lambda>(b, r). Inr (CasHead h old new p b, r))))))
     else if tag = 4 then
       rbind (read32 r) (\<lambda>(old_tip, r).
       rbind (read_count MAX_LIST_ELEMENTS r) (\<lambda>(n, r).
       rbind (read_times n (wire_bytes MAX_ROSTER_ENTRY_SIZE) r) (\<lambda>(entries, r).
       rbind (read_count MAX_LIST_ELEMENTS r) (\<lambda>(n, r).
       rbind (read_times n read_keyslot r) (\<lambda>(keyslots, r).
       rbind (read_wrap r) (\<lambda>(keyhist, r).
       rbind (read_wrap r) (\<lambda>(roster_keyhist, r).
       rbind (read_count MAX_LIST_ELEMENTS r) (\<lambda>(n, r).
       rbind (read_times n read32 r) (\<lambda>(revoke, r).
       rbind (read_head_put r) (\<lambda>(head, r).
       Inr (RosterBatch old_tip entries keyslots keyhist roster_keyhist revoke head, r)))))))))))
     else if tag = 5 then rbind (read32 r) (\<lambda>(h, r). Inr (GetRef h, r))
     else if tag = 6 then rbind (wire_u64 r) (\<lambda>(s, r). Inr (GetRosterEntry s, r))
     else if tag = 7 then
       rbind (read32 r) (\<lambda>(d, r).
       rbind (wire_u32 r) (\<lambda>(g, r). Inr (GetKeyslot d g, r)))
     else if tag = 8 then
       rbind (read_count MAX_HAS_IDS r) (\<lambda>(n, r).
       rbind (read_times n read32 r) (\<lambda>(dead, r).
       rbind (read32 r) (\<lambda>(h, r).
       rbind (wire_u64 r) (\<lambda>(l, r). Inr (Prune dead h l, r)))))
     else if tag = 9 then rbind (wire_u32 r) (\<lambda>(g, r). Inr (GetRosterKeyhist g, r))
     else if tag = 10 then rbind (wire_u32 r) (\<lambda>(g, r). Inr (GetKeyhist g, r))
     else if tag = 12 then
       rbind (read32 r) (\<lambda>(s, r).
       rbind (wire_bytes MAX_ROSTER_ENTRY_SIZE r) (\<lambda>(b, r). Inr (PairPut s b, r)))
     else if tag = 13 then rbind (read32 r) (\<lambda>(s, r). Inr (PairGet s, r))
     else Inl (BadTag tag))"

definition Request_decode :: "bytes \<Rightarrow> wire_error + request" where
  "Request_decode b =
     rbind (Request_read (Reader_new b)) (\<lambda>(req, r).
     rbind (map_err WireCanon (Reader_finish r)) (\<lambda>_. Inr req))"

section \<open>Responses\<close>

datatype error_code =
  NotEnrolled | BadAuth | RateLimit | TooManyIds | CasConflict | BadRequest | Internal

datatype response =
    RBlob "bytes option"
  | RExists "bool list"
  | ROk
  | RErr error_code

fun code_to_u8 :: "error_code \<Rightarrow> u8" where
  "code_to_u8 NotEnrolled = 0"
| "code_to_u8 BadAuth = 1"
| "code_to_u8 RateLimit = 2"
| "code_to_u8 TooManyIds = 3"
| "code_to_u8 CasConflict = 4"
| "code_to_u8 BadRequest = 5"
| "code_to_u8 Internal = 6"

definition code_from_u8 :: "u8 \<Rightarrow> wire_error + error_code" where
  "code_from_u8 v =
     (if v = 0 then Inr NotEnrolled
      else if v = 1 then Inr BadAuth
      else if v = 2 then Inr RateLimit
      else if v = 3 then Inr TooManyIds
      else if v = 4 then Inr CasConflict
      else if v = 5 then Inr BadRequest
      else if v = 6 then Inr Internal
      else Inl (BadTag v))"

fun Response_write :: "response \<Rightarrow> writer \<Rightarrow> writer" where
  "Response_write (RBlob None) = writes [Writer_u8 0, Writer_u8 0]"
| "Response_write (RBlob (Some b)) = writes [Writer_u8 0, Writer_u8 1, Writer_bytes b]"
| "Response_write (RExists bits) =
     writes [Writer_u8 1, Writer_u32 (of_nat (length bits)),
        fold (\<lambda>b. Writer_u8 (if b then 1 else 0)) bits]"
| "Response_write ROk = Writer_u8 2"
| "Response_write (RErr c) = writes [Writer_u8 3, Writer_u8 (code_to_u8 c)]"

definition Response_encode :: "response \<Rightarrow> bytes option" where
  "Response_encode resp = Writer_finish (Response_write resp Writer_new)"

definition Response_read :: "reader \<Rightarrow> wire_error + response \<times> reader" where
  "Response_read r =
     rbind (wire_u8 r) (\<lambda>(tag, r).
     if tag = 0 then
       rbind (read_flag r) (\<lambda>(present, r).
         if present then rbind (wire_bytes MAX_BLOB_SIZE r) (\<lambda>(b, r). Inr (RBlob (Some b), r))
         else Inr (RBlob None, r))
     else if tag = 1 then
       rbind (read_count MAX_HAS_IDS r) (\<lambda>(n, r).
       rbind (read_times n read_flag r) (\<lambda>(bits, r). Inr (RExists bits, r)))
     else if tag = 2 then Inr (ROk, r)
     else if tag = 3 then
       rbind (wire_u8 r) (\<lambda>(c, r). rbind (code_from_u8 c) (\<lambda>c. Inr (RErr c, r)))
     else Inl (BadTag tag))"

definition Response_decode :: "bytes \<Rightarrow> wire_error + response" where
  "Response_decode b =
     rbind (Response_read (Reader_new b)) (\<lambda>(resp, r).
     rbind (map_err WireCanon (Reader_finish r)) (\<lambda>_. Inr resp))"

section \<open>Authentication envelopes\<close>

record client_auth =
  ca_pubkey :: bytes
  ca_sig :: bytes

definition ClientAuth_encode :: "client_auth \<Rightarrow> bytes option" where
  "ClientAuth_encode a =
     Writer_finish (writes [Writer_bytes (ca_pubkey a), Writer_bytes (ca_sig a)] Writer_new)"

definition ClientAuth_decode :: "bytes \<Rightarrow> wire_error + client_auth" where
  "ClientAuth_decode b =
     rbind (wire_bytes MAX_PUBKEY (Reader_new b)) (\<lambda>(p, r).
     rbind (wire_bytes MAX_SIG_LEN r) (\<lambda>(s, r).
     rbind (wire_finish r) (\<lambda>_.
     Inr \<lparr>ca_pubkey = p, ca_sig = s\<rparr>)))"

record authed_request =
  op_sig :: bytes
  ar_request :: request

definition AuthedRequest_encode :: "authed_request \<Rightarrow> bytes option" where
  "AuthedRequest_encode a =
     (case Request_encode (ar_request a) of
        None \<Rightarrow> None
      | Some req \<Rightarrow>
          Writer_finish (writes [Writer_bytes (op_sig a), Writer_bytes req] Writer_new))"

definition AuthedRequest_decode :: "bytes \<Rightarrow> wire_error + authed_request" where
  "AuthedRequest_decode b =
     rbind (wire_bytes MAX_SIG_LEN (Reader_new b)) (\<lambda>(s, r).
     rbind (wire_bytes MAX_REQUEST_LEN r) (\<lambda>(req_bytes, r).
     rbind (Request_decode req_bytes) (\<lambda>req.
     rbind (wire_finish r) (\<lambda>_.
     Inr \<lparr>op_sig = s, ar_request = req\<rparr>))))"

section \<open>The codecs of the message parts\<close>

interpretation w_u8: codec "\<lambda>v. [v]" "\<lambda>_. True" Writer_u8 wire_u8
  using c_u8.lift_err [of WireCanon] by (simp add: wire_u8_def [abs_def])

interpretation w_u16: codec "le_bytes 2" "\<lambda>_. True" Writer_u16 wire_u16
  using c_u16.lift_err [of WireCanon] by (simp add: wire_u16_def [abs_def])

interpretation w_u32: codec "le_bytes 4" "\<lambda>_. True" Writer_u32 wire_u32
  using c_u32.lift_err [of WireCanon] by (simp add: wire_u32_def [abs_def])

interpretation w_u64: codec "le_bytes 8" "\<lambda>_. True" Writer_u64 wire_u64
  using c_u64.lift_err [of WireCanon] by (simp add: wire_u64_def [abs_def])

interpretation w_id: codec "\<lambda>b. b" "\<lambda>b. length b = 32" Writer_raw read32
  using codec.lift_err [OF raw_codec, of 32 WireCanon] by (simp add: read32_def [abs_def])

interpretation w_push: codec "\<lambda>b. b" "\<lambda>b. length b = PUSH_ID_LEN" Writer_raw read_push_id
  using codec.lift_err [OF raw_codec, of PUSH_ID_LEN WireCanon]
  by (simp add: read_push_id_def [abs_def])

interpretation w_bytes: codec bytes_img "\<lambda>b. length b \<le> mx \<and> length b \<le> u32_max" Writer_bytes
    "wire_bytes mx" for mx
  using codec.lift_err [OF bytes_codec, of mx WireCanon] by (simp add: wire_bytes_def [abs_def])

interpretation w_flag: codec "\<lambda>b. [if b then 1 else 0]" "\<lambda>_. True"
    "\<lambda>b. Writer_u8 (if b then 1 else 0)" read_flag
proof unfold_locales
  fix x and r :: reader and ys
  assume "rest r = [if x then 1 else 0] @ ys"
  then show "read_flag r = Inr (x, adv (length [if x then 1 else 0 :: u8]) r)"
    using w_u8.read_back [where r = r and ys = ys and x = "if x then 1 else 0"]
    by (simp add: read_flag_def)
next
  fix x r r'
  assume "read_flag r = Inr (x, r')"
  then show "True \<and> rest r = [if x then 1 else 0] @ rest r'"
    by (auto simp: read_flag_def rbind_eq_Inr dest!: w_u8.accepted split: if_splits)
qed (simp add: Writer_u8_def)

interpretation w_count: codec "\<lambda>n. le_bytes 4 (of_nat n :: u32)" "\<lambda>n. n \<le> mx \<and> n \<le> u32_max"
    "\<lambda>n. Writer_u32 (of_nat n)" "read_count mx" for mx
proof unfold_locales
  fix x and r :: reader and ys
  assume "x \<le> mx \<and> x \<le> u32_max" "rest r = le_bytes 4 (of_nat x :: u32) @ ys"
  then show "read_count mx r = Inr (x, adv (length (le_bytes 4 (of_nat x :: u32))) r)"
    using w_u32.read_back [where r = r and ys = ys and x = "of_nat x"]
    by (simp add: read_count_def unat_of_nat_u32)
next
  fix x r r'
  assume "read_count mx r = Inr (x, r')"
  then show "(x \<le> mx \<and> x \<le> u32_max) \<and> rest r = le_bytes 4 (of_nat x :: u32) @ rest r'"
    by (auto simp: read_count_def rbind_eq_Inr unat_u32_le dest!: w_u32.accepted split: if_splits)
qed (simp add: Writer_u32_def)

lemmas w_primitive_read = w_u8.read_back w_u16.read_back w_u32.read_back w_u64.read_back
  w_id.read_back w_push.read_back w_bytes.read_back w_flag.read_back w_count.read_back

lemmas w_primitive_accepted = w_u8.accepted w_u16.accepted w_u32.accepted w_u64.accepted
  w_id.accepted w_push.accepted w_bytes.accepted w_flag.accepted w_count.accepted

definition keyslot_img :: "keyslot_put \<Rightarrow> bytes" where
  "keyslot_img k = ks_device_id k @ le_bytes 4 (ks_gen k) @ bytes_img (ks_blob k)"

definition keyslot_ok :: "keyslot_put \<Rightarrow> bool" where
  "keyslot_ok k \<longleftrightarrow> length (ks_device_id k) = 32 \<and> length (ks_blob k) \<le> MAX_ROSTER_ENTRY_SIZE"

lemma entry_size_u32: "n \<le> MAX_ROSTER_ENTRY_SIZE \<Longrightarrow> n \<le> u32_max"
  by (simp add: wire_consts)

lemma blob_size_u32: "n \<le> MAX_BLOB_SIZE \<Longrightarrow> n \<le> u32_max"
  by (simp add: wire_consts)

lemmas size_u32 [simp] = entry_size_u32 blob_size_u32

interpretation w_keyslot: codec keyslot_img keyslot_ok write_keyslot read_keyslot
proof unfold_locales
  fix x :: keyslot_put and r :: reader and ys
  assume "keyslot_ok x" "rest r = keyslot_img x @ ys"
  then show "read_keyslot r = Inr (x, adv (length (keyslot_img x)) r)"
    by (simp add: read_keyslot_def keyslot_ok_def keyslot_img_def w_primitive_read adv_adv)
next
  fix x r r'
  assume "read_keyslot r = Inr (x, r')"
  then show "keyslot_ok x \<and> rest r = keyslot_img x @ rest r'"
    by (auto simp: read_keyslot_def keyslot_ok_def keyslot_img_def rbind_eq_Inr
        dest!: w_primitive_accepted)
qed (simp add: write_keyslot_def keyslot_ok_def keyslot_img_def)


definition wrap_img :: "wrap \<Rightarrow> bytes" where
  "wrap_img x = (case x of None \<Rightarrow> [0] | Some (g, b) \<Rightarrow> [1] @ le_bytes 4 g @ bytes_img b)"

interpretation w_wrap: codec wrap_img wrap_fits write_wrap read_wrap
proof unfold_locales
  fix x :: wrap and r :: reader and ys
  assume "rest r = wrap_img x @ ys" "wrap_fits x"
  then show "read_wrap r = Inr (x, adv (length (wrap_img x)) r)"
    using w_flag.read_back [where r = r and x = "x \<noteq> None" and ys = "tl (wrap_img x) @ ys"]
    by (cases x) (auto simp: read_wrap_def wrap_img_def wrap_fits_def w_primitive_read adv_adv)
next
  fix x r r'
  assume "read_wrap r = Inr (x, r')"
  then show "wrap_fits x \<and> rest r = wrap_img x @ rest r'"
    by (auto simp: read_wrap_def wrap_fits_def wrap_img_def rbind_eq_Inr
        dest!: w_primitive_accepted split: if_splits)
qed (auto simp: write_wrap_def wrap_fits_def wrap_img_def split: option.splits)

definition head_img :: "head_put option \<Rightarrow> bytes" where
  "head_img x = (case x of None \<Rightarrow> [0]
     | Some h \<Rightarrow> [1] @ hp_ref_h h @ hp_old_head h @ bytes_img (hp_new_blob h))"

definition head_ok :: "head_put option \<Rightarrow> bool" where
  "head_ok x = (case x of None \<Rightarrow> True
     | Some h \<Rightarrow> length (hp_ref_h h) = 32 \<and> length (hp_old_head h) = 32
         \<and> length (hp_new_blob h) \<le> MAX_BLOB_SIZE)"

interpretation w_head: codec head_img head_ok write_head_put read_head_put
proof unfold_locales
  fix x :: "head_put option" and r :: reader and ys
  assume "rest r = head_img x @ ys" "head_ok x"
  then show "read_head_put r = Inr (x, adv (length (head_img x)) r)"
    using w_flag.read_back [where r = r and x = "x \<noteq> None" and ys = "tl (head_img x) @ ys"]
    by (cases x) (auto simp: read_head_put_def head_img_def head_ok_def w_primitive_read adv_adv)
next
  fix x r r'
  assume "read_head_put r = Inr (x, r')"
  then show "head_ok x \<and> rest r = head_img x @ rest r'"
    by (auto simp: read_head_put_def head_ok_def head_img_def rbind_eq_Inr
        dest!: w_primitive_accepted split: if_splits)
qed (auto simp: write_head_put_def head_ok_def head_img_def split: option.splits)

section \<open>Requests: the codec\<close>

text \<open>The array lengths the Rust types of the fields enforce.\<close>

fun wf_request :: "request \<Rightarrow> bool" where
  "wf_request (Get i) = (length i = 32)"
| "wf_request (Has ids) = list_all (\<lambda>i. length i = 32) ids"
| "wf_request (Put i _ push_id _) = (length i = 32 \<and> length push_id = PUSH_ID_LEN)"
| "wf_request (CasHead ref_h old_head new_head promote _) =
     (length ref_h = 32 \<and> length old_head = 32 \<and> length new_head = 32
      \<and> length promote = PUSH_ID_LEN)"
| "wf_request (RosterBatch old_tip _ keyslots _ _ revoke head) =
     (length old_tip = 32 \<and> list_all (\<lambda>k. length (ks_device_id k) = 32) keyslots
      \<and> list_all (\<lambda>d. length d = 32) revoke
      \<and> (case head of None \<Rightarrow> True
           | Some h \<Rightarrow> length (hp_ref_h h) = 32 \<and> length (hp_old_head h) = 32))"
| "wf_request (GetRef h) = (length h = 32)"
| "wf_request (GetRosterEntry _) = True"
| "wf_request (GetKeyslot d _) = (length d = 32)"
| "wf_request (Prune dead h _) = (list_all (\<lambda>i. length i = 32) dead \<and> length h = 32)"
| "wf_request (GetRosterKeyhist _) = True"
| "wf_request (GetKeyhist _) = True"
| "wf_request (PairPut slot _) = (length slot = 32)"
| "wf_request (PairGet slot) = (length slot = 32)"

definition request_ok :: "request \<Rightarrow> bool" where
  "request_ok req \<longleftrightarrow> wf_request req \<and> Request_validate_fields req = Inr ()"

fun request_img :: "request \<Rightarrow> bytes" where
  "request_img (Get i) = [0] @ i"
| "request_img (Has ids) = [1] @ le_bytes 4 (of_nat (length ids) :: u32) @ concat ids"
| "request_img (Put i n p b) = [2] @ i @ le_bytes 4 n @ p @ bytes_img b"
| "request_img (CasHead h old new p b) = [3] @ h @ old @ new @ p @ bytes_img b"
| "request_img (RosterBatch t es ks kh rkh rv h) =
     [4] @ t @ le_bytes 4 (of_nat (length es) :: u32) @ concat (map bytes_img es)
       @ le_bytes 4 (of_nat (length ks) :: u32) @ concat (map keyslot_img ks)
       @ wrap_img kh @ wrap_img rkh
       @ le_bytes 4 (of_nat (length rv) :: u32) @ concat rv @ head_img h"
| "request_img (GetRef h) = [5] @ h"
| "request_img (GetRosterEntry s) = [6] @ le_bytes 8 s"
| "request_img (GetKeyslot d g) = [7] @ d @ le_bytes 4 g"
| "request_img (Prune dead h l) =
     [8] @ le_bytes 4 (of_nat (length dead) :: u32) @ concat dead @ h @ le_bytes 8 l"
| "request_img (GetRosterKeyhist g) = [9] @ le_bytes 4 g"
| "request_img (GetKeyhist g) = [10] @ le_bytes 4 g"
| "request_img (PairPut s b) = [12] @ s @ bytes_img b"
| "request_img (PairGet s) = [13] @ s"

lemma within_Inr [simp]: "within b = Inr u \<longleftrightarrow> b"
  by (simp add: within_def)

lemma batch_fields_ok:
  "request_ok (RosterBatch t es ks kh rkh rv h) \<longleftrightarrow>
     length t = 32 \<and> length es \<le> MAX_LIST_ELEMENTS \<and> length ks \<le> MAX_LIST_ELEMENTS
     \<and> length rv \<le> MAX_LIST_ELEMENTS \<and> list_all (\<lambda>e. length e \<le> MAX_ROSTER_ENTRY_SIZE) es
     \<and> list_all keyslot_ok ks \<and> wrap_fits kh \<and> wrap_fits rkh
     \<and> list_all (\<lambda>d. length d = 32) rv \<and> head_ok h"
  by (auto simp: request_ok_def rbind_eq_Inr keyslot_ok_def head_ok_def list_all_iff
      split: option.splits)

lemma other_fields_ok:
  "request_ok (Get i) \<longleftrightarrow> length i = 32"
  "request_ok (Has ids) \<longleftrightarrow> list_all (\<lambda>i. length i = 32) ids \<and> length ids \<le> MAX_HAS_IDS"
  "request_ok (Put i n p b) \<longleftrightarrow>
     length i = 32 \<and> length p = PUSH_ID_LEN \<and> length b \<le> MAX_BLOB_SIZE"
  "request_ok (CasHead h old new p b) \<longleftrightarrow> length h = 32 \<and> length old = 32 \<and> length new = 32
     \<and> length p = PUSH_ID_LEN \<and> length b \<le> MAX_BLOB_SIZE"
  "request_ok (GetRef h) \<longleftrightarrow> length h = 32"
  "request_ok (GetRosterEntry s)"
  "request_ok (GetKeyslot h g) \<longleftrightarrow> length h = 32"
  "request_ok (Prune ids h l) \<longleftrightarrow>
     list_all (\<lambda>i. length i = 32) ids \<and> length h = 32 \<and> length ids \<le> MAX_HAS_IDS"
  "request_ok (GetRosterKeyhist g)"
  "request_ok (GetKeyhist g)"
  "request_ok (PairPut h b) \<longleftrightarrow> length h = 32 \<and> length b \<le> MAX_ROSTER_ENTRY_SIZE"
  "request_ok (PairGet h) \<longleftrightarrow> length h = 32"
  by (auto simp: request_ok_def)

lemmas request_ok_simps = batch_fields_ok other_fields_ok

lemma list_elements_u32 [simp]: "n \<le> MAX_LIST_ELEMENTS \<Longrightarrow> n \<le> u32_max"
  by (simp add: wire_consts)

lemma has_ids_u32 [simp]: "n \<le> MAX_HAS_IDS \<Longrightarrow> n \<le> u32_max"
  by (simp add: wire_consts)

lemma request_written: "request_ok x \<Longrightarrow> Request_write x (Some s) = Some (s @ request_img x)"
proof (cases x)
  case (RosterBatch t es ks kh rkh rv h)
  assume "request_ok x"
  then have "list_all (\<lambda>b. length b \<le> MAX_ROSTER_ENTRY_SIZE \<and> length b \<le> u32_max) es"
    and "list_all keyslot_ok ks" "wrap_fits kh" "wrap_fits rkh" "head_ok h"
    by (auto simp: RosterBatch batch_fields_ok list_all_iff)
  then show ?thesis
    by (simp add: RosterBatch w_bytes.written_list w_keyslot.written_list w_wrap.written
        w_head.written)
qed (auto simp: request_ok_def)


lemmas w_read = w_primitive_read w_keyslot.read_back w_wrap.read_back w_head.read_back
  w_id.times_read_back w_bytes.times_read_back w_keyslot.times_read_back

lemmas w_accepted = w_primitive_accepted w_keyslot.accepted w_wrap.accepted w_head.accepted
  w_id.times_accepted w_bytes.times_accepted w_keyslot.times_accepted

lemma request_read_back:
  "rest r = request_img x @ ys \<Longrightarrow> request_ok x \<Longrightarrow>
     Request_read r = Inr (x, adv (length (request_img x)) r)"
proof (cases x)
  case (RosterBatch t es ks kh rkh rv h)
  assume r: "rest r = request_img x @ ys" and ok: "request_ok x"
  from ok have "list_all (\<lambda>b. length b \<le> MAX_ROSTER_ENTRY_SIZE \<and> length b \<le> u32_max) es"
    by (auto simp: RosterBatch batch_fields_ok list_all_iff)
  with r ok show ?thesis
    by (simp add: RosterBatch Request_read_def w_read batch_fields_ok) (simp add: adv_adv add.assoc)
next
  case (Has ids)
  assume "rest r = request_img x @ ys" and "request_ok x"
  then show ?thesis
    by (simp add: Has Request_read_def w_read other_fields_ok) (simp add: adv_adv)
next
  case (Prune dead h l)
  assume "rest r = request_img x @ ys" and "request_ok x"
  then show ?thesis
    by (simp add: Prune Request_read_def w_read other_fields_ok) (simp add: adv_adv)
qed (auto simp: Request_read_def w_read other_fields_ok adv_adv PUSH_ID_LEN_def)

lemma request_accepted:
  assumes "Request_read r = Inr (x, r')"
  shows "request_ok x \<and> rest r = request_img x @ rest r'"
proof -
  from assms obtain tag r1 where tag: "wire_u8 r = Inr (tag, r1)"
    by (auto simp: Request_read_def rbind_eq_Inr)
  then have r: "rest r = [tag] @ rest r1" by (auto dest: w_u8.accepted)
  consider "tag = 0" | "tag = 1" | "tag = 2" | "tag = 3" | "tag = 4" | "tag = 5" | "tag = 6"
    | "tag = 7" | "tag = 8" | "tag = 9" | "tag = 10" | "tag = 12" | "tag = 13"
    using assms tag by (auto simp: Request_read_def split: if_splits)
  then show ?thesis
    using assms tag r
  proof cases
    assume t: "tag = 4"
    with assms tag obtain t es ks kh rkh rv h where "x = RosterBatch t es ks kh rkh rv h"
      by (auto simp: Request_read_def rbind_eq_Inr)
    with t assms tag r show ?thesis
      by (auto simp: Request_read_def rbind_eq_Inr batch_fields_ok list_all_iff
          dest!: w_accepted)
  qed (auto simp: Request_read_def rbind_eq_Inr other_fields_ok dest!: w_accepted)
qed

interpretation w_request: codec request_img request_ok Request_write Request_read
  by unfold_locales (rule request_written request_read_back request_accepted; assumption)+


lemma Request_encode_ok: "request_ok req \<Longrightarrow> Request_encode req = Some (request_img req)"
  by (simp add: Request_encode_def w_request.written)

lemma Request_decode_iff: "Request_decode b = Inr req \<longleftrightarrow> request_ok req \<and> b = request_img req"
  unfolding Request_decode_def by (rule w_request.whole_iff)

lemma Request_decode_img: "request_ok req \<Longrightarrow> Request_decode (request_img req) = Inr req"
  by (simp add: Request_decode_iff)

lemma Request_validate_iff:
  "wf_request req \<Longrightarrow> Request_validate req = Inr () \<longleftrightarrow>
     request_ok req \<and> length (request_img req) \<le> MAX_REQUEST_LEN"
  by (auto simp: Request_validate_def rbind_eq_Inr request_ok_def Request_encode_ok
      split: option.splits)

section \<open>Responses, hellos and envelopes: the codecs\<close>

fun response_ok :: "response \<Rightarrow> bool" where
  "response_ok (RBlob (Some b)) = (length b \<le> MAX_BLOB_SIZE)"
| "response_ok (RExists bits) = (length bits \<le> MAX_HAS_IDS)"
| "response_ok _ = True"

fun response_img :: "response \<Rightarrow> bytes" where
  "response_img (RBlob None) = [0, 0]"
| "response_img (RBlob (Some b)) = [0, 1] @ bytes_img b"
| "response_img (RExists bits) =
     [1] @ le_bytes 4 (of_nat (length bits) :: u32) @ map (\<lambda>b. if b then 1 else 0) bits"
| "response_img ROk = [2]"
| "response_img (RErr c) = [3, code_to_u8 c]"

lemma code_from_to [simp]: "code_from_u8 (code_to_u8 c) = Inr c"
  by (cases c) (simp_all add: code_from_u8_def)

lemma code_from_u8_Inr: "code_from_u8 v = Inr c \<Longrightarrow> v = code_to_u8 c"
  by (auto simp: code_from_u8_def split: if_splits)

lemma flags_written:
  "fold (\<lambda>b. Writer_u8 (if b then 1 else 0)) bits (Some s)
     = Some (s @ map (\<lambda>b. if b then 1 else 0) bits)"
  by (induction bits arbitrary: s) auto

lemma flags_read:
  "rest r = map (\<lambda>b. if b then 1 else 0) bits @ ys \<Longrightarrow>
     read_times (length bits) read_flag r = Inr (bits, adv (length bits) r)"
  using w_flag.times_read_back [of r bits ys] by (simp add: list.pred_True)

lemma flags_accepted:
  "read_times n read_flag r = Inr (bits, r') \<Longrightarrow>
     length bits = n \<and> rest r = map (\<lambda>b. if b then 1 else 0) bits @ rest r'"
  using w_flag.times_accepted [of n r bits r'] by simp

lemma response_written: "response_ok x \<Longrightarrow> Response_write x (Some s) = Some (s @ response_img x)"
  by (cases x rule: response_img.cases) (simp_all add: flags_written)

lemma flag_true_read:
  "rest r = 1 # ys \<Longrightarrow> read_flag r = Inr (True, adv (Suc 0) r)"
  using w_flag.read_back [where r = r and x = True and ys = ys] by simp

lemma flag_false_read:
  "rest r = 0 # ys \<Longrightarrow> read_flag r = Inr (False, adv (Suc 0) r)"
  using w_flag.read_back [where r = r and x = False and ys = ys] by simp

lemma response_read_back:
  "rest r = response_img x @ ys \<Longrightarrow> response_ok x \<Longrightarrow>
     Response_read r = Inr (x, adv (length (response_img x)) r)"
proof (cases x rule: response_img.cases)
  case (3 bits)
  assume "rest r = response_img x @ ys" "response_ok x"
  then show ?thesis
    by (simp add: 3 Response_read_def w_primitive_read flags_read) (simp add: adv_adv)
qed (auto simp: Response_read_def w_primitive_read flag_true_read flag_false_read adv_adv)

lemma response_accepted:
  assumes "Response_read r = Inr (x, r')"
  shows "response_ok x \<and> rest r = response_img x @ rest r'"
proof -
  from assms obtain tag r1 where tag: "wire_u8 r = Inr (tag, r1)"
    by (auto simp: Response_read_def rbind_eq_Inr)
  then have r: "rest r = [tag] @ rest r1" by (auto dest: w_u8.accepted)
  consider "tag = 0" | "tag = 1" | "tag = 2" | "tag = 3"
    using assms tag by (auto simp: Response_read_def split: if_splits)
  then show ?thesis
    using assms tag r
    by cases (auto simp: Response_read_def rbind_eq_Inr split: if_splits
        dest!: w_primitive_accepted flags_accepted code_from_u8_Inr)
qed

interpretation w_response: codec response_img response_ok Response_write Response_read
  by unfold_locales (rule response_written response_read_back response_accepted; assumption)+

lemma Response_encode_ok: "response_ok resp \<Longrightarrow> Response_encode resp = Some (response_img resp)"
  by (simp add: Response_encode_def w_response.written)

lemma Response_decode_iff:
  "Response_decode b = Inr resp \<longleftrightarrow> response_ok resp \<and> b = response_img resp"
  unfolding Response_decode_def by (rule w_response.whole_iff)

lemma ClientHello_decode_iff:
  "ClientHello_decode b = Inr h \<longleftrightarrow> length (client_nonce h) = 32 \<and> ClientHello_encode h = Some b"
proof
  assume "ClientHello_decode b = Inr h"
  then show "length (client_nonce h) = 32 \<and> ClientHello_encode h = Some b"
    by (auto simp: ClientHello_decode_def ClientHello_encode_def wire_finish_def rbind_eq_Inr
        dest!: w_primitive_accepted)
next
  assume "length (client_nonce h) = 32 \<and> ClientHello_encode h = Some b"
  then have l: "length (client_nonce h) = 32" and b: "b = le_bytes 2 (ch_version h) @ client_nonce h"
    by (auto simp: ClientHello_encode_def)
  show "ClientHello_decode b = Inr h"
    by (simp add: b l ClientHello_decode_def w_u16.read_back wire_finish_def
        w_id.read_back [where ys = "[]"] Reader_finish_rest)
qed

lemma ServerHello_decode_iff:
  "ServerHello_decode b = Inr h \<longleftrightarrow>
     length (server_nonce h) = 32 \<and> length (host_id h) = 32 \<and> ServerHello_encode h = Some b"
proof
  assume "ServerHello_decode b = Inr h"
  then show "length (server_nonce h) = 32 \<and> length (host_id h) = 32 \<and> ServerHello_encode h = Some b"
    by (auto simp: ServerHello_decode_def ServerHello_encode_def wire_finish_def rbind_eq_Inr
        dest!: w_primitive_accepted)
next
  assume "length (server_nonce h) = 32 \<and> length (host_id h) = 32 \<and> ServerHello_encode h = Some b"
  then have l: "length (server_nonce h) = 32" "length (host_id h) = 32"
    and b: "b = le_bytes 2 (sh_version h) @ server_nonce h @ host_id h"
    by (auto simp: ServerHello_encode_def)
  have "read32 (adv 2 (Reader_new b)) = Inr (server_nonce h, adv 32 (adv 2 (Reader_new b)))"
    using w_id.read_back [of "adv 2 (Reader_new b)" "server_nonce h" "host_id h"] l b by simp
  moreover have "read32 (adv 32 (adv 2 (Reader_new b)))
      = Inr (host_id h, adv 32 (adv 32 (adv 2 (Reader_new b))))"
    using w_id.read_back [of "adv 32 (adv 2 (Reader_new b))" "host_id h" "[]"] l b by simp
  ultimately show "ServerHello_decode b = Inr h"
    using w_u16.read_back [of "Reader_new b" "sh_version h" "server_nonce h @ host_id h"] l b
    by (simp add: ServerHello_decode_def wire_finish_def Reader_finish_rest)
qed

lemma two_bytes_read:
  assumes "length x \<le> mx" "length y \<le> my" "mx \<le> u32_max" "my \<le> u32_max"
  shows "wire_bytes mx (Reader_new (bytes_img x @ bytes_img y))
      = Inr (x, adv (length (bytes_img x)) (Reader_new (bytes_img x @ bytes_img y)))"
    and "wire_bytes my (adv (length (bytes_img x)) (Reader_new (bytes_img x @ bytes_img y)))
      = Inr (y, adv (length (bytes_img y))
          (adv (length (bytes_img x)) (Reader_new (bytes_img x @ bytes_img y))))"
  using assms w_bytes.read_back [of _ x "bytes_img y"] w_bytes.read_back [of _ y "[]"] by simp_all

lemma ClientAuth_decode_iff:
  "ClientAuth_decode b = Inr a \<longleftrightarrow>
     length (ca_pubkey a) \<le> MAX_PUBKEY \<and> length (ca_sig a) \<le> MAX_SIG_LEN
     \<and> ClientAuth_encode a = Some b" (is "?l \<longleftrightarrow> ?r")
proof
  assume ?l
  then show ?r
    by (auto simp: ClientAuth_decode_def ClientAuth_encode_def wire_finish_def rbind_eq_Inr
        dest!: w_primitive_accepted)
next
  assume r: ?r
  then have "length (ca_pubkey a) \<le> u32_max" "length (ca_sig a) \<le> u32_max"
    by (auto simp: wire_consts)
  with r have "b = bytes_img (ca_pubkey a) @ bytes_img (ca_sig a)"
    by (simp add: ClientAuth_encode_def)
  with r show ?l
    using two_bytes_read [of "ca_pubkey a" MAX_PUBKEY "ca_sig a" MAX_SIG_LEN]
    by (simp add: ClientAuth_decode_def wire_finish_def Reader_finish_rest
        MAX_PUBKEY_def MAX_SIG_LEN_def u32_max_def)
qed

definition authed_ok :: "authed_request \<Rightarrow> bool" where
  "authed_ok a \<longleftrightarrow> length (op_sig a) \<le> MAX_SIG_LEN \<and> request_ok (ar_request a)
     \<and> length (request_img (ar_request a)) \<le> MAX_REQUEST_LEN"

lemma authed_encode:
  assumes "authed_ok a"
  shows "AuthedRequest_encode a
    = Some (bytes_img (op_sig a) @ bytes_img (request_img (ar_request a)))"
proof -
  from assms have "length (op_sig a) \<le> u32_max" "length (request_img (ar_request a)) \<le> u32_max"
    by (auto simp: authed_ok_def wire_consts)
  with assms show ?thesis
    by (simp add: AuthedRequest_encode_def Request_encode_ok authed_ok_def)
qed

lemma AuthedRequest_decode_iff:
  "AuthedRequest_decode b = Inr a \<longleftrightarrow> authed_ok a \<and> AuthedRequest_encode a = Some b"
  (is "?l \<longleftrightarrow> ?r")
proof
  assume l: ?l
  then have ok: "authed_ok a"
    by (auto simp: AuthedRequest_decode_def wire_finish_def rbind_eq_Inr authed_ok_def
        Request_decode_iff dest!: w_bytes.accepted)
  moreover from l have "b = bytes_img (op_sig a) @ bytes_img (request_img (ar_request a))"
    by (auto simp: AuthedRequest_decode_def wire_finish_def rbind_eq_Inr
        Request_decode_iff dest!: w_bytes.accepted)
  ultimately show ?r by (simp add: authed_encode)
next
  assume r: ?r
  then have "b = bytes_img (op_sig a) @ bytes_img (request_img (ar_request a))"
    by (auto simp: authed_encode)
  with r show ?l
    using two_bytes_read
      [of "op_sig a" MAX_SIG_LEN "request_img (ar_request a)" MAX_REQUEST_LEN]
    by (simp add: AuthedRequest_decode_def wire_finish_def Reader_finish_rest Request_decode_img
        authed_ok_def wire_consts)
qed


section \<open>Properties\<close>

text \<open>
  C36: the request codec is a bijection on the frames the server reads. For a byte string of at
  most \<open>MAX_REQUEST_LEN\<close> bytes, \<open>Request::decode\<close> returns a request exactly when the request is
  well-typed, passes the write-side \<open>validate\<close>, and \<open>encode\<close> yields those very bytes.
\<close>

theorem request_codec_canonical:
  assumes "length b \<le> MAX_REQUEST_LEN"
  shows "Request_decode b = Inr req \<longleftrightarrow>
    wf_request req \<and> Request_validate req = Inr () \<and> Request_encode req = Some b"
  using assms
  by (auto simp: Request_decode_iff Request_validate_iff Request_encode_ok request_ok_def)

theorem request_codec_canonical_witness:
  "Request_decode (1 # le_bytes 4 (1 :: u32) @ replicate 32 7) = Inr (Has [replicate 32 7])"
proof -
  have "length (1 # le_bytes 4 (1 :: u32) @ replicate 32 7) \<le> MAX_REQUEST_LEN"
    by (simp add: wire_consts)
  from request_codec_canonical [OF this, of "Has [replicate 32 7]"] show ?thesis
    by (simp add: Request_validate_def Request_encode_def MAX_HAS_IDS_def MAX_REQUEST_LEN_def
        MAX_BLOB_SIZE_def)
qed

text \<open>
  What a client validates, the server reads back. A well-typed request that passes
  \<open>validate\<close>, wrapped with a signature within \<open>MAX_SIG_LEN\<close>, encodes without a panic to at
  most \<open>MAX_AUTHED_LEN\<close> bytes, and \<open>AuthedRequest::decode\<close> returns the same signature and
  request.
\<close>

lemma authed_request_roundtrip:
  assumes "wf_request req" and "Request_validate req = Inr ()" and "length s \<le> MAX_SIG_LEN"
  shows "\<exists>b. AuthedRequest_encode \<lparr>op_sig = s, ar_request = req\<rparr> = Some b
    \<and> length b \<le> MAX_AUTHED_LEN
    \<and> AuthedRequest_decode b = Inr \<lparr>op_sig = s, ar_request = req\<rparr>"
proof -
  from assms have ok: "authed_ok \<lparr>op_sig = s, ar_request = req\<rparr>"
    by (simp add: authed_ok_def Request_validate_iff)
  with authed_encode [OF ok] show ?thesis
    by (auto simp: AuthedRequest_decode_iff authed_ok_def MAX_AUTHED_LEN_def)
qed

lemma authed_request_roundtrip_witness:
  "\<exists>b. AuthedRequest_encode \<lparr>op_sig = [1, 2], ar_request = GetKeyhist 3\<rparr> = Some b
    \<and> length b \<le> MAX_AUTHED_LEN
    \<and> AuthedRequest_decode b = Inr \<lparr>op_sig = [1, 2], ar_request = GetKeyhist 3\<rparr>"
  by (rule authed_request_roundtrip)
    (simp_all add: Request_validate_def Request_encode_def MAX_REQUEST_LEN_def MAX_SIG_LEN_def)

text \<open>
  The authenticated-request envelope is canonical: \<open>AuthedRequest::decode\<close> accepts a byte
  string exactly when it is the encoding of an envelope within the signature, field and
  request bounds.
\<close>

lemma authed_request_canonical:
  "AuthedRequest_decode b = Inr a \<longleftrightarrow> authed_ok a \<and> AuthedRequest_encode a = Some b"
  by (rule AuthedRequest_decode_iff)

text \<open>
  The response codec is canonical: \<open>Response::decode\<close> accepts exactly the encodings of
  responses within the blob and id-count bounds.
\<close>

lemma response_codec_canonical:
  "Response_decode b = Inr resp \<longleftrightarrow> response_ok resp \<and> Response_encode resp = Some b"
  by (auto simp: Response_decode_iff Response_encode_ok)

text \<open>
  Everything an unenrolled key may send fits the smaller cap the server reads for it:
  the genesis batch (one entry, one keyslot, nothing else), a pairing post and a pairing take,
  within their field bounds and with a signature within \<open>MAX_SIG_LEN\<close>, encode to at most
  \<open>MAX_UNENROLLED_AUTHED_LEN\<close> bytes.
\<close>

lemma unenrolled_requests_fit:
  assumes "request_ok req" and "length s \<le> MAX_SIG_LEN"
    and "(\<exists>t e k. req = RosterBatch t [e] [k] None None [] None)
      \<or> (\<exists>slot blob. req = PairPut slot blob) \<or> (\<exists>slot. req = PairGet slot)"
  shows "\<exists>b. AuthedRequest_encode \<lparr>op_sig = s, ar_request = req\<rparr> = Some b
    \<and> length b \<le> MAX_UNENROLLED_AUTHED_LEN"
proof -
  have len: "length (request_img req) \<le> GENESIS_BATCH_MAX"
    using assms(1,3)
    by (auto simp: request_ok_simps keyslot_ok_def keyslot_img_def wrap_img_def head_img_def
        GENESIS_BATCH_MAX_def MAX_ROSTER_ENTRY_SIZE_def)
  with assms(1,2) have ok: "authed_ok \<lparr>op_sig = s, ar_request = req\<rparr>"
    by (simp add: authed_ok_def wire_consts)
  with authed_encode [OF ok] len assms(2) show ?thesis
    by (simp add: MAX_UNENROLLED_AUTHED_LEN_def)
qed

lemma unenrolled_requests_fit_witness:
  "\<exists>b. AuthedRequest_encode \<lparr>op_sig = [], ar_request = PairGet (replicate 32 1)\<rparr> = Some b
    \<and> length b \<le> MAX_UNENROLLED_AUTHED_LEN"
  by (rule unenrolled_requests_fit) (simp_all add: request_ok_simps)

end
