(* ===== verification/Sigs.thy ===== *)
theory Sigs
  imports Crypto
begin

text \<open>
  \<open>crates/secsec-sig\<close>: device identity and namespaced signatures. The \<open>ssh-key\<close> crate (key
  encodings, PEM parsing, signing and verification of SSHSIG) and SHA-512 are the fields of the
  parameter \<open>ssh\<close>; what the crate adds is the Ed25519-only guards, the namespaces and the secrets
  derived from the device seed.
\<close>

section \<open>Primitives\<close>

text \<open>
  Strings are lists of Unicode scalar values. Keys and parsed signatures of \<open>ssh-key\<close> are opaque values, represented as byte strings; a
  private key is a key pair with a seed when it is Ed25519.
\<close>

record ssh =
  pk_to_bytes :: "bytes \<Rightarrow> bytes option"
  pk_from_bytes :: "bytes \<Rightarrow> bytes option"
  pk_from_openssh :: "nat list \<Rightarrow> bytes option"
  pk_is_ed25519 :: "bytes \<Rightarrow> bool"
  sshsig_from_pem :: "bytes \<Rightarrow> bytes option"
  sshsig_is_ed25519 :: "bytes \<Rightarrow> bool"
  ssh_verify :: "bytes \<Rightarrow> bytes \<Rightarrow> bytes \<Rightarrow> bytes \<Rightarrow> bool"
  ssh_sign :: "bytes \<Rightarrow> bytes \<Rightarrow> bytes \<Rightarrow> bytes option"
  sk_public :: "bytes \<Rightarrow> bytes"
  sk_seed :: "bytes \<Rightarrow> bytes option"
  sha512 :: "bytes \<Rightarrow> bytes"

definition NS_AUTH :: bytes where "NS_AUTH = ascii ''secsec-auth-v1''"
definition NS_WRITE :: bytes where "NS_WRITE = ascii ''secsec-write-v1''"
definition NS_READ :: bytes where "NS_READ = ascii ''secsec-read-v1''"
definition NS_COMMIT :: bytes where "NS_COMMIT = ascii ''secsec-commit-v1''"
definition NS_HEAD :: bytes where "NS_HEAD = ascii ''secsec-head-v1''"
definition NS_ROSTER :: bytes where "NS_ROSTER = ascii ''secsec-roster-v1''"

definition L_LOCAL_SEAL_V1 :: bytes where "L_LOCAL_SEAL_V1 = ascii ''secsec-local-seal-v1''"
definition L_LOCAL_SEAL_V2 :: bytes where "L_LOCAL_SEAL_V2 = ascii ''secsec-local-seal-v2''"
definition L_XWING_SEED :: bytes where "L_XWING_SEED = ascii ''secsec-xwing-seed-v1''"

datatype sig_error = SshError | NotEd25519 | VerifyFailed | Encrypted | BadPassphrase

text \<open>\<open>core::str::from_utf8\<close>: the well-formed byte sequences of the Unicode standard.\<close>

definition cont_byte :: "u8 \<Rightarrow> bool" where
  "cont_byte b \<longleftrightarrow> 0x80 \<le> b \<and> b \<le> 0xbf"

fun from_utf8_ok :: "bytes \<Rightarrow> bool" where
  "from_utf8_ok [] = True"
| "from_utf8_ok (a # bs) =
     (if a < 0x80 then from_utf8_ok bs
      else if 0xc2 \<le> a \<and> a \<le> 0xdf then
        (case bs of b # r \<Rightarrow> cont_byte b \<and> from_utf8_ok r | _ \<Rightarrow> False)
      else if 0xe0 \<le> a \<and> a \<le> 0xef then
        (case bs of
           b # c # r \<Rightarrow> cont_byte b \<and> cont_byte c \<and> (a = 0xe0 \<longrightarrow> 0xa0 \<le> b) \<and> (a = 0xed \<longrightarrow> b \<le> 0x9f)
             \<and> from_utf8_ok r
         | _ \<Rightarrow> False)
      else if 0xf0 \<le> a \<and> a \<le> 0xf4 then
        (case bs of
           b # c # d # r \<Rightarrow> cont_byte b \<and> cont_byte c \<and> cont_byte d \<and> (a = 0xf0 \<longrightarrow> 0x90 \<le> b)
             \<and> (a = 0xf4 \<longrightarrow> b \<le> 0x8f) \<and> from_utf8_ok r
         | _ \<Rightarrow> False)
      else False)"

section \<open>Device identity and signatures\<close>

definition device_id_of :: "crypto \<Rightarrow> ssh \<Rightarrow> bytes \<Rightarrow> sig_error + bytes" where
  "device_id_of cr ss pk = rbind (ok_or SshError (pk_to_bytes ss pk)) (\<lambda>canon. Inr (hash cr canon))"

definition derive_secret :: "crypto \<Rightarrow> bytes \<Rightarrow> bytes \<Rightarrow> bytes" where
  "derive_secret cr label material = derive_key cr label material"

definition ed25519_seed :: "ssh \<Rightarrow> bytes \<Rightarrow> sig_error + bytes" where
  "ed25519_seed ss sk = ok_or NotEd25519 (sk_seed ss sk)"

definition clamp :: "bytes \<Rightarrow> bytes" where
  "clamp k = (let k = k[0 := (k ! 0) AND 248]; k = k[31 := (k ! 31) AND 127] in k[31 := (k ! 31) OR 64])"

definition x25519_secret :: "ssh \<Rightarrow> bytes \<Rightarrow> sig_error + bytes" where
  "x25519_secret ss sk = rbind (ed25519_seed ss sk) (\<lambda>seed. Inr (clamp (take 32 (sha512 ss seed))))"

definition local_seal_key :: "crypto \<Rightarrow> ssh \<Rightarrow> bytes \<Rightarrow> sig_error + bytes" where
  "local_seal_key cr ss sk =
     rbind (ed25519_seed ss sk) (\<lambda>seed. Inr (derive_secret cr L_LOCAL_SEAL_V2 seed))"

definition local_seal_key_v1 :: "crypto \<Rightarrow> ssh \<Rightarrow> bytes \<Rightarrow> sig_error + bytes" where
  "local_seal_key_v1 cr ss sk =
     rbind (x25519_secret ss sk) (\<lambda>scalar. Inr (derive_secret cr L_LOCAL_SEAL_V1 scalar))"

definition xwing_seed :: "crypto \<Rightarrow> ssh \<Rightarrow> bytes \<Rightarrow> sig_error + bytes" where
  "xwing_seed cr ss sk = rbind (ed25519_seed ss sk) (\<lambda>seed. Inr (derive_secret cr L_XWING_SEED seed))"

definition DeviceKey_sign :: "ssh \<Rightarrow> bytes \<Rightarrow> bytes \<Rightarrow> bytes \<Rightarrow> sig_error + bytes" where
  "DeviceKey_sign ss sk namespace msg = ok_or SshError (ssh_sign ss sk namespace msg)"

definition DevicePublic_to_canonical :: "ssh \<Rightarrow> bytes \<Rightarrow> sig_error + bytes" where
  "DevicePublic_to_canonical ss pk = ok_or SshError (pk_to_bytes ss pk)"

definition DevicePublic_from_canonical :: "ssh \<Rightarrow> bytes \<Rightarrow> sig_error + bytes" where
  "DevicePublic_from_canonical ss b =
     rbind (ok_or SshError (pk_from_bytes ss b)) (\<lambda>key.
     if \<not> pk_is_ed25519 ss key then Inl NotEd25519 else Inr key)"

definition DevicePublic_from_openssh :: "ssh \<Rightarrow> nat list \<Rightarrow> sig_error + bytes" where
  "DevicePublic_from_openssh ss line =
     rbind (ok_or SshError (pk_from_openssh ss line)) (\<lambda>key.
     if \<not> pk_is_ed25519 ss key then Inl NotEd25519 else Inr key)"

definition DevicePublic_verify :: "ssh \<Rightarrow> bytes \<Rightarrow> bytes \<Rightarrow> bytes \<Rightarrow> bytes \<Rightarrow> sig_error + unit" where
  "DevicePublic_verify ss pk namespace msg sig_pem =
     (if \<not> pk_is_ed25519 ss pk then Inl NotEd25519
      else if \<not> from_utf8_ok sig_pem then Inl VerifyFailed
      else rbind (ok_or SshError (sshsig_from_pem ss sig_pem)) (\<lambda>sg.
        if \<not> sshsig_is_ed25519 ss sg then Inl NotEd25519
        else if ssh_verify ss pk namespace msg sg then Inr () else Inl VerifyFailed))"

lemma length_device_id: "device_id_of cr ss pk = Inr d \<Longrightarrow> length d = 32"
  by (auto simp: device_id_of_def rbind_eq_Inr)

text \<open>The signatures the program accepts: Ed25519 on both sides, under the given namespace.\<close>

definition accepts_sig :: "ssh \<Rightarrow> bytes \<Rightarrow> bytes \<Rightarrow> bytes \<Rightarrow> bytes \<Rightarrow> bool" where
  "accepts_sig ss pk namespace msg sig_pem \<longleftrightarrow>
     pk_is_ed25519 ss pk \<and> from_utf8_ok sig_pem
     \<and> (\<exists>sg. sshsig_from_pem ss sig_pem = Some sg \<and> sshsig_is_ed25519 ss sg \<and> ssh_verify ss pk namespace msg sg)"

lemma DevicePublic_verify_iff: "DevicePublic_verify ss pk ns msg sg = Inr u \<longleftrightarrow> accepts_sig ss pk ns msg sg"
  by (auto simp: DevicePublic_verify_def accepts_sig_def rbind_eq_Inr split: if_splits)

lemma namespaces_distinct:
  "distinct [NS_AUTH, NS_WRITE, NS_READ, NS_COMMIT, NS_HEAD, NS_ROSTER]"
  by (simp add: NS_AUTH_def NS_WRITE_def NS_READ_def NS_COMMIT_def NS_HEAD_def NS_ROSTER_def ascii_def)

text \<open>A permissive instance, for examples.\<close>

definition toy_ssh :: ssh where
  "toy_ssh =
     \<lparr>pk_to_bytes = Some, pk_from_bytes = Some, pk_from_openssh = (\<lambda>l. Some (map of_nat l)), pk_is_ed25519 = (\<lambda>_. True), sshsig_from_pem = Some,
      sshsig_is_ed25519 = (\<lambda>_. True), ssh_verify = (\<lambda>pk ns msg sg. sg = []),
      ssh_sign = (\<lambda>sk ns msg. Some []), sk_public = (\<lambda>sk. sk), sk_seed = Some, sha512 = (\<lambda>m. replicate 64 0)\<rparr>"

end
