(* ===== verification/Proto.thy ===== *)
theory Proto
  imports Wire Sigs
begin

text \<open>
  \<open>crates/secsec-proto/src/lib.rs\<close> and \<open>prune.rs\<close>: what a client signs for each operation. Every
  operation has a label and an argument hash; the signed message adds the session transcript and,
  for a write, the server's nonce. \<open>None\<close> is the panic of the writer.
\<close>

section \<open>Model\<close>

definition OP_PUT :: bytes where "OP_PUT = ascii ''put''"
definition OP_CAS_HEAD :: bytes where "OP_CAS_HEAD = ascii ''cas-head''"
definition OP_ROSTER_BATCH :: bytes where "OP_ROSTER_BATCH = ascii ''roster-batch''"
definition OP_PRUNE :: bytes where "OP_PRUNE = ascii ''prune''"
definition OP_GET :: bytes where "OP_GET = ascii ''get''"
definition OP_HAS :: bytes where "OP_HAS = ascii ''has''"
definition OP_GET_REF :: bytes where "OP_GET_REF = ascii ''get-ref''"
definition OP_GET_ROSTER :: bytes where "OP_GET_ROSTER = ascii ''get-roster''"
definition OP_GET_KEYSLOT :: bytes where "OP_GET_KEYSLOT = ascii ''get-keyslot''"
definition OP_PAIR_PUT :: bytes where "OP_PAIR_PUT = ascii ''pair-put''"
definition OP_PAIR_GET :: bytes where "OP_PAIR_GET = ascii ''pair-get''"
definition OP_GET_ROSTER_KEYHIST :: bytes where "OP_GET_ROSTER_KEYHIST = ascii ''get-roster-keyhist''"
definition OP_GET_KEYHIST :: bytes where "OP_GET_KEYHIST = ascii ''get-keyhist''"

lemmas op_labels = OP_PUT_def OP_CAS_HEAD_def OP_ROSTER_BATCH_def OP_PRUNE_def OP_GET_def OP_HAS_def
  OP_GET_REF_def OP_GET_ROSTER_def OP_GET_KEYSLOT_def OP_PAIR_PUT_def OP_PAIR_GET_def
  OP_GET_ROSTER_KEYHIST_def OP_GET_KEYHIST_def

definition args :: "crypto \<Rightarrow> bytes \<Rightarrow> (writer \<Rightarrow> writer) \<Rightarrow> bytes option" where
  "args cr op_label flds =
     map_option (hash cr) (Writer_finish (flds (Writer_bytes op_label Writer_new)))"

definition args_read :: "crypto \<Rightarrow> bytes \<Rightarrow> bytes list \<Rightarrow> bytes option" where
  "args_read cr op_label ids =
     args cr op_label (writes [Writer_u64 (of_nat (length ids)), fold Writer_raw ids])"

text \<open>\<open>sort_unstable\<close> followed by \<open>dedup\<close>.\<close>

definition sort_dedup :: "'a::linorder list \<Rightarrow> 'a list" where
  "sort_dedup xs = remdups_adj (sort xs)"

definition all_heads_hash :: "crypto \<Rightarrow> (bytes \<times> bytes) list \<Rightarrow> bytes" where
  "all_heads_hash cr heads =
     (let sorted = sort_dedup heads
      in hash cr (the (Writer_finish
           (writes [Writer_u64 (of_nat (length sorted)),
              fold (\<lambda>(ref_h, h). writes [Writer_raw ref_h, Writer_raw h]) sorted] Writer_new))))"

definition dead_set_hash :: "crypto \<Rightarrow> bytes list \<Rightarrow> bytes" where
  "dead_set_hash cr ids =
     (let sorted = sort_dedup ids
      in hash cr (the (Writer_finish
           (writes [Writer_u64 (of_nat (length sorted)), fold Writer_raw sorted] Writer_new))))"

definition args_prune :: "crypto \<Rightarrow> bytes \<Rightarrow> bytes \<Rightarrow> u64 \<Rightarrow> bytes option" where
  "args_prune cr dsh ahh rlen =
     map_option (hash cr) (Writer_finish
       (writes [Writer_bytes OP_PRUNE, Writer_raw dsh, Writer_raw ahh, Writer_u64 rlen] Writer_new))"

definition with_label :: "bytes \<Rightarrow> bool \<Rightarrow> bytes option \<Rightarrow> (bytes \<times> bytes \<times> bool) option" where
  "with_label op_label is_write h = map_option (\<lambda>h. (op_label, h, is_write)) h"

fun op_and_args :: "crypto \<Rightarrow> request \<Rightarrow> (bytes \<times> bytes \<times> bool) option" where
  "op_and_args cr (Get i) = with_label OP_GET False (args_read cr OP_GET [i])"
| "op_and_args cr (Has ids) = with_label OP_HAS False (args_read cr OP_HAS ids)"
| "op_and_args cr (GetRef ref_h) = with_label OP_GET_REF False (args_read cr OP_GET_REF [ref_h])"
| "op_and_args cr (GetRosterEntry sq) =
     with_label OP_GET_ROSTER False (args cr OP_GET_ROSTER (Writer_u64 sq))"
| "op_and_args cr (GetKeyslot device_id g) =
     with_label OP_GET_KEYSLOT False (args cr OP_GET_KEYSLOT (writes [Writer_raw device_id, Writer_u32 g]))"
| "op_and_args cr (GetRosterKeyhist g) =
     with_label OP_GET_ROSTER_KEYHIST False (args cr OP_GET_ROSTER_KEYHIST (Writer_u32 g))"
| "op_and_args cr (GetKeyhist g) =
     with_label OP_GET_KEYHIST False (args cr OP_GET_KEYHIST (Writer_u32 g))"
| "op_and_args cr (Prune dead ahh rlen) =
     with_label OP_PRUNE True (args_prune cr (dead_set_hash cr dead) ahh rlen)"
| "op_and_args cr (Put i declared_size push_id blob) =
     with_label OP_PUT True
       (args cr OP_PUT (writes [Writer_raw i, Writer_u32 declared_size, Writer_raw push_id]))"
| "op_and_args cr (CasHead ref_h old_head new_head promote new_blob) =
     with_label OP_CAS_HEAD True
       (args cr OP_CAS_HEAD
          (writes [Writer_raw ref_h, Writer_raw old_head, Writer_raw new_head, Writer_raw promote]))"
| "op_and_args cr (RosterBatch t es ks kh rkh rv h) =
     Option.bind (Request_encode (RosterBatch t es ks kh rkh rv h)) (\<lambda>b.
       with_label OP_ROSTER_BATCH True (args cr OP_ROSTER_BATCH (Writer_raw (hash cr b))))"
| "op_and_args cr (PairPut slot blob) =
     with_label OP_PAIR_PUT False (args cr OP_PAIR_PUT (Writer_raw slot))"
| "op_and_args cr (PairGet slot) =
     with_label OP_PAIR_GET False (args cr OP_PAIR_GET (Writer_raw slot))"

datatype proto_error = BadSignature | ProtoSig sig_error

record write_auth =
  wa_op :: bytes
  wa_args_hash :: bytes
  wa_session_transcript :: bytes
  wa_server_nonce :: bytes

record read_auth =
  ra_op :: bytes
  ra_args_hash :: bytes
  ra_session_transcript :: bytes

definition WriteAuth_message :: "write_auth \<Rightarrow> bytes option" where
  "WriteAuth_message a =
     Writer_finish (writes [Writer_bytes (wa_op a), Writer_raw (wa_args_hash a),
       Writer_raw (wa_session_transcript a), Writer_raw (wa_server_nonce a)] Writer_new)"

definition ReadAuth_message :: "read_auth \<Rightarrow> bytes option" where
  "ReadAuth_message a =
     Writer_finish (writes [Writer_bytes (ra_op a), Writer_raw (ra_args_hash a),
       Writer_raw (ra_session_transcript a)] Writer_new)"

definition WriteAuth_sign :: "ssh \<Rightarrow> bytes \<Rightarrow> write_auth \<Rightarrow> (proto_error + bytes) option" where
  "WriteAuth_sign ss sk a =
     map_option (\<lambda>m. map_err ProtoSig (DeviceKey_sign ss sk NS_WRITE m)) (WriteAuth_message a)"

definition WriteAuth_verify :: "ssh \<Rightarrow> bytes \<Rightarrow> bytes \<Rightarrow> write_auth \<Rightarrow> (proto_error + unit) option" where
  "WriteAuth_verify ss pk sg a =
     map_option (\<lambda>m. map_err (\<lambda>_. BadSignature) (DevicePublic_verify ss pk NS_WRITE m sg)) (WriteAuth_message a)"

definition ReadAuth_sign :: "ssh \<Rightarrow> bytes \<Rightarrow> read_auth \<Rightarrow> (proto_error + bytes) option" where
  "ReadAuth_sign ss sk a =
     map_option (\<lambda>m. map_err ProtoSig (DeviceKey_sign ss sk NS_READ m)) (ReadAuth_message a)"

definition ReadAuth_verify :: "ssh \<Rightarrow> bytes \<Rightarrow> bytes \<Rightarrow> read_auth \<Rightarrow> (proto_error + unit) option" where
  "ReadAuth_verify ss pk sg a =
     map_option (\<lambda>m. map_err (\<lambda>_. BadSignature) (DevicePublic_verify ss pk NS_READ m sg)) (ReadAuth_message a)"

section \<open>What the argument hash binds\<close>

text \<open>
  The part of a request its signature covers: the blob of a put and of a pairing post, and the head
  blob of a swap, are not in the hash (the swap signs the head's own hash instead), and the dead
  set of a prune is covered as a set.
\<close>

fun signed_part :: "request \<Rightarrow> request" where
  "signed_part (Put i n p b) = Put i n p []"
| "signed_part (CasHead h old new p b) = CasHead h old new p []"
| "signed_part (Prune dead ahh l) = Prune (sort_dedup dead) ahh l"
| "signed_part (PairPut slot b) = PairPut slot []"
| "signed_part req = req"

fun op_of :: "request \<Rightarrow> bytes" where
  "op_of (Get _) = OP_GET"
| "op_of (Has _) = OP_HAS"
| "op_of (Put _ _ _ _) = OP_PUT"
| "op_of (CasHead _ _ _ _ _) = OP_CAS_HEAD"
| "op_of (RosterBatch _ _ _ _ _ _ _) = OP_ROSTER_BATCH"
| "op_of (GetRef _) = OP_GET_REF"
| "op_of (GetRosterEntry _) = OP_GET_ROSTER"
| "op_of (GetKeyslot _ _) = OP_GET_KEYSLOT"
| "op_of (Prune _ _ _) = OP_PRUNE"
| "op_of (GetRosterKeyhist _) = OP_GET_ROSTER_KEYHIST"
| "op_of (GetKeyhist _) = OP_GET_KEYHIST"
| "op_of (PairPut _ _) = OP_PAIR_PUT"
| "op_of (PairGet _) = OP_PAIR_GET"

text \<open>The bytes hashed after the label.\<close>

fun arg_bytes :: "crypto \<Rightarrow> request \<Rightarrow> bytes" where
  "arg_bytes cr (Get i) = le_bytes 8 (1 :: u64) @ i"
| "arg_bytes cr (Has ids) = le_bytes 8 (of_nat (length ids) :: u64) @ concat ids"
| "arg_bytes cr (GetRef h) = le_bytes 8 (1 :: u64) @ h"
| "arg_bytes cr (GetRosterEntry sq) = le_bytes 8 sq"
| "arg_bytes cr (GetKeyslot d g) = d @ le_bytes 4 g"
| "arg_bytes cr (GetRosterKeyhist g) = le_bytes 4 g"
| "arg_bytes cr (GetKeyhist g) = le_bytes 4 g"
| "arg_bytes cr (Prune dead ahh l) = dead_set_hash cr dead @ ahh @ le_bytes 8 l"
| "arg_bytes cr (Put i n p b) = i @ le_bytes 4 n @ p"
| "arg_bytes cr (CasHead h old new p b) = h @ old @ new @ p"
| "arg_bytes cr (RosterBatch t es ks kh rkh rv h) = hash cr (request_img (RosterBatch t es ks kh rkh rv h))"
| "arg_bytes cr (PairPut slot b) = slot"
| "arg_bytes cr (PairGet slot) = slot"

text \<open>The bytes of the inner hash, for the two requests that have one, and those of the outer hash.\<close>

fun inner_bytes :: "request \<Rightarrow> bytes" where
  "inner_bytes (RosterBatch t es ks kh rkh rv h) = request_img (RosterBatch t es ks kh rkh rv h)"
| "inner_bytes (Prune dead ahh l) = le_bytes 8 (of_nat (length (sort_dedup dead)) :: u64) @ concat (sort_dedup dead)"
| "inner_bytes _ = []"

definition outer_bytes :: "crypto \<Rightarrow> request \<Rightarrow> bytes" where
  "outer_bytes cr req = bytes_img (op_of req) @ arg_bytes cr req"

definition request_clash :: "crypto \<Rightarrow> request \<Rightarrow> request \<Rightarrow> bool" where
  "request_clash cr req req' \<longleftrightarrow>
     hash_clash cr (inner_bytes req) (inner_bytes req') \<or> hash_clash cr (outer_bytes cr req) (outer_bytes cr req')"

fun is_write :: "request \<Rightarrow> bool" where
  "is_write (Put _ _ _ _) = True"
| "is_write (CasHead _ _ _ _ _) = True"
| "is_write (RosterBatch _ _ _ _ _ _ _) = True"
| "is_write (Prune _ _ _) = True"
| "is_write _ = False"

lemma label_fits: "length (op_of req) \<le> u32_max"
  by (cases req) (simp_all add: op_labels ascii_def u32_max_def)

lemma op_and_args_eq:
  assumes "request_ok req"
  shows "op_and_args cr req = Some (op_of req, hash cr (bytes_img (op_of req) @ arg_bytes cr req), is_write req)"
  using label_fits [of req] assms
  by (cases req) (simp_all add: args_read_def args_def args_prune_def with_label_def Request_encode_ok
      del: request_img.simps)

lemma concat_inj_fixed:
  "concat xs = concat ys \<Longrightarrow> length xs = length ys \<Longrightarrow> \<forall>x \<in> set xs. length x = n \<Longrightarrow>
     \<forall>y \<in> set ys. length y = n \<Longrightarrow> xs = ys"
  by (rule concat_injective) (auto simp: set_zip)

lemma bytes_img_inj:
  assumes "bytes_img x @ a = bytes_img y @ b" "length x \<le> u32_max" "length y \<le> u32_max"
  shows "x = y \<and> a = b"
proof -
  have "take 4 (bytes_img x @ a) = take 4 (bytes_img y @ b)" using assms by simp
  then have "le_bytes 4 (of_nat (length x) :: u32) = le_bytes 4 (of_nat (length y) :: u32)"
    by (simp add: bytes_img_def)
  then have "length x = length y" using assms by (metis le_bytes_4_inj unat_of_nat_u32)
  with assms show ?thesis by (simp add: bytes_img_def)
qed

lemma sort_dedup_props: "set (sort_dedup xs) = set xs" "length (sort_dedup xs) \<le> length xs"
  using remdups_adj_length [of "sort xs"] by (simp_all add: sort_dedup_def)

lemma signed_part_cases:
  assumes ok: "request_ok req" "request_ok req'" and op: "op_of req = op_of req'"
    and a: "arg_bytes cr req = arg_bytes cr req'"
  shows "signed_part req = signed_part req' \<or> hash_clash cr (inner_bytes req) (inner_bytes req')"
proof (cases req)
  case (Has ids)
  then obtain ids' where r: "req' = Has ids'" using op by (cases req') (simp_all add: op_labels ascii_def)
  have b: "length ids < 2 ^ 64" "length ids' < 2 ^ 64"
    using ok Has r by (simp_all add: request_ok_simps MAX_HAS_IDS_def)
  from a Has r have "le_bytes 8 (of_nat (length ids) :: u64) = le_bytes 8 (of_nat (length ids') :: u64)"
    "concat ids = concat ids'" by auto
  with b have "length ids = length ids'" by (auto dest: le_bytes_of_nat_inj)
  with \<open>concat ids = concat ids'\<close> ok Has r have "ids = ids'"
    by (intro concat_inj_fixed [of _ _ 32]) (simp_all add: request_ok_simps list_all_iff)
  with Has r show ?thesis by simp
next
  case (RosterBatch t es ks kh rkh rv h)
  then obtain t' es' ks' kh' rkh' rv' h' where r: "req' = RosterBatch t' es' ks' kh' rkh' rv' h'"
    using op by (cases req') (simp_all add: op_labels ascii_def)
  from a have "hash cr (request_img req) = hash cr (request_img req')"
    unfolding RosterBatch r by (simp only: arg_bytes.simps)
  then have "hash_clash cr (request_img req) (request_img req') \<or> request_img req = request_img req'" by (rule hash_inj)
  moreover have "req = req'" if "request_img req = request_img req'"
    using that Request_decode_img ok by (metis sum.inject(2))
  moreover have "inner_bytes req = request_img req" "inner_bytes req' = request_img req'"
    unfolding RosterBatch r by (simp_all only: inner_bytes.simps)
  ultimately show ?thesis by auto
next
  case (Prune dead ahh l)
  then obtain dead' ahh' l' where r: "req' = Prune dead' ahh' l'"
    using op by (cases req') (simp_all add: op_labels ascii_def)
  from a Prune r have eq: "dead_set_hash cr dead = dead_set_hash cr dead'" "ahh = ahh'" "l = l'"
    using ok by (simp_all add: request_ok_simps le_bytes_8_inj dead_set_hash_def Let_def)
  let ?d = "sort_dedup dead" and ?d' = "sort_dedup dead'"
  have sz: "length ?d < 2 ^ 64" "length ?d' < 2 ^ 64"
    using sort_dedup_props(2) [of dead] sort_dedup_props(2) [of dead'] ok Prune r
    by (simp_all add: request_ok_simps MAX_HAS_IDS_def)
  have ids: "\<forall>x \<in> set ?d. length x = 32" "\<forall>x \<in> set ?d'. length x = 32"
    using ok Prune r by (simp_all add: sort_dedup_props request_ok_simps list_all_iff)
  have "?d = ?d'" if "le_bytes 8 (of_nat (length ?d) :: u64) @ concat ?d
      = le_bytes 8 (of_nat (length ?d') :: u64) @ concat ?d'"
    using that ids sz by (intro concat_inj_fixed [of _ _ 32]) (auto dest: le_bytes_of_nat_inj)
  moreover have "hash_clash cr (inner_bytes req) (inner_bytes req') \<or> inner_bytes req = inner_bytes req'"
    by (rule hash_inj) (use eq(1) Prune r in \<open>simp add: dead_set_hash_def Let_def\<close>)
  ultimately show ?thesis using eq(2,3) Prune r by auto
qed (use op a ok in \<open>cases req'; simp add: op_labels ascii_def request_ok_simps le_bytes_8_inj le_bytes_4_inj\<close>)+

section \<open>Properties\<close>

lemma signed_part_eq:
  assumes "signed_part req = signed_part req'"
  shows "req = req'
    \<or> (\<exists>i n p b b'. req = Put i n p b \<and> req' = Put i n p b')
    \<or> (\<exists>r old new p b b'. req = CasHead r old new p b \<and> req' = CasHead r old new p b')
    \<or> (\<exists>dead dead' ahh len. req = Prune dead ahh len \<and> req' = Prune dead' ahh len \<and> set dead = set dead')
    \<or> (\<exists>slot b b'. req = PairPut slot b \<and> req' = PairPut slot b')"
proof (cases req)
  case (Prune dead ahh len)
  with assms obtain dead' where r: "req' = Prune dead' ahh len" "sort_dedup dead = sort_dedup dead'" by (cases req') auto
  then have "set dead = set dead'" by (metis sort_dedup_props(1))
  with Prune r(1) show ?thesis by blast
qed (use assms in \<open>cases req'; simp\<close>)+

text \<open>
  C34: what the argument hash binds. If two well-formed requests have the same argument hash, then
  BLAKE3 collides on the bytes hashed for the two, or they have the same label and kind of
  authorization and are the same request but for what is not signed: the blob of a put (whose
  id, size and push id are signed), the blob of a pairing post (whose slot is signed), the order
  and repetition of a prune's dead ids, and the head blob of a swap, of which the signed new token leaves
  no choice when the blob hashes to it, as the server requires. A roster batch is bound as a whole.
\<close>

theorem op_and_args_binding:
  assumes "request_ok req" "request_ok req'"
    and "op_and_args cr req = Some (l, h, w)" "op_and_args cr req' = Some (l', h, w')"
  shows "request_clash cr req req' \<or> l = l' \<and> w = w' \<and>
    (req = req'
     \<or> (\<exists>i n p b b'. req = Put i n p b \<and> req' = Put i n p b')
     \<or> (\<exists>r old new p b b'. req = CasHead r old new p b \<and> req' = CasHead r old new p b'
          \<and> (hash cr b = new \<and> hash cr b' = new \<longrightarrow> b = b' \<or> hash_clash cr b b'))
     \<or> (\<exists>dead dead' ahh len. req = Prune dead ahh len \<and> req' = Prune dead' ahh len \<and> set dead = set dead')
     \<or> (\<exists>slot b b'. req = PairPut slot b \<and> req' = PairPut slot b'))"
proof -
  have h: "hash cr (outer_bytes cr req) = hash cr (outer_bytes cr req')"
    and l: "l = op_of req" "l' = op_of req'" "w = is_write req" "w' = is_write req'"
    using assms by (auto simp: op_and_args_eq outer_bytes_def)
  show ?thesis
  proof (cases "request_clash cr req req'")
    case False
    with h have "bytes_img (op_of req) @ arg_bytes cr req = bytes_img (op_of req') @ arg_bytes cr req'"
      using hash_inj [of cr "outer_bytes cr req" "outer_bytes cr req'"] by (auto simp: outer_bytes_def request_clash_def)
    then have e: "op_of req = op_of req'" "arg_bytes cr req = arg_bytes cr req'"
      using bytes_img_inj label_fits by blast+
    have w: "is_write req = is_write req'"
      using e(1) by (cases req; cases req') (simp_all add: op_labels ascii_def)
    from signed_part_cases [OF assms(1,2) e] False have "signed_part req = signed_part req'" by (auto simp: request_clash_def)
    moreover have "hash cr b = new \<and> hash cr b' = new \<longrightarrow> b = b' \<or> hash_clash cr b b'" for b b' new using hash_inj by metis
    ultimately show ?thesis using signed_part_eq [of req req'] l e(1) w by metis
  qed simp
qed

lemma dedup_example:
  "sort_dedup [replicate 32 1, replicate 32 2] = sort_dedup [replicate 32 2, replicate 32 (1 :: 8 word)]"
  by code_simp

theorem op_and_args_binding_witness:
  "\<exists>h. op_and_args toy_crypto (Prune [replicate 32 1, replicate 32 2] (replicate 32 3) 4) = Some (OP_PRUNE, h, True)
    \<and> op_and_args toy_crypto (Prune [replicate 32 2, replicate 32 1] (replicate 32 3) 4) = Some (OP_PRUNE, h, True)
    \<and> (request_clash toy_crypto (Prune [replicate 32 1, replicate 32 2] (replicate 32 3) 4) (Prune [replicate 32 2, replicate 32 1] (replicate 32 3) 4)
       \<or> set [replicate 32 1, replicate 32 2] = set [replicate 32 2, replicate 32 1 :: bytes])"
proof -
  let ?a = "Prune [replicate 32 1, replicate 32 2] (replicate 32 3) 4" and ?b = "Prune [replicate 32 2, replicate 32 1] (replicate 32 3) 4"
  have ok: "request_ok ?a" "request_ok ?b"
    by (simp_all add: request_ok_simps MAX_LIST_ELEMENTS_def MAX_HAS_IDS_def)
  have "dead_set_hash toy_crypto [replicate 32 1, replicate 32 2] = dead_set_hash toy_crypto [replicate 32 2, replicate 32 1]"
    by (simp add: dead_set_hash_def dedup_example)
  then have "arg_bytes toy_crypto ?a = arg_bytes toy_crypto ?b" by simp
  then obtain h where o: "op_and_args toy_crypto ?a = Some (OP_PRUNE, h, True)" "op_and_args toy_crypto ?b = Some (OP_PRUNE, h, True)"
    using op_and_args_eq [OF ok(1)] op_and_args_eq [OF ok(2)] by simp
  from op_and_args_binding [OF ok o] o show ?thesis by auto
qed

lemma auth_messages:
  "length (wa_op a) \<le> u32_max \<Longrightarrow> WriteAuth_message a =
     Some (bytes_img (wa_op a) @ wa_args_hash a @ wa_session_transcript a @ wa_server_nonce a)"
  "length (ra_op b) \<le> u32_max \<Longrightarrow> ReadAuth_message b =
     Some (bytes_img (ra_op b) @ ra_args_hash b @ ra_session_transcript b)"
  by (simp_all add: WriteAuth_message_def ReadAuth_message_def)

text \<open>
  A write signature is bound to one operation on one stream. The message a write signs
  determines the operation label, the argument hash, the session transcript and the server nonce.
\<close>

lemma write_auth_message_injective:
  assumes "WriteAuth_message a = Some m" "WriteAuth_message b = Some m"
    and "length (wa_args_hash a) = 32" "length (wa_args_hash b) = 32"
    and "length (wa_session_transcript a) = 32" "length (wa_session_transcript b) = 32"
  shows "a = b"
proof -
  have fits: "length (wa_op x) \<le> u32_max" if "WriteAuth_message x = Some m" for x
    using that by (auto simp: WriteAuth_message_def Writer_bytes_def Writer_raw_def split: if_splits)
  have "bytes_img (wa_op a) @ wa_args_hash a @ wa_session_transcript a @ wa_server_nonce a
      = bytes_img (wa_op b) @ wa_args_hash b @ wa_session_transcript b @ wa_server_nonce b"
    using assms(1,2) auth_messages(1) [OF fits [OF assms(1)]] auth_messages(1) [OF fits [OF assms(2)]]
    by simp
  with bytes_img_inj fits assms have "wa_op a = wa_op b"
    "wa_args_hash a @ wa_session_transcript a @ wa_server_nonce a
      = wa_args_hash b @ wa_session_transcript b @ wa_server_nonce b" by blast+
  with assms(3-6) show ?thesis by (simp add: write_auth.equality)
qed

definition toy_write_auth :: write_auth where
  "toy_write_auth = \<lparr>wa_op = OP_PUT, wa_args_hash = replicate 32 1, wa_session_transcript = replicate 32 2,
     wa_server_nonce = replicate 32 3\<rparr>"

lemma write_auth_message_injective_witness:
  "\<exists>m. WriteAuth_message toy_write_auth = Some m \<and> toy_write_auth = toy_write_auth"
proof -
  have "WriteAuth_message toy_write_auth \<noteq> None"
    by (simp add: auth_messages toy_write_auth_def OP_PUT_def ascii_def u32_max_def)
  then obtain m where m: "WriteAuth_message toy_write_auth = Some m" by blast
  from write_auth_message_injective [OF m m] m show ?thesis by (simp add: toy_write_auth_def)
qed

end
