(* ===== verification/Limits.thy ===== *)
theory Limits
  imports Sec_Prelude
begin

text \<open>
  \<open>crates/secsec-proto/src/server.rs\<close>: the server's enforcement policy, pure and
  clock-injected. Counters and times are \<open>u64\<close>s, modelled as \<open>nat\<close> with the saturation of
  the source written out. The lemmas bound what a token bucket grants over any sequence of
  takes, what a window counter records in any trailing window, and what a quota reserves.
\<close>

section \<open>Constants\<close>

definition SERVER_NONCE_TTL_SECS :: nat where "SERVER_NONCE_TTL_SECS = 60"
definition MAX_SIGCHAIN_ENTRIES_PER_CONN_PER_HOUR :: nat where
  "MAX_SIGCHAIN_ENTRIES_PER_CONN_PER_HOUR = 60"
definition MAX_TOTAL_SIGCHAIN :: nat where "MAX_TOTAL_SIGCHAIN = 10000"
definition WRITE_RATE_BYTES_PER_SEC :: nat where "WRITE_RATE_BYTES_PER_SEC = 100000000"
definition WRITE_BURST_BYTES :: nat where "WRITE_BURST_BYTES = 1024 * 1024 * 1024"
definition READ_RATE_BYTES_PER_SEC :: nat where "READ_RATE_BYTES_PER_SEC = 200000000"
definition CONN_RATE_PER_SEC :: nat where "CONN_RATE_PER_SEC = 10"
definition MAX_CONCURRENT_CONNS_PER_KEY :: nat where "MAX_CONCURRENT_CONNS_PER_KEY = 3"
definition MAX_CONNECTIONS :: nat where "MAX_CONNECTIONS = 256"
definition HOUR_SECS :: nat where "HOUR_SECS = 3600"

record limits =
  write_rate :: nat
  read_rate :: nat
  conn_rate_per_sec :: nat
  max_conns_per_key :: nat
  max_connections :: nat
  storage_cap :: nat

definition Limits_default :: limits where
  "Limits_default =
     \<lparr>write_rate = WRITE_RATE_BYTES_PER_SEC, read_rate = READ_RATE_BYTES_PER_SEC,
      conn_rate_per_sec = CONN_RATE_PER_SEC, max_conns_per_key = MAX_CONCURRENT_CONNS_PER_KEY,
      max_connections = MAX_CONNECTIONS, storage_cap = 0\<rparr>"

section \<open>Token bucket\<close>

record token_bucket =
  tb_capacity :: nat
  refill_per_sec :: nat
  tokens :: nat
  tb_last :: nat

definition TokenBucket_new :: "nat \<Rightarrow> nat \<Rightarrow> nat \<Rightarrow> token_bucket" where
  "TokenBucket_new capacity refill now =
     \<lparr>tb_capacity = capacity, refill_per_sec = refill, tokens = capacity, tb_last = now\<rparr>"

definition TokenBucket_refill :: "nat \<Rightarrow> token_bucket \<Rightarrow> token_bucket" where
  "TokenBucket_refill now b =
     (let elapsed = now - tb_last b
      in if 0 < elapsed then
           let added = sat_mul elapsed (refill_per_sec b)
           in b\<lparr>tokens := min (sat_add (tokens b) added) (tb_capacity b), tb_last := now\<rparr>
         else b)"

definition TokenBucket_try_take :: "nat \<Rightarrow> nat \<Rightarrow> token_bucket \<Rightarrow> bool \<times> token_bucket" where
  "TokenBucket_try_take amount now b =
     (let b = TokenBucket_refill now b
      in if amount \<le> tokens b then (True, b\<lparr>tokens := tokens b - amount\<rparr>) else (False, b))"

definition TokenBucket_is_full :: "nat \<Rightarrow> token_bucket \<Rightarrow> bool \<times> token_bucket" where
  "TokenBucket_is_full now b =
     (let b = TokenBucket_refill now b in (tokens b = tb_capacity b, b))"

section \<open>Window counter\<close>

record window_counter =
  wc_window :: nat
  wc_max :: nat
  wc_events :: "nat list"

definition WindowCounter_new :: "nat \<Rightarrow> nat \<Rightarrow> window_counter" where
  "WindowCounter_new window_secs mx = \<lparr>wc_window = window_secs, wc_max = mx, wc_events = []\<rparr>"

definition WindowCounter_prune :: "nat \<Rightarrow> window_counter \<Rightarrow> window_counter" where
  "WindowCounter_prune now w =
     w\<lparr>wc_events := dropWhile (\<lambda>front. sat_add front (wc_window w) \<le> now) (wc_events w)\<rparr>"

definition WindowCounter_try_record_n :: "nat \<Rightarrow> nat \<Rightarrow> window_counter \<Rightarrow> bool \<times> window_counter" where
  "WindowCounter_try_record_n now n w =
     (let w = WindowCounter_prune now w
      in if sat_add (length (wc_events w)) n \<le> wc_max w
         then (True, w\<lparr>wc_events := wc_events w @ replicate n now\<rparr>) else (False, w))"

definition WindowCounter_try_record :: "nat \<Rightarrow> window_counter \<Rightarrow> bool \<times> window_counter" where
  "WindowCounter_try_record now w = WindowCounter_try_record_n now 1 w"

definition WindowCounter_refund :: "nat \<Rightarrow> window_counter \<Rightarrow> window_counter" where
  "WindowCounter_refund n w = w\<lparr>wc_events := (butlast ^^ n) (wc_events w)\<rparr>"

definition WindowCounter_count :: "nat \<Rightarrow> window_counter \<Rightarrow> nat \<times> window_counter" where
  "WindowCounter_count now w =
     (let w = WindowCounter_prune now w in (length (wc_events w), w))"

section \<open>Storage quota\<close>

record storage_quota =
  sq_limit :: nat
  sq_used :: nat

definition StorageQuota_new :: "nat \<Rightarrow> storage_quota" where
  "StorageQuota_new lim = \<lparr>sq_limit = lim, sq_used = 0\<rparr>"

definition StorageQuota_try_add :: "nat \<Rightarrow> storage_quota \<Rightarrow> bool \<times> storage_quota" where
  "StorageQuota_try_add amount q =
     (case checked_add (sq_used q) amount of
        Some new \<Rightarrow> if new \<le> sq_limit q then (True, q\<lparr>sq_used := new\<rparr>) else (False, q)
      | None \<Rightarrow> (False, q))"

definition StorageQuota_release :: "nat \<Rightarrow> storage_quota \<Rightarrow> storage_quota" where
  "StorageQuota_release amount q = q\<lparr>sq_used := sq_used q - amount\<rparr>"

section \<open>The token bucket bounds the granted volume\<close>

text \<open>A run of takes \<open>(amount, now)\<close>, returning the amount granted in total.\<close>

fun bucket_run :: "(nat \<times> nat) list \<Rightarrow> token_bucket \<Rightarrow> nat \<times> token_bucket" where
  "bucket_run [] b = (0, b)"
| "bucket_run ((amount, now) # ops) b =
     (let (granted, b') = TokenBucket_try_take amount now b;
          (tot, b'') = bucket_run ops b'
      in ((if granted then amount else 0) + tot, b''))"

definition bucket_inv :: "token_bucket \<Rightarrow> bool" where
  "bucket_inv b \<longleftrightarrow> tokens b \<le> tb_capacity b"

lemma refill_inv: "bucket_inv b \<Longrightarrow> bucket_inv (TokenBucket_refill now b)"
  by (simp add: bucket_inv_def TokenBucket_refill_def Let_def)

lemma refill_frame [simp]:
  "tb_capacity (TokenBucket_refill now b) = tb_capacity b"
  "refill_per_sec (TokenBucket_refill now b) = refill_per_sec b"
  "tb_last (TokenBucket_refill now b) = max (tb_last b) now"
  by (auto simp: TokenBucket_refill_def Let_def)

lemma refill_tokens:
  "tokens (TokenBucket_refill now b)
     \<le> tokens b + refill_per_sec b * (max (tb_last b) now - tb_last b)"
proof -
  have "sat_add (tokens b) (sat_mul k (refill_per_sec b)) \<le> tokens b + refill_per_sec b * k" for k
    by (rule order_trans [OF sat_add_le(1)]) (simp add: mult.commute sat_mul_def)
  then show ?thesis
    by (auto simp: TokenBucket_refill_def Let_def max_def intro: min.coboundedI1)
qed

lemma try_take_frame:
  assumes "TokenBucket_try_take amount now b = (granted, b')"
  shows "tb_capacity b' = tb_capacity b" "refill_per_sec b' = refill_per_sec b"
    "tb_last b' = max (tb_last b) now"
    "(if granted then amount else 0) + tokens b' = tokens (TokenBucket_refill now b)"
  using assms by (auto simp: TokenBucket_try_take_def Let_def split: if_splits)

lemma try_take_inv: "bucket_inv b \<Longrightarrow> bucket_inv (snd (TokenBucket_try_take amount now b))"
  using refill_inv [of b now] by (auto simp: TokenBucket_try_take_def Let_def bucket_inv_def)

lemma bucket_run_conservation:
  "bucket_run ops b = (tot, b') \<Longrightarrow>
     tb_last b \<le> tb_last b' \<and>
     tot + tokens b' \<le> tokens b + refill_per_sec b * (tb_last b' - tb_last b)"
proof (induction ops arbitrary: b tot)
  case Nil
  then show ?case by simp
next
  case (Cons op ops)
  obtain amount now where op: "op = (amount, now)" by (cases op)
  obtain granted b1 where t: "TokenBucket_try_take amount now b = (granted, b1)"
    by (cases "TokenBucket_try_take amount now b")
  obtain rest where run: "bucket_run ops b1 = (rest, b')"
    and tot: "tot = (if granted then amount else 0) + rest"
    using Cons.prems op t by (auto split: prod.splits)
  from try_take_frame [OF t] have b1: "refill_per_sec b1 = refill_per_sec b"
    "tb_last b1 = max (tb_last b) now"
    "(if granted then amount else 0) + tokens b1
       \<le> tokens b + refill_per_sec b * (tb_last b1 - tb_last b)"
    using refill_tokens [of now b] by simp_all
  from Cons.IH [OF run] have ih: "tb_last b1 \<le> tb_last b'"
    "rest + tokens b' \<le> tokens b1 + refill_per_sec b * (tb_last b' - tb_last b1)"
    by (simp_all add: b1(1))
  have "refill_per_sec b * (tb_last b1 - tb_last b) + refill_per_sec b * (tb_last b' - tb_last b1)
      = refill_per_sec b * (tb_last b' - tb_last b)"
    using b1(2) ih(1) by (simp add: add_mult_distrib2 [symmetric])
  with b1(2,3) ih tot show ?case by auto
qed

lemma bucket_run_last:
  "bucket_run ops b = (tot, b') \<Longrightarrow> \<forall>op \<in> set ops. snd op \<le> T \<Longrightarrow> tb_last b \<le> T \<Longrightarrow> tb_last b' \<le> T"
proof (induction ops arbitrary: b tot)
  case Nil
  then show ?case by simp
next
  case (Cons op ops)
  then show ?case
    by (cases op) (auto simp: try_take_frame(3) split: prod.splits)
qed

text \<open>
  C37: sustained-rate bound. Whatever takes are tried, with whatever clock readings up to time
  \<open>T\<close>, a bucket created at time \<open>t0\<close> with burst \<open>cap\<close> grants in total at most
  \<open>cap + rate * (T - t0)\<close>.
\<close>

theorem token_bucket_rate_bound:
  assumes "\<forall>op \<in> set ops. snd op \<le> T" and "t0 \<le> T"
  shows "fst (bucket_run ops (TokenBucket_new cap rate t0)) \<le> cap + rate * (T - t0)"
proof -
  obtain tot b' where run: "bucket_run ops (TokenBucket_new cap rate t0) = (tot, b')"
    by fastforce
  from bucket_run_conservation [OF run] have "tot \<le> cap + rate * (tb_last b' - t0)"
    by (simp add: TokenBucket_new_def)
  moreover have "tb_last b' \<le> T"
    using bucket_run_last [OF run assms(1)] assms(2) by (simp add: TokenBucket_new_def)
  then have "rate * (tb_last b' - t0) \<le> rate * (T - t0)"
    by (intro mult_le_mono2) simp
  ultimately show ?thesis unfolding run fst_conv by (rule order_trans [OF _ add_left_mono])
qed

theorem token_bucket_rate_bound_witness:
  "fst (bucket_run [(8, 0), (5, 1), (9, 7)] (TokenBucket_new 10 2 0)) \<le> 10 + 2 * (7 - 0)"
  by (rule token_bucket_rate_bound) auto

section \<open>The window counter bounds every trailing window\<close>

text \<open>A run of \<open>try_record_n\<close> calls \<open>(now, n)\<close> with the log of every recorded event.\<close>

fun window_run :: "(nat \<times> nat) list \<Rightarrow> window_counter \<times> nat list \<Rightarrow> window_counter \<times> nat list" where
  "window_run [] s = s"
| "window_run ((now, n) # ops) (w, log) =
     (let (granted, w') = WindowCounter_try_record_n now n w
      in window_run ops (w', if granted then log @ replicate n now else log))"

text \<open>The events of the log in the trailing window that ends at \<open>x\<close>.\<close>

definition trailing :: "nat \<Rightarrow> nat \<Rightarrow> nat list \<Rightarrow> nat list" where
  "trailing window x log = filter (\<lambda>t. t \<le> x \<and> x < t + window) log"

definition window_inv :: "nat \<Rightarrow> window_counter \<times> nat list \<Rightarrow> bool" where
  "window_inv T s \<longleftrightarrow>
     sorted (snd s) \<and> (\<forall>t \<in> set (snd s). t \<le> T) \<and>
     (\<exists>pre. snd s = pre @ wc_events (fst s) \<and> (\<forall>t \<in> set pre. t + wc_window (fst s) \<le> T)) \<and>
     (\<forall>x. length (trailing (wc_window (fst s)) x (snd s)) \<le> wc_max (fst s))"

lemma dropWhile_split:
  "\<exists>pre. xs = pre @ dropWhile P xs \<and> (\<forall>x \<in> set pre. P x)"
  by (metis set_takeWhileD takeWhile_dropWhile_id)

lemma window_inv_later: "window_inv T s \<Longrightarrow> T \<le> T' \<Longrightarrow> window_inv T' s"
  unfolding window_inv_def by (meson order_trans)

lemma prune_inv:
  assumes "window_inv now (w, log)" and "now < u64_max"
  shows "window_inv now (WindowCounter_prune now w, log)"
proof -
  from assms(1) obtain pre where pre: "log = pre @ wc_events w"
    "\<forall>t \<in> set pre. t + wc_window w \<le> now" by (auto simp: window_inv_def)
  obtain pre' where pre': "wc_events w = pre' @ wc_events (WindowCounter_prune now w)"
    "\<forall>t \<in> set pre'. sat_add t (wc_window w) \<le> now"
    using dropWhile_split [of "wc_events w" "\<lambda>front. sat_add front (wc_window w) \<le> now"]
    by (auto simp: WindowCounter_prune_def)
  have "\<forall>t \<in> set pre'. t + wc_window w \<le> now"
    using pre'(2) assms(2) by (auto simp: sat_add_def min_def split: if_splits)
  with pre pre' have "log = (pre @ pre') @ wc_events (WindowCounter_prune now w)"
    "\<forall>t \<in> set (pre @ pre'). t + wc_window w \<le> now" by auto
  moreover have "wc_window (WindowCounter_prune now w) = wc_window w"
    "wc_max (WindowCounter_prune now w) = wc_max w"
    by (simp_all add: WindowCounter_prune_def)
  ultimately show ?thesis
    using assms(1) unfolding window_inv_def by (metis fst_conv snd_conv)
qed

lemma trailing_append [simp]:
  "trailing wd x (l @ l') = trailing wd x l @ trailing wd x l'"
  by (simp add: trailing_def)

lemma trailing_expired: "\<forall>t \<in> set pre. t + wd \<le> x \<Longrightarrow> trailing wd x pre = []"
  by (auto simp: trailing_def filter_empty_conv)

lemma length_trailing_le: "length (trailing wd x l) \<le> length l"
  by (simp add: trailing_def)

lemma record_inv:
  assumes inv: "window_inv now (w, log)" and fit: "length (wc_events w) + n \<le> wc_max w"
  shows "window_inv now (w\<lparr>wc_events := wc_events w @ replicate n now\<rparr>, log @ replicate n now)"
proof -
  from inv obtain pre where pre: "log = pre @ wc_events w"
    "\<forall>t \<in> set pre. t + wc_window w \<le> now" and le: "\<forall>t \<in> set log. t \<le> now"
    and srt: "sorted log" and old: "\<And>x. length (trailing (wc_window w) x log) \<le> wc_max w"
    by (auto simp: window_inv_def)
  have "length (trailing (wc_window w) x (log @ replicate n now)) \<le> wc_max w" for x
  proof (cases "x < now")
    case True
    then have "trailing (wc_window w) x (replicate n now) = []"
      by (auto simp: trailing_def filter_empty_conv)
    with old [of x] show ?thesis by simp
  next
    case False
    with pre(2) have "trailing (wc_window w) x pre = []"
      by (intro trailing_expired) auto
    then show ?thesis
      using fit length_trailing_le [of "wc_window w" x "wc_events w @ replicate n now"]
      by (simp add: pre(1))
  qed
  moreover have "log @ replicate n now = pre @ (wc_events w @ replicate n now)"
    by (simp add: pre(1))
  ultimately show ?thesis
    using srt le pre(2) unfolding window_inv_def by (auto simp: sorted_append)
qed

lemma try_record_frame:
  "WindowCounter_try_record_n now n w = (g, w') \<Longrightarrow>
     wc_window w' = wc_window w \<and> wc_max w' = wc_max w"
  by (auto simp: WindowCounter_try_record_n_def WindowCounter_prune_def Let_def split: if_splits)

lemma try_record_inv:
  assumes "WindowCounter_try_record_n now n w = (g, w')"
    and "window_inv now (w, log)" "now < u64_max" "wc_max w < u64_max"
  shows "window_inv now (w', if g then log @ replicate n now else log)"
proof -
  let ?p = "WindowCounter_prune now w"
  have p: "window_inv now (?p, log)" using prune_inv [OF assms(2,3)] .
  have "wc_max ?p = wc_max w" by (simp add: WindowCounter_prune_def)
  with assms(1,4) consider
      "g" "w' = ?p\<lparr>wc_events := wc_events ?p @ replicate n now\<rparr>"
      "length (wc_events ?p) + n \<le> wc_max ?p"
    | "\<not> g" "w' = ?p"
    by (auto simp: WindowCounter_try_record_n_def Let_def sat_add_def min_def split: if_splits)
  then show ?thesis using p record_inv [OF p] by cases auto
qed

lemma window_run_inv:
  "sorted (map fst ops) \<Longrightarrow> \<forall>op \<in> set ops. T \<le> fst op \<and> fst op < u64_max \<Longrightarrow>
   wc_max w < u64_max \<Longrightarrow> window_inv T (w, log) \<Longrightarrow>
   \<exists>T' w' log'. window_run ops (w, log) = (w', log') \<and> window_inv T' (w', log')
     \<and> wc_window w' = wc_window w \<and> wc_max w' = wc_max w"
proof (induction ops arbitrary: w log T)
  case Nil
  then show ?case by auto
next
  case (Cons op ops)
  obtain now n where op: "op = (now, n)" by (cases op)
  obtain g w1 where t: "WindowCounter_try_record_n now n w = (g, w1)"
    by (cases "WindowCounter_try_record_n now n w")
  let ?log = "if g then log @ replicate n now else log"
  have "window_inv now (w, log)"
    using Cons.prems(2,4) op by (auto intro: window_inv_later)
  with t Cons.prems(2,3) op have "window_inv now (w1, ?log)"
    by (intro try_record_inv) auto
  moreover from try_record_frame [OF t] have w1: "wc_window w1 = wc_window w" "wc_max w1 = wc_max w"
    by simp_all
  moreover have "sorted (map fst ops)" "\<forall>op \<in> set ops. now \<le> fst op \<and> fst op < u64_max"
    using Cons.prems(1,2) op by auto
  ultimately show ?case
    using Cons.IH [of now w1 ?log] Cons.prems(3) op t by auto
qed

text \<open>
  The window cap holds in every trailing window. Over any run of \<open>try_record_n\<close> calls with
  a clock that does not go backwards, however the calls were spaced and whichever were
  refused, no window of \<open>window\<close> seconds ever contains more than \<open>max\<close> recorded events.
\<close>

lemma window_counter_bound:
  assumes "sorted (map fst ops)" and "\<forall>op \<in> set ops. fst op < u64_max" and "mx < u64_max"
  shows "length (trailing wd x (snd (window_run ops (WindowCounter_new wd mx, [])))) \<le> mx"
proof -
  have "window_inv 0 (WindowCounter_new wd mx, [])"
    by (simp add: window_inv_def WindowCounter_new_def trailing_def)
  then obtain T' w' log' where "window_run ops (WindowCounter_new wd mx, []) = (w', log')"
    "window_inv T' (w', log')" "wc_window w' = wd" "wc_max w' = mx"
    using window_run_inv [of ops 0 "WindowCounter_new wd mx" "[]"] assms
    by (auto simp: WindowCounter_new_def)
  then show ?thesis by (auto simp: window_inv_def)
qed

lemma window_counter_bound_witness:
  "length (trailing 10 12 (snd (window_run [(1, 2), (5, 1), (12, 2)] (WindowCounter_new 10 3, [])))) \<le> 3"
  by (rule window_counter_bound) (auto simp: u64_max_def)

section \<open>The quota never exceeds its limit\<close>

definition quota_inv :: "storage_quota \<Rightarrow> bool" where
  "quota_inv q \<longleftrightarrow> sq_used q \<le> sq_limit q"

lemma quota_new_inv: "quota_inv (StorageQuota_new lim)"
  by (simp add: quota_inv_def StorageQuota_new_def)

lemma quota_add_inv: "quota_inv q \<Longrightarrow> quota_inv (snd (StorageQuota_try_add n q))"
  by (auto simp: quota_inv_def StorageQuota_try_add_def split: option.splits)

lemma quota_release_inv: "quota_inv q \<Longrightarrow> quota_inv (StorageQuota_release n q)"
  by (simp add: quota_inv_def StorageQuota_release_def)

end
