(* ===== verification/Server.thy ===== *)
theory Server
  imports Proto Store Limits
begin

text \<open>
  \<open>crates/secsec-server/src/lib.rs\<close>: the per-operation request handler. The server's state is its
  store and its rate-limit state; a store call may fail at any point, which the parameter \<open>fault\<close>
  decides per call of a request (a failed transaction leaves the tables as they were). The outer
  \<open>None\<close> is a panic. The lemmas show which requests reach the store, what they may change, and that
  the limits hold.
\<close>

section \<open>State\<close>

definition PAIR_TTL_SECS :: nat where "PAIR_TTL_SECS = 600"
definition MAX_PAIR_SLOTS :: nat where "MAX_PAIR_SLOTS = 256"

record issued_nonce =
  in_nonce :: bytes
  issued_at :: nat

record incoming =
  inc_pubkey :: bytes
  inc_request :: request
  inc_op_sig :: bytes
  inc_session_transcript :: bytes
  inc_server_nonce :: "issued_nonce option"

record server_state =
  write_buckets :: "(bytes, token_bucket) btree"
  read_buckets :: "(bytes, token_bucket) btree"
  quotas :: "(bytes, storage_quota) btree"
  sigchain_calls :: "(bytes, window_counter) btree"
  pairing :: "(bytes, bytes \<times> nat) btree"
  conn_counts :: "(bytes, u32) btree"
  open_conns :: nat

definition ServerState_default :: server_state where
  "ServerState_default = \<lparr>write_buckets = [], read_buckets = [], quotas = [], sigchain_calls = [],
     pairing = [], conn_counts = [], open_conns = 0\<rparr>"

record server =
  sv_store :: store
  sv_state :: server_state
  sv_limits :: limits

definition Server_new :: "store \<Rightarrow> server" where
  "Server_new st = \<lparr>sv_store = st, sv_state = ServerState_default, sv_limits = Limits_default\<rparr>"

definition with_limits :: "limits \<Rightarrow> server \<Rightarrow> server" where
  "with_limits limits sv = sv\<lparr>sv_limits := limits\<rparr>"

definition entry_or :: "'k \<Rightarrow> 'v \<Rightarrow> ('k, 'v) btree \<Rightarrow> 'v" where
  "entry_or k v m = (case map_of m k of Some x \<Rightarrow> x | None \<Rightarrow> v)"

definition unexpired :: "nat \<Rightarrow> (bytes, bytes \<times> nat) btree \<Rightarrow> (bytes, bytes \<times> nat) btree" where
  "unexpired now m = filter (\<lambda>(_, (_, ex)). now < ex) m"

text \<open>The addition of the lifetime is checked; \<open>None\<close> is its overflow panic.\<close>

definition pair_put :: "bytes \<Rightarrow> bytes \<Rightarrow> nat \<Rightarrow> server_state \<Rightarrow> (bool \<times> server_state) option" where
  "pair_put slot blob now s =
     (let s = s\<lparr>pairing := unexpired now (pairing s)\<rparr>
      in if MAX_PAIR_SLOTS \<le> length (pairing s) \<and> map_of (pairing s) slot = None then Some (False, s)
         else map_option (\<lambda>ex. (True, s\<lparr>pairing := bt_insert slot (blob, ex) (pairing s)\<rparr>))
                (checked_add now PAIR_TTL_SECS))"

definition pair_take :: "bytes \<Rightarrow> nat \<Rightarrow> server_state \<Rightarrow> bytes option \<times> server_state" where
  "pair_take slot now s =
     (let m = unexpired now (pairing s)
      in (map_option fst (map_of m slot), s\<lparr>pairing := bt_remove slot m\<rparr>))"

definition state_take_write :: "bytes \<Rightarrow> nat \<Rightarrow> nat \<Rightarrow> nat \<Rightarrow> server_state \<Rightarrow> bool \<times> server_state" where
  "state_take_write d n now rate s =
     (let (ok, b) = TokenBucket_try_take n now
            (entry_or d (TokenBucket_new WRITE_BURST_BYTES rate now) (write_buckets s))
      in (ok, s\<lparr>write_buckets := bt_insert d b (write_buckets s)\<rparr>))"

definition state_take_read :: "bytes \<Rightarrow> nat \<Rightarrow> nat \<Rightarrow> nat \<Rightarrow> server_state \<Rightarrow> bool \<times> server_state" where
  "state_take_read d n now rate s =
     (let (ok, b) = TokenBucket_try_take n now
            (entry_or d (TokenBucket_new WRITE_BURST_BYTES rate now) (read_buckets s))
      in (ok, s\<lparr>read_buckets := bt_insert d b (read_buckets s)\<rparr>))"

definition sigchain_record :: "bytes \<Rightarrow> nat \<Rightarrow> nat \<Rightarrow> server_state \<Rightarrow> bool \<times> server_state" where
  "sigchain_record d n now s =
     (let (ok, w) = WindowCounter_try_record_n now n
            (entry_or d (WindowCounter_new HOUR_SECS MAX_SIGCHAIN_ENTRIES_PER_CONN_PER_HOUR)
               (sigchain_calls s))
      in (ok, s\<lparr>sigchain_calls := bt_insert d w (sigchain_calls s)\<rparr>))"

definition sigchain_refund :: "bytes \<Rightarrow> nat \<Rightarrow> server_state \<Rightarrow> server_state" where
  "sigchain_refund d n s =
     (case map_of (sigchain_calls s) d of
        None \<Rightarrow> s
      | Some w \<Rightarrow> s\<lparr>sigchain_calls := bt_insert d (WindowCounter_refund n w) (sigchain_calls s)\<rparr>)"

definition add_quota :: "bytes \<Rightarrow> nat \<Rightarrow> nat \<Rightarrow> server_state \<Rightarrow> bool \<times> server_state" where
  "add_quota d n cap s =
     (if cap = 0 then (True, s)
      else let (ok, q) = StorageQuota_try_add n (entry_or d (StorageQuota_new cap) (quotas s))
           in (ok, s\<lparr>quotas := bt_insert d q (quotas s)\<rparr>))"

definition release_quota :: "bytes \<Rightarrow> nat \<Rightarrow> server_state \<Rightarrow> server_state" where
  "release_quota d n s =
     (case map_of (quotas s) d of
        None \<Rightarrow> s
      | Some q \<Rightarrow> s\<lparr>quotas := bt_insert d (StorageQuota_release n q) (quotas s)\<rparr>)"

text \<open>\<open>retain\<close> with a predicate that also updates the value it keeps.\<close>

definition retain_upd :: "('v \<Rightarrow> bool \<times> 'v) \<Rightarrow> ('k, 'v) btree \<Rightarrow> ('k, 'v) btree" where
  "retain_upd f m = map (\<lambda>(k, v). (k, snd (f v))) (filter (\<lambda>(k, v). fst (f v)) m)"

definition sweep_idle :: "nat \<Rightarrow> server_state \<Rightarrow> server_state" where
  "sweep_idle now s =
     s\<lparr>write_buckets := retain_upd (\<lambda>b. let (full, b') = TokenBucket_is_full now b in (\<not> full, b')) (write_buckets s),
       read_buckets := retain_upd (\<lambda>b. let (full, b') = TokenBucket_is_full now b in (\<not> full, b')) (read_buckets s),
       sigchain_calls := retain_upd (\<lambda>w. let (n, w') = WindowCounter_count now w in (0 < n, w')) (sigchain_calls s),
       pairing := unexpired now (pairing s)\<rparr>"

section \<open>The connection allow-list\<close>

text \<open>
  \<open>Unicode White_Space\<close>, for \<open>str::trim\<close>; \<open>lines\<close> splits at line feeds, and the carriage return it
  may leave or drop before one is white space.
\<close>

definition white_space :: "nat \<Rightarrow> bool" where
  "white_space c \<longleftrightarrow> c \<in> {9, 10, 11, 12, 13, 32, 0x85, 0xa0, 0x1680, 0x2028, 0x2029, 0x202f, 0x205f, 0x3000}
     \<or> 0x2000 \<le> c \<and> c \<le> 0x200a"

definition trim :: "nat list \<Rightarrow> nat list" where
  "trim s = rev (dropWhile white_space (rev (dropWhile white_space s)))"

fun split_lines :: "nat list \<Rightarrow> nat list \<Rightarrow> nat list list" where
  "split_lines acc [] = [rev acc]"
| "split_lines acc (c # cs) = (if c = 10 then rev acc # split_lines [] cs else split_lines (c # acc) cs)"

definition authorized_line :: "crypto \<Rightarrow> ssh \<Rightarrow> nat list \<Rightarrow> bytes option" where
  "authorized_line cr ss line =
     (let line = trim line
      in if line = [] \<or> hd line = 35 then None
         else case rbind (DevicePublic_from_openssh ss line) (device_id_of cr ss) of
                Inl _ \<Rightarrow> None | Inr i \<Rightarrow> Some i)"

definition parse_authorized_keys :: "crypto \<Rightarrow> ssh \<Rightarrow> nat list \<Rightarrow> bytes list" where
  "parse_authorized_keys cr ss body =
     fold (\<lambda>line s. case authorized_line cr ss line of None \<Rightarrow> s | Some i \<Rightarrow> insort_insert i s)
       (split_lines [] body) []"

text \<open>
  What the file system answers: no metadata, or a stamp (modification time, length) and a body that
  may be unreadable.
\<close>

type_synonym auth_stamp = "nat option \<times> nat"

datatype authorized = AnyKey | KeyFile "(auth_stamp \<times> bytes list) option"

definition is_authorized ::
    "crypto \<Rightarrow> ssh \<Rightarrow> (auth_stamp \<times> nat list option) option \<Rightarrow> bytes \<Rightarrow> authorized \<Rightarrow> bool \<times> authorized" where
  "is_authorized cr ss file device_id a =
     (case a of
        AnyKey \<Rightarrow> (True, a)
      | KeyFile cache \<Rightarrow>
          (case file of
             None \<Rightarrow> (False, a)
           | Some (stamp, body) \<Rightarrow>
               if map_option fst cache \<noteq> Some stamp then
                 (case body of
                    None \<Rightarrow> (False, KeyFile None)
                  | Some b \<Rightarrow>
                      let s = parse_authorized_keys cr ss b
                      in (device_id \<in> set s, KeyFile (Some (stamp, s))))
               else (case cache of
                       None \<Rightarrow> (False, a)
                     | Some (_, s) \<Rightarrow> (device_id \<in> set s, a))))"

section \<open>Connections and housekeeping\<close>

definition reclaim :: "(nat \<Rightarrow> bool) \<Rightarrow> nat \<Rightarrow> nat \<Rightarrow> server \<Rightarrow> (unit + nat) \<times> server" where
  "reclaim fault now ttl_secs sv =
     (let sv = sv\<lparr>sv_state := sweep_idle now (sv_state sv)\<rparr>
      in if fault 0 then (Inl (), sv)
         else let (n, st) = reclaim_staging now ttl_secs (sv_store sv) in (Inr n, sv\<lparr>sv_store := st\<rparr>))"

definition take_write :: "bytes \<Rightarrow> nat \<Rightarrow> nat \<Rightarrow> server \<Rightarrow> bool \<times> server" where
  "take_write d n now sv =
     (let (ok, s) = state_take_write d n now (write_rate (sv_limits sv)) (sv_state sv)
      in (ok, sv\<lparr>sv_state := s\<rparr>))"

definition take_read :: "bytes \<Rightarrow> nat \<Rightarrow> nat \<Rightarrow> server \<Rightarrow> bool \<times> server" where
  "take_read d n now sv =
     (let (ok, s) = state_take_read d n now (read_rate (sv_limits sv)) (sv_state sv)
      in (ok, sv\<lparr>sv_state := s\<rparr>))"

text \<open>The increment of the count is checked; \<open>None\<close> is its overflow panic.\<close>

definition acquire_conn :: "bytes \<Rightarrow> server \<Rightarrow> (bool \<times> server) option" where
  "acquire_conn d sv =
     (let s = sv_state sv; n = entry_or d 0 (conn_counts s); mx = max_conns_per_key (sv_limits sv)
      in if mx \<le> unat n then Some (False, sv\<lparr>sv_state := s\<lparr>conn_counts := bt_insert d n (conn_counts s)\<rparr>\<rparr>)
         else if n = - 1 then None
         else Some (True, sv\<lparr>sv_state := s\<lparr>conn_counts := bt_insert d (n + 1) (conn_counts s)\<rparr>\<rparr>))"

definition release_conn :: "bytes \<Rightarrow> server \<Rightarrow> server" where
  "release_conn d sv =
     (let s = sv_state sv
      in case map_of (conn_counts s) d of
           None \<Rightarrow> sv
         | Some n \<Rightarrow>
             let n = (if n = 0 then 0 else n - 1)
             in sv\<lparr>sv_state := s\<lparr>conn_counts := (if n = 0 then bt_remove d (conn_counts s)
                                               else bt_insert d n (conn_counts s))\<rparr>\<rparr>)"

definition admit :: "server \<Rightarrow> bool \<times> server" where
  "admit sv =
     (let s = sv_state sv
      in if max_connections (sv_limits sv) \<le> open_conns s then (False, sv)
         else (True, sv\<lparr>sv_state := s\<lparr>open_conns := open_conns s + 1\<rparr>\<rparr>))"

definition Admission_drop :: "server \<Rightarrow> server" where
  "Admission_drop sv = sv\<lparr>sv_state := (sv_state sv)\<lparr>open_conns := open_conns (sv_state sv) - 1\<rparr>\<rparr>"

section \<open>The handler\<close>

definition st_try :: "(nat \<Rightarrow> bool) \<Rightarrow> nat \<Rightarrow> 'a \<Rightarrow> unit + 'a" where
  "st_try fault k x = (if fault k then Inl () else Inr x)"

definition read_charged :: "bytes \<Rightarrow> unit + bytes option \<Rightarrow> nat \<Rightarrow> server \<Rightarrow> response \<times> server" where
  "read_charged d blob now sv =
     (case blob of
        Inr b \<Rightarrow>
          let n = (case b of None \<Rightarrow> 0 | Some x \<Rightarrow> length x);
              (ok, sv) = take_read d n now sv
          in if \<not> ok then (RErr RateLimit, sv) else (RBlob b, sv)
      | Inl _ \<Rightarrow> (RErr Internal, sv))"

definition authorize :: "crypto \<Rightarrow> ssh \<Rightarrow> incoming \<Rightarrow> nat \<Rightarrow> (error_code + unit) option" where
  "authorize cr ss inc now =
     Option.bind (op_and_args cr (inc_request inc)) (\<lambda>(op_label, args_hash, is_wr).
       let verdict = map_option (\<lambda>r. case r of Inl _ \<Rightarrow> Inl BadAuth | Inr _ \<Rightarrow> Inr ())
       in if is_wr then
            (case inc_server_nonce inc of
               None \<Rightarrow> Some (Inl BadAuth)
             | Some n \<Rightarrow>
                 if now < issued_at n \<or> SERVER_NONCE_TTL_SECS \<le> now - issued_at n then Some (Inl BadAuth)
                 else verdict (WriteAuth_verify ss (inc_pubkey inc) (inc_op_sig inc)
                        \<lparr>wa_op = op_label, wa_args_hash = args_hash,
                         wa_session_transcript = inc_session_transcript inc, wa_server_nonce = in_nonce n\<rparr>))
          else verdict (ReadAuth_verify ss (inc_pubkey inc) (inc_op_sig inc)
                 \<lparr>ra_op = op_label, ra_args_hash = args_hash,
                  ra_session_transcript = inc_session_transcript inc\<rparr>))"

fun genesis_shape :: "bytes \<Rightarrow> request \<Rightarrow> bool" where
  "genesis_shape device_id (RosterBatch old_tip entries keyslots keyhist roster_keyhist revoke head) \<longleftrightarrow>
     old_tip = ABSENT_HEAD \<and> length entries = 1 \<and> length keyslots = 1
     \<and> ks_device_id (keyslots ! 0) = device_id \<and> keyhist = None \<and> roster_keyhist = None
     \<and> revoke = [] \<and> head = None"
| "genesis_shape _ _ \<longleftrightarrow> False"

definition is_genesis_batch :: "(nat \<Rightarrow> bool) \<Rightarrow> store \<Rightarrow> request \<Rightarrow> bytes \<Rightarrow> error_code + bool" where
  "is_genesis_batch fault st req device_id =
     (if \<not> genesis_shape device_id req then Inr False
      else map_err (\<lambda>_. Internal) (st_try fault 1 (roster_len st = 0)))"

definition handle_cas :: "crypto \<Rightarrow> (nat \<Rightarrow> bool) \<Rightarrow> bytes \<Rightarrow> bytes \<Rightarrow> bytes \<Rightarrow> bytes \<Rightarrow> bytes \<Rightarrow> bytes \<Rightarrow> nat
    \<Rightarrow> server \<Rightarrow> response \<times> server" where
  "handle_cas cr fault device_id ref_h old_head new_head promote new_blob now sv =
     (if hash cr new_blob \<noteq> new_head then (RErr BadRequest, sv) else
      let (ok, sv) = take_write device_id (length new_blob) now sv in
      if \<not> ok then (RErr RateLimit, sv) else
      case st_try fault 2 (staged_bytes (sv_store sv) promote) of
        Inl _ \<Rightarrow> (RErr Internal, sv)
      | Inr staged \<Rightarrow>
          let cap = storage_cap (sv_limits sv);
              (granted, s) = (if 0 < staged then add_quota device_id staged cap (sv_state sv)
                              else (True, sv_state sv));
              sv = sv\<lparr>sv_state := s\<rparr>
          in if 0 < staged \<and> \<not> granted then (RErr RateLimit, sv) else
             case st_try fault 3 (cas_ref cr ref_h old_head new_blob promote (sv_store sv)) of
               Inr (outcome, st) \<Rightarrow>
                 if swapped outcome then
                   let unused = staged - promoted_bytes outcome
                   in (ROk, sv\<lparr>sv_store := st, sv_state := release_quota device_id unused (sv_state sv)\<rparr>)
                 else (RErr CasConflict,
                   sv\<lparr>sv_store := st, sv_state := release_quota device_id staged (sv_state sv)\<rparr>)
             | Inl _ \<Rightarrow> (RErr Internal, sv\<lparr>sv_state := release_quota device_id staged (sv_state sv)\<rparr>))"

definition to_batch :: "bytes \<Rightarrow> bytes list \<Rightarrow> keyslot_put list \<Rightarrow> wrap \<Rightarrow> wrap \<Rightarrow> bytes list
    \<Rightarrow> head_put option \<Rightarrow> roster_batch_rec" where
  "to_batch old_tip entries keyslots keyhist roster_keyhist revoke head =
     \<lparr>rb_expected_tip = old_tip, rb_entries = entries,
      rb_keyslots = map (\<lambda>k. \<lparr>kw_device_id = ks_device_id k, kw_gen = ks_gen k, kw_blob = ks_blob k\<rparr>) keyslots,
      rb_keyhist = keyhist, rb_roster_keyhist = roster_keyhist, rb_revoke = revoke,
      rb_head = map_option (\<lambda>h. \<lparr>hs_ref_h = hp_ref_h h, hs_expected_old = hp_old_head h,
        hs_new_blob = hp_new_blob h\<rparr>) head\<rparr>"

definition handle_roster_batch :: "crypto \<Rightarrow> (nat \<Rightarrow> bool) \<Rightarrow> bytes \<Rightarrow> bytes \<Rightarrow> bytes list \<Rightarrow> keyslot_put list
    \<Rightarrow> wrap \<Rightarrow> wrap \<Rightarrow> bytes list \<Rightarrow> head_put option \<Rightarrow> nat \<Rightarrow> server \<Rightarrow> response \<times> server" where
  "handle_roster_batch cr fault device_id old_tip entries keyslots keyhist roster_keyhist revoke head now sv =
     (if entries = [] then (RErr BadRequest, sv) else
      let byts = sum_list (map length entries) + sum_list (map (\<lambda>k. length (ks_blob k)) keyslots)
            + (case head of None \<Rightarrow> 0 | Some h \<Rightarrow> length (hp_new_blob h));
          (ok, sv) = take_write device_id byts now sv in
      if \<not> ok then (RErr RateLimit, sv) else
      let n = length entries in
      case st_try fault 2 (roster_len (sv_store sv)) of
        Inl _ \<Rightarrow> (RErr Internal, sv)
      | Inr len \<Rightarrow>
          if MAX_TOTAL_SIGCHAIN < sat_add len n then (RErr RateLimit, sv) else
          let (rec_ok, s) = sigchain_record device_id n now (sv_state sv);
              sv = sv\<lparr>sv_state := s\<rparr> in
          if \<not> rec_ok then (RErr RateLimit, sv) else
          case st_try fault 3 (roster_batch cr
                 (to_batch old_tip entries keyslots keyhist roster_keyhist revoke head) (sv_store sv)) of
            Inr (Some _, st) \<Rightarrow> (ROk, sv\<lparr>sv_store := st\<rparr>)
          | Inr (None, st) \<Rightarrow>
              (RErr CasConflict, sv\<lparr>sv_store := st, sv_state := sigchain_refund device_id n (sv_state sv)\<rparr>)
          | Inl _ \<Rightarrow> (RErr Internal, sv\<lparr>sv_state := sigchain_refund device_id n (sv_state sv)\<rparr>))"

fun execute :: "crypto \<Rightarrow> (nat \<Rightarrow> bool) \<Rightarrow> bytes \<Rightarrow> request \<Rightarrow> nat \<Rightarrow> server \<Rightarrow> response \<times> server" where
  "execute cr fault device_id (Get i) now sv =
     read_charged device_id (st_try fault 2 (get (sv_store sv) i)) now sv"
| "execute cr fault device_id (GetRef ref_h) now sv =
     read_charged device_id (st_try fault 2 (get_ref (sv_store sv) ref_h)) now sv"
| "execute cr fault device_id (GetRosterEntry sq) now sv =
     read_charged device_id (st_try fault 2 (get_roster_entry (sv_store sv) (unat sq))) now sv"
| "execute cr fault device_id (GetKeyslot owner g) now sv =
     read_charged device_id (st_try fault 2 (get_keyslot (sv_store sv) owner g)) now sv"
| "execute cr fault device_id (GetRosterKeyhist g) now sv =
     read_charged device_id (st_try fault 2 (get_roster_keyhist (sv_store sv) g)) now sv"
| "execute cr fault device_id (GetKeyhist g) now sv =
     read_charged device_id (st_try fault 2 (get_keyhist (sv_store sv) g)) now sv"
| "execute cr fault device_id (Has ids) now sv =
     (if MAX_HAS_IDS < length ids then (RErr TooManyIds, sv) else
      let (ok, sv) = take_read device_id (length ids * 32) now sv in
      if \<not> ok then (RErr RateLimit, sv) else
      case st_try fault 2 (has (sv_store sv) ids) of
        Inr bits \<Rightarrow> (RExists bits, sv)
      | Inl _ \<Rightarrow> (RErr Internal, sv))"
| "execute cr fault device_id (Put i declared_size push_id blob) now sv =
     (if MAX_BLOB_SIZE < unat declared_size \<or> length blob \<noteq> unat declared_size then (RErr BadRequest, sv) else
      let (ok, sv) = take_write device_id (length blob) now sv in
      if \<not> ok then (RErr RateLimit, sv) else
      case st_try fault 2 (stage push_id i blob now (sv_store sv)) of
        Inr st \<Rightarrow> (ROk, sv\<lparr>sv_store := st\<rparr>)
      | Inl _ \<Rightarrow> (RErr Internal, sv))"
| "execute cr fault device_id (CasHead ref_h old_head new_head promote new_blob) now sv =
     handle_cas cr fault device_id ref_h old_head new_head promote new_blob now sv"
| "execute cr fault device_id (RosterBatch old_tip entries keyslots keyhist roster_keyhist revoke head) now sv =
     handle_roster_batch cr fault device_id old_tip entries keyslots keyhist roster_keyhist revoke head now sv"
| "execute cr fault device_id (Prune dead ahh rlen) now sv =
     (if MAX_HAS_IDS < length dead then (RErr TooManyIds, sv) else
      case st_try fault 2 (prune_if cr dead
             (\<lambda>refs len. all_heads_hash cr refs = ahh \<and> len = unat rlen) (sv_store sv)) of
        Inr (True, st) \<Rightarrow> (ROk, sv\<lparr>sv_store := st\<rparr>)
      | Inr (False, st) \<Rightarrow> (RErr CasConflict, sv\<lparr>sv_store := st\<rparr>)
      | Inl _ \<Rightarrow> (RErr Internal, sv))"
| "execute cr fault device_id (PairPut slot blob) now sv = (RErr Internal, sv)"
| "execute cr fault device_id (PairGet slot) now sv = (RErr Internal, sv)"

fun handle_pair :: "request \<Rightarrow> bytes \<Rightarrow> nat \<Rightarrow> server \<Rightarrow> (response \<times> server) option" where
  "handle_pair (PairPut slot blob) device_id now sv =
     (let (ok, sv) = take_write device_id (32 + length blob) now sv in
      if \<not> ok then Some (RErr RateLimit, sv) else
      map_option (\<lambda>(stored, s). (if stored then ROk else RErr RateLimit, sv\<lparr>sv_state := s\<rparr>))
        (pair_put slot blob now (sv_state sv)))"
| "handle_pair (PairGet slot) device_id now sv =
     (let (got, s) = pair_take slot now (sv_state sv);
          sv = sv\<lparr>sv_state := s\<rparr>;
          n = 32 + (case got of None \<Rightarrow> 0 | Some b \<Rightarrow> length b);
          (ok, sv) = take_read device_id n now sv in
      if \<not> ok then
        (case got of
           Some b \<Rightarrow> map_option (\<lambda>(_, s). (RErr RateLimit, sv\<lparr>sv_state := s\<rparr>)) (pair_put slot b now (sv_state sv))
         | None \<Rightarrow> Some (RErr RateLimit, sv))
      else Some (RBlob got, sv))"
| "handle_pair _ device_id now sv = Some (RErr Internal, sv)"

fun is_pair_request :: "request \<Rightarrow> bool" where
  "is_pair_request (PairPut _ _) = True"
| "is_pair_request (PairGet _) = True"
| "is_pair_request _ = False"

text \<open>Step (1): keyslot existence with the genesis exception.\<close>

definition enrollment_gate :: "(nat \<Rightarrow> bool) \<Rightarrow> store \<Rightarrow> request \<Rightarrow> bytes \<Rightarrow> error_code + unit" where
  "enrollment_gate fault st req device_id =
     (case st_try fault 0 (keyslot_exists st device_id) of
        Inr True \<Rightarrow> Inr ()
      | Inr False \<Rightarrow> rbind (is_genesis_batch fault st req device_id) (\<lambda>g.
          if g then Inr () else Inl NotEnrolled)
      | Inl _ \<Rightarrow> Inl Internal)"

definition handle :: "crypto \<Rightarrow> ssh \<Rightarrow> (nat \<Rightarrow> bool) \<Rightarrow> incoming \<Rightarrow> nat \<Rightarrow> server \<Rightarrow> (response \<times> server) option" where
  "handle cr ss fault inc now sv =
     (case device_id_of cr ss (inc_pubkey inc) of
        Inl _ \<Rightarrow> Some (RErr BadRequest, sv)
      | Inr device_id \<Rightarrow>
          if is_pair_request (inc_request inc) then
            Option.bind (authorize cr ss inc now) (\<lambda>a.
              case a of
                Inl c \<Rightarrow> Some (RErr c, sv)
              | Inr _ \<Rightarrow> handle_pair (inc_request inc) device_id now sv)
          else
            (case enrollment_gate fault (sv_store sv) (inc_request inc) device_id of
               Inl c \<Rightarrow> Some (RErr c, sv)
             | Inr _ \<Rightarrow>
                 Option.bind (authorize cr ss inc now) (\<lambda>a.
                   case a of
                     Inl c \<Rightarrow> Some (RErr c, sv)
                   | Inr _ \<Rightarrow> Some (execute cr fault device_id (inc_request inc) now sv))))"

section \<open>What an operation does to the store\<close>

text \<open>What the rate-limit operations leave alone.\<close>

lemma state_take_frame [simp]:
  "quotas (snd (state_take_write d n now r s)) = quotas s"
  "pairing (snd (state_take_write d n now r s)) = pairing s"
  "conn_counts (snd (state_take_write d n now r s)) = conn_counts s"
  "open_conns (snd (state_take_write d n now r s)) = open_conns s"
  "quotas (snd (state_take_read d n now r s)) = quotas s"
  "pairing (snd (state_take_read d n now r s)) = pairing s"
  "conn_counts (snd (state_take_read d n now r s)) = conn_counts s"
  "open_conns (snd (state_take_read d n now r s)) = open_conns s"
  by (simp_all add: state_take_write_def state_take_read_def Let_def case_prod_unfold)

lemma take_write_eq:
  "take_write d n now sv = (fst (take_write d n now sv),
     sv\<lparr>sv_state := snd (state_take_write d n now (write_rate (sv_limits sv)) (sv_state sv))\<rparr>)"
  by (simp add: take_write_def Let_def case_prod_unfold)

lemma take_read_eq:
  "take_read d n now sv = (fst (take_read d n now sv),
     sv\<lparr>sv_state := snd (state_take_read d n now (read_rate (sv_limits sv)) (sv_state sv))\<rparr>)"
  by (simp add: take_read_def Let_def case_prod_unfold)

lemma take_write_frame:
  assumes "take_write d n now sv = (ok, sv')"
  shows "sv_store sv' = sv_store sv" "sv_limits sv' = sv_limits sv"
    "quotas (sv_state sv') = quotas (sv_state sv)" "pairing (sv_state sv') = pairing (sv_state sv)"
    "conn_counts (sv_state sv') = conn_counts (sv_state sv)" "open_conns (sv_state sv') = open_conns (sv_state sv)"
  using assms by (auto simp: take_write_def Let_def case_prod_unfold)

lemma take_read_frame:
  assumes "take_read d n now sv = (ok, sv')"
  shows "sv_store sv' = sv_store sv" "sv_limits sv' = sv_limits sv"
    "quotas (sv_state sv') = quotas (sv_state sv)" "pairing (sv_state sv') = pairing (sv_state sv)"
    "conn_counts (sv_state sv') = conn_counts (sv_state sv)" "open_conns (sv_state sv') = open_conns (sv_state sv)"
  using assms by (auto simp: take_read_def Let_def case_prod_unfold)

lemma read_charged_cases:
  obtains c where "read_charged d b now sv = (RErr c, sv)"
  | n ok sv' where "take_read d n now sv = (ok, sv')" "snd (read_charged d b now sv) = sv'"
proof (cases b)
  case (Inl e)
  with that(1) show thesis by (simp add: read_charged_def)
next
  case (Inr x)
  let ?n = "case x of None \<Rightarrow> 0 | Some y \<Rightarrow> length y"
  obtain ok sv' where t: "take_read d ?n now sv = (ok, sv')" by fastforce
  with Inr that(2) [OF t] show thesis by (simp add: read_charged_def)
qed

lemma read_charged_store: "sv_store (snd (read_charged d b now sv)) = sv_store sv"
  by (rule read_charged_cases [of d b now sv]) (auto simp: take_read_frame)

lemma handle_pair_store: "handle_pair req d now sv = Some (resp, sv') \<Longrightarrow> sv_store sv' = sv_store sv"
proof (induction req d now sv rule: handle_pair.induct)
  case (1 slot blob d now sv)
  then show ?case
    by (subst (asm) handle_pair.simps, subst (asm) take_write_eq) (auto simp: Let_def split: if_splits)
next
  case (2 slot d now sv)
  obtain got s where t: "pair_take slot now (sv_state sv) = (got, s)" by fastforce
  obtain ok sv1 where r: "take_read d (32 + (case got of None \<Rightarrow> 0 | Some b \<Rightarrow> length b)) now (sv\<lparr>sv_state := s\<rparr>) = (ok, sv1)"
    by fastforce
  from 2 show ?case
    using take_read_frame(1) [OF r] by (auto simp: t r Let_def split: if_splits option.splits)
qed auto

lemma op_and_args_is_write: "op_and_args cr req = Some (l, h, w) \<Longrightarrow> w = is_write req"
  by (cases req) (auto simp: with_label_def bind_eq_Some_conv)

lemma execute_read_store:
  assumes "\<not> is_write req"
  shows "sv_store (snd (execute cr fault d req now sv)) = sv_store sv"
proof -
  have "sv_store (snd (execute cr fault d (Has ids) now sv)) = sv_store sv" for ids
  proof -
    obtain ok sv1 where "take_read d (length ids * 32) now sv = (ok, sv1)" by fastforce
    then show ?thesis using take_read_frame(1) by (auto simp: st_try_def)
  qed
  with assms show ?thesis
    by (cases req) (simp_all add: read_charged_store del: execute.simps(7))
qed

text \<open>The store transaction an executed write amounts to.\<close>

lemma handle_cas_store:
  "sv_store (snd (handle_cas cr fault d h old new p b now sv)) = sv_store sv
   \<or> sv_store (snd (handle_cas cr fault d h old new p b now sv)) = snd (cas_ref cr h old b p (sv_store sv))"
proof -
  obtain ok sv1 where w: "take_write d (length b) now sv = (ok, sv1)" by fastforce
  obtain oc st where c: "cas_ref cr h old b p (sv_store sv) = (oc, st)" by fastforce
  obtain g s2 where q: "(if 0 < staged_bytes (sv_store sv) p
      then add_quota d (staged_bytes (sv_store sv) p) (storage_cap (sv_limits sv)) (sv_state sv1)
      else (True, sv_state sv1)) = (g, s2)" by fastforce
  show ?thesis
    using take_write_frame [OF w] by (simp add: handle_cas_def w c q st_try_def Let_def)
qed

lemma handle_roster_batch_store:
  "sv_store (snd (handle_roster_batch cr fault d t es ks kh rkh rv h now sv)) = sv_store sv
   \<or> MAX_TOTAL_SIGCHAIN \<ge> sat_add (roster_len (sv_store sv)) (length es)
     \<and> sv_store (snd (handle_roster_batch cr fault d t es ks kh rkh rv h now sv))
       = snd (roster_batch cr (to_batch t es ks kh rkh rv h) (sv_store sv))"
proof -
  let ?n = "sum_list (map length es) + sum_list (map (\<lambda>k. length (ks_blob k)) ks)
    + (case h of None \<Rightarrow> 0 | Some h \<Rightarrow> length (hp_new_blob h))"
  obtain ok sv1 where w: "take_write d ?n now sv = (ok, sv1)" by fastforce
  obtain r s2 where q: "sigchain_record d (length es) now (sv_state sv1) = (r, s2)" by fastforce
  obtain res st where c: "roster_batch cr (to_batch t es ks kh rkh rv h) (sv_store sv) = (res, st)" by fastforce
  show ?thesis
    using take_write_frame [OF w]
    by (cases res) (simp_all add: handle_roster_batch_def w c q st_try_def Let_def not_less)
qed

lemma to_batch_ok: "wf_request (RosterBatch t es ks kh rkh rv h) \<Longrightarrow> batch_ok (to_batch t es ks kh rkh rv h)"
  by (auto simp: batch_ok_def to_batch_def list_all_iff split: option.splits)

lemma execute_put:
  assumes "take_write d (length b) now sv = (ok, sv1)"
  shows "snd (execute cr fault d (Put i n p b) now sv) = sv \<or> snd (execute cr fault d (Put i n p b) now sv) = sv1
    \<or> snd (execute cr fault d (Put i n p b) now sv) = sv1\<lparr>sv_store := stage p i b now (sv_store sv1)\<rparr>"
  using assms by (cases "length b = unat n") (simp_all add: st_try_def)

lemma execute_store:
  assumes "wf_request req"
  shows "sv_store (snd (execute cr fault d req now sv)) = sv_store sv
    \<or> store_step cr (sv_store sv) (sv_store (snd (execute cr fault d req now sv)))"
proof (cases "is_write req")
  case False
  then show ?thesis by (simp add: execute_read_store)
next
  case True
  show ?thesis
  proof (cases req)
    case (Put i n p b)
    obtain ok sv1 where w: "take_write d (length b) now sv = (ok, sv1)" by fastforce
    from Put assms have "store_step cr (sv_store sv) (stage p i b now (sv_store sv))"
      by (intro step_stage) (simp_all add: STAGE_PUSH_LEN_def PUSH_ID_LEN_def)
    with Put take_write_frame(1) [OF w] execute_put [OF w, of cr fault i n p] show ?thesis by auto
  next
    case (CasHead h old new p b)
    with assms have "store_step cr (sv_store sv) (snd (cas_ref cr h old b p (sv_store sv)))"
      by (intro step_cas) (simp_all add: STAGE_PUSH_LEN_def PUSH_ID_LEN_def)
    with CasHead handle_cas_store [of cr fault d h old new p b now sv] show ?thesis by auto
  next
    case (RosterBatch t es ks kh rkh rv h)
    with to_batch_ok [of t es ks kh rkh rv h] assms step_batch
      handle_roster_batch_store [of cr fault d t es ks kh rkh rv h now sv]
    show ?thesis by auto
  next
    case (Prune dead ahh l)
    let ?p = "prune_if cr dead (\<lambda>refs len. all_heads_hash cr refs = ahh \<and> len = unat l) (sv_store sv)"
    have "store_step cr (sv_store sv) (snd ?p)" by (rule step_prune)
    with Prune show ?thesis by (cases ?p; cases "fst ?p") (auto simp: st_try_def)
  qed (use True in simp_all)
qed

section \<open>Authorization\<close>

text \<open>The signature checks \<open>authorize\<close> stands for.\<close>

definition write_authorized :: "crypto \<Rightarrow> ssh \<Rightarrow> incoming \<Rightarrow> nat \<Rightarrow> bool" where
  "write_authorized cr ss inc now \<longleftrightarrow>
     (\<exists>l h n m. op_and_args cr (inc_request inc) = Some (l, h, True) \<and> inc_server_nonce inc = Some n
        \<and> issued_at n \<le> now \<and> now < issued_at n + SERVER_NONCE_TTL_SECS
        \<and> WriteAuth_message \<lparr>wa_op = l, wa_args_hash = h,
             wa_session_transcript = inc_session_transcript inc, wa_server_nonce = in_nonce n\<rparr> = Some m
        \<and> accepts_sig ss (inc_pubkey inc) NS_WRITE m (inc_op_sig inc))"

definition read_authorized :: "crypto \<Rightarrow> ssh \<Rightarrow> incoming \<Rightarrow> bool" where
  "read_authorized cr ss inc \<longleftrightarrow>
     (\<exists>l h m. op_and_args cr (inc_request inc) = Some (l, h, False)
        \<and> ReadAuth_message \<lparr>ra_op = l, ra_args_hash = h,
             ra_session_transcript = inc_session_transcript inc\<rparr> = Some m
        \<and> accepts_sig ss (inc_pubkey inc) NS_READ m (inc_op_sig inc))"

lemma verdict_iff: "(case r of Inl _ \<Rightarrow> Inl e | Inr x \<Rightarrow> Inr x) = Inr u \<longleftrightarrow> r = Inr u"
  by (cases r) auto

lemma authorize_write:
  assumes "authorize cr ss inc now = Some (Inr u)" "is_write (inc_request inc)"
  shows "write_authorized cr ss inc now"
proof -
  from assms(1) obtain l h w where oa: "op_and_args cr (inc_request inc) = Some (l, h, w)"
    by (auto simp: authorize_def bind_eq_Some_conv)
  with assms(2) have w: "w = True" using op_and_args_is_write by blast
  with oa assms(1) obtain n where n: "inc_server_nonce inc = Some n" "issued_at n \<le> now"
    "now < issued_at n + SERVER_NONCE_TTL_SECS"
    by (auto simp: authorize_def Let_def split: option.splits if_splits)
  let ?a = "\<lparr>wa_op = l, wa_args_hash = h,
    wa_session_transcript = inc_session_transcript inc, wa_server_nonce = in_nonce n\<rparr>"
  from oa w n assms(1) have "\<exists>r. WriteAuth_verify ss (inc_pubkey inc) (inc_op_sig inc) ?a = Some (Inr r)"
    by (auto simp: authorize_def Let_def verdict_iff split: if_splits)
  with oa w n show ?thesis
    unfolding write_authorized_def WriteAuth_verify_def by (auto simp: DevicePublic_verify_iff)
qed

lemma authorize_read:
  assumes "authorize cr ss inc now = Some (Inr u)" "\<not> is_write (inc_request inc)"
  shows "read_authorized cr ss inc"
proof -
  from assms(1) obtain l h w where oa: "op_and_args cr (inc_request inc) = Some (l, h, w)"
    by (auto simp: authorize_def bind_eq_Some_conv)
  with assms(2) have w: "w = False" using op_and_args_is_write by blast
  let ?a = "\<lparr>ra_op = l, ra_args_hash = h, ra_session_transcript = inc_session_transcript inc\<rparr>"
  from oa w assms(1) have "\<exists>r. ReadAuth_verify ss (inc_pubkey inc) (inc_op_sig inc) ?a = Some (Inr r)"
    by (auto simp: authorize_def Let_def verdict_iff)
  with oa w show ?thesis
    unfolding read_authorized_def ReadAuth_verify_def by (auto simp: DevicePublic_verify_iff)
qed

text \<open>A request that passes the gate is from an enrolled key, or is the genesis batch.\<close>

lemma enrollment_gate_passed:
  "enrollment_gate fault st req d = Inr u \<Longrightarrow>
     keyslot_exists st d \<or> genesis_shape d req \<and> roster_len st = 0"
  by (auto simp: enrollment_gate_def is_genesis_batch_def st_try_def rbind_eq_Inr
      split: sum.splits bool.splits if_splits)

lemma genesis_is_write: "genesis_shape d req \<Longrightarrow> is_write req"
  by (cases req) auto

text \<open>How a handled request ran: refused, a pairing operation, or executed after both checks.\<close>

lemma handle_cases:
  assumes "handle cr ss fault inc now sv = Some (resp, sv')"
  obtains (refused) c where "resp = RErr c" "sv' = sv"
  | (pair) d where "device_id_of cr ss (inc_pubkey inc) = Inr d" "is_pair_request (inc_request inc)"
      "read_authorized cr ss inc" "handle_pair (inc_request inc) d now sv = Some (resp, sv')"
  | (run) d where "device_id_of cr ss (inc_pubkey inc) = Inr d" "\<not> is_pair_request (inc_request inc)"
      "keyslot_exists (sv_store sv) d \<or> genesis_shape d (inc_request inc) \<and> roster_len (sv_store sv) = 0"
      "if is_write (inc_request inc) then write_authorized cr ss inc now else read_authorized cr ss inc"
      "execute cr fault d (inc_request inc) now sv = (resp, sv')"
proof (cases "device_id_of cr ss (inc_pubkey inc)")
  case (Inl e)
  with assms refused show thesis by (auto simp: handle_def)
next
  case (Inr d)
  show thesis
  proof (cases "is_pair_request (inc_request inc)")
    case True
    with Inr assms obtain a where a: "authorize cr ss inc now = Some a"
      "(case a of Inl c \<Rightarrow> Some (RErr c, sv) | Inr _ \<Rightarrow> handle_pair (inc_request inc) d now sv) = Some (resp, sv')"
      by (auto simp: handle_def bind_eq_Some_conv)
    have "\<not> is_write (inc_request inc)" using True by (cases "inc_request inc") auto
    with a Inr True refused pair authorize_read show thesis by (cases a) auto
  next
    case False
    show thesis
    proof (cases "enrollment_gate fault (sv_store sv) (inc_request inc) d")
      case (Inl c)
      with Inr False assms refused show thesis by (auto simp: handle_def)
    next
      case gate: (Inr u)
      with Inr False assms obtain a where a: "authorize cr ss inc now = Some a"
        "(case a of Inl c \<Rightarrow> Some (RErr c, sv)
          | Inr _ \<Rightarrow> Some (execute cr fault d (inc_request inc) now sv)) = Some (resp, sv')"
        by (auto simp: handle_def bind_eq_Some_conv)
      show thesis
      proof (cases a)
        case (Inl c)
        with a refused show thesis by auto
      next
        case ok: (Inr v)
        show thesis
          by (rule run [OF Inr False enrollment_gate_passed [OF gate]])
            (use a ok authorize_write authorize_read in auto)
      qed
    qed
  qed
qed

section \<open>The invariant\<close>

definition server_ok :: "server \<Rightarrow> bool" where
  "server_ok sv \<longleftrightarrow>
     store_ok (sv_store sv) \<and> roster_len (sv_store sv) \<le> MAX_TOTAL_SIGCHAIN
     \<and> (\<forall>(d, q) \<in> set (quotas (sv_state sv)). quota_inv q \<and> sq_limit q = storage_cap (sv_limits sv))
     \<and> bt_wf (pairing (sv_state sv)) \<and> length (pairing (sv_state sv)) \<le> MAX_PAIR_SLOTS
     \<and> (\<forall>(d, n) \<in> set (conn_counts (sv_state sv)). unat n \<le> max_conns_per_key (sv_limits sv))
     \<and> open_conns (sv_state sv) \<le> max_connections (sv_limits sv)"

lemma set_bt_insert: "set (bt_insert k v m) \<subseteq> insert (k, v) (set m)"
  by (induction m) auto

lemma length_bt_insert_old: "map_of m k \<noteq> None \<Longrightarrow> bt_wf m \<Longrightarrow> length (bt_insert k v m) = length m"
proof (induction m)
  case Nil
  then show ?case by simp
next
  case (Cons e m)
  show ?case
  proof (cases "k = fst e")
    case False
    then have k: "map_of m k \<noteq> None" using Cons.prems(1) by (cases e) auto
    then have "k \<in> fst ` set m" by (simp add: map_of_eq_None_iff)
    then have "fst e < k" using Cons.prems(2) by (auto simp: bt_wf_def)
    with False Cons.IH [OF k] Cons.prems(2) show ?thesis by (simp add: bt_wf_def)
  qed simp
qed

lemma server_ok_frame:
  assumes "server_ok sv" "store_ok (sv_store sv')" "roster_len (sv_store sv') \<le> MAX_TOTAL_SIGCHAIN"
    "sv_limits sv' = sv_limits sv" "quotas (sv_state sv') = quotas (sv_state sv)"
    "pairing (sv_state sv') = pairing (sv_state sv)" "conn_counts (sv_state sv') = conn_counts (sv_state sv)"
    "open_conns (sv_state sv') = open_conns (sv_state sv)"
  shows "server_ok sv'"
  using assms unfolding server_ok_def by simp

lemma sigchain_state:
  "sigchain_record d n now s = (ok, s') \<Longrightarrow> quotas s' = quotas s \<and> pairing s' = pairing s
     \<and> conn_counts s' = conn_counts s \<and> open_conns s' = open_conns s"
  "quotas (sigchain_refund d n s) = quotas s \<and> pairing (sigchain_refund d n s) = pairing s
     \<and> conn_counts (sigchain_refund d n s) = conn_counts s \<and> open_conns (sigchain_refund d n s) = open_conns s"
  by (auto simp: sigchain_record_def sigchain_refund_def Let_def split: prod.splits option.splits)

lemma take_write_ok: "server_ok sv \<Longrightarrow> take_write d n now sv = (ok, sv') \<Longrightarrow> server_ok sv'"
  by (rule server_ok_frame [of sv]) (simp_all add: take_write_frame, simp_all add: server_ok_def)

lemma take_read_ok: "server_ok sv \<Longrightarrow> take_read d n now sv = (ok, sv') \<Longrightarrow> server_ok sv'"
  by (rule server_ok_frame [of sv]) (simp_all add: take_read_frame, simp_all add: server_ok_def)

definition quotas_ok :: "nat \<Rightarrow> server_state \<Rightarrow> bool" where
  "quotas_ok cap s \<longleftrightarrow> (\<forall>(d, q) \<in> set (quotas s). quota_inv q \<and> sq_limit q = cap)"

lemma quotas_ok_insert:
  "quotas_ok cap s \<Longrightarrow> quota_inv q \<Longrightarrow> sq_limit q = cap \<Longrightarrow> quotas_ok cap (s\<lparr>quotas := bt_insert d q (quotas s)\<rparr>)"
  using set_bt_insert [of d q "quotas s"] by (auto simp: quotas_ok_def)

lemma quotas_ok_get: "quotas_ok cap s \<Longrightarrow> map_of (quotas s) d = Some q \<Longrightarrow> quota_inv q \<and> sq_limit q = cap"
  by (auto simp: quotas_ok_def dest!: map_of_SomeD)

lemma add_quota_ok: "quotas_ok cap s \<Longrightarrow> quotas_ok cap (snd (add_quota d n cap s))"
proof -
  assume ok: "quotas_ok cap s"
  let ?q = "entry_or d (StorageQuota_new cap) (quotas s)"
  have "quota_inv ?q \<and> sq_limit ?q = cap"
    using quotas_ok_get [OF ok, of d] quota_new_inv [of cap]
    by (auto simp: entry_or_def StorageQuota_new_def split: option.split)
  then have "quota_inv (snd (StorageQuota_try_add n ?q))" "sq_limit (snd (StorageQuota_try_add n ?q)) = cap"
    using quota_add_inv [of ?q n] by (auto simp: StorageQuota_try_add_def split: option.split)
  with ok quotas_ok_insert [OF ok, of "snd (StorageQuota_try_add n ?q)" d] show ?thesis
    by (auto simp: add_quota_def Let_def split: prod.split)
qed

lemma release_quota_ok: "quotas_ok cap s \<Longrightarrow> quotas_ok cap (release_quota d n s)"
  using quotas_ok_get [of cap s d] quota_release_inv quotas_ok_insert [of cap s]
  by (auto simp: release_quota_def StorageQuota_release_def split: option.split)

lemma quota_state:
  "add_quota d n cap s = (ok, s') \<Longrightarrow> pairing s' = pairing s \<and> conn_counts s' = conn_counts s
     \<and> open_conns s' = open_conns s"
  "pairing (release_quota d n s) = pairing s \<and> conn_counts (release_quota d n s) = conn_counts s
     \<and> open_conns (release_quota d n s) = open_conns s"
  by (auto simp: add_quota_def release_quota_def Let_def split: prod.splits option.splits if_splits)

lemma server_ok_alt:
  "server_ok sv \<longleftrightarrow>
     store_ok (sv_store sv) \<and> roster_len (sv_store sv) \<le> MAX_TOTAL_SIGCHAIN
     \<and> quotas_ok (storage_cap (sv_limits sv)) (sv_state sv)
     \<and> bt_wf (pairing (sv_state sv)) \<and> length (pairing (sv_state sv)) \<le> MAX_PAIR_SLOTS
     \<and> (\<forall>(d, n) \<in> set (conn_counts (sv_state sv)). unat n \<le> max_conns_per_key (sv_limits sv))
     \<and> open_conns (sv_state sv) \<le> max_connections (sv_limits sv)"
  by (simp add: server_ok_def quotas_ok_def)

lemma execute_state_ok:
  fixes cr fault d req now
  assumes "server_ok sv"
  defines "sv' \<equiv> snd (execute cr fault d req now sv)"
  shows "sv_limits sv' = sv_limits sv \<and> quotas_ok (storage_cap (sv_limits sv)) (sv_state sv')
    \<and> pairing (sv_state sv') = pairing (sv_state sv) \<and> conn_counts (sv_state sv') = conn_counts (sv_state sv)
    \<and> open_conns (sv_state sv') = open_conns (sv_state sv)" (is "?P sv'")
proof -
  have base: "?P sv" using assms(1) by (simp add: server_ok_alt)
  have rd: "?P sv1" if "take_read d n now sv = (ok, sv1)" for n ok sv1
    using base take_read_frame [OF that] by (simp add: quotas_ok_def)
  have wr: "?P sv1" if "take_write d n now sv = (ok, sv1)" for n ok sv1
    using base take_write_frame [OF that] by (simp add: quotas_ok_def)
  have charged: "?P (snd (read_charged d b now sv))" for b
    by (rule read_charged_cases [of d b now sv]) (use base rd in auto)
  show ?thesis
  proof (cases req)
    case (Has ids)
    obtain ok sv1 where w: "take_read d (length ids * 32) now sv = (ok, sv1)" by fastforce
    with Has base rd [OF w] show ?thesis unfolding sv'_def by (simp add: st_try_def)
  next
    case (Put i n p b)
    obtain ok sv1 where w: "take_write d (length b) now sv = (ok, sv1)" by fastforce
    with Put base wr [OF w] execute_put [OF w, of cr fault i n p] show ?thesis unfolding sv'_def by auto
  next
    case (CasHead h old new p b)
    obtain ok sv1 where w: "take_write d (length b) now sv = (ok, sv1)" by fastforce
    obtain oc st where c: "cas_ref cr h old b p (sv_store sv) = (oc, st)" by fastforce
    let ?n = "staged_bytes (sv_store sv) p" and ?cap = "storage_cap (sv_limits sv)"
    obtain g s2 where q: "(if 0 < ?n then add_quota d ?n ?cap (sv_state sv1) else (True, sv_state sv1)) = (g, s2)"
      by fastforce
    have s2: "quotas_ok ?cap s2" "pairing s2 = pairing (sv_state sv)"
      "conn_counts s2 = conn_counts (sv_state sv)" "open_conns s2 = open_conns (sv_state sv)"
      using q wr [OF w] add_quota_ok [of ?cap "sv_state sv1" d ?n] quota_state(1) [of d ?n ?cap "sv_state sv1" g s2]
      by (auto split: if_splits)
    have rel: "quotas_ok ?cap (release_quota d k s2)" for k using s2(1) by (rule release_quota_ok)
    show ?thesis
      using base wr [OF w] s2 rel take_write_frame(1,2) [OF w] unfolding sv'_def CasHead
      by (simp add: handle_cas_def w c q st_try_def Let_def quota_state(2))
  next
    case (RosterBatch t es ks kh rkh rv h)
    let ?n = "sum_list (map length es) + sum_list (map (\<lambda>k. length (ks_blob k)) ks)
      + (case h of None \<Rightarrow> 0 | Some h \<Rightarrow> length (hp_new_blob h))"
    obtain ok sv1 where w: "take_write d ?n now sv = (ok, sv1)" by fastforce
    obtain r s2 where q: "sigchain_record d (length es) now (sv_state sv1) = (r, s2)" by fastforce
    obtain res st where c: "roster_batch cr (to_batch t es ks kh rkh rv h) (sv_store sv) = (res, st)" by fastforce
    show ?thesis
      using base wr [OF w] sigchain_state(1) [OF q] take_write_frame(1,2) [OF w] unfolding sv'_def RosterBatch
      by (cases res) (simp_all add: handle_roster_batch_def w c q st_try_def Let_def sigchain_state(2) quotas_ok_def)
  next
    case (Prune dead ahh l)
    let ?p = "prune_if cr dead (\<lambda>refs len. all_heads_hash cr refs = ahh \<and> len = unat l) (sv_store sv)"
    show ?thesis
      using base unfolding sv'_def Prune by (cases ?p; cases "fst ?p") (simp_all add: st_try_def)
  qed (use base charged in \<open>simp_all add: sv'_def\<close>)
qed

lemma roster_batch_len:
  assumes "store_ok st" "batch_ok b"
  shows "roster_len (snd (roster_batch cr b st)) \<le> roster_len st + length (rb_entries b)"
  using roster_batch_applied(1,3) [OF assms] roster_batch_conflict [of cr b st]
  by (cases "fst (roster_batch cr b st)") (auto simp: roster_len_def)

lemma execute_roster_len:
  assumes "server_ok sv" "wf_request req"
  shows "roster_len (sv_store (snd (execute cr fault d req now sv))) \<le> MAX_TOTAL_SIGCHAIN"
proof -
  have same: "t_roster st' = t_roster (sv_store sv) \<Longrightarrow> roster_len st' \<le> MAX_TOTAL_SIGCHAIN" for st'
    using assms(1) by (simp add: server_ok_def roster_len_def)
  show ?thesis
  proof (cases "is_write req")
    case False
    then show ?thesis by (intro same) (simp add: execute_read_store)
  next
    case True
    show ?thesis
    proof (cases req)
      case (Put i n p b)
      obtain ok sv1 where w: "take_write d (length b) now sv = (ok, sv1)" by fastforce
      with Put take_write_frame(1) [OF w] execute_put [OF w, of cr fault i n p] show ?thesis
        by (intro same) (auto simp: small_ops_roster simp del: execute.simps)
    next
      case (CasHead h old new p b)
      then show ?thesis
        using handle_cas_store [of cr fault d h old new p b now sv] cas_ref_roster by (intro same) auto
    next
      case (RosterBatch t es ks kh rkh rv h)
      let ?b = "to_batch t es ks kh rkh rv h"
      have "roster_len (snd (roster_batch cr ?b (sv_store sv))) \<le> roster_len (sv_store sv) + length es"
        using roster_batch_len [of "sv_store sv" ?b cr] to_batch_ok assms RosterBatch
        by (simp add: server_ok_def to_batch_def)
      moreover have "roster_len (sv_store sv) + length es \<le> MAX_TOTAL_SIGCHAIN"
        if "sat_add (roster_len (sv_store sv)) (length es) \<le> MAX_TOTAL_SIGCHAIN"
        using that by (simp add: sat_add_def MAX_TOTAL_SIGCHAIN_def u64_max_def min_def split: if_splits)
      ultimately show ?thesis
        using handle_roster_batch_store [of cr fault d t es ks kh rkh rv h now sv] same RosterBatch by fastforce
    next
      case (Prune dead ahh l)
      let ?p = "prune_if cr dead (\<lambda>refs len. all_heads_hash cr refs = ahh \<and> len = unat l) (sv_store sv)"
      have "t_roster (snd ?p) = t_roster (sv_store sv)" by (rule small_ops_roster)
      with Prune show ?thesis
        by (intro same) (cases ?p; cases "fst ?p"; simp add: st_try_def)
    qed (use True in simp_all)
  qed
qed

lemma execute_ok:
  assumes "server_ok sv" "wf_request req"
  shows "server_ok (snd (execute cr fault d req now sv))"
proof -
  have "store_ok (sv_store (snd (execute cr fault d req now sv)))"
    using execute_store [OF assms(2), of cr fault d now sv] store_step_ok assms(1)
    by (auto simp: server_ok_def)
  with execute_state_ok [OF assms(1), of cr fault d req now] execute_roster_len [OF assms, of cr fault d now]
    assms(1) show ?thesis by (simp add: server_ok_alt)
qed

section \<open>Pairing, connections and housekeeping keep the invariant\<close>

lemma unexpired_wf: "bt_wf m \<Longrightarrow> bt_wf (unexpired now m)"
  by (simp add: unexpired_def bt_wf_filter)

lemma length_unexpired: "length (unexpired now m) \<le> length m"
  by (simp add: unexpired_def)

definition pairing_ok :: "server_state \<Rightarrow> bool" where
  "pairing_ok s \<longleftrightarrow> bt_wf (pairing s) \<and> length (pairing s) \<le> MAX_PAIR_SLOTS"

lemma pair_put_ok:
  assumes "pairing_ok s" "pair_put slot blob now s = Some (stored, s')"
  shows "pairing_ok s' \<and> quotas s' = quotas s \<and> conn_counts s' = conn_counts s \<and> open_conns s' = open_conns s"
proof -
  let ?m = "unexpired now (pairing s)"
  have m: "bt_wf ?m" "length ?m \<le> MAX_PAIR_SLOTS"
    using assms(1) unexpired_wf length_unexpired [of now "pairing s"] by (auto simp: pairing_ok_def)
  have "length (bt_insert slot v ?m) \<le> MAX_PAIR_SLOTS"
    if "\<not> (MAX_PAIR_SLOTS \<le> length ?m \<and> map_of ?m slot = None)" for v
    using that m length_bt_insert_le [of slot v ?m] length_bt_insert_old [OF _ m(1), of slot v]
    by (cases "map_of ?m slot") auto
  with assms(2) m show ?thesis
    by (auto simp: pair_put_def Let_def pairing_ok_def split: if_splits)
qed

lemma pair_take_ok:
  assumes "pairing_ok s" "pair_take slot now s = (got, s')"
  shows "pairing_ok s' \<and> quotas s' = quotas s \<and> conn_counts s' = conn_counts s \<and> open_conns s' = open_conns s"
proof -
  let ?m = "unexpired now (pairing s)"
  have "length (bt_remove slot ?m) \<le> length (pairing s)"
    using length_unexpired [of now "pairing s"] by (simp add: bt_remove_def le_trans [OF length_filter_le])
  with assms show ?thesis
    by (auto simp: pair_take_def Let_def pairing_ok_def bt_wf_bt_remove unexpired_wf)
qed

lemma server_ok_state:
  assumes "server_ok sv" "pairing_ok s" "quotas s = quotas (sv_state sv)"
    "conn_counts s = conn_counts (sv_state sv)" "open_conns s = open_conns (sv_state sv)"
  shows "server_ok (sv\<lparr>sv_state := s\<rparr>)"
  using assms by (simp add: server_ok_def pairing_ok_def)

lemma server_pairing_ok: "server_ok sv \<Longrightarrow> pairing_ok (sv_state sv)"
  by (simp add: server_ok_def pairing_ok_def)

lemma pair_put_server_ok:
  "server_ok sv \<Longrightarrow> pair_put slot blob now (sv_state sv) = Some (stored, s') \<Longrightarrow> server_ok (sv\<lparr>sv_state := s'\<rparr>)"
  using pair_put_ok [OF server_pairing_ok] server_ok_state by blast

lemma handle_pair_ok:
  assumes "server_ok sv" "handle_pair req d now sv = Some (resp, sv')"
  shows "server_ok sv'"
proof (cases req)
  case (PairPut slot blob)
  obtain ok sv1 where w: "take_write d (32 + length blob) now sv = (ok, sv1)" by fastforce
  have "server_ok sv1" using take_write_ok [OF assms(1) w] .
  with assms(2) PairPut w show ?thesis by (auto split: if_splits intro: pair_put_server_ok)
next
  case (PairGet slot)
  obtain got s where t: "pair_take slot now (sv_state sv) = (got, s)" by fastforce
  have ok0: "server_ok (sv\<lparr>sv_state := s\<rparr>)"
    using pair_take_ok [OF server_pairing_ok [OF assms(1)] t] server_ok_state [OF assms(1)] by blast
  obtain ok sv1 where r: "take_read d (32 + (case got of None \<Rightarrow> 0 | Some b \<Rightarrow> length b)) now (sv\<lparr>sv_state := s\<rparr>) = (ok, sv1)"
    by fastforce
  have "server_ok sv1" using take_read_ok [OF ok0 r] .
  with assms(2) PairGet t r show ?thesis
    by (auto simp: Let_def split: if_splits option.splits intro: pair_put_server_ok)
qed (use assms in auto)

lemma conn_counts_ok:
  assumes "server_ok sv" "unat n \<le> max_conns_per_key (sv_limits sv)"
  shows "server_ok (sv\<lparr>sv_state := (sv_state sv)\<lparr>conn_counts := bt_insert d n (conn_counts (sv_state sv))\<rparr>\<rparr>)"
  using assms set_bt_insert [of d n "conn_counts (sv_state sv)"] by (auto simp: server_ok_def)

lemma conn_count_bound:
  "server_ok sv \<Longrightarrow> map_of (conn_counts (sv_state sv)) d = Some n \<Longrightarrow> unat n \<le> max_conns_per_key (sv_limits sv)"
  by (auto simp: server_ok_def dest!: map_of_SomeD)

lemma acquire_conn_ok: "server_ok sv \<Longrightarrow> acquire_conn d sv = Some (ok, sv') \<Longrightarrow> server_ok sv'"
proof -
  assume ok: "server_ok sv" and a: "acquire_conn d sv = Some (ok, sv')"
  let ?n = "entry_or d 0 (conn_counts (sv_state sv))"
  have n: "unat ?n \<le> max_conns_per_key (sv_limits sv)"
    using conn_count_bound [OF ok, of d] by (auto simp: entry_or_def split: option.split)
  have "unat (?n + 1) \<le> Suc (unat ?n)" by (simp add: unat_plus_if_size)
  with n conn_counts_ok [OF ok, of _ d] a show ?thesis
    by (auto simp: acquire_conn_def Let_def split: if_splits)
qed

lemma release_conn_ok: "server_ok sv \<Longrightarrow> server_ok (release_conn d sv)"
proof -
  assume ok: "server_ok sv"
  have rem: "server_ok (sv\<lparr>sv_state := (sv_state sv)\<lparr>conn_counts := bt_remove d (conn_counts (sv_state sv))\<rparr>\<rparr>)"
    using ok by (auto simp: server_ok_def bt_remove_def)
  show ?thesis
  proof (cases "map_of (conn_counts (sv_state sv)) d")
    case None
    with ok show ?thesis by (simp add: release_conn_def)
  next
    case (Some n)
    let ?n = "if n = 0 then 0 else n - 1"
    have "unat ?n \<le> unat n" by (auto simp: unat_minus_one)
    with conn_count_bound [OF ok Some] have "unat ?n \<le> max_conns_per_key (sv_limits sv)" by linarith
    with Some rem conn_counts_ok [OF ok this, of d] show ?thesis by (simp add: release_conn_def Let_def)
  qed
qed

lemma admit_ok: "server_ok sv \<Longrightarrow> server_ok (snd (admit sv))"
  by (simp add: admit_def Let_def server_ok_def)

lemma Admission_drop_ok: "server_ok sv \<Longrightarrow> server_ok (Admission_drop sv)"
  by (auto simp: Admission_drop_def server_ok_def)

lemma sweep_idle_ok: "server_ok sv \<Longrightarrow> server_ok (sv\<lparr>sv_state := sweep_idle now (sv_state sv)\<rparr>)"
  using unexpired_wf length_unexpired [of now "pairing (sv_state sv)"]
  by (intro server_ok_state) (auto simp: sweep_idle_def pairing_ok_def server_ok_def)

lemma reclaim_ok: "server_ok sv \<Longrightarrow> server_ok (snd (reclaim fault now ttl sv))"
proof -
  assume ok: "server_ok sv"
  let ?sv1 = "sv\<lparr>sv_state := sweep_idle now (sv_state sv)\<rparr>"
  have st: "store_ok (sv_store sv)" using ok by (simp add: server_ok_def)
  note t = reclaim_staging_tables(7) [OF st, of now ttl] reclaim_staging_ok [OF st, of now ttl]
  have "server_ok (?sv1\<lparr>sv_store := snd (reclaim_staging now ttl (sv_store sv))\<rparr>)"
    using sweep_idle_ok [OF ok, of now] t by (simp add: server_ok_def roster_len_def)
  with sweep_idle_ok [OF ok, of now] show ?thesis
    by (simp add: reclaim_def Let_def case_prod_unfold)
qed

lemma handle_ok:
  assumes "server_ok sv" "wf_request (inc_request inc)" "handle cr ss fault inc now sv = Some (resp, sv')"
  shows "server_ok sv'"
  using assms(3)
proof (cases rule: handle_cases)
  case refused
  with assms(1) show ?thesis by simp
next
  case (pair d)
  with handle_pair_ok [OF assms(1)] show ?thesis by blast
next
  case (run d)
  with execute_ok [OF assms(1,2), of cr fault d now] show ?thesis by simp
qed

section \<open>Runs of the server\<close>

text \<open>
  Requests are handled one after the other. The label of a step is the request it serves, if it
  serves one.
\<close>

inductive server_step :: "crypto \<Rightarrow> ssh \<Rightarrow> request option \<Rightarrow> server \<Rightarrow> server \<Rightarrow> bool" for cr ss where
  serve: "wf_request (inc_request inc) \<Longrightarrow> handle cr ss fault inc now sv = Some (resp, sv') \<Longrightarrow>
    server_step cr ss (Some (inc_request inc)) sv sv'"
| housekeep: "server_step cr ss None sv (snd (reclaim fault now ttl sv))"
| acquire: "acquire_conn d sv = Some (ok, sv') \<Longrightarrow> server_step cr ss None sv sv'"
| release: "server_step cr ss None sv (release_conn d sv)"
| admission: "server_step cr ss None sv (snd (admit sv))"
| leave: "server_step cr ss None sv (Admission_drop sv)"

abbreviation server_reach :: "crypto \<Rightarrow> ssh \<Rightarrow> server \<Rightarrow> server \<Rightarrow> bool" where
  "server_reach cr ss \<equiv> (\<lambda>sv sv'. \<exists>a. server_step cr ss a sv sv')\<^sup>*\<^sup>*"

lemma server_step_ok: "server_step cr ss a sv sv' \<Longrightarrow> server_ok sv \<Longrightarrow> server_ok sv'"
  by (induction rule: server_step.induct)
    (auto intro: handle_ok reclaim_ok acquire_conn_ok release_conn_ok admit_ok Admission_drop_ok)

lemma server_reach_ok: "server_reach cr ss sv sv' \<Longrightarrow> server_ok sv \<Longrightarrow> server_ok sv'"
  by (induction rule: rtranclp_induct) (auto intro: server_step_ok)

lemma with_limits_ok: "store_ok st \<Longrightarrow> roster_len st \<le> MAX_TOTAL_SIGCHAIN \<Longrightarrow> server_ok (with_limits lim (Server_new st))"
  by (simp add: server_ok_def with_limits_def Server_new_def ServerState_default_def)

section \<open>Properties\<close>

text \<open>
  C2: only an authorized writer changes the store. If handling a request changes the store, then
  the connecting key has a device id, that device owns a keyslot (or the request is the one-entry
  genesis batch of that device and the roster is empty), and the request carries a signature, valid
  for that key under the write namespace, over its own label and argument hash, this session's
  transcript and a nonce issued on this stream less than \<open>SERVER_NONCE_TTL_SECS\<close> ago.
\<close>

theorem store_change_is_authorized:
  assumes "handle cr ss fault inc now sv = Some (resp, sv')" "sv_store sv' \<noteq> sv_store sv"
  shows "\<exists>d. device_id_of cr ss (inc_pubkey inc) = Inr d \<and> write_authorized cr ss inc now
    \<and> (keyslot_exists (sv_store sv) d
       \<or> genesis_shape d (inc_request inc) \<and> roster_len (sv_store sv) = 0)"
  using assms(1)
proof (cases rule: handle_cases)
  case refused
  with assms(2) show ?thesis by simp
next
  case (pair d)
  with assms(2) handle_pair_store show ?thesis by blast
next
  case (run d)
  with assms(2) have "is_write (inc_request inc)"
    using execute_read_store [of "inc_request inc" cr fault d now sv] by force
  with run show ?thesis by auto
qed

definition genesis_request :: "bytes \<Rightarrow> request" where
  "genesis_request d = RosterBatch ABSENT_HEAD [[7]] [\<lparr>ks_device_id = d, ks_gen = 1, ks_blob = [8]\<rparr>] None None [] None"

definition genesis_incoming :: incoming where
  "genesis_incoming = \<lparr>inc_pubkey = [5], inc_request = genesis_request (hash toy_crypto [5]), inc_op_sig = [],
     inc_session_transcript = replicate 32 0,
     inc_server_nonce = Some \<lparr>in_nonce = replicate 32 1, issued_at = 100\<rparr>\<rparr>"

lemma genesis_request_ok: "length d = 32 \<Longrightarrow> request_ok (genesis_request d)"
  by (simp add: genesis_request_def request_ok_simps keyslot_ok_def ABSENT_HEAD_def wrap_fits_def
      head_ok_def MAX_LIST_ELEMENTS_def MAX_ROSTER_ENTRY_SIZE_def)

lemma genesis_authorized: "authorize toy_crypto toy_ssh genesis_incoming 120 = Some (Inr ())"
proof -
  have ok: "request_ok (genesis_request (hash toy_crypto [5]))" by (rule genesis_request_ok) simp
  show ?thesis
    using label_fits [of "genesis_request (hash toy_crypto [5])"]
    unfolding authorize_def genesis_incoming_def incoming.select_convs op_and_args_eq [OF ok]
    by (simp add: genesis_request_def WriteAuth_verify_def auth_messages DevicePublic_verify_def toy_ssh_def
        SERVER_NONCE_TTL_SECS_def)
qed

lemma genesis_handled:
  "\<exists>sv'. handle toy_crypto toy_ssh (\<lambda>_. False) genesis_incoming 120 (Server_new Store_empty) = Some (ROk, sv')
    \<and> roster_len (sv_store sv') = 1"
proof -
  let ?d = "hash toy_crypto [5]"
  have dev: "device_id_of toy_crypto toy_ssh (inc_pubkey genesis_incoming) = Inr ?d"
    by (simp add: device_id_of_def genesis_incoming_def toy_ssh_def)
  have gate: "enrollment_gate (\<lambda>_. False) Store_empty (genesis_request ?d) ?d = Inr ()"
    by (simp add: enrollment_gate_def st_try_def keyslot_exists_def Store_empty_def keyslot_range_def bt_range_def
        is_genesis_batch_def genesis_request_def roster_len_def)
  have ex: "\<exists>sv'. execute toy_crypto (\<lambda>_. False) ?d (genesis_request ?d) 120 (Server_new Store_empty) = (ROk, sv')
      \<and> roster_len (sv_store sv') = 1"
    by (simp add: genesis_request_def handle_roster_batch_def Let_def take_write_def state_take_write_def
        entry_or_def Server_new_def ServerState_default_def TokenBucket_try_take_def TokenBucket_refill_def
        TokenBucket_new_def WRITE_BURST_BYTES_def st_try_def roster_len_def Store_empty_def sat_add_def
        MAX_TOTAL_SIGCHAIN_def u64_max_def sigchain_record_def WindowCounter_try_record_n_def
        WindowCounter_prune_def WindowCounter_new_def MAX_SIGCHAIN_ENTRIES_PER_CONN_PER_HOUR_def
        roster_batch_def roster_tip_def to_batch_def head_cas_ok_def wrap_free_def)
  have req: "inc_request genesis_incoming = genesis_request ?d" by (simp add: genesis_incoming_def)
  have np: "\<not> is_pair_request (genesis_request ?d)" by (simp add: genesis_request_def)
  have st: "sv_store (Server_new Store_empty) = Store_empty" by (simp add: Server_new_def)
  from ex show ?thesis
    unfolding handle_def dev req st sum.case gate genesis_authorized using np by simp
qed

theorem store_change_is_authorized_witness:
  "write_authorized toy_crypto toy_ssh genesis_incoming 120"
proof -
  obtain sv' where h: "handle toy_crypto toy_ssh (\<lambda>_. False) genesis_incoming 120 (Server_new Store_empty) = Some (ROk, sv')"
    "roster_len (sv_store sv') = 1" using genesis_handled by blast
  then have "sv_store sv' \<noteq> sv_store (Server_new Store_empty)"
    by (auto simp: Server_new_def roster_len_def Store_empty_def)
  from store_change_is_authorized [OF h(1) this] show ?thesis by blast
qed

text \<open>
  C23: a stranger gets nothing and changes nothing, with one exception. A key that does not parse, or
  whose device owns no keyslot, gets an error for every request except a pairing request, and
  neither the store nor the rate-limit state changes, unless all of this holds: the roster is empty,
  and the request is a batch with the absent tip, exactly one entry and exactly one keyslot, which is
  that device's own, and no key history, revocation or head.
\<close>

theorem stranger_is_refused:
  assumes "handle cr ss fault inc now sv = Some (resp, sv')" "\<not> is_pair_request (inc_request inc)"
    and "\<And>d. device_id_of cr ss (inc_pubkey inc) = Inr d \<Longrightarrow> \<not> keyslot_exists (sv_store sv) d"
  shows "(resp \<in> {RErr BadRequest, RErr NotEnrolled, RErr Internal} \<and> sv' = sv)
    \<or> (\<exists>e k. inc_request inc = RosterBatch ABSENT_HEAD [e] [k] None None [] None
         \<and> device_id_of cr ss (inc_pubkey inc) = Inr (ks_device_id k) \<and> roster_len (sv_store sv) = 0)"
proof (cases "device_id_of cr ss (inc_pubkey inc)")
  case (Inl e)
  with assms(1) show ?thesis by (simp add: handle_def)
next
  case (Inr d)
  show ?thesis
  proof (cases "enrollment_gate fault (sv_store sv) (inc_request inc) d")
    case (Inl c)
    then have "c = NotEnrolled \<or> c = Internal"
      by (auto simp: enrollment_gate_def is_genesis_batch_def st_try_def split: if_splits bool.splits)
    with Inl Inr assms(1,2) show ?thesis by (auto simp: handle_def)
  next
    case g: (Inr u)
    have shape: "\<exists>e k. req = RosterBatch ABSENT_HEAD [e] [k] None None [] None \<and> ks_device_id k = d" if "genesis_shape d req" for req
      using that by (cases req) (auto simp: length_Suc_conv)
    from enrollment_gate_passed [OF g] assms(3) [OF Inr] have "genesis_shape d (inc_request inc)" "roster_len (sv_store sv) = 0" by auto
    with shape Inr show ?thesis by blast
  qed
qed

theorem stranger_is_refused_witness:
  "\<exists>sv c. handle toy_crypto toy_ssh (\<lambda>_. False) (genesis_incoming\<lparr>inc_pubkey := [6], inc_request := GetKeyhist 1\<rparr>) 120 sv
     = Some (RErr c, sv) \<and> roster_len (sv_store sv) \<noteq> 0"
proof -
  let ?inc = "genesis_incoming\<lparr>inc_pubkey := [6], inc_request := GetKeyhist 1\<rparr>"
  let ?d = "hash toy_crypto [6]"
  define sv where "sv = Server_new toy_store"
  have dev: "device_id_of toy_crypto toy_ssh (inc_pubkey ?inc) = Inr ?d"
    by (simp add: device_id_of_def toy_ssh_def)
  have rl: "roster_len (sv_store sv) \<noteq> 0"
    using toy_store_entry by (auto simp: sv_def Server_new_def roster_len_def get_roster_entry_def)
  have "t_keyslots toy_store = []"
    using roster_batch_applied(4) [OF Store_empty_ok toy_batch_ok toy_batch_applies]
    by (simp add: toy_store_def toy_batch_def)
  then have ks: "\<not> keyslot_exists (sv_store sv) ?d"
    by (simp add: sv_def Server_new_def keyslot_exists_def keyslot_range_def bt_range_def)
  have "handle toy_crypto toy_ssh (\<lambda>_. False) ?inc 120 sv \<noteq> None"
    using ks rl unfolding handle_def dev by (simp add: enrollment_gate_def st_try_def is_genesis_batch_def)
  then obtain resp sv' where h: "handle toy_crypto toy_ssh (\<lambda>_. False) ?inc 120 sv = Some (resp, sv')" by auto
  from stranger_is_refused [OF h] dev ks h rl show ?thesis by fastforce
qed

text \<open>
  The handler does not panic. A decodable request at a time that leaves room for the mailbox
  lifetime gets a response, whatever the store calls do and however long the transcript and nonce.
\<close>

theorem handle_total:
  assumes "request_ok (inc_request inc)" "now + PAIR_TTL_SECS \<le> u64_max"
  shows "\<exists>resp sv'. handle cr ss fault inc now sv = Some (resp, sv')"
proof -
  have au: "authorize cr ss inc now \<noteq> None"
    using label_fits [of "inc_request inc"] unfolding authorize_def op_and_args_eq [OF assms(1)]
    by (auto simp: Let_def WriteAuth_verify_def ReadAuth_verify_def auth_messages split: option.split)
  have put: "pair_put slot b now s \<noteq> None" for slot b s
    using assms(2) by (auto simp: pair_put_def Let_def checked_add_def)
  have "handle_pair req d now sv \<noteq> None" for req d
  proof (cases req)
    case (PairPut slot blob)
    then show ?thesis using put by (auto split: prod.split)
  next
    case (PairGet slot)
    then show ?thesis using put by (auto simp: Let_def split: prod.split option.split)
  qed auto
  with au show ?thesis
    unfolding handle_def by (auto split: sum.split option.split)
qed

theorem handle_total_witness:
  "\<exists>resp sv'. handle toy_crypto toy_ssh (\<lambda>_. True) genesis_incoming 120 (Server_new Store_empty) = Some (resp, sv')"
  by (rule handle_total)
    (simp_all add: genesis_incoming_def genesis_request_ok PAIR_TTL_SECS_def u64_max_def)

lemma map_of_unexpired:
  "bt_wf m \<Longrightarrow> map_of (unexpired now m) k = (case map_of m k of Some (b, ex) \<Rightarrow> if now < ex then Some (b, ex) else None | None \<Rightarrow> None)"
proof (induction m)
  case Nil
  then show ?case by (simp add: unexpired_def)
next
  case (Cons e m)
  obtain k' b ex where e: "e = (k', b, ex)" by (cases e)
  have wf: "bt_wf m" "map_of m k' = None" using Cons.prems e by (auto simp: bt_wf_def map_of_eq_None_iff)
  then have "map_of (unexpired now m) k' = None" by (auto simp: unexpired_def map_of_eq_None_iff image_iff)
  with Cons.IH [OF wf(1)] show ?case by (auto simp: unexpired_def e)
qed

text \<open>What a step does to one slot of the mailbox: it stays, it goes, or it is posted.\<close>

abbreviation mail :: "server \<Rightarrow> bytes \<Rightarrow> (bytes \<times> nat) option" where
  "mail sv slot \<equiv> map_of (pairing (sv_state sv)) slot"

lemma pair_put_mail:
  assumes "pair_put slot b now s = Some (stored, s')" "bt_wf (pairing s)"
  shows "map_of (pairing s') k = (if k = slot \<and> stored then Some (b, now + PAIR_TTL_SECS) else map_of (unexpired now (pairing s)) k)"
  using assms by (auto simp: pair_put_def Let_def checked_add_def split: if_splits)

lemma pair_take_mail:
  assumes "pair_take slot now s = (got, s')"
  shows "map_of (pairing s') k = (if k = slot then None else map_of (unexpired now (pairing s)) k)"
    "got = map_option fst (map_of (unexpired now (pairing s)) slot)"
  using assms by (auto simp: pair_take_def Let_def)

lemma unexpired_mail: "bt_wf m \<Longrightarrow> map_of (unexpired now m) k = Some (b, ex) \<longleftrightarrow> map_of m k = Some (b, ex) \<and> now < ex"
  by (auto simp: map_of_unexpired split: option.split)

lemma handle_pair_mail:
  assumes "handle_pair req d now sv = Some (resp, sv')" "bt_wf (pairing (sv_state sv))" "mail sv' slot = Some (b, ex)"
  shows "mail sv slot = Some (b, ex)
    \<or> req = PairPut slot b \<and> resp = ROk \<and> ex = now + PAIR_TTL_SECS
    \<or> req = PairGet slot \<and> resp = RErr RateLimit \<and> ex = now + PAIR_TTL_SECS \<and> (\<exists>old. mail sv slot = Some (b, old) \<and> now < old)"
proof (cases req)
  case (PairPut k c)
  obtain ok sv1 where w: "take_write d (32 + length c) now sv = (ok, sv1)" by fastforce
  note p = take_write_frame [OF w]
  show ?thesis
  proof (cases ok)
    case True
    with assms(1) PairPut w obtain stored s where s: "pair_put k c now (sv_state sv1) = Some (stored, s)"
      "resp = (if stored then ROk else RErr RateLimit)" "sv' = sv1\<lparr>sv_state := s\<rparr>" by auto
    from pair_put_mail [OF s(1), of slot] assms(2,3) p s unexpired_mail [OF assms(2)] PairPut show ?thesis
      by (auto split: if_splits)
  qed (use assms(1,3) PairPut w p in auto)
next
  case (PairGet k)
  obtain got s where t: "pair_take k now (sv_state sv) = (got, s)" by fastforce
  obtain ok sv1 where r: "take_read d (32 + (case got of None \<Rightarrow> 0 | Some b \<Rightarrow> length b)) now (sv\<lparr>sv_state := s\<rparr>) = (ok, sv1)"
    by fastforce
  note p = take_read_frame [OF r]
  note m = pair_take_mail(1) [OF t, of slot] unexpired_mail [OF assms(2)]
  have keep: ?thesis if "sv' = sv1" using that assms(3) p m by (auto split: if_splits)
  show ?thesis
  proof (cases "ok \<or> got = None")
    case False
    then obtain c where c: "got = Some c" by blast
    with False assms(1) PairGet t r obtain stored s2 where s2: "pair_put k c now (sv_state sv1) = Some (stored, s2)"
      "resp = RErr RateLimit" "sv' = sv1\<lparr>sv_state := s2\<rparr>" by auto
    have wf: "bt_wf (pairing (sv_state sv1))" using p t unexpired_wf [OF assms(2), of now] by (auto simp: pair_take_def Let_def)
    show ?thesis
      using pair_put_mail [OF s2(1) wf, of slot] assms(3) p s2 m unexpired_mail [OF wf] c PairGet pair_take_mail(2) [OF t]
      by (auto split: if_splits)
  qed (use assms(1) PairGet t r keep in \<open>auto split: if_splits option.splits\<close>)
qed (use assms in auto)

lemma pair_get_delivers:
  assumes "handle_pair (PairGet slot) d now sv = Some (RBlob (Some b), sv')" "bt_wf (pairing (sv_state sv))"
  shows "(\<exists>ex. mail sv slot = Some (b, ex) \<and> now < ex) \<and> mail sv' slot = None"
proof -
  obtain got s where t: "pair_take slot now (sv_state sv) = (got, s)" by fastforce
  obtain ok sv1 where r: "take_read d (32 + (case got of None \<Rightarrow> 0 | Some b \<Rightarrow> length b)) now (sv\<lparr>sv_state := s\<rparr>) = (ok, sv1)"
    by fastforce
  have g: "got = Some b" "sv' = sv1" using assms(1) t r by (auto split: if_splits option.splits)
  then obtain ex where "map_of (unexpired now (pairing (sv_state sv))) slot = Some (b, ex)" using pair_take_mail(2) [OF t] by auto
  then have "mail sv slot = Some (b, ex) \<and> now < ex" by (simp add: unexpired_mail [OF assms(2)])
  moreover have "mail sv' slot = None" using pair_take_mail(1) [OF t, of slot] take_read_frame(4) [OF r] g(2) by simp
  ultimately show ?thesis by blast
qed

lemma execute_pairing: "pairing (sv_state (snd (execute cr fault d req now sv))) = pairing (sv_state sv)" if "server_ok sv"
  using execute_state_ok [OF that] by blast

lemma server_step_mail:
  assumes "server_step cr ss a sv sv'" "server_ok sv" "mail sv slot = None" "\<And>b. a \<noteq> Some (PairPut slot b)"
  shows "mail sv' slot = None"
  using assms
proof (induction rule: server_step.induct)
  case (serve inc fault now sv resp sv')
  have wf: "bt_wf (pairing (sv_state sv))" using serve.prems(1) by (simp add: server_ok_def)
  from serve.hyps(2) show ?case
  proof (cases rule: handle_cases)
    case (pair d)
    show ?thesis
    proof (cases "mail sv' slot")
      case (Some e)
      with handle_pair_mail [OF pair(4) wf, of slot "fst e" "snd e"] serve.prems(2,3) show ?thesis by auto
    qed
  next
    case (run d)
    with execute_pairing [OF serve.prems(1), of cr fault d "inc_request inc" now] serve.prems(2) show ?thesis by simp
  qed (use serve.prems(2) in simp)
next
  case (housekeep sv fault now ttl)
  then have wf: "bt_wf (pairing (sv_state sv))" by (simp add: server_ok_def)
  from housekeep map_of_unexpired [OF wf, of now slot] show ?case
    by (simp add: reclaim_def Let_def sweep_idle_def case_prod_beta)
qed (auto simp: acquire_conn_def release_conn_def admit_def Admission_drop_def Let_def split: if_splits option.splits)

text \<open>
  C38: a pairing message is delivered once and only while it is live. When a \<open>PairGet\<close> delivers a
  message, the slot held it and its expiry had not come; and however the run goes on, as long as no
  \<open>PairPut\<close> to that slot is served, no later \<open>PairGet\<close> of the slot delivers anything. The
  expiry of a message a request leaves in a slot is the one it had, or the time of the request plus \<open>PAIR_TTL_SECS\<close>:
  either the request posted the message, or it was a rate-limited \<open>PairGet\<close> that put a live one back.
\<close>

theorem pairing_single_use:
  assumes "server_ok sv" "wf_request (inc_request inc)" "handle cr ss fault inc now sv = Some (resp, sv1)"
  shows "(\<forall>slot b. inc_request inc = PairGet slot \<and> resp = RBlob (Some b) \<longrightarrow>
      (\<exists>ex. mail sv slot = Some (b, ex) \<and> now < ex)
      \<and> (\<forall>sv2 fault' inc' now' b' sv3.
           (\<lambda>x y. \<exists>a. server_step cr ss a x y \<and> (\<forall>b. a \<noteq> Some (PairPut slot b)))\<^sup>*\<^sup>* sv1 sv2 \<and> inc_request inc' = PairGet slot \<longrightarrow>
           handle cr ss fault' inc' now' sv2 \<noteq> Some (RBlob (Some b'), sv3)))
    \<and> (\<forall>slot b ex. mail sv1 slot = Some (b, ex) \<longrightarrow> mail sv slot = Some (b, ex)
         \<or> ex = now + PAIR_TTL_SECS
           \<and> (inc_request inc = PairPut slot b \<and> resp = ROk
              \<or> inc_request inc = PairGet slot \<and> resp = RErr RateLimit \<and> (\<exists>old. mail sv slot = Some (b, old) \<and> now < old)))"
proof (intro conjI allI impI; (elim conjE)?)
  have got: "(\<exists>ex. mail x slot = Some (b, ex) \<and> now < ex) \<and> mail y slot = None"
    if "server_ok x" "inc_request inc = PairGet slot" "handle cr ss fault inc now x = Some (RBlob (Some b), y)" for x y inc fault now slot b
    using that(3)
  proof (cases rule: handle_cases)
    case (pair d)
    with that(1,2) show ?thesis by (intro pair_get_delivers [of slot d now x b y]) (simp_all add: server_ok_def)
  qed (use that(2) in simp_all)
  fix slot b
  assume r: "inc_request inc = PairGet slot" "resp = RBlob (Some b)"
  note g = got [OF assms(1) r(1) assms(3) [unfolded r(2)]]
  from g show "\<exists>ex. mail sv slot = Some (b, ex) \<and> now < ex" by blast
  fix sv2 fault' now' b' sv3 and inc' :: incoming
  assume run: "(\<lambda>x y. \<exists>a. server_step cr ss a x y \<and> (\<forall>b. a \<noteq> Some (PairPut slot b)))\<^sup>*\<^sup>* sv1 sv2" and i: "inc_request inc' = PairGet slot"
  have "server_ok sv2 \<and> mail sv2 slot = None"
    using run
  proof (induction rule: rtranclp_induct)
    case base
    with g handle_ok [OF assms] show ?case by blast
  next
    case (step x y)
    then show ?case using server_step_ok server_step_mail by blast
  qed
  with got [of sv2 inc' slot fault' now' b' sv3, OF _ i]
  show "handle cr ss fault' inc' now' sv2 \<noteq> Some (RBlob (Some b'), sv3)" by auto
next
  fix slot b ex
  assume m: "mail sv1 slot = Some (b, ex)"
  have wf: "bt_wf (pairing (sv_state sv))" using assms(1) by (simp add: server_ok_def)
  from assms(3) show "mail sv slot = Some (b, ex) \<or> ex = now + PAIR_TTL_SECS
      \<and> (inc_request inc = PairPut slot b \<and> resp = ROk
         \<or> inc_request inc = PairGet slot \<and> resp = RErr RateLimit \<and> (\<exists>old. mail sv slot = Some (b, old) \<and> now < old))"
  proof (cases rule: handle_cases)
    case (pair d)
    from handle_pair_mail [OF pair(4) wf m] show ?thesis by blast
  next
    case (run d)
    with execute_pairing [OF assms(1), of cr fault d "inc_request inc" now] m show ?thesis by simp
  qed (use m in simp)
qed

text \<open>A message posted at time 100 is taken at time 120, and cannot be taken again.\<close>

definition pair_incoming :: incoming where
  "pair_incoming = genesis_incoming\<lparr>inc_request := PairGet (replicate 32 3)\<rparr>"

definition pair_server :: server where
  "pair_server = (Server_new Store_empty)\<lparr>sv_state := ServerState_default\<lparr>pairing := [(replicate 32 3, [2, 3], 700)]\<rparr>\<rparr>"

lemma pair_authorized: "authorize toy_crypto toy_ssh pair_incoming 120 = Some (Inr ())"
proof -
  have ok: "request_ok (PairGet (replicate 32 3))" by (simp add: request_ok_simps)
  show ?thesis
    using label_fits [of "PairGet (replicate 32 3)"]
    unfolding authorize_def pair_incoming_def genesis_incoming_def incoming.simps op_and_args_eq [OF ok]
    by (simp add: ReadAuth_verify_def auth_messages DevicePublic_verify_def toy_ssh_def)
qed

theorem pairing_single_use_witness:
  "\<exists>sv1. handle toy_crypto toy_ssh (\<lambda>_. False) pair_incoming 120 pair_server = Some (RBlob (Some [2, 3]), sv1)
     \<and> (\<forall>now b sv2. handle toy_crypto toy_ssh (\<lambda>_. False) pair_incoming now sv1 \<noteq> Some (RBlob (Some b), sv2))"
proof -
  have dev: "device_id_of toy_crypto toy_ssh (inc_pubkey pair_incoming) = Inr (hash toy_crypto [5])"
    by (simp add: device_id_of_def pair_incoming_def genesis_incoming_def toy_ssh_def)
  have rq: "inc_request pair_incoming = PairGet (replicate 32 3)" by (simp add: pair_incoming_def)
  have "\<exists>sv1. handle_pair (PairGet (replicate 32 3)) (hash toy_crypto [5]) 120 pair_server = Some (RBlob (Some [2, 3]), sv1)"
    by (simp add: pair_server_def pair_take_def unexpired_def Let_def take_read_def state_take_read_def entry_or_def Server_new_def
        ServerState_default_def TokenBucket_try_take_def TokenBucket_refill_def TokenBucket_new_def WRITE_BURST_BYTES_def)
  then obtain sv1 where h: "handle toy_crypto toy_ssh (\<lambda>_. False) pair_incoming 120 pair_server = Some (RBlob (Some [2, 3]), sv1)"
    unfolding handle_def dev rq sum.case pair_authorized by auto
  have ok: "server_ok pair_server"
    using Store_empty_ok by (simp add: server_ok_def pair_server_def Server_new_def ServerState_default_def roster_len_def Store_empty_def
        MAX_PAIR_SLOTS_def bt_wf_def)
  have "wf_request (inc_request pair_incoming)" by (simp add: rq)
  from pairing_single_use [OF ok this h] rq
  have "\<forall>now b sv2. handle toy_crypto toy_ssh (\<lambda>_. False) pair_incoming now sv1 \<noteq> Some (RBlob (Some b), sv2)" by blast
  with h show ?thesis by blast
qed

definition quota_used :: "server \<Rightarrow> bytes \<Rightarrow> nat" where
  "quota_used sv d = (case map_of (quotas (sv_state sv)) d of None \<Rightarrow> 0 | Some q \<Rightarrow> sq_used q)"

lemma release_quota_used:
  "quota_used (sv\<lparr>sv_state := release_quota d n s\<rparr>) d = quota_used (sv\<lparr>sv_state := s\<rparr>) d - n"
  by (auto simp: quota_used_def release_quota_def StorageQuota_release_def split: option.split)

lemma add_quota_used:
  assumes "add_quota d n cap s = (True, s')" "cap \<noteq> 0"
  shows "quota_used (sv\<lparr>sv_state := s'\<rparr>) d = quota_used (sv\<lparr>sv_state := s\<rparr>) d + n"
  using assms
  by (auto simp: add_quota_def quota_used_def entry_or_def StorageQuota_try_add_def StorageQuota_new_def
      checked_add_def Let_def split: option.splits if_splits prod.splits)

lemma add_quota_denied:
  assumes "add_quota d n cap s = (False, s')"
  shows "quota_used (sv\<lparr>sv_state := s'\<rparr>) d = quota_used (sv\<lparr>sv_state := s\<rparr>) d"
  using assms
  by (auto simp: add_quota_def quota_used_def entry_or_def StorageQuota_try_add_def StorageQuota_new_def
      checked_add_def Let_def split: option.splits if_splits prod.splits)

text \<open>
  Quota accounting is exact. With a storage cap in force, a successful head swap charges the
  device exactly the bytes it made durable, and every other outcome (bad hash, rate limit, over
  quota, lost race, store failure) leaves its charge as it was: reservations are always returned.
\<close>

theorem cas_head_charges_exactly:
  assumes "server_ok sv" "storage_cap (sv_limits sv) \<noteq> 0" "length p = STAGE_PUSH_LEN"
    "handle_cas cr fault d h old new p b now sv = (resp, sv')"
  shows "quota_used sv' d = quota_used sv d + (if resp = ROk then staged_bytes (sv_store sv) p else 0)
    \<and> (resp = ROk \<longrightarrow> promoted_bytes (fst (cas_ref cr h old b p (sv_store sv))) = staged_bytes (sv_store sv) p)"
proof -
  let ?n = "staged_bytes (sv_store sv) p" and ?cap = "storage_cap (sv_limits sv)"
  obtain ok sv1 where w: "take_write d (length b) now sv = (ok, sv1)" by fastforce
  obtain oc st where c: "cas_ref cr h old b p (sv_store sv) = (oc, st)" by fastforce
  obtain g s2 where q: "(if 0 < ?n then add_quota d ?n ?cap (sv_state sv1) else (True, sv_state sv1)) = (g, s2)"
    by fastforce
  note fr = take_write_frame [OF w]
  have u1: "quota_used (x\<lparr>sv_state := sv_state sv1\<rparr>) d = quota_used sv d" for x :: server
    using fr by (simp add: quota_used_def)
  have u2: "quota_used (x\<lparr>sv_state := s2\<rparr>) d = quota_used sv d + (if g then ?n else 0)" for x :: server
    using q assms(2) u1 [of x] add_quota_used [of d ?n ?cap "sv_state sv1" s2 x]
      add_quota_denied [of d ?n ?cap "sv_state sv1" s2 x]
    by (cases g) (auto split: if_splits)
  have u3: "quota_used (x\<lparr>sv_state := release_quota d k s2\<rparr>) d = quota_used sv d + (if g then ?n else 0) - k" for x k
    using u2 by (simp add: release_quota_used)
  have pb: "swapped oc \<longrightarrow> promoted_bytes oc = ?n"
    using c cas_ref_conflict [of cr "sv_store sv" h old b p] assms(1,3)
      cas_ref_swapped [of "sv_store sv" p cr h old b] by (fastforce simp: server_ok_def)
  have sv1: "quota_used sv1 d = quota_used sv d" using fr by (simp add: quota_used_def)
  have store: "quota_used (x\<lparr>sv_store := y\<rparr>) d = quota_used x d" for x y
    by (simp add: quota_used_def)
  have n0: "0 < ?n \<or> g" using q by (auto split: if_splits)
  show ?thesis
    using assms(4) fr(1,2) n0 sv1
    by (auto simp: handle_cas_def w c q st_try_def Let_def u2 u3 pb store split: if_splits)
qed

definition toy_capped :: server where
  "toy_capped = (Server_new (stage (replicate 16 1) (replicate 32 2) [3] 7 Store_empty))
     \<lparr>sv_limits := Limits_default\<lparr>storage_cap := 10\<rparr>\<rparr>"

lemma toy_capped_ok: "server_ok toy_capped"
proof -
  have "store_ok (stage (replicate 16 1) (replicate 32 2) [3] 7 Store_empty)"
    by (intro stage_ok Store_empty_ok) (simp_all add: STAGE_PUSH_LEN_def)
  then show ?thesis
    by (simp add: server_ok_def toy_capped_def Server_new_def ServerState_default_def roster_len_def stage_def
        Store_empty_def)
qed

theorem cas_head_charges_exactly_witness:
  "\<exists>resp sv'. handle_cas toy_crypto (\<lambda>_. False) [1] (replicate 32 9) ABSENT_HEAD (hash toy_crypto [5])
       (replicate 16 1) [5] 7 toy_capped = (resp, sv')
     \<and> quota_used sv' [1] = quota_used toy_capped [1]
         + (if resp = ROk then staged_bytes (sv_store toy_capped) (replicate 16 1) else 0)"
proof -
  obtain resp sv' where h: "handle_cas toy_crypto (\<lambda>_. False) [1] (replicate 32 9) ABSENT_HEAD (hash toy_crypto [5])
       (replicate 16 1) [5] 7 toy_capped = (resp, sv')" by fastforce
  have "storage_cap (sv_limits toy_capped) \<noteq> 0" by (simp add: toy_capped_def)
  from cas_head_charges_exactly [OF toy_capped_ok this _ h] h show ?thesis by (simp add: STAGE_PUSH_LEN_def)
qed

section \<open>Durable bytes are charged\<close>

text \<open>The bytes of the durable objects, and what all keys together have been charged.\<close>

definition obj_bytes :: "store \<Rightarrow> nat" where
  "obj_bytes st = sum_list (map (\<lambda>e. length (snd e)) (t_objects st))"

definition charged :: "server \<Rightarrow> nat" where
  "charged sv = (\<Sum>d \<in> fst ` set (quotas (sv_state sv)). quota_used sv d)"

lemma charged_over:
  assumes "finite K" "fst ` set (quotas (sv_state sv)) \<subseteq> K"
  shows "charged sv = sum (quota_used sv) K"
  unfolding charged_def
proof (rule sum.mono_neutral_left [OF assms])
  show "\<forall>d \<in> K - fst ` set (quotas (sv_state sv)). quota_used sv d = 0"
    by (metis DiffD2 map_of_eq_None_iff option.simps(4) quota_used_def)
qed

lemma charged_one:
  assumes "\<And>k. k \<noteq> d \<Longrightarrow> quota_used sv' k = quota_used sv k"
  shows "charged sv' + quota_used sv d = charged sv + quota_used sv' d"
proof -
  let ?K = "insert d (fst ` set (quotas (sv_state sv)) \<union> fst ` set (quotas (sv_state sv')))"
  have "charged sv = quota_used sv d + sum (quota_used sv) (?K - {d})" "charged sv' = quota_used sv' d + sum (quota_used sv') (?K - {d})"
    using charged_over [of ?K sv] charged_over [of ?K sv'] by (simp_all add: subset_insertI2 sum.remove [of ?K d])
  moreover have "sum (quota_used sv') (?K - {d}) = sum (quota_used sv) (?K - {d})" by (rule sum.cong) (use assms in auto)
  ultimately show ?thesis by simp
qed

lemma charged_same: "quotas (sv_state sv') = quotas (sv_state sv) \<Longrightarrow> charged sv' = charged sv"
  by (simp add: charged_def quota_used_def)

lemma insert_bytes:
  "map_of m k = None \<Longrightarrow> sum_list (map (\<lambda>e. length (snd e)) (bt_insert k v m)) = length v + sum_list (map (\<lambda>e. length (snd e)) m)"
  by (induction m) (auto split: if_splits)

lemma promote_bytes:
  "fold promote_one es (objs, n) = (objs', n') \<Longrightarrow>
     sum_list (map (\<lambda>e. length (snd e)) objs') + n = sum_list (map (\<lambda>e. length (snd e)) objs) + n'"
proof (induction es arbitrary: objs n)
  case (Cons e es)
  obtain o1 n1 where p: "promote_one e (objs, n) = (o1, n1)" by fastforce
  then have "sum_list (map (\<lambda>e. length (snd e)) o1) + n = sum_list (map (\<lambda>e. length (snd e)) objs) + n1"
    by (auto simp: promote_one_def Let_def insert_bytes split: if_splits)
  with Cons.IH [of o1 n1] Cons.prems p show ?case by simp
qed simp

lemma cas_ref_bytes: "cas_ref cr h old b p st = (oc, st') \<Longrightarrow> obj_bytes st' = obj_bytes st + promoted_bytes oc"
proof -
  assume c: "cas_ref cr h old b p st = (oc, st')"
  obtain lo hi where r: "staging_range p = (lo, hi)" by fastforce
  obtain objs n where f: "fold promote_one (bt_range lo hi (t_staging st)) (t_objects st, 0) = (objs, n)" by fastforce
  from c promote_bytes [OF f] show ?thesis by (auto simp: cas_ref_def obj_bytes_def r f split: if_splits)
qed

lemma remove_bytes: "sum_list (map (\<lambda>e. length (snd e)) (fold bt_remove ks m)) \<le> sum_list (map (\<lambda>e. length (snd e)) (m :: (bytes, bytes) btree))"
proof (induction ks arbitrary: m)
  case (Cons k ks)
  have "sum_list (map (\<lambda>e. length (snd e)) (bt_remove k m)) \<le> sum_list (map (\<lambda>e. length (snd e)) m)"
    unfolding bt_remove_def by (induction m) auto
  with Cons.IH [of "bt_remove k m"] show ?case by simp
qed simp

lemma quota_other:
  "k \<noteq> d \<Longrightarrow> quota_used (sv\<lparr>sv_state := release_quota d n s\<rparr>) k = quota_used (sv\<lparr>sv_state := s\<rparr>) k"
  "k \<noteq> d \<Longrightarrow> add_quota d n cap s = (ok, s') \<Longrightarrow> quota_used (sv\<lparr>sv_state := s'\<rparr>) k = quota_used (sv\<lparr>sv_state := s\<rparr>) k"
  by (auto simp: quota_used_def release_quota_def add_quota_def Let_def split: option.splits prod.splits if_splits)

lemma handle_cas_outcome:
  assumes "handle_cas cr fault d h old new p b now sv = (resp, sv')"
  shows "resp = ROk \<and> sv_store sv' = snd (cas_ref cr h old b p (sv_store sv)) \<or> resp \<noteq> ROk \<and> sv_store sv' = sv_store sv"
    and "k \<noteq> d \<Longrightarrow> quota_used sv' k = quota_used sv k"
proof -
  let ?n = "staged_bytes (sv_store sv) p" and ?cap = "storage_cap (sv_limits sv)"
  obtain ok sv1 where w: "take_write d (length b) now sv = (ok, sv1)" by fastforce
  obtain oc st where c: "cas_ref cr h old b p (sv_store sv) = (oc, st)" by fastforce
  obtain g s2 where q: "(if 0 < ?n then add_quota d ?n ?cap (sv_state sv1) else (True, sv_state sv1)) = (g, s2)" by fastforce
  note fr = take_write_frame [OF w]
  have un: "\<not> swapped oc \<Longrightarrow> st = sv_store sv" using c by (auto simp: cas_ref_def Let_def case_prod_beta split: if_splits)
  show "resp = ROk \<and> sv_store sv' = snd (cas_ref cr h old b p (sv_store sv)) \<or> resp \<noteq> ROk \<and> sv_store sv' = sv_store sv"
    using assms fr(1,2) un by (auto simp: handle_cas_def w c q st_try_def Let_def split: if_splits)
  assume k: "k \<noteq> d"
  have u1: "quota_used (x\<lparr>sv_state := sv_state sv1\<rparr>) k = quota_used sv k" for x :: server using fr by (simp add: quota_used_def)
  have u2: "quota_used (x\<lparr>sv_state := s2\<rparr>) k = quota_used sv k" for x :: server
    using q u1 [of x] quota_other(2) [OF k, of ?n ?cap "sv_state sv1" g s2 x] by (auto split: if_splits)
  have u3: "quota_used (x\<lparr>sv_state := release_quota d j s2\<rparr>) k = quota_used sv k" for x :: server and j
    using u2 [of x] quota_other(1) [OF k] by simp
  have "quota_used sv1 k = quota_used sv k" using fr by (simp add: quota_used_def)
  moreover have "quota_used (x\<lparr>sv_store := y\<rparr>) k = quota_used x k" for x y by (simp add: quota_used_def)
  ultimately show "quota_used sv' k = quota_used sv k"
    using assms fr(1,2) by (auto simp: handle_cas_def w c q st_try_def Let_def u2 u3 split: if_splits)
qed

text \<open>Whatever becomes durable is charged to the key that made it so.\<close>

lemma execute_charged:
  assumes "server_ok sv" "wf_request req" "storage_cap (sv_limits sv) \<noteq> 0" "execute cr fault d req now sv = (resp, sv')"
  shows "obj_bytes (sv_store sv') + charged sv \<le> obj_bytes (sv_store sv) + charged sv'"
proof -
  have same: ?thesis if "t_objects (sv_store sv') = t_objects (sv_store sv)" "quotas (sv_state sv') = quotas (sv_state sv)"
    using that(1) charged_same [OF that(2)] by (simp add: obj_bytes_def)
  have reads: ?thesis if "read_charged d x now sv = (resp, sv')" for x
  proof (rule read_charged_cases [of d x now sv])
    fix n ok sv1 assume "take_read d n now sv = (ok, sv1)" "snd (read_charged d x now sv) = sv1"
    with that take_read_frame [of d n now sv ok sv1] show ?thesis by (intro same) auto
  qed (use that same in auto)
  show ?thesis
  proof (cases req)
    case (CasHead h old new p b)
    with assms(4) have hc: "handle_cas cr fault d h old new p b now sv = (resp, sv')" by simp
    have len: "length p = STAGE_PUSH_LEN" using assms(2) CasHead by (simp add: STAGE_PUSH_LEN_def PUSH_ID_LEN_def)
    note ex = cas_head_charges_exactly [OF assms(1,3) len hc]
    have one: "charged sv' + quota_used sv d = charged sv + quota_used sv' d" by (rule charged_one) (rule handle_cas_outcome(2) [OF hc])
    obtain oc st where c: "cas_ref cr h old b p (sv_store sv) = (oc, st)" by fastforce
    from handle_cas_outcome(1) [OF hc] show ?thesis
      using ex one cas_ref_bytes [OF c] c by auto
  next
    case (Prune dead ahh l)
    let ?p = "prune_if cr dead (\<lambda>refs len. all_heads_hash cr refs = ahh \<and> len = unat l) (sv_store sv)"
    have le: "obj_bytes (snd ?p) \<le> obj_bytes (sv_store sv)" using remove_bytes by (simp add: prune_if_def obj_bytes_def)
    have "(sv_store sv' = snd ?p \<or> sv' = sv) \<and> quotas (sv_state sv') = quotas (sv_state sv)"
      using assms(4) Prune by (cases ?p; cases "fst ?p") (auto simp: st_try_def split: if_splits)
    then show ?thesis using le charged_same [of sv' sv] by auto
  next
    case (Put i n p b)
    obtain ok sv1 where w: "take_write d (length b) now sv = (ok, sv1)" by fastforce
    with Put assms(4) take_write_frame [OF w] execute_put [OF w, of cr fault i n p] show ?thesis
      by (intro same) (auto simp: stage_def simp del: execute.simps)
  next
    case (RosterBatch t es ks kh rkh rv h)
    let ?n = "sum_list (map length es) + sum_list (map (\<lambda>k. length (ks_blob k)) ks)
      + (case h of None \<Rightarrow> 0 | Some h \<Rightarrow> length (hp_new_blob h))"
    obtain ok sv1 where w: "take_write d ?n now sv = (ok, sv1)" by fastforce
    obtain r s2 where q: "sigchain_record d (length es) now (sv_state sv1) = (r, s2)" by fastforce
    obtain res st where c: "roster_batch cr (to_batch t es ks kh rkh rv h) (sv_store sv) = (res, st)" by fastforce
    have obj: "t_objects st = t_objects (sv_store sv)" using c by (auto simp: roster_batch_def Let_def case_prod_beta split: if_splits)
    show ?thesis
      using assms(4) obj take_write_frame [OF w] sigchain_state(1) [OF q] unfolding RosterBatch
      by (intro same; cases res) (auto simp: handle_roster_batch_def w c q st_try_def Let_def sigchain_state(2) split: if_splits)
  next
    case (Has ids)
    obtain ok sv1 where w: "take_read d (length ids * 32) now sv = (ok, sv1)" by fastforce
    with Has assms(4) take_read_frame [OF w] show ?thesis by (intro same) (auto simp: st_try_def split: if_splits)
  qed (use assms(4) in \<open>auto intro: reads\<close>)
qed

lemma handle_pair_quotas:
  "handle_pair req d now sv = Some (resp, sv') \<Longrightarrow> quotas (sv_state sv') = quotas (sv_state sv)"
  "handle_pair req d now sv = Some (resp, sv') \<Longrightarrow> sv_limits sv' = sv_limits sv"
  by (cases req; auto simp: pair_put_def pair_take_def take_write_def take_read_def state_take_write_def state_take_read_def Let_def case_prod_beta
      split: if_splits option.splits)+

lemma handle_charged:
  assumes "server_ok sv" "wf_request (inc_request inc)" "storage_cap (sv_limits sv) \<noteq> 0" "handle cr ss fault inc now sv = Some (resp, sv')"
  shows "obj_bytes (sv_store sv') + charged sv \<le> obj_bytes (sv_store sv) + charged sv'"
  using assms(4)
proof (cases rule: handle_cases)
  case (pair d)
  have "quotas (sv_state sv') = quotas (sv_state sv)" by (rule handle_pair_quotas(1) [OF pair(4)])
  with charged_same [OF this] handle_pair_store [OF pair(4)] show ?thesis by simp
next
  case (run d)
  from execute_charged [OF assms(1-3) run(5)] show ?thesis .
qed simp

lemma server_step_limits: "server_step cr ss a sv sv' \<Longrightarrow> server_ok sv \<Longrightarrow> sv_limits sv' = sv_limits sv"
proof (induction rule: server_step.induct)
  case (serve inc fault now sv resp sv')
  from serve.hyps(2) show ?case
  proof (cases rule: handle_cases)
    case (pair d)
    with handle_pair_quotas(2) [OF pair(4)] show ?thesis by simp
  next
    case (run d)
    with execute_state_ok [OF serve.prems, of cr fault d "inc_request inc" now] show ?thesis by simp
  qed simp
qed (auto simp: reclaim_def acquire_conn_def release_conn_def admit_def Admission_drop_def Let_def case_prod_beta split: if_splits option.splits)

lemma server_step_charged:
  assumes "server_step cr ss a sv sv'" "server_ok sv" "storage_cap (sv_limits sv) \<noteq> 0"
  shows "obj_bytes (sv_store sv') + charged sv \<le> obj_bytes (sv_store sv) + charged sv'"
  using assms
proof (induction rule: server_step.induct)
  case (housekeep sv fault now ttl)
  let ?sv' = "snd (reclaim fault now ttl sv)"
  have "store_ok (sv_store sv)" using housekeep.prems by (simp add: server_ok_def)
  from reclaim_staging_tables(4) [OF this, of now ttl] have "t_objects (sv_store ?sv') = t_objects (sv_store sv)"
    by (simp add: reclaim_def Let_def case_prod_beta)
  moreover have "quotas (sv_state ?sv') = quotas (sv_state sv)" by (simp add: reclaim_def Let_def case_prod_beta sweep_idle_def)
  ultimately show ?case using charged_same [of ?sv' sv] by (simp add: obj_bytes_def)
next
  case (serve inc fault now sv resp sv')
  then show ?case by (intro handle_charged)
qed (auto simp: acquire_conn_def release_conn_def admit_def Admission_drop_def Let_def charged_def quota_used_def split: if_splits option.splits)


text \<open>A server with a cap of ten bytes, and the head swap of an enrolled device that makes one byte durable.\<close>

definition cap_store :: store where
  "cap_store = put_keyslot (hash toy_crypto [5]) 1 [8] (stage (replicate 16 1) (replicate 32 2) [3] 7 Store_empty)"

definition cap_limits :: limits where
  "cap_limits = Limits_default\<lparr>storage_cap := 10\<rparr>"

definition cas_incoming :: incoming where
  "cas_incoming = genesis_incoming\<lparr>inc_request := CasHead (replicate 32 9) ABSENT_HEAD (hash toy_crypto [5]) (replicate 16 1) [5]\<rparr>"

lemma cas_incoming_ok: "request_ok (inc_request cas_incoming)"
  by (simp add: cas_incoming_def request_ok_simps ABSENT_HEAD_def PUSH_ID_LEN_def MAX_BLOB_SIZE_def)

lemma cas_authorized: "authorize toy_crypto toy_ssh cas_incoming 120 = Some (Inr ())"
  using label_fits [of "inc_request cas_incoming"]
  unfolding authorize_def op_and_args_eq [OF cas_incoming_ok]
  by (simp add: cas_incoming_def genesis_incoming_def WriteAuth_verify_def auth_messages DevicePublic_verify_def toy_ssh_def SERVER_NONCE_TTL_SECS_def)

lemma cas_handled:
  "\<exists>sv. handle toy_crypto toy_ssh (\<lambda>_. False) cas_incoming 120 (with_limits cap_limits (Server_new cap_store)) = Some (ROk, sv) \<and> obj_bytes (sv_store sv) = 1"
proof -
  let ?d = "hash toy_crypto [5]" and ?sv = "with_limits cap_limits (Server_new cap_store)"
  have staged: "staged_bytes cap_store (replicate 16 1) = 1" and known: "keyslot_exists cap_store ?d" by code_simp+
  have fields: "sv_store ?sv = cap_store" "sv_limits ?sv = cap_limits" "sv_state ?sv = ServerState_default"
    by (simp_all add: with_limits_def Server_new_def)
  have dev: "device_id_of toy_crypto toy_ssh (inc_pubkey cas_incoming) = Inr ?d"
    by (simp add: device_id_of_def cas_incoming_def genesis_incoming_def toy_ssh_def)
  have rq: "inc_request cas_incoming = CasHead (replicate 32 9) ABSENT_HEAD ?d (replicate 16 1) [5]" by (simp add: cas_incoming_def)
  have gate: "enrollment_gate (\<lambda>_. False) cap_store (CasHead (replicate 32 9) ABSENT_HEAD ?d (replicate 16 1) [5]) ?d = Inr ()"
    using known by (simp add: enrollment_gate_def st_try_def)
  have st: "store_ok cap_store" unfolding cap_store_def by (intro put_keyslot_ok stage_ok Store_empty_ok) (simp_all add: STAGE_PUSH_LEN_def)
  have tok: "blob_token toy_crypto (map_of (t_refs cap_store) (replicate 32 9)) = ABSENT_HEAD"
    by (simp add: blob_token_def cap_store_def put_keyslot_def stage_def Store_empty_def)
  obtain st' where c: "cas_ref toy_crypto (replicate 32 9) ABSENT_HEAD [5] (replicate 16 1) cap_store
      = (\<lparr>swapped = True, promoted_bytes = 1\<rparr>, st')"
    by (rule cas_ref_swapped [OF st _ tok, of "replicate 16 1" "[5]"]) (simp_all add: STAGE_PUSH_LEN_def staged)
  have "obj_bytes st' = 1" using cas_ref_bytes [OF c] by (simp add: obj_bytes_def cap_store_def put_keyslot_def stage_def Store_empty_def)
  moreover obtain sv1 where w: "take_write ?d (Suc 0) 120 ?sv = (True, sv1)"
    by (simp add: take_write_def state_take_write_def entry_or_def with_limits_def Server_new_def ServerState_default_def
        TokenBucket_try_take_def TokenBucket_refill_def TokenBucket_new_def WRITE_BURST_BYTES_def)
  moreover have "fst (add_quota ?d 1 10 (sv_state sv1))"
    using take_write_frame(3) [OF w] fields(3)
    by (simp add: add_quota_def ServerState_default_def entry_or_def StorageQuota_new_def StorageQuota_try_add_def checked_add_def u64_max_def Let_def case_prod_beta)
  ultimately have "\<exists>sv. execute toy_crypto (\<lambda>_. False) ?d (CasHead (replicate 32 9) ABSENT_HEAD ?d (replicate 16 1) [5]) 120 ?sv = (ROk, sv)
      \<and> obj_bytes (sv_store sv) = 1"
    using c staged take_write_frame(1,2) [OF w] fields
    by (simp add: handle_cas_def st_try_def Let_def case_prod_beta cap_limits_def)
  then show ?thesis unfolding handle_def dev rq fields(1) sum.case gate cas_authorized by auto
qed


end
