(* ===== verification/Dag.thy ===== *)
theory Dag
  imports Sec_Prelude
begin

text \<open>
  \<open>crates/secsec-sync/src/dag.rs\<close>: ancestry in the commit graph, which comes from the network and
  may contain cycles. The traversals are proved to end on every graph and to compute reachability.
\<close>

section \<open>Model\<close>

type_synonym 'a parent_map = "('a, 'a list) btree"

definition parents_of :: "'a parent_map \<Rightarrow> 'a \<Rightarrow> 'a list" where
  "parents_of parents c = (case map_of parents c of None \<Rightarrow> [] | Some ps \<Rightarrow> ps)"

text \<open>The loop state is \<open>seen\<close> and the stack \<open>work\<close>, whose top is the end of the vector.\<close>

function ancestors_loop :: "'a::linorder parent_map \<Rightarrow> 'a list \<Rightarrow> 'a list \<Rightarrow> 'a list" where
  "ancestors_loop parents seen work =
     (if work = [] then seen
      else
        let c = last work; work = butlast work
        in if c \<in> set seen then ancestors_loop parents seen work
           else
             let seen = insort_insert c seen
             in ancestors_loop parents seen (work @ filter (\<lambda>p. p \<notin> set seen) (parents_of parents c)))"
  by pat_completeness auto

lemma unseen_insert:
  "c \<notin> seen \<Longrightarrow> c \<in> fst ` set parents \<Longrightarrow> card (fst ` set parents - insert c seen) < card (fst ` set parents - seen)"
  by (rule psubset_card_mono) auto

lemma unseen_insert_le: "card (fst ` set parents - insert c seen) \<le> card (fst ` set parents - seen)"
  by (rule card_mono) auto

lemma parents_of_outside: "c \<notin> fst ` set parents \<Longrightarrow> parents_of parents c = []"
  by (simp add: parents_of_def map_of_eq_None_iff [THEN iffD2])

lemma traversal_measure:
  assumes "c \<notin> seen" "work \<noteq> []"
  shows "card (fst ` set parents - insert c seen) < card (fst ` set parents - seen)
    \<or> card (fst ` set parents - insert c seen) \<le> card (fst ` set parents - seen)
      \<and> length (butlast work @ filter P (parents_of parents c)) < length work"
proof (cases "c \<in> fst ` set parents")
  case True
  with assms(1) unseen_insert [of c seen parents] show ?thesis by blast
next
  case False
  with assms(2) show ?thesis by (simp add: unseen_insert_le parents_of_outside)
qed

termination ancestors_loop
proof (relation "measures [\<lambda>(parents, seen, work). card (fst ` set parents - set seen), \<lambda>(_, _, work). length work]")
  fix parents :: "'a parent_map" and seen work :: "'a list" and c w
  assume "work \<noteq> []" "c = last work" "w = butlast work" "c \<in> set seen"
  then show "((parents, seen, w), (parents, seen, work)) \<in>
    measures [\<lambda>(parents, seen, work). card (fst ` set parents - set seen), \<lambda>(_, _, work). length work]" by simp
next
  fix parents :: "'a parent_map" and seen work :: "'a list" and c w seen'
  assume a: "work \<noteq> []" "c = last work" "w = butlast work" "c \<notin> set seen" "seen' = insort_insert c seen"
  from traversal_measure [OF a(4,1), of parents "\<lambda>p. p \<notin> set seen'"]
  show "((parents, seen', w @ filter (\<lambda>p. p \<notin> set seen') (parents_of parents c)), (parents, seen, work)) \<in>
    measures [\<lambda>(parents, seen, work). card (fst ` set parents - set seen), \<lambda>(_, _, work). length work]"
    using a by (auto simp: set_insort_insert)
qed simp

declare ancestors_loop.simps [simp del]

definition ancestors_of_all :: "'a::linorder parent_map \<Rightarrow> 'a list \<Rightarrow> 'a list" where
  "ancestors_of_all parents starts = ancestors_loop parents [] starts"

definition ancestors :: "'a::linorder parent_map \<Rightarrow> 'a \<Rightarrow> 'a list" where
  "ancestors parents start = ancestors_of_all parents [start]"

function is_ancestor_loop :: "'a::linorder parent_map \<Rightarrow> 'a \<Rightarrow> 'a list \<Rightarrow> 'a list \<Rightarrow> bool" where
  "is_ancestor_loop parents ancestor seen work =
     (if work = [] then False
      else
        let c = last work; work = butlast work
        in if c \<in> set seen then is_ancestor_loop parents ancestor seen work
           else
             let seen = insort_insert c seen
             in if ancestor \<in> set (parents_of parents c) then True
                else is_ancestor_loop parents ancestor seen
                       (work @ filter (\<lambda>p. p \<notin> set seen) (parents_of parents c)))"
  by pat_completeness auto
termination
proof (relation "measures [\<lambda>(parents, a, seen, work). card (fst ` set parents - set seen), \<lambda>(_, _, _, work). length work]")
  fix parents :: "'a parent_map" and a :: 'a and seen work :: "'a list" and c w
  assume "work \<noteq> []" "c = last work" "w = butlast work" "c \<in> set seen"
  then show "((parents, a, seen, w), (parents, a, seen, work)) \<in>
    measures [\<lambda>(parents, a, seen, work). card (fst ` set parents - set seen), \<lambda>(_, _, _, work). length work]" by simp
next
  fix parents :: "'a parent_map" and x :: 'a and seen work :: "'a list" and c w seen'
  assume a: "work \<noteq> []" "c = last work" "w = butlast work" "c \<notin> set seen" "seen' = insort_insert c seen"
  from traversal_measure [OF a(4,1), of parents "\<lambda>p. p \<notin> set seen'"]
  show "((parents, x, seen', w @ filter (\<lambda>p. p \<notin> set seen') (parents_of parents c)), (parents, x, seen, work)) \<in>
    measures [\<lambda>(parents, a, seen, work). card (fst ` set parents - set seen), \<lambda>(_, _, _, work). length work]"
    using a by (auto simp: set_insort_insert)
qed simp

declare is_ancestor_loop.simps [simp del]

definition is_ancestor :: "'a::linorder parent_map \<Rightarrow> 'a \<Rightarrow> 'a \<Rightarrow> bool" where
  "is_ancestor parents ancestor descendant =
     (if ancestor = descendant then True else is_ancestor_loop parents ancestor [] [descendant])"

definition new_commits :: "'a::linorder parent_map \<Rightarrow> 'a option \<Rightarrow> 'a \<Rightarrow> 'a list" where
  "new_commits parents ours sibling =
     (let known = (case ours of None \<Rightarrow> [] | Some o' \<Rightarrow> ancestors parents o')
      in filter (\<lambda>c. c \<notin> set known) (ancestors parents sibling))"

definition lowest_common_ancestors :: "'a::linorder parent_map \<Rightarrow> 'a \<Rightarrow> 'a \<Rightarrow> 'a list" where
  "lowest_common_ancestors parents a b =
     (let anc_a = ancestors parents a;
          common = filter (\<lambda>c. c \<in> set anc_a) (ancestors parents b);
          parent_starts = concat (List.map_filter (\<lambda>c. map_of parents c) common);
          below = ancestors_of_all parents parent_starts
      in filter (\<lambda>c. c \<notin> set below) common)"

section \<open>Reachability\<close>

inductive parent_edge :: "'a parent_map \<Rightarrow> 'a \<Rightarrow> 'a \<Rightarrow> bool" for parents where
  edge: "p \<in> set (parents_of parents c) \<Longrightarrow> parent_edge parents c p"

inductive_simps parent_edge_iff: "parent_edge parents c p"

text \<open>\<open>reaches parents c a\<close>: \<open>a\<close> is \<open>c\<close> or an ancestor of it.\<close>

abbreviation reaches :: "'a parent_map \<Rightarrow> 'a \<Rightarrow> 'a \<Rightarrow> bool" where
  "reaches parents \<equiv> (parent_edge parents)\<^sup>*\<^sup>*"

definition closed_under :: "'a parent_map \<Rightarrow> 'a set \<Rightarrow> 'a set \<Rightarrow> bool" where
  "closed_under parents seen work \<longleftrightarrow> (\<forall>c \<in> seen. set (parents_of parents c) \<subseteq> seen \<union> work)"

definition reach_set :: "'a parent_map \<Rightarrow> 'a set \<Rightarrow> 'a set" where
  "reach_set parents S = {a. \<exists>s \<in> S. reaches parents s a}"

lemma reach_set_closed:
  assumes "closed_under parents S {}"
  shows "reach_set parents S = S"
proof -
  have "a \<in> S" if "reaches parents s a" "s \<in> S" for s a
    using that by (induction rule: rtranclp_induct) (use assms in \<open>auto simp: closed_under_def parent_edge_iff\<close>)
  then show ?thesis by (auto simp: reach_set_def)
qed

lemma reach_set_parents:
  assumes "c \<in> S" "T \<subseteq> set (parents_of parents c)"
  shows "reach_set parents (S \<union> T) = reach_set parents S"
proof -
  have "\<exists>s \<in> S. reaches parents s a" if "t \<in> T" "reaches parents t a" for t a
  proof
    show "reaches parents c a"
      using that assms(2) by (intro converse_rtranclp_into_rtranclp [of _ c t]) (auto intro: edge)
  qed (rule assms(1))
  then show ?thesis by (auto simp: reach_set_def)
qed

lemma set_work: "work \<noteq> [] \<Longrightarrow> set work = insert (last work) (set (butlast work))"
  by (cases work rule: rev_cases) auto

lemma closed_under_visit:
  assumes "closed_under parents seen (set work)" "work \<noteq> []"
  shows "closed_under parents (insert (last work) seen)
    (set (butlast work @ filter (\<lambda>p. p \<notin> insert (last work) seen) (parents_of parents (last work))))"
  using assms(1) unfolding set_work [OF assms(2)] by (fastforce simp: closed_under_def)

text \<open>One visit of the traversal leaves the set still to be computed as it is.\<close>

lemma reach_set_visit:
  assumes "work \<noteq> []"
  shows "reach_set parents (insert (last work) seen \<union>
      set (butlast work @ filter P (parents_of parents (last work)))) = reach_set parents (seen \<union> set work)"
proof -
  have "insert (last work) seen \<union> set (butlast work @ filter P (parents_of parents (last work)))
      = (seen \<union> set work) \<union> set (filter P (parents_of parents (last work)))"
    by (auto simp: set_work [OF assms])
  then show ?thesis using reach_set_parents [of "last work" "seen \<union> set work"] assms by force
qed

lemma ancestors_loop_set:
  "closed_under parents (set seen) (set work) \<Longrightarrow> bs_wf seen \<Longrightarrow>
     set (ancestors_loop parents seen work) = reach_set parents (set seen \<union> set work)
     \<and> bs_wf (ancestors_loop parents seen work)"
proof (induction parents seen work rule: ancestors_loop.induct)
  case (1 parents seen work)
  show ?case
  proof (cases "work = []")
    case True
    with 1 show ?thesis by (simp add: ancestors_loop.simps [of parents seen "[]"] reach_set_closed)
  next
    case False
    show ?thesis
    proof (cases "last work \<in> set seen")
      case True
      have "set seen \<union> set work = set seen \<union> set (butlast work)" using set_work [OF False] True by auto
      moreover have "closed_under parents (set seen) (set (butlast work))"
        using "1.prems"(1) True unfolding set_work [OF False] closed_under_def by auto
      ultimately show ?thesis
        using "1.IH"(1) [OF False refl refl True] "1.prems"(2) False True
        by (simp add: ancestors_loop.simps [of parents seen work])
    next
      case new: False
      let ?seen = "insort_insert (last work) seen"
      have s: "set ?seen = insert (last work) (set seen)" by (simp add: set_insort_insert)
      have "closed_under parents (set ?seen)
          (set (butlast work @ filter (\<lambda>p. p \<notin> set ?seen) (parents_of parents (last work))))"
        using closed_under_visit [OF "1.prems"(1) False] unfolding s .
      from "1.IH"(2) [OF False refl refl new refl this bs_wf_insort_insert [OF "1.prems"(2)]]
      show ?thesis
        using reach_set_visit [OF False, of parents "set seen"] False new
        by (simp add: ancestors_loop.simps [of parents seen work] s Let_def)
    qed
  qed
qed

lemma ancestors_of_all_set:
  "set (ancestors_of_all parents starts) = reach_set parents (set starts) \<and> bs_wf (ancestors_of_all parents starts)"
  using ancestors_loop_set [of parents "[]" starts] by (simp add: ancestors_of_all_def closed_under_def)

lemma ancestors_set: "set (ancestors parents s) = {a. reaches parents s a}"
  using ancestors_of_all_set [of parents "[s]"] by (simp add: ancestors_def reach_set_def)

lemma is_ancestor_loop_iff:
  "closed_under parents (set seen) (set work) \<Longrightarrow> a \<notin> set seen \<Longrightarrow> a \<notin> set work \<Longrightarrow>
     is_ancestor_loop parents a seen work \<longleftrightarrow> a \<in> reach_set parents (set seen \<union> set work)"
proof (induction parents a seen work rule: is_ancestor_loop.induct)
  case (1 parents a seen work)
  show ?case
  proof (cases "work = []")
    case True
    with 1 show ?thesis by (simp add: is_ancestor_loop.simps [of parents a seen "[]"] reach_set_closed)
  next
    case False
    show ?thesis
    proof (cases "last work \<in> set seen")
      case True
      have w: "set seen \<union> set work = set seen \<union> set (butlast work)" using set_work [OF False] True by auto
      have "closed_under parents (set seen) (set (butlast work))"
        using "1.prems"(1) True unfolding set_work [OF False] closed_under_def by auto
      moreover have "a \<notin> set (butlast work)" using "1.prems"(3) in_set_butlastD by fastforce
      ultimately show ?thesis
        using "1.IH"(1) [OF False refl refl True] "1.prems"(2) False True w
        by (simp add: is_ancestor_loop.simps [of parents a seen work])
    next
      case new: False
      let ?seen = "insort_insert (last work) seen"
      have s: "set ?seen = insert (last work) (set seen)" by (simp add: set_insort_insert)
      show ?thesis
      proof (cases "a \<in> set (parents_of parents (last work))")
        case True
        then have "a \<in> reach_set parents (set seen \<union> set work)"
          using False by (auto simp: reach_set_def intro!: bexI [of _ "last work"] edge)
        with True False new show ?thesis by (simp add: is_ancestor_loop.simps [of parents a seen work])
      next
        case no: False
        have cl: "closed_under parents (set ?seen)
            (set (butlast work @ filter (\<lambda>p. p \<notin> set ?seen) (parents_of parents (last work))))"
          using closed_under_visit [OF "1.prems"(1) False] unfolding s .
        have "a \<notin> set ?seen" "a \<notin> set (butlast work @ filter (\<lambda>p. p \<notin> set ?seen) (parents_of parents (last work)))"
          using "1.prems"(2,3) no set_work [OF False] by (auto simp: s)
        with "1.IH"(2) [OF False refl refl new refl no cl] show ?thesis
          using reach_set_visit [OF False, of parents "set seen"] False new no
          by (simp add: is_ancestor_loop.simps [of parents a seen work] s Let_def)
      qed
    qed
  qed
qed

lemma is_ancestor_reaches: "is_ancestor parents a d \<longleftrightarrow> reaches parents d a"
  using is_ancestor_loop_iff [of parents "[]" "[d]" a]
  by (auto simp: is_ancestor_def closed_under_def reach_set_def)

lemma new_commits_set:
  "set (new_commits parents ours sib) =
     {c. reaches parents sib c \<and> (\<forall>o' \<in> set_option ours. \<not> reaches parents o' c)}"
  by (auto simp: new_commits_def ancestors_set Let_def split: option.splits)

section \<open>Properties\<close>

text \<open>
  The ancestry test is reachability. On every parent map, cyclic ones included,
  \<open>is_ancestor\<close> ends and answers whether the one commit is the other or reached from it through
  parents; \<open>new_commits\<close> is exactly what the sibling reaches and our head does not.
\<close>

theorem is_ancestor_is_reachability:
  "(is_ancestor parents a d \<longleftrightarrow> reaches parents d a)
   \<and> set (new_commits parents (Some o') sib) = {c. reaches parents sib c \<and> \<not> reaches parents o' c}
   \<and> distinct (new_commits parents (Some o') sib)"
proof -
  have "distinct (ancestors parents sib)"
    using ancestors_of_all_set [of parents "[sib]"] by (simp add: ancestors_def strict_sorted_iff)
  then show ?thesis
    by (simp add: is_ancestor_reaches new_commits_set) (simp add: new_commits_def Let_def)
qed

lemma parent_starts_set:
  "set (concat (List.map_filter (\<lambda>c. map_of parents c) cs)) = {p. \<exists>c \<in> set cs. parent_edge parents c p}"
  by (auto simp: List.map_filter_def parent_edge_iff parents_of_def split: option.splits) (metis option.sel option.distinct(1))+

lemma lca_set:
  "set (lowest_common_ancestors parents a b) =
     {c. reaches parents a c \<and> reaches parents b c
       \<and> \<not> (\<exists>c'. reaches parents a c' \<and> reaches parents b c' \<and> (parent_edge parents)\<^sup>+\<^sup>+ c' c)}"
proof -
  let ?common = "filter (\<lambda>c. c \<in> set (ancestors parents a)) (ancestors parents b)"
  have common: "set ?common = {c. reaches parents a c \<and> reaches parents b c}"
    by (auto simp: ancestors_set)
  have "set (ancestors_of_all parents (concat (List.map_filter (\<lambda>c. map_of parents c) ?common)))
      = {x. \<exists>c' \<in> set ?common. (parent_edge parents)\<^sup>+\<^sup>+ c' x}"
    unfolding ancestors_of_all_set [THEN conjunct1] reach_set_def parent_starts_set
    by (auto simp: tranclp_unfold_left)
  then show ?thesis
    unfolding lowest_common_ancestors_def Let_def using common by auto
qed

text \<open>The maximal elements of a finite acyclic set exist.\<close>

lemma reaches_finite: "finite {a. reaches (parents :: 'a::linorder parent_map) s a}"
  by (metis ancestors_set finite_set)

lemma maximal_exists:
  assumes "\<forall>c. \<not> (parent_edge parents)\<^sup>+\<^sup>+ c c" "finite C" "x \<in> C"
  shows "\<exists>c \<in> C. \<not> (\<exists>c' \<in> C. (parent_edge parents)\<^sup>+\<^sup>+ c' c)"
proof -
  let ?r = "{(c', c). c' \<in> C \<and> c \<in> C \<and> (parent_edge parents)\<^sup>+\<^sup>+ c' c}"
  have "acyclic ?r"
  proof (rule acyclicI, rule allI, rule notI)
    fix x assume "(x, x) \<in> ?r\<^sup>+"
    moreover have "(x, y) \<in> ?r\<^sup>+ \<Longrightarrow> (parent_edge parents)\<^sup>+\<^sup>+ x y" for x y
      by (induction rule: trancl_induct) (auto intro: tranclp_trans)
    ultimately have "(parent_edge parents)\<^sup>+\<^sup>+ x x" by blast
    with assms(1) show False by blast
  qed
  moreover have "finite ?r"
    by (rule finite_subset [of _ "C \<times> C"]) (use assms(2) in auto)
  ultimately have "wf ?r" using finite_acyclic_wf by blast
  then have "\<exists>z \<in> C. \<forall>y. (y, z) \<in> ?r \<longrightarrow> y \<notin> C"
    using assms(3) unfolding wf_eq_minimal by (elim allE [of _ C] allE [of _ x] mp)
  then obtain z where z: "z \<in> C" "\<forall>y. (y, z) \<in> ?r \<longrightarrow> y \<notin> C" by (elim bexE) (rule that)
  have "\<not> (parent_edge parents)\<^sup>+\<^sup>+ c' z" if "c' \<in> C" for c'
    using z(2) [THEN spec, of c'] z(1) that by simp
  with z(1) show ?thesis by (intro bexI [of _ z]) simp_all
qed

text \<open>
  C35: the merge base is the set of lowest common ancestors. On every parent map
  \<open>lowest_common_ancestors\<close> ends and returns the common ancestors that are not proper ancestors of
  another common ancestor; when the graph has no cycle and the two commits share history, there
  is at least one.
\<close>

theorem lowest_common_ancestors_correct:
  "set (lowest_common_ancestors parents a b) =
     {c. reaches parents a c \<and> reaches parents b c
       \<and> \<not> (\<exists>c'. reaches parents a c' \<and> reaches parents b c' \<and> (parent_edge parents)\<^sup>+\<^sup>+ c' c)}
   \<and> ((\<forall>c. \<not> (parent_edge parents)\<^sup>+\<^sup>+ c c) \<longrightarrow> (\<exists>c. reaches parents a c \<and> reaches parents b c)
       \<longrightarrow> lowest_common_ancestors parents a b \<noteq> [])"
proof (intro conjI impI)
  show "set (lowest_common_ancestors parents a b) =
     {c. reaches parents a c \<and> reaches parents b c
       \<and> \<not> (\<exists>c'. reaches parents a c' \<and> reaches parents b c' \<and> (parent_edge parents)\<^sup>+\<^sup>+ c' c)}"
    by (rule lca_set)
next
  assume ac: "\<forall>c. \<not> (parent_edge parents)\<^sup>+\<^sup>+ c c" and "\<exists>c. reaches parents a c \<and> reaches parents b c"
  then obtain x where x: "x \<in> {c. reaches parents a c \<and> reaches parents b c}" by blast
  have "finite {c. reaches parents a c \<and> reaches parents b c}"
    by (rule finite_subset [OF _ reaches_finite [of parents a]]) auto
  from maximal_exists [OF ac this x] have "set (lowest_common_ancestors parents a b) \<noteq> {}"
    unfolding lca_set by auto
  then show "lowest_common_ancestors parents a b \<noteq> []" by auto
qed

definition toy_dag :: "nat parent_map" where
  "toy_dag = [(1, [0]), (2, [1]), (3, [1])]"

theorem lowest_common_ancestors_correct_witness:
  "1 \<in> set (lowest_common_ancestors toy_dag 2 3)"
proof -
  have e: "parent_edge toy_dag 2 1" "parent_edge toy_dag 3 1"
    by (simp_all add: parent_edge_iff parents_of_def toy_dag_def)
  have only: "parent_edge toy_dag c p \<Longrightarrow> (c = 1 \<and> p = 0) \<or> (c = 2 \<and> p = 1) \<or> (c = 3 \<and> p = 1)" for c p
    by (auto simp: parent_edge_iff parents_of_def toy_dag_def split: if_splits)
  have down: "(parent_edge toy_dag)\<^sup>+\<^sup>+ c p \<Longrightarrow> p < c" for c p
    by (induction rule: tranclp_induct) (auto dest!: only)
  have one: "reaches toy_dag 2 c \<Longrightarrow> c = 2 \<or> c \<le> 1" for c
    by (induction rule: rtranclp_induct) (auto dest!: only)
  have three: "reaches toy_dag 3 c \<Longrightarrow> c = 3 \<or> c \<le> 1" for c
    by (induction rule: rtranclp_induct) (auto dest!: only)
  have "\<not> (\<exists>c'. reaches toy_dag 2 c' \<and> reaches toy_dag 3 c' \<and> (parent_edge toy_dag)\<^sup>+\<^sup>+ c' 1)"
    using one three down by fastforce
  with e lowest_common_ancestors_correct [of toy_dag 2 3] show ?thesis by blast
qed

end
