(* ===== verification/Head.thy ===== *)
theory Head
  imports Objects Proto
begin

text \<open>
  \<open>crates/secsec-sync/src/lib.rs\<close>: the signed, encrypted head of a ref. A ref name is a \<open>String\<close>,
  kept as its UTF-8 bytes. Nonces come from the caller. \<open>None\<close> is the panic of the writer.
\<close>

section \<open>Model\<close>

definition HEAD_NONCE_LEN :: nat where "HEAD_NONCE_LEN = 12"
definition HEAD_TAG_LEN :: nat where "HEAD_TAG_LEN = 16"
definition MAX_REF_NAME :: nat where "MAX_REF_NAME = 4096"
definition NO_PREV_HEAD :: bytes where "NO_PREV_HEAD = replicate 32 0"

record head =
  ref_name :: bytes
  commit_id :: bytes
  head_version :: u64
  roster_seq :: u64
  prev_head :: bytes

datatype head_error =
    HeadBadBlobSize
  | HeadFrame frame_error
  | HeadAead
  | HeadUnknownGeneration u32
  | HeadCanon canon_error
  | NonUtf8
  | RefMismatch
  | HeadBadSignature
  | VersionExhausted
  | HeadSig sig_error

definition ref_hash :: "crypto \<Rightarrow> bytes \<Rightarrow> bytes \<Rightarrow> bytes" where
  "ref_hash cr rnk name = keyed_hash cr rnk name"

definition Head_signed_message :: "head \<Rightarrow> bytes option" where
  "Head_signed_message h =
     Writer_finish (writes [Writer_bytes (ref_name h), Writer_raw (commit_id h), Writer_u64 (head_version h),
       Writer_u64 (roster_seq h), Writer_raw (prev_head h)] Writer_new)"

definition sign_head :: "ssh \<Rightarrow> bytes \<Rightarrow> head \<Rightarrow> (head_error + bytes) option" where
  "sign_head ss sk h =
     map_option (\<lambda>m. map_err HeadSig (DeviceKey_sign ss sk NS_HEAD m)) (Head_signed_message h)"

definition verify_head :: "ssh \<Rightarrow> bytes \<Rightarrow> head \<Rightarrow> bytes \<Rightarrow> (head_error + unit) option" where
  "verify_head ss pk h sg =
     map_option (\<lambda>m. map_err (\<lambda>_. HeadBadSignature) (DevicePublic_verify ss pk NS_HEAD m sg)) (Head_signed_message h)"

definition head_id :: "crypto \<Rightarrow> head \<Rightarrow> bytes option" where
  "head_id cr h = map_option (hash cr) (Head_signed_message h)"

definition build_head :: "crypto \<Rightarrow> bytes \<Rightarrow> bytes \<Rightarrow> u64 \<Rightarrow> head option \<Rightarrow> (head_error + head) option" where
  "build_head cr name cid rs prev =
     (case prev of
        None \<Rightarrow> Some (Inr \<lparr>ref_name = name, commit_id = cid, head_version = 1, roster_seq = rs, prev_head = NO_PREV_HEAD\<rparr>)
      | Some p \<Rightarrow>
          if head_version p = - 1 then Some (Inl VersionExhausted)
          else map_option (\<lambda>pid. Inr \<lparr>ref_name = name, commit_id = cid, head_version = head_version p + 1,
                 roster_seq = rs, prev_head = pid\<rparr>) (head_id cr p))"

definition encode_head :: "head \<times> bytes \<Rightarrow> bytes option" where
  "encode_head hs =
     (let (h, sg) = hs
      in Writer_finish (writes [Writer_bytes (ref_name h), Writer_raw (commit_id h), Writer_u64 (head_version h),
           Writer_u64 (roster_seq h), Writer_raw (prev_head h), Writer_bytes sg] Writer_new))"

definition decode_head :: "bytes \<Rightarrow> head_error + head \<times> bytes" where
  "decode_head b =
     rbind (map_err HeadCanon (Reader_bytes MAX_REF_NAME (Reader_new b))) (\<lambda>(name, r).
     if \<not> from_utf8_ok name then Inl NonUtf8 else
     rbind (map_err HeadCanon (Reader_raw 32 r)) (\<lambda>(cid, r).
     rbind (map_err HeadCanon (Reader_u64 r)) (\<lambda>(hv, r).
     rbind (map_err HeadCanon (Reader_u64 r)) (\<lambda>(rs, r).
     rbind (map_err HeadCanon (Reader_raw 32 r)) (\<lambda>(ph, r).
     rbind (map_err HeadCanon (Reader_bytes MAX_SIG_LEN r)) (\<lambda>(sg, r).
     rbind (map_err HeadCanon (Reader_finish r)) (\<lambda>_.
     let h = \<lparr>ref_name = name, commit_id = cid, head_version = hv, roster_seq = rs, prev_head = ph\<rparr> in
     rbind (map_err HeadCanon (verify_reencode b (h, sg) encode_head)) (\<lambda>_.
     Inr (h, sg)))))))))"

definition head_ad :: "frame \<Rightarrow> bytes \<Rightarrow> bytes" where
  "head_ad f rh = Frame_encode f @ rh"

definition seal_head :: "crypto \<Rightarrow> master_key \<Rightarrow> bytes \<Rightarrow> head \<Rightarrow> bytes \<Rightarrow> bytes \<Rightarrow> bytes option" where
  "seal_head cr mk rnk h sg nonce =
     (let f = Frame_v1 (generation mk) THead;
          ad = head_ad f (ref_hash cr rnk (ref_name h))
      in map_option (\<lambda>pt.
           let (tag, ct) = seal_mut cr (head_key cr mk) nonce ad pt
           in Frame_encode f @ nonce @ tag @ ct) (encode_head (h, sg)))"

definition open_head :: "crypto \<Rightarrow> master_keys \<Rightarrow> bytes \<Rightarrow> bytes \<Rightarrow> bytes \<Rightarrow> head_error + head \<times> bytes" where
  "open_head cr keys rnk name blob =
     (if MAX_BLOB_SIZE < length blob \<or> length blob < FRAME_LEN + HEAD_NONCE_LEN + HEAD_TAG_LEN
      then Inl HeadBadBlobSize else
      rbind (map_err HeadFrame (Frame_decode (take FRAME_LEN blob))) (\<lambda>f.
      rbind (ok_or (HeadUnknownGeneration (gen f)) (for_gen keys (gen f))) (\<lambda>mk.
      if f \<noteq> Frame_v1 (generation mk) THead then Inl (HeadFrame FrameMismatch) else
      let nonce = take HEAD_NONCE_LEN (drop FRAME_LEN blob);
          tag = take HEAD_TAG_LEN (drop (FRAME_LEN + HEAD_NONCE_LEN) blob);
          ct = drop (FRAME_LEN + HEAD_NONCE_LEN + HEAD_TAG_LEN) blob;
          ad = head_ad f (ref_hash cr rnk name) in
      rbind (map_err (\<lambda>_. HeadAead) (open_mut cr (head_key cr mk) nonce ad tag ct)) (\<lambda>pt.
      rbind (decode_head pt) (\<lambda>(h, sg).
      if ref_name h \<noteq> name then Inl RefMismatch else Inr (h, sg))))))"

section \<open>The head plaintext\<close>

definition head_wf :: "head \<times> bytes \<Rightarrow> bool" where
  "head_wf hs \<longleftrightarrow>
     length (ref_name (fst hs)) \<le> MAX_REF_NAME \<and> from_utf8_ok (ref_name (fst hs))
     \<and> length (commit_id (fst hs)) = 32 \<and> length (prev_head (fst hs)) = 32 \<and> length (snd hs) \<le> MAX_SIG_LEN"

lemma head_sizes: "n \<le> MAX_REF_NAME \<Longrightarrow> n \<le> u32_max" "n \<le> MAX_SIG_LEN \<Longrightarrow> n \<le> u32_max"
  by (simp_all add: MAX_REF_NAME_def MAX_SIG_LEN_def u32_max_def)

definition head_img :: "head \<Rightarrow> bytes" where
  "head_img h = bytes_img (ref_name h) @ commit_id h @ le_bytes 8 (head_version h) @ le_bytes 8 (roster_seq h) @ prev_head h"

lemma encode_head_img: "head_wf (h, sg) \<Longrightarrow> encode_head (h, sg) = Some (head_img h @ bytes_img sg)"
  by (simp add: encode_head_def head_wf_def head_img_def head_sizes)

interpretation name_codec: codec bytes_img "\<lambda>b. length b \<le> MAX_REF_NAME \<and> length b \<le> u32_max" Writer_bytes
  "Reader_bytes MAX_REF_NAME"
  by (rule bytes_codec)

interpretation sig_codec: codec bytes_img "\<lambda>b. length b \<le> MAX_SIG_LEN \<and> length b \<le> u32_max" Writer_bytes
  "Reader_bytes MAX_SIG_LEN"
  by (rule bytes_codec)

interpretation id_codec: codec "\<lambda>b. b" "\<lambda>b. length b = 32" Writer_raw "Reader_raw 32"
  by (rule raw_codec)

lemma decode_head_encoded:
  assumes "head_wf (h, sg)" "encode_head (h, sg) = Some b"
  shows "decode_head b = Inr (h, sg)"
proof -
  let ?r0 = "Reader_new b" and ?n = "length (bytes_img (ref_name h))"
  have b: "b = bytes_img (ref_name h) @ commit_id h @ le_bytes 8 (head_version h) @ le_bytes 8 (roster_seq h)
      @ prev_head h @ bytes_img sg"
    using assms by (simp add: encode_head_img head_img_def)
  have wf: "length (commit_id h) = 32" "length (prev_head h) = 32" "from_utf8_ok (ref_name h)"
    using assms(1) by (simp_all add: head_wf_def)
  have 1: "Reader_bytes MAX_REF_NAME ?r0 = Inr (ref_name h, adv ?n ?r0)"
    by (rule name_codec.read_back) (use assms(1) b in \<open>simp_all add: head_wf_def head_sizes\<close>)
  have 2: "Reader_raw 32 (adv ?n ?r0) = Inr (commit_id h, adv 32 (adv ?n ?r0))"
    using id_codec.read_back [of "adv ?n ?r0" "commit_id h"] b wf by simp
  have 3: "Reader_u64 (adv 32 (adv ?n ?r0)) = Inr (head_version h, adv 8 (adv 32 (adv ?n ?r0)))"
    using c_u64.read_back [of "adv 32 (adv ?n ?r0)" "head_version h"] b wf by simp
  have 4: "Reader_u64 (adv 8 (adv 32 (adv ?n ?r0))) = Inr (roster_seq h, adv 8 (adv 8 (adv 32 (adv ?n ?r0))))"
    using c_u64.read_back [of "adv 8 (adv 32 (adv ?n ?r0))" "roster_seq h"] b wf by simp
  have 5: "Reader_raw 32 (adv 8 (adv 8 (adv 32 (adv ?n ?r0)))) = Inr (prev_head h, adv 32 (adv 8 (adv 8 (adv 32 (adv ?n ?r0)))))"
    using id_codec.read_back [of "adv 8 (adv 8 (adv 32 (adv ?n ?r0)))" "prev_head h"] b wf by simp
  have 6: "Reader_bytes MAX_SIG_LEN (adv 32 (adv 8 (adv 8 (adv 32 (adv ?n ?r0)))))
      = Inr (sg, adv (length (bytes_img sg)) (adv 32 (adv 8 (adv 8 (adv 32 (adv ?n ?r0))))))"
    by (rule sig_codec.read_back [where ys = "[]"]) (use assms(1) b wf in \<open>simp_all add: head_wf_def head_sizes\<close>)
  have 7: "rest (adv (length (bytes_img sg)) (adv 32 (adv 8 (adv 8 (adv 32 (adv ?n ?r0)))))) = []"
    using b wf by simp
  have eta: "\<lparr>ref_name = ref_name h, commit_id = commit_id h, head_version = head_version h,
      roster_seq = roster_seq h, prev_head = prev_head h\<rparr> = h" by simp
  show ?thesis
    using assms(2) wf(3) 7
    by (simp add: decode_head_def 1 2 3 4 5 6 Reader_finish_rest verify_reencode_def Let_def eta
        del: length_bytes_img rest_adv)
qed

lemma decode_head_accepted:
  assumes "decode_head b = Inr (h, sg)"
  shows "head_wf (h, sg) \<and> encode_head (h, sg) = Some b"
proof -
  from assms obtain name r1 cid r2 hv r3 rs r4 ph r5 r6 where
    r: "Reader_bytes MAX_REF_NAME (Reader_new b) = Inr (name, r1)" "from_utf8_ok name"
      "Reader_raw 32 r1 = Inr (cid, r2)" "Reader_u64 r2 = Inr (hv, r3)" "Reader_u64 r3 = Inr (rs, r4)"
      "Reader_raw 32 r4 = Inr (ph, r5)" "Reader_bytes MAX_SIG_LEN r5 = Inr (sg, r6)"
    and h: "h = \<lparr>ref_name = name, commit_id = cid, head_version = hv, roster_seq = rs, prev_head = ph\<rparr>"
    and v: "verify_reencode b (h, sg) encode_head = Inr ()"
    by (auto simp: decode_head_def rbind_eq_Inr Let_def split: if_splits prod.splits)
  have "head_wf (h, sg)"
    using name_codec.accepted [OF r(1)] id_codec.accepted [OF r(3)] id_codec.accepted [OF r(6)]
      sig_codec.accepted [OF r(7)] r(2) h by (simp add: head_wf_def)
  with v show ?thesis by (auto simp: verify_reencode_def split: option.splits if_splits)
qed

lemma decode_head_iff: "decode_head b = Inr hs \<longleftrightarrow> head_wf hs \<and> encode_head hs = Some b"
  using decode_head_encoded decode_head_accepted by (cases hs) blast

section \<open>Sealed heads\<close>

lemma open_head_iff:
  "open_head cr keys rnk name blob = Inr (h, sg) \<longleftrightarrow>
     (\<exists>mk nonce. for_gen keys (generation mk) = Some mk \<and> length nonce = HEAD_NONCE_LEN
        \<and> head_wf (h, sg) \<and> ref_name h = name \<and> seal_head cr mk rnk h sg nonce = Some blob
        \<and> length blob \<le> MAX_BLOB_SIZE)" (is "?l \<longleftrightarrow> ?r")
proof
  assume ?l
  then obtain f mk pt where *: "length blob \<le> MAX_BLOB_SIZE" "FRAME_LEN + HEAD_NONCE_LEN + HEAD_TAG_LEN \<le> length blob"
    "Frame_decode (take FRAME_LEN blob) = Inr f" "for_gen keys (gen f) = Some mk"
    "f = Frame_v1 (generation mk) THead"
    "open_mut cr (head_key cr mk) (take HEAD_NONCE_LEN (drop FRAME_LEN blob)) (head_ad f (ref_hash cr rnk name))
       (take HEAD_TAG_LEN (drop (FRAME_LEN + HEAD_NONCE_LEN) blob))
       (drop (FRAME_LEN + HEAD_NONCE_LEN + HEAD_TAG_LEN) blob) = Inr pt"
    "decode_head pt = Inr (h, sg)" "ref_name h = name"
    by (auto simp: open_head_def rbind_eq_Inr Let_def split: if_splits prod.splits)
  let ?nonce = "take HEAD_NONCE_LEN (drop FRAME_LEN blob)"
  have hw: "head_wf (h, sg)" "encode_head (h, sg) = Some pt" using *(7) by (simp_all add: decode_head_iff)
  have "seal_mut cr (head_key cr mk) ?nonce (head_ad f (ref_hash cr rnk name)) pt
      = (take HEAD_TAG_LEN (drop (FRAME_LEN + HEAD_NONCE_LEN) blob), drop (FRAME_LEN + HEAD_NONCE_LEN + HEAD_TAG_LEN) blob)"
    using *(6) mut.opens_iff [of cr "(head_key cr mk, ?nonce)"] by simp
  moreover have "Frame_encode f @ ?nonce @ take HEAD_TAG_LEN (drop (FRAME_LEN + HEAD_NONCE_LEN) blob)
      @ drop (FRAME_LEN + HEAD_NONCE_LEN + HEAD_TAG_LEN) blob = blob"
    using Frame_decode_accepted [OF *(3)]
    by (metis add.assoc add.commute append_take_drop_id drop_drop)
  ultimately have "seal_head cr mk rnk h sg ?nonce = Some blob"
    using hw(2) *(5,8) by (simp add: seal_head_def Let_def)
  moreover have "length ?nonce = HEAD_NONCE_LEN" using *(2) by simp
  ultimately show ?r using *(1,4,5,8) hw(1) by (intro exI [of _ mk] exI [of _ ?nonce]) simp
next
  assume ?r
  then obtain mk nonce where *: "for_gen keys (generation mk) = Some mk" "length nonce = HEAD_NONCE_LEN"
    "head_wf (h, sg)" "ref_name h = name" "seal_head cr mk rnk h sg nonce = Some blob" "length blob \<le> MAX_BLOB_SIZE"
    by blast
  let ?f = "Frame_v1 (generation mk) THead"
  obtain pt where pt: "encode_head (h, sg) = Some pt" using encode_head_img [OF *(3)] by blast
  obtain tag ct where s: "seal_mut cr (head_key cr mk) nonce (head_ad ?f (ref_hash cr rnk name)) pt = (tag, ct)"
    by fastforce
  then have blob: "blob = Frame_encode ?f @ nonce @ tag @ ct"
    using *(4,5) pt by (simp add: seal_head_def Let_def)
  have tag: "length tag = HEAD_TAG_LEN"
    using mut.tag_length [of cr "(head_key cr mk, nonce)" "head_ad ?f (ref_hash cr rnk name)" pt] s
    by (simp add: HEAD_TAG_LEN_def)
  have o: "open_mut cr (head_key cr mk) nonce (head_ad ?f (ref_hash cr rnk name)) tag ct = Inr pt"
    using mut.opens_seal [of cr "(head_key cr mk, nonce)" _ pt tag ct] s by simp
  have d: "decode_head pt = Inr (h, sg)" using *(3) pt by (simp add: decode_head_iff)
  show ?l
    using * o tag by (simp add: open_head_def Let_def blob Frame_decode_encode d not_less)
qed

section \<open>Properties\<close>

text \<open>
  A head opens exactly as its own sealing under its own ref. \<open>open_head\<close> returns a head and its
  signature for a ref name if and only if the blob, within the size bound, is the sealing under some
  nonce of that very head and signature, by a master key the ring files under its own generation,
  with that ref name inside; a blob moved to another ref, re-framed or altered does not open, and
  every well-formed head that is sealed opens again.
\<close>

theorem open_head_accepts_exactly_sealings:
  "open_head cr keys rnk name blob = Inr (h, sg) \<longleftrightarrow>
     (\<exists>mk nonce. for_gen keys (generation mk) = Some mk \<and> length nonce = HEAD_NONCE_LEN
        \<and> head_wf (h, sg) \<and> ref_name h = name \<and> seal_head cr mk rnk h sg nonce = Some blob
        \<and> length blob \<le> MAX_BLOB_SIZE)"
  by (rule open_head_iff)

lemma Head_signed_message_img:
  "length (ref_name h) \<le> u32_max \<Longrightarrow> Head_signed_message h = Some (head_img h)"
  by (simp add: Head_signed_message_def head_img_def)

lemma head_img_inj:
  assumes "head_img h = head_img h'" "length (ref_name h) \<le> u32_max" "length (ref_name h') \<le> u32_max"
    "length (commit_id h) = 32" "length (commit_id h') = 32"
  shows "h = h'"
proof -
  have "ref_name h = ref_name h'"
    "commit_id h @ le_bytes 8 (head_version h) @ le_bytes 8 (roster_seq h) @ prev_head h
      = commit_id h' @ le_bytes 8 (head_version h') @ le_bytes 8 (roster_seq h') @ prev_head h'"
    using bytes_img_inj [of "ref_name h" _ "ref_name h'"] assms(1-3) unfolding head_img_def by blast+
  with assms(4,5) show ?thesis by (simp add: le_bytes_8_inj head.equality)
qed

text \<open>
  Heads form a hash chain with growing versions. A head built on a previous one has exactly the
  next version and names the previous head: any head with that id is the same head, unless BLAKE3
  collides on their two encodings. The version never wraps; at its maximum building fails.
\<close>

theorem build_head_chains:
  assumes "build_head cr name cid rs (Some p) = Some (Inr h)" "head_wf (p, [])" "head_wf (q, [])"
  shows "unat (head_version h) = unat (head_version p) + 1 \<and> roster_seq h = rs \<and> commit_id h = cid
    \<and> head_id cr p = Some (prev_head h)
    \<and> (head_id cr q = Some (prev_head h) \<longrightarrow> q = p \<or> hash_clash cr (head_img q) (head_img p))"
proof -
  have np: "head_version p \<noteq> - 1" and pid: "head_id cr p = Some (prev_head h)"
    and h: "head_version h = head_version p + 1" "roster_seq h = rs" "commit_id h = cid"
    using assms(1) by (auto simp: build_head_def split: if_splits)
  have "unat (head_version p + 1) = unat (head_version p) + 1"
    using np by (metis Suc_eq_plus1 add.commute unatSuc add_eq_0_iff2 add.inverse_inverse)
  moreover have "q = p \<or> hash_clash cr (head_img q) (head_img p)" if "head_id cr q = Some (prev_head h)"
  proof -
    have u: "length (ref_name p) \<le> u32_max" "length (ref_name q) \<le> u32_max"
      "length (commit_id p) = 32" "length (commit_id q) = 32"
      using assms(2,3) by (simp_all add: head_wf_def head_sizes)
    then have "hash cr (head_img q) = hash cr (head_img p)"
      using that pid by (simp add: head_id_def Head_signed_message_img)
    with hash_inj head_img_inj [of q p] u show ?thesis by blast
  qed
  ultimately show ?thesis using h pid by simp
qed

definition toy_head :: head where
  "toy_head = \<lparr>ref_name = [109], commit_id = replicate 32 1, head_version = 4, roster_seq = 2, prev_head = NO_PREV_HEAD\<rparr>"

theorem build_head_chains_witness:
  "\<exists>h. build_head toy_crypto [109] (replicate 32 5) 3 (Some toy_head) = Some (Inr h)
     \<and> unat (head_version h) = 5 \<and> roster_seq h = 3"
proof -
  have wf: "head_wf (toy_head, [])"
    by (simp add: head_wf_def toy_head_def MAX_REF_NAME_def NO_PREV_HEAD_def)
  have "\<exists>h. build_head toy_crypto [109] (replicate 32 5) 3 (Some toy_head) = Some (Inr h)"
    by (simp add: build_head_def toy_head_def head_id_def Head_signed_message_img u32_max_def)
  then obtain h where h: "build_head toy_crypto [109] (replicate 32 5) 3 (Some toy_head) = Some (Inr h)" by blast
  from build_head_chains [OF h wf wf] h show ?thesis by (simp add: toy_head_def)
qed

end
