(* ===== verification/Rollback.thy ===== *)
theory Rollback
  imports Dag Head
begin

text \<open>
  \<open>crates/secsec-sync/src/rollback.rs\<close>: the frontier of high-water marks a device keeps, the gates
  that check a fetched head against it, and the sealed local blob it is stored in. The nonce of the
  seal is the parameter (\<open>None\<close> when the generator fails).
\<close>

section \<open>Model\<close>

definition FRONTIER_NONCE_LEN :: nat where "FRONTIER_NONCE_LEN = 12"
definition FRONTIER_TAG_LEN :: nat where "FRONTIER_TAG_LEN = 16"

record sync_frontier =
  f_roster_seq :: u64
  commit_version_hwm :: "(bytes, u64) btree"
  head_version_hwm :: "(bytes, u64) btree"

record sibling_head =
  sh_device_id :: bytes
  sh_head_version :: u64
  sh_roster_seq :: u64
  sh_commit_id :: bytes

text \<open>Members are scanned in key order; the first whose key verifies the signature signed it.\<close>

fun find_signer :: "ssh \<Rightarrow> head \<Rightarrow> bytes \<Rightarrow> (bytes, bytes) btree \<Rightarrow> bytes option" where
  "find_signer ss h sg [] = None"
| "find_signer ss h sg ((i, pk) # ms) =
     (if verify_head ss pk h sg = Some (Inr ()) then Some i else find_signer ss h sg ms)"

definition SiblingHead_verified :: "ssh \<Rightarrow> (bytes, bytes) btree \<Rightarrow> head \<Rightarrow> bytes \<Rightarrow> sibling_head option" where
  "SiblingHead_verified ss members h sg =
     map_option (\<lambda>d. \<lparr>sh_device_id = d, sh_head_version = head_version h, sh_roster_seq = roster_seq h,
       sh_commit_id = commit_id h\<rparr>) (find_signer ss h sg members)"

record commit_meta =
  cm_device_id :: bytes
  cm_version :: u64

datatype merge_decision = AlreadyHave | FastForward | Merge

datatype merge_reject =
    RosterRollback u64 u64
  | CommitReplay bytes u64 u64
  | IncompleteDag bytes
  | HeadRollback bytes u64 u64

definition hwm_of :: "bytes \<Rightarrow> (bytes, u64) btree \<Rightarrow> u64" where
  "hwm_of d m = (case map_of m d of None \<Rightarrow> 0 | Some v \<Rightarrow> v)"

fun check_commits :: "sync_frontier \<Rightarrow> bytes \<Rightarrow> bytes list \<Rightarrow> (bytes, commit_meta) btree \<Rightarrow> merge_reject + unit" where
  "check_commits f local_device [] meta = Inr ()"
| "check_commits f local_device (c # cs) meta =
     (case map_of meta c of
        None \<Rightarrow> Inl (IncompleteDag c)
      | Some m \<Rightarrow>
          if cm_device_id m = local_device then check_commits f local_device cs meta
          else
            let hwm = hwm_of (cm_device_id m) (commit_version_hwm f)
            in if cm_version m \<le> hwm then Inl (CommitReplay (cm_device_id m) (cm_version m) hwm)
               else check_commits f local_device cs meta)"

definition check_gates :: "sync_frontier \<Rightarrow> sibling_head \<Rightarrow> bytes \<Rightarrow> bytes list \<Rightarrow> (bytes, commit_meta) btree
    \<Rightarrow> merge_reject + unit" where
  "check_gates f sib local_device new meta =
     (if sh_roster_seq sib < f_roster_seq f then Inl (RosterRollback (sh_roster_seq sib) (f_roster_seq f))
      else rbind (check_commits f local_device new meta) (\<lambda>_.
        let head_hwm = hwm_of (sh_device_id sib) (head_version_hwm f)
        in if sh_head_version sib < head_hwm
           then Inl (HeadRollback (sh_device_id sib) (sh_head_version sib) head_hwm) else Inr ()))"

definition evaluate_merge :: "sync_frontier \<Rightarrow> bytes \<Rightarrow> sibling_head \<Rightarrow> bytes \<Rightarrow> bytes parent_map
    \<Rightarrow> (bytes, commit_meta) btree \<Rightarrow> merge_reject + merge_decision" where
  "evaluate_merge f our_head sib local_device parents meta =
     (if is_ancestor parents (sh_commit_id sib) our_head then Inr AlreadyHave
      else rbind (check_gates f sib local_device (new_commits parents (Some our_head) (sh_commit_id sib)) meta) (\<lambda>_.
        if is_ancestor parents our_head (sh_commit_id sib) then Inr FastForward else Inr Merge))"

definition raise_hwm :: "bytes \<Rightarrow> u64 \<Rightarrow> (bytes, u64) btree \<Rightarrow> (bytes, u64) btree" where
  "raise_hwm d v m = bt_insert d (max (hwm_of d m) v) m"

definition observe_head :: "sibling_head \<Rightarrow> sync_frontier \<Rightarrow> sync_frontier" where
  "observe_head sib f =
     f\<lparr>f_roster_seq := max (f_roster_seq f) (sh_roster_seq sib),
       head_version_hwm := raise_hwm (sh_device_id sib) (sh_head_version sib) (head_version_hwm f)\<rparr>"

definition observe_commit :: "(bytes, commit_meta) btree \<Rightarrow> bytes \<Rightarrow> sync_frontier \<Rightarrow> sync_frontier" where
  "observe_commit meta c f =
     (case map_of meta c of
        None \<Rightarrow> f
      | Some m \<Rightarrow> f\<lparr>commit_version_hwm := raise_hwm (cm_device_id m) (cm_version m) (commit_version_hwm f)\<rparr>)"

definition observe :: "sibling_head \<Rightarrow> bytes list \<Rightarrow> (bytes, commit_meta) btree \<Rightarrow> sync_frontier \<Rightarrow> sync_frontier" where
  "observe sib new meta f = fold (observe_commit meta) new (observe_head sib f)"

definition with_heads_of :: "sync_frontier \<Rightarrow> sync_frontier \<Rightarrow> bytes \<times> u64 \<Rightarrow> sync_frontier" where
  "with_heads_of f observed own =
     f\<lparr>f_roster_seq := f_roster_seq observed, head_version_hwm := head_version_hwm observed,
       commit_version_hwm := raise_hwm (fst own) (snd own) (commit_version_hwm f)\<rparr>"

datatype frontier_error = FrontierBadBlobSize | FrontierAead | FrontierCanon canon_error

definition encode_hwm :: "(bytes, u64) btree \<Rightarrow> writer \<Rightarrow> writer" where
  "encode_hwm m w =
     fold (\<lambda>(i, v). writes [Writer_raw i, Writer_u64 v]) m (Writer_u64 (of_nat (length m)) w)"

definition read_hwm_entry :: "reader \<Rightarrow> canon_error + (bytes \<times> u64) \<times> reader" where
  "read_hwm_entry r =
     rbind (Reader_raw 32 r) (\<lambda>(i, r). rbind (Reader_u64 r) (\<lambda>(v, r). Inr ((i, v), r)))"

definition decode_hwm :: "reader \<Rightarrow> canon_error + (bytes, u64) btree \<times> reader" where
  "decode_hwm r =
     rbind (Reader_u64 r) (\<lambda>(n, r).
     if of_nat MAX_LIST_ELEMENTS < n then Inl (LengthExceedsMax (unat n) MAX_LIST_ELEMENTS) else
     rbind (read_times (unat n) read_hwm_entry r) (\<lambda>(es, r).
     Inr (fold (\<lambda>e. bt_insert (fst e) (snd e)) es [], r)))"

definition SyncFrontier_encode :: "sync_frontier \<Rightarrow> bytes option" where
  "SyncFrontier_encode f =
     Writer_finish (writes [Writer_u64 (f_roster_seq f), encode_hwm (commit_version_hwm f),
       encode_hwm (head_version_hwm f)] Writer_new)"

definition SyncFrontier_decode :: "bytes \<Rightarrow> frontier_error + sync_frontier" where
  "SyncFrontier_decode b =
     rbind (map_err FrontierCanon (Reader_u64 (Reader_new b))) (\<lambda>(rs, r).
     rbind (map_err FrontierCanon (decode_hwm r)) (\<lambda>(cv, r).
     rbind (map_err FrontierCanon (decode_hwm r)) (\<lambda>(hv, r).
     rbind (map_err FrontierCanon (Reader_finish r)) (\<lambda>_.
     let f = \<lparr>f_roster_seq = rs, commit_version_hwm = cv, head_version_hwm = hv\<rparr> in
     rbind (map_err FrontierCanon (verify_reencode b f SyncFrontier_encode)) (\<lambda>_. Inr f)))))"

definition seal_frontier :: "crypto \<Rightarrow> bytes option \<Rightarrow> sync_frontier \<Rightarrow> bytes \<Rightarrow> bytes \<Rightarrow> bytes option" where
  "seal_frontier cr nonce f lsk device_id =
     Option.bind nonce (\<lambda>nonce.
     Option.bind (SyncFrontier_encode f) (\<lambda>pt.
     let (tag, ct) = seal_mut cr lsk nonce device_id pt in Some (nonce @ tag @ ct)))"

definition open_frontier :: "crypto \<Rightarrow> bytes \<Rightarrow> bytes \<Rightarrow> bytes \<Rightarrow> frontier_error + sync_frontier" where
  "open_frontier cr lsk device_id blob =
     (if length blob < FRONTIER_NONCE_LEN + FRONTIER_TAG_LEN then Inl FrontierBadBlobSize else
      let nonce = take FRONTIER_NONCE_LEN blob;
          tag = take FRONTIER_TAG_LEN (drop FRONTIER_NONCE_LEN blob);
          ct = drop (FRONTIER_NONCE_LEN + FRONTIER_TAG_LEN) blob in
      rbind (map_err (\<lambda>_. FrontierAead) (open_mut cr lsk nonce device_id tag ct)) SyncFrontier_decode)"

section \<open>The frontier only grows\<close>

definition hwm_le :: "(bytes, u64) btree \<Rightarrow> (bytes, u64) btree \<Rightarrow> bool" where
  "hwm_le m m' \<longleftrightarrow> (\<forall>d. hwm_of d m \<le> hwm_of d m')"

definition frontier_le :: "sync_frontier \<Rightarrow> sync_frontier \<Rightarrow> bool" where
  "frontier_le f f' \<longleftrightarrow> f_roster_seq f \<le> f_roster_seq f'
     \<and> hwm_le (commit_version_hwm f) (commit_version_hwm f')
     \<and> hwm_le (head_version_hwm f) (head_version_hwm f')"

lemma frontier_le_refl [simp]: "frontier_le f f"
  by (simp add: frontier_le_def hwm_le_def)

lemma frontier_le_trans: "frontier_le f g \<Longrightarrow> frontier_le g h \<Longrightarrow> frontier_le f h"
  unfolding frontier_le_def hwm_le_def by (meson order_trans)

lemma hwm_of_raise: "hwm_of d (raise_hwm d' v m) = (if d = d' then max (hwm_of d m) v else hwm_of d m)"
  by (simp add: hwm_of_def raise_hwm_def)

lemma hwm_le_raise: "hwm_le m (raise_hwm d v m)"
  by (simp add: hwm_le_def hwm_of_raise)

lemma observe_head_le: "frontier_le f (observe_head sib f)"
  using hwm_le_raise by (simp add: frontier_le_def observe_head_def) (simp add: hwm_le_def)

lemma observe_commit_le: "frontier_le f (observe_commit meta c f)"
  using hwm_le_raise by (auto simp: frontier_le_def observe_commit_def hwm_le_def split: option.split)

lemma observe_commits_le: "frontier_le f (fold (observe_commit meta) cs f)"
  by (induction cs arbitrary: f) (auto intro: frontier_le_trans observe_commit_le)

lemma observe_le: "frontier_le f (observe sib new meta f)"
  unfolding observe_def using observe_head_le observe_commits_le frontier_le_trans by blast

lemma observe_records_commit:
  assumes "c \<in> set cs" "map_of meta c = Some m"
  shows "cm_version m \<le> hwm_of (cm_device_id m) (commit_version_hwm (fold (observe_commit meta) cs f))"
  using assms(1)
proof (induction cs arbitrary: f)
  case (Cons x cs)
  show ?case
  proof (cases "c = x")
    case True
    have "cm_version m \<le> hwm_of (cm_device_id m) (commit_version_hwm (observe_commit meta x f))"
      using True assms(2) by (simp add: observe_commit_def hwm_of_raise)
    also have "\<dots> \<le> hwm_of (cm_device_id m) (commit_version_hwm (fold (observe_commit meta) cs (observe_commit meta x f)))"
      using observe_commits_le [of "observe_commit meta x f" meta cs] by (simp add: frontier_le_def hwm_le_def)
    finally show ?thesis by simp
  next
    case False
    with Cons show ?thesis by simp
  qed
qed simp

lemma observe_records:
  "sh_roster_seq sib \<le> f_roster_seq (observe sib new meta f)"
  "sh_head_version sib \<le> hwm_of (sh_device_id sib) (head_version_hwm (observe sib new meta f))"
  "c \<in> set new \<Longrightarrow> map_of meta c = Some m \<Longrightarrow>
     cm_version m \<le> hwm_of (cm_device_id m) (commit_version_hwm (observe sib new meta f))"
proof -
  have le: "frontier_le (observe_head sib f) (observe sib new meta f)"
    unfolding observe_def by (rule observe_commits_le)
  have "sh_roster_seq sib \<le> f_roster_seq (observe_head sib f)"
    "sh_head_version sib \<le> hwm_of (sh_device_id sib) (head_version_hwm (observe_head sib f))"
    by (simp_all add: observe_head_def hwm_of_raise)
  with le show "sh_roster_seq sib \<le> f_roster_seq (observe sib new meta f)"
    "sh_head_version sib \<le> hwm_of (sh_device_id sib) (head_version_hwm (observe sib new meta f))"
    unfolding frontier_le_def hwm_le_def by (meson order_trans)+
qed (simp add: observe_def observe_records_commit)

section \<open>What the gates accept\<close>

lemma check_commits_ok:
  "check_commits f l cs meta = Inr u \<longleftrightarrow>
     (\<forall>c \<in> set cs. \<exists>m. map_of meta c = Some m
        \<and> (cm_device_id m = l \<or> hwm_of (cm_device_id m) (commit_version_hwm f) < cm_version m))"
  by (induction cs) (auto simp: Let_def not_le split: option.splits if_splits)

lemma check_gates_ok:
  "check_gates f sib l new meta = Inr u \<longleftrightarrow>
     f_roster_seq f \<le> sh_roster_seq sib \<and> hwm_of (sh_device_id sib) (head_version_hwm f) \<le> sh_head_version sib
     \<and> (\<forall>c \<in> set new. \<exists>m. map_of meta c = Some m
          \<and> (cm_device_id m = l \<or> hwm_of (cm_device_id m) (commit_version_hwm f) < cm_version m))"
  by (auto simp: check_gates_def rbind_eq_Inr check_commits_ok Let_def not_less split: if_splits)

section \<open>The life of a frontier\<close>

text \<open>
  The ways a client derives the frontier it seals next: absorb an accepted head with its commits,
  absorb a head alone, or write the pre-push frontier from what it has observed since.
\<close>

inductive later_frontier :: "sync_frontier \<Rightarrow> sync_frontier \<Rightarrow> bool" where
  keep: "later_frontier f f"
| observe_step: "later_frontier f g \<Longrightarrow> later_frontier f (observe sib new meta g)"
| head_step: "later_frontier f g \<Longrightarrow> later_frontier f (observe_head sib g)"
| pre_push_step: "later_frontier f g \<Longrightarrow> later_frontier g h \<Longrightarrow> later_frontier f (with_heads_of g h own)"

lemma with_heads_of_le: "frontier_le g h \<Longrightarrow> frontier_le g (with_heads_of g h own)"
  by (simp add: frontier_le_def with_heads_of_def hwm_le_raise)

lemma later_frontier_le: "later_frontier f g \<Longrightarrow> frontier_le f g"
proof (induction rule: later_frontier.induct)
  case (observe_step f g sib new meta)
  then show ?case using observe_le frontier_le_trans by blast
next
  case (head_step f g sib)
  then show ?case using observe_head_le frontier_le_trans by blast
next
  case (pre_push_step f g h own)
  then show ?case using with_heads_of_le frontier_le_trans by blast
qed simp

lemma frontier_leD:
  assumes "frontier_le f g"
  shows "f_roster_seq f \<le> f_roster_seq g" "hwm_of d (commit_version_hwm f) \<le> hwm_of d (commit_version_hwm g)"
    "hwm_of d (head_version_hwm f) \<le> hwm_of d (head_version_hwm g)"
  using assms by (simp_all add: frontier_le_def hwm_le_def)

section \<open>The frontier plaintext\<close>

definition hwm_wf :: "(bytes, u64) btree \<Rightarrow> bool" where
  "hwm_wf m \<longleftrightarrow> bt_wf m \<and> length m \<le> MAX_LIST_ELEMENTS \<and> list_all (\<lambda>e. length (fst e) = 32) m"

definition frontier_wf :: "sync_frontier \<Rightarrow> bool" where
  "frontier_wf f \<longleftrightarrow> hwm_wf (commit_version_hwm f) \<and> hwm_wf (head_version_hwm f)"

definition hwm_entry_img :: "bytes \<times> u64 \<Rightarrow> bytes" where
  "hwm_entry_img e = fst e @ le_bytes 8 (snd e)"

definition hwm_img :: "(bytes, u64) btree \<Rightarrow> bytes" where
  "hwm_img m = le_bytes 8 (of_nat (length m) :: u64) @ concat (map hwm_entry_img m)"

interpretation hwm_entry: codec hwm_entry_img "\<lambda>e. length (fst e) = 32"
  "\<lambda>(i, v). writes [Writer_raw i, Writer_u64 v]" read_hwm_entry
proof unfold_locales
  fix e :: "bytes \<times> u64" and r ys
  assume r: "rest r = hwm_entry_img e @ ys" and l: "length (fst e) = 32"
  have "Reader_raw 32 r = Inr (fst e, adv 32 r)"
    using id_codec.read_back [of r "fst e"] r l by (simp add: hwm_entry_img_def)
  moreover have "Reader_u64 (adv 32 r) = Inr (snd e, adv 8 (adv 32 r))"
    using c_u64.read_back [of "adv 32 r" "snd e"] r l by (simp add: hwm_entry_img_def)
  ultimately show "read_hwm_entry r = Inr (e, adv (length (hwm_entry_img e)) r)"
    using l by (simp add: read_hwm_entry_def hwm_entry_img_def adv_adv)
next
  fix r e r'
  assume "read_hwm_entry r = Inr (e, r')"
  then obtain r1 where "Reader_raw 32 r = Inr (fst e, r1)" "Reader_u64 r1 = Inr (snd e, r')"
    by (auto simp: read_hwm_entry_def rbind_eq_Inr)
  then show "length (fst e) = 32 \<and> rest r = hwm_entry_img e @ rest r'"
    using id_codec.accepted c_u64.accepted by (fastforce simp: hwm_entry_img_def)
qed (auto simp: hwm_entry_img_def)

lemma encode_hwm_img: "hwm_wf m \<Longrightarrow> encode_hwm m (Some s) = Some (s @ hwm_img m)"
  using hwm_entry.written_list [of m "s @ le_bytes 8 (of_nat (length m) :: u64)"]
  by (simp add: encode_hwm_def hwm_img_def hwm_wf_def)

lemma fold_bt_insert_sorted:
  assumes wf: "bt_wf m"
  shows "fold (\<lambda>e. bt_insert (fst e) (snd e)) m [] = m"
proof (rule bt_eqI)
  have "map_of (rev m) = map_of m"
    using bt_wf_distinct [OF wf] by (subst map_of_inject_set) (simp_all flip: rev_map)
  then show "map_of (fold (\<lambda>e. bt_insert (fst e) (snd e)) m []) = map_of m"
    by (intro ext) (simp add: bt.get_fold_put rev_map split: option.split)
qed (use wf in \<open>simp_all add: bt.invar_fold_put\<close>)

lemma unat_of_nat_list_len: "n \<le> MAX_LIST_ELEMENTS \<Longrightarrow> unat (of_nat n :: u64) = n"
  by (simp add: unat_of_nat MAX_LIST_ELEMENTS_def)

lemma list_len_ok: "(of_nat MAX_LIST_ELEMENTS :: u64) < n \<longleftrightarrow> MAX_LIST_ELEMENTS < unat n"
  by (simp add: word_less_nat_alt unat_of_nat_list_len)

lemma decode_hwm_read_back:
  assumes "hwm_wf m" "rest r = hwm_img m @ ys"
  shows "decode_hwm r = Inr (m, adv (length (hwm_img m)) r)"
proof -
  have n: "Reader_u64 r = Inr (of_nat (length m), adv 8 r)"
    using c_u64.read_back [of r "of_nat (length m)"] assms(2) by (simp add: hwm_img_def)
  have es: "read_times (length m) read_hwm_entry (adv 8 r) = Inr (m, adv (length (concat (map hwm_entry_img m))) (adv 8 r))"
    by (rule hwm_entry.times_read_back [where ys = ys]) (use assms in \<open>simp_all add: hwm_wf_def hwm_img_def\<close>)
  show ?thesis
    using assms(1) by (simp add: decode_hwm_def n list_len_ok unat_of_nat_list_len es hwm_wf_def
        fold_bt_insert_sorted hwm_img_def adv_adv)
qed

lemma decode_hwm_accepted:
  assumes "decode_hwm r = Inr (m, r')"
  shows "hwm_wf m"
proof -
  from assms obtain n :: u64 and r1 es where n: "\<not> MAX_LIST_ELEMENTS < unat n"
    and es: "read_times (unat n) read_hwm_entry r1 = Inr (es, r')" and m: "m = fold (\<lambda>e. bt_insert (fst e) (snd e)) es []"
    by (auto simp: decode_hwm_def rbind_eq_Inr list_len_ok split: if_splits)
  have fold_inv: "bt_wf (fold (\<lambda>e. bt_insert (fst e) (snd e)) es m0) \<and> length (fold (\<lambda>e. bt_insert (fst e) (snd e)) es m0) \<le> length es + length m0
      \<and> fst ` set (fold (\<lambda>e. bt_insert (fst e) (snd e)) es m0) = fst ` set es \<union> fst ` set m0"
    if "bt_wf m0" for m0 :: "(bytes, u64) btree"
    using that
  proof (induction es arbitrary: m0)
    case (Cons e es)
    have "length (bt_insert (fst e) (snd e) m0) \<le> Suc (length m0)" by (rule length_bt_insert_le)
    with Cons.IH [OF bt_wf_bt_insert [OF Cons.prems], of "fst e" "snd e"] show ?case
      by (auto simp: set_map_fst_bt_insert split: prod.splits)
  qed simp
  have "list_all (\<lambda>e. length (fst e) = 32) es \<and> length es = unat n" using hwm_entry.times_accepted [OF es] by simp
  then have "\<forall>i \<in> fst ` set m. length i = 32" "length m \<le> MAX_LIST_ELEMENTS"
    using fold_inv [of "[]"] n m by (auto simp: list_all_iff)
  moreover have "bt_wf m" using fold_inv [of "[]"] m by simp
  ultimately show ?thesis by (auto simp: hwm_wf_def list_all_iff)
qed

lemma SyncFrontier_encode_img:
  "frontier_wf f \<Longrightarrow> SyncFrontier_encode f =
     Some (le_bytes 8 (f_roster_seq f) @ hwm_img (commit_version_hwm f) @ hwm_img (head_version_hwm f))"
  by (simp add: SyncFrontier_encode_def frontier_wf_def encode_hwm_img)

lemma SyncFrontier_decode_iff:
  "SyncFrontier_decode b = Inr f \<longleftrightarrow> frontier_wf f \<and> SyncFrontier_encode f = Some b" (is "?l \<longleftrightarrow> ?r")
proof
  assume ?l
  then obtain rs r1 cv r2 hv r3 where "decode_hwm r1 = Inr (cv, r2)" "decode_hwm r2 = Inr (hv, r3)"
    and f: "f = \<lparr>f_roster_seq = rs, commit_version_hwm = cv, head_version_hwm = hv\<rparr>"
    and v: "verify_reencode b f SyncFrontier_encode = Inr ()"
    by (auto simp: SyncFrontier_decode_def rbind_eq_Inr Let_def split: prod.splits)
  then have "frontier_wf f" using decode_hwm_accepted by (auto simp: frontier_wf_def)
  with v show ?r by (auto simp: verify_reencode_def split: option.splits if_splits)
next
  assume r: ?r
  let ?r0 = "Reader_new b" and ?c = "hwm_img (commit_version_hwm f)" and ?h = "hwm_img (head_version_hwm f)"
  have b: "b = le_bytes 8 (f_roster_seq f) @ ?c @ ?h" using r SyncFrontier_encode_img [of f] by simp
  have 1: "Reader_u64 ?r0 = Inr (f_roster_seq f, adv 8 ?r0)"
    using c_u64.read_back [of ?r0 "f_roster_seq f"] b by simp
  have 2: "decode_hwm (adv 8 ?r0) = Inr (commit_version_hwm f, adv (length ?c) (adv 8 ?r0))"
    by (rule decode_hwm_read_back) (use r b in \<open>simp_all add: frontier_wf_def\<close>)
  have 3: "decode_hwm (adv (length ?c) (adv 8 ?r0)) = Inr (head_version_hwm f, adv (length ?h) (adv (length ?c) (adv 8 ?r0)))"
    by (rule decode_hwm_read_back [where ys = "[]"]) (use r b in \<open>simp_all add: frontier_wf_def\<close>)
  have 4: "rest (adv (length ?h) (adv (length ?c) (adv 8 ?r0))) = []" using b by simp
  have eta: "\<lparr>f_roster_seq = f_roster_seq f, commit_version_hwm = commit_version_hwm f,
      head_version_hwm = head_version_hwm f\<rparr> = f" by simp
  show ?l
    using r 4 by (simp add: eta SyncFrontier_decode_def 1 2 3 verify_reencode_def Let_def Reader_finish_rest del: rest_adv)
qed

section \<open>The sealed frontier\<close>

lemma open_frontier_iff:
  "open_frontier cr lsk dev blob = Inr f \<longleftrightarrow>
     (\<exists>nonce. length nonce = FRONTIER_NONCE_LEN \<and> frontier_wf f
        \<and> seal_frontier cr (Some nonce) f lsk dev = Some blob)" (is "?l \<longleftrightarrow> ?r")
proof
  let ?nonce = "take FRONTIER_NONCE_LEN blob" and ?tag = "take FRONTIER_TAG_LEN (drop FRONTIER_NONCE_LEN blob)"
    and ?ct = "drop (FRONTIER_NONCE_LEN + FRONTIER_TAG_LEN) blob"
  assume ?l
  then obtain pt where *: "FRONTIER_NONCE_LEN + FRONTIER_TAG_LEN \<le> length blob"
    "open_mut cr lsk ?nonce dev ?tag ?ct = Inr pt" "SyncFrontier_decode pt = Inr f"
    by (auto simp: open_frontier_def rbind_eq_Inr Let_def split: if_splits)
  have "seal_mut cr lsk ?nonce dev pt = (?tag, ?ct)"
    using *(2) mut.opens_iff [of cr "(lsk, ?nonce)"] by simp
  moreover have "?nonce @ ?tag @ ?ct = blob" by (metis add.commute append_take_drop_id drop_drop)
  moreover have "frontier_wf f" "SyncFrontier_encode f = Some pt" using *(3) by (simp_all add: SyncFrontier_decode_iff)
  moreover have "length ?nonce = FRONTIER_NONCE_LEN" using *(1) by simp
  ultimately show ?r by (intro exI [of _ ?nonce]) (simp add: seal_frontier_def)
next
  assume ?r
  then obtain nonce pt tag ct where *: "length nonce = FRONTIER_NONCE_LEN" "frontier_wf f"
    "SyncFrontier_encode f = Some pt" "seal_mut cr lsk nonce dev pt = (tag, ct)" "blob = nonce @ tag @ ct"
    by (fastforce simp: seal_frontier_def bind_eq_Some_conv case_prod_beta)
  have "length tag = FRONTIER_TAG_LEN"
    using mut.tag_length [of cr "(lsk, nonce)" dev pt] *(4) by (simp add: FRONTIER_TAG_LEN_def)
  moreover have "open_mut cr lsk nonce dev tag ct = Inr pt"
    using mut.opens_seal [of cr "(lsk, nonce)" _ pt tag ct] *(4) by simp
  moreover have "SyncFrontier_decode pt = Inr f" using * by (simp add: SyncFrontier_decode_iff)
  ultimately show ?l using * by (simp add: open_frontier_def Let_def)
qed

section \<open>Properties\<close>

text \<open>
  C3: a rollback is detected for good. Once a head and its new commits have been absorbed, and
  however the frontier was carried on since, a head that passes the gates has a roster sequence at
  least as high; if the same device signed it, its head version is at least as high; and every commit
  of it that is new and not our own has a version strictly above that of every commit absorbed from
  the same device. An old head, or a replayed commit, is refused.
\<close>

theorem rollback_detected:
  assumes "later_frontier (observe sib new meta f) f'" "check_gates f' sib' l new' meta' = Inr ()"
  shows "sh_roster_seq sib \<le> sh_roster_seq sib'
    \<and> (sh_device_id sib' = sh_device_id sib \<longrightarrow> sh_head_version sib \<le> sh_head_version sib')
    \<and> (\<forall>c \<in> set new. \<forall>c' \<in> set new'. \<forall>m m'. map_of meta c = Some m \<longrightarrow> map_of meta' c' = Some m' \<longrightarrow>
         cm_device_id m' = cm_device_id m \<longrightarrow> cm_device_id m' \<noteq> l \<longrightarrow> cm_version m < cm_version m')"
proof (intro conjI ballI allI impI)
  note le = later_frontier_le [OF assms(1)]
  note ok = assms(2) [unfolded check_gates_ok]
  show "sh_roster_seq sib \<le> sh_roster_seq sib'"
    using observe_records(1) [of sib new meta f] frontier_leD(1) [OF le] ok by (meson order_trans)
  show "sh_head_version sib \<le> sh_head_version sib'" if "sh_device_id sib' = sh_device_id sib"
    using observe_records(2) [of sib new meta f] frontier_leD(3) [OF le, of "sh_device_id sib"] ok that
    by (metis order_trans)
  show "cm_version m < cm_version m'" if "c \<in> set new" "c' \<in> set new'" "map_of meta c = Some m"
    "map_of meta' c' = Some m'" "cm_device_id m' = cm_device_id m" "cm_device_id m' \<noteq> l" for c c' m m'
  proof -
    have "cm_version m \<le> hwm_of (cm_device_id m) (commit_version_hwm f')"
      using observe_records(3) [OF that(1,3), of sib f] frontier_leD(2) [OF le, of "cm_device_id m"] by simp
    moreover have "hwm_of (cm_device_id m) (commit_version_hwm f') < cm_version m'"
      using ok that(2,4,5,6) by fastforce
    ultimately show ?thesis by simp
  qed
qed

definition toy_sib :: "u64 \<Rightarrow> sibling_head" where
  "toy_sib v = \<lparr>sh_device_id = [7], sh_head_version = v, sh_roster_seq = 1, sh_commit_id = [3]\<rparr>"

definition toy_meta :: "(bytes, commit_meta) btree" where
  "toy_meta = [([2], \<lparr>cm_device_id = [7], cm_version = 5\<rparr>), ([3], \<lparr>cm_device_id = [7], cm_version = 6\<rparr>)]"

definition toy_frontier :: sync_frontier where
  "toy_frontier = \<lparr>f_roster_seq = 0, commit_version_hwm = [], head_version_hwm = []\<rparr>"

theorem rollback_detected_witness:
  "check_gates (observe (toy_sib 1) [[2]] toy_meta toy_frontier) (toy_sib 2) [9] [[3]] toy_meta = Inr ()
   \<and> sh_head_version (toy_sib 1) \<le> sh_head_version (toy_sib 2)"
proof -
  have g: "check_gates (observe (toy_sib 1) [[2]] toy_meta toy_frontier) (toy_sib 2) [9] [[3]] toy_meta = Inr ()"
    by (simp add: check_gates_ok observe_def observe_head_def observe_commit_def hwm_of_raise
        toy_sib_def toy_meta_def toy_frontier_def hwm_of_def [of _ "[]"])
  from rollback_detected [OF keep g] g show ?thesis by (simp add: toy_sib_def)
qed

text \<open>
  The merge decision is the right one. A fetched head is "already have" exactly when its commit
  is in our history, checked before any gate; otherwise it is accepted exactly when its roster
  sequence and head version are not below the frontier and every commit it adds has metadata and is
  our own or above its author's high-water mark; it is then a fast-forward exactly when our head is
  in its history, and a merge when neither contains the other.
\<close>

theorem evaluate_merge_decides:
  "evaluate_merge f our sib l parents meta = Inr d \<longleftrightarrow>
     (if reaches parents our (sh_commit_id sib) then d = AlreadyHave
      else f_roster_seq f \<le> sh_roster_seq sib
        \<and> hwm_of (sh_device_id sib) (head_version_hwm f) \<le> sh_head_version sib
        \<and> {c. reaches parents (sh_commit_id sib) c \<and> \<not> reaches parents our c}
            \<subseteq> {c. \<exists>m. map_of meta c = Some m
                 \<and> (cm_device_id m = l \<or> hwm_of (cm_device_id m) (commit_version_hwm f) < cm_version m)}
        \<and> d = (if reaches parents (sh_commit_id sib) our then FastForward else Merge))"
  by (auto simp: evaluate_merge_def is_ancestor_reaches rbind_eq_Inr check_gates_ok new_commits_set subset_iff)

text \<open>
  A sealed frontier opens exactly as what was sealed. \<open>open_frontier\<close> returns a frontier if and
  only if the blob is the sealing, under this device's key and identity and some nonce, of that
  frontier, whose maps are ascending, duplicate-free, of 32-byte device ids and within the element
  bound. Anything else is a lost-frontier event, and every such frontier opens again.
\<close>

theorem open_frontier_accepts_exactly_seals:
  "open_frontier cr lsk dev blob = Inr f \<longleftrightarrow>
     (\<exists>nonce. length nonce = FRONTIER_NONCE_LEN \<and> frontier_wf f
        \<and> seal_frontier cr (Some nonce) f lsk dev = Some blob)"
  by (rule open_frontier_iff)

end
