(* ===== verification/Merge.thy ===== *)
theory Merge
  imports Frame Crypto
begin

text \<open>
  \<open>crates/secsec-sync/src/merge.rs\<close>: the three-way merge of directory trees. A \<open>BTreeMap\<close> of
  children is an ascending association list; a \<open>String\<close> is its UTF-8 bytes. Where the source would
  abort (the counter of keep-both names is a checked \<open>u32\<close>) the model returns \<open>None\<close>; the
  properties show that this does not happen for trees of fewer than a billion entries.
\<close>

section \<open>Model\<close>

datatype node =
    File (node_mode: u32) (node_mtime: u64) (file_size: u64) (path_salt: bytes) (chunk_ids: "bytes list")
  | Dir (node_mode: u32) (node_mtime: u64) (dir_salt: bytes) (children: "(bytes \<times> node) list")

type_synonym dir = "(bytes, node) btree"

fun with_mode :: "u32 \<Rightarrow> node \<Rightarrow> node" where
  "with_mode m (File _ t sz s cs) = File m t sz s cs"
| "with_mode m (Dir _ t s ch) = Dir m t s ch"

datatype conflict_kind = ModifyModify | ModifyDelete | AddAdd | TypeChange

record conflict =
  conflict_path :: bytes
  conflict_kind :: conflict_kind

record merge =
  merge_tree :: dir
  merge_conflicts :: "conflict list"

definition merge_empty :: merge where
  "merge_empty = \<lparr>merge_tree = [], merge_conflicts = []\<rparr>"

fun same_content :: "node \<Rightarrow> node \<Rightarrow> bool" where
  "same_content (File _ _ _ _ x) (File _ _ _ _ y) = (x = y)"
| "same_content (Dir _ _ _ x) (Dir _ _ _ y) =
     (length x = length y
      \<and> list_all (\<lambda>e. case map_of y (fst e) of None \<Rightarrow> False | Some w \<Rightarrow> same_content (snd e) w) x)"
| "same_content _ _ = False"

fun same_opt :: "node option \<Rightarrow> node option \<Rightarrow> bool" where
  "same_opt None None = True"
| "same_opt (Some x) (Some y) = same_content x y"
| "same_opt _ _ = False"

definition pick3 :: "u32 option \<Rightarrow> u32 \<Rightarrow> u32 \<Rightarrow> u32" where
  "pick3 base ours theirs = (if ours = theirs \<or> base \<noteq> Some ours then ours else theirs)"

text \<open>\<open>rsplit_once('.')\<close>: the text before and after the last dot.\<close>

fun rsplit_dot :: "bytes \<Rightarrow> (bytes \<times> bytes) option" where
  "rsplit_dot [] = None"
| "rsplit_dot (b # bs) =
     (case rsplit_dot bs of
        Some (stem, ext) \<Rightarrow> Some (b # stem, ext)
      | None \<Rightarrow> if b = 46 then Some ([], bs) else None)"

definition is_char_boundary :: "bytes \<Rightarrow> nat \<Rightarrow> bool" where
  "is_char_boundary s i \<longleftrightarrow>
     i = 0 \<or> i = length s \<or> (i < length s \<and> (s ! i) AND 0xC0 \<noteq> 0x80)"

fun back_to_boundary :: "bytes \<Rightarrow> nat \<Rightarrow> nat" where
  "back_to_boundary s cut_at = (if is_char_boundary s cut_at \<or> cut_at = 0 then cut_at else back_to_boundary s (cut_at - 1))"

declare back_to_boundary.simps [simp del]

definition conflict_tag :: "bytes \<Rightarrow> bytes" where
  "conflict_tag label = ascii ''.conflict-'' @ label"

definition stem_ext :: "bytes \<Rightarrow> bytes \<times> bytes option" where
  "stem_ext name =
     (case rsplit_dot name of
        Some (stem, ext) \<Rightarrow> if stem \<noteq> [] then (stem, Some ext) else (name, None)
      | None \<Rightarrow> (name, None))"

definition conflict_name :: "bytes \<Rightarrow> bytes \<Rightarrow> bytes" where
  "conflict_name name label =
     (let (stem, ext) = stem_ext name;
          suffix = (case ext of Some e \<Rightarrow> conflict_tag label @ [46] @ e | None \<Rightarrow> conflict_tag label)
      in if length stem + length suffix \<le> MAX_NAME_LEN then stem @ suffix
         else
           let (base, suffix) = (if length suffix < MAX_NAME_LEN then (stem, suffix) else (name, conflict_tag label));
               cut_at = back_to_boundary base (min (MAX_NAME_LEN - length suffix) (length base))
           in take cut_at base @ suffix)"

fun dec :: "nat \<Rightarrow> bytes" where
  "dec n = (if n < 10 then [of_nat (48 + n)] else dec (n div 10) @ [of_nat (48 + n mod 10)])"

declare dec.simps [simp del]

function free_name_loop :: "bytes \<Rightarrow> bytes \<Rightarrow> bytes list \<Rightarrow> dir \<Rightarrow> bytes \<Rightarrow> nat \<Rightarrow> bytes option" where
  "free_name_loop name label names out candidate n =
     (if candidate \<in> set names \<or> candidate \<in> fst ` set out
      then if n \<ge> u32_max then None
           else free_name_loop name label names out (conflict_name name (label @ [45] @ dec n)) (n + 1)
      else Some candidate)"
  by pat_completeness auto
termination by (relation "measure (\<lambda>(_, _, _, _, _, n). u32_max - n)") auto

declare free_name_loop.simps [simp del]

definition free_conflict_name :: "bytes \<Rightarrow> bytes \<Rightarrow> bytes list \<Rightarrow> dir \<Rightarrow> bytes option" where
  "free_conflict_name name label names out =
     free_name_loop name label names out (conflict_name name label) 2"

definition join_path :: "bytes \<Rightarrow> bytes \<Rightarrow> bytes" where
  "join_path prefix name = (if prefix = [] then name else prefix @ [47] @ name)"

definition classify :: "node option \<Rightarrow> node option \<Rightarrow> node option \<Rightarrow> conflict_kind" where
  "classify b o' t =
     (case (o', t) of
        (Some x, Some y) \<Rightarrow>
          if is_File x \<noteq> is_File y then TypeChange
          else if b = None then AddAdd else ModifyModify
      | _ \<Rightarrow> ModifyDelete)"

text \<open>The three arms that do not recurse: agreement or only ours changed, only theirs changed, divergence.\<close>

definition merge_leaf :: "bytes list \<Rightarrow> bytes \<Rightarrow> bytes \<Rightarrow> bytes \<Rightarrow> node option \<Rightarrow> node option \<Rightarrow> node option
    \<Rightarrow> merge \<Rightarrow> merge option" where
  "merge_leaf names path name label b o' t out =
     (let base_mode = map_option node_mode b
      in if same_opt o' t \<or> same_opt t b then
           Some (case o' of
             None \<Rightarrow> out
           | Some nd \<Rightarrow>
               let mode = (case t of None \<Rightarrow> node_mode nd | Some t \<Rightarrow> pick3 base_mode (node_mode nd) (node_mode t))
               in out\<lparr>merge_tree := bt_insert name (with_mode mode nd) (merge_tree out)\<rparr>)
         else if same_opt o' b then
           Some (case t of
             None \<Rightarrow> out
           | Some nd \<Rightarrow>
               let mode = (case o' of None \<Rightarrow> node_mode nd | Some o' \<Rightarrow> pick3 base_mode (node_mode o') (node_mode nd))
               in out\<lparr>merge_tree := bt_insert name (with_mode mode nd) (merge_tree out)\<rparr>)
         else
           let kind = classify b o' t;
               out = (case o' of None \<Rightarrow> out | Some nd \<Rightarrow> out\<lparr>merge_tree := bt_insert name nd (merge_tree out)\<rparr>)
           in map_option (\<lambda>out. out\<lparr>merge_conflicts := merge_conflicts out @ [\<lparr>conflict_path = path, conflict_kind = kind\<rparr>]\<rparr>)
                (case t of
                   None \<Rightarrow> Some out
                 | Some nd \<Rightarrow> map_option (\<lambda>cname. out\<lparr>merge_tree := bt_insert cname nd (merge_tree out)\<rparr>)
                     (free_conflict_name name label names (merge_tree out))))"

definition base_children :: "node option \<Rightarrow> dir" where
  "base_children b = (case b of Some (Dir _ _ _ ch) \<Rightarrow> ch | _ \<Rightarrow> [])"

definition merge_names :: "dir \<Rightarrow> dir \<Rightarrow> dir \<Rightarrow> bytes list" where
  "merge_names base ours theirs = fold insort_insert (bt_keys base @ bt_keys ours @ bt_keys theirs) []"

definition merge_subdir :: "bytes \<Rightarrow> u32 option \<Rightarrow> node \<Rightarrow> node \<Rightarrow> merge \<Rightarrow> merge \<Rightarrow> merge" where
  "merge_subdir name base_mode o' t sub out =
     \<lparr>merge_tree = bt_insert name
        (Dir (pick3 base_mode (node_mode o') (node_mode t)) (node_mtime o') (dir_salt o') (merge_tree sub)) (merge_tree out),
      merge_conflicts = merge_conflicts out @ merge_conflicts sub\<rparr>"

definition dir_size :: "dir \<Rightarrow> nat" where
  "dir_size d = size_list (\<lambda>e. Suc (size (snd e))) d"

lemma size_Dir: "size (Dir m t s ch) = Suc (dir_size ch)"
proof -
  have "size_list (size_prod (\<lambda>_. 0) size) ch = dir_size ch"
    unfolding dir_size_def by (rule arg_cong [where f = "\<lambda>f. size_list f ch"]) (auto simp: fun_eq_iff)
  then show ?thesis by simp
qed

lemma map_of_dir_size:
  assumes "map_of d k = Some v"
  shows "size v < dir_size d"
proof -
  have "(k, v) \<in> set d" using assms by (rule map_of_SomeD)
  from size_list_estimation [OF this, of "size v" "\<lambda>e. Suc (size (snd e))"] show ?thesis by (simp add: dir_size_def)
qed

lemma subdir_smaller: "map_of d k = Some (Dir m t s ch) \<Longrightarrow> dir_size ch < dir_size d"
  using map_of_dir_size [of d k "Dir m t s ch"] by (simp add: size_Dir del: node.size)

function merge_dir :: "bytes \<Rightarrow> dir \<Rightarrow> dir \<Rightarrow> dir \<Rightarrow> bytes \<Rightarrow> merge \<Rightarrow> merge option" where
  "merge_dir prefix base ours theirs label out =
     fold (\<lambda>name acc. Option.bind acc (\<lambda>out.
       let path = join_path prefix name; b = map_of base name in
       case map_of ours name of
         Some (Dir om omt salt od) \<Rightarrow>
           (case map_of theirs name of
              Some (Dir tm tmt tsalt td) \<Rightarrow>
                map_option (\<lambda>sub. merge_subdir name (map_option node_mode b) (Dir om omt salt od) (Dir tm tmt tsalt td) sub out)
                  (merge_dir path (base_children b) od td label merge_empty)
            | t \<Rightarrow> merge_leaf (merge_names base ours theirs) path name label b (Some (Dir om omt salt od)) t out)
       | o' \<Rightarrow> merge_leaf (merge_names base ours theirs) path name label b o' (map_of theirs name) out))
     (merge_names base ours theirs) (Some out)"
  by pat_completeness auto
termination
  by (relation "measure (\<lambda>(_, _, ours, _, _, _). dir_size ours)") (auto dest: subdir_smaller)

declare merge_dir.simps [simp del]

definition three_way_merge :: "dir \<Rightarrow> dir \<Rightarrow> dir \<Rightarrow> bytes \<Rightarrow> merge option" where
  "three_way_merge base ours theirs their_label = merge_dir [] base ours theirs their_label merge_empty"

section \<open>Keep-both names\<close>

definition undec :: "bytes \<Rightarrow> nat" where
  "undec bs = foldl (\<lambda>a d. 10 * a + (unat d - 48)) 0 bs"

lemma unat_digit: "k < 10 \<Longrightarrow> unat (of_nat (48 + k) :: u8) = 48 + k"
  by (simp only: unat_of_nat) simp

lemma undec_dec: "undec (dec n) = n"
proof (induction n rule: dec.induct)
  case (1 n)
  then show ?case
    by (cases "n < 10") (simp_all add: dec.simps [of n] undec_def unat_digit del: of_nat_add)
qed

lemma dec_inj: "dec m = dec n \<longleftrightarrow> m = n"
  by (metis undec_dec)

lemma dec_digits: "d \<in> set (dec n) \<Longrightarrow> 48 \<le> unat d"
proof (induction n rule: dec.induct)
  case (1 n)
  then show ?case
    by (auto simp: dec.simps [of n] unat_digit simp del: of_nat_add split: if_splits)
qed

lemma no_dash_dec: "45 \<notin> set (dec n)"
  using dec_digits [of 45 n] by auto

lemma after_last_dash:
  assumes "x @ [45] @ dec m = y @ [45] @ dec n"
  shows "m = n"
proof -
  have "takeWhile (\<lambda>b. b \<noteq> 45) (rev (u @ [45] @ dec k)) = rev (dec k)" for u k
  proof -
    have "b \<noteq> 45" if "b \<in> set (rev (dec k))" for b using no_dash_dec [of k] that by auto
    then show ?thesis by (simp only: rev_append append.assoc, subst takeWhile_append2 [where P = "\<lambda>b. b \<noteq> 45"]) auto
  qed
  with assms have "rev (dec m) = rev (dec n)" by metis
  then show ?thesis by (simp add: dec_inj)
qed

lemma conflict_name_shape:
  "\<exists>p. conflict_name name label = p @ conflict_tag label
     \<or> conflict_name name label = p @ conflict_tag label @ [46] @ the (snd (stem_ext name))"
  by (cases "snd (stem_ext name)") (auto simp: conflict_name_def Let_def split: prod.split)

text \<open>Two numbered names collide only if one keeps the extension and the other does not.\<close>

lemma conflict_name_collisions:
  assumes "finite U" "\<forall>n \<in> N. conflict_name name (label @ [45] @ dec n) \<in> U"
  shows "finite N \<and> card N \<le> 2 * card U"
proof -
  let ?c = "\<lambda>n. conflict_name name (label @ [45] @ dec n)" and ?e = "[46] @ the (snd (stem_ext name))"
  let ?A = "{n \<in> N. \<exists>p. ?c n = p @ conflict_tag (label @ [45] @ dec n)}"
  let ?B = "{n \<in> N. \<exists>p. ?c n = p @ conflict_tag (label @ [45] @ dec n) @ ?e}"
  have sep: "m = n" if "p @ conflict_tag (label @ [45] @ dec m) = q @ conflict_tag (label @ [45] @ dec n)" for p q m n
    using after_last_dash [of "p @ conflict_tag label" m "q @ conflict_tag label" n] that by (simp add: conflict_tag_def)
  have "inj_on ?c ?A"
    by (rule inj_onI) (smt (verit) mem_Collect_eq sep)
  moreover have "inj_on ?c ?B"
  proof (rule inj_onI)
    fix m n assume "m \<in> ?B" "n \<in> ?B" "?c m = ?c n"
    then obtain p q where "p @ conflict_tag (label @ [45] @ dec m) @ ?e = q @ conflict_tag (label @ [45] @ dec n) @ ?e"
      by (smt (verit) mem_Collect_eq)
    then have "p @ conflict_tag (label @ [45] @ dec m) = q @ conflict_tag (label @ [45] @ dec n)"
      by (metis append.assoc append_same_eq)
    then show "m = n" by (rule sep)
  qed
  ultimately have fin: "finite ?A" "finite ?B" and le: "card ?A \<le> card U" "card ?B \<le> card U"
    using assms by (auto intro: inj_on_finite card_inj_on_le)
  have N: "N = ?A \<union> ?B" using conflict_name_shape by blast
  then have "card N \<le> card ?A + card ?B" by (metis (no_types, lifting) card_Un_le)
  then show ?thesis using le fin N by (metis (no_types, lifting) finite_UnI add_mono mult_2 order_trans)
qed

lemma free_name_loop_result:
  "free_name_loop name label names out c n = Some r \<Longrightarrow> r \<notin> set names \<and> r \<notin> fst ` set out"
proof (induction name label names out c n rule: free_name_loop.induct)
  case (1 name label names out c n)
  from "1.prems" show ?case
    by (subst (asm) free_name_loop.simps) (use "1.IH" in \<open>auto split: if_splits\<close>)
qed

lemma free_name_loop_stuck:
  "free_name_loop name label names out c n = None \<Longrightarrow> k \<in> {n ..< u32_max} \<Longrightarrow>
     conflict_name name (label @ [45] @ dec k) \<in> set names \<union> fst ` set out"
proof (induction name label names out c n rule: free_name_loop.induct)
  case (1 name label names out c n)
  have lt: "\<not> u32_max \<le> n" using "1.prems"(2) by simp
  have stuck: "c \<in> set names \<or> c \<in> fst ` set out"
    "free_name_loop name label names out (conflict_name name (label @ [45] @ dec n)) (n + 1) = None"
    using "1.prems"(1) lt by (subst (asm) free_name_loop.simps; simp split: if_splits)+
  show ?case
  proof (cases "k = n")
    case True
    show ?thesis
      using stuck(2) unfolding True by (subst (asm) free_name_loop.simps) (auto split: if_splits)
  next
    case False
    then show ?thesis using "1.IH" [OF stuck(1) lt stuck(2)] "1.prems"(2) by simp
  qed
qed

lemma free_conflict_name_exists:
  assumes "2 * (length names + length out) + 2 < u32_max"
  shows "\<exists>r. free_conflict_name name label names out = Some r"
proof (rule ccontr)
  let ?U = "set names \<union> fst ` set out"
  assume "\<not> ?thesis"
  then have "\<forall>k \<in> {2 ..< u32_max}. conflict_name name (label @ [45] @ dec k) \<in> ?U"
    using free_name_loop_stuck by (auto simp: free_conflict_name_def)
  from conflict_name_collisions [OF _ this] have "card {2 ..< u32_max} \<le> 2 * card ?U" by simp
  moreover have "card ?U \<le> length names + length out"
    by (meson card_Un_le card_image_le card_length finite_set add_mono order_trans)
  ultimately show False using assms by simp
qed

section \<open>One entry of the loop\<close>

text \<open>The loop body, its outcome for the name itself, and when theirs is kept as a copy.\<close>

definition merge_entry :: "bytes \<Rightarrow> dir \<Rightarrow> dir \<Rightarrow> dir \<Rightarrow> bytes \<Rightarrow> bytes \<Rightarrow> merge \<Rightarrow> merge option" where
  "merge_entry prefix base ours theirs label name out =
     (let path = join_path prefix name; b = map_of base name in
       case map_of ours name of
         Some (Dir om omt salt od) \<Rightarrow>
           (case map_of theirs name of
              Some (Dir tm tmt tsalt td) \<Rightarrow>
                map_option (\<lambda>sub. merge_subdir name (map_option node_mode b) (Dir om omt salt od) (Dir tm tmt tsalt td) sub out)
                  (merge_dir path (base_children b) od td label merge_empty)
            | t \<Rightarrow> merge_leaf (merge_names base ours theirs) path name label b (Some (Dir om omt salt od)) t out)
       | o' \<Rightarrow> merge_leaf (merge_names base ours theirs) path name label b o' (map_of theirs name) out)"

primrec run_names :: "(bytes \<Rightarrow> merge \<Rightarrow> merge option) \<Rightarrow> bytes list \<Rightarrow> merge \<Rightarrow> merge option" where
  "run_names f [] = Some"
| "run_names f (x # xs) = (\<lambda>out. Option.bind (f x out) (run_names f xs))"

lemma run_names_fold: "fold (\<lambda>x acc. Option.bind acc (f x)) xs acc = Option.bind acc (run_names f xs)"
  by (induction xs arbitrary: acc) simp_all

lemma merge_dir_run:
  "merge_dir prefix base ours theirs label out =
     run_names (merge_entry prefix base ours theirs label) (merge_names base ours theirs) out"
proof -
  have "merge_dir prefix base ours theirs label out =
      fold (\<lambda>x acc. Option.bind acc (merge_entry prefix base ours theirs label x)) (merge_names base ours theirs) (Some out)"
    by (subst merge_dir.simps) (simp only: merge_entry_def [abs_def])
  then show ?thesis by (simp add: run_names_fold)
qed

definition both_dirs :: "node option \<Rightarrow> node option \<Rightarrow> bool" where
  "both_dirs o' t \<longleftrightarrow> (\<exists>x y. o' = Some x \<and> t = Some y \<and> \<not> is_File x \<and> \<not> is_File y)"

definition diverges :: "node option \<Rightarrow> node option \<Rightarrow> node option \<Rightarrow> bool" where
  "diverges b o' t \<longleftrightarrow> \<not> both_dirs o' t \<and> \<not> same_opt o' t \<and> \<not> same_opt t b \<and> \<not> same_opt o' b"

definition leaf_at :: "node option \<Rightarrow> node option \<Rightarrow> node option \<Rightarrow> node option" where
  "leaf_at b o' t =
     (let base_mode = map_option node_mode b
      in if same_opt o' t \<or> same_opt t b then
           map_option (\<lambda>nd. with_mode (case t of None \<Rightarrow> node_mode nd | Some t \<Rightarrow> pick3 base_mode (node_mode nd) (node_mode t)) nd) o'
         else if same_opt o' b then
           map_option (\<lambda>nd. with_mode (case o' of None \<Rightarrow> node_mode nd | Some o' \<Rightarrow> pick3 base_mode (node_mode o') (node_mode nd)) nd) t
         else o')"

definition outcome :: "bytes \<Rightarrow> dir \<Rightarrow> dir \<Rightarrow> dir \<Rightarrow> bytes \<Rightarrow> bytes \<Rightarrow> node option \<Rightarrow> conflict list \<Rightarrow> bool" where
  "outcome prefix base ours theirs label name v cs \<longleftrightarrow>
     (let b = map_of base name; o' = map_of ours name; t = map_of theirs name in
      if both_dirs o' t
      then \<exists>sub. merge_dir (join_path prefix name) (base_children b) (children (the o')) (children (the t)) label merge_empty = Some sub
        \<and> v = Some (Dir (pick3 (map_option node_mode b) (node_mode (the o')) (node_mode (the t)))
                     (node_mtime (the o')) (dir_salt (the o')) (merge_tree sub))
        \<and> cs = merge_conflicts sub
      else v = leaf_at b o' t
        \<and> cs = (if diverges b o' t then [\<lparr>conflict_path = join_path prefix name, conflict_kind = classify b o' t\<rparr>] else []))"

definition copied :: "dir \<Rightarrow> dir \<Rightarrow> dir \<Rightarrow> bytes \<Rightarrow> node \<Rightarrow> bool" where
  "copied base ours theirs name nd \<longleftrightarrow>
     map_of theirs name = Some nd \<and> diverges (map_of base name) (map_of ours name) (Some nd)"

lemma merge_leaf_effect:
  assumes "merge_leaf names path name label b o' t out = Some out'" "\<not> both_dirs o' t"
    "name \<in> set names" "map_of (merge_tree out) name = None"
  shows "(\<exists>cp. map_of (merge_tree out') = (map_of (merge_tree out))(name := leaf_at b o' t) ++ cp
      \<and> (if diverges b o' t \<and> t \<noteq> None
         then \<exists>c. c \<notin> set names \<and> map_of (merge_tree out) c = None \<and> cp = [c \<mapsto> the t] else cp = Map.empty))
    \<and> merge_conflicts out' = merge_conflicts out
        @ (if diverges b o' t then [\<lparr>conflict_path = path, conflict_kind = classify b o' t\<rparr>] else [])
    \<and> (bt_wf (merge_tree out) \<longrightarrow> bt_wf (merge_tree out'))
    \<and> length (merge_tree out') \<le> length (merge_tree out) + 2"
proof -
  let ?tr = "merge_tree out"
  consider (agree) "same_opt o' t \<or> same_opt t b" | (theirs) "\<not> (same_opt o' t \<or> same_opt t b)" "same_opt o' b"
    | (both) "diverges b o' t"
    using assms(2) by (auto simp: diverges_def)
  then show ?thesis
  proof cases
    case agree
    then have "\<not> diverges b o' t" by (auto simp: diverges_def)
    with assms(1,4) agree show ?thesis
      by (cases o') (auto simp: merge_leaf_def leaf_at_def Let_def fun_upd_idem bt_wf_bt_insert
          le_SucI [OF length_bt_insert_le])
  next
    case theirs
    then have "\<not> diverges b o' t" by (auto simp: diverges_def)
    with assms(1,4) theirs show ?thesis
      by (cases t) (auto simp: merge_leaf_def leaf_at_def Let_def fun_upd_idem bt_wf_bt_insert
          le_SucI [OF length_bt_insert_le])
  next
    case both
    then have arms: "\<not> (same_opt o' t \<or> same_opt t b)" "\<not> same_opt o' b" by (auto simp: diverges_def)
    let ?out = "case o' of None \<Rightarrow> out | Some nd \<Rightarrow> out\<lparr>merge_tree := bt_insert name nd ?tr\<rparr>"
    have out: "map_of (merge_tree ?out) = (map_of ?tr)(name := o')" "merge_conflicts ?out = merge_conflicts out"
      "bt_wf ?tr \<Longrightarrow> bt_wf (merge_tree ?out)" "length (merge_tree ?out) \<le> Suc (length ?tr)"
      using assms(4) by (auto split: option.split simp: fun_upd_idem bt_wf_bt_insert length_bt_insert_le)
    have at: "leaf_at b o' t = o'" using arms by (simp add: leaf_at_def Let_def)
    show ?thesis
    proof (cases t)
      case None
      with assms(1) arms have "out' = ?out\<lparr>merge_conflicts := merge_conflicts ?out
          @ [\<lparr>conflict_path = path, conflict_kind = classify b o' t\<rparr>]\<rparr>"
        by (simp add: merge_leaf_def Let_def)
      with both None at out show ?thesis by simp
    next
      case (Some nd)
      from assms(1) arms obtain c where c: "free_conflict_name name label names (merge_tree ?out) = Some c"
        and out': "out' = ?out\<lparr>merge_tree := bt_insert c nd (merge_tree ?out),
          merge_conflicts := merge_conflicts ?out @ [\<lparr>conflict_path = path, conflict_kind = classify b o' t\<rparr>]\<rparr>"
        by (auto simp: merge_leaf_def Let_def Some)
      have fresh: "c \<notin> set names" "c \<notin> fst ` set (merge_tree ?out)"
        using free_name_loop_result c unfolding free_conflict_name_def by blast+
      then have "map_of (merge_tree ?out) c = None" by (simp add: map_of_eq_None_iff)
      moreover have "c \<noteq> name" using fresh(1) assms(3) by blast
      ultimately have "map_of ?tr c = None" using out(1) by simp
      moreover have "map_of (merge_tree out') = (map_of ?tr)(name := leaf_at b o' t) ++ [c \<mapsto> the t]"
        using out(1) at Some by (simp add: out')
      moreover have "length (merge_tree out') \<le> length ?tr + 2"
        using out(4) length_bt_insert_le [of c nd "merge_tree ?out"] by (simp add: out')
      ultimately show ?thesis
        using both Some fresh(1) out(2,3)
        by (intro conjI exI [of _ "[c \<mapsto> the t]"]) (auto simp: out' bt_wf_bt_insert)
    qed
  qed
qed

lemma set_merge_names: "set (merge_names base ours theirs) = dom (map_of base) \<union> dom (map_of ours) \<union> dom (map_of theirs)"
  by (simp add: merge_names_def set_fold_insort bt_keys_def dom_map_of_conv_image_fst Un_ac)

lemma distinct_merge_names: "distinct (merge_names base ours theirs)"
  using bs_wf_fold_insort [of "[]" "bt_keys base @ bt_keys ours @ bt_keys theirs"]
  by (simp add: merge_names_def strict_sorted_iff)

lemma merge_entry_leaf:
  "\<not> both_dirs (map_of ours name) (map_of theirs name) \<Longrightarrow>
     merge_entry prefix base ours theirs label name out =
       merge_leaf (merge_names base ours theirs) (join_path prefix name) name label
         (map_of base name) (map_of ours name) (map_of theirs name) out"
  by (auto simp: merge_entry_def both_dirs_def Let_def split: option.splits node.splits)

lemma merge_entry_dirs:
  "map_of ours name = Some (Dir om omt salt od) \<Longrightarrow> map_of theirs name = Some (Dir tm tmt tsalt td) \<Longrightarrow>
     merge_entry prefix base ours theirs label name out =
       map_option (\<lambda>sub. merge_subdir name (map_option node_mode (map_of base name)) (Dir om omt salt od) (Dir tm tmt tsalt td) sub out)
         (merge_dir (join_path prefix name) (base_children (map_of base name)) od td label merge_empty)"
  by (simp add: merge_entry_def Let_def)

lemma both_dirsE:
  assumes "both_dirs o' t"
  obtains om omt salt od tm tmt tsalt td where "o' = Some (Dir om omt salt od)" "t = Some (Dir tm tmt tsalt td)"
  using assms by (auto simp: both_dirs_def elim: node.exhaust) (metis node.disc(1) node.exhaust)

lemma merge_entry_effect:
  assumes "merge_entry prefix base ours theirs label name out = Some out'"
    "name \<in> set (merge_names base ours theirs)" "map_of (merge_tree out) name = None"
  shows "\<exists>v cs cp. outcome prefix base ours theirs label name v cs
    \<and> map_of (merge_tree out') = (map_of (merge_tree out))(name := v) ++ cp
    \<and> (cp = Map.empty \<and> (\<forall>nd. \<not> copied base ours theirs name nd)
       \<or> (\<exists>c nd. c \<notin> set (merge_names base ours theirs) \<and> map_of (merge_tree out) c = None
            \<and> cp = [c \<mapsto> nd] \<and> copied base ours theirs name nd))
    \<and> merge_conflicts out' = merge_conflicts out @ cs
    \<and> (bt_wf (merge_tree out) \<longrightarrow> bt_wf (merge_tree out'))
    \<and> length (merge_tree out') \<le> length (merge_tree out) + 2"
proof (cases "both_dirs (map_of ours name) (map_of theirs name)")
  case True
  then obtain om omt salt od tm tmt tsalt td where
    d: "map_of ours name = Some (Dir om omt salt od)" "map_of theirs name = Some (Dir tm tmt tsalt td)"
    by (rule both_dirsE)
  then obtain sub where sub: "merge_dir (join_path prefix name) (base_children (map_of base name)) od td label merge_empty = Some sub"
    and out': "out' = merge_subdir name (map_option node_mode (map_of base name)) (Dir om omt salt od) (Dir tm tmt tsalt td) sub out"
    using assms(1) by (auto simp: merge_entry_dirs)
  have "\<not> copied base ours theirs name nd" for nd using True by (auto simp: copied_def diverges_def)
  moreover have "outcome prefix base ours theirs label name
      (Some (Dir (pick3 (map_option node_mode (map_of base name)) om tm) omt salt (merge_tree sub))) (merge_conflicts sub)"
    using True d sub by (simp add: outcome_def Let_def)
  ultimately show ?thesis
    using out' by (intro exI) (auto simp: merge_subdir_def bt_wf_bt_insert le_SucI [OF length_bt_insert_le])
next
  case False
  let ?b = "map_of base name" and ?o = "map_of ours name" and ?t = "map_of theirs name"
  note eff = merge_leaf_effect [OF assms(1) [unfolded merge_entry_leaf [OF False]] False assms(2,3)]
  then obtain cp where tree: "map_of (merge_tree out') = (map_of (merge_tree out))(name := leaf_at ?b ?o ?t) ++ cp"
    and cp: "if diverges ?b ?o ?t \<and> ?t \<noteq> None
       then \<exists>c. c \<notin> set (merge_names base ours theirs) \<and> map_of (merge_tree out) c = None \<and> cp = [c \<mapsto> the ?t] else cp = Map.empty"
    by blast
  have "cp = Map.empty \<and> (\<forall>nd. \<not> copied base ours theirs name nd)
     \<or> (\<exists>c nd. c \<notin> set (merge_names base ours theirs) \<and> map_of (merge_tree out) c = None
          \<and> cp = [c \<mapsto> nd] \<and> copied base ours theirs name nd)"
    using cp by (auto simp: copied_def split: if_splits)
  moreover have "outcome prefix base ours theirs label name (leaf_at ?b ?o ?t)
      (if diverges ?b ?o ?t then [\<lparr>conflict_path = join_path prefix name, conflict_kind = classify ?b ?o ?t\<rparr>] else [])"
    using False by (simp add: outcome_def)
  ultimately show ?thesis using tree eff by blast
qed

section \<open>The whole loop\<close>

definition merged_names :: "bytes \<Rightarrow> dir \<Rightarrow> dir \<Rightarrow> dir \<Rightarrow> bytes \<Rightarrow> bytes list \<Rightarrow> merge \<Rightarrow> merge \<Rightarrow> bool" where
  "merged_names prefix base ours theirs label xs out out' \<longleftrightarrow>
     (\<forall>x \<in> set xs. \<exists>cs. outcome prefix base ours theirs label x (map_of (merge_tree out') x) cs)
     \<and> (\<forall>x \<in> set (merge_names base ours theirs) - set xs. map_of (merge_tree out') x = map_of (merge_tree out) x)
     \<and> (\<forall>c nd. c \<notin> set (merge_names base ours theirs) \<longrightarrow> map_of (merge_tree out) c = Some nd \<longrightarrow> map_of (merge_tree out') c = Some nd)
     \<and> (\<forall>x \<in> set xs. \<forall>nd. copied base ours theirs x nd \<longrightarrow>
          (\<exists>c. c \<notin> set (merge_names base ours theirs) \<and> map_of (merge_tree out') c = Some nd))
     \<and> (\<forall>c nd. c \<notin> set (merge_names base ours theirs) \<longrightarrow> map_of (merge_tree out') c = Some nd \<longrightarrow>
          map_of (merge_tree out) c = Some nd \<or> (\<exists>x \<in> set xs. copied base ours theirs x nd))
     \<and> (\<exists>css. merge_conflicts out' = merge_conflicts out @ concat css
          \<and> list_all2 (\<lambda>x cs. \<exists>v. outcome prefix base ours theirs label x v cs) xs css)
     \<and> (bt_wf (merge_tree out) \<longrightarrow> bt_wf (merge_tree out'))
     \<and> length (merge_tree out') \<le> length (merge_tree out) + 2 * length xs"

lemma merged_names_one:
  assumes "merge_entry prefix base ours theirs label x out = Some out'"
    "x \<in> set (merge_names base ours theirs)" "map_of (merge_tree out) x = None"
  shows "merged_names prefix base ours theirs label [x] out out'"
proof -
  obtain v cs cp where e: "outcome prefix base ours theirs label x v cs"
    "map_of (merge_tree out') = (map_of (merge_tree out))(x := v) ++ cp"
    "merge_conflicts out' = merge_conflicts out @ cs" "bt_wf (merge_tree out) \<longrightarrow> bt_wf (merge_tree out')"
    "length (merge_tree out') \<le> length (merge_tree out) + 2"
    and cp: "cp = Map.empty \<and> (\<forall>nd. \<not> copied base ours theirs x nd)
       \<or> (\<exists>c nd. c \<notin> set (merge_names base ours theirs) \<and> map_of (merge_tree out) c = None
            \<and> cp = [c \<mapsto> nd] \<and> copied base ours theirs x nd)"
    using merge_entry_effect [OF assms] by blast
  have inv: "nd = nd'" if "copied base ours theirs x nd" "copied base ours theirs x nd'" for nd nd'
    using that by (simp add: copied_def)
  have x: "map_of (merge_tree out') x = v" using cp e(2) assms(2) by auto
  have "\<exists>css. merge_conflicts out' = merge_conflicts out @ concat css
          \<and> list_all2 (\<lambda>x cs. \<exists>v. outcome prefix base ours theirs label x v cs) [x] css"
    using e(1,3) by (intro exI [of _ "[cs]"]) auto
  with e x show ?thesis
    unfolding merged_names_def using cp assms(2) inv by (auto split: if_splits)
qed

lemma merged_namesD:
  assumes "merged_names prefix base ours theirs label xs out out'"
  shows "x \<in> set xs \<Longrightarrow> \<exists>cs. outcome prefix base ours theirs label x (map_of (merge_tree out') x) cs"
    "x \<in> set (merge_names base ours theirs) \<Longrightarrow> x \<notin> set xs \<Longrightarrow> map_of (merge_tree out') x = map_of (merge_tree out) x"
    "c \<notin> set (merge_names base ours theirs) \<Longrightarrow> map_of (merge_tree out) c = Some nd \<Longrightarrow> map_of (merge_tree out') c = Some nd"
    "x \<in> set xs \<Longrightarrow> copied base ours theirs x nd \<Longrightarrow>
       \<exists>c. c \<notin> set (merge_names base ours theirs) \<and> map_of (merge_tree out') c = Some nd"
    "c \<notin> set (merge_names base ours theirs) \<Longrightarrow> map_of (merge_tree out') c = Some nd \<Longrightarrow>
       map_of (merge_tree out) c = Some nd \<or> (\<exists>x \<in> set xs. copied base ours theirs x nd)"
    "\<exists>css. merge_conflicts out' = merge_conflicts out @ concat css
       \<and> list_all2 (\<lambda>x cs. \<exists>v. outcome prefix base ours theirs label x v cs) xs css"
    "bt_wf (merge_tree out) \<Longrightarrow> bt_wf (merge_tree out')"
    "length (merge_tree out') \<le> length (merge_tree out) + 2 * length xs"
  using assms unfolding merged_names_def by simp_all

lemma merged_names_append:
  assumes "merged_names prefix base ours theirs label xs out m" "merged_names prefix base ours theirs label ys m out'"
    "set xs \<inter> set ys = {}" "set xs \<union> set ys \<subseteq> set (merge_names base ours theirs)"
  shows "merged_names prefix base ours theirs label (xs @ ys) out out'"
proof -
  note A = merged_namesD [OF assms(1)] and B = merged_namesD [OF assms(2)]
  have keep: "map_of (merge_tree out') x = map_of (merge_tree m) x" if "x \<in> set xs" for x
    using B(2) [of x] assms(3,4) that by blast
  show ?thesis
    unfolding merged_names_def
  proof (intro conjI ballI allI impI)
    fix x assume "x \<in> set (xs @ ys)"
    then show "\<exists>cs. outcome prefix base ours theirs label x (map_of (merge_tree out') x) cs"
      using A(1) [of x] B(1) [of x] keep [of x] by auto
  next
    fix x assume "x \<in> set (merge_names base ours theirs) - set (xs @ ys)"
    then show "map_of (merge_tree out') x = map_of (merge_tree out) x" using A(2) [of x] B(2) [of x] by simp
  next
    fix c nd assume "c \<notin> set (merge_names base ours theirs)" "map_of (merge_tree out) c = Some nd"
    then show "map_of (merge_tree out') c = Some nd" using A(3) B(3) by blast
  next
    fix x nd assume "x \<in> set (xs @ ys)" "copied base ours theirs x nd"
    then show "\<exists>c. c \<notin> set (merge_names base ours theirs) \<and> map_of (merge_tree out') c = Some nd"
      using A(4) [of x nd] B(4) [of x nd] B(3) by auto
  next
    fix c nd assume "c \<notin> set (merge_names base ours theirs)" "map_of (merge_tree out') c = Some nd"
    then show "map_of (merge_tree out) c = Some nd \<or> (\<exists>x \<in> set (xs @ ys). copied base ours theirs x nd)"
      using A(5) [of c nd] B(5) [of c nd] by auto
  next
    obtain css css' where "merge_conflicts m = merge_conflicts out @ concat css"
      "list_all2 (\<lambda>x cs. \<exists>v. outcome prefix base ours theirs label x v cs) xs css"
      "merge_conflicts out' = merge_conflicts m @ concat css'"
      "list_all2 (\<lambda>x cs. \<exists>v. outcome prefix base ours theirs label x v cs) ys css'"
      using A(6) B(6) by blast
    then show "\<exists>css. merge_conflicts out' = merge_conflicts out @ concat css
        \<and> list_all2 (\<lambda>x cs. \<exists>v. outcome prefix base ours theirs label x v cs) (xs @ ys) css"
      by (intro exI [of _ "css @ css'"]) (simp add: list_all2_appendI)
  qed (use A(7,8) B(7,8) in auto)
qed

lemma run_names_merged:
  assumes "run_names (merge_entry prefix base ours theirs label) xs out = Some out'" "distinct xs"
    "set xs \<subseteq> set (merge_names base ours theirs)" "\<forall>x \<in> set xs. map_of (merge_tree out) x = None"
  shows "merged_names prefix base ours theirs label xs out out'"
  using assms
proof (induction xs arbitrary: out)
  case Nil
  then show ?case by (simp add: merged_names_def)
next
  case (Cons x xs)
  then obtain m where m: "merge_entry prefix base ours theirs label x out = Some m"
    "run_names (merge_entry prefix base ours theirs label) xs m = Some out'"
    by (auto simp: bind_eq_Some_conv)
  have one: "merged_names prefix base ours theirs label [x] out m"
    using merged_names_one [OF m(1)] Cons.prems by simp
  have "map_of (merge_tree m) y = None" if "y \<in> set xs" for y
    using merged_namesD(2) [OF one, of y] Cons.prems(2,3,4) that by auto
  with Cons.IH [OF m(2)] Cons.prems have "merged_names prefix base ours theirs label xs m out'" by simp
  from merged_names_append [OF one this] Cons.prems show ?case by simp
qed

text \<open>What a merged directory holds: the outcome of every name, the copies, and nothing else.\<close>

lemma merge_dir_merged:
  assumes "merge_dir prefix base ours theirs label merge_empty = Some m"
  shows "merged_names prefix base ours theirs label (merge_names base ours theirs) merge_empty m"
  by (rule run_names_merged)
    (use assms in \<open>simp_all add: merge_dir_run distinct_merge_names merge_empty_def\<close>)

lemma merge_dir_at:
  assumes "merge_dir prefix base ours theirs label merge_empty = Some m"
    "x \<in> dom (map_of base) \<union> dom (map_of ours) \<union> dom (map_of theirs)"
  shows "\<exists>cs. outcome prefix base ours theirs label x (map_of (merge_tree m) x) cs"
  using merge_dir_merged [OF assms(1)] assms(2) by (auto dest!: merged_namesD(1) simp: set_merge_names)

lemma merge_dir_copies:
  assumes "merge_dir prefix base ours theirs label merge_empty = Some m" "copied base ours theirs x nd"
  shows "\<exists>c. map_of (merge_tree m) c = Some nd"
proof -
  have "x \<in> set (merge_names base ours theirs)" using assms(2) by (auto simp: copied_def set_merge_names)
  from merged_namesD(4) [OF merge_dir_merged [OF assms(1)] this assms(2)] show ?thesis by blast
qed

lemma merge_dir_only:
  assumes "merge_dir prefix base ours theirs label merge_empty = Some m" "map_of (merge_tree m) c = Some nd"
  shows "c \<in> dom (map_of base) \<union> dom (map_of ours) \<union> dom (map_of theirs) \<or> (\<exists>x. copied base ours theirs x nd)"
  using merged_namesD(5) [OF merge_dir_merged [OF assms(1)] _ assms(2)]
  by (auto simp: set_merge_names merge_empty_def)

section \<open>Files by path\<close>

fun lookup_path :: "dir \<Rightarrow> bytes list \<Rightarrow> node option" where
  "lookup_path d [] = None"
| "lookup_path d [x] = map_of d x"
| "lookup_path d (x # y # p) = lookup_path (base_children (map_of d x)) (y # p)"

text \<open>A file with these chunks stands at the path.\<close>

definition file_at :: "dir \<Rightarrow> bytes list \<Rightarrow> bytes list \<Rightarrow> bool" where
  "file_at d p cs \<longleftrightarrow> (\<exists>m t sz s. lookup_path d p = Some (File m t sz s cs))"

lemma base_children_simps [simp]:
  "base_children None = []" "base_children (Some (File m t sz s cs)) = []" "base_children (Some (Dir m t s ch)) = ch"
  by (simp_all add: base_children_def)

lemma lookup_path_Nil [simp]: "lookup_path [] p = None"
  by (induction "[] :: dir" p rule: lookup_path.induct) auto

lemma file_at_simps [simp]:
  "\<not> file_at [] p cs" "\<not> file_at d [] cs"
  "file_at d (x # y # p) cs \<longleftrightarrow> file_at (base_children (map_of d x)) (y # p) cs"
  by (simp_all add: file_at_def)

lemma file_at_one: "file_at d [x] cs \<longleftrightarrow> (\<exists>m t sz s. map_of d x = Some (File m t sz s cs))"
  by (simp add: file_at_def)

lemma file_at_into: "map_of d x = Some (Dir m t s ch) \<Longrightarrow> file_at ch p cs \<Longrightarrow> file_at d (x # p) cs"
  by (cases p) auto

text \<open>A path into one entry: the entry is the file itself, or a directory holding the rest of the path.\<close>

fun node_file_at :: "node option \<Rightarrow> bytes list \<Rightarrow> bytes list \<Rightarrow> bool" where
  "node_file_at None p cs = False"
| "node_file_at (Some (File m t sz s c)) p cs = (p = [] \<and> c = cs)"
| "node_file_at (Some (Dir m t s ch)) p cs = file_at ch p cs"

lemma file_at_Cons: "file_at d (x # p) cs \<longleftrightarrow> node_file_at (map_of d x) p cs"
proof (cases p)
  case Nil
  then show ?thesis by (cases "map_of d x"; cases "the (map_of d x)") (auto simp: file_at_one)
next
  case (Cons y q)
  then show ?thesis by (cases "map_of d x"; cases "the (map_of d x)") auto
qed

lemma node_file_at_with_mode [simp]: "node_file_at (Some (with_mode m nd)) p cs = node_file_at (Some nd) p cs"
  by (cases nd) auto

lemma same_content_file_at:
  "same_content a b \<Longrightarrow> node_file_at (Some a) p cs \<Longrightarrow> node_file_at (Some b) p cs"
proof (induction p arbitrary: a b)
  case Nil
  then show ?case by (cases a; cases b) auto
next
  case (Cons x p)
  then obtain m t s ch m' t' s' ch' where d: "a = Dir m t s ch" "b = Dir m' t' s' ch'"
    by (cases a; cases b) auto
  then obtain v where v: "map_of ch x = Some v" "node_file_at (Some v) p cs"
    using Cons.prems(2) by (cases "map_of ch x") (auto simp: file_at_Cons)
  then have "(x, v) \<in> set ch" by (simp add: map_of_SomeD)
  then obtain w where "map_of ch' x = Some w" "same_content v w"
    using Cons.prems(1) d by (fastforce simp: list_all_iff split: option.splits)
  with Cons.IH v(2) show ?case by (auto simp: d file_at_Cons)
qed

lemma same_opt_file_at: "same_opt a b \<Longrightarrow> node_file_at a p cs \<Longrightarrow> node_file_at b p cs"
  using same_content_file_at by (cases a; cases b) auto

text \<open>Where an entry's outcome keeps the files of ours and of theirs, and that it holds no others.\<close>

lemma leaf_at_ours:
  assumes "\<not> both_dirs o' t" "node_file_at o' p cs" "\<not> node_file_at b p cs"
  shows "node_file_at (leaf_at b o' t) p cs"
  using assms same_opt_file_at [of o' b p cs] by (cases o') (auto simp: leaf_at_def Let_def)

lemma leaf_at_theirs:
  assumes "\<not> both_dirs o' t" "\<not> diverges b o' t" "node_file_at t p cs" "\<not> node_file_at b p cs"
  shows "node_file_at (leaf_at b o' t) p cs"
proof -
  have "\<not> same_opt t b" using assms(3,4) same_opt_file_at by blast
  moreover have "node_file_at o' p cs" if "same_opt o' t"
    using that assms(1,3) by (cases o'; cases t; cases "the o'"; cases "the t") (auto simp: both_dirs_def)
  ultimately show ?thesis
    using assms by (cases o'; cases t) (auto simp: leaf_at_def Let_def diverges_def)
qed

lemma leaf_at_only: "node_file_at (leaf_at b o' t) p cs \<Longrightarrow> node_file_at o' p cs \<or> node_file_at t p cs"
  by (cases o'; cases t) (auto simp: leaf_at_def Let_def split: if_splits)

lemma outcome_dirs:
  assumes "outcome prefix base ours theirs label x v cs"
    "map_of ours x = Some (Dir om omt salt od)" "map_of theirs x = Some (Dir tm tmt tsalt td)"
  obtains sub m where "merge_dir (join_path prefix x) (base_children (map_of base x)) od td label merge_empty = Some sub"
    "v = Some (Dir m omt salt (merge_tree sub))" "cs = merge_conflicts sub"
proof -
  have "both_dirs (map_of ours x) (map_of theirs x)" using assms(2,3) by (simp add: both_dirs_def)
  then show ?thesis using assms that by (auto simp: outcome_def Let_def)
qed

lemma outcome_leaf:
  "outcome prefix base ours theirs label x v cs \<Longrightarrow> \<not> both_dirs (map_of ours x) (map_of theirs x) \<Longrightarrow>
     v = leaf_at (map_of base x) (map_of ours x) (map_of theirs x)"
  by (simp add: outcome_def Let_def)

lemma node_file_at_base_children: "node_file_at (Some (Dir m t s od)) p cs \<Longrightarrow> file_at (base_children b) p cs \<Longrightarrow> node_file_at b p cs"
  by (cases b; cases "the b") auto

lemma merge_keeps_ours:
  "merge_dir prefix base ours theirs label merge_empty = Some m \<Longrightarrow> file_at ours p cs \<Longrightarrow> \<not> file_at base p cs \<Longrightarrow>
     file_at (merge_tree m) p cs"
proof (induction p arbitrary: prefix base ours theirs m)
  case (Cons x p)
  have o: "node_file_at (map_of ours x) p cs" and b: "\<not> node_file_at (map_of base x) p cs"
    using Cons.prems(2,3) by (simp_all add: file_at_Cons)
  then have "x \<in> dom (map_of ours)" by (cases "map_of ours x") auto
  then obtain c where oc: "outcome prefix base ours theirs label x (map_of (merge_tree m) x) c"
    using merge_dir_at [OF Cons.prems(1)] by blast
  have "node_file_at (map_of (merge_tree m) x) p cs"
  proof (cases "both_dirs (map_of ours x) (map_of theirs x)")
    case True
    then obtain om omt salt od tm tmt tsalt td where
      d: "map_of ours x = Some (Dir om omt salt od)" "map_of theirs x = Some (Dir tm tmt tsalt td)"
      by (rule both_dirsE)
    then obtain sub m' where sub: "merge_dir (join_path prefix x) (base_children (map_of base x)) od td label merge_empty = Some sub"
      "map_of (merge_tree m) x = Some (Dir m' omt salt (merge_tree sub))"
      using outcome_dirs [OF oc] by metis
    have "file_at od p cs" using o d by simp
    moreover have "\<not> file_at (base_children (map_of base x)) p cs"
      using b node_file_at_base_children o d by metis
    ultimately show ?thesis using Cons.IH [OF sub(1)] sub(2) by simp
  next
    case False
    then show ?thesis using outcome_leaf [OF oc] leaf_at_ours o b by metis
  qed
  then show ?case by (simp add: file_at_Cons)
qed simp

lemma merge_keeps_theirs:
  "merge_dir prefix base ours theirs label merge_empty = Some m \<Longrightarrow> file_at theirs p cs \<Longrightarrow> \<not> file_at base p cs \<Longrightarrow>
     \<exists>p'. file_at (merge_tree m) p' cs"
proof (induction p arbitrary: prefix base ours theirs m)
  case (Cons x p)
  have t: "node_file_at (map_of theirs x) p cs" and b: "\<not> node_file_at (map_of base x) p cs"
    using Cons.prems(2,3) by (simp_all add: file_at_Cons)
  then have "x \<in> dom (map_of theirs)" by (cases "map_of theirs x") auto
  then obtain c where oc: "outcome prefix base ours theirs label x (map_of (merge_tree m) x) c"
    using merge_dir_at [OF Cons.prems(1)] by blast
  consider (dirs) "both_dirs (map_of ours x) (map_of theirs x)"
    | (copy) nd where "map_of theirs x = Some nd" "copied base ours theirs x nd"
    | (one) "\<not> both_dirs (map_of ours x) (map_of theirs x)" "\<not> diverges (map_of base x) (map_of ours x) (map_of theirs x)"
    using t by (cases "map_of theirs x") (auto simp: copied_def)
  then show ?case
  proof cases
    case dirs
    then obtain om omt salt od tm tmt tsalt td where
      d: "map_of ours x = Some (Dir om omt salt od)" "map_of theirs x = Some (Dir tm tmt tsalt td)"
      by (rule both_dirsE)
    then obtain sub m' where sub: "merge_dir (join_path prefix x) (base_children (map_of base x)) od td label merge_empty = Some sub"
      "map_of (merge_tree m) x = Some (Dir m' omt salt (merge_tree sub))"
      using outcome_dirs [OF oc] by metis
    have "file_at td p cs" using t d by simp
    moreover have "\<not> file_at (base_children (map_of base x)) p cs"
      using b node_file_at_base_children t d by metis
    ultimately obtain p' where "file_at (merge_tree sub) p' cs" using Cons.IH [OF sub(1)] by blast
    then show ?thesis using file_at_into sub(2) by blast
  next
    case copy
    then obtain c where "map_of (merge_tree m) c = Some nd" using merge_dir_copies [OF Cons.prems(1)] by blast
    then have "file_at (merge_tree m) (c # p) cs" using t copy by (simp add: file_at_Cons)
    then show ?thesis ..
  next
    case one
    then have "node_file_at (map_of (merge_tree m) x) p cs"
      using outcome_leaf [OF oc] leaf_at_theirs t b by metis
    then show ?thesis using file_at_Cons by blast
  qed
qed simp

lemma merge_invents_nothing:
  "merge_dir prefix base ours theirs label merge_empty = Some m \<Longrightarrow> file_at (merge_tree m) p cs \<Longrightarrow>
     \<exists>p'. file_at ours p' cs \<or> file_at theirs p' cs"
proof (induction p arbitrary: prefix base ours theirs m)
  case (Cons x p)
  have f: "node_file_at (map_of (merge_tree m) x) p cs" using Cons.prems(2) by (simp add: file_at_Cons)
  then obtain nd where nd: "map_of (merge_tree m) x = Some nd" by (cases "map_of (merge_tree m) x") auto
  from merge_dir_only [OF Cons.prems(1) nd] consider
    (copy) y where "copied base ours theirs y nd"
    | (at) c where "outcome prefix base ours theirs label x (map_of (merge_tree m) x) c"
    using merge_dir_at [OF Cons.prems(1)] by blast
  then show ?case
  proof cases
    case copy
    then have "file_at theirs (y # p) cs" using f nd by (simp add: copied_def file_at_Cons)
    then show ?thesis by blast
  next
    case at
    show ?thesis
    proof (cases "both_dirs (map_of ours x) (map_of theirs x)")
      case True
      then obtain om omt salt od tm tmt tsalt td where
        d: "map_of ours x = Some (Dir om omt salt od)" "map_of theirs x = Some (Dir tm tmt tsalt td)"
        by (rule both_dirsE)
      then obtain sub m' where sub: "merge_dir (join_path prefix x) (base_children (map_of base x)) od td label merge_empty = Some sub"
        "map_of (merge_tree m) x = Some (Dir m' omt salt (merge_tree sub))"
        using outcome_dirs [OF at] by metis
      then obtain p' where "file_at od p' cs \<or> file_at td p' cs" using Cons.IH [OF sub(1)] f by auto
      then show ?thesis using file_at_into d by blast
    next
      case False
      then have "node_file_at (map_of ours x) p cs \<or> node_file_at (map_of theirs x) p cs"
        using outcome_leaf [OF at] leaf_at_only f by metis
      then show ?thesis using file_at_Cons by blast
    qed
  qed
qed simp

section \<open>The merge always returns\<close>

lemma merge_leaf_total:
  assumes "2 * (length names + length (merge_tree out)) + 4 < u32_max"
  shows "\<exists>out'. merge_leaf names path name label b o' t out = Some out'"
proof -
  let ?out = "case o' of None \<Rightarrow> out | Some nd \<Rightarrow> out\<lparr>merge_tree := bt_insert name nd (merge_tree out)\<rparr>"
  have le: "length (merge_tree ?out) \<le> Suc (length (merge_tree out))"
    by (auto split: option.split simp: length_bt_insert_le)
  have "2 * (length names + k) + 2 < u32_max" if "k \<le> Suc (length (merge_tree out))" for k
    using assms that by simp
  from free_conflict_name_exists [OF this [OF le]] obtain r where
    r: "free_conflict_name name label names (merge_tree ?out) = Some r" by blast
  show ?thesis by (cases t) (simp_all add: merge_leaf_def Let_def r)
qed

lemma length_dir_size: "length d \<le> dir_size d"
  by (induction d) (auto simp: dir_size_def)

lemma dir_size_base_children: "dir_size (base_children (map_of d x)) \<le> dir_size d"
  by (cases "map_of d x"; cases "the (map_of d x)") (auto dest: subdir_smaller simp: dir_size_def [of "[]"])

lemma length_merge_names: "length (merge_names base ours theirs) \<le> length base + length ours + length theirs"
proof -
  have "length (merge_names base ours theirs) = card (set (bt_keys base @ bt_keys ours @ bt_keys theirs))"
    using distinct_card [OF distinct_merge_names, of base ours theirs]
    by (simp add: merge_names_def set_fold_insort Un_ac)
  also have "\<dots> \<le> length (bt_keys base @ bt_keys ours @ bt_keys theirs)" by (rule card_length)
  finally show ?thesis by (simp add: bt_keys_def)
qed

definition tree_limit :: nat where "tree_limit = 2 ^ 28"

lemma run_names_total:
  assumes "\<And>x out. x \<in> set xs \<Longrightarrow> length (merge_tree out) \<le> L \<Longrightarrow>
      \<exists>out'. f x out = Some out' \<and> length (merge_tree out') \<le> length (merge_tree out) + 2"
    "length (merge_tree out) + 2 * length xs \<le> L"
  shows "\<exists>out'. run_names f xs out = Some out'"
  using assms
proof (induction xs arbitrary: out)
  case (Cons x xs)
  obtain m where m: "f x out = Some m" "length (merge_tree m) \<le> length (merge_tree out) + 2"
    using Cons.prems(1) [of x out] Cons.prems(2) by auto
  have "\<exists>out'. run_names f xs m = Some out'"
    by (rule Cons.IH) (use Cons.prems m(2) in auto)
  with m(1) show ?case by simp
qed simp

lemma merge_leaf_grows:
  assumes "merge_leaf names path name label b o' t out = Some out'"
  shows "length (merge_tree out') \<le> length (merge_tree out) + 2"
proof -
  have "length (bt_insert k v m) \<le> Suc (length m)" for k v and m :: dir by (rule length_bt_insert_le)
  then have "length (bt_insert k v (bt_insert k' v' m)) \<le> Suc (Suc (length m))"
    "length (bt_insert k v m) \<le> Suc (Suc (length m))" for k v k' v' and m :: dir
    by (meson Suc_le_mono order_trans le_SucI)+
  then show ?thesis using assms
    by (auto simp: merge_leaf_def Let_def split: if_splits option.splits)
qed

lemma merge_entry_grows:
  assumes "merge_entry prefix base ours theirs label x out = Some out'"
  shows "length (merge_tree out') \<le> length (merge_tree out) + 2"
proof (cases "both_dirs (map_of ours x) (map_of theirs x)")
  case True
  then show ?thesis using assms
    by (auto elim!: both_dirsE simp: merge_entry_dirs merge_subdir_def le_SucI [OF length_bt_insert_le])
next
  case False
  then show ?thesis using assms merge_leaf_grows by (simp add: merge_entry_leaf)
qed

lemma merge_dir_total:
  "dir_size base + dir_size ours + dir_size theirs \<le> tree_limit \<Longrightarrow>
     \<exists>m. merge_dir prefix base ours theirs label merge_empty = Some m"
proof (induction "dir_size ours" arbitrary: prefix base ours theirs rule: less_induct)
  case less
  let ?ns = "merge_names base ours theirs"
  have ns: "length ?ns \<le> tree_limit"
    using length_merge_names [of base ours theirs] length_dir_size [of base] length_dir_size [of ours]
      length_dir_size [of theirs] less.prems by linarith
  have "\<exists>out'. merge_entry prefix base ours theirs label x out = Some out'
      \<and> length (merge_tree out') \<le> length (merge_tree out) + 2"
    if "length (merge_tree out) \<le> 2 * length ?ns" for x out
  proof -
    have "\<exists>out'. merge_entry prefix base ours theirs label x out = Some out'"
    proof (cases "both_dirs (map_of ours x) (map_of theirs x)")
      case True
      then obtain om omt salt od tm tmt tsalt td where
        d: "map_of ours x = Some (Dir om omt salt od)" "map_of theirs x = Some (Dir tm tmt tsalt td)"
        by (rule both_dirsE)
      have "dir_size od < dir_size ours" "dir_size td < dir_size theirs" using d subdir_smaller by blast+
      then have "\<exists>m. merge_dir (join_path prefix x) (base_children (map_of base x)) od td label merge_empty = Some m"
        using less.hyps less.prems dir_size_base_children [of base x] by simp
      then show ?thesis using d by (auto simp: merge_entry_dirs)
    next
      case False
      have "2 * (length ?ns + length (merge_tree out)) + 4 < u32_max"
        using that ns by (simp add: tree_limit_def u32_max_def)
      then show ?thesis using False merge_leaf_total by (simp add: merge_entry_leaf)
    qed
    then show ?thesis using merge_entry_grows by blast
  qed
  then show ?case
    unfolding merge_dir_run by (intro run_names_total [where L = "2 * length ?ns"]) (auto simp: merge_empty_def)
qed

section \<open>One side unchanged\<close>

fun node_wf :: "node \<Rightarrow> bool" where
  "node_wf (File _ _ _ _ _) = True"
| "node_wf (Dir _ _ _ ch) = (bt_wf ch \<and> list_all (\<lambda>e. node_wf (snd e)) ch)"

definition dir_wf :: "dir \<Rightarrow> bool" where
  "dir_wf d \<longleftrightarrow> bt_wf d \<and> list_all (\<lambda>e. node_wf (snd e)) d"

lemma dir_wf_at: "dir_wf d \<Longrightarrow> map_of d x = Some nd \<Longrightarrow> node_wf nd"
  by (fastforce simp: dir_wf_def list_all_iff dest: map_of_SomeD)

lemma node_wf_Dir: "node_wf (Dir m t s ch) \<longleftrightarrow> dir_wf ch"
  by (simp add: dir_wf_def)

lemma dir_wf_base_children: "dir_wf d \<Longrightarrow> dir_wf (base_children (map_of d x))"
  using dir_wf_at [of d x] by (cases "map_of d x"; cases "the (map_of d x)") (auto simp: node_wf_Dir dir_wf_def [of "[]"] simp del: node_wf.simps)

lemma same_content_Dir:
  assumes "dir_wf x" "dir_wf y"
  shows "same_content (Dir m t s x) (Dir m' t' s' y) \<longleftrightarrow>
     (\<forall>k. rel_option same_content (map_of x k) (map_of y k))" (is "?l \<longleftrightarrow> ?r")
proof
  have dx: "bt_wf x" "distinct (map fst x)" "distinct (map fst y)" "bt_wf y"
    using assms by (auto simp: dir_wf_def bt_wf_distinct)
  have card: "length x = card (dom (map_of x))" "length y = card (dom (map_of y))"
    using dx(2,3) distinct_card [of "map fst x"] distinct_card [of "map fst y"] by (simp_all add: dom_map_of_conv_image_fst)
  {
    assume ?l
    then have len: "length x = length y" and all: "\<And>k v. map_of x k = Some v \<Longrightarrow> \<exists>w. map_of y k = Some w \<and> same_content v w"
      by (auto simp: list_all_iff split: option.splits dest!: map_of_SomeD) fastforce
    have "dom (map_of x) \<subseteq> dom (map_of y)" using all by blast
    then have "dom (map_of x) = dom (map_of y)"
      using card len by (metis card_subset_eq finite_dom_map_of)
    then show ?r using all by (metis domIff option.exhaust option.rel_intros(1,2))
  }
  {
    assume r: ?r
    then have "dom (map_of x) = dom (map_of y)" by (metis domIff option.rel_distinct subsetI subset_antisym option.exhaust)
    then have "length x = length y" using card by simp
    moreover have "\<exists>w. map_of y k = Some w \<and> same_content v w" if "(k, v) \<in> set x" for k v
      using r that bt_get_iff [OF dx(1), of k v] by (metis option_rel_Some1)
    ultimately show ?l by (fastforce simp: list_all_iff)
  }
qed

lemma same_content_refl: "node_wf nd \<Longrightarrow> same_content nd nd"
proof (induction nd rule: node_wf.induct)
  case (2 m t s ch)
  then have "rel_option same_content (map_of ch k) (map_of ch k)" for k
    by (cases "map_of ch k") (auto simp: list_all_iff dest: map_of_SomeD)
  then show ?case using "2.prems" by (subst same_content_Dir) (simp_all add: dir_wf_def)
qed simp

lemma same_opt_refl: "dir_wf d \<Longrightarrow> same_opt (map_of d x) (map_of d x)"
  by (cases "map_of d x") (auto simp: same_content_refl dir_wf_at)

lemma same_content_sym: "node_wf a \<Longrightarrow> node_wf b \<Longrightarrow> same_content a b \<Longrightarrow> same_content b a"
proof (induction a b rule: same_content.induct)
  case (2 m t s x m' t' s' y)
  have wf: "dir_wf x" "dir_wf y" using "2.prems" by (simp_all add: dir_wf_def)
  have r: "rel_option same_content (map_of x k) (map_of y k)" for k
    using "2.prems"(3) same_content_Dir [OF wf] by blast
  have "rel_option same_content (map_of y k) (map_of x k)" for k
  proof (cases "map_of x k")
    case None
    then show ?thesis using r [of k] by simp
  next
    case (Some v)
    then obtain w where w: "map_of y k = Some w" "same_content v w" using r [of k] by (auto simp: option_rel_Some1)
    moreover have "same_content w v"
      using "2.IH" [of "(k, v)" w] Some w dir_wf_at [OF wf(1) Some] dir_wf_at [OF wf(2) w(1)] by (simp add: map_of_SomeD)
    ultimately show ?thesis using Some by simp
  qed
  then show ?case using same_content_Dir [OF wf(2,1)] by blast
qed auto

lemma same_opt_sym: "dir_wf d \<Longrightarrow> dir_wf e \<Longrightarrow> same_opt (map_of d x) (map_of e x) \<Longrightarrow> same_opt (map_of e x) (map_of d x)"
  by (cases "map_of d x"; cases "map_of e x") (auto intro: same_content_sym dir_wf_at)

lemma same_content_with_mode [simp]: "same_content (with_mode m a) b = same_content a b"
  by (cases a; cases b) auto

lemma with_own_mode [simp]: "with_mode (node_mode nd) nd = nd"
  by (cases nd) auto

text \<open>No entry diverges and every subdirectory merges without conflicts: so does the whole.\<close>

lemma merge_dir_quiet:
  assumes "\<And>x. \<not> diverges (map_of base x) (map_of ours x) (map_of theirs x)"
    and sub: "\<And>x om omt salt od tm tmt tsalt td. map_of ours x = Some (Dir om omt salt od) \<Longrightarrow>
      map_of theirs x = Some (Dir tm tmt tsalt td) \<Longrightarrow>
      \<exists>m. merge_dir (join_path prefix x) (base_children (map_of base x)) od td label merge_empty = Some m
        \<and> merge_conflicts m = []"
  shows "\<exists>m. merge_dir prefix base ours theirs label merge_empty = Some m \<and> merge_conflicts m = []
    \<and> dom (map_of (merge_tree m)) \<subseteq> dom (map_of base) \<union> dom (map_of ours) \<union> dom (map_of theirs)
    \<and> bt_wf (merge_tree m)"
proof -
  have "\<exists>out'. merge_entry prefix base ours theirs label x out = Some out'" for x out
  proof (cases "both_dirs (map_of ours x) (map_of theirs x)")
    case True
    then show ?thesis using sub by (elim both_dirsE) (fastforce simp: merge_entry_dirs)
  next
    case False
    then show ?thesis using assms(1) [of x] by (auto simp: merge_entry_leaf merge_leaf_def diverges_def Let_def)
  qed
  then have "\<exists>m. merge_dir prefix base ours theirs label merge_empty = Some m"
    unfolding merge_dir_run using merge_entry_grows by (intro run_names_total [OF _ order_refl]) blast
  then obtain m where m: "merge_dir prefix base ours theirs label merge_empty = Some m" by blast
  note M = merged_namesD [OF merge_dir_merged [OF m]]
  have quiet: "cs = []" if "outcome prefix base ours theirs label x v cs" for x v cs
  proof (cases "both_dirs (map_of ours x) (map_of theirs x)")
    case True
    then obtain om omt salt od tm tmt tsalt td where
      d: "map_of ours x = Some (Dir om omt salt od)" "map_of theirs x = Some (Dir tm tmt tsalt td)"
      by (rule both_dirsE)
    from outcome_dirs [OF that d] sub [OF d] show ?thesis by (metis option.inject)
  next
    case False
    then show ?thesis using that assms(1) by (simp add: outcome_def)
  qed
  obtain css where css: "merge_conflicts m = concat css"
    "list_all2 (\<lambda>x cs. \<exists>v. outcome prefix base ours theirs label x v cs) (merge_names base ours theirs) css"
    using M(6) by (auto simp: merge_empty_def)
  then have "\<forall>cs \<in> set css. cs = []" using quiet by (auto simp: list_all2_conv_all_nth in_set_conv_nth) blast
  then have "merge_conflicts m = []" using css(1) by simp
  moreover have "dom (map_of (merge_tree m)) \<subseteq> dom (map_of base) \<union> dom (map_of ours) \<union> dom (map_of theirs)"
  proof
    fix x assume "x \<in> dom (map_of (merge_tree m))"
    then obtain nd where "map_of (merge_tree m) x = Some nd" by blast
    moreover have "\<not> copied base ours theirs y nd" for y
    proof -
      from assms(1) [of y] show ?thesis by (auto simp: copied_def)
    qed
    ultimately show "x \<in> dom (map_of base) \<union> dom (map_of ours) \<union> dom (map_of theirs)"
      using merge_dir_only [OF m] by blast
  qed
  moreover have "bt_wf (merge_tree m)" using M(7) by (simp add: merge_empty_def)
  ultimately show ?thesis using m by blast
qed

lemma merge_theirs_unchanged:
  "dir_wf base \<Longrightarrow> dir_wf ours \<Longrightarrow>
     merge_dir prefix base ours base label merge_empty = Some \<lparr>merge_tree = ours, merge_conflicts = []\<rparr>"
proof (induction "dir_size ours" arbitrary: prefix base ours rule: less_induct)
  case less
  note refl = same_opt_refl [OF less.prems(1)]
  have sub: "merge_dir (join_path prefix x) td od td label merge_empty = Some \<lparr>merge_tree = od, merge_conflicts = []\<rparr>"
    if "map_of ours x = Some (Dir om omt salt od)" "map_of base x = Some (Dir tm tmt tsalt td)" for x om omt salt od tm tmt tsalt td
    using less.hyps [OF subdir_smaller [OF that(1)]] dir_wf_at [OF less.prems(1) that(2)] dir_wf_at [OF less.prems(2) that(1)]
    by (simp add: node_wf_Dir del: node_wf.simps)
  have "\<not> diverges (map_of base x) (map_of ours x) (map_of base x)" for x
    using refl by (simp add: diverges_def)
  then have "\<exists>m. merge_dir prefix base ours base label merge_empty = Some m \<and> merge_conflicts m = []
      \<and> dom (map_of (merge_tree m)) \<subseteq> dom (map_of base) \<union> dom (map_of ours) \<union> dom (map_of base) \<and> bt_wf (merge_tree m)"
    by (rule merge_dir_quiet) (use sub in simp)
  then obtain m where m: "merge_dir prefix base ours base label merge_empty = Some m"
    "merge_conflicts m = []" "dom (map_of (merge_tree m)) \<subseteq> dom (map_of base) \<union> dom (map_of ours)" "bt_wf (merge_tree m)"
    by blast
  have "map_of (merge_tree m) x = map_of ours x" for x
  proof (cases "x \<in> dom (map_of base) \<union> dom (map_of ours)")
    case False
    then show ?thesis using m(3) by (metis (full_types) UnI2 domIff subsetD)
  next
    case True
    then obtain c where oc: "outcome prefix base ours base label x (map_of (merge_tree m) x) c"
      using merge_dir_at [OF m(1)] by blast
    show ?thesis
    proof (cases "both_dirs (map_of ours x) (map_of base x)")
      case True
      then obtain om omt salt od tm tmt tsalt td where
        d: "map_of ours x = Some (Dir om omt salt od)" "map_of base x = Some (Dir tm tmt tsalt td)"
        by (rule both_dirsE)
      with True oc sub [OF d] show ?thesis by (auto simp: outcome_def Let_def pick3_def)
    next
      case False
      from outcome_leaf [OF oc False] refl [of x] show ?thesis
        by (cases "map_of ours x"; cases "map_of base x") (auto simp: leaf_at_def Let_def pick3_def)
    qed
  qed
  then have "merge_tree m = ours" using m(4) less.prems(2) by (intro bt_eqI) (auto simp: dir_wf_def)
  with m(1,2) show ?case by simp
qed

lemma merge_ours_unchanged:
  "dir_wf base \<Longrightarrow> dir_wf theirs \<Longrightarrow>
     \<exists>m. merge_dir prefix base base theirs label merge_empty = Some m \<and> merge_conflicts m = []
       \<and> dir_wf (merge_tree m) \<and> (\<forall>x. rel_option same_content (map_of (merge_tree m) x) (map_of theirs x))"
proof (induction "dir_size base" arbitrary: prefix base theirs rule: less_induct)
  case less
  note refl = same_opt_refl [OF less.prems(1)]
  have sub: "\<exists>m. merge_dir (join_path prefix x) od od td label merge_empty = Some m \<and> merge_conflicts m = []
       \<and> dir_wf (merge_tree m) \<and> (\<forall>x. rel_option same_content (map_of (merge_tree m) x) (map_of td x))"
    if "map_of base x = Some (Dir om omt salt od)" "map_of theirs x = Some (Dir tm tmt tsalt td)" for x om omt salt od tm tmt tsalt td
    using less.hyps [OF subdir_smaller [OF that(1)]] dir_wf_at [OF less.prems(1) that(1)] dir_wf_at [OF less.prems(2) that(2)]
    by (simp add: node_wf_Dir del: node_wf.simps)
  have "\<not> diverges (map_of base x) (map_of base x) (map_of theirs x)" for x
    using refl by (simp add: diverges_def)
  then have "\<exists>m. merge_dir prefix base base theirs label merge_empty = Some m \<and> merge_conflicts m = []
      \<and> dom (map_of (merge_tree m)) \<subseteq> dom (map_of base) \<union> dom (map_of base) \<union> dom (map_of theirs) \<and> bt_wf (merge_tree m)"
    by (rule merge_dir_quiet) (use sub in fastforce)
  then obtain m where m: "merge_dir prefix base base theirs label merge_empty = Some m"
    "merge_conflicts m = []" "dom (map_of (merge_tree m)) \<subseteq> dom (map_of base) \<union> dom (map_of theirs)" "bt_wf (merge_tree m)"
    by blast
  have at: "rel_option same_content (map_of (merge_tree m) x) (map_of theirs x) \<and> pred_option node_wf (map_of (merge_tree m) x)" for x
  proof (cases "x \<in> dom (map_of base) \<union> dom (map_of theirs)")
    case False
    then have "map_of theirs x = None" "map_of (merge_tree m) x = None" using m(3) by blast+
    then show ?thesis by simp
  next
    case True
    then obtain c where oc: "outcome prefix base base theirs label x (map_of (merge_tree m) x) c"
      using merge_dir_at [OF m(1)] by blast
    show ?thesis
    proof (cases "both_dirs (map_of base x) (map_of theirs x)")
      case True
      then obtain om omt salt od tm tmt tsalt td where
        d: "map_of base x = Some (Dir om omt salt od)" "map_of theirs x = Some (Dir tm tmt tsalt td)"
        by (rule both_dirsE)
      obtain sm md where sm: "merge_dir (join_path prefix x) od od td label merge_empty = Some sm"
        "map_of (merge_tree m) x = Some (Dir md omt salt (merge_tree sm))"
        using outcome_dirs [OF oc d] d(1) by (metis base_children_simps(3))
      with sub [OF d] have s: "dir_wf (merge_tree sm)"
        "\<forall>x. rel_option same_content (map_of (merge_tree sm) x) (map_of td x)" by auto
      have "dir_wf td" using dir_wf_at [OF less.prems(2) d(2)] by (simp add: node_wf_Dir del: node_wf.simps)
      with s sm(2) d(2) show ?thesis
        using same_content_Dir [of "merge_tree sm" td md omt salt tm tmt tsalt]
        by (simp add: node_wf_Dir del: node_wf.simps same_content.simps)
    next
      case False
      have wf: "pred_option node_wf (map_of base x)" "pred_option node_wf (map_of theirs x)"
        using dir_wf_at less.prems by (auto simp: pred_option_def)
      have wm: "node_wf (with_mode k nd) = node_wf nd" for k nd by (cases nd) auto
      have sym: "same_opt (map_of base x) (map_of theirs x)" if "same_opt (map_of theirs x) (map_of base x)"
        using that same_opt_sym less.prems by blast
      from outcome_leaf [OF oc False] refl [of x] sym wf show ?thesis
        by (cases "map_of base x"; cases "map_of theirs x")
          (auto simp: leaf_at_def Let_def wm same_content_refl)
    qed
  qed
  moreover have "dir_wf (merge_tree m)"
    using m(4) at bt_get_iff [OF m(4)] by (fastforce simp: dir_wf_def list_all_iff pred_option_def)
  ultimately show ?case using m(1,2) by blast
qed

section \<open>Properties\<close>

text \<open>
  C8: a merge loses no content and invents none. Every file content that ours has at a path where the
  base does not have it is in the merged tree at that very path; every content that theirs has at a
  path where the base does not is in the merged tree at some path; and every content in the merged
  tree is one of ours or of theirs.
\<close>

theorem merge_loses_nothing:
  assumes "three_way_merge base ours theirs label = Some m"
  shows "(file_at ours p cs \<and> \<not> file_at base p cs \<longrightarrow> file_at (merge_tree m) p cs)
    \<and> (file_at theirs p cs \<and> \<not> file_at base p cs \<longrightarrow> (\<exists>p'. file_at (merge_tree m) p' cs))
    \<and> (file_at (merge_tree m) p cs \<longrightarrow> (\<exists>p'. file_at ours p' cs \<or> file_at theirs p' cs))"
  using assms merge_keeps_ours merge_keeps_theirs merge_invents_nothing unfolding three_way_merge_def by metis

definition toy_file :: "u8 \<Rightarrow> node" where
  "toy_file b = File 420 0 1 [] [[b]]"

theorem merge_loses_nothing_witness:
  "\<exists>m p'. three_way_merge [([97], toy_file 0)] [([97], toy_file 1)] [([97], toy_file 2)] [120] = Some m
     \<and> file_at (merge_tree m) [[97]] [[1]] \<and> file_at (merge_tree m) p' [[2]]"
proof -
  have "\<exists>m. merge_dir [] [([97], toy_file 0)] [([97], toy_file 1)] [([97], toy_file 2)] [120] merge_empty = Some m"
    by (rule merge_dir_total) (simp add: dir_size_def toy_file_def tree_limit_def)
  then obtain m where m: "three_way_merge [([97], toy_file 0)] [([97], toy_file 1)] [([97], toy_file 2)] [120] = Some m"
    by (auto simp: three_way_merge_def)
  note L = merge_loses_nothing [OF m, of "[[97]]"]
  have "file_at (merge_tree m) [[97]] [[1]]" "\<exists>p'. file_at (merge_tree m) p' [[2]]"
    using L [of "[[1]]"] L [of "[[2]]"] by (auto simp: file_at_one toy_file_def)
  with m show ?thesis by blast
qed

text \<open>
  A merge always returns. For trees of fewer than 2 to the 28 entries in all, the search for a
  free keep-both name ends before its 32-bit counter overflows, at every level, so the merge produces
  a result.
\<close>

theorem merge_returns:
  assumes "dir_size base + dir_size ours + dir_size theirs \<le> tree_limit"
  shows "\<exists>m. three_way_merge base ours theirs label = Some m"
  unfolding three_way_merge_def using assms by (rule merge_dir_total)

theorem merge_returns_witness:
  "\<exists>m. three_way_merge [] [([97], toy_file 1)] [([97], toy_file 2)] [] = Some m"
  by (rule merge_returns) (simp add: dir_size_def toy_file_def tree_limit_def)

text \<open>
  A one-sided change is taken over without a conflict. When theirs is still the base, the merge is
  exactly ours, metadata included; when ours is still the base, the merge has exactly the content of
  theirs (deletions included); neither reports a conflict.
\<close>

theorem merge_one_sided:
  assumes "dir_wf base" "dir_wf side"
  shows "three_way_merge base side base label = Some \<lparr>merge_tree = side, merge_conflicts = []\<rparr>
    \<and> (\<exists>m. three_way_merge base base side label = Some m \<and> merge_conflicts m = []
         \<and> same_content (Dir 0 0 [] (merge_tree m)) (Dir 0 0 [] side))"
proof -
  obtain m where m: "merge_dir [] base base side label merge_empty = Some m" "merge_conflicts m = []"
    "dir_wf (merge_tree m)" "\<forall>x. rel_option same_content (map_of (merge_tree m) x) (map_of side x)"
    using merge_ours_unchanged [OF assms] by blast
  then have "same_content (Dir 0 0 [] (merge_tree m)) (Dir 0 0 [] side)"
    using same_content_Dir [of "merge_tree m" side] assms(2) by blast
  with m(1,2) show ?thesis
    using merge_theirs_unchanged [OF assms] unfolding three_way_merge_def by blast
qed

theorem merge_one_sided_witness:
  "three_way_merge [([97], toy_file 0)] [([98], toy_file 1)] [([97], toy_file 0)] [120]
     = Some \<lparr>merge_tree = [([98], toy_file 1)], merge_conflicts = []\<rparr>"
proof -
  have "dir_wf [([97], toy_file 0)]" "dir_wf [([98], toy_file 1)]"
    by (simp_all add: dir_wf_def bt_wf_def toy_file_def)
  from merge_one_sided [OF this] show ?thesis by blast
qed

end
