(* ===== verification/Trees.thy ===== *)
theory Trees
  imports Merge Objects Store Head
begin

text \<open>
  The object-graph part of \<open>crates/secsec-snapshot\<close>: the canonical encodings of trees and commits,
  the guard on entry names, commit signatures, sealing into and opening from the object store, the
  closures, path resolution and the tree difference. Faults of the database itself are not
  modelled here: an object is in the store or it is missing. A \<open>String\<close> is its UTF-8 bytes.
\<close>

section \<open>Data\<close>

definition MAX_TREE_FANOUT :: nat where "MAX_TREE_FANOUT = 65536"
definition MAX_CHUNKS_PER_FILE :: nat where "MAX_CHUNKS_PER_FILE = MAX_BLOB_SIZE div ID_LEN"

datatype tree_entry =
    EFile (entry_name: bytes) (te_mode: u32) (te_mtime: u64) (te_size: u64) (te_path_salt: bytes) (te_chunks: "bytes list")
  | EDir (entry_name: bytes) (te_mode: u32) (te_mtime: u64) (te_subtree: bytes) (te_subtree_salt: bytes)

type_synonym tree = "tree_entry list"

record commit =
  root_tree :: bytes
  root_salt :: bytes
  c_parents :: "bytes list"
  c_device_id :: bytes
  c_version :: u64
  c_roster_seq :: u64
  last_seen_head :: bytes
  c_ts :: u64

datatype io_error = IoNotFound | IoOther string

datatype snap_error =
    SnapIo io_error
  | SnapObject obj_error
  | SnapCanon canon_error
  | Missing bytes
  | Malformed string
  | DepthExceeded
  | NonUtf8Name
  | SnapRng
  | SnapBadSignature
  | PathNotFound bytes
  | PrunedBeyondRetention bytes
  | TreeTooLarge bytes
  | UnsafePath bytes
  | SnapSig sig_error

section \<open>Names\<close>

text \<open>The control characters are the bytes below 32, 127, and the two-byte codes of U+0080 to U+009F.\<close>

fun has_control :: "bytes \<Rightarrow> bool" where
  "has_control [] = False"
| "has_control (a # bs) =
     (a < 32 \<or> a = 127 \<or> (a = 0xC2 \<and> (case bs of b # _ \<Rightarrow> 0x80 \<le> b \<and> b \<le> 0x9F | [] \<Rightarrow> False)) \<or> has_control bs)"

definition is_safe_entry_name :: "bytes \<Rightarrow> bool" where
  "is_safe_entry_name name \<longleftrightarrow>
     \<not> (name = [] \<or> name = [46] \<or> name = [46, 46] \<or> 47 \<in> set name \<or> 92 \<in> set name \<or> has_control name)"

section \<open>Trees\<close>

fun write_entry :: "tree_entry \<Rightarrow> writer \<Rightarrow> writer" where
  "write_entry (EFile name mode mtime sz salt chunks) w =
     fold Writer_raw chunks (writes [Writer_u8 0, Writer_bytes name, Writer_u32 mode, Writer_u64 mtime, Writer_u64 sz,
       Writer_raw salt, Writer_u32 (of_nat (length chunks))] w)"
| "write_entry (EDir name mode mtime subtree salt) w =
     writes [Writer_u8 1, Writer_bytes name, Writer_u32 mode, Writer_u64 mtime, Writer_raw subtree, Writer_raw salt] w"

definition encode_tree :: "tree \<Rightarrow> bytes option" where
  "encode_tree t = Writer_finish (fold write_entry t (Writer_u32 (of_nat (length t)) Writer_new))"

definition read_file_body :: "bytes \<Rightarrow> u32 \<Rightarrow> u64 \<Rightarrow> reader \<Rightarrow> snap_error + tree_entry \<times> reader" where
  "read_file_body name mode mtime r =
     rbind (map_err SnapCanon (Reader_u64 r)) (\<lambda>(sz, r).
     rbind (map_err SnapCanon (Reader_raw 16 r)) (\<lambda>(salt, r).
     rbind (map_err SnapCanon (Reader_u32 r)) (\<lambda>(n, r).
     if MAX_CHUNKS_PER_FILE < unat n then Inl (Malformed ''chunk list exceeds maximum'') else
     rbind (map_err SnapCanon (read_times (unat n) (Reader_raw 32) r)) (\<lambda>(chunks, r).
     Inr (EFile name mode mtime sz salt chunks, r)))))"

definition read_dir_body :: "bytes \<Rightarrow> u32 \<Rightarrow> u64 \<Rightarrow> reader \<Rightarrow> snap_error + tree_entry \<times> reader" where
  "read_dir_body name mode mtime r =
     rbind (map_err SnapCanon (Reader_raw 32 r)) (\<lambda>(subtree, r).
     rbind (map_err SnapCanon (Reader_raw 16 r)) (\<lambda>(salt, r).
     Inr (EDir name mode mtime subtree salt, r)))"

definition read_entry :: "bytes option \<Rightarrow> reader \<Rightarrow> snap_error + tree_entry \<times> reader" where
  "read_entry prev r =
     rbind (map_err SnapCanon (Reader_u8 r)) (\<lambda>(kind, r).
     rbind (map_err SnapCanon (Reader_bytes MAX_NAME_LEN r)) (\<lambda>(name, r).
     if \<not> from_utf8_ok name then Inl NonUtf8Name
     else if \<not> is_safe_entry_name name then Inl (Malformed ''unsafe tree entry name'')
     else if (case prev of Some l \<Rightarrow> name \<le> l | None \<Rightarrow> False)
     then Inl (Malformed ''tree entries must be strictly ascending and unique by name'') else
     rbind (map_err SnapCanon (Reader_u32 r)) (\<lambda>(mode, r).
     rbind (map_err SnapCanon (Reader_u64 r)) (\<lambda>(mtime, r).
     if kind = 0 then read_file_body name mode mtime r
     else if kind = 1 then read_dir_body name mode mtime r
     else Inl (Malformed ''unknown tree entry kind'')))))"

fun read_entries :: "nat \<Rightarrow> bytes option \<Rightarrow> reader \<Rightarrow> snap_error + tree \<times> reader" where
  "read_entries 0 prev r = Inr ([], r)"
| "read_entries (Suc n) prev r =
     rbind (read_entry prev r) (\<lambda>(e, r).
     rbind (read_entries n (Some (entry_name e)) r) (\<lambda>(es, r). Inr (e # es, r)))"

definition decode_tree :: "bytes \<Rightarrow> snap_error + tree" where
  "decode_tree b =
     rbind (map_err SnapCanon (Reader_u32 (Reader_new b))) (\<lambda>(count, r).
     if MAX_TREE_FANOUT < unat count then Inl (Malformed ''tree fan-out exceeds maximum'') else
     rbind (read_entries (unat count) None r) (\<lambda>(es, r).
     rbind (map_err SnapCanon (Reader_finish r)) (\<lambda>_. Inr es)))"

section \<open>Commits\<close>

definition write_commit_fields :: "commit \<Rightarrow> writer \<Rightarrow> writer" where
  "write_commit_fields c w =
     writes [Writer_raw (c_device_id c), Writer_u64 (c_version c), Writer_u64 (c_roster_seq c),
        Writer_raw (last_seen_head c), Writer_u64 (c_ts c)]
       (fold Writer_raw (c_parents c)
         (writes [Writer_raw (root_tree c), Writer_raw (root_salt c), Writer_u32 (of_nat (length (c_parents c)))] w))"

definition read_commit_fields :: "reader \<Rightarrow> snap_error + commit \<times> reader" where
  "read_commit_fields r =
     rbind (map_err SnapCanon (Reader_raw 32 r)) (\<lambda>(rt, r).
     rbind (map_err SnapCanon (Reader_raw 16 r)) (\<lambda>(rs, r).
     rbind (map_err SnapCanon (Reader_u32 r)) (\<lambda>(n, r).
     if MAX_LIST_ELEMENTS < unat n then Inl (Malformed ''parent list exceeds maximum'') else
     rbind (map_err SnapCanon (read_times (unat n) (Reader_raw 32) r)) (\<lambda>(ps, r).
     rbind (map_err SnapCanon (Reader_raw 32 r)) (\<lambda>(d, r).
     rbind (map_err SnapCanon (Reader_u64 r)) (\<lambda>(v, r).
     rbind (map_err SnapCanon (Reader_u64 r)) (\<lambda>(q, r).
     rbind (map_err SnapCanon (Reader_raw 32 r)) (\<lambda>(l, r).
     rbind (map_err SnapCanon (Reader_u64 r)) (\<lambda>(ts, r).
     Inr (\<lparr>root_tree = rt, root_salt = rs, c_parents = ps, c_device_id = d, c_version = v, c_roster_seq = q,
           last_seen_head = l, c_ts = ts\<rparr>, r))))))))))"

definition encode_commit :: "commit \<Rightarrow> bytes option" where
  "encode_commit c = Writer_finish (write_commit_fields c Writer_new)"

definition encode_signed_commit :: "commit \<Rightarrow> bytes \<Rightarrow> bytes option" where
  "encode_signed_commit c sg = Writer_finish (Writer_bytes sg (write_commit_fields c Writer_new))"

definition decode_signed_commit :: "bytes \<Rightarrow> snap_error + commit \<times> bytes" where
  "decode_signed_commit b =
     rbind (read_commit_fields (Reader_new b)) (\<lambda>(c, r).
     rbind (map_err SnapCanon (Reader_bytes MAX_SIG_LEN r)) (\<lambda>(sg, r).
     rbind (map_err SnapCanon (Reader_finish r)) (\<lambda>_. Inr (c, sg))))"

definition sign_commit :: "ssh \<Rightarrow> bytes \<Rightarrow> commit \<Rightarrow> (snap_error + bytes) option" where
  "sign_commit ss sk c =
     map_option (\<lambda>msg. map_err SnapSig (DeviceKey_sign ss sk NS_COMMIT msg)) (encode_commit c)"

definition verify_commit :: "crypto \<Rightarrow> ssh \<Rightarrow> bytes \<Rightarrow> commit \<Rightarrow> bytes \<Rightarrow> (snap_error + unit) option" where
  "verify_commit cr ss pk c sg =
     orbind (Some (map_err SnapSig (device_id_of cr ss pk))) (\<lambda>d.
     if d \<noteq> c_device_id c then Some (Inl SnapBadSignature) else
     map_option (\<lambda>msg. map_err (\<lambda>_. SnapBadSignature) (DevicePublic_verify ss pk NS_COMMIT msg sg)) (encode_commit c))"

section \<open>Objects in the store\<close>

definition fetch_open :: "crypto \<Rightarrow> master_keys \<Rightarrow> obj_type \<Rightarrow> bytes \<Rightarrow> bytes \<Rightarrow> store \<Rightarrow> snap_error + bytes" where
  "fetch_open cr keys t salt i st =
     rbind (ok_or (Missing i) (get st i)) (\<lambda>blob. map_err SnapObject (open_object cr keys t salt i blob))"

definition seal_signed_commit :: "crypto \<Rightarrow> ssh \<Rightarrow> master_key \<Rightarrow> bytes \<Rightarrow> commit \<Rightarrow> store \<Rightarrow> (snap_error + bytes \<times> store) option" where
  "seal_signed_commit cr ss mk sk c st =
     orbind (sign_commit ss sk c) (\<lambda>sg.
     map_option (\<lambda>b. let (i, blob) = seal_object cr mk TCommit ZERO_SALT b in Inr (i, snd (put i blob st)))
       (encode_signed_commit c sg))"

definition open_signed_commit :: "crypto \<Rightarrow> master_keys \<Rightarrow> bytes \<Rightarrow> store \<Rightarrow> snap_error + commit \<times> bytes" where
  "open_signed_commit cr keys i st = rbind (fetch_open cr keys TCommit ZERO_SALT i st) decode_signed_commit"

definition verified_commit :: "crypto \<Rightarrow> master_keys \<Rightarrow> bytes \<Rightarrow> bytes \<Rightarrow> snap_error + commit \<times> bytes" where
  "verified_commit cr keys i blob =
     rbind (map_err SnapObject (open_object cr keys TCommit ZERO_SALT i blob)) decode_signed_commit"

definition verified_tree :: "crypto \<Rightarrow> master_keys \<Rightarrow> bytes \<Rightarrow> bytes \<Rightarrow> bytes \<Rightarrow> snap_error + tree" where
  "verified_tree cr keys i salt blob =
     rbind (map_err SnapObject (open_object cr keys TTree salt i blob)) decode_tree"

definition verify_chunk :: "crypto \<Rightarrow> master_keys \<Rightarrow> bytes \<Rightarrow> bytes \<Rightarrow> bytes \<Rightarrow> snap_error + unit" where
  "verify_chunk cr keys i salt blob =
     rbind (map_err SnapObject (open_object cr keys TChunk salt i blob)) (\<lambda>_. Inr ())"

definition load_tree :: "crypto \<Rightarrow> master_keys \<Rightarrow> store \<Rightarrow> bytes \<Rightarrow> bytes \<Rightarrow> snap_error + tree" where
  "load_tree cr keys st i salt = rbind (fetch_open cr keys TTree salt i st) decode_tree"

definition seal_tree :: "crypto \<Rightarrow> tree \<Rightarrow> bytes \<Rightarrow> master_key \<Rightarrow> bytes \<Rightarrow> store \<Rightarrow> (snap_error + bytes \<times> store) option" where
  "seal_tree cr t salt mk dir st =
     (if MAX_TREE_FANOUT < length t then Some (Inl (TreeTooLarge dir)) else
      map_option (\<lambda>b.
        let (i, blob) = seal_object cr mk TTree salt b
        in if MAX_BLOB_SIZE < length blob then Inl (TreeTooLarge dir) else Inr (i, snd (put i blob st)))
        (encode_tree t))"

text \<open>Decoded trees are strictly sorted, so a binary search finds the one entry of that name.\<close>

definition find_entry :: "tree \<Rightarrow> bytes \<Rightarrow> tree_entry option" where
  "find_entry t name = find (\<lambda>e. entry_name e = name) t"

section \<open>Closures\<close>

function collect_tree :: "crypto \<Rightarrow> master_keys \<Rightarrow> store \<Rightarrow> bool \<Rightarrow> nat \<Rightarrow> bytes \<Rightarrow> bytes \<Rightarrow> bytes list \<Rightarrow> snap_error + bytes list"
  and collect_entries :: "crypto \<Rightarrow> master_keys \<Rightarrow> store \<Rightarrow> bool \<Rightarrow> nat \<Rightarrow> tree \<Rightarrow> bytes list \<Rightarrow> snap_error + bytes list" where
  "collect_tree cr keys st strict depth i salt reachable =
     (if MAX_TREE_DEPTH \<le> depth then Inl DepthExceeded
      else if i \<in> set reachable then Inr reachable
      else case get st i of
          None \<Rightarrow> if strict then Inl (Missing i) else Inr reachable
        | Some blob \<Rightarrow>
            rbind (verified_tree cr keys i salt blob) (\<lambda>t.
            collect_entries cr keys st strict (depth + 1) t (insort_insert i reachable)))"
| "collect_entries cr keys st strict depth [] reachable = Inr reachable"
| "collect_entries cr keys st strict depth (e # es) reachable =
     rbind (case e of
        EFile _ _ _ _ _ chunks \<Rightarrow> Inr (fold insort_insert chunks reachable)
      | EDir _ _ _ subtree salt \<Rightarrow> collect_tree cr keys st strict depth subtree salt reachable)
     (collect_entries cr keys st strict depth es)"
  by pat_completeness auto
termination
  by (relation "measures [\<lambda>x. case x of Inl (_, _, _, _, depth, _) \<Rightarrow> 2 * (MAX_TREE_DEPTH - depth)
        | Inr (_, _, _, _, depth, _) \<Rightarrow> 2 * (MAX_TREE_DEPTH - depth) + 1,
      \<lambda>x. case x of Inl _ \<Rightarrow> 0 | Inr (_, _, _, _, _, t, _) \<Rightarrow> length t]") auto

declare collect_tree.simps [simp del]

lemma card_unseen_less:
  assumes "map_of m i \<noteq> None" "i \<notin> S" "insert i S \<subseteq> S'"
  shows "card (fst ` set m - S') < card (fst ` set m - S)"
proof (rule psubset_card_mono)
  have "i \<in> fst ` set m" using assms(1) by (metis map_of_eq_None_iff)
  then show "fst ` set m - S' \<subset> fst ` set m - S" using assms(2,3) by blast
qed simp

lemma card_unseen_le: "S \<subseteq> S' \<Longrightarrow> card (fst ` set m - S') \<le> card (fst ` set m - S)"
  by (rule card_mono) auto

function reachable_loop :: "crypto \<Rightarrow> master_keys \<Rightarrow> store \<Rightarrow> bytes \<Rightarrow> bytes list \<Rightarrow> bytes list \<Rightarrow> bytes list \<Rightarrow> snap_error + bytes list" where
  "reachable_loop cr keys st head reachable commits_done work =
     (if work = [] then Inr reachable
      else
        let cid = last work; work = butlast work in
        if cid \<in> set commits_done then reachable_loop cr keys st head reachable commits_done work
        else
          let commits_done = insort_insert cid commits_done; is_head = (cid = head) in
          case get st cid of
            None \<Rightarrow> if is_head then Inl (Missing cid) else reachable_loop cr keys st head reachable commits_done work
          | Some blob \<Rightarrow>
              rbind (verified_commit cr keys cid blob) (\<lambda>(c, sg).
              rbind (collect_tree cr keys st is_head 0 (root_tree c) (root_salt c) (insort_insert cid reachable)) (\<lambda>reachable.
              reachable_loop cr keys st head reachable commits_done (work @ c_parents c))))"
  by pat_completeness auto
termination
proof (relation "measures [\<lambda>(_, _, st, _, _, d, _). card (fst ` set (t_objects st) - set d), \<lambda>(_, _, _, _, _, _, w). length w]", goal_cases)
  case (3 cr keys st head reachable commits_done work cid work' d is_head)
  have "card (fst ` set (t_objects st) - set d) \<le> card (fst ` set (t_objects st) - set commits_done)"
    by (rule card_unseen_le) (auto simp: 3 set_insort_insert)
  with 3 show ?case by auto
next
  case (4 cr keys st head reachable commits_done work cid work' d is_head blob)
  have "card (fst ` set (t_objects st) - set d) < card (fst ` set (t_objects st) - set commits_done)"
    by (rule card_unseen_less) (use 4 in \<open>auto simp: set_insort_insert get_def\<close>)
  then show ?case by simp
qed auto

declare reachable_loop.simps [simp del]

definition reachable_objects :: "crypto \<Rightarrow> master_keys \<Rightarrow> store \<Rightarrow> bytes \<Rightarrow> snap_error + bytes list" where
  "reachable_objects cr keys st head = reachable_loop cr keys st head [] [] [head]"

definition subtrees :: "tree \<Rightarrow> (bytes \<times> bytes) list" where
  "subtrees t = concat (map (\<lambda>e. case e of EDir _ _ _ i s \<Rightarrow> [(i, s)] | _ \<Rightarrow> []) t)"

definition chunks_of :: "tree \<Rightarrow> bytes list" where
  "chunks_of t = concat (map (\<lambda>e. case e of EFile _ _ _ _ _ cs \<Rightarrow> cs | _ \<Rightarrow> []) t)"

function closure_tree_loop :: "crypto \<Rightarrow> master_keys \<Rightarrow> store \<Rightarrow> bytes list \<Rightarrow> bytes list \<Rightarrow> (bytes \<times> bytes \<times> nat) list
    \<Rightarrow> snap_error + bytes list" where
  "closure_tree_loop cr keys st known out work =
     (if work = [] then Inr out
      else
        let (i, s, depth) = last work; work = butlast work in
        if MAX_TREE_DEPTH \<le> depth then Inl DepthExceeded
        else if i \<in> set known \<or> i \<in> set out then closure_tree_loop cr keys st known out work
        else rbind (load_tree cr keys st i s) (\<lambda>t.
          closure_tree_loop cr keys st known (fold insort_insert (chunks_of t) (insort_insert i out))
            (work @ map (\<lambda>(i, s). (i, s, depth + 1)) (subtrees t))))"
  by pat_completeness auto
termination
proof (relation "measures [\<lambda>(_, _, st, _, out, _). card (fst ` set (t_objects st) - set out), \<lambda>(_, _, _, _, _, w). length w]", goal_cases)
  case (3 cr keys st known out work x i y s depth work' t)
  have "card (fst ` set (t_objects st) - set (fold insort_insert (chunks_of t) (insort_insert i out)))
      < card (fst ` set (t_objects st) - set out)"
    by (rule card_unseen_less)
      (use 3 in \<open>auto simp: set_fold_insort set_insort_insert load_tree_def fetch_open_def rbind_eq_Inr get_def\<close>)
  then show ?case by simp
qed auto

declare closure_tree_loop.simps [simp del]

definition tree_closure :: "crypto \<Rightarrow> master_keys \<Rightarrow> store \<Rightarrow> bytes \<Rightarrow> bytes \<Rightarrow> bytes list \<Rightarrow> bytes list \<Rightarrow> snap_error + bytes list" where
  "tree_closure cr keys st root salt known out = closure_tree_loop cr keys st known out [(root, salt, 0)]"

section \<open>Paths\<close>

datatype path_node =
    PFile u32 u64 u64 bytes "bytes list"
  | PDir bytes bytes

fun split_slash :: "bytes \<Rightarrow> bytes list" where
  "split_slash [] = [[]]"
| "split_slash (b # bs) =
     (if b = 47 then [] # split_slash bs
      else case split_slash bs of c # cs \<Rightarrow> (b # c) # cs | [] \<Rightarrow> [[b]])"

definition path_components :: "bytes \<Rightarrow> bytes list" where
  "path_components path = filter (\<lambda>c. c \<noteq> [] \<and> c \<noteq> [46]) (split_slash path)"

fun resolve_loop :: "crypto \<Rightarrow> master_keys \<Rightarrow> store \<Rightarrow> bytes \<Rightarrow> bytes \<Rightarrow> bytes list \<Rightarrow> snap_error + path_node option" where
  "resolve_loop cr keys st cur_tree cur_salt [] = Inr None"
| "resolve_loop cr keys st cur_tree cur_salt (cmp # comps) =
     rbind (load_tree cr keys st cur_tree cur_salt) (\<lambda>t.
     case find_entry t cmp of
       None \<Rightarrow> Inr None
     | Some (EFile _ mode mtime sz salt chunks) \<Rightarrow>
         Inr (if comps = [] then Some (PFile mode mtime sz salt chunks) else None)
     | Some (EDir _ _ _ subtree salt) \<Rightarrow>
         if comps = [] then Inr (Some (PDir subtree salt)) else resolve_loop cr keys st subtree salt comps)"

definition resolve_path :: "crypto \<Rightarrow> master_keys \<Rightarrow> store \<Rightarrow> bytes \<Rightarrow> bytes \<Rightarrow> bytes \<Rightarrow> snap_error + path_node option" where
  "resolve_path cr keys st rt rs path =
     (let comps = path_components path
      in if comps = [] then Inr (Some (PDir rt rs)) else resolve_loop cr keys st rt rs comps)"

function tree_ids_loop :: "crypto \<Rightarrow> master_keys \<Rightarrow> store \<Rightarrow> bytes list \<Rightarrow> (bytes \<times> bytes) list \<Rightarrow> snap_error + bytes list" where
  "tree_ids_loop cr keys st trees work =
     (if work = [] then Inr trees
      else
        let (t, s) = last work; work = butlast work in
        if t \<in> set trees then tree_ids_loop cr keys st trees work
        else
          case get st t of
            None \<Rightarrow> tree_ids_loop cr keys st (insort_insert t trees) work
          | Some blob \<Rightarrow>
              rbind (verified_tree cr keys t s blob) (\<lambda>tr.
              tree_ids_loop cr keys st (insort_insert t trees) (work @ subtrees tr)))"
  by pat_completeness auto
termination
proof (relation "measures [\<lambda>(_, _, st, trees, _). card (fst ` set (t_objects st) - set trees), \<lambda>(_, _, _, _, w). length w]", goal_cases)
  case (3 cr keys st trees work x t s work')
  have "card (fst ` set (t_objects st) - set (insort_insert t trees)) \<le> card (fst ` set (t_objects st) - set trees)"
    by (rule card_unseen_le) (auto simp: set_insort_insert)
  with 3 show ?case by auto
next
  case (4 cr keys st trees work x t s work' blob tr)
  have "card (fst ` set (t_objects st) - set (insort_insert t trees)) < card (fst ` set (t_objects st) - set trees)"
    by (rule card_unseen_less) (use 4 in \<open>auto simp: set_insort_insert get_def\<close>)
  then show ?case by simp
qed auto

declare tree_ids_loop.simps [simp del]

definition path_chunks :: "crypto \<Rightarrow> master_keys \<Rightarrow> store \<Rightarrow> bytes \<Rightarrow> bytes \<Rightarrow> bytes \<Rightarrow> snap_error + bytes list option" where
  "path_chunks cr keys st rt rs path =
     (case resolve_path cr keys st rt rs path of
        Inr None \<Rightarrow> Inr None
      | Inl (Missing _) \<Rightarrow> Inr None
      | Inl e \<Rightarrow> Inl e
      | Inr (Some (PFile _ _ _ _ chunks)) \<Rightarrow> Inr (Some (fold insort_insert chunks []))
      | Inr (Some (PDir subtree salt)) \<Rightarrow>
          rbind (collect_tree cr keys st False 0 subtree salt []) (\<lambda>all.
          rbind (tree_ids_loop cr keys st [] [(subtree, salt)]) (\<lambda>trees.
          Inr (Some (filter (\<lambda>i. i \<notin> set trees) all)))))"

section \<open>Differences\<close>

definition diff_load :: "crypto \<Rightarrow> master_keys \<Rightarrow> store \<Rightarrow> (bytes \<times> bytes) option \<Rightarrow> snap_error + tree" where
  "diff_load cr keys st side =
     (case side of
        None \<Rightarrow> Inr []
      | Some (i, salt) \<Rightarrow>
          (case load_tree cr keys st i salt of Inl (Missing _) \<Rightarrow> Inr [] | r \<Rightarrow> r))"

definition by_name :: "tree \<Rightarrow> (bytes, tree_entry) btree" where
  "by_name t = fold (\<lambda>e. bt_insert (entry_name e) e) t []"

definition dir_side :: "tree_entry option \<Rightarrow> (bytes \<times> bytes) option" where
  "dir_side e = (case e of Some (EDir _ _ _ i s) \<Rightarrow> Some (i, s) | _ \<Rightarrow> None)"

definition is_file_side :: "tree_entry option \<Rightarrow> bool" where
  "is_file_side e \<longleftrightarrow> (case e of Some (EFile _ _ _ _ _ _) \<Rightarrow> True | _ \<Rightarrow> False)"

function diff_trees :: "crypto \<Rightarrow> master_keys \<Rightarrow> store \<Rightarrow> nat \<Rightarrow> (bytes \<times> bytes) option \<Rightarrow> (bytes \<times> bytes) option \<Rightarrow> bytes
    \<Rightarrow> bytes list \<Rightarrow> snap_error + bytes list"
  and diff_names :: "crypto \<Rightarrow> master_keys \<Rightarrow> store \<Rightarrow> nat \<Rightarrow> (bytes, tree_entry) btree \<Rightarrow> (bytes, tree_entry) btree \<Rightarrow> bytes
    \<Rightarrow> bytes list \<Rightarrow> bytes list \<Rightarrow> snap_error + bytes list" where
  "diff_trees cr keys st depth old new prefix out =
     (if MAX_TREE_DEPTH \<le> depth then Inl DepthExceeded else
      rbind (diff_load cr keys st old) (\<lambda>oe.
      rbind (diff_load cr keys st new) (\<lambda>ne.
      diff_names cr keys st (depth + 1) (by_name oe) (by_name ne) prefix
        (fold insort_insert (bt_keys (by_name oe) @ bt_keys (by_name ne)) []) out)))"
| "diff_names cr keys st depth om nm prefix [] out = Inr out"
| "diff_names cr keys st depth om nm prefix (name # names) out =
     rbind
       (let path = join_path prefix name; o' = map_of om name; n = map_of nm name in
        case (o', n) of
          (Some (EFile _ _ _ _ _ oc), Some (EFile _ _ _ _ _ nc)) \<Rightarrow> Inr (if oc \<noteq> nc then out @ [path] else out)
        | _ \<Rightarrow>
            let out = (if is_file_side o' \<or> is_file_side n then out @ [path] else out);
                od = dir_side o'; nd = dir_side n
            in if (od \<noteq> None \<or> nd \<noteq> None) \<and> map_option fst od \<noteq> map_option fst nd
               then diff_trees cr keys st depth od nd path out else Inr out)
       (diff_names cr keys st depth om nm prefix names)"
  by pat_completeness auto
termination
  by (relation "measures [\<lambda>x. case x of Inl (_, _, _, depth, _) \<Rightarrow> 2 * (MAX_TREE_DEPTH - depth)
        | Inr (_, _, _, depth, _) \<Rightarrow> 2 * (MAX_TREE_DEPTH - depth) + 1,
      \<lambda>x. case x of Inl _ \<Rightarrow> 0 | Inr (_, _, _, _, _, _, _, names, _) \<Rightarrow> length names]") auto

declare diff_trees.simps [simp del]

definition changed_paths :: "crypto \<Rightarrow> master_keys \<Rightarrow> store \<Rightarrow> (bytes \<times> bytes) option \<Rightarrow> (bytes \<times> bytes) option \<Rightarrow> snap_error + bytes list" where
  "changed_paths cr keys st old new = rbind (diff_trees cr keys st 0 old new [] []) (\<lambda>out. Inr (sort out))"

definition hex_digit :: "u8 \<Rightarrow> u8" where
  "hex_digit d = (if d < 10 then 48 + d else 87 + d)"

definition hex12 :: "bytes \<Rightarrow> bytes" where
  "hex12 b = concat (map (\<lambda>x. [hex_digit (drop_bit 4 x), hex_digit (x AND 15)]) (take 6 b))"

section \<open>The tree codec\<close>

fun entry_img :: "tree_entry \<Rightarrow> bytes" where
  "entry_img (EFile name mode mtime sz salt chunks) =
     [0] @ bytes_img name @ le_bytes 4 mode @ le_bytes 8 mtime @ le_bytes 8 sz @ salt
       @ le_bytes 4 (of_nat (length chunks) :: u32) @ concat chunks"
| "entry_img (EDir name mode mtime subtree salt) =
     [1] @ bytes_img name @ le_bytes 4 mode @ le_bytes 8 mtime @ subtree @ salt"

definition name_wf :: "bytes \<Rightarrow> bool" where
  "name_wf name \<longleftrightarrow> length name \<le> MAX_NAME_LEN \<and> from_utf8_ok name \<and> is_safe_entry_name name"

fun body_wf :: "tree_entry \<Rightarrow> bool" where
  "body_wf (EFile _ _ _ _ salt chunks) \<longleftrightarrow>
     length salt = 16 \<and> length chunks \<le> MAX_CHUNKS_PER_FILE \<and> list_all (\<lambda>c. length c = 32) chunks"
| "body_wf (EDir _ _ _ subtree salt) \<longleftrightarrow> length subtree = 32 \<and> length salt = 16"

definition te_wf :: "bytes option \<Rightarrow> tree_entry \<Rightarrow> bool" where
  "te_wf prev e \<longleftrightarrow> name_wf (entry_name e) \<and> body_wf e \<and> (\<forall>l. prev = Some l \<longrightarrow> l < entry_name e)"

definition tree_wf :: "tree \<Rightarrow> bool" where
  "tree_wf t \<longleftrightarrow> length t \<le> MAX_TREE_FANOUT \<and> list_all (\<lambda>e. name_wf (entry_name e) \<and> body_wf e) t
     \<and> sorted_wrt (<) (map entry_name t)"

lemma tree_bounds [simp]:
  "n \<le> MAX_CHUNKS_PER_FILE \<Longrightarrow> n \<le> u32_max" "n \<le> MAX_TREE_FANOUT \<Longrightarrow> n \<le> u32_max"
  "n \<le> MAX_NAME_LEN \<Longrightarrow> n \<le> u32_max"
  by (simp_all add: MAX_CHUNKS_PER_FILE_def MAX_BLOB_SIZE_def ID_LEN_def MAX_TREE_FANOUT_def MAX_NAME_LEN_def u32_max_def)

interpretation tname: codec bytes_img "\<lambda>b. length b \<le> MAX_NAME_LEN \<and> length b \<le> u32_max" Writer_bytes
  "Reader_bytes MAX_NAME_LEN"
  by (rule bytes_codec)

interpretation salt_codec: codec "\<lambda>b. b" "\<lambda>b. length b = 16" Writer_raw "Reader_raw 16"
  by (rule raw_codec)

text \<open>Reading a fixed-width field back, in the form the simplifier applies.\<close>

lemma read_fields:
  "rest r = le_bytes 4 (v4 :: u32) @ ys \<Longrightarrow> Reader_u32 r = Inr (v4, adv 4 r)"
  "rest r = le_bytes 8 (v8 :: u64) @ ys \<Longrightarrow> Reader_u64 r = Inr (v8, adv 8 r)"
  "rest r = b32 @ ys \<Longrightarrow> length b32 = 32 \<Longrightarrow> Reader_raw 32 r = Inr (b32, adv 32 r)"
  "rest r = b16 @ ys \<Longrightarrow> length b16 = 16 \<Longrightarrow> Reader_raw 16 r = Inr (b16, adv 16 r)"
  "rest r = concat ids @ ys \<Longrightarrow> list_all (\<lambda>c. length c = 32) ids \<Longrightarrow>
     read_times (length ids) (Reader_raw 32) r = Inr (ids, adv (length (concat ids)) r)"
  using c_u32.read_back [of r v4 ys] c_u64.read_back [of r v8 ys] id_codec.read_back [of r b32 ys]
    salt_codec.read_back [of r b16 ys] id_codec.times_read_back [of r ids ys] by simp_all

lemma read_file_body_back:
  assumes "rest r = le_bytes 8 sz @ salt @ le_bytes 4 (of_nat (length chunks) :: u32) @ concat chunks @ ys"
    "length salt = 16" "length chunks \<le> MAX_CHUNKS_PER_FILE" "list_all (\<lambda>c. length c = 32) chunks"
  shows "read_file_body name mode mtime r = Inr (EFile name mode mtime sz salt chunks,
    adv (length (le_bytes 8 sz @ salt @ le_bytes 4 (of_nat (length chunks) :: u32) @ concat chunks)) r)"
proof -
  have 1: "Reader_u64 r = Inr (sz, adv 8 r)" by (rule read_fields(2)) (use assms(1) in simp)
  have 2: "Reader_raw 16 (adv 8 r) = Inr (salt, adv 16 (adv 8 r))"
    by (rule read_fields(4)) (use assms(1,2) in simp_all)
  have 3: "Reader_u32 (adv 16 (adv 8 r)) = Inr (of_nat (length chunks), adv 4 (adv 16 (adv 8 r)))"
    by (rule read_fields(1)) (use assms(1,2) in simp)
  have 4: "read_times (length chunks) (Reader_raw 32) (adv 4 (adv 16 (adv 8 r)))
      = Inr (chunks, adv (length (concat chunks)) (adv 4 (adv 16 (adv 8 r))))"
    by (rule read_fields(5)) (use assms(1,2,4) in simp_all)
  show ?thesis
    using assms(2,3) by (simp add: read_file_body_def 1 2 3 4 unat_of_nat_u32 not_less) (simp add: adv_adv add.assoc)
qed

lemma read_dir_body_back:
  assumes "rest r = subtree @ salt @ ys" "length subtree = 32" "length salt = 16"
  shows "read_dir_body name mode mtime r = Inr (EDir name mode mtime subtree salt, adv (length (subtree @ salt)) r)"
proof -
  have 1: "Reader_raw 32 r = Inr (subtree, adv 32 r)" by (rule read_fields(3)) (use assms in simp_all)
  have 2: "Reader_raw 16 (adv 32 r) = Inr (salt, adv 16 (adv 32 r))" by (rule read_fields(4)) (use assms in simp_all)
  show ?thesis using assms(2,3) by (simp add: read_dir_body_def 1 2) (simp add: adv_adv)
qed

lemma read_file_body_accepted:
  assumes "read_file_body name mode mtime r = Inr (e, r')"
  shows "\<exists>sz salt chunks. e = EFile name mode mtime sz salt chunks \<and> body_wf e
    \<and> rest r = le_bytes 8 sz @ salt @ le_bytes 4 (of_nat (length chunks) :: u32) @ concat chunks @ rest r'"
proof -
  from assms obtain sz r1 salt r2 n r3 chunks where
    r: "Reader_u64 r = Inr (sz, r1)" "Reader_raw 16 r1 = Inr (salt, r2)" "Reader_u32 r2 = Inr (n, r3)"
      "unat n \<le> MAX_CHUNKS_PER_FILE" "read_times (unat n) (Reader_raw 32) r3 = Inr (chunks, r')"
    and e: "e = EFile name mode mtime sz salt chunks"
    by (auto simp: read_file_body_def rbind_eq_Inr not_less split: if_splits prod.splits)
  have "list_all (\<lambda>c. length c = 32) chunks \<and> length chunks = unat n \<and> rest r3 = concat chunks @ rest r'"
    using id_codec.times_accepted [OF r(5)] by simp
  moreover have "rest r = le_bytes 8 sz @ salt @ le_bytes 4 n @ rest r3" "length salt = 16"
    using c_u64.accepted [OF r(1)] salt_codec.accepted [OF r(2)] c_u32.accepted [OF r(3)] by simp_all
  moreover have "of_nat (unat n) = n" by simp
  ultimately show ?thesis using r(4) e by simp
qed

lemma read_dir_body_accepted:
  assumes "read_dir_body name mode mtime r = Inr (e, r')"
  shows "\<exists>subtree salt. e = EDir name mode mtime subtree salt \<and> body_wf e \<and> rest r = subtree @ salt @ rest r'"
proof -
  from assms obtain subtree r1 salt where "Reader_raw 32 r = Inr (subtree, r1)" "Reader_raw 16 r1 = Inr (salt, r')"
    "e = EDir name mode mtime subtree salt"
    by (auto simp: read_dir_body_def rbind_eq_Inr split: prod.splits)
  then show ?thesis using id_codec.accepted [of r subtree r1] salt_codec.accepted [of r1 salt r'] by simp
qed

lemma read_entry_back:
  assumes "rest r = entry_img e @ ys" "te_wf prev e"
  shows "read_entry prev r = Inr (e, adv (length (entry_img e)) r)"
proof -
  define k where "k = (if is_EFile e then 0 else 1 :: u8)"
  define r1 where "r1 = adv 1 r"
  let ?nm = "entry_name e" and ?mo = "te_mode e" and ?mt = "te_mtime e"
  let ?r3 = "adv 8 (adv 4 (adv (length (bytes_img ?nm)) r1))"
  define body where "body = (case e of
      EFile _ _ _ sz salt chunks \<Rightarrow> le_bytes 8 sz @ salt @ le_bytes 4 (of_nat (length chunks) :: u32) @ concat chunks
    | EDir _ _ _ subtree salt \<Rightarrow> subtree @ salt)"
  have img: "entry_img e = k # bytes_img ?nm @ le_bytes 4 ?mo @ le_bytes 8 ?mt @ body"
    by (cases e) (simp_all add: body_def k_def)
  have nm: "length ?nm \<le> MAX_NAME_LEN" "from_utf8_ok ?nm" "is_safe_entry_name ?nm"
    "\<not> (case prev of Some l \<Rightarrow> ?nm \<le> l | None \<Rightarrow> False)"
    using assms(2) by (auto simp: te_wf_def name_wf_def split: option.splits)
  have rest1: "rest r1 = bytes_img ?nm @ le_bytes 4 ?mo @ le_bytes 8 ?mt @ body @ ys" using assms(1) img by (simp add: r1_def)
  have 1: "Reader_u8 r = Inr (k, r1)" unfolding r1_def using c_u8.read_back [of r k] assms(1) img by simp
  have 2: "Reader_bytes MAX_NAME_LEN r1 = Inr (?nm, adv (length (bytes_img ?nm)) r1)"
    by (rule tname.read_back) (use rest1 nm(1) in simp_all)
  have 3: "Reader_u32 (adv (length (bytes_img ?nm)) r1) = Inr (?mo, adv 4 (adv (length (bytes_img ?nm)) r1))"
    by (rule read_fields(1)) (use rest1 in simp)
  have 4: "Reader_u64 (adv 4 (adv (length (bytes_img ?nm)) r1)) = Inr (?mt, ?r3)"
    by (rule read_fields(2)) (use rest1 in simp)
  have r3: "rest ?r3 = body @ ys" using rest1 by simp
  have 5: "(if k = 0 then read_file_body ?nm ?mo ?mt ?r3 else if k = 1 then read_dir_body ?nm ?mo ?mt ?r3
      else Inl (Malformed ''unknown tree entry kind'')) = Inr (e, adv (length body) ?r3)"
  proof (cases e)
    case (EFile name mode mtime sz salt chunks)
    then show ?thesis
      using read_file_body_back [of ?r3 sz salt chunks ys ?nm ?mo ?mt] r3 assms(2) by (simp add: body_def te_wf_def k_def)
  next
    case (EDir name mode mtime subtree salt)
    then show ?thesis
      using read_dir_body_back [of ?r3 subtree salt ys ?nm ?mo ?mt] r3 assms(2) by (simp add: body_def te_wf_def k_def)
  qed
  have "read_entry prev r = Inr (e, adv (length body) ?r3)"
    unfolding read_entry_def using nm(2-4) 5 by (simp add: 1 2 3 4 del: length_bytes_img)
  then show ?thesis by (simp add: img adv_adv add.assoc r1_def)
qed

lemma read_entry_accepted:
  assumes "read_entry prev r = Inr (e, r')"
  shows "te_wf prev e \<and> rest r = entry_img e @ rest r'"
proof -
  from assms obtain k r1 nm r2 mo r3 mt r4 where
    r: "Reader_u8 r = Inr (k, r1)" "Reader_bytes MAX_NAME_LEN r1 = Inr (nm, r2)" "Reader_u32 r2 = Inr (mo, r3)" "Reader_u64 r3 = Inr (mt, r4)"
    and nm: "from_utf8_ok nm" "is_safe_entry_name nm" "\<not> (case prev of Some l \<Rightarrow> nm \<le> l | None \<Rightarrow> False)"
    and b: "k = 0 \<and> read_file_body nm mo mt r4 = Inr (e, r') \<or> k = 1 \<and> read_dir_body nm mo mt r4 = Inr (e, r')"
    by (auto simp: read_entry_def rbind_eq_Inr split: if_splits prod.splits)
  have pre: "rest r = [k] @ bytes_img nm @ le_bytes 4 mo @ le_bytes 8 mt @ rest r4" "length nm \<le> MAX_NAME_LEN"
    using c_u8.accepted [OF r(1)] tname.accepted [OF r(2)] c_u32.accepted [OF r(3)] c_u64.accepted [OF r(4)] by simp_all
  have "name_wf nm" "\<forall>l. prev = Some l \<longrightarrow> l < nm" using nm pre(2) by (auto simp: name_wf_def split: option.splits)
  then show ?thesis
    using b pre(1) read_file_body_accepted [of nm mo mt r4 e r'] read_dir_body_accepted [of nm mo mt r4 e r']
    by (auto simp: te_wf_def)
qed

interpretation te: codec entry_img "te_wf prev" write_entry "read_entry prev" for prev
proof unfold_locales
  fix e s assume "te_wf prev e"
  then show "write_entry e (Some s) = Some (s @ entry_img e)"
    by (cases e) (auto simp: te_wf_def name_wf_def)
qed (use read_entry_back read_entry_accepted in blast)+

fun chain_wf :: "bytes option \<Rightarrow> tree \<Rightarrow> bool" where
  "chain_wf prev [] = True"
| "chain_wf prev (e # es) = (te_wf prev e \<and> chain_wf (Some (entry_name e)) es)"

lemma read_entries_back:
  "rest r = concat (map entry_img es) @ ys \<Longrightarrow> chain_wf prev es \<Longrightarrow>
     read_entries (length es) prev r = Inr (es, adv (length (concat (map entry_img es))) r)"
proof (induction es arbitrary: prev r)
  case (Cons e es)
  have 1: "read_entry prev r = Inr (e, adv (length (entry_img e)) r)"
    by (rule te.read_back) (use Cons.prems in auto)
  have 2: "read_entries (length es) (Some (entry_name e)) (adv (length (entry_img e)) r)
      = Inr (es, adv (length (concat (map entry_img es))) (adv (length (entry_img e)) r))"
    by (rule Cons.IH) (use Cons.prems in auto)
  show ?case by (simp add: 1 2) (simp add: adv_adv)
qed simp

lemma read_entries_accepted:
  "read_entries n prev r = Inr (es, r') \<Longrightarrow> length es = n \<and> chain_wf prev es \<and> rest r = concat (map entry_img es) @ rest r'"
proof (induction n arbitrary: prev r es)
  case (Suc n)
  then obtain e r1 es' where e: "read_entry prev r = Inr (e, r1)"
    "read_entries n (Some (entry_name e)) r1 = Inr (es', r')" "es = e # es'"
    by (auto simp: rbind_eq_Inr)
  from Suc.IH [OF e(2)] te.accepted [OF e(1)] e(3) show ?case by simp
qed simp

lemma chain_wf_sorted:
  "chain_wf prev es \<longleftrightarrow> list_all (\<lambda>e. name_wf (entry_name e) \<and> body_wf e) es \<and> sorted_wrt (<) (map entry_name es)
     \<and> (\<forall>l. prev = Some l \<longrightarrow> (\<forall>e \<in> set es. l < entry_name e))"
proof (induction es arbitrary: prev)
  case (Cons e es)
  show ?case
    unfolding chain_wf.simps Cons.IH te_wf_def by (auto intro: less_trans)
qed simp

lemma tree_wf_chain: "tree_wf t \<longleftrightarrow> length t \<le> MAX_TREE_FANOUT \<and> chain_wf None t"
  by (simp add: tree_wf_def chain_wf_sorted)

lemma write_entries: "chain_wf prev es \<Longrightarrow> fold write_entry es (Some s) = Some (s @ concat (map entry_img es))"
  by (induction es arbitrary: prev s) (auto simp: te.written)

lemma encode_tree_img:
  "tree_wf t \<Longrightarrow> encode_tree t = Some (le_bytes 4 (of_nat (length t) :: u32) @ concat (map entry_img t))"
  using write_entries [of None t "le_bytes 4 (of_nat (length t) :: u32)"] by (simp add: encode_tree_def tree_wf_chain)

lemma decode_tree_iff: "decode_tree b = Inr t \<longleftrightarrow> tree_wf t \<and> encode_tree t = Some b" (is "?l \<longleftrightarrow> ?r")
proof
  assume ?l
  then obtain n r1 r2 where r: "Reader_u32 (Reader_new b) = Inr (n, r1)" "unat n \<le> MAX_TREE_FANOUT"
    "read_entries (unat n) None r1 = Inr (t, r2)" "rest r2 = []"
    by (auto simp: decode_tree_def rbind_eq_Inr not_less split: if_splits prod.splits)
  have "length t = unat n" "chain_wf None t" "rest r1 = concat (map entry_img t)"
    using read_entries_accepted [OF r(3)] r(4) by simp_all
  moreover have "b = le_bytes 4 n @ rest r1" using c_u32.accepted [OF r(1)] by simp
  ultimately show ?r using r(2) by (simp add: tree_wf_chain encode_tree_img)
next
  assume r: ?r
  let ?r0 = "Reader_new b"
  have b: "b = le_bytes 4 (of_nat (length t) :: u32) @ concat (map entry_img t)" using r encode_tree_img [of t] by simp
  have 1: "Reader_u32 ?r0 = Inr (of_nat (length t), adv 4 ?r0)" by (rule read_fields(1)) (use b in simp)
  have 2: "read_entries (length t) None (adv 4 ?r0) = Inr (t, adv (length (concat (map entry_img t))) (adv 4 ?r0))"
    by (rule read_entries_back [where ys = "[]"]) (use r b in \<open>simp_all add: tree_wf_chain\<close>)
  have 3: "rest (adv (length (concat (map entry_img t))) (adv 4 ?r0)) = []" using b by simp
  show ?l
    using r 3 by (simp add: decode_tree_def 1 tree_wf_chain unat_of_nat_u32 not_less 2 Reader_finish_rest del: rest_adv)
qed

section \<open>The commit codec\<close>

definition commit_wf :: "commit \<Rightarrow> bool" where
  "commit_wf c \<longleftrightarrow> length (root_tree c) = 32 \<and> length (root_salt c) = 16 \<and> length (c_parents c) \<le> MAX_LIST_ELEMENTS
     \<and> list_all (\<lambda>p. length p = 32) (c_parents c) \<and> length (c_device_id c) = 32 \<and> length (last_seen_head c) = 32"

definition commit_img :: "commit \<Rightarrow> bytes" where
  "commit_img c = root_tree c @ root_salt c @ le_bytes 4 (of_nat (length (c_parents c)) :: u32) @ concat (c_parents c)
     @ c_device_id c @ le_bytes 8 (c_version c) @ le_bytes 8 (c_roster_seq c) @ last_seen_head c @ le_bytes 8 (c_ts c)"

lemma read_commit_back:
  assumes "rest r = commit_img c @ ys" "commit_wf c"
  shows "read_commit_fields r = Inr (c, adv (length (commit_img c)) r)"
proof -
  let ?n = "length (concat (c_parents c))"
  let ?r1 = "adv 32 r" let ?r2 = "adv 16 ?r1" let ?r3 = "adv 4 ?r2" let ?r4 = "adv ?n ?r3" let ?r5 = "adv 32 ?r4"
  let ?r6 = "adv 8 ?r5" let ?r7 = "adv 8 ?r6" let ?r8 = "adv 32 ?r7"
  note l = assms(2) [unfolded commit_wf_def] and i = assms(1) [unfolded commit_img_def append_assoc]
  have 1: "Reader_raw 32 r = Inr (root_tree c, ?r1)" by (rule read_fields(3)) (use i l in simp_all)
  have 2: "Reader_raw 16 ?r1 = Inr (root_salt c, ?r2)" by (rule read_fields(4)) (use i l in simp_all)
  have 3: "Reader_u32 ?r2 = Inr (of_nat (length (c_parents c)), ?r3)" by (rule read_fields(1)) (use i l in simp_all)
  have 4: "read_times (length (c_parents c)) (Reader_raw 32) ?r3 = Inr (c_parents c, ?r4)"
    by (rule read_fields(5)) (use i l in simp_all)
  have 5: "Reader_raw 32 ?r4 = Inr (c_device_id c, ?r5)" by (rule read_fields(3)) (use i l in simp_all)
  have 6: "Reader_u64 ?r5 = Inr (c_version c, ?r6)" by (rule read_fields(2)) (use i l in simp_all)
  have 7: "Reader_u64 ?r6 = Inr (c_roster_seq c, ?r7)" by (rule read_fields(2)) (use i l in simp_all)
  have 8: "Reader_raw 32 ?r7 = Inr (last_seen_head c, ?r8)" by (rule read_fields(3)) (use i l in simp_all)
  have 9: "Reader_u64 ?r8 = Inr (c_ts c, adv 8 ?r8)" by (rule read_fields(2)) (use i l in simp_all)
  have "read_commit_fields r = Inr (c, adv 8 ?r8)"
    using l by (simp add: read_commit_fields_def 1 2 3 unat_of_nat_u32 not_less 4 5 6 7 8 9)
  then show ?thesis using l by (simp add: commit_img_def adv_adv add.assoc)
qed

lemma read_commit_accepted:
  assumes "read_commit_fields r = Inr (c, r')"
  shows "commit_wf c \<and> rest r = commit_img c @ rest r'"
proof -
  from assms obtain rt r1 rs r2 n r3 ps r4 d r5 v r6 q r7 l r8 ts where
    r: "Reader_raw 32 r = Inr (rt, r1)" "Reader_raw 16 r1 = Inr (rs, r2)" "Reader_u32 r2 = Inr (n, r3)" "unat n \<le> MAX_LIST_ELEMENTS"
      "read_times (unat n) (Reader_raw 32) r3 = Inr (ps, r4)" "Reader_raw 32 r4 = Inr (d, r5)" "Reader_u64 r5 = Inr (v, r6)"
      "Reader_u64 r6 = Inr (q, r7)" "Reader_raw 32 r7 = Inr (l, r8)" "Reader_u64 r8 = Inr (ts, r')"
    and c: "c = \<lparr>root_tree = rt, root_salt = rs, c_parents = ps, c_device_id = d, c_version = v, c_roster_seq = q,
        last_seen_head = l, c_ts = ts\<rparr>"
    by (auto simp: read_commit_fields_def rbind_eq_Inr not_less split: if_splits prod.splits)
  have ps: "list_all (\<lambda>p. length p = 32) ps" "length ps = unat n" "rest r3 = concat ps @ rest r4"
    using id_codec.times_accepted [OF r(5)] by simp_all
  then show ?thesis
    using id_codec.accepted [OF r(1)] salt_codec.accepted [OF r(2)] c_u32.accepted [OF r(3)] id_codec.accepted [OF r(6)]
      c_u64.accepted [OF r(7)] c_u64.accepted [OF r(8)] id_codec.accepted [OF r(9)] c_u64.accepted [OF r(10)] r(4)
    by (simp add: c commit_wf_def commit_img_def)
qed

interpretation commit_codec: codec commit_img commit_wf write_commit_fields read_commit_fields
proof unfold_locales
  fix c s assume "commit_wf c"
  then show "write_commit_fields c (Some s) = Some (s @ commit_img c)"
    by (simp add: write_commit_fields_def commit_img_def)
qed (use read_commit_back read_commit_accepted in blast)+

lemma encode_commit_img: "commit_wf c \<Longrightarrow> encode_commit c = Some (commit_img c)"
  by (simp add: encode_commit_def commit_codec.written)

lemma encode_signed_commit_img:
  "commit_wf c \<Longrightarrow> length sg \<le> MAX_SIG_LEN \<Longrightarrow> encode_signed_commit c sg = Some (commit_img c @ bytes_img sg)"
  by (simp add: encode_signed_commit_def commit_codec.written head_sizes)

lemma decode_signed_commit_iff:
  "decode_signed_commit b = Inr (c, sg) \<longleftrightarrow>
     commit_wf c \<and> length sg \<le> MAX_SIG_LEN \<and> encode_signed_commit c sg = Some b" (is "?l \<longleftrightarrow> ?r")
proof
  assume ?l
  then obtain r1 r2 where r: "read_commit_fields (Reader_new b) = Inr (c, r1)" "Reader_bytes MAX_SIG_LEN r1 = Inr (sg, r2)" "rest r2 = []"
    by (auto simp: decode_signed_commit_def rbind_eq_Inr split: prod.splits)
  then show ?r
    using commit_codec.accepted [OF r(1)] sig_codec.accepted [OF r(2)] by (simp add: encode_signed_commit_img)
next
  assume r: ?r
  let ?r0 = "Reader_new b" let ?r1 = "adv (length (commit_img c)) ?r0"
  have b: "b = commit_img c @ bytes_img sg" using r encode_signed_commit_img [of c sg] by simp
  have 1: "read_commit_fields ?r0 = Inr (c, ?r1)" by (rule commit_codec.read_back) (use b r in simp_all)
  have 2: "Reader_bytes MAX_SIG_LEN ?r1 = Inr (sg, adv (length (bytes_img sg)) ?r1)"
    by (rule sig_codec.read_back [where ys = "[]"]) (use b r in \<open>simp_all add: head_sizes\<close>)
  have 3: "rest (adv (length (bytes_img sg)) ?r1) = []" using b by simp
  show ?l using 3 by (simp add: decode_signed_commit_def 1 2 Reader_finish_rest del: rest_adv length_bytes_img)
qed

lemma commit_img_inj: "commit_wf c \<Longrightarrow> commit_wf c' \<Longrightarrow> commit_img c = commit_img c' \<Longrightarrow> c = c'"
  using commit_codec.read_back [of "Reader_new (commit_img c)" c "[]"] commit_codec.read_back [of "Reader_new (commit_img c)" c' "[]"]
  by simp


section \<open>Properties\<close>

text \<open>
  C30: a stored tree has one encoding. \<open>decode_tree\<close> accepts exactly the encodings of well-formed
  trees and returns the tree that was encoded: at most \<open>MAX_TREE_FANOUT\<close> entries in strictly
  ascending order of name, every name valid UTF-8 within the name bound that is not empty, not a dot
  name and free of separators and control characters, chunk lists within their bound. So no two
  byte strings decode to one tree, and no decoded tree can make a restore leave its directory.
\<close>

theorem tree_codec_canonical: "decode_tree b = Inr t \<longleftrightarrow> tree_wf t \<and> encode_tree t = Some b"
  by (rule decode_tree_iff)

end
