(* ===== verification/Graph.thy ===== *)
theory Graph
  imports Trees
begin

text \<open>
  What the walks over the stored object graph compute: which objects a tree names, that the
  retention walk \<open>reachable_objects\<close> misses none of them, that sealed trees and commits open again,
  and what the author check of a commit establishes.
\<close>

section \<open>Opened objects\<close>

text \<open>A blob opens as one type only, and to one plaintext, whatever salt it is opened with.\<close>

lemma open_object_type:
  assumes "open_object cr keys t salt i blob = Inr p" "open_object cr keys t' salt' i' blob = Inr p'"
  shows "t = t'"
proof -
  obtain mk mk' where "seal_object cr mk t salt p = (i, blob)" "seal_object cr mk' t' salt' p' = (i', blob)"
    using assms by (auto simp: open_object_iff)
  then have "take FRAME_LEN blob = Frame_encode (Frame_v1 (generation mk) t)"
    "take FRAME_LEN blob = Frame_encode (Frame_v1 (generation mk') t')"
    by (auto simp: seal_object_def Let_def assemble_blob_def split: prod.splits)
  then have "Frame_v1 (generation mk) t = Frame_v1 (generation mk') t'"
    using Frame_encode_inj by (fastforce simp: Frame_v1_def frame_ok_def)
  then show ?thesis by (simp add: Frame_v1_def)
qed

lemma open_object_plaintext:
  assumes "open_object cr keys t salt i blob = Inr p" "open_object cr keys t salt' i blob = Inr p'"
  shows "p = p'"
  using assms by (auto simp: open_object_def Let_def rbind_eq_Inr split: if_splits)

definition tree_at :: "crypto \<Rightarrow> master_keys \<Rightarrow> store \<Rightarrow> bytes \<Rightarrow> tree \<Rightarrow> bool" where
  "tree_at cr keys st i t \<longleftrightarrow> (\<exists>salt. load_tree cr keys st i salt = Inr t)"

lemma load_tree_eq: "load_tree cr keys st i salt = rbind (ok_or (Missing i) (get st i)) (verified_tree cr keys i salt)"
  by (cases "get st i") (simp_all add: load_tree_def fetch_open_def verified_tree_def)

lemma verified_tree_at: "get st i = Some b \<Longrightarrow> verified_tree cr keys i salt b = Inr t \<Longrightarrow> tree_at cr keys st i t"
  by (auto simp: tree_at_def load_tree_eq)

lemma tree_at_opens:
  assumes "tree_at cr keys st i t"
  obtains b salt p where "get st i = Some b" "open_object cr keys TTree salt i b = Inr p" "decode_tree p = Inr t"
  using assms by (auto simp: tree_at_def load_tree_eq verified_tree_def rbind_eq_Inr split: option.splits)

lemma tree_at_unique:
  assumes "tree_at cr keys st i t" "tree_at cr keys st i t'"
  shows "t = t'"
  using assms open_object_plaintext by (elim tree_at_opens) (metis option.inject sum.inject(2))

lemma tree_at_present: "tree_at cr keys st i t \<Longrightarrow> get st i \<noteq> None"
  by (erule tree_at_opens) simp

section \<open>What the puts leave\<close>

definition put_object :: "bytes \<times> bytes \<Rightarrow> store \<Rightarrow> store" where
  "put_object o' st = snd (put (fst o') (snd o') st)"

lemma get_put_object: "get (put_object o' st) k = (if k = fst o' \<and> get st k = None then Some (snd o') else get st k)"
  by (auto simp: put_object_def put_def put_many_def put_one_def get_def Let_def)

text \<open>No address of the objects is taken by a different object, in the store or among themselves.\<close>

definition addresses_free :: "store \<Rightarrow> (bytes \<times> bytes) list \<Rightarrow> bool" where
  "addresses_free st objs \<longleftrightarrow> list_all (\<lambda>(i, b). get st i = None \<or> get st i = Some b) objs
     \<and> list_all (\<lambda>(i, b). list_all (\<lambda>(j, c). i = j \<longrightarrow> b = c) objs) objs"

lemma get_puts: "get st k = Some b \<Longrightarrow> get (fold put_object objs st) k = Some b"
  by (induction objs arbitrary: st) (simp_all add: get_put_object)

lemma addresses_free_puts: "addresses_free st objs \<Longrightarrow> (i, b) \<in> set objs \<Longrightarrow> get (fold put_object objs st) i = Some b"
proof (induction objs arbitrary: st)
  case (Cons o' objs)
  have "addresses_free (put_object o' st) objs"
    using Cons.prems(1) by (fastforce simp: addresses_free_def list_all_iff get_put_object)
  moreover have "get (put_object o' st) (fst o') = Some (snd o')"
    using Cons.prems(1) by (auto simp: addresses_free_def get_put_object split: prod.splits)
  ultimately show ?case using Cons get_puts by (cases "(i, b) = o'") auto
qed simp

section \<open>Sealed trees and commits open again\<close>

definition sealed_tree :: "crypto \<Rightarrow> master_key \<Rightarrow> bytes \<Rightarrow> tree \<Rightarrow> bytes \<times> bytes" where
  "sealed_tree cr mk salt t = seal_object cr mk TTree salt (the (encode_tree t))"

definition tree_fits :: "crypto \<Rightarrow> master_key \<Rightarrow> bytes \<Rightarrow> tree \<Rightarrow> bool" where
  "tree_fits cr mk salt t \<longleftrightarrow> length t \<le> MAX_TREE_FANOUT \<and> encode_tree t \<noteq> None \<and> length (snd (sealed_tree cr mk salt t)) \<le> MAX_BLOB_SIZE"

lemma seal_tree_ok:
  "seal_tree cr t salt mk path st = Some (Inr (i, st')) \<longleftrightarrow>
     tree_fits cr mk salt t \<and> i = fst (sealed_tree cr mk salt t) \<and> st' = put_object (sealed_tree cr mk salt t) st"
  by (cases "encode_tree t") (auto simp: seal_tree_def tree_fits_def sealed_tree_def put_object_def Let_def case_prod_beta)

lemma load_tree_sealed:
  assumes "for_gen keys (generation mk) = Some mk" "tree_fits cr mk salt t" "tree_wf t"
    "get st (fst (sealed_tree cr mk salt t)) = Some (snd (sealed_tree cr mk salt t))"
  shows "load_tree cr keys st (fst (sealed_tree cr mk salt t)) salt = Inr t"
proof -
  obtain p where p: "encode_tree t = Some p" using assms(2) by (auto simp: tree_fits_def)
  then have "open_object cr keys TTree salt (fst (sealed_tree cr mk salt t)) (snd (sealed_tree cr mk salt t)) = Inr p"
    using assms(1,2) by (subst open_object_iff) (auto simp: sealed_tree_def tree_fits_def)
  then show ?thesis using assms(3,4) p by (simp add: load_tree_def fetch_open_def decode_tree_iff)
qed

definition sealed_commit :: "crypto \<Rightarrow> master_key \<Rightarrow> commit \<Rightarrow> bytes \<Rightarrow> bytes \<times> bytes" where
  "sealed_commit cr mk c sg = seal_object cr mk TCommit ZERO_SALT (the (encode_signed_commit c sg))"

lemma seal_signed_commit_ok:
  "seal_signed_commit cr ss mk sk c st = Some (Inr (i, st')) \<longleftrightarrow> (\<exists>msg sg. encode_commit c = Some msg
     \<and> DeviceKey_sign ss sk NS_COMMIT msg = Inr sg \<and> encode_signed_commit c sg \<noteq> None
     \<and> i = fst (sealed_commit cr mk c sg) \<and> st' = put_object (sealed_commit cr mk c sg) st)"
  by (auto simp: seal_signed_commit_def sign_commit_def orbind_eq_ok sealed_commit_def put_object_def Let_def case_prod_beta)

lemma open_sealed_commit:
  assumes "for_gen keys (generation mk) = Some mk" "commit_wf c" "length sg \<le> MAX_SIG_LEN" "length (c_parents c) \<le> 2"
    "get st (fst (sealed_commit cr mk c sg)) = Some (snd (sealed_commit cr mk c sg))"
  shows "open_signed_commit cr keys (fst (sealed_commit cr mk c sg)) st = Inr (c, sg)"
proof -
  obtain p where p: "encode_signed_commit c sg = Some p" "p = commit_img c @ bytes_img sg"
    using encode_signed_commit_img [OF assms(2,3)] by blast
  have "length (concat (c_parents c)) = 32 * length (c_parents c)"
    using assms(2) by (auto simp: commit_wf_def length_concat list_all_iff sum_list_triv cong: map_cong)
  then have "length p \<le> 5000" using assms(2-4) p(2) by (simp add: commit_img_def commit_wf_def bytes_img_def MAX_SIG_LEN_def)
  then have "length (snd (sealed_commit cr mk c sg)) \<le> MAX_BLOB_SIZE"
    by (simp add: sealed_commit_def length_seal_object p(1) FRAME_LEN_def CTX_TAG_LEN_def MAX_BLOB_SIZE_def)
  then have "open_object cr keys TCommit ZERO_SALT (fst (sealed_commit cr mk c sg)) (snd (sealed_commit cr mk c sg)) = Inr p"
    using assms(1) by (subst open_object_iff) (auto simp: sealed_commit_def p(1))
  then show ?thesis using assms p(1) by (simp add: open_signed_commit_def fetch_open_def decode_signed_commit_iff)
qed

section \<open>What a tree names\<close>

text \<open>
  The directories under a root, through the entries that are directories, and the objects the root
  names: these, and what the trees among them list as chunks.
\<close>

inductive beneath :: "crypto \<Rightarrow> master_keys \<Rightarrow> store \<Rightarrow> bytes \<Rightarrow> bytes \<Rightarrow> bool" for cr keys st root where
  root: "beneath cr keys st root root"
| subtree: "beneath cr keys st root i \<Longrightarrow> tree_at cr keys st i t \<Longrightarrow> (j, s) \<in> set (subtrees t) \<Longrightarrow> beneath cr keys st root j"

definition listed_in :: "crypto \<Rightarrow> master_keys \<Rightarrow> store \<Rightarrow> (bytes \<Rightarrow> bool) \<Rightarrow> bytes \<Rightarrow> bool" where
  "listed_in cr keys st P x \<longleftrightarrow> (\<exists>i t. P i \<and> tree_at cr keys st i t \<and> x \<in> set (chunks_of t))"

definition names :: "crypto \<Rightarrow> master_keys \<Rightarrow> store \<Rightarrow> bytes \<Rightarrow> bytes \<Rightarrow> bool" where
  "names cr keys st root x \<longleftrightarrow> beneath cr keys st root x \<or> listed_in cr keys st (beneath cr keys st root) x"

lemma names_root [simp]: "names cr keys st root root"
  by (simp add: names_def beneath.root)

lemma under_trans: "beneath cr keys st j x \<Longrightarrow> beneath cr keys st i j \<Longrightarrow> beneath cr keys st i x"
  by (induction rule: beneath.induct) (auto intro: beneath.subtree)

lemma names_trans: "names cr keys st j x \<Longrightarrow> beneath cr keys st i j \<Longrightarrow> names cr keys st i x"
  unfolding names_def listed_in_def using under_trans by metis

lemma names_chunk: "tree_at cr keys st i t \<Longrightarrow> c \<in> set (chunks_of t) \<Longrightarrow> names cr keys st i c"
  unfolding names_def listed_in_def using beneath.root by blast

lemma names_subtree: "tree_at cr keys st i t \<Longrightarrow> (j, s) \<in> set (subtrees t) \<Longrightarrow> names cr keys st j x \<Longrightarrow> names cr keys st i x"
  using names_trans beneath.subtree [OF beneath.root] by metis

text \<open>
  The walks of the program keep one set of ids for directories and chunks. An id is mixed, among the
  directories \<open>P\<close>, if it is one of them and a tree among them lists it as a chunk as well: a walk
  that has met it as a chunk does not enter it as a directory. No writer of the program makes such
  a tree short of a collision (\<open>mixed_collides\<close>), but a tree of another member may be one.
\<close>

definition mixed :: "crypto \<Rightarrow> master_keys \<Rightarrow> store \<Rightarrow> (bytes \<Rightarrow> bool) \<Rightarrow> bytes \<Rightarrow> bool" where
  "mixed cr keys st P m \<longleftrightarrow> P m \<and> listed_in cr keys st P m"

definition clear :: "crypto \<Rightarrow> master_keys \<Rightarrow> store \<Rightarrow> (bytes \<Rightarrow> bool) \<Rightarrow> bytes set" where
  "clear cr keys st P = {x. P x \<and> \<not> listed_in cr keys st P x}"

definition downward :: "crypto \<Rightarrow> master_keys \<Rightarrow> store \<Rightarrow> (bytes \<Rightarrow> bool) \<Rightarrow> bool" where
  "downward cr keys st P \<longleftrightarrow> (\<forall>i t j s. P i \<longrightarrow> tree_at cr keys st i t \<longrightarrow> (j, s) \<in> set (subtrees t) \<longrightarrow> P j)"

lemma downwardD: "downward cr keys st P \<Longrightarrow> P i \<Longrightarrow> tree_at cr keys st i t \<Longrightarrow> (j, s) \<in> set (subtrees t) \<Longrightarrow> P j"
  unfolding downward_def by blast

lemma downward_under: "downward cr keys st (beneath cr keys st root)"
  unfolding downward_def by (blast intro: beneath.subtree)

lemma under_downward: "beneath cr keys st root x \<Longrightarrow> downward cr keys st P \<Longrightarrow> P root \<Longrightarrow> P x"
  by (induction rule: beneath.induct) (auto dest: downwardD)

text \<open>A directory that is also a sealed chunk: two different inputs of the keyed hash with one result.\<close>

lemma mixed_collides:
  assumes "mixed cr keys st P m" "tree_at cr keys st m u"
    and sealed: "\<And>c. listed_in cr keys st P c \<Longrightarrow> \<exists>mk salt p. c = fst (seal_object cr mk TChunk salt p)"
  shows "\<exists>k k' x x'. keyed_hash cr k x = keyed_hash cr k' x' \<and> x \<noteq> x' \<and> keyed_hash cr k x = m"
proof -
  obtain b salt q where "get st m = Some b" "open_object cr keys TTree salt m b = Inr q" using assms(2) by (rule tree_at_opens)
  then obtain mk where "seal_object cr mk TTree salt q = (m, b)" by (auto simp: open_object_iff)
  then have t: "m = fst (seal_object cr mk TTree salt q)" by simp
  obtain mk' salt' p where c: "m = fst (seal_object cr mk' TChunk salt' p)" using assms(1) sealed unfolding mixed_def by blast
  have "take FRAME_LEN (Frame_encode (Frame_v1 g y) @ z) = Frame_encode (Frame_v1 g y)" for g y and z :: bytes by simp
  moreover have "Frame_encode (Frame_v1 (generation mk) TTree) \<noteq> Frame_encode (Frame_v1 (generation mk') TChunk)"
    using Frame_encode_inj by (fastforce simp: Frame_v1_def frame_ok_def)
  ultimately have "Frame_encode (Frame_v1 (generation mk) TTree) @ salt @ q \<noteq> Frame_encode (Frame_v1 (generation mk') TChunk) @ salt' @ p"
    by metis
  then show ?thesis using t c unfolding fst_seal_object content_id_def by metis
qed

text \<open>The trees among \<open>N\<close> have their chunks in \<open>R\<close>, and their subtrees too, the missing ones only if strict.\<close>

definition closed_in :: "crypto \<Rightarrow> master_keys \<Rightarrow> store \<Rightarrow> bool \<Rightarrow> bytes set \<Rightarrow> bytes set \<Rightarrow> bool" where
  "closed_in cr keys st strict N R \<longleftrightarrow> (\<forall>i \<in> N. \<forall>t. tree_at cr keys st i t \<longrightarrow> set (chunks_of t) \<subseteq> R
     \<and> (\<forall>(j, s) \<in> set (subtrees t). strict \<or> get st j \<noteq> None \<longrightarrow> j \<in> R))"

lemma closed_in_empty [simp]: "closed_in cr keys st strict {} R"
  by (simp add: closed_in_def)

lemma closed_in_mono: "closed_in cr keys st strict N R \<Longrightarrow> R \<subseteq> R' \<Longrightarrow> closed_in cr keys st strict N R'"
  unfolding closed_in_def by fast

lemma closed_in_Un: "closed_in cr keys st strict (N \<union> M) R \<longleftrightarrow> closed_in cr keys st strict N R \<and> closed_in cr keys st strict M R"
  unfolding closed_in_def by blast

lemma closed_in_weaken: "closed_in cr keys st strict N R \<Longrightarrow> closed_in cr keys st False N R"
  unfolding closed_in_def by blast

lemma closed_in_subset: "closed_in cr keys st strict N R \<Longrightarrow> M \<subseteq> N \<Longrightarrow> closed_in cr keys st strict M R"
  unfolding closed_in_def by blast

lemma closed_in_not_trees: "(\<And>i t. i \<in> N \<Longrightarrow> \<not> tree_at cr keys st i t) \<Longrightarrow> closed_in cr keys st strict N R"
  unfolding closed_in_def by blast

lemma closed_in_one:
  assumes t: "tree_at cr keys st i t" and "set (chunks_of t) \<subseteq> R"
    "\<forall>(j, s) \<in> set (subtrees t). strict \<or> get st j \<noteq> None \<longrightarrow> j \<in> R"
  shows "closed_in cr keys st strict {i} R"
proof -
  have "tree_at cr keys st i u \<longleftrightarrow> u = t" for u using tree_at_unique t by blast
  then show ?thesis using assms(2,3) by (simp add: closed_in_def)
qed

lemma closed_in_parts:
  "closed_in cr keys st strict N R \<Longrightarrow> closed_in cr keys st strict M R \<Longrightarrow> K \<subseteq> N \<union> M \<Longrightarrow> closed_in cr keys st strict K R"
  using closed_in_Un closed_in_subset by blast

lemma closed_under:
  assumes "beneath cr keys st root x" "closed_in cr keys st strict (R \<inter> clear cr keys st P) R" "downward cr keys st P" "P root"
    "strict \<or> get st root \<noteq> None \<Longrightarrow> root \<in> R"
  shows "(strict \<or> get st x \<noteq> None \<longrightarrow> x \<in> R) \<or> (\<exists>m. mixed cr keys st P m \<and> beneath cr keys st m x)"
  using assms
proof (induction)
  case (subtree i t j s)
  consider "i \<in> R" | m where "mixed cr keys st P m" "beneath cr keys st m i"
    using subtree tree_at_present by blast
  then show ?case
  proof cases
    case 1
    have "P i" using subtree.hyps(1) subtree.prems(2,3) by (rule under_downward)
    show ?thesis
    proof (cases "listed_in cr keys st P i")
      case True
      then show ?thesis using \<open>P i\<close> beneath.subtree [OF beneath.root subtree.hyps(2,3)] unfolding mixed_def by blast
    next
      case False
      then have "i \<in> R \<inter> clear cr keys st P" using 1 \<open>P i\<close> by (simp add: clear_def)
      then show ?thesis using subtree.prems(1) subtree.hyps(2,3) unfolding closed_in_def by fast
    qed
  qed (use subtree.hyps(2,3) beneath.subtree in blast)
qed blast

lemma closed_listed:
  assumes "listed_in cr keys st (beneath cr keys st root) x" "closed_in cr keys st strict (R \<inter> clear cr keys st P) R"
    "downward cr keys st P" "P root" "strict \<or> get st root \<noteq> None \<Longrightarrow> root \<in> R"
  shows "x \<in> R \<or> (\<exists>m. mixed cr keys st P m \<and> names cr keys st m x)"
proof -
  from assms(1) obtain i t where i: "beneath cr keys st root i" "tree_at cr keys st i t" "x \<in> set (chunks_of t)"
    unfolding listed_in_def by blast
  have "P i" using i(1) assms(3,4) by (rule under_downward)
  consider "i \<in> R" "\<not> listed_in cr keys st P i" | m where "mixed cr keys st P m" "beneath cr keys st m i"
    using closed_under [OF i(1) assms(2-5)] tree_at_present [OF i(2)] \<open>P i\<close> beneath.root unfolding mixed_def by blast
  then show ?thesis
  proof cases
    case 1
    then have "i \<in> R \<inter> clear cr keys st P" using \<open>P i\<close> by (simp add: clear_def)
    then show ?thesis using assms(2) i(2,3) unfolding closed_in_def by blast
  next
    case 2
    then show ?thesis using names_trans [OF names_chunk [OF i(2,3)]] by blast
  qed
qed

lemma closed_names:
  assumes "names cr keys st root x" "closed_in cr keys st strict (R \<inter> clear cr keys st P) R" "downward cr keys st P" "P root"
    "strict \<or> get st root \<noteq> None \<Longrightarrow> root \<in> R"
  shows "(strict \<or> get st x \<noteq> None \<longrightarrow> x \<in> R) \<or> (\<exists>m. mixed cr keys st P m \<and> names cr keys st m x)"
  using closed_under [OF _ assms(2-5), of x] closed_listed [OF _ assms(2-5), of x] assms(1) unfolding names_def by blast

lemma subtrees_Cons [simp]:
  "subtrees (EFile n m mt sz s cs # es) = subtrees es" "subtrees (EDir n m mt i s # es) = (i, s) # subtrees es" "subtrees [] = []"
  by (simp_all add: subtrees_def)

lemma chunks_of_Cons [simp]:
  "chunks_of (EFile n m mt sz s cs # es) = cs @ chunks_of es" "chunks_of (EDir n m mt i s # es) = chunks_of es" "chunks_of [] = []"
  by (simp_all add: chunks_of_def)

section \<open>The retention walk\<close>

lemma collect_tree_cases:
  assumes "collect_tree cr keys st strict depth i salt R = Inr R'"
  shows "i \<in> set R \<and> R' = R \<or> get st i = None \<and> \<not> strict \<and> R' = R
    \<or> (\<exists>b t. \<not> MAX_TREE_DEPTH \<le> depth \<and> i \<notin> set R \<and> get st i = Some b \<and> verified_tree cr keys i salt b = Inr t
         \<and> collect_entries cr keys st strict (depth + 1) t (insort_insert i R) = Inr R')"
  using assms by (subst (asm) collect_tree.simps) (auto simp: rbind_eq_Inr split: if_splits option.splits)

lemma collect_closed:
  assumes P: "downward cr keys st P"
  shows "collect_tree cr keys st strict depth i salt R = Inr R' \<Longrightarrow> P i \<Longrightarrow>
      set R \<subseteq> set R' \<and> (strict \<or> get st i \<noteq> None \<longrightarrow> i \<in> set R')
      \<and> closed_in cr keys st strict ((set R' - set R) \<inter> clear cr keys st P) (set R')"
    and "collect_entries cr keys st strict depth es R = Inr R' \<Longrightarrow>
      \<forall>c \<in> set (chunks_of es). listed_in cr keys st P c \<Longrightarrow> \<forall>j \<in> fst ` set (subtrees es). P j \<Longrightarrow>
      set R \<subseteq> set R' \<and> set (chunks_of es) \<subseteq> set R' \<and> (\<forall>(j, s) \<in> set (subtrees es). strict \<or> get st j \<noteq> None \<longrightarrow> j \<in> set R')
        \<and> closed_in cr keys st strict ((set R' - set R) \<inter> clear cr keys st P) (set R')"
  using P
proof (induction cr keys st strict depth i salt R and cr keys st strict depth es R arbitrary: R' and R'
    rule: collect_tree_collect_entries.induct)
  case (1 cr keys st strict depth i salt R)
  from collect_tree_cases [OF "1.prems"(1)] consider (seen) "i \<in> set R" "R' = R"
    | (gone) "get st i = None" "\<not> strict" "R' = R"
    | (walk) b t where "\<not> MAX_TREE_DEPTH \<le> depth" "i \<notin> set R" "get st i = Some b" "verified_tree cr keys i salt b = Inr t"
        "collect_entries cr keys st strict (depth + 1) t (insort_insert i R) = Inr R'" by metis
  then show ?case
  proof cases
    case walk
    have t: "tree_at cr keys st i t" using walk(3,4) by (rule verified_tree_at)
    have l: "\<forall>c \<in> set (chunks_of t). listed_in cr keys st P c" using t "1.prems"(2) unfolding listed_in_def by blast
    have d: "\<forall>j \<in> fst ` set (subtrees t). P j" using downwardD [OF "1.prems"(3,2) t] by auto
    note r = "1.IH" [OF walk(1-5) l d "1.prems"(3), unfolded set_insort_insert]
    have "closed_in cr keys st strict {i} (set R')" by (rule closed_in_one [OF t]) (use r in simp_all)
    then have "closed_in cr keys st strict ((set R' - set R) \<inter> clear cr keys st P) (set R')"
      by (rule closed_in_parts [where M = "(set R' - insert i (set R)) \<inter> clear cr keys st P"]) (use r in auto)
    with r show ?thesis by blast
  qed simp_all
next
  case (3 cr keys st strict depth e es R)
  show ?case
  proof (cases e)
    case (EFile n m mt sz s cs)
    let ?R = "fold insort_insert cs R"
    have r: "collect_entries cr keys st strict depth es ?R = Inr R'" using "3.prems"(1) EFile by simp
    have set: "set ?R = set R \<union> set cs" by (simp add: set_fold_insort Un_commute)
    have ih: "set R \<union> set cs \<subseteq> set R' \<and> set (chunks_of es) \<subseteq> set R'
        \<and> (\<forall>(j, s) \<in> set (subtrees es). strict \<or> get st j \<noteq> None \<longrightarrow> j \<in> set R')
        \<and> closed_in cr keys st strict ((set R' - (set R \<union> set cs)) \<inter> clear cr keys st P) (set R')"
      using "3.IH"(2) [of ?R R', OF _ r] "3.prems"(2-4) EFile unfolding set by simp
    have "set cs \<inter> clear cr keys st P = {}" using "3.prems"(2) EFile by (auto simp: clear_def)
    then have "(set R' - set R) \<inter> clear cr keys st P = (set R' - (set R \<union> set cs)) \<inter> clear cr keys st P" by blast
    with ih show ?thesis unfolding EFile by simp
  next
    case (EDir n m mt j s)
    let ?C = "clear cr keys st P"
    obtain R1 where r: "collect_tree cr keys st strict depth j s R = Inr R1" "collect_entries cr keys st strict depth es R1 = Inr R'"
      using "3.prems"(1) EDir by (auto simp: rbind_eq_Inr)
    have ih1: "set R \<subseteq> set R1 \<and> (strict \<or> get st j \<noteq> None \<longrightarrow> j \<in> set R1) \<and> closed_in cr keys st strict ((set R1 - set R) \<inter> ?C) (set R1)"
      using "3.IH"(1) [OF EDir r(1)] "3.prems"(3,4) EDir by simp
    have ih2: "set R1 \<subseteq> set R' \<and> set (chunks_of es) \<subseteq> set R'
        \<and> (\<forall>(j, s) \<in> set (subtrees es). strict \<or> get st j \<noteq> None \<longrightarrow> j \<in> set R')
        \<and> closed_in cr keys st strict ((set R' - set R1) \<inter> ?C) (set R')"
      using "3.IH"(2) [of R1 R', OF _ r(2)] r(1) "3.prems"(2-4) EDir by simp
    have "closed_in cr keys st strict ((set R1 - set R) \<inter> ?C) (set R')" using ih1 ih2 closed_in_mono by blast
    then have "closed_in cr keys st strict ((set R' - set R) \<inter> ?C) (set R')"
      by (rule closed_in_parts [where M = "(set R' - set R1) \<inter> ?C"]) (use ih2 in auto)
    with ih1 ih2 show ?thesis unfolding EDir by (auto split: prod.splits)
  qed
qed simp


lemma verified_commit_not_tree: "get st c = Some b \<Longrightarrow> verified_commit cr keys c b = Inr x \<Longrightarrow> \<not> tree_at cr keys st c t"
  by (auto simp: verified_commit_def rbind_eq_Inr elim!: tree_at_opens dest: open_object_type)

definition commit_at :: "crypto \<Rightarrow> master_keys \<Rightarrow> store \<Rightarrow> bytes \<Rightarrow> commit \<Rightarrow> bool" where
  "commit_at cr keys st i c \<longleftrightarrow> (\<exists>sg. open_signed_commit cr keys i st = Inr (c, sg))"

lemma commit_at_eq: "commit_at cr keys st i c \<longleftrightarrow> (\<exists>b sg. get st i = Some b \<and> verified_commit cr keys i b = Inr (c, sg))"
  by (cases "get st i") (simp_all add: commit_at_def open_signed_commit_def fetch_open_def verified_commit_def)

lemma commit_at_wf: "commit_at cr keys st i c \<Longrightarrow> commit_wf c"
  by (auto simp: commit_at_def open_signed_commit_def rbind_eq_Inr decode_signed_commit_iff)

inductive history :: "crypto \<Rightarrow> master_keys \<Rightarrow> store \<Rightarrow> bytes \<Rightarrow> bytes \<Rightarrow> bool" for cr keys st head where
  head: "history cr keys st head head"
| parent: "history cr keys st head i \<Longrightarrow> commit_at cr keys st i c \<Longrightarrow> p \<in> set (c_parents c) \<Longrightarrow> history cr keys st head p"

text \<open>The directories of the commits in a head's history.\<close>

definition dir_of :: "crypto \<Rightarrow> master_keys \<Rightarrow> store \<Rightarrow> bytes \<Rightarrow> bytes \<Rightarrow> bool" where
  "dir_of cr keys st head i \<longleftrightarrow> (\<exists>k c. history cr keys st head k \<and> commit_at cr keys st k c \<and> beneath cr keys st (root_tree c) i)"

lemma downward_dir_of: "downward cr keys st (dir_of cr keys st head)"
  unfolding downward_def dir_of_def by (blast intro: beneath.subtree)

lemma dir_of_root: "history cr keys st head k \<Longrightarrow> commit_at cr keys st k c \<Longrightarrow> dir_of cr keys st head (root_tree c)"
  unfolding dir_of_def using beneath.root by blast

text \<open>The commits of \<open>D\<close> that are stored are in \<open>R\<close> with their roots, and their parents are in \<open>E\<close>.\<close>

definition commits_in :: "crypto \<Rightarrow> master_keys \<Rightarrow> store \<Rightarrow> bytes set \<Rightarrow> bytes set \<Rightarrow> bytes set \<Rightarrow> bool" where
  "commits_in cr keys st D E R \<longleftrightarrow> (\<forall>i \<in> D. \<forall>c. commit_at cr keys st i c \<longrightarrow> i \<in> R
     \<and> (get st (root_tree c) \<noteq> None \<longrightarrow> root_tree c \<in> R) \<and> set (c_parents c) \<subseteq> E)"

lemma commits_in_mono: "commits_in cr keys st D E R \<Longrightarrow> E \<subseteq> E' \<Longrightarrow> R \<subseteq> R' \<Longrightarrow> commits_in cr keys st D E' R'"
  unfolding commits_in_def by blast

lemma commits_in_insertI:
  "commits_in cr keys st D E R \<Longrightarrow> commits_in cr keys st {i} E R \<Longrightarrow> commits_in cr keys st (insert i D) E R"
  unfolding commits_in_def by blast

lemma reachable_loop_cases:
  assumes "reachable_loop cr keys st head R D W = Inr out"
  obtains (stop) "W = []" "out = R"
  | (again) "W \<noteq> []" "last W \<in> set D" "reachable_loop cr keys st head R D (butlast W) = Inr out"
  | (gone) "W \<noteq> []" "last W \<notin> set D" "get st (last W) = None" "last W \<noteq> head"
      "reachable_loop cr keys st head R (insort_insert (last W) D) (butlast W) = Inr out"
  | (walk) b c sg R1 where "W \<noteq> []" "last W \<notin> set D" "get st (last W) = Some b" "verified_commit cr keys (last W) b = Inr (c, sg)"
      "collect_tree cr keys st (last W = head) 0 (root_tree c) (root_salt c) (insort_insert (last W) R) = Inr R1"
      "reachable_loop cr keys st head R1 (insort_insert (last W) D) (butlast W @ c_parents c) = Inr out"
  using assms
  by (subst (asm) reachable_loop.simps) (auto simp: Let_def rbind_eq_Inr split: if_splits option.splits)

lemma reachable_loop_closed:
  "reachable_loop cr keys st head R D W = Inr out \<Longrightarrow> \<forall>w \<in> set W. history cr keys st head w \<Longrightarrow>
    closed_in cr keys st False (set R \<inter> clear cr keys st (dir_of cr keys st head)) (set R) \<Longrightarrow>
    commits_in cr keys st (set D) (set D \<union> set W) (set R) \<Longrightarrow>
    set R \<subseteq> set out \<and> closed_in cr keys st False (set out \<inter> clear cr keys st (dir_of cr keys st head)) (set out)
      \<and> (\<exists>D'. set D \<union> set W \<subseteq> D' \<and> commits_in cr keys st D' D' (set out))"
proof (induction cr keys st head R D W rule: reachable_loop.induct)
  case (1 cr keys st head R D W)
  let ?c = "last W" and ?W = "butlast W" and ?C = "clear cr keys st (dir_of cr keys st head)"
  have W: "set W = insert ?c (set ?W)" if "W \<noteq> []" using arg_cong [OF append_butlast_last_id [OF that], of set] by simp
  have h: "\<forall>w \<in> set ?W. history cr keys st head w" using "1.prems"(2) by (auto dest: in_set_butlastD)
  show ?case
    using "1.prems"(1)
  proof (cases rule: reachable_loop_cases)
    case stop
    with "1.prems" show ?thesis by (intro conjI exI [of _ "set D"]) simp_all
  next
    case again
    have "set D \<union> set W = set D \<union> set ?W" using again(2) W [OF again(1)] by auto
    with "1.IH"(1) [OF again(1) refl refl again(2,3) h] "1.prems" show ?thesis by simp
  next
    case gone
    have nc: "commits_in cr keys st {?c} E S" for E S using gone(3) by (simp add: commits_in_def commit_at_eq)
    have "commits_in cr keys st (set (insort_insert ?c D)) (set (insort_insert ?c D) \<union> set ?W) (set R)"
      unfolding set_insort_insert
      by (rule commits_in_insertI [OF commits_in_mono [OF "1.prems"(4)] nc]) (use W [OF gone(1)] in auto)
    with "1.IH"(2) [OF gone(1) refl refl gone(2) refl refl gone(3) _ gone(5) h] gone(4) "1.prems" W gone(1) show ?thesis
      by (simp add: set_insort_insert)
  next
    case (walk b c sg R1)
    let ?D = "set (insort_insert ?c D)"
    have w: "history cr keys st head ?c" using "1.prems"(2) walk(1) by simp
    have c: "commit_at cr keys st ?c c" using walk(3,4) by (auto simp: commit_at_eq)
    have hs: "\<forall>w \<in> set (?W @ c_parents c). history cr keys st head w" using h history.parent [OF w c] by auto
    note col = collect_closed(1) [OF downward_dir_of walk(5) dir_of_root [OF w c], unfolded set_insort_insert]
    have "closed_in cr keys st False {?c} (set R1)"
      by (rule closed_in_not_trees) (use verified_commit_not_tree [OF walk(3,4)] in simp)
    moreover have "closed_in cr keys st False (set R \<inter> ?C) (set R1)" by (rule closed_in_mono [OF "1.prems"(3)]) (use col in blast)
    moreover have "closed_in cr keys st False ((set R1 - insert ?c (set R)) \<inter> ?C) (set R1)" using col closed_in_weaken by blast
    ultimately have "closed_in cr keys st False ({?c} \<union> set R \<inter> ?C \<union> (set R1 - insert ?c (set R)) \<inter> ?C) (set R1)"
      by (simp add: closed_in_Un del: Un_insert_left)
    then have cl: "closed_in cr keys st False (set R1 \<inter> ?C) (set R1)" by (rule closed_in_subset) auto
    have "commits_in cr keys st (set D) (?D \<union> set (?W @ c_parents c)) (set R1)"
      by (rule commits_in_mono [OF "1.prems"(4)]) (use W [OF walk(1)] col in \<open>auto simp: set_insort_insert\<close>)
    moreover have "commits_in cr keys st {?c} (?D \<union> set (?W @ c_parents c)) (set R1)"
      using walk(3,4) col by (auto simp: commits_in_def commit_at_eq)
    ultimately have ci: "commits_in cr keys st ?D (?D \<union> set (?W @ c_parents c)) (set R1)"
      using commits_in_insertI by (simp only: set_insort_insert)
    note ih = "1.IH"(3) [OF walk(1) refl refl walk(2) refl refl walk(3,4) refl walk(5,6) hs cl ci]
    have "set D \<union> set W \<subseteq> ?D \<union> set (?W @ c_parents c)" using W [OF walk(1)] by (auto simp: set_insort_insert)
    with ih col show ?thesis by (meson insert_subset subset_trans)
  qed
qed

lemma reachable_loop_grows:
  "reachable_loop cr keys st head R D W = Inr out \<Longrightarrow> set R \<subseteq> set out"
proof (induction cr keys st head R D W rule: reachable_loop.induct)
  case (1 cr keys st head R D W)
  show ?case
    using "1.prems"(1)
  proof (cases rule: reachable_loop_cases)
    case again
    from "1.IH"(1) [OF again(1) refl refl again(2,3)] show ?thesis .
  next
    case gone
    from "1.IH"(2) [OF gone(1) refl refl gone(2) refl refl gone(3) _ gone(5)] gone(4) show ?thesis by simp
  next
    case (walk b c sg R1)
    have "set R \<subseteq> set R1" using collect_closed(1) [of cr keys st "\<lambda>_. True", OF _ walk(5)] by (auto simp: set_insort_insert downward_def)
    also have "\<dots> \<subseteq> set out"
      using "1.IH"(3) [OF walk(1) refl refl walk(2) refl refl walk(3,4) refl walk(5,6)] .
    finally show ?thesis .
  qed simp
qed

lemma collect_sound:
  shows "collect_tree cr keys st strict depth i salt R = Inr R' \<Longrightarrow> set R' \<subseteq> set R \<union> {x. names cr keys st i x}"
    and "collect_entries cr keys st strict depth es R = Inr R' \<Longrightarrow>
      set R' \<subseteq> set R \<union> set (chunks_of es) \<union> {x. \<exists>(j, s) \<in> set (subtrees es). names cr keys st j x}"
proof (induction cr keys st strict depth i salt R and cr keys st strict depth es R arbitrary: R' and R'
    rule: collect_tree_collect_entries.induct)
  case (1 cr keys st strict depth i salt R)
  from collect_tree_cases [OF "1.prems"] consider (same) "R' = R"
    | (walk) b t where "\<not> MAX_TREE_DEPTH \<le> depth" "i \<notin> set R" "get st i = Some b" "verified_tree cr keys i salt b = Inr t"
        "collect_entries cr keys st strict (depth + 1) t (insort_insert i R) = Inr R'" by metis
  then show ?case
  proof cases
    case walk
    have t: "tree_at cr keys st i t" using walk(3,4) by (rule verified_tree_at)
    have "set R' \<subseteq> insert i (set R) \<union> set (chunks_of t) \<union> {x. \<exists>(j, s) \<in> set (subtrees t). names cr keys st j x}"
      using "1.IH" [OF walk(1-5)] by (simp add: set_insort_insert)
    then show ?thesis using names_chunk [OF t] names_subtree [OF t] names_root by fast
  qed simp
next
  case (3 cr keys st strict depth e es R)
  then obtain R1 where r: "collect_entries cr keys st strict depth es R1 = Inr R'"
    "(case e of EFile _ _ _ _ _ cs \<Rightarrow> Inr (fold insort_insert cs R) | EDir _ _ _ j s \<Rightarrow> collect_tree cr keys st strict depth j s R) = Inr R1"
    by (auto simp: rbind_eq_Inr)
  note ih = "3.IH"(2) [OF r(2,1)]
  show ?case
  proof (cases e)
    case (EFile n m mt sz s cs)
    then have "set R1 = set R \<union> set cs" using r(2) by (auto simp: set_fold_insort)
    with ih show ?thesis unfolding EFile by auto
  next
    case (EDir n m mt j s)
    then have "set R1 \<subseteq> set R \<union> {x. names cr keys st j x}" using "3.IH"(1) r(2) by simp
    with ih show ?thesis unfolding EDir by auto
  qed
qed simp

text \<open>What the history of a head keeps alive: its commits, and what their trees name.\<close>

definition live :: "crypto \<Rightarrow> master_keys \<Rightarrow> store \<Rightarrow> bytes \<Rightarrow> bytes \<Rightarrow> bool" where
  "live cr keys st head x \<longleftrightarrow>
     (\<exists>i c. history cr keys st head i \<and> commit_at cr keys st i c \<and> (x = i \<or> names cr keys st (root_tree c) x))"

lemma reachable_loop_sound:
  "reachable_loop cr keys st head R D W = Inr out \<Longrightarrow> \<forall>w \<in> set W. history cr keys st head w \<Longrightarrow>
     set out \<subseteq> set R \<union> {x. live cr keys st head x}"
proof (induction cr keys st head R D W rule: reachable_loop.induct)
  case (1 cr keys st head R D W)
  have h: "\<forall>w \<in> set (butlast W). history cr keys st head w" using "1.prems"(2) by (auto dest: in_set_butlastD)
  show ?case
    using "1.prems"(1)
  proof (cases rule: reachable_loop_cases)
    case again
    from "1.IH"(1) [OF again(1) refl refl again(2,3) h] show ?thesis .
  next
    case gone
    from "1.IH"(2) [OF gone(1) refl refl gone(2) refl refl gone(3) _ gone(5) h] gone(4) show ?thesis by simp
  next
    case (walk b c sg R1)
    have w: "history cr keys st head (last W)" using "1.prems"(2) walk(1) by simp
    have c: "commit_at cr keys st (last W) c" using walk(3,4) by (auto simp: commit_at_eq)
    have hs: "\<forall>w \<in> set (butlast W @ c_parents c). history cr keys st head w" using h history.parent [OF w c] by auto
    have "set R1 \<subseteq> insert (last W) (set R) \<union> {x. names cr keys st (root_tree c) x}"
      using collect_sound(1) [OF walk(5)] by (simp add: set_insort_insert)
    also have "\<dots> \<subseteq> set R \<union> {x. live cr keys st head x}" using w c by (auto simp: live_def)
    finally show ?thesis
      using "1.IH"(3) [OF walk(1) refl refl walk(2) refl refl walk(3,4) refl walk(5,6) hs] by auto
  qed simp
qed

section \<open>Properties\<close>

text \<open>
  The retention walk keeps what is alive. When \<open>reachable_objects\<close> succeeds on a head, all it returns
  is a commit of the head's history or named, through any nesting of directories, by the root of one;
  every stored object of this kind is returned, and so is all that the head's own root names, stored
  or not, except for what is named below an id that these trees list both as a directory and as a chunk.
\<close>

theorem reachable_objects_exact:
  assumes "reachable_objects cr keys st head = Inr out"
  shows "(\<forall>x \<in> set out. live cr keys st head x)
    \<and> (\<forall>x. live cr keys st head x \<longrightarrow> get st x \<noteq> None \<longrightarrow> x \<in> set out
         \<or> (\<exists>m. mixed cr keys st (dir_of cr keys st head) m \<and> names cr keys st m x))
    \<and> (\<exists>c. commit_at cr keys st head c \<and> (\<forall>x. names cr keys st (root_tree c) x \<longrightarrow> x \<in> set out
         \<or> (\<exists>m. mixed cr keys st (dir_of cr keys st head) m \<and> names cr keys st m x)))"
proof (intro conjI)
  let ?P = "dir_of cr keys st head"
  have loop: "reachable_loop cr keys st head [] [] [head] = Inr out" using assms by (simp add: reachable_objects_def)
  from reachable_loop_closed [OF loop] obtain D where
    cl: "closed_in cr keys st False (set out \<inter> clear cr keys st ?P) (set out)" and D: "head \<in> D" "commits_in cr keys st D D (set out)"
    using history.head [of cr keys st head] by (auto simp: commits_in_def)
  have hist: "i \<in> D" if "history cr keys st head i" for i
    using that by induction (use D in \<open>auto simp: commits_in_def\<close>)
  show "\<forall>x. live cr keys st head x \<longrightarrow> get st x \<noteq> None \<longrightarrow> x \<in> set out \<or> (\<exists>m. mixed cr keys st ?P m \<and> names cr keys st m x)"
  proof (intro allI impI)
    fix x
    assume "live cr keys st head x" and x: "get st x \<noteq> None"
    then obtain i c where i: "history cr keys st head i" "commit_at cr keys st i c" "x = i \<or> names cr keys st (root_tree c) x"
      unfolding live_def by blast
    with D(2) hist have "i \<in> set out" "get st (root_tree c) \<noteq> None \<longrightarrow> root_tree c \<in> set out" unfolding commits_in_def by blast+
    with i(3) closed_names [OF _ cl downward_dir_of dir_of_root [OF i(1,2)], of x] x
    show "x \<in> set out \<or> (\<exists>m. mixed cr keys st ?P m \<and> names cr keys st m x)" by blast
  qed
  show "\<forall>x \<in> set out. live cr keys st head x"
    using reachable_loop_sound [OF loop] by (auto intro: history.head)
  show "\<exists>c. commit_at cr keys st head c \<and> (\<forall>x. names cr keys st (root_tree c) x \<longrightarrow> x \<in> set out
         \<or> (\<exists>m. mixed cr keys st ?P m \<and> names cr keys st m x))"
    using loop
  proof (cases rule: reachable_loop_cases)
    case (walk b c sg R1)
    have c: "commit_at cr keys st head c" using walk(3,4) by (auto simp: commit_at_eq)
    have h: "?P (root_tree c)" using dir_of_root [OF history.head c] .
    note col = collect_closed(1) [OF downward_dir_of walk(5), simplified, OF h]
    have "closed_in cr keys st True {head} (set R1)"
      by (rule closed_in_not_trees) (use verified_commit_not_tree [OF walk(3,4)] in simp)
    then have "closed_in cr keys st True (set R1 \<inter> clear cr keys st ?P) (set R1)"
      by (rule closed_in_parts [where M = "(set R1 - {head}) \<inter> clear cr keys st ?P"]) (use col in \<open>auto simp: insort_insert_key_def\<close>)
    from closed_names [OF _ this downward_dir_of h] col
    have "names cr keys st (root_tree c) x \<Longrightarrow> x \<in> set R1 \<or> (\<exists>m. mixed cr keys st ?P m \<and> names cr keys st m x)" for x by auto
    moreover have "set R1 \<subseteq> set out" using reachable_loop_grows [OF walk(6)] .
    ultimately show ?thesis using c by blast
  qed simp_all
qed


section \<open>An example store\<close>

text \<open>A keyed hash that keeps the end of its input, so that addresses are easy to tell apart.\<close>

definition ex_crypto :: crypto where
  "ex_crypto = toy_crypto\<lparr>blake3_keyed := (\<lambda>k m. from_le (take 32 (rev m @ replicate 32 0)))\<rparr>"

definition ex_mk :: master_key where "ex_mk = MasterKey_new 1 (replicate 32 9)"

definition ex_salt :: bytes where "ex_salt = replicate 16 1"

definition ex_tree :: "bytes \<times> bytes" where "ex_tree = sealed_tree ex_crypto ex_mk ex_salt []"

text \<open>A commit of the device with the given key, on the empty tree; the second argument tells commits apart.\<close>

definition ex_commit :: "bytes \<Rightarrow> u8 \<Rightarrow> commit" where
  "ex_commit pk n = \<lparr>root_tree = fst ex_tree, root_salt = ex_salt, c_parents = [], c_device_id = hash ex_crypto pk, c_version = 1,
     c_roster_seq = 0, last_seen_head = replicate 32 0, c_ts = from_le (replicate 7 0 @ [n])\<rparr>"

definition ex_object :: "bytes \<Rightarrow> u8 \<Rightarrow> bytes \<times> bytes" where
  "ex_object pk n = sealed_commit ex_crypto ex_mk (ex_commit pk n) []"

definition ex_objects :: "(bytes \<times> bytes) list" where
  "ex_objects = [ex_tree, ex_object [5] 2, ex_object [6] 3]"

definition ex_store :: store where
  "ex_store = fold put_object ex_objects Store_empty"

lemma ex_keyed: "keyed_hash ex_crypto k m = take 32 (rev m @ replicate 32 0)"
  by (simp add: keyed_hash_def ex_crypto_def le_bytes_from_le)

lemma ex_tree_address: "fst ex_tree ! 4 = 1"
proof -
  have "encode_tree [] = Some [0, 0, 0, 0]" by (simp add: encode_tree_def numeral_eq_Suc)
  then show ?thesis
    by (simp add: ex_tree_def sealed_tree_def fst_seal_object content_id_def ex_keyed ex_salt_def nth_append)
qed


lemma ex_commit_wf: "commit_wf (ex_commit pk n)"
  by (simp add: commit_wf_def ex_commit_def ex_tree_def sealed_tree_def ex_salt_def)

lemma ex_object_address: "fst (ex_object pk n) ! 4 = n"
proof -
  let ?c = "ex_commit pk n"
  have ts: "le_bytes 8 (c_ts ?c) = replicate 7 0 @ [n]" by (simp add: ex_commit_def le_bytes_from_le)
  have "bytes_img [] = [0, 0, 0, 0]" by (simp add: bytes_img_def numeral_eq_Suc)
  then have "encode_signed_commit ?c [] = Some (commit_img ?c @ [0, 0, 0, 0])"
    using encode_signed_commit_img [OF ex_commit_wf, of "[]"] by simp
  then show ?thesis
    by (simp add: ex_object_def sealed_commit_def fst_seal_object content_id_def ex_keyed nth_append commit_img_def ts)
qed

lemma ex_free: "addresses_free Store_empty ex_objects"
proof -
  have "fst ex_tree \<noteq> fst (ex_object [5] 2)" "fst ex_tree \<noteq> fst (ex_object [6] 3)" "fst (ex_object [5] 2) \<noteq> fst (ex_object [6] 3)"
    using ex_tree_address ex_object_address [of "[5]" 2] ex_object_address [of "[6]" 3] by force+
  then show ?thesis
    using not_sym by (simp add: addresses_free_def ex_objects_def Store_empty_def get_def case_prod_beta)
qed

lemma ex_at:
  "get ex_store (fst ex_tree) = Some (snd ex_tree)"
  "get ex_store (fst (ex_object [5] 2)) = Some (snd (ex_object [5] 2))"
  "get ex_store (fst (ex_object [6] 3)) = Some (snd (ex_object [6] 3))"
  unfolding ex_store_def by (rule addresses_free_puts [OF ex_free]; simp add: ex_objects_def)+

lemma ex_only:
  assumes "get ex_store i = Some b"
  shows "i = fst ex_tree \<or> i = fst (ex_object [5] 2) \<or> i = fst (ex_object [6] 3)"
proof -
  have "get (fold put_object objs st) i = Some b \<Longrightarrow> get st i = Some b \<or> i \<in> fst ` set objs" for objs st
  proof (induction objs arbitrary: st)
    case (Cons x objs)
    from Cons.IH [of "put_object x st"] Cons.prems show ?case by (auto simp: get_put_object split: if_splits)
  qed simp
  from this [of ex_objects Store_empty] assms show ?thesis by (auto simp: ex_store_def ex_objects_def Store_empty_def get_def)
qed

abbreviation ex_keys :: master_keys where "ex_keys \<equiv> MasterKey_keys ex_mk"

lemma ex_for_gen: "for_gen ex_keys (generation ex_mk) = Some ex_mk"
  by (simp add: MasterKey_keys_def)

lemma ex_opens:
  "load_tree ex_crypto ex_keys ex_store (fst ex_tree) ex_salt = Inr []"
  "open_signed_commit ex_crypto ex_keys (fst (ex_object [5] 2)) ex_store = Inr (ex_commit [5] 2, [])"
  "open_signed_commit ex_crypto ex_keys (fst (ex_object [6] 3)) ex_store = Inr (ex_commit [6] 3, [])"
proof -
  have "tree_fits ex_crypto ex_mk ex_salt []"
    by (simp add: tree_fits_def sealed_tree_def length_seal_object encode_tree_def FRAME_LEN_def CTX_TAG_LEN_def MAX_BLOB_SIZE_def)
  then show "load_tree ex_crypto ex_keys ex_store (fst ex_tree) ex_salt = Inr []"
    unfolding ex_tree_def by (intro load_tree_sealed ex_for_gen ex_at(1) [unfolded ex_tree_def]) (simp_all add: tree_wf_def)
  show "open_signed_commit ex_crypto ex_keys (fst (ex_object [5] 2)) ex_store = Inr (ex_commit [5] 2, [])"
    "open_signed_commit ex_crypto ex_keys (fst (ex_object [6] 3)) ex_store = Inr (ex_commit [6] 3, [])"
    unfolding ex_object_def
    by (intro open_sealed_commit ex_commit_wf ex_for_gen ex_at [unfolded ex_object_def]; simp add: ex_commit_def)+
qed

lemma ex_tree_at: "tree_at ex_crypto ex_keys ex_store i t \<Longrightarrow> i = fst ex_tree \<and> t = []"
proof -
  assume t: "tree_at ex_crypto ex_keys ex_store i t"
  then obtain b where "get ex_store i = Some b" by (rule tree_at_opens)
  then consider "i = fst ex_tree" | "i = fst (ex_object [5] 2)" | "i = fst (ex_object [6] 3)"
    using ex_only by blast
  moreover have "\<not> tree_at ex_crypto ex_keys ex_store j u" if "open_signed_commit ex_crypto ex_keys j ex_store = Inr x" for j x u
    using that by (cases "get ex_store j") (auto simp: open_signed_commit_def fetch_open_def verified_commit_def dest!: verified_commit_not_tree)
  moreover have "tree_at ex_crypto ex_keys ex_store (fst ex_tree) []" using ex_opens(1) by (auto simp: tree_at_def)
  ultimately show ?thesis using t ex_opens(2,3) tree_at_unique by metis
qed

lemma ex_walk:
  "reachable_objects ex_crypto ex_keys ex_store (fst (ex_object [5] 2))
     = Inr (insort_insert (fst ex_tree) [fst (ex_object [5] 2)])"
proof -
  let ?h = "fst (ex_object [5] 2)"
  have ne: "fst ex_tree \<noteq> ?h" using ex_tree_address ex_object_address [of "[5]" 2] by force
  have "verified_tree ex_crypto ex_keys (fst ex_tree) ex_salt (snd ex_tree) = Inr []"
    using ex_opens(1) ex_at(1) by (simp add: load_tree_eq)
  then have c: "collect_tree ex_crypto ex_keys ex_store True 0 (fst ex_tree) ex_salt [?h] = Inr (insort_insert (fst ex_tree) [?h])"
    using ne ex_at(1) by (subst collect_tree.simps) (simp add: MAX_TREE_DEPTH_def)
  have v: "verified_commit ex_crypto ex_keys ?h (snd (ex_object [5] 2)) = Inr (ex_commit [5] 2, [])"
    using ex_opens(2) ex_at(2) by (simp add: open_signed_commit_def fetch_open_def verified_commit_def)
  show ?thesis
    unfolding reachable_objects_def using v c ex_at(2)
    by (subst reachable_loop.simps) (simp add: insort_insert_key_def ex_commit_def reachable_loop.simps [where work = "[]"])
qed

theorem reachable_objects_exact_witness:
  "reachable_objects ex_crypto ex_keys ex_store (fst (ex_object [5] 2)) = Inr (insort_insert (fst ex_tree) [fst (ex_object [5] 2)])
   \<and> live ex_crypto ex_keys ex_store (fst (ex_object [5] 2)) (fst ex_tree)
   \<and> \<not> live ex_crypto ex_keys ex_store (fst (ex_object [5] 2)) (fst (ex_object [6] 3))"
proof -
  have "\<not> listed_in ex_crypto ex_keys ex_store P x" for P x by (auto simp: listed_in_def dest!: ex_tree_at)
  then have nm: "\<not> mixed ex_crypto ex_keys ex_store P m" for P m by (simp add: mixed_def)
  note r = reachable_objects_exact [OF ex_walk]
  have "fst (ex_object [6] 3) \<noteq> fst ex_tree" "fst (ex_object [6] 3) \<noteq> fst (ex_object [5] 2)"
    using ex_tree_address ex_object_address [of "[5]" 2] ex_object_address [of "[6]" 3] by force+
  moreover have "live ex_crypto ex_keys ex_store (fst (ex_object [5] 2)) x \<Longrightarrow> get ex_store x \<noteq> None \<Longrightarrow> x = fst ex_tree \<or> x = fst (ex_object [5] 2)" for x
    using r nm by (auto simp: set_insort_insert)
  ultimately show ?thesis using r ex_at ex_walk by (auto simp: set_insort_insert)
qed

end
