(* ===== verification/Engine.thy ===== *)
theory Engine
  imports Rollback Graph
begin

text \<open>
  \<open>crates/secsec-engine\<close>: the bridge between the stored object graph and the pure merge, and the
  acceptance of a sibling head. Operations that write return the store with an error too, since the
  objects already put stay; \<open>None\<close> is a panic.
\<close>

section \<open>Model\<close>

fun sbind :: "(('e + 'a) \<times> 's) option \<Rightarrow> ('a \<Rightarrow> 's \<Rightarrow> (('e + 'b) \<times> 's) option) \<Rightarrow> (('e + 'b) \<times> 's) option" where
  "sbind None f = None"
| "sbind (Some (Inl e, s)) f = Some (Inl e, s)"
| "sbind (Some (Inr x, s)) f = f x s"

lemma sbind_cong [fundef_cong]:
  "m = m' \<Longrightarrow> (\<And>x s. m' = Some (Inr x, s) \<Longrightarrow> f x s = g x s) \<Longrightarrow> sbind m f = sbind m' g"
  by (cases m'; cases "fst (the m')") auto

lemma sbind_eq_ok: "sbind m f = Some (Inr y, s') \<longleftrightarrow> (\<exists>x s. m = Some (Inr x, s) \<and> f x s = Some (Inr y, s'))"
  by (cases m; cases "fst (the m)") auto

lemma sbind_cases:
  assumes "sbind m f = Some (y, s')"
  obtains (err) e where "m = Some (Inl e, s')" "y = Inl e"
  | (ok) x s where "m = Some (Inr x, s)" "f x s = Some (y, s')"
  using assms by (cases m; cases "fst (the m)") auto

text \<open>A call that only writes when it succeeds, and one that never writes.\<close>

definition writing :: "('e \<Rightarrow> 'f) \<Rightarrow> 's \<Rightarrow> ('e + 'a \<times> 's) option \<Rightarrow> (('f + 'a) \<times> 's) option" where
  "writing g st r = map_option (\<lambda>r. case r of Inl e \<Rightarrow> (Inl (g e), st) | Inr (x, st') \<Rightarrow> (Inr x, st')) r"

definition reading :: "('e \<Rightarrow> 'f) \<Rightarrow> 's \<Rightarrow> 'e + 'a \<Rightarrow> (('f + 'a) \<times> 's) option" where
  "reading g st r = Some (map_err g r, st)"

datatype engine_error = EngSnap snap_error | EngDepthExceeded

function load_nodes_inner :: "crypto \<Rightarrow> master_keys \<Rightarrow> store \<Rightarrow> nat \<Rightarrow> bytes \<Rightarrow> bytes \<Rightarrow> engine_error + dir"
  and load_entries :: "crypto \<Rightarrow> master_keys \<Rightarrow> store \<Rightarrow> nat \<Rightarrow> tree \<Rightarrow> dir \<Rightarrow> engine_error + dir" where
  "load_nodes_inner cr keys st depth i salt =
     (if MAX_TREE_DEPTH \<le> depth then Inl EngDepthExceeded else
      rbind (map_err EngSnap (load_tree cr keys st i salt)) (\<lambda>t. load_entries cr keys st (depth + 1) t []))"
| "load_entries cr keys st depth [] out = Inr out"
| "load_entries cr keys st depth (EFile name mode mtime sz salt chunks # es) out =
     load_entries cr keys st depth es (bt_insert name (File mode mtime sz salt chunks) out)"
| "load_entries cr keys st depth (EDir name mode mtime subtree salt # es) out =
     rbind (load_nodes_inner cr keys st depth subtree salt) (\<lambda>ch.
     load_entries cr keys st depth es (bt_insert name (Dir mode mtime salt ch) out))"
  by pat_completeness auto
termination
  by (relation "measures [\<lambda>x. case x of Inl (_, _, _, depth, _) \<Rightarrow> 2 * (MAX_TREE_DEPTH - depth)
        | Inr (_, _, _, depth, _) \<Rightarrow> 2 * (MAX_TREE_DEPTH - depth) + 1,
      \<lambda>x. case x of Inl _ \<Rightarrow> 0 | Inr (_, _, _, _, t, _) \<Rightarrow> length t]") auto

declare load_nodes_inner.simps [simp del]

definition load_nodes :: "crypto \<Rightarrow> master_keys \<Rightarrow> store \<Rightarrow> bytes \<Rightarrow> bytes \<Rightarrow> engine_error + dir" where
  "load_nodes cr keys st i salt = load_nodes_inner cr keys st 0 i salt"

function seal_nodes :: "crypto \<Rightarrow> master_key \<Rightarrow> dir \<Rightarrow> bytes \<Rightarrow> bytes \<Rightarrow> store \<Rightarrow> ((engine_error + bytes) \<times> store) option"
  and seal_entries :: "crypto \<Rightarrow> master_key \<Rightarrow> dir \<Rightarrow> bytes \<Rightarrow> store \<Rightarrow> ((engine_error + tree) \<times> store) option" where
  "seal_nodes cr mk nodes salt path st =
     sbind (seal_entries cr mk nodes path st) (\<lambda>entries st.
     writing EngSnap st (seal_tree cr entries salt mk path st))"
| "seal_entries cr mk [] path st = Some (Inr [], st)"
| "seal_entries cr mk ((name, File mode mtime sz salt chunks) # nodes) path st =
     sbind (seal_entries cr mk nodes path st) (\<lambda>es st. Some (Inr (EFile name mode mtime sz salt chunks # es), st))"
| "seal_entries cr mk ((name, Dir mode mtime sub_salt ch) # nodes) path st =
     sbind (seal_nodes cr mk ch sub_salt (join_path path name) st) (\<lambda>subtree st.
     sbind (seal_entries cr mk nodes path st) (\<lambda>es st. Some (Inr (EDir name mode mtime subtree sub_salt # es), st)))"
  by pat_completeness auto
termination
  by (relation "measure (\<lambda>x. case x of Inl (_, _, nodes, _) \<Rightarrow> 2 * dir_size nodes + 1 | Inr (_, _, nodes, _) \<Rightarrow> 2 * dir_size nodes)")
    (auto simp: dir_size_def size_Dir [unfolded dir_size_def] simp del: node.size)

datatype merge_error =
    MergeEngine engine_error
  | MergeRollback merge_reject
  | NotMember bytes
  | BadCommitSignature bytes
  | MergeSig sig_error

function commit_dag_loop :: "crypto \<Rightarrow> master_keys \<Rightarrow> store \<Rightarrow> bytes parent_map \<Rightarrow> (bytes, commit_meta) btree \<Rightarrow> bytes list
    \<Rightarrow> engine_error + bytes parent_map \<times> (bytes, commit_meta) btree" where
  "commit_dag_loop cr keys st parents meta work =
     (if work = [] then Inr (parents, meta)
      else
        let c = last work; work = butlast work in
        if map_of parents c \<noteq> None then commit_dag_loop cr keys st parents meta work
        else rbind (map_err EngSnap (open_signed_commit cr keys c st)) (\<lambda>(cm, sg).
          commit_dag_loop cr keys st (bt_insert c (c_parents cm) parents)
            (bt_insert c \<lparr>cm_device_id = c_device_id cm, cm_version = c_version cm\<rparr> meta)
            (work @ filter (\<lambda>p. map_of parents p = None) (c_parents cm))))"
  by pat_completeness auto
termination
proof (relation "measures [\<lambda>(_, _, st, parents, _). card (fst ` set (t_objects st) - dom (map_of parents)), \<lambda>(_, _, _, _, _, w). length w]", goal_cases)
  case (3 cr keys st parents meta work c work' x cm sg)
  have "card (fst ` set (t_objects st) - dom (map_of (bt_insert c (c_parents cm) parents)))
      < card (fst ` set (t_objects st) - dom (map_of parents))"
    by (rule card_unseen_less [where i = c])
      (use 3 in \<open>auto simp: open_signed_commit_def fetch_open_def rbind_eq_Inr get_def dom_def\<close>)
  then show ?case by simp
qed auto

declare commit_dag_loop.simps [simp del]

definition load_commit_dag :: "crypto \<Rightarrow> master_keys \<Rightarrow> store \<Rightarrow> bytes list \<Rightarrow> engine_error + bytes parent_map \<times> (bytes, commit_meta) btree" where
  "load_commit_dag cr keys st heads = commit_dag_loop cr keys st [] [] heads"

fun verify_commits :: "crypto \<Rightarrow> ssh \<Rightarrow> master_keys \<Rightarrow> store \<Rightarrow> bytes list \<Rightarrow> (bytes, bytes) btree \<Rightarrow> (merge_error + unit) option" where
  "verify_commits cr ss keys st [] ever_members = Some (Inr ())"
| "verify_commits cr ss keys st (i # ids) ever_members =
     orbind (Some (map_err (\<lambda>e. MergeEngine (EngSnap e)) (open_signed_commit cr keys i st))) (\<lambda>(cm, sg).
     orbind (Some (ok_or (NotMember (c_device_id cm)) (map_of ever_members (c_device_id cm)))) (\<lambda>author.
     orbind (map_option (map_err (\<lambda>_. BadCommitSignature i)) (verify_commit cr ss author cm sg)) (\<lambda>_.
     verify_commits cr ss keys st ids ever_members)))"

record accepted =
  decision :: merge_decision
  acc_frontier :: sync_frontier
  acc_new :: "bytes list"
  acc_parents :: "bytes parent_map"
  acc_meta :: "(bytes, commit_meta) btree"

definition accept_sibling :: "crypto \<Rightarrow> ssh \<Rightarrow> master_keys \<Rightarrow> store \<Rightarrow> sync_frontier \<Rightarrow> bytes option \<Rightarrow> sibling_head \<Rightarrow> bytes
    \<Rightarrow> (bytes, bytes) btree \<Rightarrow> (merge_error + accepted) option" where
  "accept_sibling cr ss keys st frontier our_head sib local_device ever_members =
     (let heads = (case our_head of None \<Rightarrow> [] | Some h \<Rightarrow> [h]) @ [sh_commit_id sib] in
      orbind (Some (map_err MergeEngine (load_commit_dag cr keys st heads))) (\<lambda>(parents, meta).
      if (case our_head of None \<Rightarrow> False | Some ours \<Rightarrow> is_ancestor parents (sh_commit_id sib) ours)
      then Some (Inr \<lparr>decision = AlreadyHave, acc_frontier = frontier, acc_new = [], acc_parents = parents, acc_meta = meta\<rparr>)
      else
        let new = new_commits parents our_head (sh_commit_id sib) in
        orbind (verify_commits cr ss keys st new ever_members) (\<lambda>_.
        orbind (Some (map_err MergeRollback (check_gates frontier sib local_device new meta))) (\<lambda>_.
        let d = (case our_head of
              None \<Rightarrow> FastForward
            | Some ours \<Rightarrow> if is_ancestor parents ours (sh_commit_id sib) then FastForward else Merge)
        in Some (Inr \<lparr>decision = d, acc_frontier = observe sib new meta frontier, acc_new = new, acc_parents = parents,
             acc_meta = meta\<rparr>)))))"

record commit_author =
  ca_device :: bytes
  ca_version :: u64
  ca_roster_seq :: u64
  ca_ts :: u64

datatype sync_action =
    ActAlreadyHave
  | ActFastForward bytes
  | ActMerged (merged_id: bytes) (merged_conflicts: "conflict list") (base_missing: bool)

record sync_plan =
  action :: sync_action
  plan_frontier :: sync_frontier

definition merge_base :: "bytes parent_map \<Rightarrow> bytes \<Rightarrow> bytes \<Rightarrow> bytes option" where
  "merge_base parents a b =
     (case lowest_common_ancestors parents a b of [] \<Rightarrow> None | c # _ \<Rightarrow> Some c)"

abbreviation snap_error_of :: "snap_error \<Rightarrow> merge_error" where
  "snap_error_of e \<equiv> MergeEngine (EngSnap e)"

definition base_nodes :: "crypto \<Rightarrow> master_keys \<Rightarrow> store \<Rightarrow> bytes option \<Rightarrow> merge_error + dir \<times> bool" where
  "base_nodes cr keys st base =
     (case base of
        None \<Rightarrow> Inr ([], False)
      | Some base_id \<Rightarrow>
          rbind (map_err snap_error_of (open_signed_commit cr keys base_id st)) (\<lambda>(bc, _).
          case load_nodes cr keys st (root_tree bc) (root_salt bc) of
            Inr nodes \<Rightarrow> Inr (nodes, False)
          | Inl (EngSnap (Missing _)) \<Rightarrow> Inr ([], True)
          | Inl e \<Rightarrow> Inl (MergeEngine e)))"

definition merge_label :: "sibling_head \<Rightarrow> bytes" where
  "merge_label sib = hex12 (sh_device_id sib) @ [45] @ hex12 (sh_commit_id sib)"

text \<open>The last part of \<open>merge_accepted\<close>: seal the merged tree, then sign and seal the merge commit.\<close>

definition seal_merge :: "crypto \<Rightarrow> ssh \<Rightarrow> master_keys \<Rightarrow> bytes \<Rightarrow> sibling_head \<Rightarrow> commit_author \<Rightarrow> bytes \<Rightarrow> bool \<Rightarrow> merge \<Rightarrow> store
    \<Rightarrow> ((merge_error + sync_action) \<times> store) option" where
  "seal_merge cr ss keys ours sib author salt missing m st =
     Option.bind (current keys) (\<lambda>mk.
     sbind (map_option (\<lambda>(r, st). (map_err MergeEngine r, st)) (seal_nodes cr mk (merge_tree m) salt [] st)) (\<lambda>rt st.
     sbind (reading MergeSig st (device_id_of cr ss (sk_public ss (ca_device author)))) (\<lambda>d st.
     let c = \<lparr>root_tree = rt, root_salt = salt, c_parents = [ours, sh_commit_id sib], c_device_id = d, c_version = ca_version author,
       c_roster_seq = ca_roster_seq author, last_seen_head = sh_commit_id sib, c_ts = ca_ts author\<rparr> in
     sbind (writing snap_error_of st (seal_signed_commit cr ss mk (ca_device author) c st)) (\<lambda>cid st.
     Some (Inr (ActMerged cid (merge_conflicts m) missing), st)))))"

definition merge_accepted :: "crypto \<Rightarrow> ssh \<Rightarrow> master_keys \<Rightarrow> accepted \<Rightarrow> bytes \<Rightarrow> sibling_head \<Rightarrow> commit_author \<Rightarrow> store
    \<Rightarrow> ((merge_error + sync_action) \<times> store) option" where
  "merge_accepted cr ss keys acc ours sib author st =
     (case decision acc of
        AlreadyHave \<Rightarrow> Some (Inr ActAlreadyHave, st)
      | FastForward \<Rightarrow> Some (Inr (ActFastForward (sh_commit_id sib)), st)
      | Merge \<Rightarrow>
          sbind (reading id st (base_nodes cr keys st (merge_base (acc_parents acc) ours (sh_commit_id sib)))) (\<lambda>(base, missing) st.
          sbind (reading snap_error_of st (open_signed_commit cr keys ours st)) (\<lambda>(oc, _) st.
          sbind (reading snap_error_of st (open_signed_commit cr keys (sh_commit_id sib) st)) (\<lambda>(tc, _) st.
          sbind (reading MergeEngine st (load_nodes cr keys st (root_tree oc) (root_salt oc))) (\<lambda>om st.
          sbind (reading MergeEngine st (load_nodes cr keys st (root_tree tc) (root_salt tc))) (\<lambda>tm st.
          Option.bind (three_way_merge base om tm (merge_label sib)) (\<lambda>m.
          seal_merge cr ss keys ours sib author (root_salt oc) missing m st)))))))"

definition merge_heads :: "crypto \<Rightarrow> ssh \<Rightarrow> master_keys \<Rightarrow> sync_frontier \<Rightarrow> bytes \<Rightarrow> sibling_head \<Rightarrow> (bytes, bytes) btree
    \<Rightarrow> commit_author \<Rightarrow> store \<Rightarrow> ((merge_error + sync_plan) \<times> store) option" where
  "merge_heads cr ss keys frontier ours sib ever_members author st =
     sbind (reading MergeSig st (device_id_of cr ss (sk_public ss (ca_device author)))) (\<lambda>local_device st.
     sbind (map_option (\<lambda>r. (r, st)) (accept_sibling cr ss keys st frontier (Some ours) sib local_device ever_members)) (\<lambda>acc st.
     sbind (merge_accepted cr ss keys acc ours sib author st) (\<lambda>act st.
     Some (Inr \<lparr>action = act, plan_frontier = acc_frontier acc\<rparr>, st))))"


section \<open>The loaded commit graph\<close>

lemma commit_at_unique: "commit_at cr keys st i c \<Longrightarrow> commit_at cr keys st i c' \<Longrightarrow> c = c'"
  by (auto simp: commit_at_def)

definition meta_of :: "commit \<Rightarrow> commit_meta" where
  "meta_of c = \<lparr>cm_device_id = c_device_id c, cm_version = c_version c\<rparr>"

text \<open>The two maps hold the same commits, with what the store says of each.\<close>

definition dag_sound :: "crypto \<Rightarrow> master_keys \<Rightarrow> store \<Rightarrow> bytes parent_map \<Rightarrow> (bytes, commit_meta) btree \<Rightarrow> bool" where
  "dag_sound cr keys st parents meta \<longleftrightarrow> dom (map_of meta) = dom (map_of parents) \<and>
     (\<forall>i ps. map_of parents i = Some ps \<longrightarrow>
        (\<exists>c. commit_at cr keys st i c \<and> ps = c_parents c \<and> map_of meta i = Some (meta_of c)))"

lemma dag_sound_at:
  assumes "dag_sound cr keys st parents meta" "i \<in> dom (map_of parents)"
  obtains c where "commit_at cr keys st i c" "map_of parents i = Some (c_parents c)" "map_of meta i = Some (meta_of c)"
  using assms unfolding dag_sound_def by blast

lemma dag_sound_insert:
  "dag_sound cr keys st parents meta \<Longrightarrow> commit_at cr keys st i c \<Longrightarrow>
     dag_sound cr keys st (bt_insert i (c_parents c) parents) (bt_insert i (meta_of c) meta)"
  unfolding dag_sound_def by auto

definition dag_closed :: "bytes parent_map \<Rightarrow> bytes set \<Rightarrow> bool" where
  "dag_closed parents W \<longleftrightarrow> (\<forall>i ps. map_of parents i = Some ps \<longrightarrow> set ps \<subseteq> dom (map_of parents) \<union> W)"

lemma dag_closed_drop: "dag_closed parents (insert i W) \<Longrightarrow> i \<in> dom (map_of parents) \<Longrightarrow> dag_closed parents W"
  unfolding dag_closed_def by blast

lemma commit_dag_loop_cases:
  assumes "commit_dag_loop cr keys st parents meta work = Inr (p', m')"
  obtains (stop) "work = []" "p' = parents" "m' = meta"
  | (seen) "work \<noteq> []" "map_of parents (last work) \<noteq> None" "commit_dag_loop cr keys st parents meta (butlast work) = Inr (p', m')"
  | (visit) c sg where "work \<noteq> []" "map_of parents (last work) = None" "open_signed_commit cr keys (last work) st = Inr (c, sg)"
      "commit_dag_loop cr keys st (bt_insert (last work) (c_parents c) parents) (bt_insert (last work) (meta_of c) meta)
        (butlast work @ filter (\<lambda>p. map_of parents p = None) (c_parents c)) = Inr (p', m')"
  using assms
  by (subst (asm) commit_dag_loop.simps) (auto simp: Let_def rbind_eq_Inr meta_of_def split: if_splits)

lemma commit_dag_loop_result:
  assumes "commit_dag_loop cr keys st parents meta work = Inr (p', m')" "dag_sound cr keys st parents meta"
    "dag_closed parents (set work)" "dom (map_of parents) \<union> set work \<subseteq> H" "\<And>i c. i \<in> H \<Longrightarrow> commit_at cr keys st i c \<Longrightarrow> set (c_parents c) \<subseteq> H"
  shows "dag_sound cr keys st p' m' \<and> dag_closed p' {} \<and> dom (map_of parents) \<union> set work \<subseteq> dom (map_of p') \<and> dom (map_of p') \<subseteq> H"
  using assms
proof (induction cr keys st parents meta work rule: commit_dag_loop.induct)
  case (1 cr keys st parents meta work)
  show ?case
    using "1.prems"(1)
  proof (cases rule: commit_dag_loop_cases)
    case stop
    with "1.prems" show ?thesis by simp
  next
    case seen
    note W = set_work [OF seen(1)]
    have l: "last work \<in> dom (map_of parents)" using seen(2) by blast
    have "dag_closed parents (set (butlast work))" using "1.prems"(3) l unfolding W by (rule dag_closed_drop)
    with l show ?thesis
      using "1.IH"(1) [OF seen(1) refl refl seen(2,3) "1.prems"(2)] "1.prems"(4,5) W by auto
  next
    case (visit c sg)
    note W = set_work [OF visit(1)]
    let ?p = "bt_insert (last work) (c_parents c) parents" and ?w = "butlast work @ filter (\<lambda>p. map_of parents p = None) (c_parents c)"
    have c: "commit_at cr keys st (last work) c" using visit(3) by (auto simp: commit_at_def)
    have cl: "dag_closed ?p (set ?w)" using "1.prems"(3) W unfolding dag_closed_def by (auto split: if_splits)
    have sub: "dom (map_of ?p) \<union> set ?w \<subseteq> H" using "1.prems"(4) "1.prems"(5) [OF _ c] W by auto
    have "dag_sound cr keys st p' m' \<and> dag_closed p' {} \<and> dom (map_of ?p) \<union> set ?w \<subseteq> dom (map_of p') \<and> dom (map_of p') \<subseteq> H"
    proof (rule "1.IH"(2) [of _ _ "(c, sg)" c sg])
      show "dag_sound cr keys st ?p (bt_insert (last work) \<lparr>cm_device_id = c_device_id c, cm_version = c_version c\<rparr> meta)"
        using dag_sound_insert [OF "1.prems"(2) c] by (simp add: meta_of_def)
    qed (use visit cl sub "1.prems"(5) in \<open>simp_all add: meta_of_def del: bt_simps\<close>)
    then show ?thesis using W by auto
  qed
qed

lemma load_commit_dag_exact:
  assumes "load_commit_dag cr keys st heads = Inr (parents, meta)"
  shows "dag_sound cr keys st parents meta" "dag_closed parents {}" "dom (map_of parents) = {i. \<exists>h \<in> set heads. history cr keys st h i}"
proof -
  let ?H = "{i. \<exists>h \<in> set heads. history cr keys st h i}"
  have "dag_sound cr keys st parents meta \<and> dag_closed parents {} \<and> dom (map_of ([] :: bytes parent_map)) \<union> set heads \<subseteq> dom (map_of parents)
      \<and> dom (map_of parents) \<subseteq> ?H"
    by (rule commit_dag_loop_result [OF assms [unfolded load_commit_dag_def]])
      (auto simp: dag_sound_def dag_closed_def intro: history.intros)
  moreover have "i \<in> dom (map_of parents)" if "history cr keys st h i" "h \<in> set heads" for h i
    using that
  proof (induction rule: history.induct)
    case (parent i c p)
    then show ?case using calculation commit_at_unique unfolding dag_sound_def dag_closed_def by blast
  qed (use calculation in auto)
  ultimately show "dag_sound cr keys st parents meta" "dag_closed parents {}" "dom (map_of parents) = ?H" by auto
qed

lemma reaches_history:
  assumes "dag_sound cr keys st parents meta" "dag_closed parents {}" "h \<in> dom (map_of parents)"
  shows "reaches parents h i \<longleftrightarrow> history cr keys st h i"
proof
  assume "reaches parents h i"
  then have "history cr keys st h i \<and> i \<in> dom (map_of parents)"
  proof induction
    case (step i j)
    obtain c where c: "commit_at cr keys st i c" "map_of parents i = Some (c_parents c)"
      using assms(1) conjunct2 [OF step.IH] by (rule dag_sound_at)
    have j: "j \<in> set (c_parents c)" using step.hyps(2) c(2) by (simp add: parent_edge_iff parents_of_def)
    with assms(2) c(2) have "j \<in> dom (map_of parents)" unfolding dag_closed_def by blast
    with history.parent [OF conjunct1 [OF step.IH] c(1) j] show ?case by blast
  qed (use assms(3) in \<open>auto intro: history.head\<close>)
  then show "history cr keys st h i" ..
next
  assume "history cr keys st h i"
  then have "reaches parents h i \<and> i \<in> dom (map_of parents)"
  proof induction
    case (parent i c p)
    obtain c' where "commit_at cr keys st i c'" "map_of parents i = Some (c_parents c')"
      using assms(1) conjunct2 [OF parent.IH] by (rule dag_sound_at)
    with parent.hyps(2) have m: "map_of parents i = Some (c_parents c)" using commit_at_unique by blast
    then have "parent_edge parents i p" using parent.hyps by (simp add: parent_edge_iff parents_of_def)
    moreover have "p \<in> dom (map_of parents)" using assms(2) m parent.hyps unfolding dag_closed_def by blast
    ultimately show ?case using parent.IH by (meson rtranclp.rtrancl_into_rtrancl)
  qed (use assms(3) in auto)
  then show "reaches parents h i" ..
qed


section \<open>Acceptance\<close>

text \<open>The commit's author is one of the devices given, under its own key, and signed this very commit.\<close>

definition authored :: "crypto \<Rightarrow> ssh \<Rightarrow> (bytes, bytes) btree \<Rightarrow> commit \<Rightarrow> bytes \<Rightarrow> bool" where
  "authored cr ss ever_members c sg \<longleftrightarrow> (\<exists>pk msg. map_of ever_members (c_device_id c) = Some pk
     \<and> device_id_of cr ss pk = Inr (c_device_id c) \<and> encode_commit c = Some msg \<and> accepts_sig ss pk NS_COMMIT msg sg)"

lemma verify_commit_ok:
  "verify_commit cr ss pk c sg = Some (Inr u) \<longleftrightarrow> device_id_of cr ss pk = Inr (c_device_id c)
     \<and> (\<exists>msg. encode_commit c = Some msg \<and> accepts_sig ss pk NS_COMMIT msg sg)"
  by (auto simp: verify_commit_def orbind_eq_ok DevicePublic_verify_iff split: if_splits)

lemma verify_commits_ok:
  "verify_commits cr ss keys st ids ever_members = Some (Inr ()) \<longleftrightarrow>
     (\<forall>i \<in> set ids. \<exists>c sg. open_signed_commit cr keys i st = Inr (c, sg) \<and> authored cr ss ever_members c sg)"
proof (induction ids)
  case (Cons i ids)
  show ?case
    by (cases "open_signed_commit cr keys i st")
      (auto simp: orbind_eq_ok verify_commit_ok authored_def Cons split: option.splits)
qed simp

text \<open>
  C10: a sibling is accepted only with its whole history checked. When \<open>accept_sibling\<close> returns, the
  commits it absorbed are exactly those of the sibling's stored history that ours lacks; each of them
  was signed, as it stands, by the key of a device that was ever a member and is its author, and is
  newer than any commit seen of that author (our own aside); the head is no older than the frontier in
  roster sequence and head version; and the advanced frontier covers the old one and every absorbed
  commit. It says already-have exactly when the sibling is in our history, leaving the frontier as it
  was, and otherwise fast-forward exactly when our head is in the sibling's history.
\<close>

theorem accept_sibling_sound:
  assumes "accept_sibling cr ss keys st f ours sib l ever_members = Some (Inr acc)"
  shows "(decision acc = AlreadyHave \<longleftrightarrow> (\<exists>h. ours = Some h \<and> history cr keys st h (sh_commit_id sib)))
    \<and> (decision acc = AlreadyHave \<longrightarrow> acc_frontier acc = f)
    \<and> (decision acc \<noteq> AlreadyHave \<longrightarrow>
        (decision acc = FastForward \<longleftrightarrow> (\<forall>h. ours = Some h \<longrightarrow> history cr keys st (sh_commit_id sib) h))
      \<and> set (acc_new acc) = {i. history cr keys st (sh_commit_id sib) i \<and> (\<forall>h. ours = Some h \<longrightarrow> \<not> history cr keys st h i)}
      \<and> (\<forall>i \<in> set (acc_new acc). \<exists>c sg. open_signed_commit cr keys i st = Inr (c, sg) \<and> authored cr ss ever_members c sg
           \<and> (c_device_id c = l \<or> hwm_of (c_device_id c) (commit_version_hwm f) < c_version c)
           \<and> c_version c \<le> hwm_of (c_device_id c) (commit_version_hwm (acc_frontier acc)))
      \<and> f_roster_seq f \<le> sh_roster_seq sib \<and> hwm_of (sh_device_id sib) (head_version_hwm f) \<le> sh_head_version sib
      \<and> frontier_le f (acc_frontier acc))"
proof -
  let ?s = "sh_commit_id sib" and ?heads = "(case ours of None \<Rightarrow> [] | Some h \<Rightarrow> [h]) @ [sh_commit_id sib]"
  obtain parents meta where dag: "load_commit_dag cr keys st ?heads = Inr (parents, meta)"
    using assms by (auto simp: accept_sibling_def Let_def orbind_eq_ok)
  note d = load_commit_dag_exact [OF dag]
  have dom: "?s \<in> dom (map_of parents)" "ours = Some h \<Longrightarrow> h \<in> dom (map_of parents)" for h
    using d(3) by (auto intro: history.head)
  note hs = reaches_history [OF d(1,2) dom(1)] and ho = reaches_history [OF d(1,2) dom(2)]
  let ?new = "new_commits parents ours ?s"
  let ?acc = "\<lparr>decision = (case ours of None \<Rightarrow> FastForward | Some o' \<Rightarrow> if is_ancestor parents o' ?s then FastForward else Merge),
    acc_frontier = observe sib ?new meta f, acc_new = ?new, acc_parents = parents, acc_meta = meta\<rparr>"
  have new: "set ?new = {i. history cr keys st ?s i \<and> (\<forall>h. ours = Some h \<longrightarrow> \<not> history cr keys st h i)}"
    unfolding new_commits_set hs using ho by (cases ours) auto
  consider (already) h where "ours = Some h" "history cr keys st h ?s"
      "acc = \<lparr>decision = AlreadyHave, acc_frontier = f, acc_new = [], acc_parents = parents, acc_meta = meta\<rparr>"
    | (gates) "\<forall>h. ours = Some h \<longrightarrow> \<not> history cr keys st h ?s" "acc = ?acc"
        "verify_commits cr ss keys st ?new ever_members = Some (Inr ())" "check_gates f sib l ?new meta = Inr ()"
    using assms dag ho
    by (cases ours) (auto simp: accept_sibling_def Let_def orbind_eq_ok is_ancestor_reaches split: if_splits)
  then show ?thesis
  proof cases
    case gates
    have "\<exists>c sg. open_signed_commit cr keys i st = Inr (c, sg) \<and> authored cr ss ever_members c sg
        \<and> (c_device_id c = l \<or> hwm_of (c_device_id c) (commit_version_hwm f) < c_version c)
        \<and> c_version c \<le> hwm_of (c_device_id c) (commit_version_hwm (observe sib ?new meta f))" if i: "i \<in> set ?new" for i
    proof -
      obtain c sg where c: "open_signed_commit cr keys i st = Inr (c, sg)" "authored cr ss ever_members c sg"
        using gates(3) i unfolding verify_commits_ok by blast
      obtain m where m: "map_of meta i = Some m" "cm_device_id m = l \<or> hwm_of (cm_device_id m) (commit_version_hwm f) < cm_version m"
        using gates(4) i unfolding check_gates_ok by blast
      have "i \<in> dom (map_of parents)" using i new d(3) by auto
      with d(1) obtain c' where "commit_at cr keys st i c'" "map_of meta i = Some (meta_of c')" by (rule dag_sound_at)
      with c(1) m(1) have "m = meta_of c" by (auto simp: commit_at_def)
      with c m observe_records(3) [OF i m(1), of sib f] show ?thesis by (auto simp: meta_of_def)
    qed
    moreover have "f_roster_seq f \<le> sh_roster_seq sib" "hwm_of (sh_device_id sib) (head_version_hwm f) \<le> sh_head_version sib"
      using gates(4) unfolding check_gates_ok by blast+
    moreover have "decision acc = FastForward \<longleftrightarrow> (\<forall>h. ours = Some h \<longrightarrow> history cr keys st ?s h)" "decision acc \<noteq> AlreadyHave"
      using gates(2) hs by (cases ours; simp add: is_ancestor_reaches)+
    ultimately show ?thesis using gates(1,2) new observe_le [of f sib ?new meta] by simp
  qed simp
qed


text \<open>Two first commits of different devices, in the example store.\<close>

abbreviation ex_ours :: bytes where "ex_ours \<equiv> fst (ex_object [5] 2)"
abbreviation ex_theirs :: bytes where "ex_theirs \<equiv> fst (ex_object [6] 3)"

definition ex_sib :: sibling_head where
  "ex_sib = \<lparr>sh_device_id = hash ex_crypto [6], sh_head_version = 1, sh_roster_seq = 0, sh_commit_id = ex_theirs\<rparr>"

definition ex_parents :: "bytes parent_map" where
  "ex_parents = bt_insert ex_ours [] (bt_insert ex_theirs [] [])"

definition ex_meta :: "(bytes, commit_meta) btree" where
  "ex_meta = bt_insert ex_ours (meta_of (ex_commit [5] 2)) (bt_insert ex_theirs (meta_of (ex_commit [6] 3)) [])"

definition ex_accepted :: accepted where
  "ex_accepted = \<lparr>decision = Merge, acc_frontier = observe ex_sib [ex_theirs] ex_meta toy_frontier, acc_new = [ex_theirs],
     acc_parents = ex_parents, acc_meta = ex_meta\<rparr>"

lemma ex_ne: "ex_ours \<noteq> ex_theirs"
  using ex_object_address [of "[5]" 2] ex_object_address [of "[6]" 3] by force

lemma ex_dag: "load_commit_dag ex_crypto ex_keys ex_store [ex_ours, ex_theirs] = Inr (ex_parents, ex_meta)"
proof -
  have p: "c_parents (ex_commit pk n) = []" for pk n by (simp add: ex_commit_def)
  have "commit_dag_loop ex_crypto ex_keys ex_store (bt_insert ex_theirs [] []) (bt_insert ex_theirs (meta_of (ex_commit [6] 3)) [])
      [ex_ours] = Inr (ex_parents, ex_meta)"
    using ex_ne by (subst commit_dag_loop.simps)
      (simp add: Let_def ex_opens p ex_parents_def ex_meta_def meta_of_def commit_dag_loop.simps [where work = "[]"])
  then show ?thesis unfolding load_commit_dag_def
    by (subst commit_dag_loop.simps) (simp add: Let_def ex_opens p meta_of_def)
qed

lemma ex_reaches: "reaches ex_parents a b \<longleftrightarrow> a = b"
proof -
  have "\<not> parent_edge ex_parents c p" for c p by (simp add: parent_edge_iff parents_of_def ex_parents_def)
  then show ?thesis by (metis converse_rtranclpE rtranclp.rtrancl_refl)
qed

lemma ex_ancestors: "ancestors ex_parents c = [c]"
proof -
  have "parents_of ex_parents c = []" by (simp add: parents_of_def ex_parents_def)
  then show ?thesis
    unfolding ancestors_def ancestors_of_all_def
    by (subst ancestors_loop.simps) (simp add: insort_insert_key_def Let_def ancestors_loop.simps [where work = "[]"])
qed

lemma ex_accept:
  "accept_sibling ex_crypto toy_ssh ex_keys ex_store toy_frontier (Some ex_ours) ex_sib (hash ex_crypto [5])
     [(hash ex_crypto [6], [6])] = Some (Inr ex_accepted)"
proof -
  have new: "new_commits ex_parents (Some ex_ours) ex_theirs = [ex_theirs]"
    using ex_ne by (simp add: new_commits_def ex_ancestors)
  obtain msg where "encode_commit (ex_commit [6] 3) = Some msg" using encode_commit_img [OF ex_commit_wf] by blast
  then have "verify_commits ex_crypto toy_ssh ex_keys ex_store [ex_theirs] [(hash ex_crypto [6], [6])] = Some (Inr ())"
    unfolding verify_commits_ok
    by (simp add: ex_opens authored_def ex_commit_def device_id_of_def accepts_sig_def toy_ssh_def)
  moreover have "check_gates toy_frontier ex_sib (hash ex_crypto [5]) [ex_theirs] ex_meta = Inr ()"
    unfolding check_gates_ok using ex_ne
    by (simp add: toy_frontier_def ex_sib_def ex_meta_def meta_of_def ex_commit_def hwm_of_def)
  moreover have "sh_commit_id ex_sib = ex_theirs" by (simp add: ex_sib_def)
  ultimately show ?thesis
    using new ex_ne not_sym [OF ex_ne] ex_dag by (simp add: accept_sibling_def Let_def is_ancestor_reaches ex_reaches ex_accepted_def)
qed

theorem accept_sibling_sound_witness:
  "accept_sibling ex_crypto toy_ssh ex_keys ex_store toy_frontier (Some ex_ours) ex_sib (hash ex_crypto [5])
     [(hash ex_crypto [6], [6])] = Some (Inr ex_accepted)
   \<and> authored ex_crypto toy_ssh [(hash ex_crypto [6], [6])] (ex_commit [6] 3) []
   \<and> \<not> history ex_crypto ex_keys ex_store ex_theirs ex_ours"
  using accept_sibling_sound [OF ex_accept] ex_accept by (simp add: ex_accepted_def ex_opens ex_sib_def)

end
