(* ===== verification/Conflicts.thy ===== *)
theory Conflicts
  imports Trees
begin

text \<open>
  The trees a merge produces can be stored again: the keep-both names of the merge pass the guard on
  tree entry names, and merging two storable trees gives a storable tree.
\<close>

section \<open>Cutting UTF-8\<close>

text \<open>The encodings of single scalar values; a string is a sequence of them.\<close>

definition utf8_char :: "bytes \<Rightarrow> bool" where
  "utf8_char s \<longleftrightarrow> (case s of
       [a] \<Rightarrow> a < 0x80
     | [a, b] \<Rightarrow> 0xc2 \<le> a \<and> a \<le> 0xdf \<and> cont_byte b
     | [a, b, c] \<Rightarrow> 0xe0 \<le> a \<and> a \<le> 0xef \<and> cont_byte b \<and> cont_byte c \<and> (a = 0xe0 \<longrightarrow> 0xa0 \<le> b) \<and> (a = 0xed \<longrightarrow> b \<le> 0x9f)
     | [a, b, c, d] \<Rightarrow> 0xf0 \<le> a \<and> a \<le> 0xf4 \<and> cont_byte b \<and> cont_byte c \<and> cont_byte d \<and> (a = 0xf0 \<longrightarrow> 0x90 \<le> b)
         \<and> (a = 0xf4 \<longrightarrow> b \<le> 0x8f)
     | _ \<Rightarrow> False)"

lemma utf8_char_simps [simp]:
  "\<not> utf8_char []" "utf8_char [a] \<longleftrightarrow> a < 0x80" "utf8_char [a, b] \<longleftrightarrow> 0xc2 \<le> a \<and> a \<le> 0xdf \<and> cont_byte b"
  "utf8_char [a, b, c] \<longleftrightarrow> 0xe0 \<le> a \<and> a \<le> 0xef \<and> cont_byte b \<and> cont_byte c \<and> (a = 0xe0 \<longrightarrow> 0xa0 \<le> b) \<and> (a = 0xed \<longrightarrow> b \<le> 0x9f)"
  "utf8_char [a, b, c, d] \<longleftrightarrow> 0xf0 \<le> a \<and> a \<le> 0xf4 \<and> cont_byte b \<and> cont_byte c \<and> cont_byte d \<and> (a = 0xf0 \<longrightarrow> 0x90 \<le> b)
     \<and> (a = 0xf4 \<longrightarrow> b \<le> 0x8f)"
  "\<not> utf8_char (a # b # c # d # e # s)"
  by (simp_all add: utf8_char_def)

lemma utf8_char_cases:
  assumes "utf8_char s"
  obtains a where "s = [a]" | a b where "s = [a, b]" | a b c where "s = [a, b, c]" | a b c d where "s = [a, b, c, d]"
  using assms by (cases s; cases "tl s"; cases "tl (tl s)"; cases "tl (tl (tl s))"; cases "tl (tl (tl (tl s)))") auto

lemma utf8_char_bytes:
  assumes "utf8_char s"
  shows "s \<noteq> []" "\<not> cont_byte (hd s)" "\<forall>x \<in> set (tl s). cont_byte x" "last s \<noteq> 0xc2"
  using assms by (cases rule: utf8_char_cases [OF assms]; auto simp: cont_byte_def word_less_nat_alt word_le_nat_alt)+

text \<open>The four length classes of the decoder, by the first byte.\<close>

lemma from_utf8_classes:
  "a < 0x80 \<Longrightarrow> from_utf8_ok (a # s) = from_utf8_ok s"
  "0xc2 \<le> a \<Longrightarrow> a \<le> 0xdf \<Longrightarrow> from_utf8_ok (a # s) = (case s of b # r \<Rightarrow> cont_byte b \<and> from_utf8_ok r | _ \<Rightarrow> False)"
  "0xe0 \<le> a \<Longrightarrow> a \<le> 0xef \<Longrightarrow> from_utf8_ok (a # s) = (case s of
     b # c # r \<Rightarrow> cont_byte b \<and> cont_byte c \<and> (a = 0xe0 \<longrightarrow> 0xa0 \<le> b) \<and> (a = 0xed \<longrightarrow> b \<le> 0x9f) \<and> from_utf8_ok r | _ \<Rightarrow> False)"
  "0xf0 \<le> a \<Longrightarrow> a \<le> 0xf4 \<Longrightarrow> from_utf8_ok (a # s) = (case s of
     b # c # d # r \<Rightarrow> cont_byte b \<and> cont_byte c \<and> cont_byte d \<and> (a = 0xf0 \<longrightarrow> 0x90 \<le> b) \<and> (a = 0xf4 \<longrightarrow> b \<le> 0x8f)
       \<and> from_utf8_ok r | _ \<Rightarrow> False)"
  by (subst from_utf8_ok.simps(2), simp add: word_less_nat_alt word_le_nat_alt del: from_utf8_ok.simps)+

lemma from_utf8_char:
  assumes "utf8_char c"
  shows "from_utf8_ok (c @ s) = from_utf8_ok s"
  using assms by (cases rule: utf8_char_cases [OF assms]) (simp_all add: from_utf8_classes del: from_utf8_ok.simps)

lemma from_utf8_first:
  assumes "from_utf8_ok s" "s \<noteq> []"
  obtains c r where "s = c @ r" "utf8_char c" "from_utf8_ok r"
proof -
  obtain a bs where s: "s = a # bs" using assms(2) by (cases s) auto
  consider "a < 0x80" | "0xc2 \<le> a" "a \<le> 0xdf" | "0xe0 \<le> a" "a \<le> 0xef" | "0xf0 \<le> a" "a \<le> 0xf4"
    using assms(1) unfolding s from_utf8_ok.simps(2) [of a bs] by (simp only: split: if_splits)
  then have "\<exists>c r. s = c @ r \<and> utf8_char c \<and> from_utf8_ok r"
  proof cases
    case 1
    then show ?thesis using assms(1) by (intro exI [of _ "[a]"] exI [of _ bs]) (simp add: s from_utf8_classes del: from_utf8_ok.simps)
  next
    case 2
    then show ?thesis using assms(1)
      by (intro exI [of _ "take 2 s"] exI [of _ "drop 2 s"])
        (auto simp: s from_utf8_classes simp del: from_utf8_ok.simps split: list.splits)
  next
    case 3
    then show ?thesis using assms(1)
      by (intro exI [of _ "take 3 s"] exI [of _ "drop 3 s"])
        (auto simp: s from_utf8_classes simp del: from_utf8_ok.simps split: list.splits)
  next
    case 4
    then show ?thesis using assms(1)
      by (intro exI [of _ "take 4 s"] exI [of _ "drop 4 s"])
        (auto simp: s from_utf8_classes simp del: from_utf8_ok.simps split: list.splits)
  qed
  then show ?thesis using that by blast
qed


lemma utf8_induct [consumes 1, case_names Nil char]:
  assumes "from_utf8_ok s" "P []" "\<And>c r. utf8_char c \<Longrightarrow> from_utf8_ok r \<Longrightarrow> P r \<Longrightarrow> P (c @ r)"
  shows "P s"
  using assms(1)
proof (induction "length s" arbitrary: s rule: less_induct)
  case less
  show ?case
  proof (cases "s = []")
    case False
    with less.prems obtain c r where c: "s = c @ r" "utf8_char c" "from_utf8_ok r" by (rule from_utf8_first)
    with utf8_char_bytes(1) [OF c(2)] have "P r" by (intro less.hyps) simp_all
    with c assms(3) show ?thesis by blast
  qed (use assms(2) in simp)
qed

lemma from_utf8_append: "from_utf8_ok a \<Longrightarrow> from_utf8_ok b \<Longrightarrow> from_utf8_ok (a @ b)"
  by (induction a rule: utf8_induct) (simp_all add: from_utf8_char del: from_utf8_ok.simps)

lemma from_utf8_cut:
  "from_utf8_ok s \<Longrightarrow> s = a @ b \<Longrightarrow> b = [] \<or> \<not> cont_byte (hd b) \<Longrightarrow> from_utf8_ok a \<and> from_utf8_ok b"
proof (induction s arbitrary: a rule: utf8_induct)
  case (char c r)
  from char.prems(1) obtain u where "c @ u = a \<and> r = u @ b \<or> c = a @ u \<and> u @ r = b" by (auto simp: append_eq_append_conv2)
  then consider (inside) "a = c @ u" "r = u @ b" | (at) "u = []" "a = c" "b = r" | (split) "c = a @ u" "b = u @ r" "u \<noteq> []" by force
  then show ?case
  proof cases
    case inside
    with char.IH [OF inside(2) char.prems(2)] char.hyps show ?thesis by (simp add: from_utf8_char del: from_utf8_ok.simps)
  next
    case at
    with char.hyps from_utf8_char [of c "[]"] show ?thesis by (simp del: from_utf8_ok.simps(2))
  next
    case split
    have "a = []"
    proof (rule ccontr)
      assume "a \<noteq> []"
      then have "hd b \<in> set (tl c)" using split by (cases u) auto
      with utf8_char_bytes(3) [OF char.hyps(1)] split char.prems(2) show False by auto
    qed
    with split char.hyps show ?thesis by (simp add: from_utf8_char del: from_utf8_ok.simps(2))
  qed
qed simp

section \<open>Control characters\<close>

lemma has_control_append_left: "has_control a \<Longrightarrow> has_control (a @ b)"
proof (induction a)
  case (Cons x xs)
  then show ?case by (cases xs) auto
qed simp

lemma has_control_append_right: "has_control b \<Longrightarrow> has_control (a @ b)"
  by (induction a) auto

lemma has_control_append_last: "a = [] \<or> last a \<noteq> 0xC2 \<Longrightarrow> has_control (a @ b) \<longleftrightarrow> has_control a \<or> has_control b"
proof (induction a)
  case (Cons x xs)
  then show ?case by (cases xs) auto
qed simp

lemma last_utf8: "from_utf8_ok s \<Longrightarrow> s = [] \<or> last s \<noteq> 0xC2"
  by (induction s rule: utf8_induct) (auto simp: last_append dest: utf8_char_bytes(4))

lemma has_control_append: "from_utf8_ok a \<Longrightarrow> has_control (a @ b) \<longleftrightarrow> has_control a \<or> has_control b"
  using has_control_append_last last_utf8 by blast


section \<open>Keep-both names\<close>

definition clean :: "bytes \<Rightarrow> bool" where
  "clean s \<longleftrightarrow> from_utf8_ok s \<and> \<not> has_control s \<and> 47 \<notin> set s \<and> 92 \<notin> set s"

lemma clean_append: "clean a \<Longrightarrow> clean b \<Longrightarrow> clean (a @ b)"
  by (simp add: clean_def from_utf8_append has_control_append del: from_utf8_ok.simps)

lemma clean_cut: "clean (a @ b) \<Longrightarrow> b = [] \<or> \<not> cont_byte (hd b) \<Longrightarrow> clean a \<and> clean b"
  using from_utf8_cut [OF _ refl, of a b] has_control_append_left [of a b] has_control_append_right [of b a]
  by (auto simp: clean_def simp del: from_utf8_ok.simps)

lemma name_wf_clean: "name_wf s \<longleftrightarrow> clean s \<and> length s \<le> MAX_NAME_LEN \<and> s \<noteq> [] \<and> s \<noteq> [46] \<and> s \<noteq> [46, 46]"
  by (auto simp: name_wf_def clean_def is_safe_entry_name_def simp del: from_utf8_ok.simps)

text \<open>Labels of printable ASCII, as devices make them.\<close>

definition plain :: "bytes \<Rightarrow> bool" where
  "plain s \<longleftrightarrow> list_all (\<lambda>b. 32 \<le> b \<and> b < 127 \<and> b \<noteq> 47 \<and> b \<noteq> 92) s"

lemma plain_append [simp]: "plain (a @ b) \<longleftrightarrow> plain a \<and> plain b"
  by (simp add: plain_def)

lemma plain_clean: "plain s \<Longrightarrow> clean s"
proof (induction s)
  case (Cons b s)
  then have b: "32 \<le> b" "b < 127" "b \<noteq> 47" "b \<noteq> 92" and "plain s" by (simp_all add: plain_def)
  have "b < 0x80" "\<not> b < 32" "b \<noteq> 0xC2" "b \<noteq> 127" using b(1,2) by (auto simp: word_less_nat_alt word_le_nat_alt)
  with b Cons.IH [OF \<open>plain s\<close>] show ?case by (simp add: clean_def from_utf8_classes(1) del: from_utf8_ok.simps)
qed (simp add: clean_def)

lemma rsplit_dot_eq: "rsplit_dot s = Some (stem, ext) \<Longrightarrow> s = stem @ [46] @ ext"
  by (induction s arbitrary: stem) (auto split: option.splits if_splits)

lemma stem_ext_clean:
  assumes "clean name" "stem_ext name = (stem, ext)"
  shows "clean stem \<and> (\<forall>e. ext = Some e \<longrightarrow> clean ([46] @ e))"
proof -
  from assms(2) consider "stem = name" "ext = None" | e where "ext = Some e" "name = stem @ [46] @ e"
    using rsplit_dot_eq [of name] by (fastforce simp: stem_ext_def split: option.splits if_splits)
  then show ?thesis using assms(1) by cases (auto dest!: clean_cut [of stem] simp: cont_byte_def)
qed

lemma back_to_boundary: "is_char_boundary s (back_to_boundary s n) \<and> back_to_boundary s n \<le> n"
proof (induction s n rule: back_to_boundary.induct)
  case (1 s n)
  show ?case
  proof (cases "is_char_boundary s n \<or> n = 0")
    case True
    then show ?thesis by (auto simp: back_to_boundary.simps [of s n] is_char_boundary_def)
  next
    case False
    with 1 have "is_char_boundary s (back_to_boundary s (n - 1)) \<and> back_to_boundary s (n - 1) \<le> n - 1" by simp
    with False show ?thesis by (auto simp: back_to_boundary.simps [of s n])
  qed
qed

lemma cont_byte_mask: "cont_byte b \<longleftrightarrow> b AND 0xC0 = 0x80"
proof -
  have "list_all (\<lambda>n. cont_byte (of_nat n) \<longleftrightarrow> (of_nat n :: u8) AND 0xC0 = 0x80) [0 ..< 256]" by code_simp
  then have *: "n < 256 \<Longrightarrow> cont_byte (of_nat n) \<longleftrightarrow> (of_nat n :: u8) AND 0xC0 = 0x80" for n
    unfolding list_all_iff set_upt by (meson atLeastLessThan_iff le0)
  have "unat b < 256" using unsigned_less [of b] by simp
  from * [OF this] show ?thesis by simp
qed

lemma take_boundary_clean:
  assumes "clean s" "is_char_boundary s n" "n \<le> length s"
  shows "clean (take n s)"
proof -
  have "drop n s = [] \<or> \<not> cont_byte (hd (drop n s)) \<or> n = 0"
    using assms(2) by (auto simp: is_char_boundary_def cont_byte_mask hd_drop_conv_nth)
  then show ?thesis using clean_cut [of "take n s" "drop n s"] assms(1) by (auto simp: clean_def)
qed

lemma conflict_tag_clean: "plain label \<Longrightarrow> clean (conflict_tag label)"
  by (rule plain_clean) (simp add: conflict_tag_def plain_def ascii_def)

lemma conflict_name_wf:
  assumes "name_wf name" "plain label" "length (conflict_tag label) \<le> MAX_NAME_LEN"
  shows "name_wf (conflict_name name label)"
proof -
  obtain stem ext where se: "stem_ext name = (stem, ext)" by force
  let ?tag = "conflict_tag label"
  define sfx where "sfx = (case ext of Some e \<Rightarrow> ?tag @ [46] @ e | None \<Rightarrow> ?tag)"
  have name: "clean name" using assms(1) by (simp add: name_wf_clean)
  have tag: "clean ?tag" "10 \<le> length ?tag" using conflict_tag_clean [OF assms(2)] by (simp_all add: conflict_tag_def ascii_def)
  have stem: "clean stem" and sfx: "clean sfx" "10 \<le> length sfx"
    using stem_ext_clean [OF name se] tag clean_append by (auto simp: sfx_def split: option.splits)
  have wf: "name_wf (pre @ s)" if "clean pre" "clean s" "10 \<le> length s" "length pre + length s \<le> MAX_NAME_LEN" for pre s
    using that clean_append by (auto simp: name_wf_clean dest: arg_cong [where f = length])
  have cut: "name_wf (take (back_to_boundary b (min (MAX_NAME_LEN - length s) (length b))) b @ s)"
    if "clean b" "clean s" "10 \<le> length s" "length s \<le> MAX_NAME_LEN" for b s
    using that back_to_boundary [of b "min (MAX_NAME_LEN - length s) (length b)"] by (intro wf take_boundary_clean) auto
  show ?thesis
    unfolding conflict_name_def se using wf [OF stem sfx] cut [OF stem sfx] cut [OF name tag assms(3)]
    by (auto simp: Let_def min_def simp flip: sfx_def split: if_splits)
qed


text \<open>The labels the search for a free name tries: the given one, and it with a number behind.\<close>

definition tried_label :: "bytes \<Rightarrow> bytes \<Rightarrow> bool" where
  "tried_label label l \<longleftrightarrow> l = label \<or> (\<exists>n < u32_max. l = label @ [45] @ dec n)"

definition label_ok :: "bytes \<Rightarrow> bool" where
  "label_ok label \<longleftrightarrow> plain label \<and> length label \<le> 1024"

lemma length_dec: "n < 10 ^ k \<Longrightarrow> 0 < k \<Longrightarrow> length (dec n) \<le> k"
proof (induction k arbitrary: n)
  case (Suc k)
  show ?case
  proof (cases "n < 10")
    case False
    with Suc.prems have "n div 10 < 10 ^ k" by (simp add: div_less_iff_less_mult mult.commute)
    moreover from this False have "0 < k" by (cases k) auto
    ultimately show ?thesis using Suc.IH [of "n div 10"] False by (simp add: dec.simps [of n])
  qed (simp add: dec.simps)
qed simp

lemma plain_dec: "plain (dec n)"
proof (induction n rule: dec.induct)
  case (1 n)
  have d: "32 \<le> (of_nat (48 + k) :: u8) \<and> (of_nat (48 + k) :: u8) < 127 \<and> (of_nat (48 + k) :: u8) \<noteq> 47 \<and> (of_nat (48 + k) :: u8) \<noteq> 92"
    if "k < 10" for k
    using unat_digit [OF that] that by (auto simp: word_less_nat_alt word_le_nat_alt dest: arg_cong [where f = unat] simp del: of_nat_add of_nat_numeral)
  show ?case
  proof (cases "n < 10")
    case True
    then show ?thesis using d [of n] by (simp add: dec.simps [of n] plain_def del: of_nat_add of_nat_numeral)
  next
    case False
    then show ?thesis using d [of "n mod 10"] 1 by (simp add: dec.simps [of n] plain_def del: of_nat_add of_nat_numeral)
  qed
qed

lemma tried_name_wf:
  assumes "label_ok label" "tried_label label l" "name_wf name"
  shows "name_wf (conflict_name name l)"
proof (rule conflict_name_wf [OF assms(3)])
  have d: "length (dec n) \<le> 10" if "n < u32_max" for n using that by (intro length_dec) (simp_all add: u32_max_def)
  have "plain ([45] @ dec n)" for n unfolding plain_append using plain_dec by (simp add: plain_def)
  then show "plain l" using assms(1,2) unfolding label_ok_def tried_label_def by auto
  have "length l \<le> 1035" using assms(1,2) d by (fastforce simp: label_ok_def tried_label_def)
  then show "length (conflict_tag l) \<le> MAX_NAME_LEN" by (simp add: conflict_tag_def ascii_def MAX_NAME_LEN_def)
qed

lemma free_name_loop_tried:
  "free_name_loop name label names out candidate n = Some c \<Longrightarrow> tried_label label l \<Longrightarrow> candidate = conflict_name name l \<Longrightarrow>
     \<exists>l. tried_label label l \<and> c = conflict_name name l"
proof (induction name label names out candidate n arbitrary: l rule: free_name_loop.induct)
  case (1 name label names out candidate n)
  show ?case
  proof (cases "(candidate \<in> set names \<or> candidate \<in> fst ` set out) \<and> n < u32_max")
    case True
    then have "tried_label label (label @ [45] @ dec n)" by (auto simp: tried_label_def)
    moreover have "free_name_loop name label names out (conflict_name name (label @ [45] @ dec n)) (n + 1) = Some c"
      using "1.prems"(1) True by (subst (asm) free_name_loop.simps) (auto split: if_splits)
    ultimately show ?thesis using "1.IH" True by (metis not_le)
  next
    case False
    then have "c = candidate" using "1.prems"(1) by (subst (asm) free_name_loop.simps) (auto split: if_splits)
    with "1.prems" show ?thesis by blast
  qed
qed


lemma merge_leaf_keys:
  assumes "merge_leaf names path name label b o' t out = Some out'" "map_of (merge_tree out') c \<noteq> None"
  shows "map_of (merge_tree out) c \<noteq> None \<or> c = name \<or> t \<noteq> None \<and> (\<exists>l. tried_label label l \<and> c = conflict_name name l)"
proof -
  have free: "\<exists>l. tried_label label l \<and> k = conflict_name name l" if "free_conflict_name name label names d = Some k" for d k
    using free_name_loop_tried [OF that [unfolded free_conflict_name_def] _ refl] by (simp add: tried_label_def)
  show ?thesis
    using assms by (cases o'; cases t) (auto simp: merge_leaf_def Let_def dest!: free split: if_splits)
qed

text \<open>Every name of a merged directory is a name of one side, or a keep-both name made of one of theirs.\<close>

definition merged_name :: "dir \<Rightarrow> dir \<Rightarrow> dir \<Rightarrow> bytes \<Rightarrow> bytes \<Rightarrow> bool" where
  "merged_name base ours theirs label c \<longleftrightarrow> c \<in> set (merge_names base ours theirs)
     \<or> (\<exists>x l. x \<in> dom (map_of theirs) \<and> tried_label label l \<and> c = conflict_name x l)"

lemma merge_entry_keys:
  assumes "merge_entry prefix base ours theirs label name out = Some out'" "name \<in> set (merge_names base ours theirs)"
    "map_of (merge_tree out') c \<noteq> None"
  shows "map_of (merge_tree out) c \<noteq> None \<or> merged_name base ours theirs label c"
proof (cases "both_dirs (map_of ours name) (map_of theirs name)")
  case True
  then show ?thesis using assms
    by (elim both_dirsE) (auto simp: merge_entry_def Let_def merge_subdir_def merged_name_def split: if_splits)
next
  case False
  with assms(1) have "merge_leaf (merge_names base ours theirs) (join_path prefix name) name label (map_of base name) (map_of ours name)
      (map_of theirs name) out = Some out'" by (simp add: merge_entry_leaf)
  from merge_leaf_keys [OF this assms(3)] show ?thesis using assms(2) by (auto simp: merged_name_def)
qed

lemma run_names_keys:
  "run_names (merge_entry prefix base ours theirs label) xs out = Some out' \<Longrightarrow> set xs \<subseteq> set (merge_names base ours theirs) \<Longrightarrow>
     map_of (merge_tree out') c \<noteq> None \<Longrightarrow> map_of (merge_tree out) c \<noteq> None \<or> merged_name base ours theirs label c"
proof (induction xs arbitrary: out)
  case (Cons x xs)
  then obtain m where m: "merge_entry prefix base ours theirs label x out = Some m"
    "run_names (merge_entry prefix base ours theirs label) xs m = Some out'" by (auto simp: bind_eq_Some_conv)
  with Cons show ?case using merge_entry_keys [OF m(1)] by auto
qed simp

lemma merge_dir_keys:
  "merge_dir prefix base ours theirs label merge_empty = Some m \<Longrightarrow> map_of (merge_tree m) c \<noteq> None \<Longrightarrow>
     merged_name base ours theirs label c"
  using run_names_keys [of prefix base ours theirs label "merge_names base ours theirs" merge_empty m c]
  by (simp add: merge_dir_run merge_empty_def)


section \<open>Storable trees\<close>

text \<open>
  Trees of at most the given number of directory levels whose every name and field fits its encoding.
\<close>

definition node_fits :: "(dir \<Rightarrow> bool) \<Rightarrow> node \<Rightarrow> bool" where
  "node_fits P nd \<longleftrightarrow> (case nd of
       File m mt sz s cs \<Rightarrow> length s = 16 \<and> length cs \<le> MAX_CHUNKS_PER_FILE \<and> list_all (\<lambda>c. length c = 32) cs
     | Dir m mt s ch \<Rightarrow> length s = 16 \<and> P ch)"

fun storable :: "nat \<Rightarrow> dir \<Rightarrow> bool" where
  "storable 0 nodes = False"
| "storable (Suc n) nodes = (bt_wf nodes \<and> list_all (\<lambda>(name, nd). name_wf name \<and> node_fits (storable n) nd) nodes)"

lemma node_fits_with_mode [simp]: "node_fits P (with_mode m nd) = node_fits P nd"
  by (cases nd) (simp_all add: node_fits_def)

lemma storable_Suc:
  "storable (Suc n) d \<longleftrightarrow> bt_wf d \<and> (\<forall>k nd. map_of d k = Some nd \<longrightarrow> name_wf k \<and> node_fits (storable n) nd)"
  using bt_get_iff [of d] by (auto simp: list_all_iff)

lemma leaf_at_side:
  assumes "leaf_at b o' t = Some nd"
  obtains m x where "nd = with_mode m x" "o' = Some x \<or> t = Some x"
proof -
  from assms consider "o' = Some nd" | m x where "nd = with_mode m x" "o' = Some x \<or> t = Some x"
    by (auto simp: leaf_at_def Let_def split: if_splits)
  then show thesis using that [of "node_mode nd" nd] that by cases simp_all
qed

lemma merge_storable:
  assumes "label_ok label"
  shows "merge_dir prefix base ours theirs label merge_empty = Some m \<Longrightarrow> storable n ours \<Longrightarrow> storable n theirs \<Longrightarrow>
    storable n (merge_tree m)"
proof (induction n arbitrary: prefix base ours theirs m)
  case (Suc n)
  note side = Suc.prems(2,3) [unfolded storable_Suc]
  note M = merge_dir_merged [OF Suc.prems(1)]
  have "name_wf c \<and> node_fits (storable n) nd" if c: "map_of (merge_tree m) c = Some nd" for c nd
  proof (cases "c \<in> set (merge_names base ours theirs)")
    case False
    then obtain x l where x: "x \<in> dom (map_of theirs)" "tried_label label l" "c = conflict_name x l"
      using merge_dir_keys [OF Suc.prems(1), of c] c by (auto simp: merged_name_def)
    then have "name_wf c" using tried_name_wf [OF assms] side by auto
    moreover obtain y where "copied base ours theirs y nd"
      using merge_dir_only [OF Suc.prems(1) c] False by (auto simp: set_merge_names)
    ultimately show ?thesis using side by (auto simp: copied_def)
  next
    case True
    obtain cs where o: "outcome prefix base ours theirs label c (Some nd) cs" using merged_namesD(1) [OF M True] c by auto
    show ?thesis
    proof (cases "both_dirs (map_of ours c) (map_of theirs c)")
      case False
      with o have "leaf_at (map_of base c) (map_of ours c) (map_of theirs c) = Some nd" by (simp add: outcome_def Let_def)
      then obtain mo x where "nd = with_mode mo x" "map_of ours c = Some x \<or> map_of theirs c = Some x" by (rule leaf_at_side)
      then show ?thesis using side by auto
    next
      case True
      then obtain om omt salt od tm tmt tsalt td where
        d: "map_of ours c = Some (Dir om omt salt od)" "map_of theirs c = Some (Dir tm tmt tsalt td)" by (rule both_dirsE)
      with o True obtain sub mo where
        sub: "merge_dir (join_path prefix c) (base_children (map_of base c)) od td label merge_empty = Some sub"
        "nd = Dir mo omt salt (merge_tree sub)" by (auto simp: outcome_def Let_def)
      have ch: "name_wf c" "length salt = 16" "storable n od" "storable n td"
        using side d by (fastforce simp: node_fits_def)+
      with Suc.IH [OF sub(1)] sub(2) show ?thesis by (simp add: node_fits_def)
    qed
  qed
  moreover have "bt_wf (merge_tree m)" using merged_namesD(7) [OF M] by (simp add: merge_empty_def)
  ultimately show ?case unfolding storable_Suc by blast
qed simp

section \<open>Properties\<close>




end
