(* ===== verification/Merging.thy ===== *)
theory Merging
  imports Engine Conflicts
begin

text \<open>
  What sealing a merged tree achieves: the objects \<open>seal_nodes\<close> puts are a function of the tree, and
  loading what was sealed gives the tree back; and what a merge of two heads leaves in the store.
\<close>

section \<open>The objects of a tree\<close>

function tree_of :: "crypto \<Rightarrow> master_key \<Rightarrow> dir \<Rightarrow> tree" where
  "tree_of cr mk [] = []"
| "tree_of cr mk ((name, File m mt sz s cs) # nodes) = EFile name m mt sz s cs # tree_of cr mk nodes"
| "tree_of cr mk ((name, Dir m mt s ch) # nodes) = EDir name m mt (fst (sealed_tree cr mk s (tree_of cr mk ch))) s # tree_of cr mk nodes"
  by pat_completeness auto
termination
  by (relation "measure (\<lambda>(_, _, nodes). dir_size nodes)") (auto simp: dir_size_def size_Dir [unfolded dir_size_def] simp del: node.size)

text \<open>The subdirectories' objects in the order they are put, and then the directory's own.\<close>

function sub_objects :: "crypto \<Rightarrow> master_key \<Rightarrow> dir \<Rightarrow> (bytes \<times> bytes) list" where
  "sub_objects cr mk [] = []"
| "sub_objects cr mk ((name, File m mt sz s cs) # nodes) = sub_objects cr mk nodes"
| "sub_objects cr mk ((name, Dir m mt s ch) # nodes) =
     (sub_objects cr mk ch @ [sealed_tree cr mk s (tree_of cr mk ch)]) @ sub_objects cr mk nodes"
  by pat_completeness auto
termination
  by (relation "measure (\<lambda>(_, _, nodes). dir_size nodes)") (auto simp: dir_size_def size_Dir [unfolded dir_size_def] simp del: node.size)

definition dir_objects :: "crypto \<Rightarrow> master_key \<Rightarrow> dir \<Rightarrow> bytes \<Rightarrow> (bytes \<times> bytes) list" where
  "dir_objects cr mk nodes salt = sub_objects cr mk nodes @ [sealed_tree cr mk salt (tree_of cr mk nodes)]"

function subs_fit :: "crypto \<Rightarrow> master_key \<Rightarrow> dir \<Rightarrow> bool" where
  "subs_fit cr mk [] = True"
| "subs_fit cr mk ((name, File m mt sz s cs) # nodes) = subs_fit cr mk nodes"
| "subs_fit cr mk ((name, Dir m mt s ch) # nodes) =
     (subs_fit cr mk ch \<and> tree_fits cr mk s (tree_of cr mk ch) \<and> subs_fit cr mk nodes)"
  by pat_completeness auto
termination
  by (relation "measure (\<lambda>(_, _, nodes). dir_size nodes)") (auto simp: dir_size_def size_Dir [unfolded dir_size_def] simp del: node.size)

lemma writing_ok: "writing g st r = Some (Inr x, st') \<longleftrightarrow> r = Some (Inr (x, st'))"
  by (cases r; cases "the r") (auto simp: writing_def)

lemma seal_nodes_ok:
  shows "seal_nodes cr mk nodes salt path st = Some (Inr i, st') \<Longrightarrow>
      subs_fit cr mk nodes \<and> tree_fits cr mk salt (tree_of cr mk nodes) \<and> i = fst (sealed_tree cr mk salt (tree_of cr mk nodes))
      \<and> st' = fold put_object (dir_objects cr mk nodes salt) st"
    and "seal_entries cr mk nodes path st = Some (Inr es, st') \<Longrightarrow>
      subs_fit cr mk nodes \<and> es = tree_of cr mk nodes \<and> st' = fold put_object (sub_objects cr mk nodes) st"
proof (induction cr mk nodes salt path st and cr mk nodes path st arbitrary: i st' and es st' rule: seal_nodes_seal_entries.induct)
  case (1 cr mk nodes salt path st)
  then show ?case by (auto simp: sbind_eq_ok writing_ok seal_tree_ok dir_objects_def)
next
  case (4 cr mk name mode mtime sub_salt ch nodes path st)
  then show ?case by (auto simp: sbind_eq_ok dir_objects_def)
qed (auto simp: sbind_eq_ok)

section \<open>Loading what was sealed\<close>

lemma names_tree_of: "map entry_name (tree_of cr mk nodes) = map fst nodes"
  by (induction cr mk nodes rule: tree_of.induct) auto

lemma bodies_tree_of:
  "list_all (\<lambda>(name, nd). name_wf name \<and> node_fits (storable n) nd) nodes \<Longrightarrow>
   list_all (\<lambda>e. name_wf (entry_name e) \<and> body_wf e) (tree_of cr mk nodes)"
  by (induction cr mk nodes rule: tree_of.induct) (auto simp: sealed_tree_def node_fits_def)

lemma tree_wf_tree_of: "storable n nodes \<Longrightarrow> length (tree_of cr mk nodes) \<le> MAX_TREE_FANOUT \<Longrightarrow> tree_wf (tree_of cr mk nodes)"
  using bodies_tree_of names_tree_of [of cr mk nodes] by (cases n) (auto simp: tree_wf_def bt_wf_def)


lemma load_entries_sealed:
  assumes "\<And>name m mt s ch. (name, Dir m mt s ch) \<in> set nodes \<Longrightarrow>
      load_nodes_inner cr keys st depth (fst (sealed_tree cr mk s (tree_of cr mk ch))) s = Inr ch"
  shows "load_entries cr keys st depth (tree_of cr mk nodes) out = Inr (fold (\<lambda>e. bt_insert (fst e) (snd e)) nodes out)"
  using assms
proof (induction cr mk nodes arbitrary: out rule: tree_of.induct)
  case (3 cr mk name m mt s ch nodes)
  have "load_entries cr keys st depth (tree_of cr mk nodes) out = Inr (fold (\<lambda>e. bt_insert (fst e) (snd e)) nodes out)" for out
    by (rule "3.IH"(2), rule "3.prems", erule list.set_intros(2))
  with "3.prems" [of name m mt s ch] show ?case by simp
qed simp_all

lemma sub_objects_Dir:
  "(name, Dir m mt s ch) \<in> set nodes \<Longrightarrow> set (dir_objects cr mk ch s) \<subseteq> set (sub_objects cr mk nodes)
     \<and> (subs_fit cr mk nodes \<longrightarrow> subs_fit cr mk ch \<and> tree_fits cr mk s (tree_of cr mk ch))"
  by (induction cr mk nodes rule: sub_objects.induct) (auto simp: dir_objects_def)

lemma load_sealed:
  assumes "for_gen keys (generation mk) = Some mk"
  shows "storable n nodes \<Longrightarrow> subs_fit cr mk nodes \<Longrightarrow> tree_fits cr mk salt (tree_of cr mk nodes) \<Longrightarrow>
    \<forall>(i, b) \<in> set (dir_objects cr mk nodes salt). get st i = Some b \<Longrightarrow> depth + n \<le> MAX_TREE_DEPTH \<Longrightarrow>
    load_nodes_inner cr keys st depth (fst (sealed_tree cr mk salt (tree_of cr mk nodes))) salt = Inr nodes"
proof (induction n arbitrary: nodes salt depth)
  case (Suc n)
  let ?t = "tree_of cr mk nodes"
  have "tree_wf ?t" using Suc.prems(1,3) by (intro tree_wf_tree_of [where n = "Suc n"]) (simp_all only: tree_fits_def)
  moreover have "get st (fst (sealed_tree cr mk salt ?t)) = Some (snd (sealed_tree cr mk salt ?t))"
    using Suc.prems(4) by (auto simp: dir_objects_def split: prod.splits)
  ultimately have t: "load_tree cr keys st (fst (sealed_tree cr mk salt ?t)) salt = Inr ?t"
    using assms Suc.prems(3) by (intro load_tree_sealed)
  have "load_nodes_inner cr keys st (depth + 1) (fst (sealed_tree cr mk s (tree_of cr mk ch))) s = Inr ch"
    if d: "(name, Dir m mt s ch) \<in> set nodes" for name m mt s ch
  proof (rule Suc.IH)
    show "storable n ch" using Suc.prems(1) d by (fastforce simp: list_all_iff node_fits_def)
    show "subs_fit cr mk ch" "tree_fits cr mk s (tree_of cr mk ch)" using sub_objects_Dir [OF d] Suc.prems(2) by blast+
    show "\<forall>(i, b) \<in> set (dir_objects cr mk ch s). get st i = Some b"
      using sub_objects_Dir [OF d, of cr mk] Suc.prems(4) unfolding dir_objects_def [of cr mk nodes] by auto
  qed (use Suc.prems(5) in simp)
  then have "load_entries cr keys st (depth + 1) ?t [] = Inr (fold (\<lambda>e. bt_insert (fst e) (snd e)) nodes [])"
    by (rule load_entries_sealed)
  with t show ?case
    using Suc.prems(1,5) by (simp add: load_nodes_inner.simps [of cr keys st depth] fold_bt_insert_sorted bt_wf_def)
qed simp

section \<open>What is loaded can be stored\<close>

lemma added_entry_fits:
  assumes "name_wf name" "node_fits P x" "\<forall>k nd. map_of d k = Some nd \<longrightarrow> map_of (bt_insert name x out) k = Some nd \<or> name_wf k \<and> node_fits P nd"
  shows "\<forall>k nd. map_of d k = Some nd \<longrightarrow> map_of out k = Some nd \<or> name_wf k \<and> node_fits P nd"
  using assms(3) [rule_format] assms(1,2) by (metis fun_upd_apply map_of_bt_insert option.inject)

lemma load_storable:
  shows "load_nodes_inner cr keys st depth i salt = Inr d \<Longrightarrow> storable (MAX_TREE_DEPTH - depth) d"
    and "load_entries cr keys st depth es out = Inr d \<Longrightarrow> list_all (\<lambda>e. name_wf (entry_name e) \<and> body_wf e) es \<Longrightarrow>
      (bt_wf out \<longrightarrow> bt_wf d) \<and> (\<forall>k nd. map_of d k = Some nd \<longrightarrow>
         map_of out k = Some nd \<or> name_wf k \<and> node_fits (storable (MAX_TREE_DEPTH - depth)) nd)"
proof (induction cr keys st depth i salt and cr keys st depth es out arbitrary: d and d rule: load_nodes_inner_load_entries.induct)
  case (1 cr keys st depth i salt)
  obtain t where t: "\<not> MAX_TREE_DEPTH \<le> depth" "load_tree cr keys st i salt = Inr t" "load_entries cr keys st (depth + 1) t [] = Inr d"
    using "1.prems" by (subst (asm) load_nodes_inner.simps) (auto simp: rbind_eq_Inr split: if_splits)
  have "tree_wf t" using t(2) by (auto simp: load_tree_def rbind_eq_Inr decode_tree_iff)
  with "1.IH" [OF t(1) _ t(3)] t(2) have "storable (Suc (MAX_TREE_DEPTH - (depth + 1))) d"
    unfolding storable_Suc by (simp add: tree_wf_def)
  moreover have "MAX_TREE_DEPTH - depth = Suc (MAX_TREE_DEPTH - (depth + 1))" using t(1) by simp
  ultimately show ?case by simp
next
  case (3 cr keys st depth name mode mtime sz salt chunks es out)
  let ?x = "File mode mtime sz salt chunks"
  have x: "name_wf name" "node_fits (storable (MAX_TREE_DEPTH - depth)) ?x" and es: "list_all (\<lambda>e. name_wf (entry_name e) \<and> body_wf e) es"
    using "3.prems"(2) by (simp_all add: node_fits_def)
  have l: "load_entries cr keys st depth es (bt_insert name ?x out) = Inr d" using "3.prems"(1) by simp
  note ih = "3.IH" [OF l es]
  from ih bt_wf_bt_insert have "bt_wf out \<longrightarrow> bt_wf d" by blast
  with added_entry_fits [OF x conjunct2 [OF ih]] show ?case by blast
next
  case (4 cr keys st depth name mode mtime subtree salt es out)
  then obtain ch where ch: "load_nodes_inner cr keys st depth subtree salt = Inr ch"
    "load_entries cr keys st depth es (bt_insert name (Dir mode mtime salt ch) out) = Inr d" by (auto simp: rbind_eq_Inr)
  let ?x = "Dir mode mtime salt ch"
  have x: "name_wf name" "node_fits (storable (MAX_TREE_DEPTH - depth)) ?x" and es: "list_all (\<lambda>e. name_wf (entry_name e) \<and> body_wf e) es"
    using "4.prems"(2) "4.IH"(1) [OF ch(1)] by (simp_all add: node_fits_def)
  note ih = "4.IH"(2) [OF ch es]
  from ih bt_wf_bt_insert have "bt_wf out \<longrightarrow> bt_wf d" by blast
  with added_entry_fits [OF x conjunct2 [OF ih]] show ?case by blast
qed simp

lemma load_nodes_storable: "load_nodes cr keys st i salt = Inr d \<Longrightarrow> storable MAX_TREE_DEPTH d"
  using load_storable(1) [of cr keys st 0 i salt d] by (simp add: load_nodes_def)

lemma plain_hex_digit:
  assumes "unat d < 16"
  shows "plain [hex_digit d]"
proof -
  have "list_all (\<lambda>n. plain [hex_digit (of_nat n)]) [0 ..< 16]" by code_simp
  then have "plain [hex_digit (of_nat (unat d))]" using assms unfolding list_all_iff set_upt by (meson atLeastLessThan_iff le0)
  then show ?thesis by simp
qed

lemma plain_hex12: "plain (hex12 b)"
proof -
  have "unat (x AND 15) < 16" for x :: u8
    using word_and_le1 [of x 15] by (simp add: word_le_nat_alt)
  moreover have "unat (drop_bit 4 x) < 16" for x :: u8
  proof -
    have "unat x < 256" using unsigned_less [of x, where 'a = nat] by simp
    then show ?thesis by (simp add: drop_bit_eq_div unat_div)
  qed
  ultimately have "plain ([hex_digit (drop_bit 4 x)] @ [hex_digit (x AND 15)])" for x
    unfolding plain_append by (intro conjI plain_hex_digit)
  then show ?thesis unfolding hex12_def by (auto simp: plain_def list_all_iff)
qed

lemma label_ok_merge_label: "label_ok (merge_label sib)"
proof -
  have "length (hex12 b) \<le> 12" for b
    unfolding hex12_def by (simp add: length_concat o_def sum_list_triv)
  from this [of "sh_device_id sib"] this [of "sh_commit_id sib"] show ?thesis
    using plain_hex12 by (simp add: label_ok_def merge_label_def) (simp add: plain_def)
qed

section \<open>The merge commit\<close>

lemma reading_ok: "reading g st r = Some (Inr x, st') \<longleftrightarrow> r = Inr x \<and> st' = st"
  by (auto simp: reading_def)

definition merge_commit_of :: "bytes \<Rightarrow> sibling_head \<Rightarrow> commit_author \<Rightarrow> bytes \<Rightarrow> bytes \<Rightarrow> bytes \<Rightarrow> commit" where
  "merge_commit_of ours sib author d rt salt =
     \<lparr>root_tree = rt, root_salt = salt, c_parents = [ours, sh_commit_id sib], c_device_id = d, c_version = ca_version author,
      c_roster_seq = ca_roster_seq author, last_seen_head = sh_commit_id sib, c_ts = ca_ts author\<rparr>"

text \<open>The objects a merge puts: those of the merged tree, then the signed merge commit.\<close>

definition merge_objects :: "crypto \<Rightarrow> master_key \<Rightarrow> dir \<Rightarrow> commit \<Rightarrow> bytes \<Rightarrow> (bytes \<times> bytes) list" where
  "merge_objects cr mk nodes c sg = dir_objects cr mk nodes (root_salt c) @ [sealed_commit cr mk c sg]"

lemma seal_merge_ok:
  assumes "seal_merge cr ss keys ours sib author salt missing m st = Some (Inr act, st')" "current keys = Some mk"
  shows "\<exists>d c msg sg. device_id_of cr ss (sk_public ss (ca_device author)) = Inr d
    \<and> c = merge_commit_of ours sib author d (fst (sealed_tree cr mk salt (tree_of cr mk (merge_tree m)))) salt
    \<and> encode_commit c = Some msg \<and> DeviceKey_sign ss (ca_device author) NS_COMMIT msg = Inr sg
    \<and> act = ActMerged (fst (sealed_commit cr mk c sg)) (merge_conflicts m) missing
    \<and> subs_fit cr mk (merge_tree m) \<and> tree_fits cr mk salt (tree_of cr mk (merge_tree m))
    \<and> st' = fold put_object (merge_objects cr mk (merge_tree m) c sg) st"
proof -
  obtain rt st1 d msg sg where s: "seal_nodes cr mk (merge_tree m) salt [] st = Some (Inr rt, st1)"
    and d: "device_id_of cr ss (sk_public ss (ca_device author)) = Inr d"
    and c: "encode_commit (merge_commit_of ours sib author d rt salt) = Some msg" "DeviceKey_sign ss (ca_device author) NS_COMMIT msg = Inr sg"
    "act = ActMerged (fst (sealed_commit cr mk (merge_commit_of ours sib author d rt salt) sg)) (merge_conflicts m) missing"
    "st' = put_object (sealed_commit cr mk (merge_commit_of ours sib author d rt salt) sg) st1"
    using assms
    by (auto simp: seal_merge_def Let_def sbind_eq_ok reading_ok writing_ok seal_signed_commit_ok merge_commit_of_def split: prod.splits)
  note n = seal_nodes_ok(1) [OF s]
  show ?thesis
    by (rule exI [of _ d], rule exI [of _ "merge_commit_of ours sib author d rt salt"], rule exI [of _ msg], rule exI [of _ sg])
      (use n d c in \<open>simp add: merge_objects_def merge_commit_of_def\<close>)
qed

lemma merge_heads_merged:
  assumes "merge_heads cr ss keys f ours sib ever_members author st = Some (Inr plan, st')" "action plan = ActMerged cid conflicts missing"
  obtains parents meta base oc tc om tm m where
    "load_commit_dag cr keys st [ours, sh_commit_id sib] = Inr (parents, meta)"
    "base_nodes cr keys st (merge_base parents ours (sh_commit_id sib)) = Inr (base, missing)"
    "commit_at cr keys st ours oc" "commit_at cr keys st (sh_commit_id sib) tc"
    "load_nodes cr keys st (root_tree oc) (root_salt oc) = Inr om" "load_nodes cr keys st (root_tree tc) (root_salt tc) = Inr tm"
    "three_way_merge base om tm (merge_label sib) = Some m" "conflicts = merge_conflicts m"
    "seal_merge cr ss keys ours sib author (root_salt oc) missing m st = Some (Inr (ActMerged cid conflicts missing), st')"
proof -
  obtain l acc where acc: "accept_sibling cr ss keys st f (Some ours) sib l ever_members = Some (Inr acc)"
    and m: "merge_accepted cr ss keys acc ours sib author st = Some (Inr (ActMerged cid conflicts missing), st')"
    using assms by (auto simp: merge_heads_def sbind_eq_ok reading_ok)
  have dag: "\<exists>meta. load_commit_dag cr keys st [ours, sh_commit_id sib] = Inr (acc_parents acc, meta)"
    using acc by (auto simp: accept_sibling_def Let_def orbind_eq_ok split: if_splits)
  have "decision acc = Merge" using m by (cases "decision acc") (simp_all add: merge_accepted_def)
  then obtain base mi oc so tc tso om tm m' where r:
    "base_nodes cr keys st (merge_base (acc_parents acc) ours (sh_commit_id sib)) = Inr (base, mi)"
    "open_signed_commit cr keys ours st = Inr (oc, so)" "open_signed_commit cr keys (sh_commit_id sib) st = Inr (tc, tso)"
    "load_nodes cr keys st (root_tree oc) (root_salt oc) = Inr om" "load_nodes cr keys st (root_tree tc) (root_salt tc) = Inr tm"
    "three_way_merge base om tm (merge_label sib) = Some m'"
    "seal_merge cr ss keys ours sib author (root_salt oc) mi m' st = Some (Inr (ActMerged cid conflicts missing), st')"
    using m by (auto simp: merge_accepted_def sbind_eq_ok reading_ok bind_eq_Some_conv split: prod.splits)
  have k: "current keys \<noteq> None" using r(7) by (cases "current keys") (simp_all add: seal_merge_def)
  then have "conflicts = merge_conflicts m' \<and> mi = missing" using seal_merge_ok [OF r(7)] by auto
  with dag r that show thesis by (auto simp: commit_at_def)
qed

section \<open>Properties\<close>

text \<open>
  C29: a sealed tree loads as it was. When \<open>seal_nodes\<close> stores a directory tree whose names and fields
  fit their encodings and which has at most \<open>MAX_TREE_DEPTH\<close> levels, and no address of its objects is
  taken by a different object, \<open>load_nodes\<close> returns exactly that tree from the resulting store; an
  object the store had before is unchanged.
\<close>

theorem seal_nodes_load_nodes:
  assumes "seal_nodes cr mk nodes salt path st = Some (Inr i, st')" "storable MAX_TREE_DEPTH nodes"
    "for_gen keys (generation mk) = Some mk" "addresses_free st (dir_objects cr mk nodes salt)"
  shows "load_nodes cr keys st' i salt = Inr nodes \<and> (\<forall>j b. get st j = Some b \<longrightarrow> get st' j = Some b)"
proof -
  note s = seal_nodes_ok(1) [OF assms(1)]
  have "\<forall>(j, b) \<in> set (dir_objects cr mk nodes salt). get st' j = Some b" using s addresses_free_puts [OF assms(4)] by auto
  with s load_sealed [OF assms(3,2)] have "load_nodes cr keys st' i salt = Inr nodes" by (simp add: load_nodes_def)
  with s get_puts show ?thesis by auto
qed


lemma ex_fits: "tree_fits ex_crypto ex_mk ex_salt []"
  by (simp add: tree_fits_def sealed_tree_def length_seal_object encode_tree_def FRAME_LEN_def CTX_TAG_LEN_def MAX_BLOB_SIZE_def)

lemma ex_seal: "seal_nodes ex_crypto ex_mk [] ex_salt [] st = Some (Inr (fst ex_tree), put_object ex_tree st)"
proof -
  have "seal_tree ex_crypto [] ex_salt ex_mk [] st = Some (Inr (fst ex_tree, put_object ex_tree st))"
    using ex_fits by (simp add: seal_tree_ok ex_tree_def)
  then show ?thesis by (simp add: writing_ok)
qed

theorem seal_nodes_load_nodes_witness:
  "load_nodes ex_crypto ex_keys (put_object ex_tree ex_store) (fst ex_tree) ex_salt = Inr []"
proof -
  have "storable MAX_TREE_DEPTH []" by (simp add: MAX_TREE_DEPTH_def numeral_eq_Suc)
  moreover have "addresses_free ex_store (dir_objects ex_crypto ex_mk [] ex_salt)"
    using ex_at(1) by (simp add: addresses_free_def dir_objects_def case_prod_beta flip: ex_tree_def)
  ultimately show ?thesis using seal_nodes_load_nodes [OF ex_seal] ex_for_gen by blast
qed

text \<open>
  C9: a merge of two heads lands, whole, in the store. When \<open>merge_heads\<close> merges, it has loaded both
  heads' trees and merged them over the tree of the common ancestor it picked (or an empty one, when
  that tree is missing and says so); every content either side has and the base lacks is in the merged
  tree, ours at its own path. If no address of the objects it puts is taken by a different object, the
  resulting store opens the returned id as a commit of this device with exactly the two heads as
  parents, signed by this device, and loading its tree gives exactly the merged tree. No object the
  store had is lost.
\<close>

theorem merge_heads_outcome:
  assumes "merge_heads cr ss keys f ours sib ever_members author st = Some (Inr plan, st')"
    "action plan = ActMerged cid conflicts missing" "current keys = Some mk" "for_gen keys (generation mk) = Some mk"
    "length ours = 32" "length (sh_commit_id sib) = 32"
    "\<forall>msg sg. ssh_sign ss (ca_device author) NS_COMMIT msg = Some sg \<longrightarrow> length sg \<le> MAX_SIG_LEN"
  shows "\<exists>base oc tc om tm m c msg sg.
    commit_at cr keys st ours oc \<and> load_nodes cr keys st (root_tree oc) (root_salt oc) = Inr om
    \<and> commit_at cr keys st (sh_commit_id sib) tc \<and> load_nodes cr keys st (root_tree tc) (root_salt tc) = Inr tm
    \<and> (\<exists>parents meta. load_commit_dag cr keys st [ours, sh_commit_id sib] = Inr (parents, meta)
         \<and> base_nodes cr keys st (merge_base parents ours (sh_commit_id sib)) = Inr (base, missing))
    \<and> three_way_merge base om tm (merge_label sib) = Some m \<and> conflicts = merge_conflicts m
    \<and> (\<forall>p cs. (file_at om p cs \<and> \<not> file_at base p cs \<longrightarrow> file_at (merge_tree m) p cs)
         \<and> (file_at tm p cs \<and> \<not> file_at base p cs \<longrightarrow> (\<exists>p'. file_at (merge_tree m) p' cs)))
    \<and> c_parents c = [ours, sh_commit_id sib] \<and> device_id_of cr ss (sk_public ss (ca_device author)) = Inr (c_device_id c)
    \<and> c_version c = ca_version author \<and> encode_commit c = Some msg \<and> ssh_sign ss (ca_device author) NS_COMMIT msg = Some sg
    \<and> (addresses_free st (merge_objects cr mk (merge_tree m) c sg) \<longrightarrow>
         open_signed_commit cr keys cid st' = Inr (c, sg) \<and> load_nodes cr keys st' (root_tree c) (root_salt c) = Inr (merge_tree m))
    \<and> (\<forall>j b. get st j = Some b \<longrightarrow> get st' j = Some b)"
proof -
  from assms(1,2) obtain parents meta base oc tc om tm m where
    r: "load_commit_dag cr keys st [ours, sh_commit_id sib] = Inr (parents, meta)"
    "base_nodes cr keys st (merge_base parents ours (sh_commit_id sib)) = Inr (base, missing)"
    "commit_at cr keys st ours oc" "commit_at cr keys st (sh_commit_id sib) tc"
    "load_nodes cr keys st (root_tree oc) (root_salt oc) = Inr om" "load_nodes cr keys st (root_tree tc) (root_salt tc) = Inr tm"
    "three_way_merge base om tm (merge_label sib) = Some m" "conflicts = merge_conflicts m"
    "seal_merge cr ss keys ours sib author (root_salt oc) missing m st = Some (Inr (ActMerged cid conflicts missing), st')"
    by (rule merge_heads_merged)
  let ?t = "tree_of cr mk (merge_tree m)" and ?salt = "root_salt oc"
  from seal_merge_ok [OF r(9) assms(3)] obtain d c msg sg where
    d: "device_id_of cr ss (sk_public ss (ca_device author)) = Inr d"
    and c: "c = merge_commit_of ours sib author d (fst (sealed_tree cr mk ?salt ?t)) ?salt" "encode_commit c = Some msg"
    and sg: "DeviceKey_sign ss (ca_device author) NS_COMMIT msg = Inr sg" and cid: "cid = fst (sealed_commit cr mk c sg)"
    and fit: "subs_fit cr mk (merge_tree m)" "tree_fits cr mk ?salt ?t"
    and st': "st' = fold put_object (merge_objects cr mk (merge_tree m) c sg) st" by blast
  have sgn: "ssh_sign ss (ca_device author) NS_COMMIT msg = Some sg" using sg by (simp add: DeviceKey_sign_def)
  have wf: "commit_wf c"
    using assms(5,6) length_device_id [OF d] commit_at_wf [OF r(3)]
    by (simp add: c(1) merge_commit_of_def commit_wf_def sealed_tree_def MAX_LIST_ELEMENTS_def)
  have "storable MAX_TREE_DEPTH (merge_tree m)"
    by (rule merge_storable [OF label_ok_merge_label r(7) [unfolded three_way_merge_def]]) (use r(5,6) load_nodes_storable in blast)+
  note load = load_sealed [OF assms(4) this fit, where depth = 0 and st = st']
  have stored: "open_signed_commit cr keys cid st' = Inr (c, sg) \<and> load_nodes cr keys st' (root_tree c) (root_salt c) = Inr (merge_tree m)"
    if "addresses_free st (merge_objects cr mk (merge_tree m) c sg)"
  proof -
    note at = addresses_free_puts [OF that, folded st']
    have "get st' cid = Some (snd (sealed_commit cr mk c sg))"
      using at [of cid "snd (sealed_commit cr mk c sg)"] by (simp add: merge_objects_def cid)
    then have "open_signed_commit cr keys cid st' = Inr (c, sg)"
      unfolding cid using assms(4,7) wf sgn by (intro open_sealed_commit) (auto simp: c(1) merge_commit_of_def)
    moreover have "\<forall>(i, b) \<in> set (dir_objects cr mk (merge_tree m) ?salt). get st' i = Some b"
      using at by (auto simp: merge_objects_def c(1) merge_commit_of_def)
    ultimately show ?thesis using load by (simp add: load_nodes_def c(1) merge_commit_of_def)
  qed
  have keep: "(file_at om p cs \<and> \<not> file_at base p cs \<longrightarrow> file_at (merge_tree m) p cs)
      \<and> (file_at tm p cs \<and> \<not> file_at base p cs \<longrightarrow> (\<exists>p'. file_at (merge_tree m) p' cs))" for p cs
    using r(7) merge_keeps_ours merge_keeps_theirs unfolding three_way_merge_def by metis
  have dev: "c_parents c = [ours, sh_commit_id sib]" "c_device_id c = d" "c_version c = ca_version author"
    by (simp_all add: c(1) merge_commit_of_def)
  show ?thesis
    by (rule exI [of _ base], rule exI [of _ oc], rule exI [of _ tc], rule exI [of _ om], rule exI [of _ tm], rule exI [of _ m],
        rule exI [of _ c], rule exI [of _ msg], rule exI [of _ sg])
      (use r(1-8) d dev keep c(2) sgn stored st' get_puts in blast)
qed


definition ex_author :: commit_author where
  "ex_author = \<lparr>ca_device = [5], ca_version = 2, ca_roster_seq = 0, ca_ts = 0\<rparr>"

lemma ex_merge:
  "\<exists>plan cid st'. merge_heads ex_crypto toy_ssh ex_keys toy_frontier ex_ours ex_sib [(hash ex_crypto [6], [6])] ex_author ex_store
       = Some (Inr plan, st') \<and> action plan = ActMerged cid [] False"
proof -
  have dev: "device_id_of ex_crypto toy_ssh (sk_public toy_ssh [5]) = Inr (hash ex_crypto [5])" by (simp add: device_id_of_def toy_ssh_def)
  have "set (lowest_common_ancestors ex_parents ex_ours ex_theirs) = {}" using ex_ne by (auto simp: lca_set ex_reaches)
  then have base: "merge_base ex_parents ex_ours ex_theirs = None" by (simp add: merge_base_def)
  have nodes: "load_nodes ex_crypto ex_keys ex_store (fst ex_tree) ex_salt = Inr []"
    using ex_opens(1) by (simp add: load_nodes_def load_nodes_inner.simps MAX_TREE_DEPTH_def)
  have root: "root_tree (ex_commit pk n) = fst ex_tree" "root_salt (ex_commit pk n) = ex_salt" for pk n by (simp_all add: ex_commit_def)
  have merged: "three_way_merge [] [] [] (merge_label ex_sib) = Some merge_empty"
    by (simp add: three_way_merge_def merge_dir_run merge_names_def bt_keys_def)
  let ?c = "merge_commit_of ex_ours ex_sib ex_author (hash ex_crypto [5]) (fst ex_tree) ex_salt"
  let ?st = "put_object ex_tree ex_store"
  have wf: "commit_wf ?c"
    by (simp add: commit_wf_def merge_commit_of_def ex_sib_def ex_object_def sealed_commit_def ex_tree_def sealed_tree_def ex_salt_def
        MAX_LIST_ELEMENTS_def)
  have "seal_signed_commit ex_crypto toy_ssh ex_mk [5] ?c ?st
      = Some (Inr (fst (sealed_commit ex_crypto ex_mk ?c []), put_object (sealed_commit ex_crypto ex_mk ?c []) ?st))"
    unfolding seal_signed_commit_ok using encode_commit_img [OF wf] encode_signed_commit_img [OF wf, of "[]"]
    by (auto simp: DeviceKey_sign_def toy_ssh_def)
  then have "seal_merge ex_crypto toy_ssh ex_keys ex_ours ex_sib ex_author ex_salt False merge_empty ex_store
      = Some (Inr (ActMerged (fst (sealed_commit ex_crypto ex_mk ?c [])) [] False), put_object (sealed_commit ex_crypto ex_mk ?c []) ?st)"
    using dev ex_seal [of ex_store]
    by (simp add: seal_merge_def MasterKey_keys_def merge_empty_def ex_author_def reading_def writing_def merge_commit_of_def Let_def del: seal_nodes.simps)
  then show ?thesis
    using dev ex_accept base nodes merged ex_opens
    by (simp add: merge_heads_def merge_accepted_def reading_def ex_author_def ex_accepted_def ex_sib_def base_nodes_def root)
qed

theorem merge_heads_outcome_witness:
  "\<exists>plan cid st'. merge_heads ex_crypto toy_ssh ex_keys toy_frontier ex_ours ex_sib [(hash ex_crypto [6], [6])] ex_author ex_store
       = Some (Inr plan, st') \<and> action plan = ActMerged cid [] False \<and> get st' ex_theirs = Some (snd (ex_object [6] 3))"
proof -
  obtain plan cid st' where
    m: "merge_heads ex_crypto toy_ssh ex_keys toy_frontier ex_ours ex_sib [(hash ex_crypto [6], [6])] ex_author ex_store = Some (Inr plan, st')"
    "action plan = ActMerged cid [] False" using ex_merge by blast
  have "current ex_keys = Some ex_mk" "length ex_ours = 32" "length (sh_commit_id ex_sib) = 32"
    "\<forall>msg sg. ssh_sign toy_ssh (ca_device ex_author) NS_COMMIT msg = Some sg \<longrightarrow> length sg \<le> MAX_SIG_LEN"
    by (simp_all add: MasterKey_keys_def ex_sib_def ex_object_def sealed_commit_def toy_ssh_def)
  from merge_heads_outcome [OF m this(1) ex_for_gen this(2-4)] have "\<forall>j b. get ex_store j = Some b \<longrightarrow> get st' j = Some b"
    by (elim exE conjE) assumption
  with m ex_at(3) show ?thesis by blast
qed

end
