(* ===== verification/Remote.thy ===== *)
theory Remote
  imports Engine Server
begin

text \<open>
  \<open>crates/secsec-client/src/lib.rs\<close>, the interface: the \<open>Remote\<close> trait, its errors, and what one
  roster write carries; and \<open>src/testmem.rs\<close>, the backend over a store in the same process. A remote
  is a record of operations on a state of its own. Nothing is assumed of it where the client has to
  defend itself; the locale \<open>store_remote\<close> says what one that keeps the server's contract does, and
  the in-process backend is an instance.
\<close>

section \<open>Errors\<close>

datatype remote_error =
    Refused string error_code
  | Protocol string
  | Transport string
  | RLocal string

definition is_not_enrolled :: "remote_error \<Rightarrow> bool" where
  "is_not_enrolled e \<longleftrightarrow> (case e of Refused _ c \<Rightarrow> c = NotEnrolled | _ \<Rightarrow> False)"

datatype client_error =
    CRemote remote_error
  | CSnap snap_error
  | CHead head_error
  | MissingLocal bytes
  | MissingRemote bytes
  | CCasConflict
  | HeadNotMember
  | CMerge merge_error
  | CIo io_error
  | FrontierLost frontier_error
  | CSig sig_error
  | CEngine engine_error
  | CVersionExhausted

section \<open>The interface\<close>

record roster_write =
  w_old_tip :: bytes
  w_entries :: "bytes list"
  w_keyslots :: "keyslot_put list"
  w_keyhist :: "(u32 \<times> bytes) option"
  w_roster_keyhist :: "(u32 \<times> bytes) option"
  w_revoke :: "bytes list"
  w_head :: "head_put option"

type_synonym ('r, 'a) call = "'r \<Rightarrow> (remote_error + 'a) \<times> 'r"

record 'r remote =
  r_get_blob :: "bytes \<Rightarrow> ('r, bytes option) call"
  r_put_blob :: "bytes \<Rightarrow> bytes \<Rightarrow> bytes \<Rightarrow> ('r, unit) call"
  r_has :: "bytes list \<Rightarrow> ('r, bool list) call"
  r_get_ref :: "bytes \<Rightarrow> ('r, bytes option) call"
  r_get_roster_entry :: "u64 \<Rightarrow> ('r, bytes option) call"
  r_get_keyslot :: "bytes \<Rightarrow> u32 \<Rightarrow> ('r, bytes option) call"
  r_get_roster_keyhist :: "u32 \<Rightarrow> ('r, bytes option) call"
  r_get_keyhist :: "u32 \<Rightarrow> ('r, bytes option) call"
  r_cas_head :: "bytes \<Rightarrow> bytes \<Rightarrow> bytes \<Rightarrow> bytes \<Rightarrow> ('r, bool) call"
  r_roster_batch :: "roster_write \<Rightarrow> ('r, bool) call"
  r_prune :: "bytes list \<Rightarrow> bytes \<Rightarrow> u64 \<Rightarrow> ('r, bool) call"
  r_pair_put :: "bytes \<Rightarrow> bytes \<Rightarrow> ('r, unit) call"
  r_pair_get :: "bytes \<Rightarrow> ('r, bytes option) call"

text \<open>
  The client's own state in a call is its store and the remote's state. \<open>remote_call\<close> is
  \<open>remote.op(..).await?\<close>.
\<close>

definition remote_call :: "('r, 'a) call \<Rightarrow> store \<times> 'r \<Rightarrow> ((client_error + 'a) \<times> store \<times> 'r) option" where
  "remote_call f s = (let (x, r) = f (snd s) in Some (map_err CRemote x, fst s, r))"

lemma remote_call_ok: "remote_call f s = Some (Inr x, s') \<longleftrightarrow> f (snd s) = (Inr x, snd s') \<and> fst s' = fst s"
  by (cases s') (auto simp: remote_call_def split: prod.splits)

lemma remote_call_total: "\<exists>x r. remote_call f s = Some (x, fst s, r)"
  by (simp add: remote_call_def case_prod_beta)

section \<open>The in-process backend\<close>

record mem_remote =
  mr_store :: store
  mr_refuse :: nat
  mr_pairing :: "(bytes, bytes) btree"

definition MemRemote_new :: "store \<Rightarrow> mem_remote" where
  "MemRemote_new st = \<lparr>mr_store = st, mr_refuse = 0, mr_pairing = []\<rparr>"

definition mem_read :: "(store \<Rightarrow> 'a) \<Rightarrow> (mem_remote, 'a) call" where
  "mem_read f r = (Inr (f (mr_store r)), r)"

definition mem_write :: "(store \<Rightarrow> 'a \<times> store) \<Rightarrow> (mem_remote, 'a) call" where
  "mem_write f r = (let (x, st) = f (mr_store r) in (Inr x, r\<lparr>mr_store := st\<rparr>))"

definition batch_of :: "roster_write \<Rightarrow> roster_batch_rec" where
  "batch_of w =
     \<lparr>rb_expected_tip = w_old_tip w, rb_entries = w_entries w,
      rb_keyslots = map (\<lambda>k. \<lparr>kw_device_id = ks_device_id k, kw_gen = ks_gen k, kw_blob = ks_blob k\<rparr>) (w_keyslots w),
      rb_keyhist = w_keyhist w, rb_roster_keyhist = w_roster_keyhist w, rb_revoke = w_revoke w,
      rb_head = map_option (\<lambda>h. \<lparr>hs_ref_h = hp_ref_h h, hs_expected_old = hp_old_head h, hs_new_blob = hp_new_blob h\<rparr>) (w_head w)\<rparr>"

definition mem_roster_batch :: "crypto \<Rightarrow> roster_write \<Rightarrow> (mem_remote, bool) call" where
  "mem_roster_batch cr w r =
     (if 0 < mr_refuse r then (Inr False, r\<lparr>mr_refuse := mr_refuse r - 1\<rparr>)
      else mem_write (\<lambda>st. let (sq, st) = roster_batch cr (batch_of w) st in (sq \<noteq> None, st)) r)"

definition mem_cas_head :: "crypto \<Rightarrow> bytes \<Rightarrow> bytes \<Rightarrow> bytes \<Rightarrow> bytes \<Rightarrow> (mem_remote, bool) call" where
  "mem_cas_head cr ref_h old blob push_id = mem_write (\<lambda>st. let (o', st) = cas_ref cr ref_h old blob push_id st in (swapped o', st))"

definition mem_prune :: "crypto \<Rightarrow> bytes list \<Rightarrow> bytes \<Rightarrow> u64 \<Rightarrow> (mem_remote, bool) call" where
  "mem_prune cr dead ahh rlen = mem_write (prune_if cr dead (\<lambda>refs len. all_heads_hash cr refs = ahh \<and> len = unat rlen))"

definition MemRemote :: "crypto \<Rightarrow> mem_remote remote" where
  "MemRemote cr =
     \<lparr>r_get_blob = (\<lambda>i. mem_read (\<lambda>st. get st i)),
      r_put_blob = (\<lambda>i blob push_id. mem_write (\<lambda>st. ((), stage push_id i blob 0 st))),
      r_has = (\<lambda>ids. mem_read (\<lambda>st. has st ids)),
      r_get_ref = (\<lambda>ref_h. mem_read (\<lambda>st. get_ref st ref_h)),
      r_get_roster_entry = (\<lambda>sq. mem_read (\<lambda>st. get_roster_entry st (unat sq))),
      r_get_keyslot = (\<lambda>d g. mem_read (\<lambda>st. get_keyslot st d g)),
      r_get_roster_keyhist = (\<lambda>g. mem_read (\<lambda>st. get_roster_keyhist st g)),
      r_get_keyhist = (\<lambda>g. mem_read (\<lambda>st. get_keyhist st g)),
      r_cas_head = mem_cas_head cr,
      r_roster_batch = mem_roster_batch cr,
      r_prune = mem_prune cr,
      r_pair_put = (\<lambda>slot blob r. (Inr (), r\<lparr>mr_pairing := bt_insert slot blob (mr_pairing r)\<rparr>)),
      r_pair_get = (\<lambda>slot r. (Inr (map_of (mr_pairing r) slot), r\<lparr>mr_pairing := bt_remove slot (mr_pairing r)\<rparr>))\<rparr>"

section \<open>A remote that keeps the store's contract\<close>

locale store_remote =
  fixes cr :: crypto and R :: "'r remote" and view :: "'r \<Rightarrow> store" and staging_clock :: nat
  assumes get_blob_view: "r_get_blob R i r = (Inr x, r') \<Longrightarrow> x = get (view r) i \<and> view r' = view r"
    and put_blob_view: "r_put_blob R i b p r = (Inr u, r') \<Longrightarrow> view r' = stage p i b staging_clock (view r)"
    and get_ref_view: "r_get_ref R h r = (Inr x, r') \<Longrightarrow> x = get_ref (view r) h \<and> view r' = view r"
    and cas_head_view: "r_cas_head R h old b p r = (Inr won, r') \<Longrightarrow>
      \<exists>o'. cas_ref cr h old b p (view r) = (o', view r') \<and> won = swapped o'"
    and prune_view: "r_prune R dead ahh len r = (Inr won, r') \<Longrightarrow>
      prune_if cr dead (\<lambda>refs n. all_heads_hash cr refs = ahh \<and> n = unat len) (view r) = (won, view r')"

interpretation mem: store_remote cr "MemRemote cr" mr_store 0 for cr
  by unfold_locales
    (auto simp: MemRemote_def mem_read_def mem_write_def mem_cas_head_def mem_prune_def Let_def split: prod.splits)

end
