(* ===== verification/Fetch.thy ===== *)
theory Fetch
  imports Remote Merging
begin

text \<open>
  \<open>crates/secsec-client/src/lib.rs\<close>, fetching: heads, commits and trees from a remote that is not
  trusted. Every object is verified before it is stored, so whatever the remote answers, the local
  store only gains objects that open under the repository keys, and a fetch that returns has brought
  all it was asked for. Commits of one fetch land in one transaction and a tree is stored after its
  subtrees, so a store in which stored commits have their parents and stored trees their subtrees
  stays one, also when a fetch fails half way.
\<close>

section \<open>Heads\<close>

definition stored :: "store \<Rightarrow> bytes \<Rightarrow> bool" where
  "stored st i \<longleftrightarrow> True \<in> set (has st [i])"

definition fetch_head :: "crypto \<Rightarrow> 'r remote \<Rightarrow> master_keys \<Rightarrow> bytes \<Rightarrow> store \<times> 'r
    \<Rightarrow> ((client_error + (head \<times> bytes \<times> bytes) option) \<times> store \<times> 'r) option" where
  "fetch_head cr R keys name s =
     Option.bind (ref_name_key cr keys) (\<lambda>rnk.
     sbind (remote_call (r_get_ref R (ref_hash cr rnk name)) s) (\<lambda>b s.
     case b of
       None \<Rightarrow> Some (Inr None, s)
     | Some blob \<Rightarrow>
         sbind (reading CHead s (open_head cr keys rnk name blob)) (\<lambda>(h, sg) s.
         Some (Inr (Some (h, sg, blob)), s))))"

record remote_head =
  rh_head :: head
  rh_blob :: bytes
  rh_sibling :: sibling_head

definition fetch_verified_head :: "crypto \<Rightarrow> ssh \<Rightarrow> 'r remote \<Rightarrow> master_keys \<Rightarrow> (bytes, bytes) btree \<Rightarrow> bytes \<Rightarrow> store \<times> 'r
    \<Rightarrow> ((client_error + remote_head option) \<times> store \<times> 'r) option" where
  "fetch_verified_head cr ss R keys members name s =
     sbind (fetch_head cr R keys name s) (\<lambda>x s.
     case x of
       None \<Rightarrow> Some (Inr None, s)
     | Some (h, sg, blob) \<Rightarrow>
         sbind (reading id s (ok_or HeadNotMember (SiblingHead_verified ss members h sg))) (\<lambda>sib s.
         Some (Inr (Some \<lparr>rh_head = h, rh_blob = blob, rh_sibling = sib\<rparr>), s)))"

section \<open>Commits\<close>

definition fetch_blob :: "'r remote \<Rightarrow> bytes \<Rightarrow> store \<times> 'r \<Rightarrow> ((client_error + bytes) \<times> store \<times> 'r) option" where
  "fetch_blob R i s =
     sbind (remote_call (r_get_blob R i) s) (\<lambda>b s. reading id s (ok_or (MissingRemote i) b))"

lemma fetch_blob_store:
  "fetch_blob R i s = Some (x, s') \<Longrightarrow> fst s' = fst s"
  by (auto simp: fetch_blob_def remote_call_def reading_def case_prod_beta Let_def elim: sbind.elims)

lemma fetch_blob_total: "fetch_blob R i s \<noteq> None"
  by (cases "fst (r_get_blob R i (snd s))") (auto simp: fetch_blob_def remote_call_def reading_def case_prod_beta Let_def)

text \<open>An id is 32 bytes, so there are finitely many, which bounds every walk.\<close>

definition ids :: "bytes set" where "ids = {i. length i = 32}"

lemma finite_ids [simp]: "finite ids"
  using finite_lists_length_eq [of "UNIV :: u8 set" 32] by (simp add: ids_def)

lemma unvisited_less:
  assumes "finite A" "B \<subseteq> A" "i \<in> A" "i \<notin> S" "insert i S \<subseteq> S'"
  shows "card (B - S') < card (A - S)"
  by (rule psubset_card_mono) (use assms in auto)

lemma unvisited_le:
  assumes "finite A" "B \<subseteq> A" "S \<subseteq> S'"
  shows "card (B - S') \<le> card (A - S)"
  by (rule card_mono) (use assms in auto)

lemma verified_commit_parents: "verified_commit cr keys i b = Inr (c, sg) \<Longrightarrow> set (c_parents c) \<subseteq> ids"
  by (auto simp: verified_commit_def rbind_eq_Inr decode_signed_commit_iff commit_wf_def list_all_iff ids_def)

function fetch_commits_loop :: "crypto \<Rightarrow> 'r remote \<Rightarrow> master_keys \<Rightarrow> (bytes \<times> bytes) list \<Rightarrow> bytes list \<Rightarrow> bytes list
    \<Rightarrow> store \<times> 'r \<Rightarrow> ((client_error + (bytes \<times> bytes) list) \<times> store \<times> 'r) option" where
  "fetch_commits_loop cr R keys fetched seen work s =
     (if work = [] then Some (Inr fetched, s)
      else
        let i = last work; work = butlast work in
        if i \<in> set seen \<or> stored (fst s) i then fetch_commits_loop cr R keys fetched (insort_insert i seen) work s
        else
          sbind (fetch_blob R i s) (\<lambda>blob s.
          sbind (reading CSnap s (verified_commit cr keys i blob)) (\<lambda>(c, _) s.
          fetch_commits_loop cr R keys (fetched @ [(i, blob)]) (insort_insert i seen) (work @ c_parents c) s)))"
  by pat_completeness auto
termination
proof (relation "measures [\<lambda>(_, _, _, _, seen, work, _). card (ids \<union> set work - set seen), \<lambda>(_, _, _, _, _, work, _). length work]", goal_cases)
  case (2 cr R keys fetched seen work s i work')
  have "card (ids \<union> set work' - set (insort_insert i seen)) \<le> card (ids \<union> set work - set seen)"
    by (rule unvisited_le) (use 2 in \<open>auto simp: set_insort_insert dest: in_set_butlastD\<close>)
  with 2 show ?case by auto
next
  case (3 cr R keys fetched seen work s i work' blob s1 x s2 c sg)
  have "set (c_parents c) \<subseteq> ids" by (rule verified_commit_parents) (use 3 in \<open>auto simp: reading_def\<close>)
  then have "card (ids \<union> set (work' @ c_parents c) - set (insort_insert i seen)) < card (ids \<union> set work - set seen)"
    by (intro unvisited_less [where i = i]) (use 3 in \<open>auto simp: set_insort_insert dest: in_set_butlastD\<close>)
  then show ?case by simp
qed auto

declare fetch_commits_loop.simps [simp del]

definition fetch_commits :: "crypto \<Rightarrow> 'r remote \<Rightarrow> master_keys \<Rightarrow> bytes \<Rightarrow> store \<times> 'r \<Rightarrow> ((client_error + nat) \<times> store \<times> 'r) option" where
  "fetch_commits cr R keys cid s =
     sbind (fetch_commits_loop cr R keys [] [] [cid] s) (\<lambda>fetched (st, r).
     Some (Inr (length fetched), snd (put_many fetched st), r))"

section \<open>Trees\<close>

datatype walk = WalkTrees | WithChunks

datatype step = Enter bytes bytes nat | StoreStep bytes bytes

definition file_chunks :: "tree \<Rightarrow> (bytes \<times> bytes) list" where
  "file_chunks t = concat (map (\<lambda>e. case e of EFile _ _ _ _ salt cs \<Rightarrow> map (\<lambda>c. (c, salt)) cs | _ \<Rightarrow> []) t)"

text \<open>\<open>chunks.retain(|(c, _)| seen.insert(*c))\<close>\<close>

fun retain_new :: "bytes list \<Rightarrow> (bytes \<times> bytes) list \<Rightarrow> (bytes \<times> bytes) list \<times> bytes list" where
  "retain_new seen [] = ([], seen)"
| "retain_new seen ((c, salt) # cs) =
     (let (kept, seen') = retain_new (insort_insert c seen) cs
      in (if c \<in> set seen then kept else (c, salt) # kept, seen'))"

fun fetch_chunks :: "crypto \<Rightarrow> 'r remote \<Rightarrow> master_keys \<Rightarrow> ((bytes \<times> bytes) \<times> bool) list \<Rightarrow> nat \<Rightarrow> store \<times> 'r
    \<Rightarrow> ((client_error + nat) \<times> store \<times> 'r) option" where
  "fetch_chunks cr R keys [] n s = Some (Inr n, s)"
| "fetch_chunks cr R keys (((c, salt), have_it) # cs) n s =
     (if have_it then fetch_chunks cr R keys cs n s
      else
        sbind (fetch_blob R c s) (\<lambda>blob s.
        sbind (reading CSnap s (verify_chunk cr keys c salt blob)) (\<lambda>_ (st, r).
        fetch_chunks cr R keys cs (n + 1) (snd (put c blob st), r))))"

text \<open>The tree at an entered step: from the store, or fetched and queued to be stored after its children.\<close>

definition obtain_tree :: "crypto \<Rightarrow> 'r remote \<Rightarrow> master_keys \<Rightarrow> bytes \<Rightarrow> bytes \<Rightarrow> store \<times> 'r
    \<Rightarrow> ((client_error + tree \<times> step list) \<times> store \<times> 'r) option" where
  "obtain_tree cr R keys i salt s =
     (case get (fst s) i of
        Some blob \<Rightarrow> sbind (reading CSnap s (verified_tree cr keys i salt blob)) (\<lambda>t s. Some (Inr (t, []), s))
      | None \<Rightarrow>
          sbind (fetch_blob R i s) (\<lambda>blob s.
          sbind (reading CSnap s (verified_tree cr keys i salt blob)) (\<lambda>t s. Some (Inr (t, [StoreStep i blob]), s))))"

fun entered :: "step \<Rightarrow> bytes set" where
  "entered (Enter i _ _) = {i}"
| "entered (StoreStep _ _) = {}"

lemma finite_entered [simp]: "finite (\<Union> (entered ` set stack))"
  proof (rule finite_UN_I)
  show "finite (entered x)" for x by (cases x) simp_all
qed simp

lemma entered_butlast: "\<Union> (entered ` set (butlast stack)) \<subseteq> \<Union> (entered ` set stack)"
  by (auto dest: in_set_butlastD)

lemma entered_last: "stack \<noteq> [] \<Longrightarrow> last stack = Enter i salt depth \<Longrightarrow> i \<in> \<Union> (entered ` set stack)"
  by (rule UN_I [OF last_in_set]) simp_all

lemma verified_tree_subtrees: "verified_tree cr keys i salt b = Inr t \<Longrightarrow> fst ` set (subtrees t) \<subseteq> ids"
  by (fastforce simp: verified_tree_def rbind_eq_Inr decode_tree_iff tree_wf_def list_all_iff subtrees_def ids_def
      split: tree_entry.splits)

lemma obtain_tree_ok:
  assumes "obtain_tree cr R keys i salt s = Some (Inr (t, pend), s')"
  shows "fst s' = fst s \<and> (\<exists>b. verified_tree cr keys i salt b = Inr t
     \<and> (get (fst s) i = Some b \<and> pend = [] \<or> get (fst s) i = None \<and> pend = [StoreStep i b]))"
  using assms fetch_blob_store
  by (fastforce simp: obtain_tree_def sbind_eq_ok reading_ok split: option.splits)

lemma obtain_tree_store: "obtain_tree cr R keys i salt s = Some (x, s') \<Longrightarrow> fst s' = fst s"
  by (auto simp: obtain_tree_def reading_def split: option.splits elim!: sbind_cases dest!: fetch_blob_store)

lemma entered_subtrees: "(\<Union>a\<in>S. entered (case a of (j, sl) \<Rightarrow> Enter j sl d)) = fst ` S"
  by force

lemma obtain_tree_entered:
  assumes "obtain_tree cr R keys i salt s = Some (Inr (t, pend), s')"
  shows "\<Union> (entered ` set pend) = {} \<and> fst ` set (subtrees t) \<subseteq> ids"
  using obtain_tree_ok [OF assms] verified_tree_subtrees by fastforce

lemma set_retain_new: "set (snd (retain_new seen cs)) = set seen \<union> fst ` set cs"
  by (induction seen cs rule: retain_new.induct) (auto simp: set_insort_insert case_prod_beta Let_def)

function fetch_tree_loop :: "crypto \<Rightarrow> 'r remote \<Rightarrow> master_keys \<Rightarrow> walk \<Rightarrow> nat \<Rightarrow> bytes list \<Rightarrow> step list
    \<Rightarrow> store \<times> 'r \<Rightarrow> ((client_error + nat) \<times> store \<times> 'r) option" where
  "fetch_tree_loop cr R keys walk n seen stack s =
     (if stack = [] then Some (Inr n, s)
      else case last stack of
        StoreStep i blob \<Rightarrow>
          fetch_tree_loop cr R keys walk (n + 1) seen (butlast stack) (snd (put i blob (fst s)), snd s)
      | Enter i salt depth \<Rightarrow>
          if MAX_TREE_DEPTH \<le> depth then Some (Inl (CSnap DepthExceeded), s)
          else if i \<in> set seen \<or> walk = WalkTrees \<and> stored (fst s) i
          then fetch_tree_loop cr R keys walk n (insort_insert i seen) (butlast stack) s
          else
            sbind (obtain_tree cr R keys i salt s) (\<lambda>(t, pend) s.
            let (chunks, seen') = retain_new (insort_insert i seen) (if walk = WithChunks then file_chunks t else [])
            in sbind (fetch_chunks cr R keys (zip chunks (has (fst s) (map fst chunks))) n s) (\<lambda>n s.
               fetch_tree_loop cr R keys walk n seen'
                 (butlast stack @ pend @ map (\<lambda>(j, sl). Enter j sl (depth + 1)) (subtrees t)) s)))"
  by pat_completeness auto
termination
proof (relation "measures [\<lambda>(_, _, _, _, _, seen, stack, _). card (ids \<union> \<Union> (entered ` set stack) - set seen),
    \<lambda>(_, _, _, _, _, _, stack, _). length stack]", goal_cases)
  case (2 cr R keys walk n seen stack s i salt depth)
  have "card (ids \<union> \<Union> (entered ` set (butlast stack)) - set (insort_insert i seen)) \<le> card (ids \<union> \<Union> (entered ` set stack) - set seen)"
    by (rule unvisited_le) (use entered_butlast in \<open>auto simp: set_insort_insert\<close>)
  with 2 show ?case by auto
next
  case (3 cr R keys walk n seen stack s i salt depth x s1 t pend s2 y chunks seen' n' s3)
  let ?work = "butlast stack @ pend @ map (\<lambda>(j, sl). Enter j sl (depth + 1)) (subtrees t)"
  have "\<Union> (entered ` set ?work) \<subseteq> ids \<union> \<Union> (entered ` set stack)"
    using obtain_tree_entered [of cr R keys i salt s t pend s1, unfolded 3(6)] 3(5) entered_butlast [of stack]
    by (simp add: entered_subtrees le_supI1 le_supI2)
  moreover have "insert i (set seen) \<subseteq> set seen'"
    using 3(7,8) set_retain_new [of "insort_insert i seen"] by (metis Un_upper1 set_insort_insert snd_conv)
  ultimately have "card (ids \<union> \<Union> (entered ` set ?work) - set seen') < card (ids \<union> \<Union> (entered ` set stack) - set seen)"
    using entered_last [OF 3(1,2)] 3(4) by (intro unvisited_less [where i = i]) simp_all
  then show ?case by simp
next
  case (4 cr R keys walk n seen stack s i blob)
  have "card (ids \<union> \<Union> (entered ` set (butlast stack)) - set seen) \<le> card (ids \<union> \<Union> (entered ` set stack) - set seen)"
    by (rule unvisited_le) (use entered_butlast in auto)
  with 4 show ?case by auto
qed auto

declare fetch_tree_loop.simps [simp del]

definition fetch_tree :: "crypto \<Rightarrow> 'r remote \<Rightarrow> master_keys \<Rightarrow> bytes \<Rightarrow> bytes \<Rightarrow> walk \<Rightarrow> store \<times> 'r
    \<Rightarrow> ((client_error + nat) \<times> store \<times> 'r) option" where
  "fetch_tree cr R keys root salt walk s = fetch_tree_loop cr R keys walk 0 [] [Enter root salt 0] s"

definition fetch_closure :: "crypto \<Rightarrow> 'r remote \<Rightarrow> master_keys \<Rightarrow> bytes \<Rightarrow> store \<times> 'r \<Rightarrow> ((client_error + nat) \<times> store \<times> 'r) option" where
  "fetch_closure cr R keys cid s =
     sbind (fetch_commits cr R keys cid s) (\<lambda>commits s.
     sbind (reading CSnap s (open_signed_commit cr keys cid (fst s))) (\<lambda>(c, _) s.
     sbind (fetch_tree cr R keys (root_tree c) (root_salt c) WithChunks s) (\<lambda>content s.
     Some (Inr (commits + content), s))))"

section \<open>What a store gains\<close>

text \<open>Nothing stored is lost or replaced, and what is new satisfies a predicate.\<close>

definition gains :: "(bytes \<Rightarrow> bytes \<Rightarrow> bool) \<Rightarrow> store \<Rightarrow> store \<Rightarrow> bool" where
  "gains P st st' \<longleftrightarrow> (\<forall>x b. get st x = Some b \<longrightarrow> get st' x = Some b)
     \<and> (\<forall>x b. get st x = None \<longrightarrow> get st' x = Some b \<longrightarrow> P x b)"

lemma gains_refl [simp]: "gains P st st"
  by (simp add: gains_def)

lemma gains_trans: "gains P st st1 \<Longrightarrow> gains P st1 st2 \<Longrightarrow> gains P st st2"
  unfolding gains_def by (metis option.exhaust)

lemma gains_mono: "gains P st st' \<Longrightarrow> (\<And>x b. P x b \<Longrightarrow> Q x b) \<Longrightarrow> gains Q st st'"
  unfolding gains_def by blast

lemma gains_keeps: "gains P st st' \<Longrightarrow> get st x = Some b \<Longrightarrow> get st' x = Some b"
  by (simp add: gains_def)

lemma gains_put: "P i b \<Longrightarrow> gains P st (snd (put i b st))"
  using get_put_object [of "(i, b)" st] by (simp add: gains_def put_object_def)

lemma get_put: "get (snd (put i b st)) x = (if x = i \<and> get st x = None then Some b else get st x)"
  using get_put_object [of "(i, b)" st x] by (simp only: put_object_def fst_conv snd_conv)

lemma stored_iff: "stored st i \<longleftrightarrow> get st i \<noteq> None"
  by (auto simp: stored_def has_def get_def)

fun verified_object :: "crypto \<Rightarrow> master_keys \<Rightarrow> obj_type \<Rightarrow> bytes \<Rightarrow> bytes \<Rightarrow> bool" where
  "verified_object cr keys TTree i b \<longleftrightarrow> (\<exists>salt t. verified_tree cr keys i salt b = Inr t)"
| "verified_object cr keys TChunk i b \<longleftrightarrow> (\<exists>salt. verify_chunk cr keys i salt b = Inr ())"
| "verified_object cr keys TCommit i b \<longleftrightarrow> (\<exists>c sg. verified_commit cr keys i b = Inr (c, sg))"
| "verified_object cr keys _ i b \<longleftrightarrow> False"

definition verified :: "crypto \<Rightarrow> master_keys \<Rightarrow> bytes \<Rightarrow> bytes \<Rightarrow> bool" where
  "verified cr keys i b \<longleftrightarrow> (\<exists>t. verified_object cr keys t i b)"

definition content :: "crypto \<Rightarrow> master_keys \<Rightarrow> bytes \<Rightarrow> bytes \<Rightarrow> bool" where
  "content cr keys i b \<longleftrightarrow> verified_object cr keys TTree i b \<or> verified_object cr keys TChunk i b"

section \<open>Chunks\<close>

lemma fetch_chunks_gains:
  "fetch_chunks cr R keys cs n s = Some (x, s') \<Longrightarrow>
     gains (\<lambda>i b. i \<in> fst ` fst ` set cs \<and> verified_object cr keys TChunk i b) (fst s) (fst s')"
proof (induction cr R keys cs n s arbitrary: x s' rule: fetch_chunks.induct)
  case (2 cr R keys c salt have_it cs n s)
  show ?case
  proof (cases have_it)
    case True
    then show ?thesis using "2.IH"(1) [OF True] "2.prems" by (auto elim!: gains_mono)
  next
    case False
    with "2.prems" have "sbind (fetch_blob R c s) (\<lambda>blob s. sbind (reading CSnap s (verify_chunk cr keys c salt blob))
        (\<lambda>_ (st, r). fetch_chunks cr R keys cs (n + 1) (snd (put c blob st), r))) = Some (x, s')" by simp
    then show ?thesis
    proof (cases rule: sbind_cases)
      case (err e)
      then show ?thesis using fetch_blob_store by fastforce
    next
      case (ok blob s1)
      note st1 = fetch_blob_store [OF ok(1)]
      from ok(2) show ?thesis
      proof (cases rule: sbind_cases)
        case (err e)
        then show ?thesis using st1 by (simp add: reading_def)
      next
        case inner: (ok u s2)
        then have v: "verify_chunk cr keys c salt blob = Inr ()" and s2: "s2 = s1" by (simp_all add: reading_ok)
        have "gains (\<lambda>i b. i \<in> fst ` fst ` set cs \<and> verified_object cr keys TChunk i b) (snd (put c blob (fst s1))) (fst s')"
          using "2.IH"(2) [OF False ok(1) inner(1), of "fst s2" "snd s2"] inner(2) by (simp add: s2 case_prod_beta)
        then have "gains (\<lambda>i b. i \<in> fst ` fst ` set (((c, salt), have_it) # cs) \<and> verified_object cr keys TChunk i b)
            (snd (put c blob (fst s1))) (fst s')" by (rule gains_mono) auto
        moreover have "gains (\<lambda>i b. i \<in> fst ` fst ` set (((c, salt), have_it) # cs) \<and> verified_object cr keys TChunk i b)
            (fst s1) (snd (put c blob (fst s1)))" using v by (intro gains_put) auto
        ultimately show ?thesis unfolding st1 [symmetric] by (rule gains_trans [rotated])
      qed
    qed
  qed
qed simp

lemma fetch_chunks_stored:
  "fetch_chunks cr R keys cs n s = Some (Inr n', s') \<Longrightarrow> \<forall>e \<in> set cs. snd e \<longrightarrow> get (fst s) (fst (fst e)) \<noteq> None \<Longrightarrow>
     \<forall>e \<in> set cs. get (fst s') (fst (fst e)) \<noteq> None"
proof (induction cr R keys cs n s arbitrary: n' s' rule: fetch_chunks.induct)
  case (2 cr R keys c salt have_it cs n s)
  have kept: "get (fst s1) c \<noteq> None \<Longrightarrow> fetch_chunks cr R keys cs m s1 = Some (Inr n', s') \<Longrightarrow> get (fst s') c \<noteq> None" for m s1
    by (drule fetch_chunks_gains) (auto dest: gains_keeps)
  show ?case
  proof (cases have_it)
    case True
    then have f: "fetch_chunks cr R keys cs n s = Some (Inr n', s')" "get (fst s) c \<noteq> None" using "2.prems" by simp_all
    then show ?thesis using "2.IH"(1) [OF True f(1)] "2.prems"(2) kept by simp
  next
    case False
    with "2.prems"(1) obtain blob s1 where b: "fetch_blob R c s = Some (Inr blob, s1)" "verify_chunk cr keys c salt blob = Inr ()"
      "fetch_chunks cr R keys cs (n + 1) (snd (put c blob (fst s1)), snd s1) = Some (Inr n', s')"
      by (auto simp: sbind_eq_ok reading_ok case_prod_beta)
    let ?s2 = "(snd (put c blob (fst s1)), snd s1)"
    have st1: "fst s1 = fst s" by (rule fetch_blob_store [OF b(1)])
    have "\<forall>e \<in> set cs. snd e \<longrightarrow> get (fst ?s2) (fst (fst e)) \<noteq> None" using "2.prems"(2) by (simp add: st1 get_put)
    then have "\<forall>e \<in> set cs. get (fst s') (fst (fst e)) \<noteq> None"
      using "2.IH"(2) [OF False b(1), of "()" s1 "fst s1" "snd s1" n' s'] b(2,3) by (simp add: reading_ok)
    then show ?thesis using kept [OF _ b(3)] by (simp add: get_put)
  qed
qed simp

section \<open>The tree walk\<close>

lemma fetch_chunks_content:
  "fetch_chunks cr R keys cs n s = Some (x, s') \<Longrightarrow> gains (content cr keys) (fst s) (fst s')"
  by (drule fetch_chunks_gains, erule gains_mono) (simp add: content_def)

lemma fetch_tree_loop_cases:
  assumes "fetch_tree_loop cr R keys walk n seen stack s = Some (x, s')"
  obtains (finished) "stack = []" "x = Inr n" "s' = s"
  | (store) i blob where "stack \<noteq> []" "last stack = StoreStep i blob"
      "fetch_tree_loop cr R keys walk (n + 1) seen (butlast stack) (snd (put i blob (fst s)), snd s) = Some (x, s')"
  | (deep) i salt depth where "stack \<noteq> []" "last stack = Enter i salt depth" "x = Inl (CSnap DepthExceeded)" "s' = s"
  | (skip) i salt depth where "stack \<noteq> []" "last stack = Enter i salt depth" "\<not> MAX_TREE_DEPTH \<le> depth"
      "i \<in> set seen \<or> walk = WalkTrees \<and> get (fst s) i \<noteq> None"
      "fetch_tree_loop cr R keys walk n (insort_insert i seen) (butlast stack) s = Some (x, s')"
  | (no_tree) e where "fst s' = fst s" "x = Inl e"
  | (no_chunk) i salt depth t pend s1 chunks e where "stack \<noteq> []" "last stack = Enter i salt depth"
      "obtain_tree cr R keys i salt s = Some (Inr (t, pend), s1)"
      "fetch_chunks cr R keys (zip chunks (has (fst s1) (map fst chunks))) n s1 = Some (Inl e, s')" "x = Inl e"
  | (walk) i salt depth t pend s1 chunks seen' n1 s2 where "stack \<noteq> []" "last stack = Enter i salt depth" "\<not> MAX_TREE_DEPTH \<le> depth"
      "\<not> (i \<in> set seen \<or> walk = WalkTrees \<and> get (fst s) i \<noteq> None)"
      "obtain_tree cr R keys i salt s = Some (Inr (t, pend), s1)"
      "retain_new (insort_insert i seen) (if walk = WithChunks then file_chunks t else []) = (chunks, seen')"
      "fetch_chunks cr R keys (zip chunks (has (fst s1) (map fst chunks))) n s1 = Some (Inr n1, s2)"
      "fetch_tree_loop cr R keys walk n1 seen' (butlast stack @ pend @ map (\<lambda>(j, sl). Enter j sl (depth + 1)) (subtrees t)) s2
         = Some (x, s')"
proof (cases "stack = []")
  case True
  then show thesis using assms finished by (simp add: fetch_tree_loop.simps)
next
  case False
  show thesis
  proof (cases "last stack")
    case (StoreStep i blob)
    then show thesis using assms False store by (subst (asm) fetch_tree_loop.simps) simp
  next
    case (Enter i salt depth)
    consider "MAX_TREE_DEPTH \<le> depth" | "\<not> MAX_TREE_DEPTH \<le> depth" "i \<in> set seen \<or> walk = WalkTrees \<and> get (fst s) i \<noteq> None"
      | (go) "\<not> MAX_TREE_DEPTH \<le> depth" "\<not> (i \<in> set seen \<or> walk = WalkTrees \<and> get (fst s) i \<noteq> None)" by blast
    then show thesis
    proof cases
      case go
      let ?cs = "\<lambda>t. if walk = WithChunks then file_chunks t else []"
      have "sbind (obtain_tree cr R keys i salt s) (\<lambda>(t, pend) s.
          let (chunks, seen') = retain_new (insort_insert i seen) (?cs t)
          in sbind (fetch_chunks cr R keys (zip chunks (has (fst s) (map fst chunks))) n s) (\<lambda>n s.
             fetch_tree_loop cr R keys walk n seen'
               (butlast stack @ pend @ map (\<lambda>(j, sl). Enter j sl (depth + 1)) (subtrees t)) s)) = Some (x, s')"
        using assms [unfolded fetch_tree_loop.simps [of cr R keys walk n seen stack s]] False Enter go
        by (auto simp: stored_iff split: if_splits)
      then show thesis
      proof (cases rule: sbind_cases)
        case (err e)
        then show thesis using no_tree obtain_tree_store by blast
      next
        case (ok tp s1)
        obtain t pend where tp: "tp = (t, pend)" by (cases tp)
        obtain chunks seen' where ch: "retain_new (insort_insert i seen) (?cs t) = (chunks, seen')" by fastforce
        from ok(2) have "sbind (fetch_chunks cr R keys (zip chunks (has (fst s1) (map fst chunks))) n s1) (\<lambda>n s.
            fetch_tree_loop cr R keys walk n seen' (butlast stack @ pend @ map (\<lambda>(j, sl). Enter j sl (depth + 1)) (subtrees t)) s)
            = Some (x, s')" by (simp add: tp ch)
        then show thesis
          by (cases rule: sbind_cases) (use no_chunk walk False Enter go ok(1) tp ch in metis)+
      qed
    next
      case 1
      then show thesis using assms False Enter deep by (subst (asm) fetch_tree_loop.simps) simp
    next
      case 2
      then show thesis using assms False Enter skip by (subst (asm) fetch_tree_loop.simps) (simp add: stored_iff)
    qed
  qed
qed

text \<open>Every tree queued to be stored has been verified.\<close>

definition queued_ok :: "crypto \<Rightarrow> master_keys \<Rightarrow> step list \<Rightarrow> bool" where
  "queued_ok cr keys stack \<longleftrightarrow> (\<forall>i b. StoreStep i b \<in> set stack \<longrightarrow> verified_object cr keys TTree i b)"

lemma queued_ok_butlast: "queued_ok cr keys stack \<Longrightarrow> queued_ok cr keys (butlast stack)"
  by (auto simp: queued_ok_def dest: in_set_butlastD)

lemma queued_ok_last: "queued_ok cr keys stack \<Longrightarrow> stack \<noteq> [] \<Longrightarrow> last stack = StoreStep i b \<Longrightarrow> verified_object cr keys TTree i b"
  unfolding queued_ok_def by (metis last_in_set)

lemma queued_ok_walk:
  assumes "queued_ok cr keys stack" "obtain_tree cr R keys i salt s = Some (Inr (t, pend), s1)"
  shows "queued_ok cr keys (butlast stack @ pend @ map (\<lambda>(j, sl). Enter j sl d) ts)"
  using queued_ok_butlast [OF assms(1)] obtain_tree_ok [OF assms(2)] by (auto simp: queued_ok_def; blast)

lemma fetch_tree_loop_gains:
  "fetch_tree_loop cr R keys walk n seen stack s = Some (x, s') \<Longrightarrow> queued_ok cr keys stack \<Longrightarrow>
     gains (content cr keys) (fst s) (fst s')"
proof (induction cr R keys walk n seen stack s rule: fetch_tree_loop.induct)
  case (1 cr R keys walk n seen stack s)
  note q = queued_ok_butlast [OF "1.prems"(2)]
  from "1.prems"(1) show ?case
  proof (cases rule: fetch_tree_loop_cases)
    case (store i blob)
    from "1.IH"(3) [OF store(1,2,3) q] queued_ok_last [OF "1.prems"(2) store(1,2)]
    show ?thesis by (auto simp: content_def intro: gains_trans [OF gains_put])
  next
    case (skip i salt depth)
    from "1.IH"(1) [OF skip(1,2,3) _ skip(5) q] skip(4) show ?thesis by (simp add: stored_iff)
  next
    case (no_chunk i salt depth t pend s1 chunks e)
    show ?thesis using fetch_chunks_content [OF no_chunk(4)] by (simp only: obtain_tree_store [OF no_chunk(3)])
  next
    case (walk i salt depth t pend s1 chunks seen' n1 s2)
    have "gains (content cr keys) (fst s2) (fst s')"
      using "1.IH"(2) [OF walk(1,2,3) _ walk(5) refl walk(6) [symmetric] refl walk(7,8) queued_ok_walk [OF "1.prems"(2) walk(5)]]
        walk(4) by (simp add: stored_iff)
    moreover have "gains (content cr keys) (fst s) (fst s2)"
      using fetch_chunks_content [OF walk(7)] by (simp only: obtain_tree_store [OF walk(5)])
    ultimately show ?thesis by (rule gains_trans [rotated])
  qed simp_all
qed

text \<open>Queued trees are not stored yet, are all different, and have been seen.\<close>

definition queue :: "step list \<Rightarrow> bytes list" where
  "queue stack = concat (map (\<lambda>x. case x of StoreStep i _ \<Rightarrow> [i] | Enter _ _ _ \<Rightarrow> []) stack)"

definition queue_ok :: "store \<Rightarrow> bytes list \<Rightarrow> step list \<Rightarrow> bool" where
  "queue_ok st seen stack \<longleftrightarrow> distinct (queue stack) \<and> (\<forall>i \<in> set (queue stack). i \<in> set seen \<and> get st i = None)"

lemma queue_append [simp]: "queue (xs @ ys) = queue xs @ queue ys"
  by (simp add: queue_def)

lemma queue_enters [simp]: "queue (map (\<lambda>(j, sl). Enter j sl d) ts) = []"
  by (induction ts) (auto simp: queue_def)

lemma queue_single [simp]: "queue [] = []" "queue [StoreStep i b] = [i]" "queue [Enter i salt d] = []"
  by (simp_all add: queue_def)

lemma queue_last: "stack \<noteq> [] \<Longrightarrow> queue stack = queue (butlast stack) @ queue [last stack]"
  by (metis append_butlast_last_id queue_append)

lemma queue_member: "StoreStep i b \<in> set stack \<Longrightarrow> i \<in> set (queue stack)"
  by (force simp: queue_def)

lemma fst_file_chunks: "fst ` set (file_chunks t) = set (chunks_of t)"
  by (force simp: file_chunks_def chunks_of_def split: tree_entry.splits)

lemma fst_retain_new: "fst ` set (fst (retain_new seen cs)) = fst ` set cs - set seen"
  by (induction seen cs rule: retain_new.induct) (auto simp: set_insort_insert case_prod_beta Let_def)

lemma fetch_has_chunks:
  assumes "fetch_chunks cr R keys (zip chunks (has (fst s) (map fst chunks))) n s = Some (Inr n', s')"
  shows "\<forall>c \<in> fst ` set chunks. get (fst s') c \<noteq> None"
    and "x \<notin> fst ` set chunks \<Longrightarrow> get (fst s') x = get (fst s) x"
proof -
  let ?cs = "zip chunks (has (fst s) (map fst chunks))"
  have cs: "?cs = map (\<lambda>c. (c, get (fst s) (fst c) \<noteq> None)) chunks"
    by (induction chunks) (simp_all add: has_def get_def)
  have "fst ` set ?cs = set chunks" by (simp add: cs image_image)
  then show "\<forall>c \<in> fst ` set chunks. get (fst s') c \<noteq> None"
    using fetch_chunks_stored [OF assms] by (simp add: cs)
  show "get (fst s') x = get (fst s) x" if "x \<notin> fst ` set chunks"
    using fetch_chunks_gains [OF assms] that \<open>fst ` set ?cs = set chunks\<close>
    by (cases "get (fst s) x"; cases "get (fst s') x") (auto simp: gains_def)
qed

lemma fetch_tree_loop_closed:
  "fetch_tree_loop cr R keys WithChunks n seen stack s = Some (Inr n', s') \<Longrightarrow> queued_ok cr keys stack \<Longrightarrow>
     queue_ok (fst s) seen stack \<Longrightarrow> downward cr keys (fst s') P \<Longrightarrow> (\<And>i. i \<in> \<Union> (entered ` set stack) \<Longrightarrow> P i) \<Longrightarrow>
   (\<forall>i b. StoreStep i b \<in> set stack \<longrightarrow> get (fst s') i = Some b)
   \<and> (\<exists>S. set seen \<union> \<Union> (entered ` set stack) \<subseteq> S \<and> (\<forall>x \<in> S - set seen. get (fst s') x \<noteq> None)
        \<and> closed_in cr keys (fst s') True ((S - set seen) \<inter> clear cr keys (fst s') P) S)"
proof (induction cr R keys WithChunks n seen stack s arbitrary: P rule: fetch_tree_loop.induct)
  case (1 cr R keys n seen stack s)
  note q = queued_ok_butlast [OF "1.prems"(2)]
  from "1.prems"(1) show ?case
  proof (cases rule: fetch_tree_loop_cases)
    case finished
    then show ?thesis by auto
  next
    case (store i blob)
    have st: "set stack = insert (StoreStep i blob) (set (butlast stack))" by (metis set_work store(1,2))
    have i: "get (fst s) i = None" "i \<notin> set (queue (butlast stack))"
      using "1.prems"(3) queue_last [OF store(1)] store(2) by (simp_all add: queue_ok_def)
    then have "queue_ok (snd (put i blob (fst s))) seen (butlast stack)"
      using "1.prems"(3) queue_last [OF store(1)] store(2) by (auto simp: queue_ok_def get_put)
    then have ih: "(\<forall>i b. StoreStep i b \<in> set (butlast stack) \<longrightarrow> get (fst s') i = Some b)
       \<and> (\<exists>S. set seen \<union> \<Union> (entered ` set (butlast stack)) \<subseteq> S \<and> (\<forall>x \<in> S - set seen. get (fst s') x \<noteq> None)
        \<and> closed_in cr keys (fst s') True ((S - set seen) \<inter> clear cr keys (fst s') P) S)"
      using "1.hyps"(3) [OF store(1,2) store(3) q _ "1.prems"(4,5)] unfolding st by simp
    have "get (fst s') i = Some blob"
      using gains_keeps [OF fetch_tree_loop_gains [OF store(3) q]] i(1) by (simp add: get_put)
    with ih show ?thesis unfolding st by auto
  next
    case (skip i salt depth)
    have st: "set stack = insert (Enter i salt depth) (set (butlast stack))" by (metis set_work skip(1,2))
    have seen: "set (insort_insert i seen) = set seen" using skip(4) by (auto simp: set_insort_insert)
    have "queue_ok (fst s) (insort_insert i seen) (butlast stack)"
      using "1.prems"(3) queue_last [OF skip(1)] skip(2) by (simp add: queue_ok_def seen)
    note ih = "1.hyps"(1) [OF skip(1,2,3) _ skip(5) q this "1.prems"(4,5), unfolded seen st]
    have "i \<in> set seen" using skip(4) by simp
    with ih show ?thesis unfolding st by (simp add: stored_iff) blast
  next
    case (walk i salt depth t pend s1 chunks seen' n1 s2)
    let ?stack = "butlast stack @ pend @ map (\<lambda>(j, sl). Enter j sl (depth + 1)) (subtrees t)"
    from obtain_tree_ok [OF walk(5)] obtain b where st1: "fst s1 = fst s" and b: "verified_tree cr keys i salt b = Inr t"
      "get (fst s) i = Some b \<and> pend = [] \<or> get (fst s) i = None \<and> pend = [StoreStep i b]" by blast
    have seen': "set seen' = insert i (set seen) \<union> set (chunks_of t)"
      using walk(6) set_retain_new [of "insort_insert i seen" "file_chunks t"] by (simp add: set_insort_insert fst_file_chunks)
    have ch: "fst ` set chunks = set (chunks_of t) - insert i (set seen)"
      using walk(6) fst_retain_new [of "insort_insert i seen" "file_chunks t"] by (simp add: set_insort_insert fst_file_chunks)
    note old = fetch_has_chunks(2) [OF walk(7), unfolded st1 ch]
    have qs: "queue stack = queue (butlast stack)" using queue_last [OF walk(1)] walk(2) by simp
    have qok: "queue_ok (fst s2) seen' ?stack"
      using "1.prems"(3) walk(4) b(2) old unfolding queue_ok_def qs by (auto simp: seen')
    note ih = "1.hyps"(2) [OF walk(1,2,3) _ walk(5) refl walk(6) [symmetric] refl walk(7,8) queued_ok_walk [OF "1.prems"(2) walk(5)] qok]
    have later: "get (fst s') i = Some b" if "StoreStep i b \<in> set ?stack" for i b
      using ih [of "\<lambda>_. True"] walk(4) that by (auto simp: stored_iff downward_def)
    have keep: "get (fst s2) x = Some y \<Longrightarrow> get (fst s') x = Some y" for x y
      by (rule gains_keeps [OF fetch_tree_loop_gains [OF walk(8) queued_ok_walk [OF "1.prems"(2) walk(5)]]])
    have i: "get (fst s') i = Some b" using b(2) later old keep by auto
    then have t: "tree_at cr keys (fst s') i t" using b(1) by (rule verified_tree_at)
    have P: "P i" using "1.prems"(5) set_work [OF walk(1)] walk(2) by auto
    have "P x" if "x \<in> \<Union> (entered ` set ?stack)" for x
    proof -
      from that consider "x \<in> \<Union> (entered ` set (butlast stack))" | "x \<in> fst ` set (subtrees t)"
        using b(2) by (auto simp: entered_subtrees)
      then show ?thesis using "1.prems"(5) set_work [OF walk(1)] downwardD [OF "1.prems"(4) P t] by cases auto
    qed
    with ih [OF _ "1.prems"(4)] walk(4) obtain S where
      S: "set seen' \<union> \<Union> (entered ` set ?stack) \<subseteq> S" "\<forall>x \<in> S - set seen'. get (fst s') x \<noteq> None"
        "closed_in cr keys (fst s') True ((S - set seen') \<inter> clear cr keys (fst s') P) S" by (auto simp: stored_iff)
    have subs: "fst ` set (subtrees t) \<subseteq> S" using S(1) by (simp add: entered_subtrees)
    have "closed_in cr keys (fst s') True {i} S"
      by (rule closed_in_one [OF t]) (use S(1) seen' subs in force)+
    moreover have "set (chunks_of t) \<inter> clear cr keys (fst s') P = {}" using P t by (auto simp: clear_def listed_in_def)
    then have "(S - set seen) \<inter> clear cr keys (fst s') P \<subseteq> {i} \<union> (S - set seen') \<inter> clear cr keys (fst s') P" using seen' by blast
    ultimately have cl: "closed_in cr keys (fst s') True ((S - set seen) \<inter> clear cr keys (fst s') P) S"
      using S(3) closed_in_parts by metis
    have "get (fst s') x \<noteq> None" if "x \<in> S - set seen" for x
    proof (cases "x \<in> set (chunks_of t) - insert i (set seen)")
      case True
      then show ?thesis using fetch_has_chunks(1) [OF walk(7), unfolded ch] keep by fastforce
    next
      case False
      then show ?thesis using that S(2) i seen' by auto
    qed
    moreover have "set seen \<union> \<Union> (entered ` set stack) \<subseteq> S"
      using S(1) seen' set_work [OF walk(1)] walk(2) by auto
    moreover have "StoreStep j c \<in> set stack \<Longrightarrow> StoreStep j c \<in> set ?stack" for j c
      using set_work [OF walk(1)] walk(2) by auto
    ultimately show ?thesis using cl later by blast
  qed simp_all
qed


section \<open>The commit walk\<close>

text \<open>A stored commit has its parents stored.\<close>

definition commits_closed :: "crypto \<Rightarrow> master_keys \<Rightarrow> store \<Rightarrow> bool" where
  "commits_closed cr keys st \<longleftrightarrow> (\<forall>i c. commit_at cr keys st i c \<longrightarrow> (\<forall>p \<in> set (c_parents c). get st p \<noteq> None))"

lemma fetch_commits_loop_cases:
  assumes "fetch_commits_loop cr R keys fetched seen work s = Some (x, s')"
  obtains (finished) "work = []" "x = Inr fetched" "s' = s"
  | (skip) "work \<noteq> []" "last work \<in> set seen \<or> stored (fst s) (last work)"
      "fetch_commits_loop cr R keys fetched (insort_insert (last work) seen) (butlast work) s = Some (x, s')"
  | (failed) e where "x = Inl e" "fst s' = fst s"
  | (walk) blob s1 c sg where "work \<noteq> []" "\<not> (last work \<in> set seen \<or> stored (fst s) (last work))"
      "fetch_blob R (last work) s = Some (Inr blob, s1)" "verified_commit cr keys (last work) blob = Inr (c, sg)"
      "fetch_commits_loop cr R keys (fetched @ [(last work, blob)]) (insort_insert (last work) seen) (butlast work @ c_parents c) s1
         = Some (x, s')"
proof (cases "work = []")
  case True
  then show thesis using assms finished by (simp add: fetch_commits_loop.simps)
next
  case w: False
  note step = assms [unfolded fetch_commits_loop.simps [of cr R keys fetched seen work s]]
  show thesis
  proof (cases "last work \<in> set seen \<or> stored (fst s) (last work)")
    case True
    then show thesis using step w skip by auto
  next
    case False
    with step w have "sbind (fetch_blob R (last work) s) (\<lambda>blob s. sbind (reading CSnap s (verified_commit cr keys (last work) blob))
        (\<lambda>(c, _) s. fetch_commits_loop cr R keys (fetched @ [(last work, blob)]) (insort_insert (last work) seen)
           (butlast work @ c_parents c) s)) = Some (x, s')" by (auto simp: Let_def split: if_splits)
    then show thesis
    proof (cases rule: sbind_cases)
      case (err e)
      then show thesis using failed by (auto dest: fetch_blob_store)
    next
      case (ok blob s1)
      from ok(2) show thesis
      proof (cases rule: sbind_cases)
        case (err e)
        then show thesis using failed fetch_blob_store [OF ok(1)] by (simp add: reading_def)
      next
        case inner: (ok cs s2)
        then show thesis using walk [OF w False ok(1), of "fst cs" "snd cs"] by (simp add: reading_ok case_prod_beta)
      qed
    qed
  qed
qed

lemma fetch_commits_loop_store:
  "fetch_commits_loop cr R keys fetched seen work s = Some (x, s') \<Longrightarrow> fst s' = fst s"
proof (induction cr R keys fetched seen work s rule: fetch_commits_loop.induct)
  case (1 cr R keys fetched seen work s)
  from "1.prems" show ?case
  proof (cases rule: fetch_commits_loop_cases)
    case (walk blob s1 c sg)
    then show ?thesis
      using "1.IH"(2) [OF walk(1) refl refl walk(2,3), of "(c, sg)" s1 c sg s1] fetch_blob_store by (simp add: reading_ok)
  qed (use "1.IH"(1) in simp_all)
qed

lemma fetch_commits_loop_closed:
  "fetch_commits_loop cr R keys fetched seen work s = Some (Inr out, s') \<Longrightarrow> \<exists>G S. out = fetched @ G
     \<and> distinct (map fst G) \<and> set seen \<union> set work \<subseteq> S \<and> (\<forall>x \<in> S - set seen. stored (fst s) x \<or> x \<in> fst ` set G)
     \<and> (\<forall>(i, b) \<in> set G. i \<notin> set seen \<and> \<not> stored (fst s) i
          \<and> (\<exists>c sg. verified_commit cr keys i b = Inr (c, sg) \<and> set (c_parents c) \<subseteq> S))"
proof (induction cr R keys fetched seen work s rule: fetch_commits_loop.induct)
  case (1 cr R keys fetched seen work s)
  from "1.prems" show ?case
  proof (cases rule: fetch_commits_loop_cases)
    case finished
    then show ?thesis by (intro exI [of _ "[]"] exI [of _ "set seen"]) simp
  next
    case skip
    from "1.IH"(1) [OF skip(1) refl refl skip(2,3)] obtain G S where G: "out = fetched @ G" "distinct (map fst G)"
      "insert (last work) (set seen) \<union> set (butlast work) \<subseteq> S"
      "\<forall>x \<in> S - insert (last work) (set seen). stored (fst s) x \<or> x \<in> fst ` set G"
      "\<forall>(i, b) \<in> set G. i \<notin> insert (last work) (set seen) \<and> \<not> stored (fst s) i
          \<and> (\<exists>c sg. verified_commit cr keys i b = Inr (c, sg) \<and> set (c_parents c) \<subseteq> S)"
      unfolding set_insort_insert by blast
    then show ?thesis using skip(2) set_work [OF skip(1)] by (intro exI [of _ G] exI [of _ S]) auto
  next
    case (walk blob s1 c sg)
    let ?i = "last work"
    have st: "fst s1 = fst s" using walk(3) by (rule fetch_blob_store)
    from "1.IH"(2) [OF walk(1) refl refl walk(2,3), of "(c, sg)" s1 c sg s1] walk(4,5) obtain G S where
      G: "out = (fetched @ [(?i, blob)]) @ G" "distinct (map fst G)"
      "insert ?i (set seen) \<union> set (butlast work @ c_parents c) \<subseteq> S"
      "\<forall>x \<in> S - insert ?i (set seen). stored (fst s) x \<or> x \<in> fst ` set G"
      "\<forall>(i, b) \<in> set G. i \<notin> insert ?i (set seen) \<and> \<not> stored (fst s) i
          \<and> (\<exists>c sg. verified_commit cr keys i b = Inr (c, sg) \<and> set (c_parents c) \<subseteq> S)"
      unfolding set_insort_insert reading_ok st by blast
    have "?i \<notin> fst ` set G" using G(5) by auto
    with G walk(2,4) set_work [OF walk(1)] show ?thesis
      by (intro exI [of _ "(?i, blob) # G"] exI [of _ S]) auto
  qed simp
qed

lemma get_put_many: "get (snd (put_many items st)) = map_of items ++ get st"
proof -
  obtain objs n where f: "fold put_one items (t_objects st, 0) = (objs, n)" by (cases "fold put_one items (t_objects st, 0)")
  with put_loop [of items "t_objects st" 0] have "map_of objs = map_of items ++ map_of (t_objects st)" "n = 0 \<Longrightarrow> objs = t_objects st"
    by simp_all
  then show ?thesis by (auto simp: put_many_def f get_def [abs_def])
qed

lemma fetch_commits_gains:
  assumes "fetch_commits cr R keys cid s = Some (x, s')"
  shows "gains (verified_object cr keys TCommit) (fst s) (fst s')
    \<and> (commits_closed cr keys (fst s) \<longrightarrow> commits_closed cr keys (fst s'))"
  using assms unfolding fetch_commits_def
proof (cases rule: sbind_cases)
  case (err e)
  then show ?thesis by (auto dest: fetch_commits_loop_store)
next
  case (ok G s1)
  have st: "fst s1 = fst s" using ok(1) by (rule fetch_commits_loop_store)
  from fetch_commits_loop_closed [OF ok(1)] obtain S where G: "distinct (map fst G)" "\<forall>x \<in> S. get (fst s) x \<noteq> None \<or> x \<in> fst ` set G"
      "\<forall>(i, b) \<in> set G. get (fst s) i = None \<and> (\<exists>c sg. verified_commit cr keys i b = Inr (c, sg) \<and> set (c_parents c) \<subseteq> S)"
    by (auto simp: stored_iff)
  have g: "get (fst s') = map_of G ++ get (fst s)" using ok(2) get_put_many by (auto simp: st case_prod_beta)
  then have new: "get (fst s) x = None \<Longrightarrow> get (fst s') x = Some b \<Longrightarrow> (x, b) \<in> set G" for x b
    by (simp add: map_add_def map_of_SomeD)
  have in_S: "x \<in> S \<Longrightarrow> get (fst s') x \<noteq> None" for x
    using G(2) by (cases "get (fst s) x") (auto simp: g map_add_def map_of_eq_None_iff simp flip: not_None_eq)
  have "gains (verified_object cr keys TCommit) (fst s) (fst s')"
    unfolding gains_def using new G(3) by (auto simp: g map_add_def) blast
  moreover have "commits_closed cr keys (fst s')" if old: "commits_closed cr keys (fst s)"
    unfolding commits_closed_def
  proof (intro allI impI ballI)
    fix i c p
    assume "commit_at cr keys (fst s') i c" and p: "p \<in> set (c_parents c)"
    then obtain b sg where b: "get (fst s') i = Some b" "verified_commit cr keys i b = Inr (c, sg)" by (auto simp: commit_at_eq)
    show "get (fst s') p \<noteq> None"
    proof (cases "get (fst s) i")
      case None
      with new b(1) have "(i, b) \<in> set G" by blast
      with G(3) b(2) p in_S show ?thesis by fastforce
    next
      case (Some b')
      with b have "commit_at cr keys (fst s) i c" by (auto simp: commit_at_eq g map_add_def)
      with old p have "get (fst s) p \<noteq> None" unfolding commits_closed_def by blast
      then show ?thesis by (auto simp: g map_add_def)
    qed
  qed
  ultimately show ?thesis by blast
qed

text \<open>A fetched tree or chunk is no commit, so the walk over trees leaves the stored history as it was.\<close>

lemma content_not_commit: "content cr keys i b \<Longrightarrow> verified_commit cr keys i b \<noteq> Inr x"
  by (auto simp: content_def verified_tree_def verify_chunk_def verified_commit_def rbind_eq_Inr dest: open_object_type)

lemma commits_closed_content:
  assumes "gains (content cr keys) st st'" "commits_closed cr keys st"
  shows "commits_closed cr keys st'"
  unfolding commits_closed_def
proof (intro allI impI ballI)
  fix i c p
  assume "commit_at cr keys st' i c" and p: "p \<in> set (c_parents c)"
  then obtain b sg where b: "get st' i = Some b" "verified_commit cr keys i b = Inr (c, sg)" by (auto simp: commit_at_eq)
  with assms(1) have "get st i = Some b" using content_not_commit unfolding gains_def by (cases "get st i") fastforce+
  with b(2) have "commit_at cr keys st i c" by (auto simp: commit_at_eq)
  with assms(2) p have "get st p \<noteq> None" unfolding commits_closed_def by blast
  then show "get st' p \<noteq> None" using assms(1) by (auto simp: gains_def)
qed

lemma gains_verified: "gains (verified_object cr keys t) st st' \<Longrightarrow> gains (verified cr keys) st st'"
  by (erule gains_mono) (auto simp: verified_def)

lemma fetch_closure_gains:
  assumes "fetch_closure cr R keys cid s = Some (x, s')"
  shows "gains (verified cr keys) (fst s) (fst s') \<and> (commits_closed cr keys (fst s) \<longrightarrow> commits_closed cr keys (fst s'))"
  using assms unfolding fetch_closure_def
proof (cases rule: sbind_cases)
  case (err e)
  from fetch_commits_gains [OF err(1)] show ?thesis using gains_verified by blast
next
  case (ok n s1)
  have g1: "gains (verified cr keys) (fst s) (fst s1)" "commits_closed cr keys (fst s) \<longrightarrow> commits_closed cr keys (fst s1)"
    using fetch_commits_gains [OF ok(1)] gains_verified by blast+
  from ok(2) show ?thesis
  proof (cases rule: sbind_cases)
    case (err e)
    with g1 show ?thesis by (simp add: reading_def)
  next
    case inner: (ok cs s2)
    then have f: "sbind (fetch_tree cr R keys (root_tree (fst cs)) (root_salt (fst cs)) WithChunks s1)
        (\<lambda>k s. Some (Inr (n + k), s)) = Some (x, s')" by (simp add: reading_ok case_prod_beta)
    then obtain y where "fetch_tree cr R keys (root_tree (fst cs)) (root_salt (fst cs)) WithChunks s1 = Some (y, s')"
      by (cases rule: sbind_cases) auto
    then have c: "gains (content cr keys) (fst s1) (fst s')"
      unfolding fetch_tree_def by (rule fetch_tree_loop_gains) (simp add: queued_ok_def)
    then have "gains (verified cr keys) (fst s1) (fst s')" by (rule gains_mono) (unfold verified_def content_def, blast)
    then show ?thesis using g1 commits_closed_content [OF c] gains_trans by blast
  qed
qed

section \<open>Properties\<close>

text \<open>
  C18: what a fetch brings, whatever the remote answers. On every outcome, errors included, nothing
  in the local store is lost or replaced, every object it gained opens and decodes as a commit, tree
  or chunk of its id under the repository keys, and, as stored commits had their parents stored
  before, they have them stored after. If the fetch returns, the commit and its whole history are
  stored, and so is every object its tree names at any depth, with one exception: what is named below
  an id that the trees under the commit list both as a directory and as a chunk. (Such an id, held
  already when it is met as a chunk, is neither verified nor entered; it takes a member who
  authors such a tree, see \<open>mixed_collides\<close>.)
\<close>

theorem fetch_closure_complete:
  assumes "fetch_closure cr R keys cid (st, r) = Some (out, st', r')" "commits_closed cr keys st"
  shows "gains (verified cr keys) st st' \<and> commits_closed cr keys st'
    \<and> (\<not> isl out \<longrightarrow> (\<forall>i. history cr keys st' cid i \<longrightarrow> get st' i \<noteq> None)
         \<and> (\<exists>c. commit_at cr keys st' cid c \<and> (\<forall>x. names cr keys st' (root_tree c) x \<longrightarrow> get st' x \<noteq> None
              \<or> (\<exists>m. mixed cr keys st' (beneath cr keys st' (root_tree c)) m \<and> names cr keys st' m x))))"
proof -
  note g = fetch_closure_gains [OF assms(1), unfolded fst_conv]
  have "(\<forall>i. history cr keys st' cid i \<longrightarrow> get st' i \<noteq> None)
      \<and> (\<exists>c. commit_at cr keys st' cid c \<and> (\<forall>x. names cr keys st' (root_tree c) x \<longrightarrow> get st' x \<noteq> None
           \<or> (\<exists>m. mixed cr keys st' (beneath cr keys st' (root_tree c)) m \<and> names cr keys st' m x)))"
    if "out = Inr n" for n
  proof -
    from assms(1) that(1) obtain s1 c sg k where
      c: "open_signed_commit cr keys cid (fst s1) = Inr (c, sg)"
      and t: "fetch_tree_loop cr R keys WithChunks 0 [] [Enter (root_tree c) (root_salt c) 0] s1 = Some (Inr k, st', r')"
      by (auto simp: fetch_closure_def sbind_eq_ok reading_ok fetch_tree_def)
    let ?P = "beneath cr keys st' (root_tree c)"
    have "gains (content cr keys) (fst s1) st'" using fetch_tree_loop_gains [OF t] by (simp add: queued_ok_def)
    moreover have "commit_at cr keys (fst s1) cid c" using c by (auto simp: commit_at_def)
    ultimately have head: "commit_at cr keys st' cid c" by (auto simp: commit_at_eq gains_def)
    from fetch_tree_loop_closed [OF t, of ?P] obtain S where S: "root_tree c \<in> S" "\<forall>x \<in> S. get st' x \<noteq> None"
        "closed_in cr keys st' True (S \<inter> clear cr keys st' ?P) S"
      by (auto simp: queued_ok_def queue_ok_def downward_under beneath.root)
    have "get st' x \<noteq> None \<or> (\<exists>m. mixed cr keys st' ?P m \<and> names cr keys st' m x)" if "names cr keys st' (root_tree c) x" for x
      using closed_names [OF that S(3) downward_under beneath.root] S(1,2) by blast
    moreover have "get st' i \<noteq> None" if "history cr keys st' cid i" for i
      using that
    proof cases
      case head
      then show ?thesis using \<open>commit_at cr keys st' cid c\<close> by (auto simp: commit_at_eq)
    next
      case (parent j d)
      then show ?thesis using g assms(2) unfolding commits_closed_def by blast
    qed
    ultimately show ?thesis using head by blast
  qed
  with g assms(2) show ?thesis by (cases out) auto
qed

lemma get_empty [simp]: "get Store_empty x = None"
  by (simp add: get_def Store_empty_def)

lemma ex_tree_ne: "fst ex_tree \<noteq> ex_ours"
  using ex_tree_address ex_object_address [of "[5]" 2] by force

definition ex_fetched :: store where
  "ex_fetched = snd (put (fst ex_tree) (snd ex_tree) (snd (put_many [ex_object [5] 2] Store_empty)))"

lemma ex_get_fetched:
  "get ex_fetched x = (if x = fst ex_tree then Some (snd ex_tree) else if x = ex_ours then Some (snd (ex_object [5] 2)) else None)"
  using ex_tree_ne by (auto simp: ex_fetched_def get_put get_put_many map_add_def)

lemma ex_verified:
  "verified_tree ex_crypto ex_keys (fst ex_tree) ex_salt (snd ex_tree) = Inr []"
  "verified_commit ex_crypto ex_keys ex_ours (snd (ex_object [5] 2)) = Inr (ex_commit [5] 2, [])"
  using ex_opens(1,2) ex_at(1,2) by (simp_all add: load_tree_eq open_signed_commit_def fetch_open_def verified_commit_def)

lemma ex_fetch:
  "fetch_closure ex_crypto (MemRemote ex_crypto) ex_keys ex_ours (Store_empty, MemRemote_new ex_store)
     = Some (Inr 2, ex_fetched, MemRemote_new ex_store)"
proof -
  let ?R = "MemRemote ex_crypto" and ?r = "MemRemote_new ex_store" and ?s1 = "snd (put_many [ex_object [5] 2] Store_empty)"
  have blob: "fetch_blob ?R i (st, ?r) = Some (ok_or (MissingRemote i) (get ex_store i), st, ?r)" for i st
    by (cases "get ex_store i") (simp_all add: fetch_blob_def remote_call_def MemRemote_def mem_read_def MemRemote_new_def reading_def)
  have none: "stored Store_empty i = False" for i by (simp add: stored_iff)
  have "fetch_commits_loop ex_crypto ?R ex_keys [] [] [ex_ours] (Store_empty, ?r) = Some (Inr [ex_object [5] 2], Store_empty, ?r)"
    using ex_verified(2) ex_at(2)
    by (simp add: fetch_commits_loop.simps [of _ _ _ _ _ "[ex_ours]"] fetch_commits_loop.simps [of _ _ _ _ _ "[]"] none blob
        reading_def ex_commit_def)
  then have c: "fetch_commits ex_crypto ?R ex_keys ex_ours (Store_empty, ?r) = Some (Inr 1, ?s1, ?r)" by (simp add: fetch_commits_def)
  have g: "get ?s1 ex_ours = Some (snd (ex_object [5] 2))" "get ?s1 (fst ex_tree) = None"
    using ex_tree_ne by (simp_all add: get_put_many map_add_def)
  have o': "open_signed_commit ex_crypto ex_keys ex_ours ?s1 = Inr (ex_commit [5] 2, [])"
    using ex_verified(2) g(1) by (simp add: open_signed_commit_def fetch_open_def verified_commit_def)
  have "obtain_tree ex_crypto ?R ex_keys (fst ex_tree) ex_salt (?s1, ?r)
      = Some (Inr ([], [StoreStep (fst ex_tree) (snd ex_tree)]), ?s1, ?r)"
    using g(2) ex_at(1) ex_verified(1) by (simp add: obtain_tree_def blob reading_def)
  then have "fetch_tree ex_crypto ?R ex_keys (fst ex_tree) ex_salt WithChunks (?s1, ?r) = Some (Inr 1, ex_fetched, ?r)"
    by (simp add: fetch_tree_def fetch_tree_loop.simps [of _ _ _ _ _ _ "[_]"] fetch_tree_loop.simps [of _ _ _ _ _ _ "[]"]
        file_chunks_def has_def MAX_TREE_DEPTH_def ex_fetched_def)
  with c o' show ?thesis by (simp add: fetch_closure_def reading_def ex_commit_def)
qed

theorem fetch_closure_complete_witness:
  "fetch_closure ex_crypto (MemRemote ex_crypto) ex_keys ex_ours (Store_empty, MemRemote_new ex_store)
     = Some (Inr 2, ex_fetched, MemRemote_new ex_store)
   \<and> (\<exists>c. commit_at ex_crypto ex_keys ex_fetched ex_ours c
        \<and> (\<forall>x. names ex_crypto ex_keys ex_fetched (root_tree c) x \<longrightarrow> get ex_fetched x \<noteq> None))"
proof -
  have "commits_closed ex_crypto ex_keys Store_empty" by (simp add: commits_closed_def commit_at_eq)
  note f = fetch_closure_complete [OF ex_fetch this]
  have "tree_at ex_crypto ex_keys ex_fetched i t \<Longrightarrow> tree_at ex_crypto ex_keys ex_store i t" for i t
    using ex_at(1,2) by (auto simp: tree_at_def load_tree_eq ex_get_fetched split: if_splits)
  then have "tree_at ex_crypto ex_keys ex_fetched i t \<Longrightarrow> t = []" for i t using ex_tree_at by blast
  then have "\<not> mixed ex_crypto ex_keys ex_fetched P m" for P m by (fastforce simp: mixed_def listed_in_def)
  with f ex_fetch show ?thesis by simp
qed

end
