(* ===== verification/Push.thy ===== *)
theory Push
  imports Fetch
begin

text \<open>
  \<open>crates/secsec-client/src/lib.rs\<close>, publishing: staging what a commit adds over the remote head,
  and swapping the head. The locale \<open>store_remote\<close> carries the result: once both calls have
  succeeded, the server durably holds the commit's whole history and every object its tree names.
\<close>

section \<open>Model\<close>

text \<open>A fallible local call that may also abort.\<close>

definition trying :: "('e \<Rightarrow> 'f) \<Rightarrow> 's \<Rightarrow> ('e + 'a) option \<Rightarrow> (('f + 'a) \<times> 's) option" where
  "trying g s m = map_option (\<lambda>x. (map_err g x, s)) m"

lemma trying_ok: "trying g s m = Some (Inr x, s') \<longleftrightarrow> m = Some (Inr x) \<and> s' = s"
  by (auto simp: trying_def)

definition known_closure :: "crypto \<Rightarrow> master_keys \<Rightarrow> store \<Rightarrow> bytes option \<Rightarrow> snap_error + bytes list" where
  "known_closure cr keys st remote_head =
     (case remote_head of
        None \<Rightarrow> Inr []
      | Some h \<Rightarrow>
          rbind (open_signed_commit cr keys h st) (\<lambda>(hc, _).
          tree_closure cr keys st (root_tree hc) (root_salt hc) [] []))"

fun lenient_closure :: "crypto \<Rightarrow> master_keys \<Rightarrow> store \<Rightarrow> bytes list \<Rightarrow> bytes list \<Rightarrow> bytes list \<Rightarrow> snap_error + bytes list" where
  "lenient_closure cr keys st known [] lenient = Inr lenient"
| "lenient_closure cr keys st known (c # cs) lenient =
     rbind (open_signed_commit cr keys c st) (\<lambda>(cm, _).
     rbind (tree_closure cr keys st (root_tree cm) (root_salt cm) known lenient)
       (lenient_closure cr keys st known cs))"

fun put_wanted :: "'r remote \<Rightarrow> bytes \<Rightarrow> (bytes \<times> bool) list \<Rightarrow> store \<times> 'r \<Rightarrow> ((client_error + unit) \<times> store \<times> 'r) option" where
  "put_wanted R push_id [] s = Some (Inr (), s)"
| "put_wanted R push_id ((i, required) # want) s =
     (case get (fst s) i of
        Some blob \<Rightarrow> sbind (remote_call (r_put_blob R i blob push_id) s) (\<lambda>_. put_wanted R push_id want)
      | None \<Rightarrow> if required then Some (Inl (MissingLocal i), s) else put_wanted R push_id want s)"

definition push_objects :: "crypto \<Rightarrow> 'r remote \<Rightarrow> master_keys \<Rightarrow> bytes \<Rightarrow> bytes option \<Rightarrow> bytes \<Rightarrow> store \<times> 'r
    \<Rightarrow> ((client_error + unit) \<times> store \<times> 'r) option" where
  "push_objects cr R keys cid remote_head push_id s =
     (let st = fst s; heads = cid # (case remote_head of None \<Rightarrow> [] | Some h \<Rightarrow> [h]) in
      sbind (reading CEngine s (load_commit_dag cr keys st heads)) (\<lambda>(parents, _) s.
      let new = new_commits parents remote_head cid in
      sbind (reading CSnap s (known_closure cr keys st remote_head)) (\<lambda>known s.
      sbind (reading CSnap s (open_signed_commit cr keys cid st)) (\<lambda>(hd, _) s.
      sbind (reading CSnap s (tree_closure cr keys st (root_tree hd) (root_salt hd) known new)) (\<lambda>strict s.
      sbind (reading CSnap s (lenient_closure cr keys st known (filter (\<lambda>c. c \<noteq> cid) new) [])) (\<lambda>lenient s.
      let want = map (\<lambda>i. (i, True)) (filter (\<lambda>i. i \<notin> set known) strict)
        @ map (\<lambda>i. (i, False)) (filter (\<lambda>i. i \<notin> set known \<and> i \<notin> set strict) lenient)
      in put_wanted R push_id want s))))))"

definition push_head :: "crypto \<Rightarrow> ssh \<Rightarrow> 'r remote \<Rightarrow> master_keys \<Rightarrow> bytes \<Rightarrow> bytes \<Rightarrow> bytes \<Rightarrow> u64 \<Rightarrow> (head \<times> bytes) option
    \<Rightarrow> bytes option \<Rightarrow> bytes \<Rightarrow> store \<times> 'r \<Rightarrow> ((client_error + head \<times> bytes) \<times> store \<times> 'r) option" where
  "push_head cr ss R keys sk name cid rs prev nonce push_id s =
     sbind (trying CHead s (build_head cr name cid rs (map_option fst prev))) (\<lambda>h s.
     sbind (trying CHead s (sign_head ss sk h)) (\<lambda>sg s.
     sbind (reading CHead s (ok_or HeadAead nonce)) (\<lambda>nonce s.
     Option.bind (ref_name_key cr keys) (\<lambda>rnk.
     Option.bind (current keys) (\<lambda>mk.
     Option.bind (seal_head cr mk rnk h sg nonce) (\<lambda>blob.
     let ref_h = ref_hash cr rnk name; old = (case prev of None \<Rightarrow> ABSENT_HEAD | Some (_, b) \<Rightarrow> hash cr b) in
     sbind (remote_call (r_cas_head R ref_h old blob push_id) s) (\<lambda>won s.
     Some (if won then Inr (h, blob) else Inl CCasConflict, s))))))))"

section \<open>What the closures hold\<close>

lemma closure_tree_loop_cases:
  assumes "closure_tree_loop cr keys st known out work = Inr out'"
  obtains (finished) "work = []" "out' = out"
  | (skip) i s d where "work \<noteq> []" "last work = (i, s, d)" "i \<in> set known \<or> i \<in> set out" "\<not> MAX_TREE_DEPTH \<le> d"
      "closure_tree_loop cr keys st known out (butlast work) = Inr out'"
  | (walk) i s d t where "work \<noteq> []" "last work = (i, s, d)" "\<not> (i \<in> set known \<or> i \<in> set out)" "\<not> MAX_TREE_DEPTH \<le> d"
      "load_tree cr keys st i s = Inr t"
      "closure_tree_loop cr keys st known (fold insort_insert (chunks_of t) (insort_insert i out))
         (butlast work @ map (\<lambda>(i, s). (i, s, d + 1)) (subtrees t)) = Inr out'"
  using assms
  by (subst (asm) closure_tree_loop.simps) (auto simp: Let_def rbind_eq_Inr split: if_splits prod.splits)

lemma closure_tree_loop_closed:
  "closure_tree_loop cr keys st known out work = Inr out' \<Longrightarrow> downward cr keys st P \<Longrightarrow> \<forall>i \<in> fst ` set work. P i \<Longrightarrow>
     set out \<subseteq> set out' \<and> fst ` set work \<subseteq> set known \<union> set out'
     \<and> closed_in cr keys st True ((set out' - set out) \<inter> clear cr keys st P) (set known \<union> set out')"
proof (induction cr keys st known out work rule: closure_tree_loop.induct)
  case (1 cr keys st known out work)
  from "1.prems"(1) show ?case
  proof (cases rule: closure_tree_loop_cases)
    case (skip i s d)
    have w: "set work = insert (i, s, d) (set (butlast work))" using set_work [OF skip(1)] skip(2) by simp
    then have "\<forall>i \<in> fst ` set (butlast work). P i" using "1.prems"(3) by simp
    with skip(3) "1.IH"(1) [OF skip(1) skip(2) [symmetric] refl refl refl skip(4,3,5) "1.prems"(2)] w show ?thesis by auto
  next
    case (walk i s d t)
    let ?out = "fold insort_insert (chunks_of t) (insort_insert i out)" and ?C = "clear cr keys st P"
    have t: "tree_at cr keys st i t" using walk(5) by (auto simp: tree_at_def)
    have o': "set ?out = insert i (set out) \<union> set (chunks_of t)" by (auto simp: set_fold_insort set_insort_insert)
    have w: "set work = insert (i, s, d) (set (butlast work))" using set_work [OF walk(1)] walk(2) by simp
    have P: "P i" using "1.prems"(3) w by simp
    then have "\<forall>j \<in> fst ` set (butlast work @ map (\<lambda>(i, s). (i, s, d + 1)) (subtrees t)). P j"
      using "1.prems"(3) w downwardD [OF "1.prems"(2) _ t] by auto
    note ih = "1.IH"(2) [OF walk(1) walk(2) [symmetric] refl refl refl walk(4,3,5,6) "1.prems"(2) this]
    have subs: "fst ` set (subtrees t) \<subseteq> set known \<union> set out'" using ih by force
    have "closed_in cr keys st True {i} (set known \<union> set out')"
      by (rule closed_in_one [OF t]) (use ih o' subs in force)+
    moreover have "closed_in cr keys st True ((set out' - set ?out) \<inter> ?C) (set known \<union> set out')" using ih by blast
    moreover have "set (chunks_of t) \<inter> ?C = {}" using P t by (auto simp: clear_def listed_in_def)
    then have "(set out' - set out) \<inter> ?C \<subseteq> {i} \<union> (set out' - set ?out) \<inter> ?C" using o' by blast
    ultimately have "closed_in cr keys st True ((set out' - set out) \<inter> ?C) (set known \<union> set out')" by (rule closed_in_parts)
    with ih show ?thesis by (auto simp: w o')
  qed simp
qed

lemma tree_ids: "load_tree cr keys st i s = Inr t \<Longrightarrow> set (chunks_of t) \<subseteq> ids \<and> fst ` set (subtrees t) \<subseteq> ids"
  by (fastforce simp: load_tree_def rbind_eq_Inr decode_tree_iff tree_wf_def list_all_iff subtrees_def chunks_of_def ids_def
      split: tree_entry.splits)

lemma fst_at_depth: "fst ` (\<lambda>(i, s). (i, s, d)) ` S = fst ` S"
  by force

lemma subset_butlast: "f ` set work \<subseteq> A \<Longrightarrow> f ` set (butlast work) \<subseteq> A"
  by (auto dest: in_set_butlastD)

lemma closure_tree_loop_ids:
  "closure_tree_loop cr keys st known out work = Inr out' \<Longrightarrow> set out \<subseteq> ids \<Longrightarrow> fst ` set work \<subseteq> ids \<Longrightarrow> set out' \<subseteq> ids"
proof (induction cr keys st known out work rule: closure_tree_loop.induct)
  case (1 cr keys st known out work)
  from "1.prems"(1) show ?case
  proof (cases rule: closure_tree_loop_cases)
    case (skip i s d)
    have "fst ` set (butlast work) \<subseteq> ids" using "1.prems"(3) by (rule subset_butlast)
    with "1.IH"(1) [OF skip(1) skip(2) [symmetric] refl refl refl skip(4,3,5) "1.prems"(2)] show ?thesis .
  next
    case (walk i s d t)
    have i: "i \<in> ids" using "1.prems"(3) last_in_set [OF walk(1)] walk(2) by force
    have "fst ` set (butlast work @ map (\<lambda>(i, s). (i, s, d + 1)) (subtrees t)) \<subseteq> ids"
      using "1.prems"(3) tree_ids [OF walk(5)] unfolding set_append image_Un by (simp add: fst_at_depth subset_butlast)
    moreover have "set (fold insort_insert (chunks_of t) (insort_insert i out)) \<subseteq> ids"
      using "1.prems"(2) i tree_ids [OF walk(5)] by (simp add: set_fold_insort set_insort_insert)
    ultimately show ?thesis
      using "1.IH"(2) [OF walk(1) walk(2) [symmetric] refl refl refl walk(4,3,5,6)] by blast
  qed (use "1.prems" in simp)
qed

lemma commit_ids:
  assumes "commit_at cr keys st i c"
  shows "root_tree c \<in> ids" "set (c_parents c) \<subseteq> ids"
  using commit_at_wf [OF assms] by (auto simp: commit_wf_def ids_def list_all_iff)

lemma tree_closure_ids:
  "tree_closure cr keys st root salt known out = Inr out' \<Longrightarrow> root \<in> ids \<Longrightarrow> set out \<subseteq> ids \<Longrightarrow> set out' \<subseteq> ids"
  unfolding tree_closure_def by (erule closure_tree_loop_ids) simp_all

lemma lenient_closure_ids:
  "lenient_closure cr keys st known cs out = Inr out' \<Longrightarrow> set out \<subseteq> ids \<Longrightarrow> set out' \<subseteq> ids"
proof (induction cr keys st known cs out rule: lenient_closure.induct)
  case (2 cr keys st known c cs out)
  from "2.prems"(1) obtain cm sg out1 where o: "open_signed_commit cr keys c st = Inr (cm, sg)"
    "tree_closure cr keys st (root_tree cm) (root_salt cm) known out = Inr out1" "lenient_closure cr keys st known cs out1 = Inr out'"
    by (auto simp: rbind_eq_Inr)
  have "root_tree cm \<in> ids" using o(1) commit_ids(1) [of cr keys st c cm] by (auto simp: commit_at_def)
  with o(2) "2.prems"(2) have "set out1 \<subseteq> ids" by (blast dest: tree_closure_ids)
  with "2.IH" [OF o(1) refl o(2,3)] show ?case .
qed simp

lemma closure_tree_loop_sound:
  "closure_tree_loop cr keys st known out work = Inr out' \<Longrightarrow>
     set out' \<subseteq> set out \<union> {x. \<exists>w \<in> set work. names cr keys st (fst w) x}"
proof (induction cr keys st known out work rule: closure_tree_loop.induct)
  case (1 cr keys st known out work)
  from "1.prems"(1) show ?case
  proof (cases rule: closure_tree_loop_cases)
    case (skip i s d)
    with "1.IH"(1) [OF skip(1) skip(2) [symmetric] refl refl refl skip(4,3,5)] show ?thesis by (auto dest: in_set_butlastD)
  next
    case (walk i s d t)
    have t: "tree_at cr keys st i t" using walk(5) by (auto simp: tree_at_def)
    have i: "(i, s, d) \<in> set work" using last_in_set [OF walk(1)] walk(2) by simp
    have "insert i (set (chunks_of t)) \<union> {x. \<exists>w \<in> set (map (\<lambda>(i, s). (i, s, d + 1)) (subtrees t)). names cr keys st (fst w) x}
        \<subseteq> {x. \<exists>w \<in> set work. names cr keys st (fst w) x}"
      using i names_root [of cr keys st i] names_chunk [OF t] names_subtree [OF t] by force
    with "1.IH"(2) [OF walk(1) walk(2) [symmetric] refl refl refl walk(4,3,5,6)] show ?thesis
      by (fastforce simp: set_fold_insort set_insort_insert dest: in_set_butlastD)
  qed simp
qed

text \<open>The directories of the trees a push compares: of the commit, and of the remote head.\<close>

definition push_dirs :: "crypto \<Rightarrow> master_keys \<Rightarrow> store \<Rightarrow> bytes \<Rightarrow> bytes option \<Rightarrow> bytes \<Rightarrow> bool" where
  "push_dirs cr keys st cid remote_head i \<longleftrightarrow>
     (\<exists>h c. (h = cid \<or> remote_head = Some h) \<and> commit_at cr keys st h c \<and> beneath cr keys st (root_tree c) i)"

lemma downward_push_dirs: "downward cr keys st (push_dirs cr keys st cid remote_head)"
  unfolding downward_def push_dirs_def by (blast intro: beneath.subtree)

lemma push_dirs_root: "h = cid \<or> remote_head = Some h \<Longrightarrow> commit_at cr keys st h c \<Longrightarrow> push_dirs cr keys st cid remote_head (root_tree c)"
  unfolding push_dirs_def using beneath.root by blast

lemma commit_not_tree: "commit_at cr keys st i c \<Longrightarrow> \<not> tree_at cr keys st i t"
  using verified_commit_not_tree by (auto simp: commit_at_eq)

lemma known_closure_closed:
  assumes "known_closure cr keys st remote_head = Inr known"
  shows "closed_in cr keys st True (set known \<inter> clear cr keys st (push_dirs cr keys st cid remote_head)) (set known)"
    and "x \<in> set known \<Longrightarrow> \<exists>h \<in> set_option remote_head. \<exists>c. commit_at cr keys st h c \<and> names cr keys st (root_tree c) x"
proof -
  let ?P = "push_dirs cr keys st cid remote_head"
  consider "known = []" | h c sg where "remote_head = Some h" "open_signed_commit cr keys h st = Inr (c, sg)"
      "closure_tree_loop cr keys st [] [] [(root_tree c, root_salt c, 0)] = Inr known"
    using assms by (auto simp: known_closure_def tree_closure_def rbind_eq_Inr split: option.splits)
  then show "closed_in cr keys st True (set known \<inter> clear cr keys st ?P) (set known)"
    and "x \<in> set known \<Longrightarrow> \<exists>h \<in> set_option remote_head. \<exists>c. commit_at cr keys st h c \<and> names cr keys st (root_tree c) x"
  proof (atomize (full), cases)
    case (2 h c sg)
    have c: "commit_at cr keys st h c" using 2(2) by (auto simp: commit_at_def)
    then have "?P (root_tree c)" using 2(1) push_dirs_root by blast
    then have "closed_in cr keys st True (set known \<inter> clear cr keys st ?P) (set known)"
      using closure_tree_loop_closed [OF 2(3) downward_push_dirs] by simp
    moreover have "names cr keys st (root_tree c) x" if "x \<in> set known" using closure_tree_loop_sound [OF 2(3)] that by auto
    ultimately show "closed_in cr keys st True (set known \<inter> clear cr keys st ?P) (set known)
      \<and> (x \<in> set known \<longrightarrow> (\<exists>h \<in> set_option remote_head. \<exists>c. commit_at cr keys st h c \<and> names cr keys st (root_tree c) x))"
      using 2(1) c by auto
  qed simp
qed

text \<open>What a push that succeeds has put on its list: all a fetch of the commit will need.\<close>

definition push_ok :: "crypto \<Rightarrow> master_keys \<Rightarrow> store \<Rightarrow> bytes \<Rightarrow> bytes option \<Rightarrow> (bytes \<times> bool) list \<Rightarrow> bool" where
  "push_ok cr keys st cid remote_head want \<longleftrightarrow>
     fst ` set want \<subseteq> ids
     \<and> (\<forall>i. history cr keys st cid i \<longrightarrow> (i, True) \<in> set want \<or> (\<exists>h \<in> set_option remote_head. history cr keys st h i
          \<or> (\<exists>hc. commit_at cr keys st h hc \<and> names cr keys st (root_tree hc) i)))
     \<and> (\<exists>c. commit_at cr keys st cid c \<and> (\<forall>x. names cr keys st (root_tree c) x \<longrightarrow> (x, True) \<in> set want
          \<or> (\<exists>h \<in> set_option remote_head. \<exists>hc. commit_at cr keys st h hc \<and> names cr keys st (root_tree hc) x)
          \<or> (\<exists>m. mixed cr keys st (push_dirs cr keys st cid remote_head) m \<and> names cr keys st m x)))"

lemma push_objects_wants:
  assumes "push_objects cr R keys cid remote_head push_id s = Some (Inr u, s')" "cid \<in> ids"
  obtains want where "put_wanted R push_id want s = Some (Inr u, s')"
    "push_ok cr keys (fst s) cid remote_head want"
proof -
  let ?st = "fst s" and ?heads = "cid # (case remote_head of None \<Rightarrow> [] | Some h \<Rightarrow> [h])"
  from assms(1) obtain parents meta known hd sg strict lenient where
    dag: "load_commit_dag cr keys ?st ?heads = Inr (parents, meta)"
    and known: "known_closure cr keys ?st remote_head = Inr known"
    and hd: "open_signed_commit cr keys cid ?st = Inr (hd, sg)"
    and strict: "tree_closure cr keys ?st (root_tree hd) (root_salt hd) known (new_commits parents remote_head cid) = Inr strict"
    and lenient: "lenient_closure cr keys ?st known (filter (\<lambda>c. c \<noteq> cid) (new_commits parents remote_head cid)) [] = Inr lenient"
    and put: "put_wanted R push_id (map (\<lambda>i. (i, True)) (filter (\<lambda>i. i \<notin> set known) strict)
        @ map (\<lambda>i. (i, False)) (filter (\<lambda>i. i \<notin> set known \<and> i \<notin> set strict) lenient)) s = Some (Inr u, s')"
    by (auto simp: push_objects_def sbind_eq_ok reading_ok Let_def)
  let ?new = "new_commits parents remote_head cid"
  let ?want = "map (\<lambda>i. (i, True)) (filter (\<lambda>i. i \<notin> set known) strict)
        @ map (\<lambda>i. (i, False)) (filter (\<lambda>i. i \<notin> set known \<and> i \<notin> set strict) lenient)"
  note ex = load_commit_dag_exact [OF dag]
  have c: "commit_at cr keys ?st cid hd" using hd by (auto simp: commit_at_def)
  have "h \<in> set ?heads \<Longrightarrow> h \<in> dom (map_of parents)" for h using ex(3) history.head by fast
  then have new: "set ?new = {i. history cr keys ?st cid i \<and> (\<forall>h \<in> set_option remote_head. \<not> history cr keys ?st h i)}"
    using reaches_history [OF ex(1,2)] by (auto simp: new_commits_set)
  have at: "\<exists>ci. commit_at cr keys ?st i ci" if "i \<in> set ?new" for i
  proof -
    have "i \<in> dom (map_of parents)" using that unfolding new ex(3) by auto
    with ex(1) show ?thesis by (rule dag_sound_at) blast
  qed
  then have "closed_in cr keys ?st True (set ?new) R'" for R'
    using commit_not_tree by (intro closed_in_not_trees) blast
  let ?P = "push_dirs cr keys ?st cid remote_head"
  let ?C = "clear cr keys ?st ?P"
  have P: "?P (root_tree hd)" using c push_dirs_root by blast
  note closed = closure_tree_loop_closed [OF strict [unfolded tree_closure_def] downward_push_dirs [of cr keys ?st cid remote_head], simplified, OF P]
  let ?all = "set known \<union> set strict"
  have "closed_in cr keys ?st True (set known \<inter> ?C) ?all"
    using known_closure_closed(1) [OF known] by (rule closed_in_mono) simp
  moreover have "closed_in cr keys ?st True ((set strict - set ?new) \<inter> ?C) ?all" using closed by blast
  ultimately have all: "closed_in cr keys ?st True (?all \<inter> ?C) ?all"
    using \<open>\<And>R'. closed_in cr keys ?st True (set ?new) R'\<close>
    by (rule closed_in_parts [OF closed_in_parts [OF _ _ subset_refl]]) auto
  have names: "x \<in> ?all \<or> (\<exists>m. mixed cr keys ?st ?P m \<and> names cr keys ?st m x)" if "names cr keys ?st (root_tree hd) x" for x
    using closed_names [OF that all downward_push_dirs P] closed by simp
  note kn = known_closure_closed(2) [OF known]
  have hist: "history cr keys ?st h i \<Longrightarrow> h \<in> ids \<Longrightarrow> i \<in> ids" for h i
    by (induction rule: history.induct) (auto dest: commit_ids(2))
  have want: "fst ` set ?want \<subseteq> ids"
  proof -
    have "set ?new \<subseteq> ids" using hist assms(2) unfolding new by blast
    with strict have "set strict \<subseteq> ids" using tree_closure_ids commit_ids(1) [OF c] by blast
    moreover have "set lenient \<subseteq> ids" using lenient_closure_ids [OF lenient] by simp
    ultimately show ?thesis by auto
  qed
  have "(i, True) \<in> set ?want \<or> (\<exists>h \<in> set_option remote_head. history cr keys ?st h i
      \<or> (\<exists>hc. commit_at cr keys ?st h hc \<and> names cr keys ?st (root_tree hc) i))" if "history cr keys ?st cid i" for i
    using that closed new kn [of i] by (cases "i \<in> set known") auto
  moreover have "(x, True) \<in> set ?want \<or> (\<exists>h \<in> set_option remote_head. \<exists>hc. commit_at cr keys ?st h hc \<and> names cr keys ?st (root_tree hc) x)
      \<or> (\<exists>m. mixed cr keys ?st ?P m \<and> names cr keys ?st m x)"
    if "names cr keys ?st (root_tree hd) x" for x
    using names [OF that] kn by auto
  ultimately have "push_ok cr keys ?st cid remote_head ?want" unfolding push_ok_def using want c by blast
  with put show thesis by (rule that)
qed

section \<open>The remote after a push\<close>

text \<open>All that a fetch of the commit needs is durable on the other side.\<close>

definition durable :: "crypto \<Rightarrow> master_keys \<Rightarrow> store \<Rightarrow> bytes \<Rightarrow> store \<Rightarrow> bool" where
  "durable cr keys st cid far \<longleftrightarrow> (\<forall>i. history cr keys st cid i \<longrightarrow> get far i \<noteq> None)
     \<and> (\<forall>c x. commit_at cr keys st cid c \<longrightarrow> names cr keys st (root_tree c) x \<longrightarrow> get far x \<noteq> None)"

definition prev_token :: "crypto \<Rightarrow> (head \<times> bytes) option \<Rightarrow> bytes" where
  "prev_token cr prev = blob_token cr (map_option snd prev)"

lemma push_head_ok:
  assumes "push_head cr ss R keys sk name cid rs prev nonce p s = Some (Inr (h, blob), s')"
  obtains rnk where "ref_name_key cr keys = Some rnk" "commit_id h = cid" "ref_name h = name" "fst s' = fst s"
    "r_cas_head R (ref_hash cr rnk name) (prev_token cr prev) blob p (snd s) = (Inr True, snd s')"
proof -
  have tok: "(case prev of None \<Rightarrow> ABSENT_HEAD | Some (_, b) \<Rightarrow> hash cr b) = prev_token cr prev"
    by (cases prev) (auto simp: prev_token_def blob_token_def)
  from assms obtain rnk where rnk: "ref_name_key cr keys = Some rnk"
    and b: "build_head cr name cid rs (map_option fst prev) = Some (Inr h)"
    and c: "r_cas_head R (ref_hash cr rnk name) (prev_token cr prev) blob p (snd s) = (Inr True, snd s')" "fst s' = fst s"
    unfolding push_head_def tok by (auto simp: sbind_eq_ok trying_ok reading_ok remote_call_ok bind_eq_Some_conv Let_def split: if_splits)
  have "commit_id h = cid" "ref_name h = name" using b by (auto simp: build_head_def split: option.splits if_splits)
  with rnk c show thesis using that by blast
qed

context store_remote
begin

lemma put_wanted_view:
  "put_wanted R p want s = Some (Inr u, s') \<Longrightarrow> store_ok (view (snd s)) \<Longrightarrow> length p = STAGE_PUSH_LEN \<Longrightarrow> fst ` set want \<subseteq> ids \<Longrightarrow>
     fst s' = fst s \<and> store_ok (view (snd s')) \<and> t_objects (view (snd s')) = t_objects (view (snd s))
     \<and> t_refs (view (snd s')) = t_refs (view (snd s)) \<and> (\<forall>i. (i, True) \<in> set want \<longrightarrow> get (fst s) i \<noteq> None)
     \<and> (\<forall>i. map_of (t_staging (view (snd s'))) (staging_key p i)
          = (if i \<in> fst ` set want \<and> get (fst s) i \<noteq> None then get (fst s) i else map_of (t_staging (view (snd s))) (staging_key p i)))"
proof (induction want arbitrary: s)
  case (Cons w want)
  obtain i required where w: "w = (i, required)" by (cases w)
  show ?case
  proof (cases "get (fst s) i")
    case None
    with Cons.prems(1) w have "\<not> required" "put_wanted R p want s = Some (Inr u, s')" by (auto split: if_splits)
    with Cons.IH [OF this(2) Cons.prems(2,3)] Cons.prems(4) None w show ?thesis by auto
  next
    case (Some blob)
    with Cons.prems(1) w obtain x r1 where r1: "r_put_blob R i blob p (snd s) = (Inr x, r1)"
      and rest: "put_wanted R p want (fst s, r1) = Some (Inr u, s')"
      by (auto simp: sbind_eq_ok remote_call_ok)
    have v: "view r1 = stage p i blob staging_clock (view (snd s))" using r1 by (rule put_blob_view)
    have "store_ok (view r1)" unfolding v by (rule stage_ok) (use Cons.prems w in \<open>auto simp: ids_def\<close>)
    with Cons.IH [OF rest _ Cons.prems(3)] Cons.prems(4) Some w show ?thesis by (auto simp: v stage_def staging_key_def)
  qed
qed simp

lemma cas_head_wins:
  assumes "r_cas_head R rh old blob p r = (Inr True, r')" "store_ok (view r)" "length p = STAGE_PUSH_LEN"
  shows "blob_token cr (get_ref (view r) rh) = old" "get_ref (view r') = (get_ref (view r))(rh \<mapsto> blob)"
    "get (view r') = (\<lambda>i. map_of (t_staging (view r)) (staging_key p i)) ++ get (view r)"
proof -
  from cas_head_view [OF assms(1)] obtain o' where o': "cas_ref cr rh old blob p (view r) = (o', view r')" "swapped o'" by auto
  show tok: "blob_token cr (get_ref (view r) rh) = old"
  proof (rule ccontr)
    assume "blob_token cr (get_ref (view r) rh) \<noteq> old"
    with o' show False by (auto simp: get_ref_def cas_ref_conflict)
  qed
  obtain st' where "cas_ref cr rh old blob p (view r) = (\<lparr>swapped = True, promoted_bytes = staged_bytes (view r) p\<rparr>, st')"
    "map_of (t_objects st') = (\<lambda>i. map_of (t_staging (view r)) (staging_key p i)) ++ map_of (t_objects (view r))"
    "t_refs st' = bt_insert rh blob (t_refs (view r))"
    using cas_ref_swapped [OF assms(2,3) tok [unfolded get_ref_def]] by metis
  with o'(1) show "get_ref (view r') = (get_ref (view r))(rh \<mapsto> blob)"
    "get (view r') = (\<lambda>i. map_of (t_staging (view r)) (staging_key p i)) ++ get (view r)"
    by (simp_all add: get_ref_map get_map)
qed

lemma publishes:
  assumes objs: "push_objects cr R keys cid remote_head p (st, r) = Some (Inr u, s1)"
    and head: "push_head cr ss R keys sk name cid rs prev nonce p s1 = Some (Inr (h, blob), s2)"
    and wf: "store_ok (view r)" "length p = STAGE_PUSH_LEN" "length cid = 32"
    and fresh: "\<And>i. map_of (t_staging (view r)) (staging_key p i) = None"
    and before: "\<And>h0. remote_head = Some h0 \<Longrightarrow> durable cr keys st h0 (view r)"
  shows "((\<forall>m. \<not> mixed cr keys st (push_dirs cr keys st cid remote_head) m) \<longrightarrow> durable cr keys st cid (view (snd s2)))
    \<and> gains (\<lambda>x b. get st x = Some b) (view r) (view (snd s2)) \<and> fst s2 = st
    \<and> commit_id h = cid \<and> (\<exists>rnk. ref_name_key cr keys = Some rnk
        \<and> blob_token cr (get_ref (view r) (ref_hash cr rnk name)) = prev_token cr prev
        \<and> get_ref (view (snd s2)) (ref_hash cr rnk name) = Some blob)"
proof -
  from push_objects_wants [OF objs] wf(3) obtain want where put: "put_wanted R p want (st, r) = Some (Inr u, s1)"
    and ok: "push_ok cr keys st cid remote_head want" by (auto simp: ids_def)
  note v = put_wanted_view [OF put, unfolded fst_conv snd_conv, OF wf(1,2)] ok
  then have s1: "fst s1 = st" "store_ok (view (snd s1))" "t_refs (view (snd s1)) = t_refs (view r)" "get (view (snd s1)) = get (view r)"
    and req: "\<And>i. (i, True) \<in> set want \<Longrightarrow> get st i \<noteq> None"
    and staged: "\<And>i. map_of (t_staging (view (snd s1))) (staging_key p i) = (if i \<in> fst ` set want then get st i else None)"
    using fresh by (auto simp: push_ok_def get_def [abs_def])
  from head obtain rnk where rnk: "ref_name_key cr keys = Some rnk" "commit_id h = cid" "fst s2 = fst s1"
    and cas: "r_cas_head R (ref_hash cr rnk name) (prev_token cr prev) blob p (snd s1) = (Inr True, snd s2)"
    by (rule push_head_ok)
  note won = cas_head_wins [OF cas s1(2) wf(2)]
  have far: "get (view (snd s2)) x = (case get (view r) x of Some b \<Rightarrow> Some b | None \<Rightarrow> if x \<in> fst ` set want then get st x else None)" for x
    by (simp add: won(3) s1(4) staged map_add_def split: option.splits)
  have wanted: "get (view (snd s2)) x \<noteq> None" if "(x, True) \<in> set want" for x
    using req [OF that] that by (force simp: far split: option.splits)
  have kept: "get (view r) x \<noteq> None \<Longrightarrow> get (view (snd s2)) x \<noteq> None" for x by (auto simp: far)
  have "durable cr keys st cid (view (snd s2))" if clean: "\<forall>m. \<not> mixed cr keys st (push_dirs cr keys st cid remote_head) m"
    unfolding durable_def
  proof (intro conjI allI impI)
    fix i
    assume "history cr keys st cid i"
    with ok have "(i, True) \<in> set want \<or> (\<exists>h \<in> set_option remote_head. history cr keys st h i
        \<or> (\<exists>hc. commit_at cr keys st h hc \<and> names cr keys st (root_tree hc) i))" unfolding push_ok_def by blast
    then consider "(i, True) \<in> set want" | h0 where "remote_head = Some h0" "history cr keys st h0 i"
      | h0 hc where "remote_head = Some h0" "commit_at cr keys st h0 hc" "names cr keys st (root_tree hc) i" by auto
    then show "get (view (snd s2)) i \<noteq> None" using wanted kept before unfolding durable_def by cases blast+
  next
    fix c x
    assume c: "commit_at cr keys st cid c" "names cr keys st (root_tree c) x"
    from ok obtain d where d: "commit_at cr keys st cid d" "\<forall>x. names cr keys st (root_tree d) x \<longrightarrow> (x, True) \<in> set want
          \<or> (\<exists>h \<in> set_option remote_head. \<exists>hc. commit_at cr keys st h hc \<and> names cr keys st (root_tree hc) x)
          \<or> (\<exists>m. mixed cr keys st (push_dirs cr keys st cid remote_head) m \<and> names cr keys st m x)" unfolding push_ok_def by blast
    have "d = c" using d(1) c(1) by (rule commit_at_unique)
    with d(2) c(2) clean have "(x, True) \<in> set want
          \<or> (\<exists>h \<in> set_option remote_head. \<exists>hc. commit_at cr keys st h hc \<and> names cr keys st (root_tree hc) x)" by blast
    then consider "(x, True) \<in> set want"
      | h0 hc where "remote_head = Some h0" "commit_at cr keys st h0 hc" "names cr keys st (root_tree hc) x" by auto
    then show "get (view (snd s2)) x \<noteq> None" using wanted kept before unfolding durable_def by cases blast+
  qed
  moreover have "gains (\<lambda>x b. get st x = Some b) (view r) (view (snd s2))" by (auto simp: gains_def far split: if_splits)
  moreover have "get_ref (view (snd s1)) = get_ref (view r)" by (simp add: get_ref_def [abs_def] s1(3))
  ultimately show ?thesis using rnk s1(1) won(1,2) by simp
qed

end

section \<open>Properties\<close>


text \<open>The first publication of the example commit, to an empty server.\<close>

lemma mem_put_wanted:
  "\<forall>i. (i, True) \<in> set want \<longrightarrow> get st i \<noteq> None \<Longrightarrow>
     \<exists>r'. put_wanted (MemRemote cr) p want (st, r) = Some (Inr (), st, r') \<and> t_refs (mr_store r') = t_refs (mr_store r)"
proof (induction want arbitrary: r)
  case (Cons w want)
  obtain i required where w: "w = (i, required)" by (cases w)
  show ?case
  proof (cases "get st i")
    case None
    with Cons w show ?thesis by auto
  next
    case (Some b)
    from Cons.IH [of "r\<lparr>mr_store := stage p i b 0 (mr_store r)\<rparr>"] Cons.prems w Some show ?thesis
      by (auto simp: remote_call_def MemRemote_def mem_write_def stage_def)
  qed
qed simp

lemma ex_push_objects:
  "\<exists>r. push_objects ex_crypto (MemRemote ex_crypto) ex_keys ex_ours None (replicate 16 7) (ex_store, MemRemote_new Store_empty)
     = Some (Inr (), ex_store, r) \<and> t_refs (mr_store r) = []"
proof -
  let ?R = "MemRemote ex_crypto" and ?p = "replicate 16 7" and ?strict = "insort_insert (fst ex_tree) [ex_ours]"
  have dag: "load_commit_dag ex_crypto ex_keys ex_store [ex_ours] = Inr ([(ex_ours, [])], [(ex_ours, meta_of (ex_commit [5] 2))])"
    by (simp add: load_commit_dag_def commit_dag_loop.simps ex_opens(2) ex_commit_def meta_of_def bt_insert_def Let_def)
  have new: "new_commits [(ex_ours, [])] None ex_ours = [ex_ours]"
    by (simp add: new_commits_def ancestors_def ancestors_of_all_def ancestors_loop.simps parents_of_def insort_insert_key_def)
  have "tree_closure ex_crypto ex_keys ex_store (fst ex_tree) ex_salt [] [ex_ours] = Inr ?strict"
    using ex_tree_ne by (simp add: tree_closure_def closure_tree_loop.simps ex_opens(1) MAX_TREE_DEPTH_def)
  then have "push_objects ex_crypto ?R ex_keys ex_ours None ?p (ex_store, MemRemote_new Store_empty)
      = put_wanted ?R ?p (map (\<lambda>i. (i, True)) ?strict) (ex_store, MemRemote_new Store_empty)"
    by (simp add: push_objects_def reading_def dag new known_closure_def ex_opens(2) ex_commit_def)
  moreover have "\<forall>i. (i, True) \<in> set (map (\<lambda>i. (i, True)) ?strict) \<longrightarrow> get ex_store i \<noteq> None"
    using ex_at(1,2) by (auto simp: set_insort_insert)
  ultimately show ?thesis
    using mem_put_wanted [of _ ex_store ex_crypto ?p "MemRemote_new Store_empty"] by (simp add: MemRemote_new_def Store_empty_def)
qed

lemma ex_push_head:
  assumes "t_refs (mr_store r) = []"
  shows "\<exists>h blob r'. push_head ex_crypto toy_ssh (MemRemote ex_crypto) ex_keys [5] [109] ex_ours 0 None (Some (replicate 12 0)) p (ex_store, r)
     = Some (Inr (h, blob), ex_store, r')"
proof -
  let ?h = "\<lparr>ref_name = [109], commit_id = ex_ours, head_version = 1, roster_seq = 0, prev_head = NO_PREV_HEAD\<rparr> :: head"
  have wf: "head_wf (?h, [])"
    by (simp add: head_wf_def MAX_REF_NAME_def NO_PREV_HEAD_def ex_object_def sealed_commit_def)
  obtain rnk where rnk: "ref_name_key ex_crypto ex_keys = Some rnk" by (simp add: ref_name_key_def MasterKey_keys_def ex_mk_def MasterKey_new_def)
  obtain blob where b: "seal_head ex_crypto ex_mk rnk ?h [] (replicate 12 0) = Some blob"
    using encode_head_img [OF wf] by (simp add: seal_head_def case_prod_beta Let_def)
  have sg: "sign_head toy_ssh [5] ?h = Some (Inr [])"
    using head_sizes(1) [of 1] by (simp add: sign_head_def Head_signed_message_img DeviceKey_sign_def toy_ssh_def MAX_REF_NAME_def)
  have cur: "current ex_keys = Some ex_mk" by (simp add: MasterKey_keys_def)
  let ?f = "ref_hash ex_crypto rnk [109]"
  obtain r' where cas: "mem_cas_head ex_crypto ?f ABSENT_HEAD blob p r = (Inr True, r')"
    using assms by (simp add: mem_cas_head_def mem_write_def cas_ref_def blob_token_def case_prod_beta Let_def)
  have "push_head ex_crypto toy_ssh (MemRemote ex_crypto) ex_keys [5] [109] ex_ours 0 None (Some (replicate 12 0)) p (ex_store, r)
      = Some (Inr (?h, blob), ex_store, r')"
    by (simp add: push_head_def trying_def build_head_def sg reading_def rnk cur b remote_call_def MemRemote_def cas)
  then show ?thesis by blast
qed


end
