(* ===== verification/History.thy ===== *)
theory History
  imports Push
begin

text \<open>
  \<open>crates/secsec-client/src/history.rs\<close>: the history behind \<open>secsec log\<close>. The commits of a head are
  listed newest first by a topological sort with a heap of ready commits; the lemmas show that the
  counts of the sort never run below zero, that a commit is listed after all its children, and that
  on an acyclic history every commit is listed exactly once.
\<close>

section \<open>Topological order\<close>

function topo_load_loop :: "crypto \<Rightarrow> master_keys \<Rightarrow> store \<Rightarrow> bytes parent_map \<Rightarrow> (bytes, u64) btree \<Rightarrow> bytes list
    \<Rightarrow> snap_error + bytes parent_map \<times> (bytes, u64) btree" where
  "topo_load_loop cr keys st parents ts work =
     (if work = [] then Inr (parents, ts)
      else
        let c = last work; work = butlast work in
        if map_of parents c \<noteq> None then topo_load_loop cr keys st parents ts work
        else rbind (open_signed_commit cr keys c st) (\<lambda>(cm, sg).
          topo_load_loop cr keys st (bt_insert c (c_parents cm) parents) (bt_insert c (c_ts cm) ts)
            (work @ filter (\<lambda>p. map_of parents p = None) (c_parents cm))))"
  by pat_completeness auto
termination
proof (relation "measures [\<lambda>(_, _, st, parents, _). card (fst ` set (t_objects st) - dom (map_of parents)), \<lambda>(_, _, _, _, _, w). length w]", goal_cases)
  case (3 cr keys st parents ts work c work' x cm sg)
  have "card (fst ` set (t_objects st) - dom (map_of (bt_insert c (c_parents cm) parents)))
      < card (fst ` set (t_objects st) - dom (map_of parents))"
    by (rule card_unseen_less [where i = c])
      (use 3 in \<open>auto simp: open_signed_commit_def fetch_open_def rbind_eq_Inr get_def dom_def\<close>)
  then show ?case by simp
qed auto

declare topo_load_loop.simps [simp del]

definition count_child :: "bytes \<Rightarrow> (bytes, nat) btree \<Rightarrow> (bytes, nat) btree" where
  "count_child p m = bt_insert p ((case map_of m p of None \<Rightarrow> 0 | Some n \<Rightarrow> n) + 1) m"

definition count_children :: "bytes parent_map \<Rightarrow> (bytes, nat) btree" where
  "count_children parents = fold (\<lambda>(_, ps). fold count_child ps) parents (map (\<lambda>(k, _). (k, 0)) parents)"

definition ts_of :: "(bytes, u64) btree \<Rightarrow> bytes \<Rightarrow> u64" where
  "ts_of ts k = (case map_of ts k of None \<Rightarrow> 0 | Some t \<Rightarrow> t)"

text \<open>
  The binary heap is an ascending list, popped at its end. Taking one from a count of zero is an
  arithmetic overflow, which aborts.
\<close>

fun release :: "(bytes, u64) btree \<Rightarrow> bytes list \<Rightarrow> (bytes, nat) btree \<Rightarrow> (u64 \<times> bytes) list
    \<Rightarrow> ((bytes, nat) btree \<times> (u64 \<times> bytes) list) option" where
  "release ts [] counts ready = Some (counts, ready)"
| "release ts (p # ps) counts ready =
     (case map_of counts p of
        None \<Rightarrow> release ts ps counts ready
      | Some c \<Rightarrow>
          if c = 0 then None
          else release ts ps (bt_insert p (c - 1) counts) (if c - 1 = 0 then insort (ts_of ts p, p) ready else ready))"

definition total :: "(bytes, nat) btree \<Rightarrow> nat" where
  "total m = (\<Sum>k \<in> dom (map_of m). the (map_of m k))"

lemma total_decrement:
  assumes "map_of m p = Some c" "c \<noteq> 0"
  shows "total (bt_insert p (c - 1) m) + 1 = total m"
proof -
  have d: "dom (map_of (bt_insert p (c - 1) m)) = dom (map_of m)" using assms(1) by auto
  have p: "p \<in> dom (map_of m)" using assms(1) by auto
  have "(\<Sum>k \<in> dom (map_of m) - {p}. the (map_of (bt_insert p (c - 1) m) k)) = (\<Sum>k \<in> dom (map_of m) - {p}. the (map_of m k))"
    by (rule sum.cong) auto
  then show ?thesis
    using assms sum.remove [OF finite_dom_map_of p, of "\<lambda>k. the (map_of (bt_insert p (c - 1) m) k)"]
      sum.remove [OF finite_dom_map_of p, of "\<lambda>k. the (map_of m k)"]
    by (simp add: total_def d insert_absorb [OF p])
qed

lemma release_total: "release ts ps ch rd = Some (ch', rd') \<Longrightarrow> total ch' + length rd' \<le> total ch + length rd"
proof (induction ts ps ch rd rule: release.induct)
  case (2 ts p ps ch rd)
  show ?case
  proof (cases "map_of ch p")
    case None
    with 2 show ?thesis by simp
  next
    case (Some c)
    with "2.prems" have c: "c \<noteq> 0" by (auto split: if_splits)
    with 2 Some total_decrement [OF Some c] show ?thesis by (auto split: if_splits)
  qed
qed simp

function kahn_loop :: "bytes parent_map \<Rightarrow> (bytes, u64) btree \<Rightarrow> (bytes, nat) btree \<Rightarrow> (u64 \<times> bytes) list \<Rightarrow> bytes list \<Rightarrow> bytes list option" where
  "kahn_loop parents ts counts ready order =
     (if ready = [] then Some order
      else
        let cid = snd (last ready) in
        Option.bind (release ts (parents_of parents cid) counts (butlast ready)) (\<lambda>(counts, ready).
        kahn_loop parents ts counts ready (order @ [cid])))"
  by pat_completeness auto
termination
proof (relation "measure (\<lambda>(_, _, ch, rd, _). total ch + length rd)", goal_cases)
  case (2 parents ts counts ready order cid x counts' ready')
  have "total counts' + length ready' \<le> total counts + length (butlast ready)" by (rule release_total) (use 2 in simp)
  with 2(1) show ?case by (simp flip: length_greater_0_conv)
qed simp

declare kahn_loop.simps [simp del]

definition topo_order :: "crypto \<Rightarrow> master_keys \<Rightarrow> store \<Rightarrow> bytes \<Rightarrow> (client_error + bytes list) option" where
  "topo_order cr keys st head =
     orbind (Some (map_err CSnap (topo_load_loop cr keys st [] [] [head]))) (\<lambda>(parents, ts).
     let counts = count_children parents;
         ready = sort (map (\<lambda>(k, _). (ts_of ts k, k)) (filter (\<lambda>(_, c). c = 0) counts))
     in map_option Inr (kahn_loop parents ts counts ready []))"

section \<open>The counts\<close>

definition val :: "(bytes, nat) btree \<Rightarrow> bytes \<Rightarrow> nat" where
  "val m p = (case map_of m p of None \<Rightarrow> 0 | Some n \<Rightarrow> n)"

lemma val_count_child: "val (fold count_child ps m) p = val m p + count_list ps p"
  by (induction ps arbitrary: m) (auto simp: count_child_def val_def split: option.splits)

lemma dom_count_child: "dom (map_of (fold count_child ps m)) = dom (map_of m) \<union> set ps"
  by (induction ps arbitrary: m) (auto simp: count_child_def)

lemma count_lists:
  "val (fold (\<lambda>(_, ps). fold count_child ps) es m) p = val m p + sum_list (map (\<lambda>e. count_list (snd e) p) es)
   \<and> dom (map_of (fold (\<lambda>(_, ps). fold count_child ps) es m)) = dom (map_of m) \<union> \<Union> (set ` snd ` set es)"
  by (induction es arbitrary: m) (simp_all add: val_count_child dom_count_child case_prod_beta Un_assoc)

definition edges :: "bytes parent_map \<Rightarrow> bytes set \<Rightarrow> bytes \<Rightarrow> nat" where
  "edges parents C p = (\<Sum>c \<in> C. count_list (parents_of parents c) p)"

lemma edges_zero: "finite C \<Longrightarrow> edges parents C p = 0 \<longleftrightarrow> (\<forall>c \<in> C. p \<notin> set (parents_of parents c))"
  by (simp add: edges_def count_list_0_iff)

lemma sum_list_edges:
  "distinct (map fst es) \<Longrightarrow> sum_list (map (\<lambda>e. count_list (snd e) p) es) = edges es (dom (map_of es)) p"
proof (induction es)
  case (Cons e es)
  have "edges (e # es) (dom (map_of es)) p = edges es (dom (map_of es)) p"
    unfolding edges_def
  proof (intro sum.cong refl)
    fix c assume "c \<in> dom (map_of es)"
    then have "c \<noteq> fst e" using Cons.prems by (metis distinct.simps(2) dom_map_of_conv_image_fst list.set_map list.simps(9))
    then show "count_list (parents_of (e # es) c) p = count_list (parents_of es c) p" by (simp add: parents_of_def)
  qed
  moreover have "fst e \<notin> dom (map_of es)" using Cons.prems by (simp add: dom_map_of_conv_image_fst)
  then have "edges (e # es) (insert (fst e) (dom (map_of es))) p = count_list (snd e) p + edges (e # es) (dom (map_of es)) p"
    by (simp add: edges_def parents_of_def finite_dom_map_of del: map_of.simps(2)) simp
  moreover have "dom (map_of (e # es)) = insert (fst e) (dom (map_of es))" by (cases e) simp
  ultimately show ?case using Cons by (simp del: map_of.simps)
qed (simp add: edges_def)

text \<open>The counts of the sort: of each commit, how many times commits not yet listed name it as a parent.\<close>

definition counts_ok :: "bytes parent_map \<Rightarrow> (bytes, nat) btree \<Rightarrow> bytes list \<Rightarrow> bool" where
  "counts_ok parents counts order \<longleftrightarrow> dom (map_of counts) = dom (map_of parents)
     \<and> (\<forall>p \<in> dom (map_of parents). map_of counts p = Some (edges parents (dom (map_of parents) - set order) p))"

lemma count_children_ok:
  assumes "bt_wf parents" "dag_closed parents {}"
  shows "counts_ok parents (count_children parents) []" "bt_wf (count_children parents)"
proof -
  let ?z = "map (\<lambda>(k, _). (k, 0 :: nat)) parents"
  have z: "map fst ?z = map fst parents" by (induction parents) auto
  then have d: "dom (map_of ?z) = dom (map_of parents)"
    unfolding dom_map_of_conv_image_fst set_map [symmetric] by (rule arg_cong)
  have "val ?z p = 0" for p by (induction parents) (auto simp: val_def)
  moreover have "distinct (map fst parents)" using assms(1) by (simp add: bt_wf_def strict_sorted_iff)
  moreover have "set ps \<subseteq> dom (map_of parents)" if "(k, ps) \<in> set parents" for k ps
    using assms(2) map_of_is_SomeI [OF \<open>distinct (map fst parents)\<close> that] unfolding dag_closed_def by blast
  then have "\<Union> (set ` snd ` set parents) \<subseteq> dom (map_of parents)" by (simp add: UN_subset_iff split_paired_all)
  ultimately have "dom (map_of (count_children parents)) = dom (map_of parents)"
    "val (count_children parents) p = edges parents (dom (map_of parents)) p" for p
    using count_lists [of parents ?z] d sum_list_edges by (auto simp: count_children_def)
  then show "counts_ok parents (count_children parents) []"
    by (simp add: counts_ok_def val_def) (metis domD option.case(2))
  have "bt_wf m \<Longrightarrow> bt_wf (fold count_child ps m)" for m ps
    by (induction ps arbitrary: m) (auto simp: count_child_def)
  then have "bt_wf m \<Longrightarrow> bt_wf (fold (\<lambda>(_, ps). fold count_child ps) es m)" for m es
    by (induction es arbitrary: m) auto
  moreover have "bt_wf ?z" using assms(1) unfolding bt_wf_def z .
  ultimately show "bt_wf (count_children parents)" unfolding count_children_def .
qed

section \<open>Listing\<close>

lemma release_result:
  "\<forall>p \<in> set ps. \<exists>c. map_of counts p = Some c \<and> count_list ps p \<le> c \<Longrightarrow> distinct (map snd ready) \<Longrightarrow>
     set ps \<inter> snd ` set ready = {} \<Longrightarrow> \<exists>counts' ready'. release ts ps counts ready = Some (counts', ready')
     \<and> map_of counts' = (\<lambda>p. map_option (\<lambda>c. c - count_list ps p) (map_of counts p))
     \<and> distinct (map snd ready') \<and> snd ` set ready' = snd ` set ready \<union> {p \<in> set ps. map_of counts p = Some (count_list ps p)}"
proof (induction ps arbitrary: counts ready)
  case Nil
  then show ?case by (simp add: option.map_ident)
next
  case (Cons p ps)
  from Cons.prems(1) obtain c where c: "map_of counts p = Some c" "Suc (count_list ps p) \<le> c" by auto
  let ?counts = "bt_insert p (c - 1) counts" and ?ready = "if c - 1 = 0 then insort (ts_of ts p, p) ready else ready"
  have r: "release ts (p # ps) counts ready = release ts ps ?counts ?ready" using c by simp
  have snd: "snd ` set ?ready = (if c = 1 then insert p (snd ` set ready) else snd ` set ready)"
    using c(2) by (auto simp: set_insort_key)
  have none: "c = 1 \<Longrightarrow> p \<notin> set ps" using c(2) by (simp add: count_list_0_iff)
  have "(ts_of ts p, p) \<notin> set ready" using Cons.prems(3) by force
  then have c1: "distinct (map snd ?ready)"
    using Cons.prems(2,3) by (auto simp: distinct_map distinct_insort set_insort_key inj_on_def)
  have c2: "set ps \<inter> snd ` set ?ready = {}" unfolding snd using Cons.prems(3) none by auto
  have c0: "\<forall>q \<in> set ps. \<exists>d. map_of ?counts q = Some d \<and> count_list ps q \<le> d"
    using Cons.prems(1) c by auto
  from Cons.IH [OF c0 c1 c2] obtain counts' ready' where ih: "release ts ps ?counts ?ready = Some (counts', ready')"
    "map_of counts' = (\<lambda>q. map_option (\<lambda>d. d - count_list ps q) (map_of ?counts q))" "distinct (map snd ready')"
    "snd ` set ready' = snd ` set ?ready \<union> {q \<in> set ps. map_of ?counts q = Some (count_list ps q)}"
    by blast
  have "map_of counts' = (\<lambda>q. map_option (\<lambda>d. d - count_list (p # ps) q) (map_of counts q))"
    using c by (auto simp: ih(2) fun_eq_iff)
  moreover have "snd ` set ready' = snd ` set ready \<union> {q \<in> set (p # ps). map_of counts q = Some (count_list (p # ps) q)}"
  proof (rule set_eqI)
    fix q
    show "q \<in> snd ` set ready' \<longleftrightarrow> q \<in> snd ` set ready \<union> {q \<in> set (p # ps). map_of counts q = Some (count_list (p # ps) q)}"
    proof (cases "q = p")
      case True
      have "c = 1 \<or> p \<in> set ps \<and> c - 1 = count_list ps p \<longleftrightarrow> c = Suc (count_list ps p)"
        using c(2) none count_list_0_iff [of ps p] by (cases "p \<in> set ps") auto
      then show ?thesis using c(1) unfolding ih(4) snd True by auto
    next
      case False
      then show ?thesis unfolding ih(4) snd by auto
    qed
  qed
  ultimately show ?case using r ih(1,3) by (intro exI conjI) simp_all
qed

definition kahn_ok :: "bytes parent_map \<Rightarrow> (bytes, nat) btree \<Rightarrow> (u64 \<times> bytes) list \<Rightarrow> bytes list \<Rightarrow> bool" where
  "kahn_ok parents counts ready order \<longleftrightarrow> counts_ok parents counts order
     \<and> distinct order \<and> set order \<subseteq> dom (map_of parents)
     \<and> distinct (map snd ready) \<and> snd ` set ready = {p \<in> dom (map_of parents). map_of counts p = Some 0} - set order
     \<and> (\<forall>k < length order. \<forall>c. order ! k \<in> set (parents_of parents c) \<longrightarrow> c \<in> set (take k order))"

lemma parents_of_dom: "p \<in> set (parents_of parents c) \<Longrightarrow> c \<in> dom (map_of parents)"
  by (cases "map_of parents c") (auto simp: parents_of_def)

lemma listed_children:
  assumes "kahn_ok parents counts ready order" "i \<in> set order" "i \<in> set (parents_of parents c)"
  shows "c \<in> set order"
proof -
  from assms(2) obtain k where "k < length order" "order ! k = i" by (auto simp: in_set_conv_nth)
  with assms(1,3) have "c \<in> set (take k order)" unfolding kahn_ok_def by blast
  then show ?thesis by (rule in_set_takeD)
qed

lemma kahn_step:
  assumes ok: "kahn_ok parents counts ready order" and ne: "ready \<noteq> []" and cl: "dag_closed parents {}"
  defines "cid \<equiv> snd (last ready)"
  shows "\<exists>counts' ready'. release ts (parents_of parents cid) counts (butlast ready) = Some (counts', ready')
    \<and> kahn_ok parents counts' ready' (order @ [cid])"
proof -
  let ?D = "dom (map_of parents)" and ?ps = "parents_of parents cid"
  note ok' = ok [unfolded kahn_ok_def counts_ok_def]
  have snd_ready: "snd ` set ready = insert cid (snd ` set (butlast ready))" using set_work [OF ne] by (simp add: cid_def)
  have bl: "distinct (map snd (butlast ready))" "cid \<notin> snd ` set (butlast ready)"
  proof -
    have "map snd ready = map snd (butlast ready) @ [cid]" by (metis append_butlast_last_id cid_def list.simps(8,9) map_append ne)
    then show "distinct (map snd (butlast ready))" "cid \<notin> snd ` set (butlast ready)" using ok' by auto
  qed
  have cid: "cid \<in> ?D" "map_of counts cid = Some 0" "cid \<notin> set order" using ok' snd_ready by auto
  have free: "c \<in> set order" if "cid \<in> set (parents_of parents c)" for c
    using cid ok' that parents_of_dom [OF that] by (auto simp: edges_zero finite_dom_map_of)
  have minus: "?D - set (order @ [cid]) = ?D - set order - {cid}" by auto
  have split: "edges parents (?D - set order) p = count_list ?ps p + edges parents (?D - set (order @ [cid])) p" for p
    using sum.remove [of "?D - set order" cid "\<lambda>c. count_list (parents_of parents c) p"] cid
    unfolding minus edges_def by (simp add: finite_dom_map_of)
  have cnt: "map_of counts p = Some (edges parents (?D - set order) p)" if "p \<in> ?D" for p using ok' that by blast
  have "set ?ps \<subseteq> ?D" using cl cid(1) unfolding dag_closed_def parents_of_def by fastforce
  then have counts: "\<forall>p \<in> set ?ps. \<exists>c. map_of counts p = Some c \<and> count_list ?ps p \<le> c"
    using cnt split le_add1 by (metis (no_types, lifting) subsetD)
  have pos: "map_of counts p \<noteq> Some 0" if "p \<in> set ?ps" for p
    using counts that count_list_0_iff [of ?ps p] by auto
  moreover have "snd ` set ready \<subseteq> {p. map_of counts p = Some 0}" using ok unfolding kahn_ok_def by blast
  then have "snd ` set (butlast ready) \<subseteq> {p. map_of counts p = Some 0}" by (simp add: snd_ready)
  ultimately have "set ?ps \<inter> snd ` set (butlast ready) = {}" by blast
  from release_result [OF counts bl(1) this, of ts] obtain counts' ready' where
    rel: "release ts ?ps counts (butlast ready) = Some (counts', ready')"
    and c': "map_of counts' = (\<lambda>p. map_option (\<lambda>c. c - count_list ?ps p) (map_of counts p))"
    and r': "distinct (map snd ready')" "snd ` set ready' = snd ` set (butlast ready) \<union> {p \<in> set ?ps. map_of counts p = Some (count_list ?ps p)}"
    by blast
  have "counts_ok parents counts' (order @ [cid])"
    unfolding counts_ok_def using ok' split by (auto simp: c' dom_def)
  moreover have "snd ` set ready' = {p \<in> ?D. map_of counts' p = Some 0} - set (order @ [cid])"
  proof (rule set_eqI)
    fix p
    have listed: "p \<in> set order \<Longrightarrow> p \<notin> set ?ps" using listed_children [OF ok] cid(3) by blast
    have self: "cid \<notin> set ?ps" using free cid(3) by blast
    show "p \<in> snd ` set ready' \<longleftrightarrow> p \<in> {p \<in> ?D. map_of counts' p = Some 0} - set (order @ [cid])"
    proof (cases "p \<in> set ?ps")
      case True
      then obtain c where "map_of counts p = Some c" "count_list ?ps p \<le> c" using counts by blast
      moreover have "p \<notin> snd ` set (butlast ready)" using \<open>set ?ps \<inter> snd ` set (butlast ready) = {}\<close> True by blast
      moreover have "p \<in> ?D" "p \<notin> set order" "p \<noteq> cid" using True \<open>set ?ps \<subseteq> ?D\<close> listed self by auto
      ultimately show ?thesis using True by (auto simp: r'(2) c')
    next
      case False
      then have "count_list ?ps p = 0" by (simp add: count_list_0_iff)
      then have "map_of counts' p = map_of counts p" by (simp add: c' option.map_ident)
      moreover have "p \<in> snd ` set (butlast ready) \<longleftrightarrow> p \<in> snd ` set ready \<and> p \<noteq> cid" using snd_ready bl(2) by auto
      ultimately show ?thesis using False ok' by (auto simp: r'(2))
    qed
  qed
  moreover have "\<forall>k < length (order @ [cid]). \<forall>c. (order @ [cid]) ! k \<in> set (parents_of parents c) \<longrightarrow> c \<in> set (take k (order @ [cid]))"
    using ok' free by (auto simp: nth_append less_Suc_eq)
  ultimately show ?thesis using rel r'(1) ok' cid unfolding kahn_ok_def by auto
qed

lemma kahn_loop_ok:
  "kahn_ok parents counts ready order \<Longrightarrow> dag_closed parents {} \<Longrightarrow>
     \<exists>out counts'. kahn_loop parents ts counts ready order = Some out \<and> kahn_ok parents counts' [] out"
proof (induction parents ts counts ready order rule: kahn_loop.induct)
  case (1 parents ts counts ready order)
  show ?case
  proof (cases "ready = []")
    case True
    with "1.prems"(1) show ?thesis by (auto simp: kahn_loop.simps)
  next
    case False
    from kahn_step [OF "1.prems"(1) False "1.prems"(2), of ts] obtain counts' ready' where
      r: "release ts (parents_of parents (snd (last ready))) counts (butlast ready) = Some (counts', ready')"
      "kahn_ok parents counts' ready' (order @ [snd (last ready)])" by blast
    from "1.IH" [OF False refl r(1) refl r(2) "1.prems"(2)] False r(1) show ?thesis
      by (simp add: kahn_loop.simps [of parents ts counts ready order])
  qed
qed

lemma kahn_complete:
  assumes ok: "kahn_ok parents counts [] order" and acyclic: "acyclic {(p, c). p \<in> set (parents_of parents c)}"
  shows "set order = dom (map_of parents)"
proof (rule ccontr)
  let ?D = "dom (map_of parents)" and ?r = "{(p, c). p \<in> set (parents_of parents c)}"
  let ?left = "?D - set order"
  assume "set order \<noteq> ?D"
  then have ne: "?left \<noteq> {}" using ok unfolding kahn_ok_def by blast
  have "?r \<subseteq> (\<Union>c \<in> ?D. set (parents_of parents c) \<times> {c})" using parents_of_dom by fastforce
  then have "finite ?r" by (rule finite_subset) (simp add: finite_dom_map_of)
  then have "wf (?r\<inverse>)" using acyclic by (rule finite_acyclic_wf_converse)
  then obtain m where m: "m \<in> ?left" "\<And>c. (c, m) \<in> ?r\<inverse> \<Longrightarrow> c \<notin> ?left" using ne by (rule wfE_min') blast
  then have "edges parents ?left m = 0" by (auto simp: edges_zero finite_dom_map_of)
  moreover have "map_of counts m = Some (edges parents ?left m)" using m(1) ok unfolding kahn_ok_def counts_ok_def by blast
  moreover have "{p \<in> ?D. map_of counts p = Some 0} \<subseteq> set order" using ok unfolding kahn_ok_def by simp
  ultimately show False using m(1) by auto
qed

section \<open>The order of a head's history\<close>

lemma topo_load_loop_dag:
  "topo_load_loop cr keys st parents ts work = Inr (p', ts') \<Longrightarrow> bt_wf parents \<Longrightarrow>
     (\<exists>m'. commit_dag_loop cr keys st parents meta work = Inr (p', m')) \<and> bt_wf p'"
proof (induction cr keys st parents ts work arbitrary: meta rule: topo_load_loop.induct)
  case (1 cr keys st parents ts work)
  note step = "1.prems"(1) [unfolded topo_load_loop.simps [of cr keys st parents ts work] Let_def]
  note dag = commit_dag_loop.simps [of cr keys st parents meta work, unfolded Let_def]
  consider "work = []" | "work \<noteq> []" "map_of parents (last work) \<noteq> None" | "work \<noteq> []" "map_of parents (last work) = None" by blast
  then show ?case
  proof cases
    case 1
    with step "1.prems"(2) show ?thesis unfolding dag by simp
  next
    case 2
    with step have "topo_load_loop cr keys st parents ts (butlast work) = Inr (p', ts')" by auto
    from "1.IH"(1) [OF 2(1) refl refl 2(2) this "1.prems"(2), of meta] 2 show ?thesis unfolding dag by auto
  next
    case 3
    with step obtain cm sg where o: "open_signed_commit cr keys (last work) st = Inr (cm, sg)"
      "topo_load_loop cr keys st (bt_insert (last work) (c_parents cm) parents) (bt_insert (last work) (c_ts cm) ts)
         (butlast work @ filter (\<lambda>p. map_of parents p = None) (c_parents cm)) = Inr (p', ts')"
      by (auto simp: rbind_eq_Inr)
    have n: "\<not> map_of parents (last work) \<noteq> None" using 3(2) by simp
    from "1.IH"(2) [OF 3(1) refl refl n o(1) refl o(2)] "1.prems"(2) 3 o(1) show ?thesis unfolding dag by auto
  qed
qed

lemma topo_load_loop_total:
  assumes "\<And>i. i \<in> H \<Longrightarrow> \<exists>c. commit_at cr keys st i c \<and> set (c_parents c) \<subseteq> H"
  shows "set work \<subseteq> H \<Longrightarrow> \<exists>p ts'. topo_load_loop cr keys st parents ts work = Inr (p, ts')"
  using assms
proof (induction cr keys st parents ts work rule: topo_load_loop.induct)
  case (1 cr keys st parents ts work)
  note step = topo_load_loop.simps [of cr keys st parents ts work, unfolded Let_def]
  consider "work = []" | "work \<noteq> []" "map_of parents (last work) \<noteq> None" | "work \<noteq> []" "map_of parents (last work) = None" by blast
  then show ?case
  proof cases
    case 1
    then show ?thesis unfolding step by simp
  next
    case 2
    then show ?thesis using "1.IH"(1) [OF 2(1) refl refl 2(2)] "1.prems" unfolding step by (auto dest: in_set_butlastD)
  next
    case 3
    have "last work \<in> H" using last_in_set [OF 3(1)] "1.prems"(1) by blast
    from "1.prems"(2) [OF this] obtain c sg where c: "open_signed_commit cr keys (last work) st = Inr (c, sg)" "set (c_parents c) \<subseteq> H"
      unfolding commit_at_def by blast
    have n: "\<not> map_of parents (last work) \<noteq> None" using 3(2) by simp
    have "set (butlast work @ filter (\<lambda>p. map_of parents p = None) (c_parents c)) \<subseteq> H" using "1.prems"(1) c(2) by (auto dest: in_set_butlastD)
    from "1.IH"(2) [OF 3(1) refl refl n c(1) refl this "1.prems"(2)] 3 c(1) show ?thesis unfolding step by auto
  qed
qed

lemma topo_order_listed:
  assumes "topo_load_loop cr keys st [] [] [head] = Inr (parents, ts)"
  shows "\<exists>order counts. topo_order cr keys st head = Some (Inr order) \<and> kahn_ok parents counts [] order"
    and "dom (map_of parents) = {i. history cr keys st head i}"
    and "i \<in> dom (map_of parents) \<Longrightarrow> \<exists>c. commit_at cr keys st i c \<and> parents_of parents i = c_parents c"
proof -
  from topo_load_loop_dag [OF assms, of "[]"] obtain meta where "load_commit_dag cr keys st [head] = Inr (parents, meta)" and wf: "bt_wf parents"
    by (auto simp: load_commit_dag_def bt_wf_def)
  note ex = load_commit_dag_exact [OF this(1)]
  let ?counts = "count_children parents"
  let ?ready = "sort (map (\<lambda>(k, _). (ts_of ts k, k)) (filter (\<lambda>(_, c). c = 0) ?counts))"
  note c = count_children_ok [OF wf ex(2)]
  have key: "map_of ?counts k = Some n \<longleftrightarrow> (k, n) \<in> set ?counts" for k n
    using c(2) by (auto simp: bt_wf_def strict_sorted_iff)
  have ready: "distinct (map snd ?ready)" "snd ` set ?ready = {p. map_of ?counts p = Some 0}"
  proof -
    let ?raw = "map (\<lambda>(k, _). (ts_of ts k, k)) (filter (\<lambda>(_, c). c = 0) ?counts)"
    have "map snd ?raw = map fst (filter (\<lambda>(_, c). c = 0) ?counts)" by (simp add: case_prod_beta o_def)
    moreover have "distinct (map fst ?counts)" using c(2) by (simp add: bt_wf_def strict_sorted_iff)
    ultimately have "distinct (map snd ?raw)" by (metis distinct_map_filter)
    then show "distinct (map snd ?ready)" by (simp only: distinct_map distinct_sort set_sort)
    show "snd ` set ?ready = {p. map_of ?counts p = Some 0}" unfolding key by force
  qed
  have "kahn_ok parents ?counts ?ready []" using c(1) ready unfolding kahn_ok_def counts_ok_def by auto
  from kahn_loop_ok [OF this ex(2), of ts] show "\<exists>order counts. topo_order cr keys st head = Some (Inr order) \<and> kahn_ok parents counts [] order"
    by (auto simp: topo_order_def assms)
  show "dom (map_of parents) = {i. history cr keys st head i}" using ex(3) by simp
  show "\<exists>c. commit_at cr keys st i c \<and> parents_of parents i = c_parents c" if "i \<in> dom (map_of parents)"
    using dag_sound_at [OF ex(1) that] by (metis option.case(2) parents_of_def)
qed

section \<open>Log and path history\<close>

fun option_commit :: "crypto \<Rightarrow> master_keys \<Rightarrow> store \<Rightarrow> bytes list \<Rightarrow> snap_error + commit option" where
  "option_commit cr keys st [] = Inr None"
| "option_commit cr keys st (p # _) = rbind (open_signed_commit cr keys p st) (\<lambda>(pc, _). Inr (Some pc))"

text \<open>The paths a commit changed against its first parent.\<close>

definition commit_changes :: "crypto \<Rightarrow> master_keys \<Rightarrow> store \<Rightarrow> commit \<Rightarrow> snap_error + bytes list" where
  "commit_changes cr keys st c =
     rbind (option_commit cr keys st (c_parents c)) (\<lambda>parent.
     changed_paths cr keys st (map_option (\<lambda>p. (root_tree p, root_salt p)) parent) (Some (root_tree c, root_salt c)))"

record log_entry =
  le_commit_id :: bytes
  le_device_id :: bytes
  le_version :: u64
  le_ts :: u64
  le_parents :: "bytes list"
  le_changed :: "bytes list"

fun log_entries :: "crypto \<Rightarrow> master_keys \<Rightarrow> store \<Rightarrow> bytes list \<Rightarrow> snap_error + log_entry list" where
  "log_entries cr keys st [] = Inr []"
| "log_entries cr keys st (i # order) =
     rbind (open_signed_commit cr keys i st) (\<lambda>(c, _).
     rbind (commit_changes cr keys st c) (\<lambda>changed.
     rbind (log_entries cr keys st order) (\<lambda>rest.
     Inr (\<lparr>le_commit_id = i, le_device_id = c_device_id c, le_version = c_version c, le_ts = c_ts c,
       le_parents = c_parents c, le_changed = changed\<rparr> # rest))))"

definition repo_log :: "crypto \<Rightarrow> master_keys \<Rightarrow> store \<Rightarrow> bytes \<Rightarrow> (client_error + log_entry list) option" where
  "repo_log cr keys st head =
     orbind (topo_order cr keys st head) (\<lambda>order. Some (map_err CSnap (log_entries cr keys st order)))"

definition content_key :: "path_node option \<Rightarrow> bytes list option" where
  "content_key node =
     (case node of Some (PFile _ _ _ _ chunks) \<Rightarrow> Some chunks | Some (PDir subtree _) \<Rightarrow> Some [subtree] | None \<Rightarrow> None)"

datatype path_state = Resolved "path_node option" | Pruned

definition resolve_state :: "crypto \<Rightarrow> master_keys \<Rightarrow> store \<Rightarrow> bytes \<Rightarrow> bytes \<Rightarrow> bytes \<Rightarrow> snap_error + path_state" where
  "resolve_state cr keys st rt rs path =
     (case resolve_path cr keys st rt rs path of
        Inr node \<Rightarrow> Inr (Resolved node)
      | Inl (Missing _) \<Rightarrow> Inr Pruned
      | Inl e \<Rightarrow> Inl e)"

record path_version =
  pv_commit_id :: bytes
  pv_device_id :: bytes
  pv_ts :: u64
  pv_present :: bool
  pv_is_dir :: bool

definition version_at :: "crypto \<Rightarrow> master_keys \<Rightarrow> store \<Rightarrow> bytes \<Rightarrow> bytes \<Rightarrow> snap_error + path_version option" where
  "version_at cr keys st path i =
     rbind (open_signed_commit cr keys i st) (\<lambda>(c, _).
     rbind (resolve_state cr keys st (root_tree c) (root_salt c) path) (\<lambda>s.
     case s of
       Pruned \<Rightarrow> Inr None
     | Resolved cur \<Rightarrow>
         rbind (option_commit cr keys st (c_parents c)) (\<lambda>pc.
         rbind (case pc of None \<Rightarrow> Inr (Resolved None) | Some p \<Rightarrow> resolve_state cr keys st (root_tree p) (root_salt p) path) (\<lambda>parent.
         let changed = (case parent of Resolved p \<Rightarrow> content_key cur \<noteq> content_key p | Pruned \<Rightarrow> cur \<noteq> None)
         in Inr (if changed then Some \<lparr>pv_commit_id = i, pv_device_id = c_device_id c, pv_ts = c_ts c, pv_present = (cur \<noteq> None),
              pv_is_dir = (case cur of Some (PDir _ _) \<Rightarrow> True | _ \<Rightarrow> False)\<rparr> else None)))))"

fun path_versions :: "crypto \<Rightarrow> master_keys \<Rightarrow> store \<Rightarrow> bytes \<Rightarrow> bytes list \<Rightarrow> snap_error + path_version list" where
  "path_versions cr keys st path [] = Inr []"
| "path_versions cr keys st path (i # order) =
     rbind (version_at cr keys st path i) (\<lambda>v.
     rbind (path_versions cr keys st path order) (\<lambda>rest.
     Inr (case v of None \<Rightarrow> rest | Some v \<Rightarrow> v # rest)))"

definition path_history :: "crypto \<Rightarrow> master_keys \<Rightarrow> store \<Rightarrow> bytes \<Rightarrow> bytes \<Rightarrow> (client_error + path_version list) option" where
  "path_history cr keys st head path =
     orbind (topo_order cr keys st head) (\<lambda>order. Some (map_err CSnap (path_versions cr keys st path order)))"

section \<open>Fetching the history\<close>

fun fetch_trees :: "crypto \<Rightarrow> 'r remote \<Rightarrow> master_keys \<Rightarrow> bytes \<Rightarrow> bytes list \<Rightarrow> store \<times> 'r
    \<Rightarrow> ((client_error + unit) \<times> store \<times> 'r) option" where
  "fetch_trees cr R keys head [] s = Some (Inr (), s)"
| "fetch_trees cr R keys head (i # order) s =
     sbind (reading CSnap s (open_signed_commit cr keys i (fst s))) (\<lambda>(c, _) s.
     case fetch_tree cr R keys (root_tree c) (root_salt c) WalkTrees s of
       None \<Rightarrow> None
     | Some (Inr _, s) \<Rightarrow> fetch_trees cr R keys head order s
     | Some (Inl e, s) \<Rightarrow>
         (case e of
            MissingRemote _ \<Rightarrow> if i \<noteq> head then fetch_trees cr R keys head order s else Some (Inl e, s)
          | _ \<Rightarrow> Some (Inl e, s)))"

definition fetch_history :: "crypto \<Rightarrow> ssh \<Rightarrow> 'r remote \<Rightarrow> master_keys \<Rightarrow> (bytes, bytes) btree \<Rightarrow> bytes \<Rightarrow> store \<times> 'r
    \<Rightarrow> ((client_error + unit) \<times> store \<times> 'r) option" where
  "fetch_history cr ss R keys ever head s =
     sbind (fetch_commits cr R keys head s) (\<lambda>_ s.
     sbind (trying id s (topo_order cr keys (fst s) head)) (\<lambda>order s.
     sbind (trying CMerge s (verify_commits cr ss keys (fst s) (fold insort_insert order []) ever)) (\<lambda>_ s.
     fetch_trees cr R keys head order s)))"

section \<open>Properties\<close>

text \<open>
  C31: the log is a topological order of the history. If every commit reachable from the head opens,
  \<open>topo_order\<close> returns (its counters never underflow) a list without repetition of commits of the
  history, in which a commit comes after every commit of the history that has it as a parent; on a
  history without cycles, as content addressing makes it, every commit is listed.
\<close>

theorem topo_order_correct:
  assumes "\<And>i. history cr keys st head i \<Longrightarrow> \<exists>c. commit_at cr keys st i c"
  shows "\<exists>order. topo_order cr keys st head = Some (Inr order) \<and> distinct order \<and> set order \<subseteq> {i. history cr keys st head i}
    \<and> (\<forall>k < length order. \<forall>i c. history cr keys st head i \<longrightarrow> commit_at cr keys st i c \<longrightarrow> order ! k \<in> set (c_parents c) \<longrightarrow> i \<in> set (take k order))
    \<and> (acyclic {(p, i). history cr keys st head i \<and> (\<exists>c. commit_at cr keys st i c \<and> p \<in> set (c_parents c))}
         \<longrightarrow> set order = {i. history cr keys st head i})"
proof -
  have "\<exists>c. commit_at cr keys st i c \<and> set (c_parents c) \<subseteq> {i. history cr keys st head i}" if "i \<in> {i. history cr keys st head i}" for i
    using assms [of i] that history.parent by blast
  from topo_load_loop_total [OF this, of "[head]"] obtain parents ts where l: "topo_load_loop cr keys st [] [] [head] = Inr (parents, ts)"
    using history.head by fastforce
  note t = topo_order_listed [OF l]
  from t(1) obtain order counts where o: "topo_order cr keys st head = Some (Inr order)" "kahn_ok parents counts [] order" by blast
  have at: "commit_at cr keys st i c \<Longrightarrow> history cr keys st head i \<Longrightarrow> parents_of parents i = c_parents c" for i c
    using t(3) [of i] commit_at_unique unfolding t(2) by blast
  moreover have "p \<in> set (parents_of parents i) \<Longrightarrow> history cr keys st head i \<and> (\<exists>c. commit_at cr keys st i c \<and> p \<in> set (c_parents c))" for p i
    using t(3) [of i] parents_of_dom [of p parents i] unfolding t(2) by auto
  ultimately have e: "{(p, i). history cr keys st head i \<and> (\<exists>c. commit_at cr keys st i c \<and> p \<in> set (c_parents c))}
      = {(p, i). p \<in> set (parents_of parents i)}" by auto
  show ?thesis
    using o(1) o(2) [unfolded kahn_ok_def] at kahn_complete [OF o(2)] unfolding e t(2) by (intro exI [of _ order]) auto
qed

theorem topo_order_correct_witness: "topo_order ex_crypto ex_keys ex_store ex_ours = Some (Inr [ex_ours])"
proof -
  have c: "commit_at ex_crypto ex_keys ex_store ex_ours c \<longleftrightarrow> c = ex_commit [5] 2" for c
    using ex_opens(2) by (auto simp: commit_at_def)
  have "history ex_crypto ex_keys ex_store ex_ours i \<Longrightarrow> i = ex_ours" for i
    by (induction rule: history.induct) (auto simp: c ex_commit_def)
  then have h: "history ex_crypto ex_keys ex_store ex_ours i \<longleftrightarrow> i = ex_ours" for i using history.head by metis
  then have "\<exists>d. commit_at ex_crypto ex_keys ex_store i d" if "history ex_crypto ex_keys ex_store ex_ours i" for i
    using that c by simp
  note t = topo_order_correct [of ex_crypto ex_keys ex_store ex_ours, OF this]
  have e: "{(p, i). history ex_crypto ex_keys ex_store ex_ours i \<and> (\<exists>d. commit_at ex_crypto ex_keys ex_store i d \<and> p \<in> set (c_parents d))} = {}"
    by (auto simp: h c ex_commit_def)
  from t [unfolded e] obtain order where o: "topo_order ex_crypto ex_keys ex_store ex_ours = Some (Inr order)" "distinct order" "set order = {ex_ours}"
    by (auto simp: h acyclic_def)
  then have "order = [ex_ours]" by (cases order; cases "tl order") auto
  with o(1) show ?thesis by simp
qed

end
