(* ===== verification/Roster.thy ===== *)
theory Roster
  imports Head
begin

text \<open>
  \<open>crates/secsec-roster\<close>: the sigchain of membership entries, its fold into the roster state, the
  per-entry sealing, the key histories, cold start, and the revoke-then-rotate operations. The
  entry salt is a parameter (\<open>None\<close> when the generator fails); writing a field longer than 32 bits
  can count aborts, which is the outer \<open>None\<close>.
\<close>

section \<open>Entries\<close>

datatype roster_op =
    Genesis (op_pubkey: bytes) (op_commit: bytes) (op_enroll: bytes)
  | AddDevice (op_pubkey: bytes) (op_commit: bytes) (op_enroll: bytes)
  | RevokeDevice (op_device: bytes)
  | Rotate (op_commit: bytes)
  | SetMinAlgo (op_min_algo: u8)

record entry =
  e_seq :: u64
  e_prev :: bytes
  e_op :: roster_op
  e_ts :: u64
  e_signer :: bytes
  e_sig :: bytes

datatype roster_error =
    RosterEmpty | BadGenesis | RfpMismatch | DoubleGenesis | BadSeq | ChainBreak | NotMember
  | BadSignature | BadOp | BadCommit | SelfRevoke | RosterCanon canon_error | RosterFrame frame_error
  | RosterAead | BadGeneration | MkCommitMismatch | RosterRng | RosterSig sig_error

fun encode_op :: "roster_op \<Rightarrow> writer \<Rightarrow> writer" where
  "encode_op (Genesis pk mkc en) w = writes [Writer_u8 0, Writer_bytes pk, Writer_raw mkc, Writer_bytes en] w"
| "encode_op (AddDevice pk mkc en) w = writes [Writer_u8 1, Writer_bytes pk, Writer_raw mkc, Writer_bytes en] w"
| "encode_op (RevokeDevice d) w = writes [Writer_u8 2, Writer_raw d] w"
| "encode_op (Rotate mkc) w = writes [Writer_u8 3, Writer_raw mkc] w"
| "encode_op (SetMinAlgo a) w = writes [Writer_u8 4, Writer_u8 a] w"

definition signed_bytes :: "u64 \<Rightarrow> bytes \<Rightarrow> roster_op \<Rightarrow> u64 \<Rightarrow> bytes \<Rightarrow> bytes option" where
  "signed_bytes sq prev op ts signer =
     Writer_finish (writes [Writer_u64 sq, Writer_raw prev, encode_op op, Writer_u64 ts, Writer_raw signer] Writer_new)"

definition encode_entry :: "entry \<Rightarrow> bytes option" where
  "encode_entry e =
     Writer_finish (writes [Writer_u64 (e_seq e), Writer_raw (e_prev e), encode_op (e_op e), Writer_u64 (e_ts e),
       Writer_raw (e_signer e), Writer_bytes (e_sig e)] Writer_new)"

definition read_grant :: "(bytes \<Rightarrow> bytes \<Rightarrow> bytes \<Rightarrow> roster_op) \<Rightarrow> reader \<Rightarrow> roster_error + roster_op \<times> reader" where
  "read_grant mk r =
     rbind (map_err RosterCanon (Reader_bytes MAX_ROSTER_ENTRY_SIZE r)) (\<lambda>(pk, r).
     rbind (map_err RosterCanon (Reader_raw 32 r)) (\<lambda>(mkc, r).
     rbind (map_err RosterCanon (Reader_bytes MAX_ROSTER_ENTRY_SIZE r)) (\<lambda>(en, r).
     Inr (mk pk mkc en, r))))"

definition decode_op :: "reader \<Rightarrow> roster_error + roster_op \<times> reader" where
  "decode_op r =
     rbind (map_err RosterCanon (Reader_u8 r)) (\<lambda>(tag, r).
     if tag = 0 then read_grant Genesis r
     else if tag = 1 then read_grant AddDevice r
     else if tag = 2 then rbind (map_err RosterCanon (Reader_raw 32 r)) (\<lambda>(d, r). Inr (RevokeDevice d, r))
     else if tag = 3 then rbind (map_err RosterCanon (Reader_raw 32 r)) (\<lambda>(c, r). Inr (Rotate c, r))
     else if tag = 4 then rbind (map_err RosterCanon (Reader_u8 r)) (\<lambda>(a, r). Inr (SetMinAlgo a, r))
     else Inl BadOp)"

definition decode_entry :: "bytes \<Rightarrow> roster_error + entry" where
  "decode_entry b =
     rbind (map_err RosterCanon (Reader_u64 (Reader_new b))) (\<lambda>(sq, r).
     rbind (map_err RosterCanon (Reader_raw 32 r)) (\<lambda>(prev, r).
     rbind (decode_op r) (\<lambda>(op, r).
     rbind (map_err RosterCanon (Reader_u64 r)) (\<lambda>(ts, r).
     rbind (map_err RosterCanon (Reader_raw 32 r)) (\<lambda>(signer, r).
     rbind (map_err RosterCanon (Reader_bytes MAX_ROSTER_ENTRY_SIZE r)) (\<lambda>(sg, r).
     rbind (map_err RosterCanon (Reader_finish r)) (\<lambda>_.
     let e = \<lparr>e_seq = sq, e_prev = prev, e_op = op, e_ts = ts, e_signer = signer, e_sig = sg\<rparr> in
     rbind (map_err RosterCanon (verify_reencode b e encode_entry)) (\<lambda>_. Inr e))))))))"

definition entry_hash :: "crypto \<Rightarrow> entry \<Rightarrow> bytes option" where
  "entry_hash cr e = map_option (hash cr) (encode_entry e)"

section \<open>Sealed entries\<close>

definition ad_roster_v1 :: "frame \<Rightarrow> u64 \<Rightarrow> bytes" where
  "ad_roster_v1 f sq = Frame_encode f @ le_bytes 8 sq"

definition ad_roster_v2 :: "frame \<Rightarrow> u64 \<Rightarrow> bytes \<Rightarrow> bytes" where
  "ad_roster_v2 f sq salt = ad_roster_v1 f sq @ salt"

definition seal_entry_with_salt :: "crypto \<Rightarrow> bytes \<Rightarrow> u32 \<Rightarrow> u64 \<Rightarrow> bytes \<Rightarrow> bytes \<Rightarrow> bytes" where
  "seal_entry_with_salt cr rk g sq salt pt =
     (let k = roster_entry_key_v2 cr rk sq salt;
          f = Frame_v2 g TRosterEntry;
          (ctx_tag, ct) = seal cr k (ad_roster_v2 f sq salt) pt
      in Frame_encode f @ salt @ ctx_tag @ ct)"

definition seal_entry :: "crypto \<Rightarrow> bytes option \<Rightarrow> bytes \<Rightarrow> u32 \<Rightarrow> u64 \<Rightarrow> bytes \<Rightarrow> roster_error + bytes" where
  "seal_entry cr rng rk g sq pt =
     rbind (ok_or RosterRng rng) (\<lambda>salt. Inr (seal_entry_with_salt cr rk g sq salt pt))"

definition seal_entry_v1 :: "crypto \<Rightarrow> bytes \<Rightarrow> u32 \<Rightarrow> u64 \<Rightarrow> bytes \<Rightarrow> bytes" where
  "seal_entry_v1 cr rk g sq pt =
     (let f = Frame_v1 g TRosterEntry;
          (ctx_tag, ct) = seal cr (roster_entry_key cr rk sq) (ad_roster_v1 f sq) pt
      in assemble_blob f ctx_tag ct)"

definition open_entry :: "crypto \<Rightarrow> bytes \<Rightarrow> u32 \<Rightarrow> u64 \<Rightarrow> bytes \<Rightarrow> roster_error + bytes" where
  "open_entry cr rk g sq stored =
     (if length stored < FRAME_LEN then Inl (RosterFrame ShortBlob) else
      rbind (map_err RosterFrame (Frame_decode (take FRAME_LEN stored))) (\<lambda>h.
      if Frame_is_v2 h then
        let f = Frame_v2 g TRosterEntry in
        rbind (map_err RosterFrame (parse_frame_prefix stored f)) (\<lambda>rs.
        if length rs < ROSTER_ENTRY_SALT_LEN + CTX_TAG_LEN then Inl (RosterFrame ShortBlob) else
        let salt = take ROSTER_ENTRY_SALT_LEN rs; rs = drop ROSTER_ENTRY_SALT_LEN rs;
            tag = take CTX_TAG_LEN rs; ct = drop CTX_TAG_LEN rs in
        map_err (\<lambda>_. RosterAead) (open_ctx cr (roster_entry_key_v2 cr rk sq salt) (ad_roster_v2 f sq salt) tag ct))
      else
        let f = Frame_v1 g TRosterEntry in
        rbind (map_err RosterFrame (parse_blob stored f)) (\<lambda>(tag, ct).
        map_err (\<lambda>_. RosterAead) (open_ctx cr (roster_entry_key cr rk sq) (ad_roster_v1 f sq) tag ct))))"

section \<open>Key histories\<close>

definition ROSTER_KEY_LEN :: nat where "ROSTER_KEY_LEN = 32"
definition ROSTER_KEYHIST_LEN :: nat where "ROSTER_KEYHIST_LEN = CTX_TAG_LEN + ROSTER_KEY_LEN"
definition DATA_KEYHIST_LEN :: nat where "DATA_KEYHIST_LEN = CTX_TAG_LEN + 32"

definition seal_roster_keyhist :: "crypto \<Rightarrow> bytes \<Rightarrow> u32 \<Rightarrow> bytes \<Rightarrow> bytes" where
  "seal_roster_keyhist cr rk_next g rk =
     (let (tag, ct) = seal cr (roster_keyhist_key cr rk_next g) (Frame_encode (Frame_v1 g TRosterKeyhist)) rk
      in tag @ ct)"

definition open_key_wrap :: "crypto \<Rightarrow> bytes \<Rightarrow> frame \<Rightarrow> bytes \<Rightarrow> roster_error + bytes" where
  "open_key_wrap cr k f stored =
     (if length stored \<noteq> CTX_TAG_LEN + ROSTER_KEY_LEN then Inl RosterAead
      else map_err (\<lambda>_. RosterAead) (open_ctx cr k (Frame_encode f) (take CTX_TAG_LEN stored) (drop CTX_TAG_LEN stored)))"

definition open_roster_keyhist :: "crypto \<Rightarrow> bytes \<Rightarrow> u32 \<Rightarrow> bytes \<Rightarrow> roster_error + bytes" where
  "open_roster_keyhist cr rk_next g stored =
     open_key_wrap cr (roster_keyhist_key cr rk_next g) (Frame_v1 g TRosterKeyhist) stored"

text \<open>The peel loop from generation \<open>g\<close>, whose key is the last one found, down to 1.\<close>

fun peel_loop :: "(bytes \<Rightarrow> u32 \<Rightarrow> bytes \<Rightarrow> roster_error + bytes) \<Rightarrow> nat \<Rightarrow> bytes \<Rightarrow> (u32, bytes) btree \<Rightarrow> (u32, bytes) btree
    \<Rightarrow> roster_error + (u32, bytes) btree" where
  "peel_loop open_wrap g next history keys =
     (if 1 < g then
        rbind (ok_or RosterAead (map_of history (of_nat (g - 1)))) (\<lambda>wrap.
        rbind (open_wrap next (of_nat (g - 1)) wrap) (\<lambda>prev.
        peel_loop open_wrap (g - 1) prev history (bt_insert (of_nat (g - 1)) prev keys)))
      else Inr keys)"

declare peel_loop.simps [simp del]

definition peel_roster_keys :: "crypto \<Rightarrow> bytes \<Rightarrow> u32 \<Rightarrow> (u32, bytes) btree \<Rightarrow> roster_error + (u32, bytes) btree" where
  "peel_roster_keys cr rk current_gen history =
     peel_loop (open_roster_keyhist cr) (unat current_gen) rk history (bt_insert current_gen rk [])"

definition seal_data_keyhist :: "crypto \<Rightarrow> bytes \<Rightarrow> u32 \<Rightarrow> bytes \<Rightarrow> bytes" where
  "seal_data_keyhist cr mk_next g mk =
     (let (tag, ct) = seal cr (data_keyhist_key cr mk_next g) (Frame_encode (Frame_v1 g TKeyhist)) mk
      in tag @ ct)"

definition open_data_keyhist :: "crypto \<Rightarrow> bytes \<Rightarrow> u32 \<Rightarrow> bytes \<Rightarrow> roster_error + bytes" where
  "open_data_keyhist cr mk_next g stored =
     open_key_wrap cr (data_keyhist_key cr mk_next g) (Frame_v1 g TKeyhist) stored"

definition peel_data_keys :: "crypto \<Rightarrow> bytes \<Rightarrow> u32 \<Rightarrow> (u32, bytes) btree \<Rightarrow> (u32, bytes) btree
    \<Rightarrow> roster_error + (u32, master_key) btree" where
  "peel_data_keys cr mk current_gen history mk_commits =
     rbind (peel_loop (open_data_keyhist cr) (unat current_gen) mk history (bt_insert current_gen mk [])) (\<lambda>keys.
     let ring = map (\<lambda>(g, k). (g, MasterKey_new g k)) keys in
     if list_all (\<lambda>(g, k). map_of mk_commits g = Some (mk_commit cr k)) ring then Inr ring
     else Inl MkCommitMismatch)"

section \<open>The chain\<close>

definition genesis :: "crypto \<Rightarrow> ssh \<Rightarrow> bytes \<Rightarrow> bytes \<Rightarrow> bytes \<Rightarrow> u64 \<Rightarrow> (roster_error + entry \<times> bytes) option" where
  "genesis cr ss sk enroll_pub mkc ts =
     orbind (Some (map_err RosterSig (device_id_of cr ss (sk_public ss sk)))) (\<lambda>signer.
     orbind (Some (map_err RosterSig (DevicePublic_to_canonical ss (sk_public ss sk)))) (\<lambda>pk.
     let op = Genesis pk mkc enroll_pub; z = replicate 32 0 in
     Option.bind (signed_bytes 0 z op ts signer) (\<lambda>msg.
     orbind (Some (map_err RosterSig (DeviceKey_sign ss sk NS_ROSTER msg))) (\<lambda>sg.
     let e = \<lparr>e_seq = 0, e_prev = z, e_op = op, e_ts = ts, e_signer = signer, e_sig = sg\<rparr> in
     map_option (\<lambda>rfp. Inr (e, rfp)) (entry_hash cr e)))))"

definition append_entry :: "crypto \<Rightarrow> ssh \<Rightarrow> entry \<Rightarrow> roster_op \<Rightarrow> bytes \<Rightarrow> u64 \<Rightarrow> (roster_error + entry) option" where
  "append_entry cr ss prev_entry op sk ts =
     (if e_seq prev_entry = - 1 then Some (Inl BadSeq) else
      let sq = e_seq prev_entry + 1 in
      Option.bind (entry_hash cr prev_entry) (\<lambda>prev.
      orbind (Some (map_err RosterSig (device_id_of cr ss (sk_public ss sk)))) (\<lambda>signer.
      Option.bind (signed_bytes sq prev op ts signer) (\<lambda>msg.
      orbind (Some (map_err RosterSig (DeviceKey_sign ss sk NS_ROSTER msg))) (\<lambda>sg.
      Some (Inr \<lparr>e_seq = sq, e_prev = prev, e_op = op, e_ts = ts, e_signer = signer, e_sig = sg\<rparr>))))))"

fun append_many :: "crypto \<Rightarrow> ssh \<Rightarrow> entry \<Rightarrow> roster_op list \<Rightarrow> bytes \<Rightarrow> u64 \<Rightarrow> (roster_error + entry list) option" where
  "append_many cr ss prev_entry [] sk ts = Some (Inr [])"
| "append_many cr ss prev_entry (op # ops) sk ts =
     orbind (append_entry cr ss prev_entry op sk ts) (\<lambda>e.
     orbind (append_many cr ss e ops sk ts) (\<lambda>es. Some (Inr (e # es))))"

record roster_state =
  members :: "(bytes, bytes) btree"
  ever_members :: "(bytes, bytes) btree"
  rs_generation :: u32
  min_algo :: u8
  mk_commits :: "(u32, bytes) btree"
  added_by :: "(bytes, bytes) btree"
  added_at :: "(bytes, u64) btree"
  enroll_pubs :: "(bytes, bytes) btree"
  tip_seq :: u64

definition is_member :: "roster_state \<Rightarrow> bytes \<Rightarrow> bool" where
  "is_member st d \<longleftrightarrow> map_of (members st) d \<noteq> None"

definition verify_entry_sig :: "ssh \<Rightarrow> bytes \<Rightarrow> entry \<Rightarrow> (roster_error + unit) option" where
  "verify_entry_sig ss pk e =
     map_option (\<lambda>msg. map_err (\<lambda>_. BadSignature) (DevicePublic_verify ss pk NS_ROSTER msg (e_sig e)))
       (signed_bytes (e_seq e) (e_prev e) (e_op e) (e_ts e) (e_signer e))"

fun apply_op :: "crypto \<Rightarrow> ssh \<Rightarrow> entry \<Rightarrow> roster_op \<Rightarrow> roster_state \<Rightarrow> roster_error + roster_state" where
  "apply_op cr ss e (Genesis _ _ _) st = Inl DoubleGenesis"
| "apply_op cr ss e (AddDevice pk mkc en) st =
     (if map_of (mk_commits st) (rs_generation st) \<noteq> Some mkc then Inl BadCommit else
      rbind (map_err RosterSig (DevicePublic_from_canonical ss pk)) (\<lambda>p.
      rbind (map_err RosterSig (device_id_of cr ss p)) (\<lambda>i.
      Inr (st\<lparr>members := bt_insert i p (members st), ever_members := bt_insert i p (ever_members st),
        added_by := bt_insert i (e_signer e) (added_by st), added_at := bt_insert i (e_seq e) (added_at st),
        enroll_pubs := (if en = [] then bt_remove i (enroll_pubs st) else bt_insert i en (enroll_pubs st))\<rparr>))))"
| "apply_op cr ss e (RevokeDevice d) st =
     Inr (st\<lparr>members := bt_remove d (members st), added_by := bt_remove d (added_by st),
       added_at := bt_remove d (added_at st), enroll_pubs := bt_remove d (enroll_pubs st)\<rparr>)"
| "apply_op cr ss e (Rotate mkc) st =
     (if rs_generation st = - 1 then Inl BadSeq
      else let g = rs_generation st + 1 in Inr (st\<lparr>rs_generation := g, mk_commits := bt_insert g mkc (mk_commits st)\<rparr>))"
| "apply_op cr ss e (SetMinAlgo a) st = Inr (st\<lparr>min_algo := max (min_algo st) a\<rparr>)"

definition fold_genesis :: "crypto \<Rightarrow> ssh \<Rightarrow> entry \<Rightarrow> bytes \<Rightarrow> (roster_error + roster_state) option" where
  "fold_genesis cr ss g rfp =
     (if e_seq g \<noteq> 0 \<or> e_prev g \<noteq> replicate 32 0 then Some (Inl BadGenesis) else
      Option.bind (entry_hash cr g) (\<lambda>h.
      if h \<noteq> rfp then Some (Inl RfpMismatch) else
      case e_op g of
        Genesis pk gmk en \<Rightarrow>
          orbind (Some (map_err RosterSig (DevicePublic_from_canonical ss pk))) (\<lambda>gpub.
          orbind (Some (map_err RosterSig (device_id_of cr ss gpub))) (\<lambda>i.
          if e_signer g \<noteq> i then Some (Inl BadGenesis) else
          orbind (verify_entry_sig ss gpub g) (\<lambda>_.
          Some (Inr \<lparr>members = [(e_signer g, gpub)], ever_members = [(e_signer g, gpub)], rs_generation = 1,
            min_algo = MIN_ALGO_ID, mk_commits = [(1, gmk)], added_by = [], added_at = [],
            enroll_pubs = (if en = [] then [] else [(e_signer g, en)]), tip_seq = 0\<rparr>))))
      | _ \<Rightarrow> Some (Inl BadGenesis)))"

definition fold_entry :: "crypto \<Rightarrow> ssh \<Rightarrow> nat \<Rightarrow> entry \<Rightarrow> entry \<Rightarrow> roster_state \<Rightarrow> (roster_error + roster_state) option" where
  "fold_entry cr ss i prev e st =
     (if e_seq e \<noteq> of_nat i then Some (Inl BadSeq) else
      Option.bind (entry_hash cr prev) (\<lambda>h.
      if e_prev e \<noteq> h then Some (Inl ChainBreak) else
      orbind (Some (ok_or NotMember (map_of (members st) (e_signer e)))) (\<lambda>signer_pub.
      orbind (verify_entry_sig ss signer_pub e) (\<lambda>_.
      orbind (Some (apply_op cr ss e (e_op e) st)) (\<lambda>st. Some (Inr (st\<lparr>tip_seq := e_seq e\<rparr>)))))))"

fun fold_loop :: "crypto \<Rightarrow> ssh \<Rightarrow> nat \<Rightarrow> entry \<Rightarrow> entry list \<Rightarrow> roster_state \<Rightarrow> (roster_error + roster_state) option" where
  "fold_loop cr ss i prev [] st = Some (Inr st)"
| "fold_loop cr ss i prev (e # es) st =
     orbind (fold_entry cr ss i prev e st) (fold_loop cr ss (i + 1) e es)"

fun fold_chain :: "crypto \<Rightarrow> ssh \<Rightarrow> entry list \<Rightarrow> bytes \<Rightarrow> (roster_error + roster_state) option" where
  "fold_chain cr ss [] rfp = Some (Inl RosterEmpty)"
| "fold_chain cr ss (g # es) rfp = orbind (fold_genesis cr ss g rfp) (fold_loop cr ss 1 g es)"

section \<open>Cold start\<close>

definition blob_gen :: "bytes \<Rightarrow> roster_error + u32" where
  "blob_gen b =
     (if length b < FRAME_LEN then Inl (RosterFrame ShortBlob)
      else rbind (map_err RosterFrame (Frame_decode (take FRAME_LEN b))) (\<lambda>f. Inr (gen f)))"

fun open_entries :: "crypto \<Rightarrow> (u32, bytes) btree \<Rightarrow> nat \<Rightarrow> bytes list \<Rightarrow> roster_error + entry list" where
  "open_entries cr roster_keys sq [] = Inr []"
| "open_entries cr roster_keys sq (b # bs) =
     rbind (blob_gen b) (\<lambda>g.
     rbind (ok_or BadGeneration (map_of roster_keys g)) (\<lambda>rk.
     rbind (open_entry cr rk g (of_nat sq) b) (\<lambda>pt.
     rbind (decode_entry pt) (\<lambda>e.
     rbind (open_entries cr roster_keys (sq + 1) bs) (\<lambda>es. Inr (e # es))))))"

definition cold_start_fold :: "crypto \<Rightarrow> ssh \<Rightarrow> bytes \<Rightarrow> u32 \<Rightarrow> bytes \<Rightarrow> (u32, bytes) btree \<Rightarrow> bytes list
    \<Rightarrow> (roster_error + roster_state \<times> master_key) option" where
  "cold_start_fold cr ss candidate g_cur rfp roster_keyhist stored_entries =
     (let mk = MasterKey_new g_cur candidate in
      if stored_entries = [] then Some (Inl RosterEmpty) else
      orbind (Some (blob_gen (last stored_entries))) (\<lambda>tg.
      if tg \<noteq> g_cur then Some (Inl BadGeneration) else
      orbind (Some (peel_roster_keys cr (roster_key cr mk) g_cur roster_keyhist)) (\<lambda>roster_keys.
      orbind (Some (open_entries cr roster_keys 0 stored_entries)) (\<lambda>entries.
      orbind (fold_chain cr ss entries rfp) (\<lambda>st.
      orbind (Some (ok_or BadGeneration (map_of (mk_commits st) g_cur))) (\<lambda>expected.
      if mk_commit cr mk \<noteq> expected then Some (Inl MkCommitMismatch) else Some (Inr (st, mk))))))))"

section \<open>Revocation\<close>

definition devices_added_by :: "roster_state \<Rightarrow> bytes \<Rightarrow> u64 \<Rightarrow> bytes list" where
  "devices_added_by st revoked after_seq =
     map fst (filter (\<lambda>(i, adder). adder = revoked
       \<and> (case map_of (added_at st) i of None \<Rightarrow> False | Some s \<Rightarrow> after_seq \<le> s)) (added_by st))"

text \<open>The inner loop over one device's grants: newly seen devices are stacked, late ones collected.\<close>

fun sweep :: "roster_state \<Rightarrow> u64 \<Rightarrow> bytes list \<Rightarrow> bytes list \<times> bytes list \<times> bytes list \<Rightarrow> bytes list \<times> bytes list \<times> bytes list" where
  "sweep st after_seq [] acc = acc"
| "sweep st after_seq (d # ds) (result, seen, work) =
     (if d \<in> set seen then sweep st after_seq ds (result, seen, work)
      else sweep st after_seq ds
        (if (case map_of (added_at st) d of None \<Rightarrow> False | Some s \<Rightarrow> after_seq \<le> s) then insort_insert d result else result,
         insort_insert d seen, work @ [d]))"

lemma sweep_measure:
  "sweep st after_seq ds (result, seen, work) = (result', seen', work') \<Longrightarrow> finite K \<Longrightarrow> set ds \<subseteq> K \<Longrightarrow>
     2 * card (K - set seen') + length work' \<le> 2 * card (K - set seen) + length work"
proof (induction ds arbitrary: result seen work)
  case (Cons d ds)
  show ?case
  proof (cases "d \<in> set seen")
    case True
    with Cons show ?thesis by simp
  next
    case False
    have "card (K - insert d (set seen)) < card (K - set seen)"
      using Cons.prems(2,3) False by (intro psubset_card_mono) auto
    with False Cons.IH [of _ "insort_insert d seen" "work @ [d]"] Cons.prems show ?thesis
      by (fastforce simp: set_insort_insert)
  qed
qed simp

lemma devices_added_by_keys: "set (devices_added_by st a n) \<subseteq> fst ` set (added_by st)"
  by (auto simp: devices_added_by_def)

function closure_loop :: "roster_state \<Rightarrow> u64 \<Rightarrow> bytes list \<times> bytes list \<times> bytes list \<Rightarrow> bytes list" where
  "closure_loop st after_seq (result, seen, work) =
     (if work = [] then result
      else closure_loop st after_seq
        (sweep st after_seq (devices_added_by st (last work) 0) (result, seen, butlast work)))"
  by pat_completeness auto
termination
proof (relation "measure (\<lambda>(st, _, _, seen, work). 2 * card (fst ` set (added_by st) - set seen) + length work)", goal_cases)
  case (2 st after_seq result seen work)
  obtain r' s' w' where sw: "sweep st after_seq (devices_added_by st (last work) 0) (result, seen, butlast work) = (r', s', w')"
    by (metis prod_cases3)
  have "2 * card (fst ` set (added_by st) - set s') + length w'
      \<le> 2 * card (fst ` set (added_by st) - set seen) + length (butlast work)"
    using sweep_measure [OF sw, of "fst ` set (added_by st)"] devices_added_by_keys [of st "last work" 0] by simp
  moreover have "length (butlast work) < length work" using 2 by simp
  ultimately show ?case using sw by simp
qed simp

declare closure_loop.simps [simp del]

definition revoke_closure :: "roster_state \<Rightarrow> bytes \<Rightarrow> u64 \<Rightarrow> bytes \<Rightarrow> bytes list" where
  "revoke_closure st revoked after_seq revoker =
     closure_loop st after_seq ([], fold insort_insert [revoked, revoker] [], [revoked])"

definition revoke_rotate_ops :: "roster_state \<Rightarrow> bytes \<Rightarrow> u64 \<Rightarrow> bytes \<Rightarrow> bytes \<Rightarrow> roster_error + roster_op list" where
  "revoke_rotate_ops st revoked after_seq revoker next_mk_commit =
     (if revoked = revoker then Inl SelfRevoke
      else Inr ([RevokeDevice revoked] @ map RevokeDevice (revoke_closure st revoked after_seq revoker)
        @ [Rotate next_mk_commit]))"

section \<open>The entry codec\<close>

fun op_wf :: "roster_op \<Rightarrow> bool" where
  "op_wf (Genesis pk mkc en) \<longleftrightarrow> length pk \<le> MAX_ROSTER_ENTRY_SIZE \<and> length mkc = 32 \<and> length en \<le> MAX_ROSTER_ENTRY_SIZE"
| "op_wf (AddDevice pk mkc en) \<longleftrightarrow> length pk \<le> MAX_ROSTER_ENTRY_SIZE \<and> length mkc = 32 \<and> length en \<le> MAX_ROSTER_ENTRY_SIZE"
| "op_wf (RevokeDevice d) \<longleftrightarrow> length d = 32"
| "op_wf (Rotate mkc) \<longleftrightarrow> length mkc = 32"
| "op_wf (SetMinAlgo a) \<longleftrightarrow> True"

fun op_img :: "roster_op \<Rightarrow> bytes" where
  "op_img (Genesis pk mkc en) = [0] @ bytes_img pk @ mkc @ bytes_img en"
| "op_img (AddDevice pk mkc en) = [1] @ bytes_img pk @ mkc @ bytes_img en"
| "op_img (RevokeDevice d) = [2] @ d"
| "op_img (Rotate mkc) = [3] @ mkc"
| "op_img (SetMinAlgo a) = [4, a]"

interpretation field_codec: codec bytes_img "\<lambda>b. length b \<le> MAX_ROSTER_ENTRY_SIZE \<and> length b \<le> u32_max" Writer_bytes
  "Reader_bytes MAX_ROSTER_ENTRY_SIZE"
  by (rule bytes_codec)

lemma read_grant_back:
  assumes "rest r = bytes_img pk @ mkc @ bytes_img en @ ys" "length pk \<le> MAX_ROSTER_ENTRY_SIZE" "length mkc = 32"
    "length en \<le> MAX_ROSTER_ENTRY_SIZE"
  shows "read_grant mk r = Inr (mk pk mkc en, adv (length (bytes_img pk @ mkc @ bytes_img en)) r)"
proof -
  let ?n = "length (bytes_img pk)"
  have 1: "Reader_bytes MAX_ROSTER_ENTRY_SIZE r = Inr (pk, adv ?n r)"
    by (rule field_codec.read_back) (use assms in simp_all)
  have 2: "Reader_raw 32 (adv ?n r) = Inr (mkc, adv 32 (adv ?n r))"
    using id_codec.read_back [of "adv ?n r" mkc] assms by simp
  have 3: "Reader_bytes MAX_ROSTER_ENTRY_SIZE (adv 32 (adv ?n r)) = Inr (en, adv (length (bytes_img en)) (adv 32 (adv ?n r)))"
    by (rule field_codec.read_back) (use assms in simp_all)
  show ?thesis
    using assms(3) by (simp add: read_grant_def 1 2 3 del: length_bytes_img) (simp add: adv_adv add.assoc)
qed

lemma read_grant_accepted:
  assumes "read_grant mk r = Inr (op, r')"
  shows "\<exists>pk mkc en. op = mk pk mkc en \<and> rest r = bytes_img pk @ mkc @ bytes_img en @ rest r'
    \<and> length pk \<le> MAX_ROSTER_ENTRY_SIZE \<and> length mkc = 32 \<and> length en \<le> MAX_ROSTER_ENTRY_SIZE"
proof -
  from assms obtain pk r1 mkc r2 en where "Reader_bytes MAX_ROSTER_ENTRY_SIZE r = Inr (pk, r1)"
    "Reader_raw 32 r1 = Inr (mkc, r2)" "Reader_bytes MAX_ROSTER_ENTRY_SIZE r2 = Inr (en, r')" "op = mk pk mkc en"
    by (auto simp: read_grant_def rbind_eq_Inr split: prod.splits)
  then show ?thesis
    using field_codec.accepted [of r pk r1] id_codec.accepted [of r1 mkc r2] field_codec.accepted [of r2 en r'] by auto
qed

lemma tag_back: "rest r = t # ys \<Longrightarrow> Reader_u8 r = Inr (t, adv 1 r)"
  using c_u8.read_back [of r t ys] by simp

lemma decode_op_back:
  assumes "rest r = op_img op @ ys" "op_wf op"
  shows "decode_op r = Inr (op, adv (length (op_img op)) r)"
proof (cases op)
  case (Genesis pk mkc en)
  have "rest (adv 1 r) = bytes_img pk @ mkc @ bytes_img en @ ys" using assms(1) Genesis by simp
  from read_grant_back [OF this] assms Genesis show ?thesis
    using tag_back [of r 0] by (simp add: decode_op_def adv_adv add.assoc)
next
  case (AddDevice pk mkc en)
  have "rest (adv 1 r) = bytes_img pk @ mkc @ bytes_img en @ ys" using assms(1) AddDevice by simp
  from read_grant_back [OF this] assms AddDevice show ?thesis
    using tag_back [of r 1] by (simp add: decode_op_def adv_adv add.assoc)
next
  case (RevokeDevice d)
  then show ?thesis
    using assms tag_back [of r 2] id_codec.read_back [of "adv 1 r" d ys] by (simp add: decode_op_def adv_adv)
next
  case (Rotate mkc)
  then show ?thesis
    using assms tag_back [of r 3] id_codec.read_back [of "adv 1 r" mkc ys] by (simp add: decode_op_def adv_adv)
next
  case (SetMinAlgo a)
  then show ?thesis
    using assms tag_back [of r 4] tag_back [of "adv 1 r" a ys] by (simp add: decode_op_def adv_adv)
qed

lemma decode_op_accepted:
  assumes "decode_op r = Inr (op, r')"
  shows "op_wf op \<and> rest r = op_img op @ rest r'"
proof -
  from assms obtain tag r1 where t: "Reader_u8 r = Inr (tag, r1)" by (auto simp: decode_op_def rbind_eq_Inr)
  have r: "rest r = tag # rest r1" using c_u8.accepted [OF t] by simp
  consider "tag = 0" "read_grant Genesis r1 = Inr (op, r')" | "tag = 1" "read_grant AddDevice r1 = Inr (op, r')"
    | (rev) d where "tag = 2" "Reader_raw 32 r1 = Inr (d, r')" "op = RevokeDevice d"
    | (rot) d where "tag = 3" "Reader_raw 32 r1 = Inr (d, r')" "op = Rotate d"
    | (alg) a where "tag = 4" "Reader_u8 r1 = Inr (a, r')" "op = SetMinAlgo a"
    using assms by (auto simp: decode_op_def t rbind_eq_Inr split: if_splits)
  then show ?thesis
  proof cases
    case 1
    then show ?thesis using read_grant_accepted [of Genesis r1 op r'] r by auto
  next
    case 2
    then show ?thesis using read_grant_accepted [of AddDevice r1 op r'] r by auto
  next
    case rev
    then show ?thesis using id_codec.accepted [OF rev(2)] r by simp
  next
    case rot
    then show ?thesis using id_codec.accepted [OF rot(2)] r by simp
  next
    case alg
    then show ?thesis using c_u8.accepted [OF alg(2)] r by simp
  qed
qed

interpretation op_codec: codec op_img op_wf encode_op decode_op
proof unfold_locales
  fix op s assume "op_wf op"
  then show "encode_op op (Some s) = Some (s @ op_img op)" by (cases op) simp_all
qed (use decode_op_back decode_op_accepted in blast)+

definition entry_wf :: "entry \<Rightarrow> bool" where
  "entry_wf e \<longleftrightarrow> length (e_prev e) = 32 \<and> op_wf (e_op e) \<and> length (e_signer e) = 32
     \<and> length (e_sig e) \<le> MAX_ROSTER_ENTRY_SIZE"

definition signed_img :: "entry \<Rightarrow> bytes" where
  "signed_img e = le_bytes 8 (e_seq e) @ e_prev e @ op_img (e_op e) @ le_bytes 8 (e_ts e) @ e_signer e"

lemma signed_bytes_img:
  "op_wf op \<Longrightarrow> signed_bytes sq prev op ts signer =
     Some (le_bytes 8 sq @ prev @ op_img op @ le_bytes 8 ts @ signer)"
  by (simp add: signed_bytes_def op_codec.written)

lemma encode_entry_img: "entry_wf e \<Longrightarrow> encode_entry e = Some (signed_img e @ bytes_img (e_sig e))"
  by (simp add: encode_entry_def entry_wf_def signed_img_def op_codec.written)

lemma decode_entry_encoded:
  assumes wf: "entry_wf e" and enc: "encode_entry e = Some b"
  shows "decode_entry b = Inr e"
proof -
  let ?r0 = "Reader_new b" and ?n = "length (op_img (e_op e))"
  have b: "b = le_bytes 8 (e_seq e) @ e_prev e @ op_img (e_op e) @ le_bytes 8 (e_ts e) @ e_signer e @ bytes_img (e_sig e)"
    using enc encode_entry_img [OF wf] by (simp add: signed_img_def)
  have l: "length (e_prev e) = 32" "length (e_signer e) = 32" "op_wf (e_op e)" using wf by (simp_all add: entry_wf_def)
  have 1: "Reader_u64 ?r0 = Inr (e_seq e, adv 8 ?r0)"
    using c_u64.read_back [of ?r0 "e_seq e"] b by simp
  have 2: "Reader_raw 32 (adv 8 ?r0) = Inr (e_prev e, adv 32 (adv 8 ?r0))"
    using id_codec.read_back [of "adv 8 ?r0" "e_prev e"] b l by simp
  have 3: "decode_op (adv 32 (adv 8 ?r0)) = Inr (e_op e, adv ?n (adv 32 (adv 8 ?r0)))"
    by (rule op_codec.read_back) (use b l in simp_all)
  have 4: "Reader_u64 (adv ?n (adv 32 (adv 8 ?r0))) = Inr (e_ts e, adv 8 (adv ?n (adv 32 (adv 8 ?r0))))"
    using c_u64.read_back [of "adv ?n (adv 32 (adv 8 ?r0))" "e_ts e"] b l by simp
  have 5: "Reader_raw 32 (adv 8 (adv ?n (adv 32 (adv 8 ?r0)))) = Inr (e_signer e, adv 32 (adv 8 (adv ?n (adv 32 (adv 8 ?r0)))))"
    using id_codec.read_back [of "adv 8 (adv ?n (adv 32 (adv 8 ?r0)))" "e_signer e"] b l by simp
  have 6: "Reader_bytes MAX_ROSTER_ENTRY_SIZE (adv 32 (adv 8 (adv ?n (adv 32 (adv 8 ?r0)))))
      = Inr (e_sig e, adv (length (bytes_img (e_sig e))) (adv 32 (adv 8 (adv ?n (adv 32 (adv 8 ?r0))))))"
    by (rule field_codec.read_back [where ys = "[]"]) (use b l wf in \<open>simp_all add: entry_wf_def\<close>)
  have 7: "rest (adv (length (bytes_img (e_sig e))) (adv 32 (adv 8 (adv ?n (adv 32 (adv 8 ?r0)))))) = []"
    using b l by simp
  have eta: "\<lparr>e_seq = e_seq e, e_prev = e_prev e, e_op = e_op e, e_ts = e_ts e, e_signer = e_signer e, e_sig = e_sig e\<rparr> = e"
    by simp
  show ?thesis
    using enc 7 by (simp add: decode_entry_def 1 2 3 4 5 6 Reader_finish_rest verify_reencode_def Let_def eta
        del: length_bytes_img rest_adv)
qed

lemma decode_entry_accepted:
  assumes "decode_entry b = Inr e"
  shows "entry_wf e \<and> encode_entry e = Some b"
proof -
  from assms obtain sq r1 prev r2 op r3 ts r4 signer r5 sg r6 where
    r: "Reader_raw 32 r1 = Inr (prev, r2)" "decode_op r2 = Inr (op, r3)"
      "Reader_raw 32 r4 = Inr (signer, r5)" "Reader_bytes MAX_ROSTER_ENTRY_SIZE r5 = Inr (sg, r6)"
    and e: "e = \<lparr>e_seq = sq, e_prev = prev, e_op = op, e_ts = ts, e_signer = signer, e_sig = sg\<rparr>"
    and v: "verify_reencode b e encode_entry = Inr ()"
    by (auto simp: decode_entry_def rbind_eq_Inr Let_def split: prod.splits)
  have "entry_wf e"
    using id_codec.accepted [OF r(1)] op_codec.accepted [OF r(2)] id_codec.accepted [OF r(3)] field_codec.accepted [OF r(4)] e
    by (simp add: entry_wf_def)
  with v show ?thesis by (auto simp: verify_reencode_def split: option.splits if_splits)
qed

lemma decode_entry_iff: "decode_entry b = Inr e \<longleftrightarrow> entry_wf e \<and> encode_entry e = Some b"
  using decode_entry_encoded decode_entry_accepted by blast

lemma encode_entry_inj: "entry_wf e \<Longrightarrow> entry_wf e' \<Longrightarrow> encode_entry e = encode_entry e' \<Longrightarrow> e = e'"
  by (metis decode_entry_encoded encode_entry_img sum.inject(2))

lemma entry_hash_wf: "entry_wf e \<Longrightarrow> \<exists>h. entry_hash cr e = Some h"
  by (simp add: entry_hash_def encode_entry_img)

text \<open>Two entries whose encodings are a collision of BLAKE3.\<close>

definition entry_clash :: "crypto \<Rightarrow> entry \<Rightarrow> entry \<Rightarrow> bool" where
  "entry_clash cr e e' \<longleftrightarrow> (\<exists>b b'. encode_entry e = Some b \<and> encode_entry e' = Some b' \<and> hash_clash cr b b')"

lemma entry_hash_inj:
  assumes "entry_wf e" "entry_wf e'" "entry_hash cr e = entry_hash cr e'"
  shows "e = e' \<or> entry_clash cr e e'"
proof -
  obtain b b' where b: "encode_entry e = Some b" "encode_entry e' = Some b'" using assms(1,2) encode_entry_img by metis
  then have "hash cr b = hash cr b'" using assms(3) by (simp add: entry_hash_def)
  then show ?thesis using hash_inj [of cr b b'] encode_entry_inj [OF assms(1,2)] b by (auto simp: entry_clash_def)
qed

section \<open>Sealed entries open exactly as sealed\<close>

lemma open_entry_iff:
  "open_entry cr rk g sq stored = Inr pt \<longleftrightarrow>
     length stored \<le> MAX_BLOB_SIZE
     \<and> ((\<exists>salt. length salt = ROSTER_ENTRY_SALT_LEN \<and> stored = seal_entry_with_salt cr rk g sq salt pt)
        \<or> stored = seal_entry_v1 cr rk g sq pt)" (is "?l \<longleftrightarrow> ?r")
proof
  assume ?l
  then obtain h where h: "Frame_decode (take FRAME_LEN stored) = Inr h" "FRAME_LEN \<le> length stored"
    by (auto simp: open_entry_def rbind_eq_Inr split: if_splits)
  show ?r
  proof (cases "Frame_is_v2 h")
    case True
    let ?f = "Frame_v2 g TRosterEntry"
    from \<open>?l\<close> h True obtain rs where rs: "parse_frame_prefix stored ?f = Inr rs"
      "ROSTER_ENTRY_SALT_LEN + CTX_TAG_LEN \<le> length rs"
      and o: "open_ctx cr (roster_entry_key_v2 cr rk sq (take ROSTER_ENTRY_SALT_LEN rs)) (ad_roster_v2 ?f sq (take ROSTER_ENTRY_SALT_LEN rs))
        (take CTX_TAG_LEN (drop ROSTER_ENTRY_SALT_LEN rs)) (drop CTX_TAG_LEN (drop ROSTER_ENTRY_SALT_LEN rs)) = Inr pt"
      by (auto simp: open_entry_def rbind_eq_Inr Let_def split: if_splits)
    let ?salt = "take ROSTER_ENTRY_SALT_LEN rs"
    have "stored = Frame_encode ?f @ ?salt @ take CTX_TAG_LEN (drop ROSTER_ENTRY_SALT_LEN rs) @ drop CTX_TAG_LEN (drop ROSTER_ENTRY_SALT_LEN rs)"
      "length stored \<le> MAX_BLOB_SIZE"
      using rs(1) unfolding parse_frame_prefix_iff by (metis append_take_drop_id, blast)
    moreover have "length ?salt = ROSTER_ENTRY_SALT_LEN" using rs(2) by simp
    moreover have "seal_entry_with_salt cr rk g sq ?salt pt = Frame_encode ?f @ ?salt
        @ take CTX_TAG_LEN (drop ROSTER_ENTRY_SALT_LEN rs) @ drop CTX_TAG_LEN (drop ROSTER_ENTRY_SALT_LEN rs)"
      using o [unfolded ctx.opens_iff] by (simp add: seal_entry_with_salt_def)
    ultimately show ?thesis by metis
  next
    case False
    let ?f = "Frame_v1 g TRosterEntry"
    from \<open>?l\<close> h False obtain tag ct where p: "parse_blob stored ?f = Inr (tag, ct)"
      and o: "open_ctx cr (roster_entry_key cr rk sq) (ad_roster_v1 ?f sq) tag ct = Inr pt"
      by (auto simp: open_entry_def rbind_eq_Inr Let_def split: if_splits)
    then show ?thesis
      using o [unfolded ctx.opens_iff] by (auto simp: seal_entry_v1_def Let_def parse_blob_accepts)
  qed
next
  assume r: ?r
  then consider (v2) salt where "length salt = ROSTER_ENTRY_SALT_LEN" "stored = seal_entry_with_salt cr rk g sq salt pt"
    | (v1) "stored = seal_entry_v1 cr rk g sq pt" by blast
  then show ?l
  proof cases
    case v2
    let ?f = "Frame_v2 g TRosterEntry"
    obtain tag ct where s: "seal cr (roster_entry_key_v2 cr rk sq salt) (ad_roster_v2 ?f sq salt) pt = (tag, ct)" by fastforce
    then have st: "stored = Frame_encode ?f @ salt @ tag @ ct" using v2 by (simp add: seal_entry_with_salt_def Let_def)
    have tag: "length tag = CTX_TAG_LEN"
      using ctx.tag_length [of cr "roster_entry_key_v2 cr rk sq salt" "ad_roster_v2 ?f sq salt" pt] s by (simp add: CTX_TAG_LEN_def)
    have p: "parse_frame_prefix stored ?f = Inr (salt @ tag @ ct)"
      using r st by (simp add: parse_frame_prefix_iff)
    have d: "Frame_decode (take FRAME_LEN stored) = Inr ?f" "FRAME_LEN \<le> length stored"
      by (simp_all add: st Frame_decode_encode)
    show ?thesis using ctx.opens_seal [OF s] v2(1) tag d p by (simp add: open_entry_def Let_def)
  next
    case v1
    let ?f = "Frame_v1 g TRosterEntry"
    obtain tag ct where s: "seal cr (roster_entry_key cr rk sq) (ad_roster_v1 ?f sq) pt = (tag, ct)" by fastforce
    then have st: "stored = assemble_blob ?f tag ct" using v1 by (simp add: seal_entry_v1_def Let_def)
    have tag: "length tag = CTX_TAG_LEN"
      using ctx.tag_length [of cr "roster_entry_key cr rk sq" "ad_roster_v1 ?f sq" pt] s by (simp add: CTX_TAG_LEN_def)
    have p: "parse_blob stored ?f = Inr (tag, ct)" using r st tag by (simp add: parse_blob_accepts)
    have d: "Frame_decode (take FRAME_LEN stored) = Inr ?f" "FRAME_LEN \<le> length stored"
      by (simp_all add: st assemble_blob_def Frame_decode_encode)
    show ?thesis using ctx.opens_seal [OF s] d p by (simp add: open_entry_def Let_def)
  qed
qed

section \<open>What folding accepts\<close>

lemma fold_loop_append:
  "fold_loop cr ss i prev (es @ fs) st =
     orbind (fold_loop cr ss i prev es st) (fold_loop cr ss (i + length es) (last (prev # es)) fs)"
proof (induction es arbitrary: i prev st)
  case (Cons e es)
  show ?case
  proof (cases "fold_entry cr ss i prev e st")
    case (Some r)
    then show ?thesis using Cons.IH [of "i + 1" e] by (cases r) simp_all
  qed simp
qed simp

lemma fold_chain_append:
  assumes "es \<noteq> []"
  shows "fold_chain cr ss (es @ fs) rfp = orbind (fold_chain cr ss es rfp) (fold_loop cr ss (length es) (last es) fs)"
proof -
  obtain g gs where es: "es = g # gs" using assms by (cases es) auto
  show ?thesis
  proof (cases "fold_genesis cr ss g rfp")
    case (Some r)
    then show ?thesis using es fold_loop_append [of cr ss 1 g gs fs] by (cases r) simp_all
  qed (simp add: es)
qed

text \<open>Every accepted chain is an accepted chain extended by one accepted entry.\<close>

lemma fold_chain_snoc:
  "es \<noteq> [] \<Longrightarrow> fold_chain cr ss (es @ [e]) rfp = Some (Inr st) \<longleftrightarrow>
     (\<exists>st'. fold_chain cr ss es rfp = Some (Inr st') \<and> fold_entry cr ss (length es) (last es) e st' = Some (Inr st))"
  by (simp add: fold_chain_append orbind_eq_ok)

lemma fold_chain_induct [consumes 1, case_names genesis step]:
  assumes "fold_chain cr ss es rfp = Some (Inr st)"
    and "\<And>g st. fold_genesis cr ss g rfp = Some (Inr st) \<Longrightarrow> P [g] st"
    and "\<And>es e st st'. es \<noteq> [] \<Longrightarrow> fold_chain cr ss es rfp = Some (Inr st) \<Longrightarrow> P es st \<Longrightarrow>
        fold_entry cr ss (length es) (last es) e st = Some (Inr st') \<Longrightarrow> P (es @ [e]) st'"
  shows "P es st"
  using assms(1)
proof (induction es arbitrary: st rule: rev_induct)
  case Nil
  then show ?case by simp
next
  case (snoc e es)
  show ?case
  proof (cases "es = []")
    case True
    then show ?thesis using snoc.prems assms(2) by (auto simp: orbind_eq_ok)
  next
    case False
    then show ?thesis using snoc assms(3) fold_chain_snoc by metis
  qed
qed

text \<open>What an accepted entry was checked for.\<close>

lemma fold_entryD:
  assumes "fold_entry cr ss i prev e st = Some (Inr st')"
  shows "e_seq e = of_nat i" "entry_hash cr prev = Some (e_prev e)"
    "\<exists>pk msg. map_of (members st) (e_signer e) = Some pk
       \<and> signed_bytes (e_seq e) (e_prev e) (e_op e) (e_ts e) (e_signer e) = Some msg
       \<and> accepts_sig ss pk NS_ROSTER msg (e_sig e)"
    "\<exists>st1. apply_op cr ss e (e_op e) st = Inr st1 \<and> st' = st1\<lparr>tip_seq := e_seq e\<rparr>"
  using assms
  by (auto simp: fold_entry_def verify_entry_sig_def orbind_eq_ok DevicePublic_verify_iff bind_eq_Some_conv
      split: if_splits)

lemma fold_genesisD:
  assumes "fold_genesis cr ss g rfp = Some (Inr st)"
  shows "e_seq g = 0" "e_prev g = replicate 32 0" "entry_hash cr g = Some rfp"
    "\<exists>pkb gmk en pk msg. e_op g = Genesis pkb gmk en \<and> DevicePublic_from_canonical ss pkb = Inr pk
       \<and> device_id_of cr ss pk = Inr (e_signer g)
       \<and> signed_bytes 0 (e_prev g) (e_op g) (e_ts g) (e_signer g) = Some msg \<and> accepts_sig ss pk NS_ROSTER msg (e_sig g)
       \<and> st = \<lparr>members = [(e_signer g, pk)], ever_members = [(e_signer g, pk)], rs_generation = 1,
            min_algo = MIN_ALGO_ID, mk_commits = [(1, gmk)], added_by = [], added_at = [],
            enroll_pubs = (if en = [] then [] else [(e_signer g, en)]), tip_seq = 0\<rparr>"
  using assms
  by (auto simp: fold_genesis_def verify_entry_sig_def orbind_eq_ok DevicePublic_verify_iff bind_eq_Some_conv
      split: if_split_asm roster_op.splits) blast+

lemma fold_chain_last_seq: "fold_chain cr ss es rfp = Some (Inr st) \<Longrightarrow> es \<noteq> [] \<and> e_seq (last es) = of_nat (length es - 1)"
proof (induction rule: fold_chain_induct)
  case (genesis g st)
  then show ?case using fold_genesisD(1) by simp
next
  case (step es e st st')
  then show ?case using fold_entryD(1) [OF step(3)] by simp
qed

section \<open>The state invariant\<close>

definition roster_ok :: "crypto \<Rightarrow> ssh \<Rightarrow> roster_state \<Rightarrow> bool" where
  "roster_ok cr ss st \<longleftrightarrow>
     (\<forall>d pk. map_of (members st) d = Some pk \<longrightarrow> map_of (ever_members st) d = Some pk)
     \<and> (\<forall>d pk. map_of (ever_members st) d = Some pk \<longrightarrow> device_id_of cr ss pk = Inr d)
     \<and> dom (map_of (mk_commits st)) = {g. 1 \<le> g \<and> g \<le> rs_generation st} \<and> 1 \<le> rs_generation st
     \<and> dom (map_of (added_at st)) = dom (map_of (added_by st))
     \<and> dom (map_of (added_by st)) \<subseteq> dom (map_of (members st))
     \<and> dom (map_of (enroll_pubs st)) \<subseteq> dom (map_of (members st))
     \<and> bt_wf (members st) \<and> bt_wf (ever_members st) \<and> bt_wf (mk_commits st) \<and> bt_wf (added_by st)
     \<and> bt_wf (added_at st) \<and> bt_wf (enroll_pubs st)"

lemma fold_genesis_ok: "fold_genesis cr ss g rfp = Some (Inr st) \<Longrightarrow> roster_ok cr ss st"
  using fold_genesisD(4) by (fastforce simp: roster_ok_def bt_wf_def split: if_splits)

lemma word_Suc_le: "(g :: u32) \<noteq> - 1 \<Longrightarrow> h \<le> g + 1 \<longleftrightarrow> h \<le> g \<or> h = g + 1"
proof -
  assume "g \<noteq> - 1"
  then have "unat (g + 1) = unat g + 1"
    by (metis Suc_eq_plus1 add.commute unatSuc add_eq_0_iff2 add.inverse_inverse)
  then show ?thesis by (auto simp: word_le_nat_alt word_unat_eq_iff)
qed

lemma apply_op_ok:
  assumes ok: "roster_ok cr ss st" and ap: "apply_op cr ss e op st = Inr st'"
  shows "roster_ok cr ss st'"
proof (cases op)
  case (Genesis pk mkc en)
  with ap show ?thesis by simp
next
  case (AddDevice pk mkc en)
  with ap obtain p i where p: "device_id_of cr ss p = Inr i"
    and st': "st' = st\<lparr>members := bt_insert i p (members st), ever_members := bt_insert i p (ever_members st),
        added_by := bt_insert i (e_signer e) (added_by st), added_at := bt_insert i (e_seq e) (added_at st),
        enroll_pubs := (if en = [] then bt_remove i (enroll_pubs st) else bt_insert i en (enroll_pubs st))\<rparr>"
    by (auto simp: rbind_eq_Inr split: if_splits)
  have "dom (map_of (enroll_pubs st')) \<subseteq> dom (map_of (members st'))"
    using ok by (auto simp: st' roster_ok_def split: if_splits)
  with ok p show ?thesis
    unfolding roster_ok_def by (auto simp: st' bt_wf_bt_insert bt_wf_bt_remove)
next
  case (RevokeDevice d)
  with ap have st': "st' = st\<lparr>members := bt_remove d (members st), added_by := bt_remove d (added_by st),
       added_at := bt_remove d (added_at st), enroll_pubs := bt_remove d (enroll_pubs st)\<rparr>" by simp
  with ok show ?thesis unfolding roster_ok_def by (auto simp: bt_wf_bt_remove split: if_splits)
next
  case (Rotate mkc)
  with ap have g: "rs_generation st \<noteq> - 1"
    and st': "st' = st\<lparr>rs_generation := rs_generation st + 1, mk_commits := bt_insert (rs_generation st + 1) mkc (mk_commits st)\<rparr>"
    by (auto simp: Let_def split: if_splits)
  have le: "1 \<le> rs_generation st + 1"
    using ok g word_Suc_le [OF g, of 1] by (auto simp: roster_ok_def)
  have "dom (map_of (mk_commits st')) = {h. 1 \<le> h \<and> h \<le> rs_generation st'}"
    using ok le word_Suc_le [OF g] by (auto simp: st' roster_ok_def)
  with ok le show ?thesis unfolding roster_ok_def by (simp add: st' bt_wf_bt_insert)
next
  case (SetMinAlgo a)
  with ap have "st' = st\<lparr>min_algo := max (min_algo st) a\<rparr>" by simp
  with ok show ?thesis by (simp add: roster_ok_def)
qed

lemma roster_ok_tip [simp]: "roster_ok cr ss (st\<lparr>tip_seq := q\<rparr>) = roster_ok cr ss st"
  by (simp add: roster_ok_def)

lemma fold_chain_ok: "fold_chain cr ss es rfp = Some (Inr st) \<Longrightarrow> roster_ok cr ss st"
proof (induction rule: fold_chain_induct)
  case (genesis g st)
  then show ?case by (rule fold_genesis_ok)
next
  case (step es e st st')
  then show ?case using fold_entryD(4) [OF step(3)] apply_op_ok by auto
qed

section \<open>The tip commits to the whole chain\<close>

lemma fold_chain_determined:
  assumes "fold_chain cr ss es rfp = Some (Inr st)" "fold_chain cr ss es' rfp' = Some (Inr st')"
    "length es = length es'" "list_all entry_wf es" "list_all entry_wf es'"
    "entry_hash cr (last es) = entry_hash cr (last es')"
  shows "es = es' \<or> (\<exists>(e, e') \<in> set (zip es es'). entry_clash cr e e')"
  using assms
proof (induction arbitrary: es' st' rule: fold_chain_induct)
  case (genesis g st)
  then obtain g' where "es' = [g']" by (cases es') auto
  with genesis entry_hash_inj [of g g'] show ?case by simp
next
  case (step es e st1 st2)
  then have "es' \<noteq> []" by (cases es') auto
  then obtain fs f where f: "es' = fs @ [f]" by (metis rev_exhaust)
  have "fs \<noteq> []" using step.prems(2) step(1) f by auto
  then obtain st3 where st3: "fold_chain cr ss fs rfp' = Some (Inr st3)"
    "fold_entry cr ss (length fs) (last fs) f st3 = Some (Inr st')"
    using step.prems(1) f fold_chain_snoc by blast
  have "e = f \<or> entry_clash cr e f"
    using entry_hash_inj [of e f] step.prems f by simp
  moreover have "entry_hash cr (last es) = entry_hash cr (last fs)" if "e = f"
    using fold_entryD(2) [OF step(3)] fold_entryD(2) [OF st3(2)] that by simp
  ultimately show ?case
    using step.IH [OF st3(1)] step.prems f by auto
qed

section \<open>The revocation closure\<close>

definition grants :: "roster_state \<Rightarrow> bytes \<Rightarrow> bytes \<Rightarrow> bool" where
  "grants st a d \<longleftrightarrow> map_of (added_by st) d = Some a \<and> map_of (added_at st) d \<noteq> None"

definition late :: "roster_state \<Rightarrow> u64 \<Rightarrow> bytes \<Rightarrow> bool" where
  "late st after_seq d \<longleftrightarrow> (case map_of (added_at st) d of None \<Rightarrow> False | Some s \<Rightarrow> after_seq \<le> s)"

text \<open>Granted by the revoked device, directly or through others, without passing through the revoker.\<close>

inductive descends :: "roster_state \<Rightarrow> bytes \<Rightarrow> bytes \<Rightarrow> bytes \<Rightarrow> bool" for st revoked revoker where
  direct: "grants st revoked d \<Longrightarrow> d \<noteq> revoked \<Longrightarrow> d \<noteq> revoker \<Longrightarrow> descends st revoked revoker d"
| deeper: "descends st revoked revoker x \<Longrightarrow> grants st x d \<Longrightarrow> d \<noteq> revoked \<Longrightarrow> d \<noteq> revoker \<Longrightarrow>
     descends st revoked revoker d"

lemma set_devices_added_by:
  "bt_wf (added_by st) \<Longrightarrow> set (devices_added_by st a 0) = {d. grants st a d}"
  by (auto simp: devices_added_by_def grants_def bt_get_iff split: option.splits) force

lemma sweep_effect:
  "sweep st after_seq ds (r, s, w) = (r', s', w') \<Longrightarrow>
     set s' = set s \<union> set ds \<and> set w' = set w \<union> (set ds - set s)
     \<and> set r' = set r \<union> {d \<in> set ds - set s. late st after_seq d}"
proof (induction ds arbitrary: r s w)
  case (Cons d ds)
  show ?case
  proof (cases "d \<in> set s")
    case True
    with Cons.IH [of r s w] Cons.prems show ?thesis by auto
  next
    case False
    let ?r = "if late st after_seq d then insort_insert d r else r"
    have "sweep st after_seq ds (?r, insort_insert d s, w @ [d]) = (r', s', w')"
      using Cons.prems False by (simp add: late_def)
    from Cons.IH [OF this] False show ?thesis by (auto simp: set_insort_insert)
  qed
qed simp

definition closure_inv :: "roster_state \<Rightarrow> bytes \<Rightarrow> u64 \<Rightarrow> bytes \<Rightarrow> bytes list \<times> bytes list \<times> bytes list \<Rightarrow> bool" where
  "closure_inv st revoked after_seq revoker acc \<longleftrightarrow>
     (case acc of (r, s, w) \<Rightarrow>
        {revoked, revoker} \<subseteq> set s \<and> set s - {revoked, revoker} \<subseteq> Collect (descends st revoked revoker)
        \<and> set w \<subseteq> set s - {revoker}
        \<and> (\<forall>x \<in> set s - {revoker} - set w. \<forall>d. grants st x d \<longrightarrow> d \<in> set s)
        \<and> set r = {d \<in> set s - {revoked, revoker}. late st after_seq d})"

lemma closure_inv_step:
  assumes wf: "bt_wf (added_by st)" and inv: "closure_inv st revoked after_seq revoker (r, s, w)" and w: "w \<noteq> []"
  shows "closure_inv st revoked after_seq revoker
    (sweep st after_seq (devices_added_by st (last w) 0) (r, s, butlast w))"
proof -
  obtain r' s' w' where sw: "sweep st after_seq (devices_added_by st (last w) 0) (r, s, butlast w) = (r', s', w')"
    by (metis prod_cases3)
  note eff = sweep_effect [OF sw, unfolded set_devices_added_by [OF wf] mem_Collect_eq]
  have setw: "set w = insert (last w) (set (butlast w))" using w by (cases w rule: rev_cases) auto
  have cur: "last w \<in> set s" "last w \<noteq> revoker" "last w = revoked \<or> descends st revoked revoker (last w)"
    using inv setw by (auto simp: closure_inv_def)
  have new: "descends st revoked revoker d" if "grants st (last w) d" "d \<notin> set s" for d
    using that cur(3) inv by (auto simp: closure_inv_def intro: direct deeper)
  have closed: "d \<in> set s'" if "x \<in> set s' - {revoker} - set w'" "grants st x d" for x d
  proof (cases "x = last w")
    case True
    then show ?thesis using that(2) eff by simp
  next
    case False
    then have "x \<in> set s - {revoker} - set w" using that(1) eff setw by blast
    then show ?thesis using inv that(2) eff by (auto simp: closure_inv_def)
  qed
  have I1: "revoked \<in> set s" "revoker \<in> set s"
    and I2: "set s - {revoked, revoker} \<subseteq> Collect (descends st revoked revoker)"
    and I3: "set w \<subseteq> set s - {revoker}" and I5: "set r = {d \<in> set s - {revoked, revoker}. late st after_seq d}"
    using inv unfolding closure_inv_def by simp_all
  have seen: "set s' = set s \<union> {d. grants st (last w) d}"
    and work: "set w' = set (butlast w) \<union> ({d. grants st (last w) d} - set s)"
    and res: "set r' = set r \<union> {d \<in> {d. grants st (last w) d} - set s. late st after_seq d}"
    using eff by blast+
  show ?thesis
    unfolding sw closure_inv_def prod.case
  proof (intro conjI)
    show "{revoked, revoker} \<subseteq> set s'" unfolding seen using I1 by blast
    show "set s' - {revoked, revoker} \<subseteq> Collect (descends st revoked revoker)" unfolding seen using I2 new by blast
    show "set w' \<subseteq> set s' - {revoker}" unfolding seen work using I1 I3 setw by blast
    show "\<forall>x \<in> set s' - {revoker} - set w'. \<forall>d. grants st x d \<longrightarrow> d \<in> set s'" using closed by blast
    show "set r' = {d \<in> set s' - {revoked, revoker}. late st after_seq d}" unfolding seen res using I1 I5 by blast
  qed
qed

lemma closure_loop_set:
  "bt_wf (added_by st) \<Longrightarrow> closure_inv st revoked after_seq revoker acc \<Longrightarrow> revoked \<noteq> revoker \<Longrightarrow>
     set (closure_loop st after_seq acc) = {d. descends st revoked revoker d \<and> late st after_seq d}"
proof (induction st after_seq acc rule: closure_loop.induct)
  case (1 st after_seq result seen work)
  show ?case
  proof (cases "work = []")
    case True
    have inv: "{revoked, revoker} \<subseteq> set seen" "set seen - {revoked, revoker} \<subseteq> Collect (descends st revoked revoker)"
      "\<forall>x \<in> set seen - {revoker}. \<forall>d. grants st x d \<longrightarrow> d \<in> set seen"
      "set result = {d \<in> set seen - {revoked, revoker}. late st after_seq d}"
      using "1.prems"(2) True by (auto simp: closure_inv_def)
    have "d \<in> set seen \<and> d \<noteq> revoked \<and> d \<noteq> revoker" if "descends st revoked revoker d" for d
      using that
    proof induction
      case (direct d)
      then show ?case using inv(1,3) "1.prems"(3) by blast
    next
      case (deeper x d)
      then show ?case using inv(3) by blast
    qed
    then show ?thesis using inv(2,4) by (subst closure_loop.simps) (auto simp: True)
  next
    case False
    have "closure_inv st revoked after_seq revoker
        (sweep st after_seq (devices_added_by st (last work) 0) (result, seen, butlast work))"
      by (rule closure_inv_step [OF "1.prems"(1,2) False])
    with 1 False show ?thesis by (subst closure_loop.simps) simp
  qed
qed

lemma revoke_closure_set:
  assumes "bt_wf (added_by st)" "revoked \<noteq> revoker"
  shows "set (revoke_closure st revoked after_seq revoker) = {d. descends st revoked revoker d \<and> late st after_seq d}"
  unfolding revoke_closure_def
  by (rule closure_loop_set [OF assms(1) _ assms(2)])
    (use assms(2) in \<open>auto simp: closure_inv_def set_insort_insert\<close>)

section \<open>Appending\<close>

text \<open>The documented behaviour of the signature library: what it signs, it verifies.\<close>

definition signs_verifiably :: "ssh \<Rightarrow> bool" where
  "signs_verifiably ss \<longleftrightarrow>
     (\<forall>sk ns msg sg. ssh_sign ss sk ns msg = Some sg \<longrightarrow> accepts_sig ss (sk_public ss sk) ns msg sg)"

lemma append_entry_folds:
  assumes "signs_verifiably ss" "append_entry cr ss prev op sk ts = Some (Inr e)"
    "device_id_of cr ss (sk_public ss sk) = Inr d" "map_of (members st) d = Some (sk_public ss sk)"
    "e_seq prev + 1 = of_nat i"
  shows "e_op e = op" "e_seq e = of_nat i"
    "fold_entry cr ss i prev e st = map_option (map_sum id (\<lambda>st. st\<lparr>tip_seq := e_seq e\<rparr>)) (Some (apply_op cr ss e op st))"
proof -
  from assms(2,3) obtain h msg sg where h: "entry_hash cr prev = Some h" "signed_bytes (e_seq prev + 1) h op ts d = Some msg"
    "ssh_sign ss sk NS_ROSTER msg = Some sg"
    and e: "e = \<lparr>e_seq = e_seq prev + 1, e_prev = h, e_op = op, e_ts = ts, e_signer = d, e_sig = sg\<rparr>"
    by (auto simp: append_entry_def Let_def orbind_eq_ok bind_eq_Some_conv DeviceKey_sign_def split: if_splits)
  have "DevicePublic_verify ss (sk_public ss sk) NS_ROSTER msg sg = Inr ()"
    using assms(1) h(3) by (simp add: DevicePublic_verify_iff signs_verifiably_def)
  then have "verify_entry_sig ss (sk_public ss sk) e = Some (Inr ())"
    using h(2) by (simp add: verify_entry_sig_def e)
  then show "fold_entry cr ss i prev e st = map_option (map_sum id (\<lambda>st. st\<lparr>tip_seq := e_seq e\<rparr>)) (Some (apply_op cr ss e op st))"
    using assms(4,5) h(1) by (cases "apply_op cr ss e op st") (simp_all add: fold_entry_def e)
  show "e_op e = op" "e_seq e = of_nat i" using e assms(5) by simp_all
qed

lemma revoke_run_folds:
  assumes "signs_verifiably ss" "device_id_of cr ss (sk_public ss sk) = Inr d" "d \<notin> set ds"
    "append_many cr ss prev (map RevokeDevice ds @ [Rotate c]) sk ts = Some (Inr es)"
    "map_of (members st) d = Some (sk_public ss sk)" "e_seq prev + 1 = of_nat i" "rs_generation st \<noteq> - 1"
  shows "\<exists>st'. fold_loop cr ss i prev es st = Some (Inr st')
    \<and> (\<forall>x. map_of (members st') x = (if x \<in> set ds then None else map_of (members st) x))
    \<and> rs_generation st' = rs_generation st + 1 \<and> map_of (mk_commits st') (rs_generation st + 1) = Some c"
  using assms(3-)
proof (induction ds arbitrary: prev i st es)
  case Nil
  then obtain e where e: "append_entry cr ss prev (Rotate c) sk ts = Some (Inr e)" "es = [e]"
    by (auto simp: orbind_eq_ok)
  show ?case
    using append_entry_folds(3) [OF assms(1) e(1) assms(2) Nil.prems(3,4)] Nil.prems(5) e(2) by (simp add: Let_def)
next
  case (Cons x ds)
  then obtain e es' where e: "append_entry cr ss prev (RevokeDevice x) sk ts = Some (Inr e)"
    "append_many cr ss e (map RevokeDevice ds @ [Rotate c]) sk ts = Some (Inr es')" "es = e # es'"
    by (auto simp: orbind_eq_ok)
  note f = append_entry_folds [OF assms(1) e(1) assms(2) Cons.prems(3,4)]
  let ?st = "st\<lparr>members := bt_remove x (members st), added_by := bt_remove x (added_by st),
       added_at := bt_remove x (added_at st), enroll_pubs := bt_remove x (enroll_pubs st), tip_seq := e_seq e\<rparr>"
  have st: "fold_entry cr ss i prev e st = Some (Inr ?st)" using f(3) by simp
  have "\<exists>st'. fold_loop cr ss (i + 1) e es' ?st = Some (Inr st')
    \<and> (\<forall>y. map_of (members st') y = (if y \<in> set ds then None else map_of (members ?st) y))
    \<and> rs_generation st' = rs_generation ?st + 1 \<and> map_of (mk_commits st') (rs_generation ?st + 1) = Some c"
    by (rule Cons.IH) (use Cons.prems e(2) f(2) in auto)
  then show ?case using st e(3) by auto
qed

section \<open>Peeling the key histories\<close>

lemma peel_loop_recovers:
  assumes "\<And>h. 1 \<le> h \<Longrightarrow> h < g \<Longrightarrow> \<exists>w. map_of history (of_nat h) = Some w \<and> open_wrap (K (Suc h)) (of_nat h) w = Inr (K h)"
  shows "peel_loop open_wrap g (K g) history keys = Inr (fold (\<lambda>h. bt_insert (of_nat h) (K h)) (rev [1 ..< g]) keys)"
  using assms
proof (induction g arbitrary: keys)
  case 0
  then show ?case by (simp add: peel_loop.simps)
next
  case (Suc g)
  show ?case
  proof (cases "g = 0")
    case True
    then show ?thesis by (simp add: peel_loop.simps)
  next
    case False
    then obtain w where w: "map_of history (of_nat g) = Some w" "open_wrap (K (Suc g)) (of_nat g) w = Inr (K g)"
      using Suc.prems [of g] by auto
    have "peel_loop open_wrap g (K g) history (bt_insert (of_nat g) (K g) keys)
        = Inr (fold (\<lambda>h. bt_insert (of_nat h) (K h)) (rev [1 ..< g]) (bt_insert (of_nat g) (K g) keys))"
      by (rule Suc.IH) (use Suc.prems in auto)
    with w False show ?thesis by (subst peel_loop.simps) simp
  qed
qed

lemma open_key_wrap_seal:
  assumes "seal cr k (Frame_encode f) key = (tag, ct)" "length key = 32"
  shows "open_key_wrap cr k f (tag @ ct) = Inr key"
proof -
  have "length tag = CTX_TAG_LEN" "length ct = ROSTER_KEY_LEN"
    using ctx.tag_length [of cr k "Frame_encode f" key] ctx.ct_length [of cr k "Frame_encode f" key] assms
    by (simp_all add: CTX_TAG_LEN_def ROSTER_KEY_LEN_def)
  then show ?thesis using ctx.opens_seal [OF assms(1)] by (simp add: open_key_wrap_def)
qed

lemma open_data_keyhist_seal: "length mk = 32 \<Longrightarrow> open_data_keyhist cr mk_next g (seal_data_keyhist cr mk_next g mk) = Inr mk"
  by (auto simp: open_data_keyhist_def seal_data_keyhist_def split: prod.split intro: open_key_wrap_seal)

lemma open_roster_keyhist_seal: "length rk = 32 \<Longrightarrow> open_roster_keyhist cr rk_next g (seal_roster_keyhist cr rk_next g rk) = Inr rk"
  by (auto simp: open_roster_keyhist_def seal_roster_keyhist_def split: prod.split intro: open_key_wrap_seal)

section \<open>Properties\<close>

text \<open>
  C24: membership passes only from member to member. A chain that folds starts with a genesis entry
  whose hash is the pinned fingerprint, and every later entry has the next sequence number, names the
  hash of its predecessor and carries a signature, under the roster namespace, of a device that is a
  member in the state folded from the entries before it. The folded state is well formed: every key
  ever admitted is filed under its own device id, and exactly the generations up to the current one
  have a commitment.
\<close>

theorem fold_succession:
  assumes "fold_chain cr ss es rfp = Some (Inr st)"
  shows "entry_hash cr (hd es) = Some rfp \<and> roster_ok cr ss st
    \<and> (\<forall>i. 0 < i \<and> i < length es \<longrightarrow>
         (\<exists>st' pk msg. fold_chain cr ss (take i es) rfp = Some (Inr st')
            \<and> map_of (members st') (e_signer (es ! i)) = Some pk
            \<and> e_seq (es ! i) = of_nat i \<and> entry_hash cr (es ! (i - 1)) = Some (e_prev (es ! i))
            \<and> signed_bytes (e_seq (es ! i)) (e_prev (es ! i)) (e_op (es ! i)) (e_ts (es ! i)) (e_signer (es ! i)) = Some msg
            \<and> accepts_sig ss pk NS_ROSTER msg (e_sig (es ! i))))"
    (is "?h es \<and> _ \<and> (\<forall>i. 0 < i \<and> i < length es \<longrightarrow> ?p es i)")
proof -
  from assms have "?h es \<and> (\<forall>i. 0 < i \<and> i < length es \<longrightarrow> ?p es i)"
  proof (induction rule: fold_chain_induct)
    case (genesis g st)
    then show ?case using fold_genesisD(3) by auto
  next
    case (step es e st st')
    have "?p (es @ [e]) i" if "0 < i" "i < length (es @ [e])" for i
    proof (cases "i < length es")
      case True
      moreover have "(es @ [e]) ! (i - 1) = es ! (i - 1)" using True by (simp add: nth_append)
      ultimately show ?thesis using step.IH that by (simp add: nth_append)
    next
      case False
      then have i: "i = length es" using that by simp
      have "(es @ [e]) ! (i - 1) = last es" using i step(1) by (simp add: nth_append last_conv_nth)
      then show ?thesis using i step(2) fold_entryD [OF step(3)] by simp
    qed
    then show ?case using step.IH step(1) by simp
  qed
  then show ?thesis using fold_chain_ok [OF assms] by blast
qed

definition toy_genesis :: "bytes \<Rightarrow> entry" where
  "toy_genesis c = \<lparr>e_seq = 0, e_prev = replicate 32 0, e_op = Genesis [5] c [], e_ts = 0,
     e_signer = hash toy_crypto [5], e_sig = []\<rparr>"

definition toy_rfp :: "bytes \<Rightarrow> bytes" where
  "toy_rfp c = the (entry_hash toy_crypto (toy_genesis c))"

lemma toy_genesis_wf: "length c = 32 \<Longrightarrow> entry_wf (toy_genesis c)"
  by (simp add: entry_wf_def toy_genesis_def MAX_ROSTER_ENTRY_SIZE_def hash_def)

lemma toy_signs: "signs_verifiably toy_ssh"
  by (simp add: signs_verifiably_def accepts_sig_def toy_ssh_def)

definition toy_state :: "bytes \<Rightarrow> roster_state" where
  "toy_state c = \<lparr>members = [(hash toy_crypto [5], [5])], ever_members = [(hash toy_crypto [5], [5])], rs_generation = 1,
     min_algo = MIN_ALGO_ID, mk_commits = [(1, c)], added_by = [], added_at = [], enroll_pubs = [], tip_seq = 0\<rparr>"

lemma toy_fold:
  assumes "length c = 32"
  shows "fold_chain toy_crypto toy_ssh [toy_genesis c] (toy_rfp c) = Some (Inr (toy_state c))"
proof -
  obtain h where h: "entry_hash toy_crypto (toy_genesis c) = Some h" using entry_hash_wf [OF toy_genesis_wf [OF assms]] by blast
  have "op_wf (e_op (toy_genesis c))" using toy_genesis_wf [OF assms] by (simp add: entry_wf_def)
  then have "verify_entry_sig toy_ssh [5] (toy_genesis c) = Some (Inr ())"
    by (simp add: verify_entry_sig_def signed_bytes_img DevicePublic_verify_def toy_ssh_def toy_genesis_def)
  moreover have "e_seq (toy_genesis c) = 0" "e_prev (toy_genesis c) = replicate 32 0"
    "e_op (toy_genesis c) = Genesis [5] c []" "e_signer (toy_genesis c) = hash toy_crypto [5]"
    "DevicePublic_from_canonical toy_ssh [5] = Inr [5]" "device_id_of toy_crypto toy_ssh [5] = Inr (hash toy_crypto [5])"
    by (simp_all add: toy_genesis_def DevicePublic_from_canonical_def device_id_of_def toy_ssh_def)
  ultimately show ?thesis
    using h by (simp add: fold_genesis_def toy_rfp_def toy_state_def)
qed

abbreviation toy_commit :: bytes where "toy_commit \<equiv> replicate 32 9"

lemmas toy_facts = toy_fold [OF length_replicate [of 32 9]] toy_genesis_wf [OF length_replicate [of 32 9]]

theorem fold_succession_witness:
  "roster_ok toy_crypto toy_ssh (toy_state toy_commit) \<and> entry_hash toy_crypto (toy_genesis toy_commit) = Some (toy_rfp toy_commit)"
  using fold_succession [OF toy_facts(1)] by simp

text \<open>
  The tip commits to the whole chain. Two chains of the same length that fold, under whatever
  fingerprints, and whose last entries have the same hash are the same chain, unless BLAKE3
  collides on the encodings of two entries at one position; so agreeing on the tip is agreeing on every membership decision before it.
\<close>

theorem roster_tip_binds_chain:
  assumes "fold_chain cr ss es rfp = Some (Inr st)" "fold_chain cr ss es' rfp' = Some (Inr st')"
    "length es = length es'" "list_all entry_wf es" "list_all entry_wf es'"
    "entry_hash cr (last es) = entry_hash cr (last es')"
  shows "es = es' \<or> (\<exists>(e, e') \<in> set (zip es es'). entry_clash cr e e')"
  by (rule fold_chain_determined [OF assms])

theorem roster_tip_binds_chain_witness: "[(toy_genesis toy_commit)] = [(toy_genesis toy_commit)]
   \<or> (\<exists>(e, e') \<in> set (zip [(toy_genesis toy_commit)] [(toy_genesis toy_commit)]). entry_clash toy_crypto e e')"
  by (rule roster_tip_binds_chain [OF toy_facts(1) toy_facts(1)]) (simp_all add: toy_facts(2))

text \<open>
  C25: revocation removes a device and everything it let in since. When a member revokes another
  device, the entries built for it extend the chain: the extended chain folds, the revoked device and
  exactly the devices that descend from it by grants made at or after the given sequence number
  (walking through earlier ones, never through the revoker) are no longer members, every other
  member stays, and a new generation with the given commitment begins.
\<close>

theorem revoke_rotate_removes:
  assumes "signs_verifiably ss" "fold_chain cr ss es rfp = Some (Inr st)"
    "device_id_of cr ss (sk_public ss sk) = Inr d" "map_of (members st) d = Some (sk_public ss sk)"
    "revoke_rotate_ops st revoked after_seq d c = Inr ops" "append_many cr ss (last es) ops sk ts = Some (Inr new)"
    "rs_generation st \<noteq> - 1"
  shows "\<exists>st'. fold_chain cr ss (es @ new) rfp = Some (Inr st')
    \<and> (\<forall>x. map_of (members st') x =
         (if x = revoked \<or> descends st revoked d x \<and> late st after_seq x then None else map_of (members st) x))
    \<and> rs_generation st' = rs_generation st + 1 \<and> map_of (mk_commits st') (rs_generation st + 1) = Some c"
proof -
  let ?ds = "revoked # revoke_closure st revoked after_seq d"
  have ne: "revoked \<noteq> d" and ops: "ops = map RevokeDevice ?ds @ [Rotate c]"
    using assms(5) by (auto simp: revoke_rotate_ops_def split: if_splits)
  have "bt_wf (added_by st)" using fold_chain_ok [OF assms(2)] by (simp add: roster_ok_def)
  then have cl: "set (revoke_closure st revoked after_seq d) = {x. descends st revoked d x \<and> late st after_seq x}"
    using ne by (rule revoke_closure_set)
  have "\<not> descends st revoked d d" by (auto elim: descends.cases)
  then have nd: "d \<notin> set ?ds" using cl ne by auto
  have seq: "e_seq (last es) + 1 = of_nat (length es)" "es \<noteq> []"
    using fold_chain_last_seq [OF assms(2)] by (cases es; simp)+
  from revoke_run_folds [OF assms(1,3) nd assms(6) [unfolded ops] assms(4) seq(1) assms(7)]
  obtain st' where "fold_loop cr ss (length es) (last es) new st = Some (Inr st')"
    "\<forall>x. map_of (members st') x = (if x \<in> set ?ds then None else map_of (members st) x)"
    "rs_generation st' = rs_generation st + 1" "map_of (mk_commits st') (rs_generation st + 1) = Some c" by blast
  then show ?thesis using fold_chain_append [OF seq(2), of cr ss new rfp] assms(2) cl by (intro exI [of _ st']) auto
qed

lemma toy_append: "entry_wf p \<Longrightarrow> op_wf op \<Longrightarrow> e_seq p \<noteq> - 1 \<Longrightarrow>
   append_entry toy_crypto toy_ssh p op [5] ts = Some (Inr \<lparr>e_seq = e_seq p + 1, e_prev = the (entry_hash toy_crypto p),
     e_op = op, e_ts = ts, e_signer = hash toy_crypto [5], e_sig = []\<rparr>)"
  by (simp add: append_entry_def entry_hash_def encode_entry_img signed_bytes_img Let_def device_id_of_def
      DeviceKey_sign_def toy_ssh_def)

theorem revoke_rotate_removes_witness:
  "\<exists>new st'. fold_chain toy_crypto toy_ssh ((toy_genesis toy_commit) # new) (toy_rfp toy_commit) = Some (Inr st')
     \<and> map_of (members st') (replicate 32 7) = None \<and> rs_generation st' = 2"
proof -
  let ?d = "hash toy_crypto [5]" and ?c = "replicate 32 8"
  have "hd ?d = 5" using le_bytes.simps(2) [of 31 "5 :: 256 word"] by (simp add: hash_def toy_crypto_def)
  moreover have "hd (replicate 32 (7 :: u8)) = 7" by simp
  ultimately have ne: "replicate 32 7 \<noteq> ?d" by force
  have cl: "set (revoke_closure (toy_state toy_commit) (replicate 32 7) 0 ?d) = {x. descends (toy_state toy_commit) (replicate 32 7) ?d x \<and> late (toy_state toy_commit) 0 x}"
    by (rule revoke_closure_set) (use ne in \<open>simp_all add: toy_state_def\<close>)
  have "\<not> descends (toy_state toy_commit) (replicate 32 7) ?d x" for x
  proof
    assume "descends (toy_state toy_commit) (replicate 32 7) ?d x"
    then show False by induction (simp_all add: grants_def toy_state_def)
  qed
  with cl have c0: "revoke_closure (toy_state toy_commit) (replicate 32 7) 0 ?d = []" by simp
  have ops: "revoke_rotate_ops (toy_state toy_commit) (replicate 32 7) 0 ?d ?c = Inr [RevokeDevice (replicate 32 7), Rotate ?c]"
    using ne c0 by (simp add: revoke_rotate_ops_def)
  define e1 where "e1 = \<lparr>e_seq = 1, e_prev = the (entry_hash toy_crypto (toy_genesis toy_commit)), e_op = RevokeDevice (replicate 32 7),
    e_ts = 0, e_signer = ?d, e_sig = []\<rparr>"
  have a1: "append_entry toy_crypto toy_ssh (toy_genesis toy_commit) (RevokeDevice (replicate 32 7)) [5] 0 = Some (Inr e1)"
    using toy_append [OF toy_facts(2), of "RevokeDevice (replicate 32 7)" 0] by (simp add: e1_def toy_genesis_def)
  have "entry_wf e1"
    using entry_hash_wf [OF toy_facts(2), of toy_crypto] by (auto simp: entry_wf_def e1_def entry_hash_def hash_def)
  from toy_append [OF this, of "Rotate ?c" 0] obtain e2 where
    a2: "append_entry toy_crypto toy_ssh e1 (Rotate ?c) [5] 0 = Some (Inr e2)" by (auto simp: e1_def)
  have am: "append_many toy_crypto toy_ssh (last [(toy_genesis toy_commit)]) [RevokeDevice (replicate 32 7), Rotate ?c] [5] 0 = Some (Inr [e1, e2])"
    using a1 a2 by simp
  have id: "device_id_of toy_crypto toy_ssh (sk_public toy_ssh [5]) = Inr ?d"
    "map_of (members (toy_state toy_commit)) ?d = Some (sk_public toy_ssh [5])" "rs_generation (toy_state toy_commit) \<noteq> - 1"
    by (simp_all add: device_id_of_def toy_ssh_def toy_state_def)
  from revoke_rotate_removes [OF toy_signs toy_facts(1) id(1,2) ops am id(3)] obtain st' where
    st': "fold_chain toy_crypto toy_ssh ([toy_genesis toy_commit] @ [e1, e2]) (toy_rfp toy_commit) = Some (Inr st')"
    "map_of (members st') (replicate 32 7) = None" "rs_generation st' = rs_generation (toy_state toy_commit) + 1" by metis
  then show ?thesis by (intro exI [of _ "[e1, e2]"] exI [of _ st']) (simp add: toy_state_def del: fold_chain.simps)
qed

text \<open>
  C26: a cold start trusts only the committed key. When a device opens the stored roster with a
  candidate master key, and that succeeds, the entries it opened fold under the pinned fingerprint to
  the state it returns, the returned key is the candidate, and its commitment is the one that chain
  records for the generation; a different key with that commitment would be, with this key, a
  collision of keyed BLAKE3.
\<close>

theorem cold_start_trust:
  assumes "cold_start_fold cr ss candidate g rfp history stored = Some (Inr (st, mk))"
  shows "mk = MasterKey_new g candidate \<and> map_of (mk_commits st) g = Some (mk_commit cr mk)
    \<and> (\<exists>keys es. peel_roster_keys cr (roster_key cr mk) g history = Inr keys
         \<and> open_entries cr keys 0 stored = Inr es \<and> fold_chain cr ss es rfp = Some (Inr st))
    \<and> (\<forall>mk'. map_of (mk_commits st) g = Some (mk_commit cr mk') \<longrightarrow> mk' = mk \<or> keyed_clash cr (mk_commit_input mk') (mk_commit_input mk))"
  using assms mk_commit_binding [of cr _ mk]
  by (auto simp: cold_start_fold_def Let_def orbind_eq_ok split: if_splits)

lemma peel_one: "peel_roster_keys cr rk 1 history = Inr [(1, rk)]"
  by (simp add: peel_roster_keys_def peel_loop.simps)

theorem cold_start_trust_witness:
  "\<exists>st mk stored rfp. cold_start_fold toy_crypto toy_ssh (replicate 32 3) 1 rfp [] [stored] = Some (Inr (st, mk))
     \<and> map_of (mk_commits st) 1 = Some (mk_commit toy_crypto mk)"
proof -
  let ?mk = "MasterKey_new 1 (replicate 32 3)"
  let ?c = "mk_commit toy_crypto ?mk" and ?rk = "roster_key toy_crypto ?mk"
  have c: "length ?c = 32" by (simp add: mk_commit_def keyed_hash_def)
  obtain pt where pt: "encode_entry (toy_genesis ?c) = Some pt" "length pt \<le> 200"
    using encode_entry_img [OF toy_genesis_wf [OF c]] c by (auto simp: signed_img_def toy_genesis_def hash_def)
  let ?b = "seal_entry_with_salt toy_crypto ?rk 1 0 (replicate ROSTER_ENTRY_SALT_LEN 0) pt"
  let ?k = "roster_entry_key_v2 toy_crypto ?rk 0 (replicate ROSTER_ENTRY_SALT_LEN 0)"
  have len: "FRAME_LEN \<le> length ?b" "length ?b \<le> MAX_BLOB_SIZE" "take FRAME_LEN ?b = Frame_encode (Frame_v2 1 TRosterEntry)"
  proof -
    let ?ad = "ad_roster_v2 (Frame_v2 1 TRosterEntry) 0 (replicate ROSTER_ENTRY_SALT_LEN 0)"
    have b: "?b = Frame_encode (Frame_v2 1 TRosterEntry) @ replicate ROSTER_ENTRY_SALT_LEN 0
        @ fst (seal toy_crypto ?k ?ad pt) @ snd (seal toy_crypto ?k ?ad pt)"
      by (simp add: seal_entry_with_salt_def Let_def case_prod_beta)
    show "FRAME_LEN \<le> length ?b" "length ?b \<le> MAX_BLOB_SIZE" "take FRAME_LEN ?b = Frame_encode (Frame_v2 1 TRosterEntry)"
      unfolding b using pt(2) ctx.ct_length [of toy_crypto ?k ?ad pt] ctx.tag_length [of toy_crypto ?k ?ad pt]
      by (simp_all add: ROSTER_ENTRY_SALT_LEN_def MAX_BLOB_SIZE_def FRAME_LEN_def)
  qed
  have g: "blob_gen ?b = Inr 1" using len by (simp add: blob_gen_def Frame_decode_encode)
  have "open_entry toy_crypto ?rk 1 0 ?b = Inr pt" using len(2) by (subst open_entry_iff) (metis length_replicate)
  moreover have "decode_entry pt = Inr (toy_genesis ?c)" using pt(1) toy_genesis_wf [OF c] by (simp add: decode_entry_iff)
  ultimately have es: "open_entries toy_crypto [(1, ?rk)] 0 [?b] = Inr [toy_genesis ?c]" using g by simp
  have st: "map_of (mk_commits (toy_state ?c)) 1 = Some ?c" by (simp add: toy_state_def)
  have "cold_start_fold toy_crypto toy_ssh (replicate 32 3) 1 (toy_rfp ?c) [] [?b] = Some (Inr (toy_state ?c, ?mk))"
    using g es toy_fold [OF c] st by (simp add: cold_start_fold_def Let_def peel_one del: fold_chain.simps open_entries.simps)
  from cold_start_trust [OF this] this show ?thesis by blast
qed

text \<open>
  C27: the key history gives every earlier key back. When the history holds, for each generation below
  the current one, the wrap of that generation's master key under the next one, and the chain records
  the commitment of each, peeling from the current key returns exactly the master keys of all
  generations, in order.
\<close>

theorem key_history_recovers:
  assumes "1 \<le> g" "g \<le> u32_max" "\<forall>h. 1 \<le> h \<and> h \<le> g \<longrightarrow> length (K h) = 32"
    "\<forall>h. 1 \<le> h \<and> h < g \<longrightarrow> map_of history (of_nat h) = Some (seal_data_keyhist cr (K (Suc h)) (of_nat h) (K h))"
    "\<forall>h. 1 \<le> h \<and> h \<le> g \<longrightarrow> map_of commits (of_nat h) = Some (mk_commit cr (MasterKey_new (of_nat h) (K h)))"
  shows "peel_data_keys cr (K g) (of_nat g) history commits = Inr (map (\<lambda>h. (of_nat h, MasterKey_new (of_nat h) (K h))) [1 ..< Suc g])"
proof -
  have lt: "of_nat a < (of_nat b :: u32)" if "a < b" "b \<le> g" for a b
    using that assms(2) by (simp add: word_less_nat_alt unat_of_nat_u32)
  have ins: "fold (\<lambda>h. bt_insert (of_nat h) (K h)) (rev [1 ..< n]) (map (\<lambda>h. (of_nat h :: u32, K h)) [n ..< Suc g])
      = map (\<lambda>h. (of_nat h, K h)) [1 ..< Suc g]" if "1 \<le> n" "n \<le> g" for n
    using that
  proof (induction n)
    case (Suc n)
    show ?case
    proof (cases "n = 0")
      case False
      have "bt_insert (of_nat n) (K n) (map (\<lambda>h. (of_nat h :: u32, K h)) [Suc n ..< Suc g]) = map (\<lambda>h. (of_nat h, K h)) [n ..< Suc g]"
        using lt [of n "Suc n"] Suc.prems upt_conv_Cons [of n "Suc g"] upt_conv_Cons [of "Suc n" "Suc g"]
        by (simp del: upt_Suc)
      moreover have "rev [1 ..< Suc n] = n # rev [1 ..< n]" using False by simp
      ultimately show ?thesis using Suc False by (simp del: upt_Suc)
    qed simp
  qed simp
  have "peel_loop (open_data_keyhist cr) g (K g) history [(of_nat g, K g)] = Inr (map (\<lambda>h. (of_nat h, K h)) [1 ..< Suc g])"
    using peel_loop_recovers [of g history "open_data_keyhist cr" K "[(of_nat g, K g)]"] ins [of g] assms(1,3,4)
    by (simp add: open_data_keyhist_seal)
  then show ?thesis
    using assms(2,5) by (auto simp: peel_data_keys_def unat_of_nat_u32 Let_def list_all_iff o_def)
qed

theorem key_history_recovers_witness:
  "\<exists>history. map_of history 1 \<noteq> None \<and> peel_data_keys toy_crypto (replicate 32 2) 2 history
     (map (\<lambda>h. (of_nat h, mk_commit toy_crypto (MasterKey_new (of_nat h) (replicate 32 (of_nat h))))) [1, 2])
   = Inr [(1, MasterKey_new 1 (replicate 32 1)), (2, MasterKey_new 2 (replicate 32 2))]"
proof -
  let ?K = "\<lambda>h. replicate 32 (of_nat h) :: bytes"
  let ?h = "[(1, seal_data_keyhist toy_crypto (?K 2) 1 (?K 1))]"
  have h: "h = 1 \<or> h = 2" if "1 \<le> h \<and> h \<le> 2" for h :: nat using that by linarith
  have "peel_data_keys toy_crypto (?K 2) (of_nat 2) ?h
     (map (\<lambda>h. (of_nat h, mk_commit toy_crypto (MasterKey_new (of_nat h) (?K h)))) [1, 2])
   = Inr (map (\<lambda>h. (of_nat h, MasterKey_new (of_nat h) (?K h))) [1 ..< Suc 2])"
  proof (rule key_history_recovers)
    show "\<forall>h. 1 \<le> h \<and> h < 2 \<longrightarrow> map_of ?h (of_nat h) = Some (seal_data_keyhist toy_crypto (?K (Suc h)) (of_nat h) (?K h))"
      by (auto simp: less_2_cases_iff numeral_2_eq_2 [symmetric])
    show "\<forall>h. 1 \<le> h \<and> h \<le> 2 \<longrightarrow> map_of (map (\<lambda>h. (of_nat h :: u32, mk_commit toy_crypto (MasterKey_new (of_nat h) (?K h)))) [1, 2]) (of_nat h)
        = Some (mk_commit toy_crypto (MasterKey_new (of_nat h) (?K h)))"
    proof (intro allI impI)
      fix k :: nat
      assume "1 \<le> k \<and> k \<le> 2"
      then have "k = 1 \<or> k = 2" by (rule h)
      then show "map_of (map (\<lambda>h. (of_nat h :: u32, mk_commit toy_crypto (MasterKey_new (of_nat h) (?K h)))) [1, 2]) (of_nat k)
          = Some (mk_commit toy_crypto (MasterKey_new (of_nat k) (?K k)))" by (elim disjE) simp_all
    qed
  qed (simp_all add: u32_max_def)
  then show ?thesis by (intro exI [of _ ?h]) (simp add: numeral_2_eq_2)
qed

end
