(* ===== verification/Prune.thy ===== *)
theory Prune
  imports History Roster
begin

text \<open>
  \<open>crates/secsec-client/src/prune.rs\<close>: cache hygiene and bounded history. The sweep keeps what the
  head reaches; the pruning of history keeps the head and the last versions of each path, and deletes
  other chunks here and, under a compare-and-swap on heads and roster, on the server.
\<close>

section \<open>Model\<close>

definition local_sweep :: "crypto \<Rightarrow> master_keys \<Rightarrow> bytes \<Rightarrow> store \<Rightarrow> (client_error + nat) \<times> store" where
  "local_sweep cr keys head st =
     (case reachable_objects cr keys st head of
        Inl e \<Rightarrow> (Inl (CSnap e), st)
      | Inr keep \<Rightarrow> let (n, st') = retain keep st in (Inr n, st'))"

record retention =
  keep_set :: "bytes list"
  all_chunks :: "bytes list"
  kept :: "(bytes, nat) btree"

text \<open>One changed path of one commit: its chunks are kept while fewer than \<open>keep\<close> versions were.\<close>

fun keep_paths :: "crypto \<Rightarrow> master_keys \<Rightarrow> store \<Rightarrow> nat \<Rightarrow> commit \<Rightarrow> bytes list \<Rightarrow> retention \<Rightarrow> snap_error + retention" where
  "keep_paths cr keys st keep c [] k = Inr k"
| "keep_paths cr keys st keep c (path # paths) k =
     (let n = (case map_of (kept k) path of None \<Rightarrow> 0 | Some n \<Rightarrow> n) in
      if n < keep then
        rbind (path_chunks cr keys st (root_tree c) (root_salt c) path) (\<lambda>cs.
        keep_paths cr keys st keep c paths
          (k\<lparr>kept := bt_insert path (n + 1) (kept k),
             keep_set := fold insort_insert (case cs of None \<Rightarrow> [] | Some cs \<Rightarrow> cs) (keep_set k)\<rparr>))
      else keep_paths cr keys st keep c paths (k\<lparr>kept := bt_insert path n (kept k)\<rparr>))"

fun keep_commits :: "crypto \<Rightarrow> master_keys \<Rightarrow> store \<Rightarrow> nat \<Rightarrow> bytes list \<Rightarrow> retention \<Rightarrow> snap_error + retention" where
  "keep_commits cr keys st keep [] k = Inr k"
| "keep_commits cr keys st keep (i # order) k =
     rbind (open_signed_commit cr keys i st) (\<lambda>(c, _).
     rbind (path_chunks cr keys st (root_tree c) (root_salt c) []) (\<lambda>cs.
     rbind (commit_changes cr keys st c) (\<lambda>changed.
     rbind (keep_paths cr keys st keep c changed
         (k\<lparr>all_chunks := fold insort_insert (case cs of None \<Rightarrow> [] | Some cs \<Rightarrow> cs) (all_chunks k)\<rparr>))
       (keep_commits cr keys st keep order))))"

definition initial_retention :: "bytes list option \<Rightarrow> retention" where
  "initial_retention cs = (let ks = (case cs of None \<Rightarrow> [] | Some cs \<Rightarrow> cs) in \<lparr>keep_set = ks, all_chunks = ks, kept = []\<rparr>)"

definition dead_chunks :: "retention \<Rightarrow> bytes list" where
  "dead_chunks k = filter (\<lambda>i. i \<notin> set (keep_set k)) (all_chunks k)"

function batches :: "nat \<Rightarrow> bytes list \<Rightarrow> bytes list list" where
  "batches n xs = (if xs = [] \<or> n = 0 then [] else take n xs # batches n (drop n xs))"
  by pat_completeness auto
termination
  by (relation "measure (\<lambda>(_, xs). length xs)") auto

declare batches.simps [simp del]

fun prune_batches :: "'r remote \<Rightarrow> bytes \<Rightarrow> u64 \<Rightarrow> bytes list list \<Rightarrow> store \<times> 'r \<Rightarrow> ((client_error + bool) \<times> store \<times> 'r) option" where
  "prune_batches R ahh len [] s = Some (Inr True, s)"
| "prune_batches R ahh len (b # bs) s =
     sbind (remote_call (r_prune R b ahh len) s) (\<lambda>ok s.
     if ok then prune_batches R ahh len bs s else Some (Inr False, s))"

text \<open>What is dead, from the fetched store; the order of the commits is the log's.\<close>

definition find_dead :: "crypto \<Rightarrow> master_keys \<Rightarrow> bytes \<Rightarrow> nat \<Rightarrow> store \<Rightarrow> (client_error + bytes list) option" where
  "find_dead cr keys head keep st =
     orbind (Some (map_err CSnap (open_signed_commit cr keys head st))) (\<lambda>(hc, _).
     orbind (Some (map_err CSnap (path_chunks cr keys st (root_tree hc) (root_salt hc) []))) (\<lambda>cs.
     orbind (topo_order cr keys st head) (\<lambda>order.
     orbind (Some (map_err CSnap (keep_commits cr keys st keep order (initial_retention cs)))) (\<lambda>k.
     Some (Inr (dead_chunks k))))))"

definition prune_history :: "crypto \<Rightarrow> ssh \<Rightarrow> 'r remote \<Rightarrow> master_keys \<Rightarrow> roster_state \<Rightarrow> bytes \<Rightarrow> nat \<Rightarrow> store \<times> 'r
    \<Rightarrow> ((client_error + bool) \<times> store \<times> 'r) option" where
  "prune_history cr ss R keys roster name keep s =
     (if keep = 0 then Some (Inr True, s) else
      sbind (fetch_verified_head cr ss R keys (members roster) name s) (\<lambda>rh s.
      case rh of
        None \<Rightarrow> Some (Inr True, s)
      | Some rh \<Rightarrow>
          let head = commit_id (rh_head rh) in
          sbind (fetch_history cr ss R keys (ever_members roster) head s) (\<lambda>_ s.
          sbind (trying id s (find_dead cr keys head keep (fst s))) (\<lambda>dead s.
          if dead = [] then Some (Inr True, s)
          else
            let s = (snd (delete_objects dead (fst s)), snd s) in
            Option.bind (ref_name_key cr keys) (\<lambda>rnk.
            let ahh = all_heads_hash cr [(ref_hash cr rnk name, hash cr (rh_blob rh))];
                len = (if tip_seq roster = - 1 then tip_seq roster else tip_seq roster + 1)
            in prune_batches R ahh len (batches MAX_HAS_IDS dead) s)))))"

section \<open>What the chunks of a path are\<close>

lemma tree_ids_loop_cases:
  assumes "tree_ids_loop cr keys st trees work = Inr out"
  obtains (finished) "work = []" "out = trees"
  | (skip) "work \<noteq> []" "fst (last work) \<in> set trees" "tree_ids_loop cr keys st trees (butlast work) = Inr out"
  | (gone) "work \<noteq> []" "fst (last work) \<notin> set trees" "get st (fst (last work)) = None"
      "tree_ids_loop cr keys st (insort_insert (fst (last work)) trees) (butlast work) = Inr out"
  | (walk) blob t where "work \<noteq> []" "fst (last work) \<notin> set trees" "get st (fst (last work)) = Some blob"
      "verified_tree cr keys (fst (last work)) (snd (last work)) blob = Inr t"
      "tree_ids_loop cr keys st (insort_insert (fst (last work)) trees) (butlast work @ subtrees t) = Inr out"
  using assms
  by (subst (asm) tree_ids_loop.simps)
    (auto simp: Let_def case_prod_beta rbind_eq_Inr split: if_splits option.splits)

lemma tree_ids_loop_closed:
  "tree_ids_loop cr keys st trees work = Inr out \<Longrightarrow>
     set trees \<union> fst ` set work \<subseteq> set out
     \<and> (\<forall>i \<in> set out - set trees. get st i = None \<or> (\<exists>t. tree_at cr keys st i t))
     \<and> (\<forall>i \<in> set out - set trees. \<forall>t. tree_at cr keys st i t \<longrightarrow> fst ` set (subtrees t) \<subseteq> set out)"
proof (induction cr keys st trees work rule: tree_ids_loop.induct)
  case (1 cr keys st trees work)
  from "1.prems" show ?case
  proof (cases rule: tree_ids_loop_cases)
    case skip
    have w: "fst ` set work = insert (fst (last work)) (fst ` set (butlast work))" using set_work [OF skip(1)] by simp
    from "1.IH"(1) [OF skip(1) refl prod.collapse refl skip(2,3)] skip(2) show ?thesis unfolding w by blast
  next
    case gone
    have w: "fst ` set work = insert (fst (last work)) (fst ` set (butlast work))" using set_work [OF gone(1)] by simp
    have "\<not> tree_at cr keys st (fst (last work)) t" for t using gone(3) tree_at_present by blast
    with "1.IH"(2) [OF gone(1) refl prod.collapse refl gone(2,3,4)] gone(3) show ?thesis
      unfolding w set_insort_insert by blast
  next
    case (walk blob t)
    let ?i = "fst (last work)"
    have w: "fst ` set work = insert ?i (fst ` set (butlast work))" using set_work [OF walk(1)] by simp
    have t: "tree_at cr keys st ?i t" using walk(3,4) by (rule verified_tree_at)
    then have u: "tree_at cr keys st ?i t' \<longleftrightarrow> t' = t" for t' using tree_at_unique by blast
    note ih = "1.IH"(3) [OF walk(1) refl prod.collapse refl walk(2,3,4,5), unfolded set_insort_insert set_append image_Un]
    have "get st i = None \<or> (\<exists>t. tree_at cr keys st i t)" if "i \<in> set out - set trees" for i using ih t that by blast
    moreover have "fst ` set (subtrees t') \<subseteq> set out" if "i \<in> set out - set trees" "tree_at cr keys st i t'" for i t'
    proof (cases "i = ?i")
      case True
      then have "t' = t" using u that(2) by simp
      then show ?thesis using ih by simp
    next
      case False
      then have "i \<in> set out - ({?i} \<union> set trees)" using that(1) by blast
      then show ?thesis using ih that(2) by blast
    qed
    moreover have "set trees \<union> fst ` set work \<subseteq> set out" unfolding w using ih by blast
    ultimately show ?thesis by blast
  qed simp
qed

lemma tree_ids_loop_within:
  "tree_ids_loop cr keys st trees work = Inr out \<Longrightarrow> set trees \<union> fst ` set work \<subseteq> S \<Longrightarrow>
     (\<And>i t. i \<in> S \<Longrightarrow> tree_at cr keys st i t \<Longrightarrow> fst ` set (subtrees t) \<subseteq> S) \<Longrightarrow> set out \<subseteq> S"
proof (induction cr keys st trees work rule: tree_ids_loop.induct)
  case (1 cr keys st trees work)
  from "1.prems"(1) show ?case
  proof (cases rule: tree_ids_loop_cases)
    case finished
    then show ?thesis using "1.prems"(2) by simp
  next
    case skip
    have "set trees \<union> fst ` set (butlast work) \<subseteq> S" using "1.prems"(2) set_work [OF skip(1)] by auto
    from "1.IH"(1) [OF skip(1) refl prod.collapse refl skip(2,3) this "1.prems"(3)] show ?thesis .
  next
    case gone
    have "set (insort_insert (fst (last work)) trees) \<union> fst ` set (butlast work) \<subseteq> S"
      using "1.prems"(2) set_work [OF gone(1)] by (auto simp: set_insort_insert)
    from "1.IH"(2) [OF gone(1) refl prod.collapse refl gone(2,3,4) this "1.prems"(3)] show ?thesis .
  next
    case (walk blob t)
    have i: "fst (last work) \<in> S" using "1.prems"(2) walk(1) by auto
    have "fst ` set (subtrees t) \<subseteq> S" by (rule "1.prems"(3) [OF i verified_tree_at [OF walk(3,4)]])
    then have "set (insort_insert (fst (last work)) trees) \<union> fst ` set (butlast work @ subtrees t) \<subseteq> S"
      using "1.prems"(2) set_work [OF walk(1)] i by (auto simp: set_insort_insert)
    from "1.IH"(3) [OF walk(1) refl prod.collapse refl walk(2,3,4,5) this "1.prems"(3)] show ?thesis .
  qed
qed

text \<open>The ids of the directories under a root, stored or not.\<close>

lemma tree_ids_under:
  assumes "tree_ids_loop cr keys st [] [(root, salt)] = Inr trees"
  shows "set trees = {i. beneath cr keys st root i}"
proof
  show "set trees \<subseteq> {i. beneath cr keys st root i}"
    by (rule tree_ids_loop_within [OF assms]) (auto intro: beneath.intros)
  have "i \<in> set trees" if "beneath cr keys st root i" for i
    using that
  proof induction
    case root
    show ?case using tree_ids_loop_closed [OF assms] by simp
  next
    case (subtree i t j s)
    then have "fst ` set (subtrees t) \<subseteq> set trees" using tree_ids_loop_closed [OF assms] by simp
    then show ?case using subtree.hyps(3) by force
  qed
  then show "{i. beneath cr keys st root i} \<subseteq> set trees" by blast
qed

lemma path_chunks_root:
  assumes "path_chunks cr keys st rt rs [] = Inr cs"
  shows "\<exists>ks. cs = Some ks \<and> (\<forall>x \<in> set ks. listed_in cr keys st (beneath cr keys st rt) x)
    \<and> (\<forall>x. listed_in cr keys st (beneath cr keys st rt) x \<longrightarrow>
         x \<in> set ks \<or> (\<exists>m. mixed cr keys st (beneath cr keys st rt) m \<and> names cr keys st m x))"
proof -
  let ?P = "beneath cr keys st rt"
  have "resolve_path cr keys st rt rs [] = Inr (Some (PDir rt rs))" by (simp add: resolve_path_def path_components_def)
  with assms obtain all trees where d: "collect_tree cr keys st False 0 rt rs [] = Inr all"
    "tree_ids_loop cr keys st [] [(rt, rs)] = Inr trees" "cs = Some (filter (\<lambda>i. i \<notin> set trees) all)"
    by (auto simp: path_chunks_def rbind_eq_Inr)
  note trees = tree_ids_under [OF d(2)]
  from collect_closed(1) [OF downward_under d(1) beneath.root]
  have cl: "closed_in cr keys st False (set all \<inter> clear cr keys st ?P) (set all)" "get st rt \<noteq> None \<Longrightarrow> rt \<in> set all" by auto
  show ?thesis
  proof (intro exI conjI ballI allI impI, rule d(3))
    fix x
    assume "x \<in> set (filter (\<lambda>i. i \<notin> set trees) all)"
    then have "names cr keys st rt x" "\<not> ?P x" using collect_sound(1) [OF d(1)] trees by auto
    then show "listed_in cr keys st ?P x" unfolding names_def by blast
  next
    fix x
    assume x: "listed_in cr keys st ?P x"
    show "x \<in> set (filter (\<lambda>i. i \<notin> set trees) all) \<or> (\<exists>m. mixed cr keys st ?P m \<and> names cr keys st m x)"
    proof (cases "?P x")
      case True
      then show ?thesis using x names_root [of cr keys st x] unfolding mixed_def by blast
    next
      case False
      with closed_listed [OF x cl(1) downward_under beneath.root] cl(2) trees show ?thesis by auto
    qed
  qed
qed

section \<open>What retention keeps\<close>

definition chunk_set :: "crypto \<Rightarrow> master_keys \<Rightarrow> store \<Rightarrow> commit \<Rightarrow> bytes \<Rightarrow> bytes set" where
  "chunk_set cr keys st c path = (case path_chunks cr keys st (root_tree c) (root_salt c) path of Inr (Some cs) \<Rightarrow> set cs | _ \<Rightarrow> {})"

lemma set_chunks_of_path:
  "path_chunks cr keys st (root_tree c) (root_salt c) path = Inr cs \<Longrightarrow> set (case cs of None \<Rightarrow> [] | Some ks \<Rightarrow> ks) = chunk_set cr keys st c path"
  by (simp add: chunk_set_def split: option.splits)

lemma keep_paths_ok:
  "keep_paths cr keys st keep c paths k = Inr k' \<Longrightarrow>
     set (keep_set k) \<subseteq> set (keep_set k') \<and> all_chunks k' = all_chunks k
     \<and> (\<forall>p. val (kept k') p \<le> val (kept k) p + count_list paths p)
     \<and> (\<forall>p \<in> set paths. val (kept k) p < keep \<longrightarrow> chunk_set cr keys st c p \<subseteq> set (keep_set k'))"
proof (induction cr keys st keep c paths k rule: keep_paths.induct)
  case (2 cr keys st keep c path paths k)
  have n: "(case map_of (kept k) path of None \<Rightarrow> 0 | Some n \<Rightarrow> n) = val (kept k) path" by (simp add: val_def)
  have ins: "val (bt_insert path m (kept k)) p = (if p = path then m else val (kept k) p)" for m p by (simp add: val_def)
  show ?case
  proof (cases "val (kept k) path < keep")
    case True
    with "2.prems" n obtain cs where cs: "path_chunks cr keys st (root_tree c) (root_salt c) path = Inr cs"
      and r: "keep_paths cr keys st keep c paths (k\<lparr>kept := bt_insert path (val (kept k) path + 1) (kept k),
             keep_set := fold insort_insert (case cs of None \<Rightarrow> [] | Some cs \<Rightarrow> cs) (keep_set k)\<rparr>) = Inr k'"
      by (auto simp: rbind_eq_Inr)
    have ks: "set (fold insort_insert (case cs of None \<Rightarrow> [] | Some ks \<Rightarrow> ks) (keep_set k)) = set (keep_set k) \<union> chunk_set cr keys st c path"
      using set_chunks_of_path [OF cs] by (simp add: set_fold_insort Un_commute)
    have v: "val (bt_insert path (Suc (val (kept k) path)) (kept k)) p = val (kept k) p + count_list [path] p" for p by (simp add: ins)
    have ih: "set (keep_set k) \<union> chunk_set cr keys st c path \<subseteq> set (keep_set k')" "all_chunks k' = all_chunks k"
      "\<And>p. val (kept k') p \<le> val (kept k) p + count_list [path] p + count_list paths p"
      "\<And>p. p \<in> set paths \<Longrightarrow> val (kept k) p + count_list [path] p < keep \<Longrightarrow> chunk_set cr keys st c p \<subseteq> set (keep_set k')"
      using "2.IH"(1) [OF n [symmetric] True cs r] by (simp_all add: ks v del: count_list.simps)
    have "val (kept k') p \<le> val (kept k) p + count_list (path # paths) p" for p using ih(3) [of p] by (cases "path = p") simp_all
    moreover have "chunk_set cr keys st c p \<subseteq> set (keep_set k')" if "p \<in> set (path # paths)" "val (kept k) p < keep" for p
      using that ih(1,4) by (cases "p = path") auto
    ultimately show ?thesis using ih(1,2) by simp
  next
    case False
    with "2.prems" n have r: "keep_paths cr keys st keep c paths (k\<lparr>kept := bt_insert path (val (kept k) path) (kept k)\<rparr>) = Inr k'" by simp
    have v: "val (bt_insert path (val (kept k) path) (kept k)) p = val (kept k) p" for p by (simp add: ins)
    from "2.IH"(2) [OF n [symmetric] False r] have ih: "set (keep_set k) \<subseteq> set (keep_set k')" "all_chunks k' = all_chunks k"
      "\<And>p. val (kept k') p \<le> val (kept k) p + count_list paths p"
      "\<And>p. p \<in> set paths \<Longrightarrow> val (kept k) p < keep \<Longrightarrow> chunk_set cr keys st c p \<subseteq> set (keep_set k')" by (simp_all add: v)
    have "val (kept k') p \<le> val (kept k) p + count_list (path # paths) p" for p using ih(3) [of p] by (cases "path = p") simp_all
    with ih False show ?thesis by auto
  qed
qed simp

definition changes :: "crypto \<Rightarrow> master_keys \<Rightarrow> store \<Rightarrow> bytes \<Rightarrow> bytes list" where
  "changes cr keys st i = (case open_signed_commit cr keys i st of Inr (c, _) \<Rightarrow>
     (case commit_changes cr keys st c of Inr ps \<Rightarrow> ps | Inl _ \<Rightarrow> []) | Inl _ \<Rightarrow> [])"

lemma keep_commits_ok:
  "keep_commits cr keys st keep order k = Inr k' \<Longrightarrow>
     set (keep_set k) \<subseteq> set (keep_set k')
     \<and> (\<forall>x \<in> set (all_chunks k'). x \<in> set (all_chunks k)
          \<or> (\<exists>i \<in> set order. \<exists>c. commit_at cr keys st i c \<and> x \<in> chunk_set cr keys st c []))
     \<and> (\<forall>pre i post p c. order = pre @ i # post \<longrightarrow> commit_at cr keys st i c \<longrightarrow> p \<in> set (changes cr keys st i) \<longrightarrow>
          val (kept k) p + count_list (concat (map (changes cr keys st) pre)) p < keep \<longrightarrow> chunk_set cr keys st c p \<subseteq> set (keep_set k'))"
proof (induction cr keys st keep order k rule: keep_commits.induct)
  case (2 cr keys st keep i order k)
  from "2.prems" obtain c sg cs changed k1 where o: "open_signed_commit cr keys i st = Inr (c, sg)"
    "path_chunks cr keys st (root_tree c) (root_salt c) [] = Inr cs" "commit_changes cr keys st c = Inr changed"
    "keep_paths cr keys st keep c changed
       (k\<lparr>all_chunks := fold insort_insert (case cs of None \<Rightarrow> [] | Some cs \<Rightarrow> cs) (all_chunks k)\<rparr>) = Inr k1"
    "keep_commits cr keys st keep order k1 = Inr k'" by (auto simp: rbind_eq_Inr)
  have ch: "changes cr keys st i = changed" using o(1,3) by (simp add: changes_def)
  have at: "commit_at cr keys st i d \<longleftrightarrow> d = c" for d using o(1) by (auto simp: commit_at_def)
  note kp = keep_paths_ok [OF o(4)]
  note ih = "2.IH" [OF o(1) refl o(2,3,4,5)]
  have all: "set (all_chunks k1) = set (all_chunks k) \<union> chunk_set cr keys st c []"
    using kp set_chunks_of_path [OF o(2)] by (simp add: set_fold_insort Un_commute)
  have "chunk_set cr keys st d p \<subseteq> set (keep_set k')"
    if "i # order = pre @ j # post" "commit_at cr keys st j d" "p \<in> set (changes cr keys st j)"
      "val (kept k) p + count_list (concat (map (changes cr keys st) pre)) p < keep" for pre j post p d
  proof (cases pre)
    case Nil
    with that have "j = i" "d = c" "p \<in> set changed" "val (kept k) p < keep" using ch at by auto
    with kp have "chunk_set cr keys st d p \<subseteq> set (keep_set k1)" by simp
    with ih show ?thesis by blast
  next
    case (Cons i' pre')
    with that(1) have "i' = i" "order = pre' @ j # post" by auto
    moreover have "val (kept k1) p \<le> val (kept k) p + count_list changed p" using kp by simp
    with that(4) Cons \<open>i' = i\<close> have "val (kept k1) p + count_list (concat (map (changes cr keys st) pre')) p < keep" by (simp add: ch)
    ultimately show ?thesis using ih that(2,3) by blast
  qed
  moreover have "set (keep_set k) \<subseteq> set (keep_set k')" using kp ih by auto
  moreover have "x \<in> set (all_chunks k) \<or> (\<exists>j \<in> set (i # order). \<exists>d. commit_at cr keys st j d \<and> x \<in> chunk_set cr keys st d [])"
    if "x \<in> set (all_chunks k')" for x
  proof -
    have "x \<in> set (all_chunks k1) \<or> (\<exists>j \<in> set order. \<exists>d. commit_at cr keys st j d \<and> x \<in> chunk_set cr keys st d [])" using ih that by blast
    moreover have "commit_at cr keys st i c" by (simp add: at)
    ultimately show ?thesis using all by auto
  qed
  ultimately show ?case by blast
qed simp

section \<open>Deleting\<close>

lemma set_batches: "0 < n \<Longrightarrow> concat (batches n xs) = xs"
  by (induction n xs rule: batches.induct) (subst batches.simps, simp)

lemma get_retain:
  "get (snd (retain keep st)) x = (if length x = 32 \<and> x \<notin> set keep then None else get st x)"
proof -
  let ?del = "filter (\<lambda>i. length i = 32 \<and> i \<notin> set keep) (bt_keys (t_objects st))"
  have "map_of (fold bt_remove ?del (t_objects st)) x = (if x \<in> set ?del then None else map_of (t_objects st) x)"
    by (rule bt.get_fold_del)
  moreover have "map_of (t_objects st) x = None" if "x \<notin> set (bt_keys (t_objects st))"
    using that by (simp add: bt_keys_def map_of_eq_None_iff)
  ultimately have f: "map_of (fold bt_remove ?del (t_objects st)) x = (if length x = 32 \<and> x \<notin> set keep then None else map_of (t_objects st) x)"
    by auto
  show ?thesis
  proof (cases "?del = []")
    case True
    then have "snd (retain keep st) = st" by (simp add: retain_def)
    with f True show ?thesis by (cases "length x = 32 \<and> x \<notin> set keep") (auto simp: get_def)
  next
    case False
    then have "t_objects (snd (retain keep st)) = fold bt_remove ?del (t_objects st)" by (simp add: retain_def Let_def)
    with f show ?thesis by (simp add: get_def)
  qed
qed

text \<open>
  Pruning on the server: nothing here changes; a prefix of the batches is removed there, each under
  the claimed heads and roster length, and all of them if it reports success.
\<close>

context store_remote
begin

lemma prune_batches_view:
  "prune_batches R ahh len bs s = Some (Inr b, s') \<Longrightarrow>
     fst s' = fst s \<and> t_refs (view (snd s')) = t_refs (view (snd s)) \<and> t_roster (view (snd s')) = t_roster (view (snd s))
     \<and> (\<exists>n \<le> length bs. (b \<longrightarrow> n = length bs)
         \<and> (\<forall>x. get (view (snd s')) x = (if x \<in> set (concat (take n bs)) then None else get (view (snd s)) x))
         \<and> (n = 0 \<or> all_heads_hash cr (ref_blob_hashes cr (view (snd s))) = ahh \<and> roster_len (view (snd s)) = unat len))"
proof (induction bs arbitrary: s)
  case Nil
  then show ?case by simp
next
  case (Cons d bs)
  obtain st r where s: "s = (st, r)" by (cases s)
  from Cons.prems obtain won r1 where c: "r_prune R d ahh len r = (Inr won, r1)"
    and rest: "(if won then prune_batches R ahh len bs (st, r1) else Some (Inr False, (st, r1))) = Some (Inr b, s')"
    by (auto simp: s remote_call_def sbind_eq_ok split: sum.splits prod.splits)
  from prune_view [OF c] have v: "prune_if cr d (\<lambda>refs n. all_heads_hash cr refs = ahh \<and> n = unat len) (view r) = (won, view r1)" .
  show ?case
  proof (cases won)
    case False
    with v have "view r1 = view r" by (auto simp: prune_if_def split: if_splits)
    with rest False s show ?thesis by (auto intro!: exI [where x = 0])
  next
    case True
    with v have acc: "all_heads_hash cr (ref_blob_hashes cr (view r)) = ahh" "roster_len (view r) = unat len"
      and v1: "view r1 = (view r)\<lparr>t_objects := fold bt_remove d (t_objects (view r))\<rparr>" by (auto simp: prune_if_def split: if_splits)
    have g: "get (view r1) x = (if x \<in> set d then None else get (view r) x)" for x
      using bt.get_fold_del [of d "t_objects (view r)" x] by (simp add: v1 get_def)
    from True rest have "prune_batches R ahh len bs (st, r1) = Some (Inr b, s')" by simp
    note ih = Cons.IH [OF this, unfolded fst_conv snd_conv]
    then obtain n where n: "n \<le> length bs" "b \<longrightarrow> n = length bs"
      "\<forall>x. get (view (snd s')) x = (if x \<in> set (concat (take n bs)) then None else get (view r1) x)"
      by blast
    from ih have same: "fst s' = st" "t_refs (view (snd s')) = t_refs (view r1)" "t_roster (view (snd s')) = t_roster (view r1)" by blast+
    have "\<exists>m \<le> length (d # bs). (b \<longrightarrow> m = length (d # bs))
         \<and> (\<forall>x. get (view (snd s')) x = (if x \<in> set (concat (take m (d # bs))) then None else get (view r) x))
         \<and> (m = 0 \<or> all_heads_hash cr (ref_blob_hashes cr (view r)) = ahh \<and> roster_len (view r) = unat len)"
      by (rule exI [where x = "Suc n"]) (use n g acc in auto)
    moreover have "t_refs (view r1) = t_refs (view r)" "t_roster (view r1) = t_roster (view r)" by (simp_all add: v1)
    ultimately show ?thesis unfolding s fst_conv snd_conv using same by metis
  qed
qed

end

section \<open>The dead\<close>

lemma chunk_set_root:
  assumes "x \<in> chunk_set cr keys st c []"
  shows "listed_in cr keys st (beneath cr keys st (root_tree c)) x"
proof -
  from assms obtain ks where "path_chunks cr keys st (root_tree c) (root_salt c) [] = Inr (Some ks)" "x \<in> set ks"
    by (auto simp: chunk_set_def split: sum.splits option.splits)
  then show ?thesis using path_chunks_root by blast
qed

lemma listed_in_dir_of:
  "history cr keys st head i \<Longrightarrow> commit_at cr keys st i c \<Longrightarrow> listed_in cr keys st (beneath cr keys st (root_tree c)) x \<Longrightarrow>
     listed_in cr keys st (dir_of cr keys st head) x"
  unfolding listed_in_def dir_of_def by blast

lemma topo_order_history:
  assumes "topo_order cr keys st head = Some (Inr order)" "i \<in> set order"
  shows "history cr keys st head i"
proof -
  from assms(1) obtain parents ts where l: "topo_load_loop cr keys st [] [] [head] = Inr (parents, ts)"
    by (auto simp: topo_order_def orbind_eq_ok)
  from topo_order_listed(1) [OF l] assms(1) obtain counts where "kahn_ok parents counts [] order" by auto
  with assms(2) topo_order_listed(2) [OF l] show ?thesis unfolding kahn_ok_def by blast
qed

lemma find_dead_ok:
  assumes "find_dead cr keys head keep st = Some (Inr dead)"
  obtains hc cs order k where "commit_at cr keys st head hc" "path_chunks cr keys st (root_tree hc) (root_salt hc) [] = Inr cs"
    "topo_order cr keys st head = Some (Inr order)" "keep_commits cr keys st keep order (initial_retention cs) = Inr k" "dead = dead_chunks k"
  using assms by (auto simp: find_dead_def orbind_eq_ok commit_at_def)

section \<open>Properties\<close>

text \<open>
  C11: the sweep of the local cache. Where every stored id has the width of an id, \<open>local_sweep\<close> changes
  nothing if it fails; if it succeeds, an object that is not live from the head is gone, and every
  live one, stored before, is still there with its blob, all that the head's tree names at any depth
  among them, except what is named below an id that trees of the history list both as a directory
  and as a chunk: met as a chunk first, it is not entered, and what only it leads to is dropped.
\<close>

theorem local_sweep_exact:
  assumes "local_sweep cr keys head st = (out, st')" "\<And>x. get st x \<noteq> None \<Longrightarrow> length x = 32"
  shows "(isl out \<longrightarrow> st' = st)
    \<and> (\<not> isl out \<longrightarrow> (\<exists>c. commit_at cr keys st head c)
         \<and> (\<forall>x. \<not> live cr keys st head x \<longrightarrow> get st' x = None)
         \<and> (\<forall>x. live cr keys st head x \<longrightarrow> get st' x = get st x
              \<or> (\<exists>m. mixed cr keys st (dir_of cr keys st head) m \<and> names cr keys st m x)))"
proof (cases out)
  case (Inl e)
  then show ?thesis using assms(1) by (auto simp: local_sweep_def split: sum.splits prod.splits)
next
  case (Inr n)
  with assms(1) obtain keep where k: "reachable_objects cr keys st head = Inr keep" "st' = snd (retain keep st)"
    by (auto simp: local_sweep_def split: sum.splits prod.splits)
  note r = reachable_objects_exact [OF k(1)]
  have "get st' x = None" if "\<not> live cr keys st head x" for x
    using r that assms(2) [of x] by (cases "get st x") (auto simp: k(2) get_retain)
  moreover have "get st' x = get st x \<or> (\<exists>m. mixed cr keys st (dir_of cr keys st head) m \<and> names cr keys st m x)"
    if "live cr keys st head x" for x
    using r that by (cases "get st x"; cases "x \<in> set keep") (auto simp: k(2) get_retain)
  ultimately show ?thesis using r Inr by auto
qed

theorem local_sweep_exact_witness:
  "\<exists>n st'. local_sweep ex_crypto ex_keys ex_ours ex_store = (Inr n, st')
     \<and> get st' ex_theirs = None \<and> get st' ex_ours \<noteq> None \<and> get st' (fst ex_tree) = Some (snd ex_tree)"
proof -
  obtain n st' where s: "local_sweep ex_crypto ex_keys ex_ours ex_store = (Inr n, st')" by (simp add: local_sweep_def ex_walk case_prod_beta)
  have len: "length x = 32" if "get ex_store x \<noteq> None" for x
    using that ex_only [of x] by (auto simp: ex_tree_def sealed_tree_def ex_object_def sealed_commit_def)
  have nm: "\<not> mixed ex_crypto ex_keys ex_store P m" for P m by (auto simp: mixed_def listed_in_def dest!: ex_tree_at)
  note e = local_sweep_exact [OF s len, simplified nm, simplified]
  have ne: "ex_theirs \<noteq> fst ex_tree" "ex_theirs \<noteq> ex_ours" using ex_tree_address ex_object_address [of "[5]" 2] ex_object_address [of "[6]" 3] by force+
  note r = reachable_objects_exact [OF ex_walk, simplified nm, simplified]
  have "live ex_crypto ex_keys ex_store ex_ours (fst ex_tree)" "live ex_crypto ex_keys ex_store ex_ours ex_ours" "\<not> live ex_crypto ex_keys ex_store ex_ours ex_theirs"
    using r ex_at ne by (auto simp: set_insort_insert)
  then show ?thesis using e s ex_at by auto
qed


text \<open>
  A history of two commits: the first adds a file of one chunk, which the second, the head, removes
  again. With one version kept of each path, its chunk is dead.
\<close>

definition gone_chunk :: bytes where "gone_chunk = replicate 31 7 @ [8]"

definition gone_tree :: tree where "gone_tree = [EFile [102] 420 0 1 ex_salt [gone_chunk]]"

abbreviation gone_root :: "bytes \<times> bytes" where "gone_root \<equiv> sealed_tree ex_crypto ex_mk ex_salt gone_tree"

definition first_commit :: commit where "first_commit = (ex_commit [5] 2)\<lparr>root_tree := fst gone_root\<rparr>"

abbreviation first_object :: "bytes \<times> bytes" where "first_object \<equiv> sealed_commit ex_crypto ex_mk first_commit []"

definition second_commit :: commit where "second_commit = (ex_commit [5] 3)\<lparr>c_parents := [fst first_object]\<rparr>"

abbreviation second_object :: "bytes \<times> bytes" where "second_object \<equiv> sealed_commit ex_crypto ex_mk second_commit []"

definition gone_store :: store where
  "gone_store = fold put_object [ex_tree, gone_root, first_object, second_object] Store_empty"

lemma gone_wf: "tree_wf gone_tree" "commit_wf first_commit" "commit_wf second_commit"
proof -
  show "tree_wf gone_tree"
    by (simp add: tree_wf_def gone_tree_def name_wf_def MAX_NAME_LEN_def MAX_TREE_FANOUT_def MAX_CHUNKS_PER_FILE_def MAX_BLOB_SIZE_def
        ID_LEN_def ex_salt_def gone_chunk_def; code_simp)
  show "commit_wf first_commit" "commit_wf second_commit" using ex_commit_wf [of "[5]" 2] ex_commit_wf [of "[5]" 3]
    by (simp_all add: commit_wf_def first_commit_def second_commit_def sealed_tree_def sealed_commit_def MAX_LIST_ELEMENTS_def)
qed

lemma gone_encoded: "encode_tree gone_tree = Some (le_bytes 4 (of_nat (length gone_tree) :: u32) @ concat (map entry_img gone_tree))"
  by (rule encode_tree_img [OF gone_wf(1)])

lemma sealed_commit_address:
  assumes "commit_wf c" "c_ts c = from_le (replicate 7 0 @ [n])"
  shows "fst (sealed_commit ex_crypto ex_mk c []) ! 4 = n"
proof -
  have ts: "le_bytes 8 (c_ts c) = replicate 7 0 @ [n]" by (simp add: assms(2) le_bytes_from_le)
  have "bytes_img [] = [0, 0, 0, 0]" by (simp add: bytes_img_def numeral_eq_Suc)
  then have "encode_signed_commit c [] = Some (commit_img c @ [0, 0, 0, 0])" using encode_signed_commit_img [OF assms(1), of "[]"] by simp
  then show ?thesis by (simp add: sealed_commit_def fst_seal_object content_id_def ex_keyed nth_append commit_img_def ts)
qed

lemma gone_addresses:
  "fst first_object ! 4 = 2" "fst second_object ! 4 = 3" "fst gone_root ! 4 = 7" "fst gone_root ! 0 = 8"
  using gone_encoded sealed_commit_address [OF gone_wf(2), of 2] sealed_commit_address [OF gone_wf(3), of 3]
  by (simp_all add: first_commit_def second_commit_def ex_commit_def sealed_tree_def fst_seal_object content_id_def ex_keyed nth_append
      gone_tree_def gone_chunk_def)

lemma gone_distinct: "distinct [fst ex_tree, fst gone_root, fst first_object, fst second_object]" "gone_chunk \<noteq> fst gone_root"
proof -
  have "distinct (map (\<lambda>x. x ! 4) [fst ex_tree, fst gone_root, fst first_object, fst second_object])"
    by (simp add: gone_addresses ex_tree_address)
  then show "distinct [fst ex_tree, fst gone_root, fst first_object, fst second_object]" unfolding distinct_map by blast
  have "gone_chunk ! 0 = 7" by (simp add: gone_chunk_def nth_append)
  then show "gone_chunk \<noteq> fst gone_root" using gone_addresses(4) by force
qed

lemma addresses_free_empty: "distinct (map fst objs) \<Longrightarrow> addresses_free Store_empty objs"
  by (auto simp: addresses_free_def list_all_iff dest: eq_key_imp_eq_value)

lemma gone_at:
  "get gone_store (fst ex_tree) = Some (snd ex_tree)" "get gone_store (fst gone_root) = Some (snd gone_root)"
  "get gone_store (fst first_object) = Some (snd first_object)" "get gone_store (fst second_object) = Some (snd second_object)"
proof -
  have "addresses_free Store_empty [ex_tree, gone_root, first_object, second_object]"
    by (rule addresses_free_empty) (use gone_distinct(1) in simp)
  from addresses_free_puts [OF this] show
    "get gone_store (fst ex_tree) = Some (snd ex_tree)" "get gone_store (fst gone_root) = Some (snd gone_root)"
    "get gone_store (fst first_object) = Some (snd first_object)" "get gone_store (fst second_object) = Some (snd second_object)"
    unfolding gone_store_def by simp_all
qed

lemma gone_opens:
  "load_tree ex_crypto ex_keys gone_store (fst ex_tree) ex_salt = Inr []"
  "load_tree ex_crypto ex_keys gone_store (fst gone_root) ex_salt = Inr gone_tree"
  "open_signed_commit ex_crypto ex_keys (fst first_object) gone_store = Inr (first_commit, [])"
  "open_signed_commit ex_crypto ex_keys (fst second_object) gone_store = Inr (second_commit, [])"
proof -
  show "load_tree ex_crypto ex_keys gone_store (fst ex_tree) ex_salt = Inr []"
    using ex_opens(1) ex_at(1) gone_at(1) by (simp add: load_tree_eq)
  have "tree_fits ex_crypto ex_mk ex_salt gone_tree"
    using gone_encoded by (simp add: tree_fits_def sealed_tree_def length_seal_object FRAME_LEN_def CTX_TAG_LEN_def MAX_BLOB_SIZE_def
        MAX_TREE_FANOUT_def gone_tree_def bytes_img_def gone_chunk_def ex_salt_def)
  then show "load_tree ex_crypto ex_keys gone_store (fst gone_root) ex_salt = Inr gone_tree"
    by (rule load_tree_sealed [OF ex_for_gen _ gone_wf(1) gone_at(2)])
  show "open_signed_commit ex_crypto ex_keys (fst first_object) gone_store = Inr (first_commit, [])"
    "open_signed_commit ex_crypto ex_keys (fst second_object) gone_store = Inr (second_commit, [])"
    by (intro open_sealed_commit gone_wf ex_for_gen gone_at; simp add: first_commit_def second_commit_def ex_commit_def)+
qed

lemma gone_commits [simp]:
  "root_tree first_commit = fst gone_root" "root_salt first_commit = ex_salt" "c_parents first_commit = []"
  "root_tree second_commit = fst ex_tree" "root_salt second_commit = ex_salt" "c_parents second_commit = [fst first_object]"
  by (simp_all add: first_commit_def second_commit_def ex_commit_def)

lemma gone_topo: "topo_order ex_crypto ex_keys gone_store (fst second_object) = Some (Inr [fst second_object, fst first_object])"
proof -
  let ?a = "fst first_object" and ?b = "fst second_object"
  have ne: "?a \<noteq> ?b" "?b \<noteq> ?a" using gone_distinct(1) by auto
  let ?ps = "bt_insert ?a [] [(?b, [?a])]" and ?ts = "bt_insert ?a (c_ts first_commit) [(?b, c_ts second_commit)]"
  have load: "topo_load_loop ex_crypto ex_keys gone_store [] [] [?b] = Inr (?ps, ?ts)"
    using gone_opens(3,4) ne by (simp add: topo_load_loop.simps Let_def)
  have "kahn_loop ?ps ?ts (bt_insert ?a 1 [(?b, 0)]) [(ts_of ?ts ?b, ?b)] [] = Some [?b, ?a]"
    using ne by (simp add: kahn_loop.simps parents_of_def)
  moreover have "count_children ?ps = bt_insert ?a 1 [(?b, 0)]" using ne by (simp add: count_children_def count_child_def)
  moreover have "filter (\<lambda>(_, c). c = 0) (bt_insert ?a 1 [(?b, 0)]) = [(?b, 0 :: nat)]" using ne by simp
  ultimately show ?thesis by (simp add: topo_order_def load Let_def)
qed

lemma gone_chunks:
  "path_chunks ex_crypto ex_keys gone_store (fst ex_tree) ex_salt [] = Inr (Some [])"
  "path_chunks ex_crypto ex_keys gone_store (fst ex_tree) ex_salt [102] = Inr None"
  "path_chunks ex_crypto ex_keys gone_store (fst gone_root) ex_salt [] = Inr (Some [gone_chunk])"
proof -
  have t: "verified_tree ex_crypto ex_keys (fst ex_tree) ex_salt (snd ex_tree) = Inr []"
    "verified_tree ex_crypto ex_keys (fst gone_root) ex_salt (snd gone_root) = Inr gone_tree"
    using gone_opens(1,2) gone_at(1,2) by (simp_all add: load_tree_eq)
  have r: "resolve_path ex_crypto ex_keys gone_store rt ex_salt [] = Inr (Some (PDir rt ex_salt))" for rt
    by (simp add: resolve_path_def path_components_def)
  have "collect_tree ex_crypto ex_keys gone_store False 0 (fst ex_tree) ex_salt [] = Inr [fst ex_tree]"
    using t(1) gone_at(1) by (subst collect_tree.simps) (simp add: MAX_TREE_DEPTH_def insort_insert_key_def)
  moreover have "tree_ids_loop ex_crypto ex_keys gone_store [] [(fst ex_tree, ex_salt)] = Inr [fst ex_tree]"
    using t(1) gone_at(1) by (simp add: tree_ids_loop.simps Let_def insort_insert_key_def)
  ultimately show "path_chunks ex_crypto ex_keys gone_store (fst ex_tree) ex_salt [] = Inr (Some [])"
    by (simp add: path_chunks_def r)
  show "path_chunks ex_crypto ex_keys gone_store (fst ex_tree) ex_salt [102] = Inr None"
    by (simp add: path_chunks_def resolve_path_def path_components_def gone_opens(1) find_entry_def)
  have "collect_tree ex_crypto ex_keys gone_store False 0 (fst gone_root) ex_salt [] = Inr (insort_insert gone_chunk [fst gone_root])"
    using t(2) gone_at(2) by (subst collect_tree.simps) (simp add: MAX_TREE_DEPTH_def gone_tree_def insort_insert_key_def)
  moreover have "tree_ids_loop ex_crypto ex_keys gone_store [] [(fst gone_root, ex_salt)] = Inr [fst gone_root]"
    using t(2) gone_at(2) by (simp add: tree_ids_loop.simps Let_def insort_insert_key_def gone_tree_def subtrees_def)
  ultimately show "path_chunks ex_crypto ex_keys gone_store (fst gone_root) ex_salt [] = Inr (Some [gone_chunk])"
    using gone_distinct(2) by (simp add: path_chunks_def r insort_insert_key_def)
qed

lemma gone_changes:
  "commit_changes ex_crypto ex_keys gone_store second_commit = Inr [[102]]"
  "commit_changes ex_crypto ex_keys gone_store first_commit = Inr [[102]]"
  using gone_opens
  by (simp_all add: commit_changes_def changed_paths_def diff_trees.simps diff_load_def by_name_def bt_keys_def MAX_TREE_DEPTH_def
      gone_tree_def insort_insert_key_def is_file_side_def dir_side_def join_path_def Let_def)

lemma gone_dead: "find_dead ex_crypto ex_keys (fst second_object) 1 gone_store = Some (Inr [gone_chunk])"
  by (simp add: find_dead_def gone_opens gone_topo gone_chunks gone_changes initial_retention_def dead_chunks_def insort_insert_key_def)


end
