(* ===== verification/Pq.thy ===== *)
theory Pq
  imports Sigs
begin

text \<open>
  \<open>crates/secsec-pq\<close>: the X-Wing keyslot, which wraps a master key to a device's hybrid public key.
  ML-KEM-768, X25519, SHA3-256 and SHAKE256 come from other crates and are the fields of the
  parameter \<open>kem\<close>; outputs of a fixed size are words. Bytes drawn from the operating system are
  arguments, \<open>None\<close> where drawing fails. The lemmas show that a body unwraps exactly when it is
  the sealing of the key under the decapsulated secret for that device and generation, and that a key
  wrapped to a device's own public key unwraps again.
\<close>

section \<open>Primitives\<close>

record kem =
  shake256_96 :: "bytes \<Rightarrow> 768 word"
  sha3_256 :: "bytes \<Rightarrow> 256 word"
  mlkem_generate :: "bytes \<Rightarrow> bytes \<times> 9472 word"
  mlkem_encapsulate :: "bytes \<Rightarrow> bytes \<Rightarrow> 8704 word \<times> 256 word"
  mlkem_decapsulate :: "bytes \<Rightarrow> bytes \<Rightarrow> 256 word"
  mlkem_validate :: "bytes \<Rightarrow> bool"
  x25519_public :: "bytes \<Rightarrow> 256 word"
  x25519_dh :: "bytes \<Rightarrow> bytes \<Rightarrow> 256 word"

definition XWING_LABEL :: bytes where "XWING_LABEL = [0x5c, 0x2e, 0x2f, 0x2f, 0x5e, 0x5c]"
definition XWING_SEED_LEN :: nat where "XWING_SEED_LEN = 32"
definition ML_KEM_CT_LEN :: nat where "ML_KEM_CT_LEN = 1088"
definition ML_KEM_PK_LEN :: nat where "ML_KEM_PK_LEN = 1184"
definition ML_KEM_SEED_LEN :: nat where "ML_KEM_SEED_LEN = 64"
definition X_LEN :: nat where "X_LEN = 32"
definition XWING_CT_LEN :: nat where "XWING_CT_LEN = ML_KEM_CT_LEN + X_LEN"
definition KEYSLOT_BODY_LEN :: nat where "KEYSLOT_BODY_LEN = XWING_CT_LEN + 32 + 32"

lemmas pq_lengths = ML_KEM_CT_LEN_def ML_KEM_PK_LEN_def ML_KEM_SEED_LEN_def X_LEN_def XWING_CT_LEN_def KEYSLOT_BODY_LEN_def

datatype pq_error = PqMalformed | PqAead | PqRng | PqKeygen

definition mlkem_keypair :: "kem \<Rightarrow> bytes \<Rightarrow> bytes \<times> bytes" where
  "mlkem_keypair km mlkem_seed = (let (sk, pk) = mlkem_generate km mlkem_seed in (sk, le_bytes ML_KEM_PK_LEN pk))"

record xwing_public =
  xp_mlkem_pk :: bytes
  xp_x25519_pk :: bytes

section \<open>Keys\<close>

definition expand :: "kem \<Rightarrow> bytes \<Rightarrow> bytes \<times> bytes" where
  "expand km seed = (let expanded = le_bytes 96 (shake256_96 km seed) in (take ML_KEM_SEED_LEN expanded, drop ML_KEM_SEED_LEN expanded))"

definition XWing_public :: "kem \<Rightarrow> bytes \<Rightarrow> xwing_public" where
  "XWing_public km seed =
     (let (mlkem_seed, x25519) = expand km seed; (_, mlkem_pk) = mlkem_keypair km mlkem_seed
      in \<lparr>xp_mlkem_pk = mlkem_pk, xp_x25519_pk = le_bytes X_LEN (x25519_public km x25519)\<rparr>)"

definition pairwise_consistency_check :: "kem \<Rightarrow> bytes option \<Rightarrow> bytes \<Rightarrow> xwing_public \<Rightarrow> pq_error + unit" where
  "pairwise_consistency_check km coins seed public =
     (let (mlkem_seed, _) = expand km seed; (sk, pk) = mlkem_keypair km mlkem_seed in
      if pk \<noteq> xp_mlkem_pk public \<or> \<not> mlkem_validate km pk then Inl PqKeygen else
      rbind (ok_or PqRng coins) (\<lambda>coins.
      let (ct, ss_e) = mlkem_encapsulate km pk coins in
      if le_bytes 32 ss_e \<noteq> le_bytes 32 (mlkem_decapsulate km sk (le_bytes ML_KEM_CT_LEN ct)) then Inl PqKeygen else Inr ()))"

definition XWing_from_seed :: "kem \<Rightarrow> bytes option \<Rightarrow> bytes \<Rightarrow> pq_error + bytes \<times> xwing_public" where
  "XWing_from_seed km coins seed =
     (let public = XWing_public km seed in
      rbind (pairwise_consistency_check km coins seed public) (\<lambda>_. Inr (seed, public)))"

definition XWing_generate :: "kem \<Rightarrow> bytes option \<Rightarrow> bytes option \<Rightarrow> pq_error + bytes \<times> xwing_public" where
  "XWing_generate km rng coins = rbind (ok_or PqRng rng) (XWing_from_seed km coins)"

definition XWing_to_bytes :: "xwing_public \<Rightarrow> bytes" where
  "XWing_to_bytes p = xp_mlkem_pk p @ xp_x25519_pk p"

definition XWing_from_bytes :: "kem \<Rightarrow> bytes \<Rightarrow> pq_error + xwing_public" where
  "XWing_from_bytes km b =
     (if length b \<noteq> ML_KEM_PK_LEN + X_LEN then Inl PqMalformed
      else if \<not> mlkem_validate km (take ML_KEM_PK_LEN b) then Inl PqMalformed
      else Inr \<lparr>xp_mlkem_pk = take ML_KEM_PK_LEN b, xp_x25519_pk = drop ML_KEM_PK_LEN b\<rparr>)"

section \<open>Encapsulation\<close>

definition combine :: "kem \<Rightarrow> bytes \<Rightarrow> bytes \<Rightarrow> bytes \<Rightarrow> bytes \<Rightarrow> bytes" where
  "combine km ss_mlkem ss_x25519 ct_x pk_x = le_bytes 32 (sha3_256 km (ss_mlkem @ ss_x25519 @ ct_x @ pk_x @ XWING_LABEL))"

definition encapsulate_derand :: "kem \<Rightarrow> xwing_public \<Rightarrow> bytes \<Rightarrow> bytes \<times> bytes" where
  "encapsulate_derand km recipient eseed =
     (let (ct_m, ss_m) = mlkem_encapsulate km (xp_mlkem_pk recipient) (take 32 eseed);
          ek_x = drop 32 eseed;
          ct_x = le_bytes X_LEN (x25519_public km ek_x);
          pk_x = xp_x25519_pk recipient;
          ss_x = le_bytes 32 (x25519_dh km ek_x pk_x)
      in (le_bytes ML_KEM_CT_LEN ct_m @ ct_x, combine km (le_bytes 32 ss_m) ss_x ct_x pk_x))"

definition encapsulate :: "kem \<Rightarrow> bytes option \<Rightarrow> xwing_public \<Rightarrow> pq_error + bytes \<times> bytes" where
  "encapsulate km eseed recipient = rbind (ok_or PqRng eseed) (\<lambda>eseed. Inr (encapsulate_derand km recipient eseed))"

definition decapsulate :: "kem \<Rightarrow> bytes \<Rightarrow> bytes \<Rightarrow> pq_error + bytes" where
  "decapsulate km seed keyslot_ct =
     (if length keyslot_ct \<noteq> XWING_CT_LEN then Inl PqMalformed else
      let ct_m = take ML_KEM_CT_LEN keyslot_ct; ct_x = drop ML_KEM_CT_LEN keyslot_ct;
          (mlkem_seed, x25519) = expand km seed; (sk, _) = mlkem_keypair km mlkem_seed;
          ss_m = le_bytes 32 (mlkem_decapsulate km sk ct_m);
          ss_x = le_bytes 32 (x25519_dh km x25519 ct_x);
          pk_x = le_bytes X_LEN (x25519_public km x25519)
      in Inr (combine km ss_m ss_x ct_x pk_x))"

definition keyslot_ad :: "bytes \<Rightarrow> u32 \<Rightarrow> bytes" where
  "keyslot_ad device_id g = ascii ''secsec-keyslot-v1'' @ device_id @ le_bytes 4 g"

definition wrap_pq :: "crypto \<Rightarrow> kem \<Rightarrow> bytes option \<Rightarrow> bytes \<Rightarrow> u32 \<Rightarrow> bytes \<Rightarrow> xwing_public \<Rightarrow> pq_error + bytes" where
  "wrap_pq cr km eseed master g device_id recipient =
     rbind (encapsulate km eseed recipient) (\<lambda>(keyslot_ct, ss).
     let (ctx_tag, ct) = seal cr ss (keyslot_ad device_id g) master in Inr (keyslot_ct @ ctx_tag @ ct))"

definition unwrap_pq_raw :: "crypto \<Rightarrow> kem \<Rightarrow> bytes \<Rightarrow> u32 \<Rightarrow> bytes \<Rightarrow> bytes \<Rightarrow> pq_error + bytes" where
  "unwrap_pq_raw cr km keyslot g device_id seed =
     (if length keyslot \<noteq> KEYSLOT_BODY_LEN then Inl PqMalformed else
      let xwing_ct = take XWING_CT_LEN keyslot; rest = drop XWING_CT_LEN keyslot;
          ctx_tag = take 32 rest; ct = drop 32 rest
      in rbind (decapsulate km seed xwing_ct) (\<lambda>ss.
         rbind (map_err (\<lambda>_. PqAead) (open_ctx cr ss (keyslot_ad device_id g) ctx_tag ct)) (\<lambda>pt.
         if length pt \<noteq> 32 then Inl PqMalformed else Inr pt)))"

section \<open>Public keys\<close>

lemma XWing_public_lengths [simp]:
  "length (xp_mlkem_pk (XWing_public km seed)) = ML_KEM_PK_LEN" "length (xp_x25519_pk (XWing_public km seed)) = X_LEN"
  by (simp_all add: XWing_public_def mlkem_keypair_def case_prod_beta Let_def)

lemma XWing_from_seed_ok:
  "XWing_from_seed km coins seed = Inr (sk, pub) \<longleftrightarrow>
     sk = seed \<and> pub = XWing_public km seed \<and> pairwise_consistency_check km coins seed pub = Inr ()"
  by (auto simp: XWing_from_seed_def rbind_eq_Inr Let_def)

lemma checked_valid:
  "pairwise_consistency_check km coins seed pub = Inr () \<Longrightarrow> pub = XWing_public km seed \<Longrightarrow> mlkem_validate km (xp_mlkem_pk pub)"
  by (auto simp: pairwise_consistency_check_def case_prod_beta Let_def split: if_splits)

text \<open>What a checked device publishes is accepted by every other device, as the same key.\<close>

lemma XWing_bytes_round_trip:
  assumes "XWing_from_seed km coins seed = Inr (sk, pub)"
  shows "XWing_from_bytes km (XWing_to_bytes pub) = Inr pub"
proof -
  have "pub = XWing_public km seed" "mlkem_validate km (xp_mlkem_pk pub)"
    using assms checked_valid by (auto simp: XWing_from_seed_ok)
  then show ?thesis by (simp add: XWing_from_bytes_def XWing_to_bytes_def)
qed

section \<open>Keyslots\<close>

lemma length_encapsulate_derand: "length (fst (encapsulate_derand km p eseed)) = XWING_CT_LEN"
  by (simp add: encapsulate_derand_def case_prod_beta Let_def XWING_CT_LEN_def)

lemma unwrap_iff:
  "unwrap_pq_raw cr km body g d seed = Inr k \<longleftrightarrow>
     length k = 32 \<and> (\<exists>ct ss. length ct = XWING_CT_LEN \<and> decapsulate km seed ct = Inr ss
       \<and> body = ct @ fst (seal cr ss (keyslot_ad d g) k) @ snd (seal cr ss (keyslot_ad d g) k))" (is "?l = ?r")
proof
  assume l: ?l
  let ?ct = "take XWING_CT_LEN body" and ?rest = "drop XWING_CT_LEN body"
  from l obtain ss where ss: "length body = KEYSLOT_BODY_LEN" "decapsulate km seed ?ct = Inr ss" "length k = 32"
    "open_ctx cr ss (keyslot_ad d g) (take 32 ?rest) (drop 32 ?rest) = Inr k"
    by (auto simp: unwrap_pq_raw_def rbind_eq_Inr Let_def split: if_splits)
  from ss(4) have "seal cr ss (keyslot_ad d g) k = (take 32 ?rest, drop 32 ?rest)" by (simp add: ctx.opens_iff)
  then have "body = ?ct @ fst (seal cr ss (keyslot_ad d g) k) @ snd (seal cr ss (keyslot_ad d g) k)"
    by (simp only: fst_conv snd_conv append_take_drop_id)
  moreover have "length ?ct = XWING_CT_LEN" using ss(1) by (simp add: KEYSLOT_BODY_LEN_def)
  ultimately show ?r using ss(2,3) by blast
next
  assume ?r
  then obtain ct ss where c: "length k = 32" "length ct = XWING_CT_LEN" "decapsulate km seed ct = Inr ss"
    "body = ct @ fst (seal cr ss (keyslot_ad d g) k) @ snd (seal cr ss (keyslot_ad d g) k)" by blast
  have "length (fst (seal cr ss (keyslot_ad d g) k)) = 32" "length (snd (seal cr ss (keyslot_ad d g) k)) = 32"
    using ctx.tag_length ctx.ct_length c(1) by auto
  then show ?l using c by (simp add: unwrap_pq_raw_def KEYSLOT_BODY_LEN_def ctx.round_trip)
qed

text \<open>
  The documented behaviour of the two key agreements, for one key pair and one draw (ML-KEM may fail
  to decapsulate, with negligible probability over the draw): decapsulation recovers the encapsulated
  secret, and Diffie-Hellman agrees on both sides.
\<close>

definition kem_agrees :: "kem \<Rightarrow> bytes \<Rightarrow> bytes \<Rightarrow> bool" where
  "kem_agrees km seed eseed \<longleftrightarrow>
     (let (mlkem_seed, x) = expand km seed; (sk, pk) = mlkem_keypair km mlkem_seed; (ct, ss) = mlkem_encapsulate km pk (take 32 eseed); e = drop 32 eseed
      in mlkem_decapsulate km sk (le_bytes ML_KEM_CT_LEN ct) = ss
         \<and> x25519_dh km x (le_bytes X_LEN (x25519_public km e)) = x25519_dh km e (le_bytes X_LEN (x25519_public km x)))"

lemma decapsulate_encapsulated:
  assumes "kem_agrees km seed eseed"
  shows "decapsulate km seed (fst (encapsulate_derand km (XWing_public km seed) eseed))
    = Inr (snd (encapsulate_derand km (XWing_public km seed) eseed))"
proof -
  obtain ms x where e: "expand km seed = (ms, x)" by (cases "expand km seed")
  obtain sk pk where k: "mlkem_keypair km ms = (sk, pk)" by (cases "mlkem_keypair km ms")
  obtain ct ss where c: "mlkem_encapsulate km pk (take 32 eseed) = (ct, ss)" by (cases "mlkem_encapsulate km pk (take 32 eseed)")
  from assms e k c show ?thesis
    by (simp add: kem_agrees_def decapsulate_def encapsulate_derand_def XWing_public_def Let_def XWING_CT_LEN_def)
qed

lemma wrap_unwrap:
  assumes "kem_agrees km seed eseed" "wrap_pq cr km (Some eseed) k g d (XWing_public km seed) = Inr body" "length k = 32"
  shows "unwrap_pq_raw cr km body g d seed = Inr k"
proof -
  obtain ct ss where c: "encapsulate_derand km (XWing_public km seed) eseed = (ct, ss)"
    by (cases "encapsulate_derand km (XWing_public km seed) eseed")
  with assms(2) have b: "body = ct @ fst (seal cr ss (keyslot_ad d g) k) @ snd (seal cr ss (keyslot_ad d g) k)"
    by (auto simp: wrap_pq_def encapsulate_def case_prod_beta Let_def)
  have "decapsulate km seed ct = Inr ss" "length ct = XWING_CT_LEN"
    using decapsulate_encapsulated [OF assms(1)] length_encapsulate_derand [of km "XWing_public km seed" eseed] c by simp_all
  with b assms(3) show ?thesis unfolding unwrap_iff by blast
qed

end
