(* ===== verification/Repo.thy ===== *)
theory Repo
  imports Pq Push Roster
begin

text \<open>
  \<open>crates/secsec-client/src/repo.rs\<close>: genesis, the cold-start open against a persisted anchor,
  enrollment and rotation, over a \<open>Remote\<close>. Each retry loop is one attempt and the loop around it;
  a loop that never stops is \<open>None\<close>, like a panic. What an operation draws from the operating
  system is a record of draws, one for each attempt.
\<close>

section \<open>Keyslots\<close>

datatype repo_error =
    RRoster roster_error
  | RSig sig_error
  | RHead head_error
  | RRng
  | NotInitialized
  | AlreadyInitialized
  | AlreadyEnrolled
  | NoKeyslot
  | MissingRosterKeyhist u32
  | MissingDataKeyhist u32
  | ChainTooLong
  | RosterCasConflict
  | RUnsupportedAlgo u8
  | BadKeyslot
  | RRollback
  | RPq
  | UpgradeRequired u8
  | NotMemberDevice bytes
  | GenerationExhausted
  | RRemote remote_error

definition ALGO_XWING :: u8 where "ALGO_XWING = 1"

definition xwing_keypair :: "crypto \<Rightarrow> kem \<Rightarrow> ssh \<Rightarrow> bytes option \<Rightarrow> bytes \<Rightarrow> repo_error + bytes \<times> xwing_public" where
  "xwing_keypair cr km ss coins sk =
     rbind (map_err RSig (xwing_seed cr ss sk)) (\<lambda>seed. map_err (\<lambda>_. RPq) (XWing_from_seed km coins seed))"

definition device_xwing_pub :: "crypto \<Rightarrow> kem \<Rightarrow> ssh \<Rightarrow> bytes option \<Rightarrow> bytes \<Rightarrow> repo_error + bytes" where
  "device_xwing_pub cr km ss coins sk = rbind (xwing_keypair cr km ss coins sk) (\<lambda>(_, pub). Inr (XWing_to_bytes pub))"

definition wrap_keyslot :: "crypto \<Rightarrow> kem \<Rightarrow> bytes option \<Rightarrow> bytes \<Rightarrow> u32 \<Rightarrow> bytes \<Rightarrow> bytes \<Rightarrow> repo_error + bytes" where
  "wrap_keyslot cr km eseed master g device_id xwing_pub =
     rbind (map_err (\<lambda>_. RPq) (XWing_from_bytes km xwing_pub)) (\<lambda>pk.
     rbind (map_err (\<lambda>_. RPq) (wrap_pq cr km eseed master g device_id pk)) (\<lambda>body.
     Inr (ALGO_XWING # body)))"

definition unwrap_keyslot_raw :: "crypto \<Rightarrow> kem \<Rightarrow> ssh \<Rightarrow> bytes option \<Rightarrow> bytes \<Rightarrow> u32 \<Rightarrow> bytes \<Rightarrow> bytes \<Rightarrow> repo_error + bytes" where
  "unwrap_keyslot_raw cr km ss coins keyslot g device_id sk =
     (case keyslot of
        [] \<Rightarrow> Inl BadKeyslot
      | algo # body \<Rightarrow>
          if algo \<noteq> ALGO_XWING then (if ALGO_XWING < algo then Inl (UpgradeRequired algo) else Inl (RUnsupportedAlgo algo))
          else rbind (xwing_keypair cr km ss coins sk) (\<lambda>(secret, _).
            map_err (\<lambda>_. RPq) (unwrap_pq_raw cr km body g device_id secret)))"

section \<open>Anchors and draws\<close>

record roster_anchor =
  max_seq :: u64
  tip_hash :: bytes

record fold_view =
  f_mk :: master_key
  f_state :: roster_state
  f_anchor :: roster_anchor
  f_entries :: "bytes list"

record draws =
  dr_coins :: "256 word option"
  dr_key :: "256 word option"
  dr_salt :: "nat \<Rightarrow> 256 word option"
  dr_eseed :: "nat \<Rightarrow> 512 word option"
  dr_nonce :: "96 word option"
  dr_coins_after :: "256 word option"

definition repo_call :: "('r, 'a) call \<Rightarrow> 'r \<Rightarrow> ((repo_error + 'a) \<times> 'r) option" where
  "repo_call f r = (let (x, r') = f r in Some (map_err RRemote x, r'))"

lemma repo_call_ok: "repo_call f r = Some (Inr x, r') \<longleftrightarrow> f r = (Inr x, r')"
  by (auto simp: repo_call_def split: prod.splits)

section \<open>Genesis\<close>

definition existing_repo :: "'r remote \<Rightarrow> 'r \<Rightarrow> ((repo_error + bytes) \<times> 'r) option" where
  "existing_repo R r =
     (let (x, r') = r_get_roster_entry R 0 r in
      Some (case x of Inr _ \<Rightarrow> Inl AlreadyEnrolled | Inl e \<Rightarrow> if is_not_enrolled e then Inl AlreadyInitialized else Inl (RRemote e), r'))"

definition empty_write :: roster_write where
  "empty_write = \<lparr>w_old_tip = replicate 32 0, w_entries = [], w_keyslots = [], w_keyhist = None, w_roster_keyhist = None, w_revoke = [], w_head = None\<rparr>"

definition genesis_outcome :: "'r remote \<Rightarrow> bytes \<Rightarrow> (remote_error + bool) \<times> 'r \<Rightarrow> ((repo_error + bytes) \<times> 'r) option" where
  "genesis_outcome R rfp y =
     (let (x, r) = y in
      case x of
        Inr won \<Rightarrow> if won then Some (Inr rfp, r) else existing_repo R r
      | Inl e \<Rightarrow> if is_not_enrolled e then existing_repo R r else Some (Inl (RRemote e), r))"

lemma genesis_outcome_ok: "genesis_outcome R rfp y = Some (Inr rfp', r') \<longleftrightarrow> y = (Inr True, r') \<and> rfp' = rfp"
  by (auto simp: genesis_outcome_def existing_repo_def split: prod.splits sum.splits if_splits)

definition init_repo_remote :: "crypto \<Rightarrow> kem \<Rightarrow> ssh \<Rightarrow> 'r remote \<Rightarrow> draws \<Rightarrow> bytes \<Rightarrow> u64 \<Rightarrow> 'r \<Rightarrow> ((repo_error + bytes) \<times> 'r) option" where
  "init_repo_remote cr km ss R rng sk ts r =
     sbind (reading id r (ok_or RRng (map_option (le_bytes 32) (dr_key rng)))) (\<lambda>key r.
     let mk = MasterKey_new 1 key in
     sbind (reading id r (device_xwing_pub cr km ss (map_option (le_bytes 32) (dr_coins rng)) sk)) (\<lambda>xwing_pub r.
     sbind (trying RRoster r (genesis cr ss sk xwing_pub (mk_commit cr mk) ts)) (\<lambda>(e, rfp) r.
     sbind (reading RSig r (device_id_of cr ss (sk_public ss sk))) (\<lambda>d r.
     Option.bind (encode_entry e) (\<lambda>pt.
     sbind (reading RRoster r (seal_entry cr (map_option (le_bytes 32) (dr_salt rng 0)) (roster_key cr mk) 1 0 pt)) (\<lambda>blob r.
     sbind (reading id r (wrap_keyslot cr km (map_option (le_bytes 64) (dr_eseed rng 0)) key 1 d xwing_pub)) (\<lambda>ks r.
     genesis_outcome R rfp (r_roster_batch R (empty_write\<lparr>w_old_tip := ABSENT_HEAD, w_entries := [blob],
       w_keyslots := [\<lparr>ks_device_id = d, ks_gen = 1, ks_blob = ks\<rparr>]\<rparr>) r))))))))"

section \<open>Cold start\<close>

function fetch_entries_loop :: "'r remote \<Rightarrow> nat \<Rightarrow> bytes list \<Rightarrow> 'r \<Rightarrow> ((repo_error + bytes list) \<times> 'r) option" where
  "fetch_entries_loop R sq entries r =
     (if MAX_TOTAL_SIGCHAIN < sq then Some (Inr entries, r)
      else sbind (repo_call (r_get_roster_entry R (of_nat sq)) r) (\<lambda>b r.
        case b of
          None \<Rightarrow> Some (Inr entries, r)
        | Some blob \<Rightarrow>
            if sq = MAX_TOTAL_SIGCHAIN then Some (Inl ChainTooLong, r)
            else fetch_entries_loop R (sq + 1) (entries @ [blob]) r))"
  by pat_completeness auto
termination
  by (relation "measure (\<lambda>(_, sq, _). Suc MAX_TOTAL_SIGCHAIN - sq)") auto

declare fetch_entries_loop.simps [simp del]

definition fetch_roster_entries :: "'r remote \<Rightarrow> 'r \<Rightarrow> ((repo_error + bytes list) \<times> 'r) option" where
  "fetch_roster_entries R r = fetch_entries_loop R 0 [] r"

definition enforce_min_algo :: "roster_state \<Rightarrow> repo_error + unit" where
  "enforce_min_algo st = (if ALGO_XWING < min_algo st then Inl (UpgradeRequired (min_algo st)) else Inr ())"

text \<open>The loops over the earlier generations, \<open>1..g_cur\<close>.\<close>

fun fetch_wraps :: "(u32 \<Rightarrow> ('r, bytes option) call) \<Rightarrow> (u32 \<Rightarrow> repo_error) \<Rightarrow> nat list \<Rightarrow> (u32, bytes) btree \<Rightarrow> 'r
    \<Rightarrow> ((repo_error + (u32, bytes) btree) \<times> 'r) option" where
  "fetch_wraps get_wrap missing [] hist r = Some (Inr hist, r)"
| "fetch_wraps get_wrap missing (g # gs) hist r =
     sbind (repo_call (get_wrap (of_nat g)) r) (\<lambda>w r.
     sbind (reading id r (ok_or (missing (of_nat g)) w)) (\<lambda>w r.
     fetch_wraps get_wrap missing gs (bt_insert (of_nat g) w hist) r))"

definition anchored :: "crypto \<Rightarrow> bytes list \<Rightarrow> roster_anchor \<Rightarrow> bool" where
  "anchored cr entries p \<longleftrightarrow> unat (max_seq p) < length entries \<and> hash cr (entries ! unat (max_seq p)) = tip_hash p"

definition anchor_of :: "crypto \<Rightarrow> bytes list \<Rightarrow> roster_anchor" where
  "anchor_of cr entries = \<lparr>max_seq = of_nat (length entries - 1), tip_hash = hash cr (last entries)\<rparr>"

definition repo_fold :: "crypto \<Rightarrow> kem \<Rightarrow> ssh \<Rightarrow> 'r remote \<Rightarrow> 256 word option \<Rightarrow> bytes \<Rightarrow> bytes \<Rightarrow> roster_anchor option \<Rightarrow> 'r
    \<Rightarrow> ((repo_error + fold_view) \<times> 'r) option" where
  "repo_fold cr km ss R coins sk rfp prev r =
     sbind (fetch_roster_entries R r) (\<lambda>entries r.
     if entries = [] then Some (Inl NotInitialized, r)
     else if (case prev of None \<Rightarrow> False | Some p \<Rightarrow> \<not> anchored cr entries p) then Some (Inl RRollback, r)
     else
       sbind (reading RRoster r (blob_gen (last entries))) (\<lambda>g_cur r.
       sbind (reading RSig r (device_id_of cr ss (sk_public ss sk))) (\<lambda>d r.
       sbind (repo_call (r_get_keyslot R d g_cur) r) (\<lambda>ks r.
       sbind (reading id r (ok_or NoKeyslot ks)) (\<lambda>ks r.
       sbind (reading id r (unwrap_keyslot_raw cr km ss (map_option (le_bytes 32) coins) ks g_cur d sk)) (\<lambda>candidate r.
       sbind (fetch_wraps (r_get_roster_keyhist R) MissingRosterKeyhist [1..<unat g_cur] [] r) (\<lambda>keyhist r.
       sbind (trying RRoster r (cold_start_fold cr ss candidate g_cur rfp keyhist entries)) (\<lambda>(st, mk) r.
       sbind (reading id r (enforce_min_algo st)) (\<lambda>_ r.
       Some (Inr \<lparr>f_mk = mk, f_state = st, f_anchor = anchor_of cr entries, f_entries = entries\<rparr>, r))))))))))"

definition tip_entry :: "crypto \<Rightarrow> fold_view \<Rightarrow> repo_error + entry" where
  "tip_entry cr f =
     (if f_entries f = [] then Inl NotInitialized else
      rbind (map_err RRoster (open_entry cr (roster_key cr (f_mk f)) (generation (f_mk f)) (max_seq (f_anchor f)) (last (f_entries f))))
        (\<lambda>pt. map_err RRoster (decode_entry pt)))"

definition open_repo_remote :: "crypto \<Rightarrow> kem \<Rightarrow> ssh \<Rightarrow> 'r remote \<Rightarrow> 256 word option \<Rightarrow> bytes \<Rightarrow> bytes \<Rightarrow> roster_anchor option \<Rightarrow> 'r
    \<Rightarrow> ((repo_error + master_key \<times> roster_state \<times> roster_anchor) \<times> 'r) option" where
  "open_repo_remote cr km ss R coins sk rfp prev r =
     sbind (repo_fold cr km ss R coins sk rfp prev r) (\<lambda>f r. Some (Inr (f_mk f, f_state f, f_anchor f), r))"

definition roster_grew :: "'r remote \<Rightarrow> roster_anchor \<Rightarrow> 'r \<Rightarrow> ((repo_error + bool) \<times> 'r) option" where
  "roster_grew R a r =
     (let nxt = (if max_seq a = - 1 then max_seq a else max_seq a + 1)
      in sbind (repo_call (r_get_roster_entry R nxt) r) (\<lambda>b r. Some (Inr (b \<noteq> None), r)))"

definition data_keyring_remote :: "crypto \<Rightarrow> 'r remote \<Rightarrow> master_key \<Rightarrow> roster_state \<Rightarrow> 'r
    \<Rightarrow> ((repo_error + (u32, master_key) btree) \<times> 'r) option" where
  "data_keyring_remote cr R mk st r =
     (let g_cur = generation mk in
      sbind (fetch_wraps (r_get_keyhist R) MissingDataKeyhist [1..<unat g_cur] [] r) (\<lambda>hist r.
      reading RRoster r (peel_data_keys cr (mk_key mk) g_cur hist (mk_commits st))))"

section \<open>Grants\<close>

text \<open>
  The retry loops: an attempt tells the anchor it built on, what it saw the write compete against,
  and the result if the write won. A loss is retried only if what was seen differs from the last time.
\<close>

partial_function (option) retry :: "(nat \<Rightarrow> roster_anchor option \<Rightarrow> 'r \<Rightarrow> ((repo_error + roster_anchor \<times> 'k \<times> 'a option) \<times> 'r) option)
    \<Rightarrow> nat \<Rightarrow> roster_anchor option \<Rightarrow> 'k option \<Rightarrow> 'r \<Rightarrow> ((repo_error + 'a) \<times> 'r) option" where
  "retry attempt n prev seen r =
     (case attempt n prev r of
        None \<Rightarrow> None
      | Some x \<Rightarrow>
          (case fst x of
             Inl e \<Rightarrow> Some (Inl e, snd x)
           | Inr y \<Rightarrow>
               (case snd (snd y) of
                  Some a \<Rightarrow> Some (Inr a, snd x)
                | None \<Rightarrow>
                    if seen = Some (fst (snd y)) then Some (Inl RosterCasConflict, snd x)
                    else retry attempt (n + 1) (Some (fst y)) (Some (fst (snd y))) (snd x))))"

definition grant_attempt :: "crypto \<Rightarrow> kem \<Rightarrow> ssh \<Rightarrow> 'r remote \<Rightarrow> draws \<Rightarrow> bytes \<Rightarrow> bytes \<Rightarrow> bytes \<Rightarrow> bytes \<Rightarrow> bytes \<Rightarrow> u64
    \<Rightarrow> roster_anchor option \<Rightarrow> 'r \<Rightarrow> ((repo_error + roster_anchor \<times> bytes \<times> roster_anchor option) \<times> 'r) option" where
  "grant_attempt cr km ss R rng sk rfp d_id d_canonical d_xwing_pub ts prev r =
     sbind (repo_fold cr km ss R (dr_coins rng) sk rfp prev r) (\<lambda>f r.
     let mk = f_mk f; g = generation mk; op = AddDevice d_canonical (mk_commit cr mk) d_xwing_pub in
     sbind (reading id r (tip_entry cr f)) (\<lambda>tip r.
     sbind (trying RRoster r (append_entry cr ss tip op sk ts)) (\<lambda>e r.
     Option.bind (encode_entry e) (\<lambda>pt.
     sbind (reading RRoster r (seal_entry cr (map_option (le_bytes 32) (dr_salt rng 0)) (roster_key cr mk) g (e_seq e) pt)) (\<lambda>blob r.
     sbind (reading id r (wrap_keyslot cr km (map_option (le_bytes 64) (dr_eseed rng 0)) (mk_key mk) g d_id d_xwing_pub)) (\<lambda>ks r.
     sbind (repo_call (r_roster_batch R (empty_write\<lparr>w_old_tip := tip_hash (f_anchor f), w_entries := [blob],
         w_keyslots := [\<lparr>ks_device_id = d_id, ks_gen = g, ks_blob = ks\<rparr>]\<rparr>)) r) (\<lambda>won r.
     Some (Inr (f_anchor f, tip_hash (f_anchor f), if won then Some \<lparr>max_seq = e_seq e, tip_hash = hash cr blob\<rparr> else None), r))))))))"

definition grant_device_remote :: "crypto \<Rightarrow> kem \<Rightarrow> ssh \<Rightarrow> 'r remote \<Rightarrow> (nat \<Rightarrow> draws) \<Rightarrow> bytes \<Rightarrow> bytes \<Rightarrow> roster_anchor option
    \<Rightarrow> bytes \<Rightarrow> bytes \<Rightarrow> u64 \<Rightarrow> 'r \<Rightarrow> ((repo_error + roster_anchor) \<times> 'r) option" where
  "grant_device_remote cr km ss R rng sk rfp prev d_pubkey d_xwing_pub ts r =
     sbind (reading (\<lambda>_. RPq) r (XWing_from_bytes km d_xwing_pub)) (\<lambda>_ r.
     sbind (reading RSig r (device_id_of cr ss d_pubkey)) (\<lambda>d_id r.
     sbind (reading RSig r (DevicePublic_to_canonical ss d_pubkey)) (\<lambda>d_canonical r.
     retry (\<lambda>n. grant_attempt cr km ss R (rng n) sk rfp d_id d_canonical d_xwing_pub ts) 0 prev None r)))"

section \<open>Rotation\<close>

record revoke =
  rv_device :: bytes
  rv_after_seq :: u64

record rotation =
  rot_mk :: master_key
  rot_state :: roster_state
  rot_anchor :: roster_anchor
  rot_revoked :: "bytes list"

definition revoke_preview :: "roster_state \<Rightarrow> revoke \<Rightarrow> bytes \<Rightarrow> bytes list" where
  "revoke_preview st rv revoker = rv_device rv # revoke_closure st (rv_device rv) (rv_after_seq rv) revoker"

definition rotate_ops :: "roster_state \<Rightarrow> revoke option \<Rightarrow> bytes \<Rightarrow> bytes \<Rightarrow> repo_error + roster_op list" where
  "rotate_ops st rv me mkc =
     (case rv of
        None \<Rightarrow> Inr [Rotate mkc]
      | Some v \<Rightarrow>
          if \<not> is_member st (rv_device v) then Inl (NotMemberDevice (rv_device v))
          else map_err RRoster (revoke_rotate_ops st (rv_device v) (rv_after_seq v) me mkc))"

definition revoked_of :: "roster_op list \<Rightarrow> bytes list" where
  "revoked_of ops = concat (map (\<lambda>op. case op of RevokeDevice d \<Rightarrow> [d] | _ \<Rightarrow> []) ops)"

text \<open>Entries before the rotation are sealed under the old generation, it and later ones under the new.\<close>

fun seal_rotation :: "crypto \<Rightarrow> draws \<Rightarrow> bytes \<Rightarrow> bytes \<Rightarrow> u32 \<Rightarrow> u32 \<Rightarrow> nat \<Rightarrow> entry list \<Rightarrow> (roster_error + bytes list) option" where
  "seal_rotation cr rng rk_g rk_g1 g1 g i [] = Some (Inr [])"
| "seal_rotation cr rng rk_g rk_g1 g1 g i (e # es) =
     (let g = (case e_op e of Rotate _ \<Rightarrow> g1 | _ \<Rightarrow> g); rk = (if g = g1 then rk_g1 else rk_g) in
      Option.bind (encode_entry e) (\<lambda>pt.
      orbind (Some (seal_entry cr (map_option (le_bytes 32) (dr_salt rng i)) rk g (e_seq e) pt)) (\<lambda>b.
      orbind (seal_rotation cr rng rk_g rk_g1 g1 g (i + 1) es) (\<lambda>bs. Some (Inr (b # bs))))))"

fun wrap_members :: "crypto \<Rightarrow> kem \<Rightarrow> draws \<Rightarrow> bytes \<Rightarrow> u32 \<Rightarrow> (bytes, bytes) btree \<Rightarrow> nat \<Rightarrow> bytes list \<Rightarrow> repo_error + keyslot_put list" where
  "wrap_members cr km rng newkey g1 pubs i [] = Inr []"
| "wrap_members cr km rng newkey g1 pubs i (d # ds) =
     rbind (ok_or RPq (map_of pubs d)) (\<lambda>pubkey.
     rbind (wrap_keyslot cr km (map_option (le_bytes 64) (dr_eseed rng i)) newkey g1 d pubkey) (\<lambda>blob.
     rbind (wrap_members cr km rng newkey g1 pubs (i + 1) ds) (\<lambda>rest.
     Inr (\<lparr>ks_device_id = d, ks_gen = g1, ks_blob = blob\<rparr> # rest))))"

definition resign_head :: "crypto \<Rightarrow> ssh \<Rightarrow> 'r remote \<Rightarrow> draws \<Rightarrow> fold_view \<Rightarrow> master_key \<Rightarrow> bytes \<Rightarrow> bytes \<Rightarrow> bytes list \<Rightarrow> u64 \<Rightarrow> 'r
    \<Rightarrow> ((repo_error + head_put option) \<times> 'r) option" where
  "resign_head cr ss R rng f new_mk sk name gone rs r =
     (if gone = [] then Some (Inr None, r) else
      sbind (data_keyring_remote cr R (f_mk f) (f_state f) r) (\<lambda>ring r.
      Option.bind (ref_name_key cr (ring_keys ring)) (\<lambda>rnk.
      let ref_h = ref_hash cr rnk name in
      sbind (repo_call (r_get_ref R ref_h) r) (\<lambda>b r.
      case b of
        None \<Rightarrow> Some (Inr None, r)
      | Some blob \<Rightarrow>
          sbind (reading RHead r (open_head cr (ring_keys ring) rnk name blob)) (\<lambda>(h, sg) r.
          if (case SiblingHead_verified ss (members (f_state f)) h sg of None \<Rightarrow> True | Some s \<Rightarrow> sh_device_id s \<notin> set gone)
          then Some (Inr None, r)
          else
            sbind (trying RHead r (build_head cr name (commit_id h) rs (Some h))) (\<lambda>nxt r.
            sbind (trying RHead r (sign_head ss sk nxt)) (\<lambda>sg r.
            sbind (reading RHead r (ok_or HeadAead (map_option (le_bytes 12) (dr_nonce rng)))) (\<lambda>nonce r.
            Option.bind (seal_head cr new_mk rnk nxt sg nonce) (\<lambda>new_blob.
            Some (Inr (Some \<lparr>hp_ref_h = ref_h, hp_old_head = hash cr blob, hp_new_blob = new_blob\<rparr>), r))))))))))"

definition rotate_attempt :: "crypto \<Rightarrow> kem \<Rightarrow> ssh \<Rightarrow> 'r remote \<Rightarrow> draws \<Rightarrow> bytes \<Rightarrow> bytes \<Rightarrow> bytes \<Rightarrow> revoke option \<Rightarrow> bytes \<Rightarrow> u64
    \<Rightarrow> roster_anchor option \<Rightarrow> 'r \<Rightarrow> ((repo_error + roster_anchor \<times> (bytes \<times> bytes option) \<times> rotation option) \<times> 'r) option" where
  "rotate_attempt cr km ss R rng sk rfp me rv name ts prev r =
     sbind (repo_fold cr km ss R (dr_coins rng) sk rfp prev r) (\<lambda>f r.
     let mk = f_mk f; g = generation mk; a = f_anchor f in
     if g = - 1 then Some (Inl GenerationExhausted, r) else
     let g1 = g + 1 in
     sbind (reading id r (ok_or RRng (map_option (le_bytes 32) (dr_key rng)))) (\<lambda>newkey r.
     let new_mk = MasterKey_new g1 newkey; rk_g = roster_key cr mk; rk_g1 = roster_key cr new_mk in
     sbind (reading id r (rotate_ops (f_state f) rv me (mk_commit cr new_mk))) (\<lambda>ops r.
     let revoked = revoked_of ops in
     sbind (reading id r (tip_entry cr f)) (\<lambda>tip r.
     sbind (trying RRoster r (append_many cr ss tip ops sk ts)) (\<lambda>es r.
     sbind (trying RRoster r (seal_rotation cr rng rk_g rk_g1 g1 g 0 es)) (\<lambda>sealed r.
     let gone = fold insort_insert revoked [] in
     sbind (reading id r (wrap_members cr km rng newkey g1 (enroll_pubs (f_state f)) 0
         (filter (\<lambda>d. d \<notin> set gone) (bt_keys (members (f_state f)))))) (\<lambda>keyslots r.
     let tip_sq = (if es = [] then max_seq a else e_seq (last es)) in
     sbind (resign_head cr ss R rng f new_mk sk name gone tip_sq r) (\<lambda>hd r.
     let seen = (tip_hash a, map_option hp_old_head hd);
         w = \<lparr>w_old_tip = tip_hash a, w_entries = sealed, w_keyslots = keyslots,
              w_keyhist = Some (g, seal_data_keyhist cr newkey g (mk_key mk)),
              w_roster_keyhist = Some (g, seal_roster_keyhist cr rk_g1 g rk_g), w_revoke = revoked, w_head = hd\<rparr>
     in sbind (repo_call (r_roster_batch R w) r) (\<lambda>won r.
        if won then
          sbind (repo_fold cr km ss R (dr_coins_after rng) sk rfp (Some a) r) (\<lambda>after r.
          Some (Inr (a, seen, Some \<lparr>rot_mk = f_mk after, rot_state = f_state after, rot_anchor = f_anchor after, rot_revoked = revoked\<rparr>), r))
        else Some (Inr (a, seen, None), r))))))))))"

definition rotate_repo_remote :: "crypto \<Rightarrow> kem \<Rightarrow> ssh \<Rightarrow> 'r remote \<Rightarrow> (nat \<Rightarrow> draws) \<Rightarrow> bytes \<Rightarrow> bytes \<Rightarrow> roster_anchor option
    \<Rightarrow> revoke option \<Rightarrow> bytes \<Rightarrow> u64 \<Rightarrow> 'r \<Rightarrow> ((repo_error + rotation) \<times> 'r) option" where
  "rotate_repo_remote cr km ss R rng sk rfp prev rv name ts r =
     sbind (reading RSig r (device_id_of cr ss (sk_public ss sk))) (\<lambda>me r.
     retry (\<lambda>n. rotate_attempt cr km ss R (rng n) sk rfp me rv name ts) 0 prev None r)"

lemma retry_won_loop:
  "retry attempt n prev seen r = Some y \<Longrightarrow> fst y = Inr a \<Longrightarrow> I r \<Longrightarrow>
     (\<And>m p s anc k s'. attempt m p s = Some (Inr (anc, k, None), s') \<Longrightarrow> I s \<Longrightarrow> I s') \<Longrightarrow>
     \<exists>m p s anc k. attempt m p s = Some (Inr (anc, k, Some a), snd y) \<and> I s"
proof (induction attempt n prev seen r y rule: retry.raw_induct [rotated, consumes 1])
  case (1 loop attempt n prev seen r y)
  from 1(2,3) obtain anc k res s where at: "attempt n prev r = Some (Inr (anc, k, res), s)"
    by (auto split: option.splits sum.splits)
  show ?case
  proof (cases res)
    case (Some b)
    with 1(2,3) at have "b = a" "snd y = s" by auto
    with at Some 1(4) show ?thesis by blast
  next
    case None
    with 1(2,3) at have "loop attempt (n + 1) (Some anc) (Some k) s = Some y" by (auto split: if_splits)
    moreover have "I s" by (rule 1(5) [OF at [unfolded None] 1(4)])
    ultimately show ?thesis using 1(1) [OF _ 1(3)] 1(5) by blast
  qed
qed

lemma retry_won:
  assumes "retry attempt n prev seen r = Some (Inr a, r')" "I r"
    "\<And>m p s anc k s'. attempt m p s = Some (Inr (anc, k, None), s') \<Longrightarrow> I s \<Longrightarrow> I s'"
  obtains m p s anc k where "attempt m p s = Some (Inr (anc, k, Some a), r')" "I s"
  using retry_won_loop [of attempt n prev seen r "(Inr a, r')" a I] assms that by auto

section \<open>What a cold start has seen\<close>

lemma fetch_entries_loop_bound:
  "fetch_entries_loop R sq entries r = Some (Inr es, r') \<Longrightarrow> length entries = sq \<Longrightarrow> sq \<le> MAX_TOTAL_SIGCHAIN \<Longrightarrow> length es \<le> MAX_TOTAL_SIGCHAIN"
proof (induction R sq entries r rule: fetch_entries_loop.induct)
  case (1 R sq entries r)
  have m: "\<not> MAX_TOTAL_SIGCHAIN < sq" using "1.prems"(3) by simp
  have "sbind (repo_call (r_get_roster_entry R (of_nat sq)) r) (\<lambda>b r.
        case b of
          None \<Rightarrow> Some (Inr entries, r)
        | Some blob \<Rightarrow>
            if sq = MAX_TOTAL_SIGCHAIN then Some (Inl ChainTooLong, r)
            else fetch_entries_loop R (sq + 1) (entries @ [blob]) r) = Some (Inr es, r')"
    using "1.prems"(1) m by (subst (asm) fetch_entries_loop.simps) simp
  then show ?case
  proof (cases rule: sbind_cases)
    case (ok b r1)
    show ?thesis
    proof (cases b)
      case None
      with ok "1.prems"(2,3) show ?thesis by simp
    next
      case (Some blob)
      with ok have ne: "sq \<noteq> MAX_TOTAL_SIGCHAIN" by auto
      have "fetch_entries_loop R (sq + 1) (entries @ [blob]) r1 = Some (Inr es, r')" using ok(2) Some ne by simp
      from "1.IH" [OF m ok(1) Some ne this] "1.prems"(2,3) ne show ?thesis by simp
    qed
  qed simp
qed

lemma repo_fold_cases:
  assumes "repo_fold cr km ss R coins sk rfp prev r = Some (Inr f, r')"
  obtains r1 r2 g d ks cand hist where "fetch_roster_entries R r = Some (Inr (f_entries f), r1)" "f_entries f \<noteq> []"
    "\<And>p. prev = Some p \<Longrightarrow> anchored cr (f_entries f) p" "blob_gen (last (f_entries f)) = Inr g"
    "device_id_of cr ss (sk_public ss sk) = Inr d" "r_get_keyslot R d g r1 = (Inr (Some ks), r2)"
    "unwrap_keyslot_raw cr km ss (map_option (le_bytes 32) coins) ks g d sk = Inr cand"
    "fetch_wraps (r_get_roster_keyhist R) MissingRosterKeyhist [1..<unat g] [] r2 = Some (Inr hist, r')"
    "cold_start_fold cr ss cand g rfp hist (f_entries f) = Some (Inr (f_state f, f_mk f))"
    "enforce_min_algo (f_state f) = Inr ()" "f_anchor f = anchor_of cr (f_entries f)"
  using assms unfolding repo_fold_def
proof (cases rule: sbind_cases)
  case (ok entries r1)
  from ok(2) obtain g d ks r2 cand hist st mk where
    "entries \<noteq> []" "\<not> (case prev of None \<Rightarrow> False | Some p \<Rightarrow> \<not> anchored cr entries p)" "blob_gen (last entries) = Inr g"
    "device_id_of cr ss (sk_public ss sk) = Inr d" "r_get_keyslot R d g r1 = (Inr (Some ks), r2)"
    "unwrap_keyslot_raw cr km ss (map_option (le_bytes 32) coins) ks g d sk = Inr cand"
    "fetch_wraps (r_get_roster_keyhist R) MissingRosterKeyhist [1..<unat g] [] r2 = Some (Inr hist, r')"
    "cold_start_fold cr ss cand g rfp hist entries = Some (Inr (st, mk))" "enforce_min_algo st = Inr ()"
    "f = \<lparr>f_mk = mk, f_state = st, f_anchor = anchor_of cr entries, f_entries = entries\<rparr>"
    by (auto simp: sbind_eq_ok reading_ok trying_ok repo_call_ok split: if_splits)
  with that ok(1) show ?thesis by (auto split: option.splits)
qed simp

text \<open>The entries a view opens, under the keys it peeled.\<close>

definition view_opens :: "crypto \<Rightarrow> ssh \<Rightarrow> bytes \<Rightarrow> fold_view \<Rightarrow> (u32, bytes) btree \<Rightarrow> entry list \<Rightarrow> bool" where
  "view_opens cr ss rfp f keys es \<longleftrightarrow>
     (\<exists>hist. peel_roster_keys cr (roster_key cr (f_mk f)) (generation (f_mk f)) hist = Inr keys)
     \<and> open_entries cr keys 0 (f_entries f) = Inr es \<and> fold_chain cr ss es rfp = Some (Inr (f_state f))"

lemma repo_fold_opens:
  assumes "repo_fold cr km ss R coins sk rfp prev r = Some (Inr f, r')"
  obtains keys es where "view_opens cr ss rfp f keys es"
proof -
  from assms obtain cand g hist where "cold_start_fold cr ss cand g rfp hist (f_entries f) = Some (Inr (f_state f, f_mk f))"
    by (rule repo_fold_cases)
  then obtain keys es where o: "f_mk f = MasterKey_new g cand" "peel_roster_keys cr (roster_key cr (f_mk f)) g hist = Inr keys"
    "open_entries cr keys 0 (f_entries f) = Inr es" "fold_chain cr ss es rfp = Some (Inr (f_state f))"
    by (auto simp: cold_start_fold_def Let_def orbind_eq_ok split: if_splits)
  then have "generation (f_mk f) = g" by (simp add: MasterKey_new_def)
  with o that show ?thesis unfolding view_opens_def by blast
qed

lemma open_entries_nth:
  "open_entries cr keys sq bs = Inr es \<Longrightarrow>
     length es = length bs \<and> list_all entry_wf es \<and> (\<forall>i < length bs. \<exists>g rk pt. blob_gen (bs ! i) = Inr g \<and> map_of keys g = Some rk
       \<and> open_entry cr rk g (of_nat (sq + i)) (bs ! i) = Inr pt \<and> decode_entry pt = Inr (es ! i))"
proof (induction cr keys sq bs arbitrary: es rule: open_entries.induct)
  case (2 cr keys sq b bs)
  from "2.prems" obtain g rk pt e es' where o: "blob_gen b = Inr g" "map_of keys g = Some rk" "open_entry cr rk g (of_nat sq) b = Inr pt"
    "decode_entry pt = Inr e" "open_entries cr keys (sq + 1) bs = Inr es'" "es = e # es'"
    by (auto simp: rbind_eq_Inr)
  note ih = "2.IH" [OF o(1) _ o(3,4,5)]
  have ih: "length es' = length bs" "list_all entry_wf es'" "\<And>i. i < length bs \<Longrightarrow> \<exists>g rk pt. blob_gen (bs ! i) = Inr g \<and> map_of keys g = Some rk
       \<and> open_entry cr rk g (of_nat (sq + 1 + i)) (bs ! i) = Inr pt \<and> decode_entry pt = Inr (es' ! i)"
    using ih o(2) by simp_all
  have "\<exists>g rk pt. blob_gen ((b # bs) ! i) = Inr g \<and> map_of keys g = Some rk
       \<and> open_entry cr rk g (of_nat (sq + i)) ((b # bs) ! i) = Inr pt \<and> decode_entry pt = Inr (es ! i)" if "i < length (b # bs)" for i
  proof (cases i)
    case 0
    with o show ?thesis by simp
  next
    case (Suc j)
    with ih(3) [of j] that o(6) show ?thesis by simp
  qed
  moreover have "entry_wf e" using o(4) by (simp add: decode_entry_iff)
  ultimately show ?case using ih(1,2) o(6) by simp
qed simp

section \<open>One blob opens to one entry\<close>

text \<open>What the commitment tag of a sealed entry hashes, when it is opened under a roster key.\<close>

definition entry_commitment :: "crypto \<Rightarrow> bytes \<Rightarrow> u32 \<Rightarrow> u64 \<Rightarrow> bytes \<Rightarrow> bytes \<times> bytes" where
  "entry_commitment cr rk g sq blob =
     (if (case Frame_decode (take FRAME_LEN blob) of Inr h \<Rightarrow> Frame_is_v2 h | Inl _ \<Rightarrow> False) then
        let rs = drop FRAME_LEN blob; salt = take ROSTER_ENTRY_SALT_LEN rs
        in ctx_input cr (roster_entry_key_v2 cr rk sq salt) (ad_roster_v2 (Frame_v2 g TRosterEntry) sq salt)
             (drop CTX_TAG_LEN (drop ROSTER_ENTRY_SALT_LEN rs))
      else ctx_input cr (roster_entry_key cr rk sq) (ad_roster_v1 (Frame_v1 g TRosterEntry) sq) (drop (FRAME_LEN + CTX_TAG_LEN) blob))"

lemma open_ctx_commitment: "open_ctx cr k ad tag ct = Inr p \<Longrightarrow> tag = case_prod (keyed_hash cr) (ctx_input cr k ad ct) \<and> p = apply_keystream cr k NONCE 64 ct"
  by (auto simp: open_ctx_def ctx_input_def ctx_commit_def Let_def split: if_splits)

lemma open_ctx_one:
  assumes "open_ctx cr k ad tag ct = Inr p" "open_ctx cr k' ad' tag ct = Inr p'"
  shows "p = p' \<or> keyed_clash cr (ctx_input cr k ad ct) (ctx_input cr k' ad' ct)"
  using open_ctx_commitment [OF assms(1)] open_ctx_commitment [OF assms(2)]
  by (auto simp: keyed_clash_def ctx_input_def)

lemma open_entry_parts:
  assumes "open_entry cr rk g sq blob = Inr pt"
  shows "(if (case Frame_decode (take FRAME_LEN blob) of Inr h \<Rightarrow> Frame_is_v2 h | Inl _ \<Rightarrow> False) then
      let rs = drop FRAME_LEN blob; salt = take ROSTER_ENTRY_SALT_LEN rs
      in open_ctx cr (roster_entry_key_v2 cr rk sq salt) (ad_roster_v2 (Frame_v2 g TRosterEntry) sq salt)
           (take CTX_TAG_LEN (drop ROSTER_ENTRY_SALT_LEN rs)) (drop CTX_TAG_LEN (drop ROSTER_ENTRY_SALT_LEN rs)) = Inr pt
    else open_ctx cr (roster_entry_key cr rk sq) (ad_roster_v1 (Frame_v1 g TRosterEntry) sq)
           (take CTX_TAG_LEN (drop FRAME_LEN blob)) (drop (FRAME_LEN + CTX_TAG_LEN) blob) = Inr pt)"
proof -
  from assms obtain h where h: "Frame_decode (take FRAME_LEN blob) = Inr h"
    by (auto simp: open_entry_def rbind_eq_Inr split: if_splits)
  show ?thesis
  proof (cases "Frame_is_v2 h")
    case True
    with assms h show ?thesis
      by (auto simp: open_entry_def rbind_eq_Inr Let_def parse_frame_prefix_iff split: if_splits)
  next
    case False
    from assms h False obtain tag ct where p: "parse_blob blob (Frame_v1 g TRosterEntry) = Inr (tag, ct)"
      "open_ctx cr (roster_entry_key cr rk sq) (ad_roster_v1 (Frame_v1 g TRosterEntry) sq) tag ct = Inr pt"
      by (auto simp: open_entry_def rbind_eq_Inr Let_def split: if_splits)
    then have "take CTX_TAG_LEN (drop FRAME_LEN blob) = tag" "drop (FRAME_LEN + CTX_TAG_LEN) blob = ct"
      by (auto simp: parse_blob_accepts assemble_blob_def)
    with p(2) h False show ?thesis by simp
  qed
qed

lemma open_entry_one:
  assumes "open_entry cr rk g sq blob = Inr pt" "open_entry cr rk' g sq blob = Inr pt'"
  shows "pt = pt' \<or> keyed_clash cr (entry_commitment cr rk g sq blob) (entry_commitment cr rk' g sq blob)"
proof (cases "case Frame_decode (take FRAME_LEN blob) of Inr h \<Rightarrow> Frame_is_v2 h | Inl _ \<Rightarrow> False")
  case True
  from open_ctx_one [OF open_entry_parts [OF assms(1), unfolded if_P [OF True] Let_def] open_entry_parts [OF assms(2), unfolded if_P [OF True] Let_def]]
  show ?thesis unfolding entry_commitment_def if_P [OF True] Let_def .
next
  case False
  from open_ctx_one [OF open_entry_parts [OF assms(1), unfolded if_not_P [OF False]] open_entry_parts [OF assms(2), unfolded if_not_P [OF False]]]
  show ?thesis unfolding entry_commitment_def if_not_P [OF False] .
qed

end
