(* ===== verification/Enroll.thy ===== *)
theory Enroll
  imports Repo
begin

text \<open>
  Genesis, enrollment and the cold start together, against a server that keeps the roster's
  contract: the creator of a repository can open it, and a device that was granted access opens the
  same repository, under the same key, and finds itself a member.
\<close>

section \<open>Anchors\<close>

lemma anchored_append:
  assumes "bs \<noteq> []" "length bs \<le> MAX_TOTAL_SIGCHAIN"
  shows "anchored cr (bs @ ext) (anchor_of cr bs)"
proof -
  define k where "k = length bs - 1"
  have "unat (of_nat k :: u64) = k" using assms(2) by (simp add: unat_of_nat MAX_TOTAL_SIGCHAIN_def k_def)
  moreover have "k < length bs" "last bs = bs ! k" using assms(1) by (simp_all add: k_def last_conv_nth)
  moreover have "anchor_of cr bs = \<lparr>max_seq = of_nat k, tip_hash = hash cr (last bs)\<rparr>" by (simp only: anchor_of_def k_def)
  ultimately show ?thesis by (simp add: anchored_def nth_append)
qed

text \<open>So a server that keeps the store's contract never makes a device report a rollback.\<close>

lemma reachable_store_anchored:
  assumes "store_ok st" "store_reach cr st st'" "t_roster st \<noteq> []" "roster_len st \<le> MAX_TOTAL_SIGCHAIN"
  shows "anchored cr (map snd (t_roster st')) (anchor_of cr (map snd (t_roster st)))"
proof -
  obtain ext where "t_roster st' = t_roster st @ ext" using store_reach_roster [OF assms(2,1)] by blast
  with anchored_append [of "map snd (t_roster st)" cr "map snd ext"] assms(3,4) show ?thesis by (simp add: roster_len_def)
qed

section \<open>A server that keeps the roster\<close>

locale roster_remote =
  fixes cr :: crypto and R :: "'r remote" and view :: "'r \<Rightarrow> store"
  assumes entry_view: "r_get_roster_entry R i r = (Inr (get_roster_entry (view r) (unat i)), r)"
    and keyslot_view: "r_get_keyslot R d g r = (Inr (get_keyslot (view r) d g), r)"
    and roster_keyhist_view: "r_get_roster_keyhist R g r = (Inr (get_roster_keyhist (view r) g), r)"
    and batch_won: "r_roster_batch R w r = (Inr True, r') \<Longrightarrow> \<exists>n. roster_batch cr (batch_of w) (view r) = (Some n, view r')"
    and batch_lost: "r_roster_batch R w r = (Inr False, r') \<Longrightarrow> view r' = view r"
begin

abbreviation blobs :: "'r \<Rightarrow> bytes list" where
  "blobs r \<equiv> map snd (t_roster (view r))"

lemma entry_nth:
  assumes "store_ok (view r)"
  shows "get_roster_entry (view r) i = (if i < length (blobs r) then Some (blobs r ! i) else None)"
proof -
  let ?m = "t_roster (view r)"
  have m: "map fst ?m = [0..<length ?m]" using store_okD(10) [OF assms] .
  have d: "distinct (map fst ?m)" unfolding m by simp
  have f: "fst (?m ! j) = j" if "j < length ?m" for j using that m by (metis add_0 diff_zero length_upt nth_map nth_upt)
  show ?thesis
  proof (cases "i < length ?m")
    case True
    then have "(i, snd (?m ! i)) \<in> set ?m" using f [OF True] by (metis nth_mem prod.collapse)
    then show ?thesis using True map_of_is_SomeI [OF d] by (simp add: get_roster_entry_def)
  next
    case False
    then have "i \<notin> fst ` set ?m" using m by (metis atLeastLessThan_iff list.set_map set_upt)
    then show ?thesis using False by (simp add: get_roster_entry_def map_of_eq_None_iff)
  qed
qed

lemma fetch_entries_loop_view:
  assumes "store_ok (view r)" "length (blobs r) \<le> MAX_TOTAL_SIGCHAIN"
  shows "sq \<le> length (blobs r) \<Longrightarrow> fetch_entries_loop R sq (take sq (blobs r)) r = Some (Inr (blobs r), r)"
proof (induction "length (blobs r) - sq" arbitrary: sq)
  case 0
  have u: "unat (of_nat sq :: u64) = sq" using 0 assms(2) by (simp add: unat_of_nat MAX_TOTAL_SIGCHAIN_def)
  with 0 assms show ?case
    by (subst fetch_entries_loop.simps) (simp add: repo_call_def entry_view entry_nth)
next
  case (Suc n)
  then have lt: "sq < length (blobs r)" by simp
  have u: "unat (of_nat sq :: u64) = sq" using lt assms(2) by (simp add: unat_of_nat MAX_TOTAL_SIGCHAIN_def)
  have "fetch_entries_loop R (sq + 1) (take (sq + 1) (blobs r)) r = Some (Inr (blobs r), r)" by (rule Suc.hyps) (use Suc lt in auto)
  moreover have "take (sq + 1) (blobs r) = take sq (blobs r) @ [blobs r ! sq]" using lt by (simp add: take_Suc_conv_app_nth)
  ultimately show ?case
    using lt u assms by (subst fetch_entries_loop.simps) (simp add: repo_call_def entry_view entry_nth)
qed

lemma fetch_entries_view:
  "store_ok (view r) \<Longrightarrow> length (blobs r) \<le> MAX_TOTAL_SIGCHAIN \<Longrightarrow> fetch_roster_entries R r = Some (Inr (blobs r), r)"
  using fetch_entries_loop_view [of r 0] by (simp add: fetch_roster_entries_def)

lemma fetch_wraps_view:
  "fetch_wraps (r_get_roster_keyhist R) missing gs h r = Some (Inr h', r1) \<Longrightarrow>
     (\<And>g. get_roster_keyhist (view r') g = get_roster_keyhist (view r) g) \<Longrightarrow>
     r1 = r \<and> fetch_wraps (r_get_roster_keyhist R) missing gs h r' = Some (Inr h', r')"
proof (induction gs arbitrary: h)
  case (Cons g gs)
  from Cons.prems(1) obtain w r2 where w: "r_get_roster_keyhist R (of_nat g) r = (Inr (Some w), r2)"
    "fetch_wraps (r_get_roster_keyhist R) missing gs (bt_insert (of_nat g) w h) r2 = Some (Inr h', r1)"
    by (auto simp: sbind_eq_ok repo_call_ok reading_ok)
  from w(1) roster_keyhist_view [of "of_nat g" r] have "get_roster_keyhist (view r) (of_nat g) = Some w" "r2 = r" by auto
  with Cons.IH w(2) Cons.prems(2) roster_keyhist_view [of "of_nat g" r'] show ?case by (simp add: repo_call_def reading_def)
qed simp

text \<open>What a cold start reads, and when it succeeds.\<close>

lemma fold_reads:
  assumes "repo_fold cr km ss R coins sk rfp prev r = Some (Inr f, r')" "store_ok (view r)" "length (blobs r) \<le> MAX_TOTAL_SIGCHAIN"
  obtains g d ks cand hist where "r' = r" "f_entries f = blobs r" "blobs r \<noteq> []" "blob_gen (last (blobs r)) = Inr g"
    "device_id_of cr ss (sk_public ss sk) = Inr d" "get_keyslot (view r) d g = Some ks"
    "unwrap_keyslot_raw cr km ss (map_option (le_bytes 32) coins) ks g d sk = Inr cand"
    "fetch_wraps (r_get_roster_keyhist R) MissingRosterKeyhist [1..<unat g] [] r = Some (Inr hist, r)"
    "cold_start_fold cr ss cand g rfp hist (blobs r) = Some (Inr (f_state f, f_mk f))"
    "enforce_min_algo (f_state f) = Inr ()" "f_anchor f = anchor_of cr (blobs r)"
proof -
  from assms(1) obtain r1 r2 g d ks cand hist where c: "fetch_roster_entries R r = Some (Inr (f_entries f), r1)" "f_entries f \<noteq> []"
    "blob_gen (last (f_entries f)) = Inr g" "device_id_of cr ss (sk_public ss sk) = Inr d" "r_get_keyslot R d g r1 = (Inr (Some ks), r2)"
    "unwrap_keyslot_raw cr km ss (map_option (le_bytes 32) coins) ks g d sk = Inr cand"
    "fetch_wraps (r_get_roster_keyhist R) MissingRosterKeyhist [1..<unat g] [] r2 = Some (Inr hist, r')"
    "cold_start_fold cr ss cand g rfp hist (f_entries f) = Some (Inr (f_state f, f_mk f))"
    "enforce_min_algo (f_state f) = Inr ()" "f_anchor f = anchor_of cr (f_entries f)"
    by (rule repo_fold_cases)
  have e: "f_entries f = blobs r" "r1 = r" using c(1) fetch_entries_view [OF assms(2,3)] by auto
  have "r2 = r" "get_keyslot (view r) d g = Some ks" using c(5) e by (auto simp: keyslot_view)
  moreover have "r' = r" using fetch_wraps_view [OF c(7) refl] \<open>r2 = r\<close> by simp
  ultimately show ?thesis using that c e by simp
qed

lemma fold_succeeds:
  assumes "store_ok (view r)" "length (blobs r) \<le> MAX_TOTAL_SIGCHAIN" "blobs r \<noteq> []" "blob_gen (last (blobs r)) = Inr g"
    "\<And>p. prev = Some p \<Longrightarrow> anchored cr (blobs r) p"
    "device_id_of cr ss (sk_public ss sk) = Inr d" "get_keyslot (view r) d g = Some ks"
    "unwrap_keyslot_raw cr km ss (map_option (le_bytes 32) coins) ks g d sk = Inr cand"
    "fetch_wraps (r_get_roster_keyhist R) MissingRosterKeyhist [1..<unat g] [] r = Some (Inr hist, r)"
    "cold_start_fold cr ss cand g rfp hist (blobs r) = Some (Inr (st, mk))" "enforce_min_algo st = Inr ()"
  shows "repo_fold cr km ss R coins sk rfp prev r
    = Some (Inr \<lparr>f_mk = mk, f_state = st, f_anchor = anchor_of cr (blobs r), f_entries = blobs r\<rparr>, r)"
proof -
  have "\<not> (case prev of None \<Rightarrow> False | Some p \<Rightarrow> \<not> anchored cr (blobs r) p)" using assms(5) by (cases prev) auto
  then show ?thesis
    using assms by (simp add: repo_fold_def fetch_entries_view reading_def trying_def repo_call_def keyslot_view)
qed

end

interpretation mem_roster: roster_remote cr "MemRemote cr" mr_store for cr
proof unfold_locales
  show "\<exists>n. roster_batch cr (batch_of w) (mr_store r) = (Some n, mr_store r')"
    if "r_roster_batch (MemRemote cr) w r = (Inr True, r')" for w r r'
    using that by (auto simp: MemRemote_def mem_roster_batch_def mem_write_def Let_def split: if_splits prod.splits)
  show "mr_store r' = mr_store r" if "r_roster_batch (MemRemote cr) w r = (Inr False, r')" for w r r'
    using that roster_batch_conflict [of cr "batch_of w" "mr_store r"]
    by (auto simp: MemRemote_def mem_roster_batch_def mem_write_def Let_def split: if_splits prod.splits)
qed (simp_all add: MemRemote_def mem_read_def)

section \<open>Keyslots open for their device\<close>

lemma xwing_keypair_ok:
  "xwing_keypair cr km ss coins sk = Inr (seed, pub) \<longleftrightarrow>
     xwing_seed cr ss sk = Inr seed \<and> XWing_from_seed km coins seed = Inr (seed, pub)"
  by (auto simp: xwing_keypair_def rbind_eq_Inr XWing_from_seed_ok)

lemma keyslot_opens:
  assumes "device_xwing_pub cr km ss coins sk = Inr xpub" "xwing_seed cr ss sk = Inr seed" "kem_agrees km seed eseed"
    "wrap_keyslot cr km (Some eseed) key g d xpub = Inr slot" "length key = 32"
    "device_xwing_pub cr km ss coins' sk = Inr xpub'"
  shows "unwrap_keyslot_raw cr km ss coins' slot g d sk = Inr key"
proof -
  from assms(1,2) obtain pub where p: "XWing_from_seed km coins seed = Inr (seed, pub)" "xpub = XWing_to_bytes pub"
    by (auto simp: device_xwing_pub_def rbind_eq_Inr xwing_keypair_ok)
  have pub: "pub = XWing_public km seed" using p(1) by (simp add: XWing_from_seed_ok)
  from assms(6,2) obtain pub' where p': "xwing_keypair cr km ss coins' sk = Inr (seed, pub')"
    by (auto simp: device_xwing_pub_def rbind_eq_Inr xwing_keypair_ok)
  from assms(4) XWing_bytes_round_trip [OF p(1)] p(2) pub obtain body where "slot = ALGO_XWING # body"
    "wrap_pq cr km (Some eseed) key g d (XWing_public km seed) = Inr body"
    by (auto simp: wrap_keyslot_def rbind_eq_Inr)
  with wrap_unwrap [OF assms(3) _ assms(5)] p' show ?thesis by (simp add: unwrap_keyslot_raw_def)
qed

section \<open>Sealed entries in the chain\<close>

lemma length_op_img: "op_wf op \<Longrightarrow> length (op_img op) \<le> 3 * MAX_ROSTER_ENTRY_SIZE"
  by (cases op) (simp_all add: MAX_ROSTER_ENTRY_SIZE_def)

lemma sealed_entry_opens:
  assumes "entry_wf e" "encode_entry e = Some pt" "seal_entry cr (map_option (le_bytes 32) salt) rk g sq pt = Inr blob"
  shows "blob_gen blob = Inr g" "open_entry cr rk g sq blob = Inr pt" "decode_entry pt = Inr e"
proof -
  from assms(3) obtain z where "salt = Some z" "blob = seal_entry_with_salt cr rk g sq (le_bytes 32 z) pt"
    by (auto simp: seal_entry_def rbind_eq_Inr)
  moreover define s where "s = le_bytes 32 z"
  ultimately have s: "length s = ROSTER_ENTRY_SALT_LEN" "blob = seal_entry_with_salt cr rk g sq s pt"
    by (simp_all add: ROSTER_ENTRY_SALT_LEN_def)
  let ?f = "Frame_v2 g TRosterEntry"
  let ?k = "roster_entry_key_v2 cr rk sq s" and ?ad = "ad_roster_v2 ?f sq s"
  have b: "blob = Frame_encode ?f @ s @ fst (seal cr ?k ?ad pt) @ snd (seal cr ?k ?ad pt)"
    by (simp add: s(2) seal_entry_with_salt_def Let_def case_prod_beta)
  have "length pt \<le> 5 * MAX_ROSTER_ENTRY_SIZE"
    using encode_entry_img [OF assms(1)] assms(1,2) length_op_img [of "e_op e"]
    by (auto simp: signed_img_def entry_wf_def MAX_ROSTER_ENTRY_SIZE_def)
  then have len: "length blob \<le> MAX_BLOB_SIZE"
    using s(1) ctx.ct_length [of cr ?k ?ad pt] ctx.tag_length [of cr ?k ?ad pt]
    by (simp add: b ROSTER_ENTRY_SALT_LEN_def MAX_BLOB_SIZE_def FRAME_LEN_def MAX_ROSTER_ENTRY_SIZE_def)
  show "blob_gen blob = Inr g" by (simp add: b blob_gen_def Frame_decode_encode)
  show "open_entry cr rk g sq blob = Inr pt" using len s unfolding open_entry_iff by blast
  show "decode_entry pt = Inr e" using assms(1,2) by (simp add: decode_entry_iff)
qed

lemma open_entries_snoc:
  "open_entries cr keys sq (bs @ [b]) = Inr es' \<longleftrightarrow>
     (\<exists>es g rk pt e. open_entries cr keys sq bs = Inr es \<and> blob_gen b = Inr g \<and> map_of keys g = Some rk
        \<and> open_entry cr rk g (of_nat (sq + length bs)) b = Inr pt \<and> decode_entry pt = Inr e \<and> es' = es @ [e])"
proof (induction bs arbitrary: sq es')
  case (Cons c bs)
  have "open_entries cr keys sq (c # bs @ [b]) = Inr es' \<longleftrightarrow> (\<exists>g rk pt e es. blob_gen c = Inr g \<and> map_of keys g = Some rk
    \<and> open_entry cr rk g (of_nat sq) c = Inr pt \<and> decode_entry pt = Inr e \<and> open_entries cr keys (sq + 1) (bs @ [b]) = Inr es \<and> es' = e # es)"
    by (auto simp: rbind_eq_Inr)
  also have "\<dots> \<longleftrightarrow> (\<exists>es g rk pt e. open_entries cr keys sq (c # bs) = Inr es \<and> blob_gen b = Inr g \<and> map_of keys g = Some rk
        \<and> open_entry cr rk g (of_nat (sq + length (c # bs))) b = Inr pt \<and> decode_entry pt = Inr e \<and> es' = es @ [e])"
    unfolding Cons.IH by (auto simp: rbind_eq_Inr)
  finally show ?case by simp
qed (auto simp: rbind_eq_Inr)

lemma peel_loop_keeps:
  "peel_loop ow g k hs keys = Inr out \<Longrightarrow> g \<le> unat (c :: u32) \<Longrightarrow> map_of out c = map_of keys c"
proof (induction ow g k hs keys rule: peel_loop.induct)
  case (1 ow g k hs keys)
  show ?case
  proof (cases "1 < g")
    case True
    with "1.prems"(1) obtain w prev where w: "map_of hs (of_nat (g - 1)) = Some w" "ow k (of_nat (g - 1)) w = Inr prev"
      "peel_loop ow (g - 1) prev hs (bt_insert (of_nat (g - 1)) prev keys) = Inr out"
      by (subst (asm) peel_loop.simps) (auto simp: rbind_eq_Inr)
    have "unat (of_nat (g - 1) :: u32) \<le> g - 1" by (simp add: unat_of_nat)
    then have "c \<noteq> of_nat (g - 1)" using "1.prems"(2) True by auto
    moreover have "map_of out c = map_of (bt_insert (of_nat (g - 1)) prev keys) c"
      by (rule "1.IH" [OF True _ w(2,3)]) (use w(1) "1.prems"(2) in auto)
    ultimately show ?thesis by simp
  next
    case False
    with "1.prems"(1) show ?thesis by (subst (asm) peel_loop.simps) simp
  qed
qed

lemma peel_roster_keys_current: "peel_roster_keys cr rk g hs = Inr keys \<Longrightarrow> map_of keys g = Some rk"
  unfolding peel_roster_keys_def using peel_loop_keeps [of _ "unat g"] by fastforce

lemma cold_start_fold_ok:
  "cold_start_fold cr ss cand g rfp hist bs = Some (Inr (st, mk)) \<longleftrightarrow>
     bs \<noteq> [] \<and> mk = MasterKey_new g cand \<and> blob_gen (last bs) = Inr g \<and> map_of (mk_commits st) g = Some (mk_commit cr mk)
     \<and> (\<exists>keys es. peel_roster_keys cr (roster_key cr mk) g hist = Inr keys \<and> open_entries cr keys 0 bs = Inr es
          \<and> fold_chain cr ss es rfp = Some (Inr st))"
  by (auto simp: cold_start_fold_def Let_def orbind_eq_ok split: if_splits)

lemma cold_start_extends:
  assumes "peel_roster_keys cr (roster_key cr mk) g hist = Inr keys" "open_entries cr keys 0 bs = Inr es" "fold_chain cr ss es rfp = Some (Inr st)"
    "bs \<noteq> []" "mk = MasterKey_new g cand" "entry_wf e" "encode_entry e = Some pt"
    "seal_entry cr (map_option (le_bytes 32) salt) (roster_key cr mk) g (of_nat (length bs)) pt = Inr blob"
    "fold_entry cr ss (length bs) (last es) e st = Some (Inr st')" "map_of (mk_commits st') g = Some (mk_commit cr mk)"
  shows "cold_start_fold cr ss cand g rfp hist (bs @ [blob]) = Some (Inr (st', mk))"
proof -
  note s = sealed_entry_opens [OF assms(6-8)]
  have len: "length es = length bs" using open_entries_nth [OF assms(2)] by simp
  then have "es \<noteq> []" using assms(4) by auto
  have "open_entries cr keys 0 (bs @ [blob]) = Inr (es @ [e])"
    using assms(2) s peel_roster_keys_current [OF assms(1)] by (simp add: open_entries_snoc)
  moreover have "fold_chain cr ss (es @ [e]) rfp = Some (Inr st')"
    using fold_chain_append [OF \<open>es \<noteq> []\<close>, of cr ss "[e]" rfp] assms(3,9) len by simp
  ultimately show ?thesis unfolding cold_start_fold_ok using assms(1,5,10) s(1) by (simp del: open_entries.simps)
qed

text \<open>
  The documented behaviour of the \<open>ssh-key\<close> library for one device key: its public key is Ed25519 and
  parses back from its canonical bytes, which like its signatures are small.
\<close>

definition device_key_ok :: "ssh \<Rightarrow> bytes \<Rightarrow> bool" where
  "device_key_ok ss sk \<longleftrightarrow> pk_is_ed25519 ss (sk_public ss sk)
     \<and> (\<forall>c. pk_to_bytes ss (sk_public ss sk) = Some c \<longrightarrow> pk_from_bytes ss c = Some (sk_public ss sk) \<and> length c \<le> MAX_ROSTER_ENTRY_SIZE)
     \<and> (\<forall>ns msg sg. ssh_sign ss sk ns msg = Some sg \<longrightarrow> length sg \<le> MAX_ROSTER_ENTRY_SIZE)"

lemma device_key_ok_canonical:
  assumes "device_key_ok ss sk" "DevicePublic_to_canonical ss (sk_public ss sk) = Inr c"
  shows "DevicePublic_from_canonical ss c = Inr (sk_public ss sk)" "length c \<le> MAX_ROSTER_ENTRY_SIZE"
  using assms by (auto simp: device_key_ok_def DevicePublic_to_canonical_def DevicePublic_from_canonical_def)

lemma append_entry_wf:
  assumes "append_entry cr ss prev op sk ts = Some (Inr e)" "device_key_ok ss sk" "op_wf op"
  shows "entry_wf e" "e_seq e = e_seq prev + 1" "e_op e = op"
  using assms
  by (auto simp: append_entry_def Let_def orbind_eq_ok bind_eq_Some_conv DeviceKey_sign_def entry_wf_def entry_hash_def device_key_ok_def
      length_device_id split: if_splits)

lemma length_device_xwing_pub: "device_xwing_pub cr km ss coins sk = Inr xpub \<Longrightarrow> length xpub = ML_KEM_PK_LEN + X_LEN"
  by (auto simp: device_xwing_pub_def rbind_eq_Inr xwing_keypair_ok XWing_from_seed_ok XWing_to_bytes_def)

lemma tip_of_view:
  assumes "peel_roster_keys cr (roster_key cr (f_mk f)) g hist = Inr keys" "open_entries cr keys 0 bs = Inr es" "bs \<noteq> []"
    "blob_gen (last bs) = Inr g" "f_entries f = bs" "f_anchor f = anchor_of cr bs" "generation (f_mk f) = g"
  shows "tip_entry cr f = Inr (last es)" "length es = length bs" "entry_wf (last es)"
proof -
  note n = open_entries_nth [OF assms(2)]
  show len: "length es = length bs" using n by simp
  have last: "last bs = bs ! (length bs - 1)" "last es = es ! (length bs - 1)" using assms(3) len last_conv_nth [of bs] last_conv_nth [of es] by fastforce+
  have "length bs - 1 < length bs" using assms(3) by simp
  with n obtain g' rk pt where 1: "blob_gen (last bs) = Inr g'" "map_of keys g' = Some rk"
    "open_entry cr rk g' (of_nat (length bs - 1)) (last bs) = Inr pt" "decode_entry pt = Inr (last es)"
    unfolding last by (metis add_0)
  have "g' = g" "rk = roster_key cr (f_mk f)" using 1(1,2) assms(4) peel_roster_keys_current [OF assms(1)] by auto
  with 1 assms(3,5-7) show "tip_entry cr f = Inr (last es)" by (simp add: tip_entry_def anchor_of_def)
  show "entry_wf (last es)" using 1(4) by (simp add: decode_entry_iff)
qed

lemma genesis_folds:
  assumes "genesis cr ss sk xpub mkc ts = Some (Inr (e, rfp))" "signs_verifiably ss" "device_key_ok ss sk"
    "device_id_of cr ss (sk_public ss sk) = Inr d" "length xpub = ML_KEM_PK_LEN + X_LEN" "length mkc = 32"
  shows "entry_wf e" "fold_chain cr ss [e] rfp = Some (Inr \<lparr>members = [(d, sk_public ss sk)], ever_members = [(d, sk_public ss sk)], rs_generation = 1,
    min_algo = MIN_ALGO_ID, mk_commits = [(1, mkc)], added_by = [], added_at = [],
    enroll_pubs = (if xpub = [] then [] else [(d, xpub)]), tip_seq = 0\<rparr>)"
proof -
  from assms(1,4) obtain canon msg sg where g: "DevicePublic_to_canonical ss (sk_public ss sk) = Inr canon"
    "signed_bytes 0 (replicate 32 0) (Genesis canon mkc xpub) ts d = Some msg" "ssh_sign ss sk NS_ROSTER msg = Some sg"
    "e = \<lparr>e_seq = 0, e_prev = replicate 32 0, e_op = Genesis canon mkc xpub, e_ts = ts, e_signer = d, e_sig = sg\<rparr>" "entry_hash cr e = Some rfp"
    by (auto simp: genesis_def Let_def orbind_eq_ok bind_eq_Some_conv DeviceKey_sign_def)
  note c = device_key_ok_canonical [OF assms(3) g(1)]
  show "entry_wf e" using c(2) assms(3,5,6) g(3) length_device_id [OF assms(4)]
    by (auto simp: entry_wf_def g(4) device_key_ok_def MAX_ROSTER_ENTRY_SIZE_def ML_KEM_PK_LEN_def X_LEN_def)
  have "DevicePublic_verify ss (sk_public ss sk) NS_ROSTER msg sg = Inr ()"
    using assms(2) g(3) by (simp add: DevicePublic_verify_iff signs_verifiably_def)
  then have "verify_entry_sig ss (sk_public ss sk) e = Some (Inr ())" using g(2) by (simp add: verify_entry_sig_def g(4))
  then show "fold_chain cr ss [e] rfp = Some (Inr \<lparr>members = [(d, sk_public ss sk)], ever_members = [(d, sk_public ss sk)], rs_generation = 1,
    min_algo = MIN_ALGO_ID, mk_commits = [(1, mkc)], added_by = [], added_at = [],
    enroll_pubs = (if xpub = [] then [] else [(d, xpub)]), tip_seq = 0\<rparr>)"
    using g(5) c(1) assms(4) by (simp add: fold_genesis_def g(4))
qed

context roster_remote
begin

lemma single_write_applied:
  assumes "store_ok (view r)" "length d = 32"
    "roster_batch cr (batch_of (empty_write\<lparr>w_old_tip := tip, w_entries := [blob], w_keyslots := [\<lparr>ks_device_id = d, ks_gen = g, ks_blob = ks\<rparr>]\<rparr>)) (view r)
      = (Some n, view r')"
  shows "blobs r' = blobs r @ [blob]" "get_keyslot (view r') d g = Some ks" "store_ok (view r')"
    "\<And>g. get_roster_keyhist (view r') g = get_roster_keyhist (view r) g"
proof -
  let ?b = "batch_of (empty_write\<lparr>w_old_tip := tip, w_entries := [blob], w_keyslots := [\<lparr>ks_device_id = d, ks_gen = g, ks_blob = ks\<rparr>]\<rparr>)"
  have ok: "batch_ok ?b" using assms(2) by (simp add: batch_ok_def batch_of_def empty_write_def)
  have f: "fst (roster_batch cr ?b (view r)) = Some n" "view r' = snd (roster_batch cr ?b (view r))" using assms(3) by simp_all
  note ap = roster_batch_applied [OF assms(1) ok f(1), folded f(2)]
  show "blobs r' = blobs r @ [blob]" using ap(3) by (simp add: batch_of_def)
  show "get_keyslot (view r') d g = Some ks" using ap(4) by (simp add: get_keyslot_def batch_of_def)
  show "store_ok (view r')" using roster_batch_ok [OF assms(1) ok, of cr] f(2) by simp
  show "get_roster_keyhist (view r') g = get_roster_keyhist (view r) g" for g
    using ap(6) by (simp add: get_roster_keyhist_def batch_of_def empty_write_def insert_wrap_def)
qed

lemma roster_tip_view:
  assumes "store_ok (view r)" "blobs r \<noteq> []"
  shows "fst (roster_tip cr (view r)) = hash cr (last (blobs r))"
proof -
  have "map_of (t_roster (view r)) (roster_len (view r) - 1) = Some (last (blobs r))"
    using entry_nth [OF assms(1), of "length (blobs r) - 1"] assms(2) last_conv_nth [OF assms(2)] by (simp add: get_roster_entry_def roster_len_def)
  then show ?thesis using assms(2) by (simp add: roster_tip_def roster_len_def)
qed

lemma fold_unique:
  assumes "repo_fold cr km ss R coins sk rfp prev r = Some (Inr f, r1)" "repo_fold cr km ss R coins' sk rfp prev' r = Some (Inr f', r2)"
    "store_ok (view r)" "length (blobs r) \<le> MAX_TOTAL_SIGCHAIN"
  shows "f' = f"
proof -
  from assms(1,3,4) obtain g d ks cand hist where a: "f_entries f = blobs r" "blob_gen (last (blobs r)) = Inr g"
    "device_id_of cr ss (sk_public ss sk) = Inr d" "get_keyslot (view r) d g = Some ks"
    "unwrap_keyslot_raw cr km ss (map_option (le_bytes 32) coins) ks g d sk = Inr cand"
    "fetch_wraps (r_get_roster_keyhist R) MissingRosterKeyhist [1..<unat g] [] r = Some (Inr hist, r)"
    "cold_start_fold cr ss cand g rfp hist (blobs r) = Some (Inr (f_state f, f_mk f))" "f_anchor f = anchor_of cr (blobs r)"
    by (rule fold_reads)
  from assms(2,3,4) obtain g' d' ks' cand' hist' where b: "f_entries f' = blobs r" "blob_gen (last (blobs r)) = Inr g'"
    "device_id_of cr ss (sk_public ss sk) = Inr d'" "get_keyslot (view r) d' g' = Some ks'"
    "unwrap_keyslot_raw cr km ss (map_option (le_bytes 32) coins') ks' g' d' sk = Inr cand'"
    "fetch_wraps (r_get_roster_keyhist R) MissingRosterKeyhist [1..<unat g'] [] r = Some (Inr hist', r)"
    "cold_start_fold cr ss cand' g' rfp hist' (blobs r) = Some (Inr (f_state f', f_mk f'))" "f_anchor f' = anchor_of cr (blobs r)"
    by (rule fold_reads)
  have same: "g' = g" "d' = d" "ks' = ks" using a b by auto
  then have "cand' = cand" using a(5) b(5)
    by (auto simp: unwrap_keyslot_raw_def rbind_eq_Inr xwing_keypair_ok split: list.splits if_splits)
  moreover have "hist' = hist" using a(6) b(6) same by simp
  ultimately have "f_state f' = f_state f" "f_mk f' = f_mk f" using a(7) b(7) same by simp_all
  with a(1,8) b(1,8) show ?thesis by simp
qed

text \<open>The anchor of a view stays valid on a store that only appends to its roster.\<close>

lemma reopens:
  assumes "repo_fold cr km ss R coins sk rfp prev r = Some (Inr f, r1)" "store_ok (view r)" "length (blobs r) \<le> MAX_TOTAL_SIGCHAIN"
  shows "repo_fold cr km ss R coins sk rfp (Some (f_anchor f)) r = Some (Inr f, r)"
proof -
  from assms obtain g d ks cand hist where a: "f_entries f = blobs r" "blobs r \<noteq> []" "blob_gen (last (blobs r)) = Inr g"
    "device_id_of cr ss (sk_public ss sk) = Inr d" "get_keyslot (view r) d g = Some ks"
    "unwrap_keyslot_raw cr km ss (map_option (le_bytes 32) coins) ks g d sk = Inr cand"
    "fetch_wraps (r_get_roster_keyhist R) MissingRosterKeyhist [1..<unat g] [] r = Some (Inr hist, r)"
    "cold_start_fold cr ss cand g rfp hist (blobs r) = Some (Inr (f_state f, f_mk f))" "enforce_min_algo (f_state f) = Inr ()" "f_anchor f = anchor_of cr (blobs r)"
    by (rule fold_reads)
  have "anchored cr (blobs r @ []) (anchor_of cr (blobs r))" by (rule anchored_append [OF a(2) assms(3)])
  then have "repo_fold cr km ss R coins sk rfp (Some (f_anchor f)) r
      = Some (Inr \<lparr>f_mk = f_mk f, f_state = f_state f, f_anchor = anchor_of cr (blobs r), f_entries = blobs r\<rparr>, r)"
    by (intro fold_succeeds [OF assms(2,3) a(2,3) _ a(4-9)]) (simp add: a(10))
  then show ?thesis using a(1,10) by simp
qed

lemma grant_attempt_enrolls:
  assumes g: "grant_attempt cr km ss R rng sk rfp d canon xpub ts prev r = Some (Inr (a, k, Some anchor), r')"
    and ok: "store_ok (view r)" "length (blobs r) < MAX_TOTAL_SIGCHAIN" "signs_verifiably ss" "device_key_ok ss sk" "device_key_ok ss jk"
    and me: "repo_fold cr km ss R coins0 sk rfp None r = Some (Inr f, r0)" "device_id_of cr ss (sk_public ss sk) = Inr me"
      "map_of (members (f_state f)) me = Some (sk_public ss sk)" "rs_generation (f_state f) = generation (f_mk f)"
    and joiner: "device_id_of cr ss (sk_public ss jk) = Inr d" "DevicePublic_to_canonical ss (sk_public ss jk) = Inr canon"
      "device_xwing_pub cr km ss c jk = Inr xpub" "xwing_seed cr ss jk = Inr seed"
      "\<And>w. dr_eseed rng 0 = Some w \<Longrightarrow> kem_agrees km seed (le_bytes 64 w)"
      "device_xwing_pub cr km ss (map_option (le_bytes 32) coins) jk = Inr xpub'"
  shows "\<exists>st. repo_fold cr km ss R coins jk rfp None r' = Some (Inr \<lparr>f_mk = f_mk f, f_state = st, f_anchor = anchor, f_entries = blobs r'\<rparr>, r')
    \<and> members st = bt_insert d (sk_public ss jk) (members (f_state f)) \<and> blobs r' \<noteq> [] \<and> butlast (blobs r') = blobs r"
proof -
  have len: "length (blobs r) \<le> MAX_TOTAL_SIGCHAIN" using ok(2) by simp
  let ?mk = "f_mk f"
  let ?g = "generation ?mk" and ?op = "AddDevice canon (mk_commit cr (f_mk f)) xpub"
  from g obtain f1 r1 tip e pt blob ks where
    at: "repo_fold cr km ss R (dr_coins rng) sk rfp prev r = Some (Inr f1, r1)" "tip_entry cr f1 = Inr tip"
    "append_entry cr ss tip (AddDevice canon (mk_commit cr (f_mk f1)) xpub) sk ts = Some (Inr e)" "encode_entry e = Some pt"
    "seal_entry cr (map_option (le_bytes 32) (dr_salt rng 0)) (roster_key cr (f_mk f1)) (generation (f_mk f1)) (e_seq e) pt = Inr blob"
    "wrap_keyslot cr km (map_option (le_bytes 64) (dr_eseed rng 0)) (mk_key (f_mk f1)) (generation (f_mk f1)) d xpub = Inr ks"
    "r_roster_batch R (empty_write\<lparr>w_old_tip := tip_hash (f_anchor f1), w_entries := [blob],
         w_keyslots := [\<lparr>ks_device_id = d, ks_gen = generation (f_mk f1), ks_blob = ks\<rparr>]\<rparr>) r1 = (Inr True, r')"
    "anchor = \<lparr>max_seq = e_seq e, tip_hash = hash cr blob\<rparr>"
    by (auto simp: grant_attempt_def Let_def sbind_eq_ok reading_ok trying_ok repo_call_ok bind_eq_Some_conv split: if_splits)
  have f1: "f1 = f" by (rule fold_unique [OF me(1) at(1) ok(1) len])
  from at(1) ok(1) len have "r1 = r" by (rule fold_reads)
  from me(1) ok(1) len obtain g d0 ks0 cand hist where v: "f_entries f = blobs r" "blobs r \<noteq> []" "blob_gen (last (blobs r)) = Inr g"
    "unwrap_keyslot_raw cr km ss (map_option (le_bytes 32) coins0) ks0 g d0 sk = Inr cand"
    "fetch_wraps (r_get_roster_keyhist R) MissingRosterKeyhist [1..<unat g] [] r = Some (Inr hist, r)"
    "cold_start_fold cr ss cand g rfp hist (blobs r) = Some (Inr (f_state f, ?mk))"
    "enforce_min_algo (f_state f) = Inr ()" "f_anchor f = anchor_of cr (blobs r)"
    by (rule fold_reads)
  have mk: "?mk = MasterKey_new g cand" using v(6) by (simp add: cold_start_fold_ok)
  then have gen: "?g = g" "mk_key ?mk = cand" by (simp_all add: MasterKey_new_def)
  have lc: "length cand = 32" using v(4)
    by (auto simp: unwrap_keyslot_raw_def rbind_eq_Inr unwrap_iff split: list.splits if_splits)
  from v(6) obtain keys es where o: "peel_roster_keys cr (roster_key cr ?mk) g hist = Inr keys" "open_entries cr keys 0 (blobs r) = Inr es"
    "fold_chain cr ss es rfp = Some (Inr (f_state f))" "map_of (mk_commits (f_state f)) g = Some (mk_commit cr ?mk)"
    by (auto simp: cold_start_fold_ok)
  note t = tip_of_view [OF o(1,2) v(2) v(3) v(1) v(8) gen(1)]
  have tip: "tip = last es" "length es = length (blobs r)" using t(1,2) at(2) f1 by simp_all
  have seq: "e_seq tip + 1 = of_nat (length (blobs r))"
    using fold_chain_last_seq [OF o(3)] tip(2) v(2) unfolding tip(1) by (metis Suc_diff_1 length_greater_0_conv of_nat_Suc add.commute)
  have wf: "op_wf ?op" using device_key_ok_canonical(2) [OF ok(5) joiner(2)] length_device_xwing_pub [OF joiner(3)]
    by (simp add: mk_commit_def MAX_ROSTER_ENTRY_SIZE_def ML_KEM_PK_LEN_def X_LEN_def)
  note e = append_entry_wf [OF at(3) [unfolded f1] ok(4) wf]
  let ?st = "(f_state f)\<lparr>members := bt_insert d (sk_public ss jk) (members (f_state f)), ever_members := bt_insert d (sk_public ss jk) (ever_members (f_state f)),
        added_by := bt_insert d (e_signer e) (added_by (f_state f)), added_at := bt_insert d (e_seq e) (added_at (f_state f)),
        enroll_pubs := (if xpub = [] then bt_remove d (enroll_pubs (f_state f)) else bt_insert d xpub (enroll_pubs (f_state f))), tip_seq := e_seq e\<rparr>"
  have "fold_entry cr ss (length (blobs r)) tip e (f_state f) = Some (Inr ?st)"
    using append_entry_folds(3) [OF ok(3) at(3) [unfolded f1] me(2,3) seq] o(4) me(4) gen(1) device_key_ok_canonical(1) [OF ok(5) joiner(2)] joiner(1)
    by simp
  then have cs: "cold_start_fold cr ss cand g rfp hist (blobs r @ [blob]) = Some (Inr (?st, ?mk))"
    using cold_start_extends [OF o(1,2,3) v(2) mk e(1) at(4), of "dr_salt rng 0" blob ?st] at(5) o(4) e(2) seq tip(1) gen(1) f1 by simp
  have bg: "blob_gen blob = Inr g" using sealed_entry_opens(1) [OF e(1) at(4,5)] f1 gen(1) by simp
  have d32: "length d = 32" using length_device_id joiner(1) by blast
  from batch_won [OF at(7)] obtain n where "roster_batch cr (batch_of (empty_write\<lparr>w_old_tip := tip_hash (f_anchor f), w_entries := [blob],
         w_keyslots := [\<lparr>ks_device_id = d, ks_gen = g, ks_blob = ks\<rparr>]\<rparr>)) (view r) = (Some n, view r')" unfolding \<open>r1 = r\<close> f1 gen by blast
  note w = single_write_applied [OF ok(1) d32 this]
  from at(6) obtain es where es: "dr_eseed rng 0 = Some es" by (cases "dr_eseed rng 0") (auto simp: wrap_keyslot_def wrap_pq_def encapsulate_def rbind_eq_Inr)
  have u: "unwrap_keyslot_raw cr km ss (map_option (le_bytes 32) coins) ks g d jk = Inr cand"
    using keyslot_opens [OF joiner(3,4) joiner(5) [OF es] _ lc joiner(6)] at(6) es f1 gen by simp
  have "repo_fold cr km ss R coins jk rfp None r' = Some (Inr \<lparr>f_mk = ?mk, f_state = ?st, f_anchor = anchor_of cr (blobs r'), f_entries = blobs r'\<rparr>, r')"
  proof (rule fold_succeeds)
    show "fetch_wraps (r_get_roster_keyhist R) MissingRosterKeyhist [1..<unat g] [] r' = Some (Inr hist, r')"
      using fetch_wraps_view [OF v(5) w(4)] by simp
    show "enforce_min_algo ?st = Inr ()" using v(7) by (simp add: enforce_min_algo_def split: if_splits)
    show "blobs r' \<noteq> []" "blob_gen (last (blobs r')) = Inr g" using w(1) bg by simp_all
    show "length (blobs r') \<le> MAX_TOTAL_SIGCHAIN" using w(1) ok(2) by simp
    show "cold_start_fold cr ss cand g rfp hist (blobs r') = Some (Inr (?st, ?mk))" using cs w(1) by simp
  qed (use w u joiner(1) in simp_all)
  moreover have "anchor_of cr (blobs r') = anchor" using w(1) at(8) e(2) seq by (simp add: anchor_of_def)
  ultimately show ?thesis using w(1) by (intro exI [of _ ?st]) simp
qed

lemma fold_view_only:
  assumes "repo_fold cr km ss R coins sk rfp None r = Some (Inr f, r1)" "store_ok (view r)" "length (blobs r) \<le> MAX_TOTAL_SIGCHAIN" "view r' = view r"
  shows "repo_fold cr km ss R coins sk rfp None r' = Some (Inr f, r')"
proof -
  from assms(1-3) obtain g d ks cand hist where a: "f_entries f = blobs r" "blobs r \<noteq> []" "blob_gen (last (blobs r)) = Inr g"
    "device_id_of cr ss (sk_public ss sk) = Inr d" "get_keyslot (view r) d g = Some ks"
    "unwrap_keyslot_raw cr km ss (map_option (le_bytes 32) coins) ks g d sk = Inr cand"
    "fetch_wraps (r_get_roster_keyhist R) MissingRosterKeyhist [1..<unat g] [] r = Some (Inr hist, r)"
    "cold_start_fold cr ss cand g rfp hist (blobs r) = Some (Inr (f_state f, f_mk f))" "enforce_min_algo (f_state f) = Inr ()" "f_anchor f = anchor_of cr (blobs r)"
    by (rule fold_reads)
  have "fetch_wraps (r_get_roster_keyhist R) MissingRosterKeyhist [1..<unat g] [] r' = Some (Inr hist, r')"
    using fetch_wraps_view [OF a(7), of r'] assms(4) by simp
  from fold_succeeds [OF _ _ _ _ _ a(4) _ a(6) this _ a(9), of "None"] a(2,3,5,8) assms(2-4)
  have "repo_fold cr km ss R coins sk rfp None r' = Some (Inr \<lparr>f_mk = f_mk f, f_state = f_state f, f_anchor = anchor_of cr (blobs r), f_entries = blobs r\<rparr>, r')"
    by simp
  then show ?thesis using a(1,10) by simp
qed

lemma grant_attempt_lost:
  assumes "grant_attempt cr km ss R rng sk rfp d canon xpub ts prev r = Some (Inr (a, k, None), r')" "store_ok (view r)" "length (blobs r) \<le> MAX_TOTAL_SIGCHAIN"
  shows "view r' = view r"
proof -
  from assms(1) obtain f r1 w where f: "repo_fold cr km ss R (dr_coins rng) sk rfp prev r = Some (Inr f, r1)" "r_roster_batch R w r1 = (Inr False, r')"
    by (auto simp: grant_attempt_def Let_def sbind_eq_ok reading_ok trying_ok repo_call_ok bind_eq_Some_conv split: if_splits)
  from f(1) assms(2,3) have "r1 = r" by (rule fold_reads)
  with batch_lost [OF f(2)] show ?thesis by simp
qed

lemma grant_enrolls_view:
  assumes g: "grant_device_remote cr km ss R rng sk rfp prev (sk_public ss jk) xpub ts r = Some (Inr anchor, r')"
    and ok: "store_ok (view r)" "length (blobs r) < MAX_TOTAL_SIGCHAIN" "signs_verifiably ss" "device_key_ok ss sk" "device_key_ok ss jk"
    and me: "repo_fold cr km ss R coins0 sk rfp None r = Some (Inr f, r0)" "device_id_of cr ss (sk_public ss sk) = Inr me"
      "map_of (members (f_state f)) me = Some (sk_public ss sk)" "rs_generation (f_state f) = generation (f_mk f)"
    and joiner: "device_id_of cr ss (sk_public ss jk) = Inr d"
      "device_xwing_pub cr km ss c jk = Inr xpub" "xwing_seed cr ss jk = Inr seed"
      "\<forall>n w. dr_eseed (rng n) 0 = Some w \<longrightarrow> kem_agrees km seed (le_bytes 64 w)"
      "device_xwing_pub cr km ss (map_option (le_bytes 32) coins) jk = Inr xpub'"
  shows "\<exists>st. repo_fold cr km ss R coins jk rfp None r' = Some (Inr \<lparr>f_mk = f_mk f, f_state = st, f_anchor = anchor, f_entries = blobs r'\<rparr>, r')
    \<and> members st = bt_insert d (sk_public ss jk) (members (f_state f)) \<and> blobs r' \<noteq> [] \<and> butlast (blobs r') = blobs r"
proof -
  from g joiner(1) obtain canon where c: "DevicePublic_to_canonical ss (sk_public ss jk) = Inr canon"
    "retry (\<lambda>n. grant_attempt cr km ss R (rng n) sk rfp d canon xpub ts) 0 prev None r = Some (Inr anchor, r')"
    by (auto simp: grant_device_remote_def sbind_eq_ok reading_ok)
  have len: "length (blobs r) \<le> MAX_TOTAL_SIGCHAIN" using ok(2) by simp
  obtain m p s a k where at: "grant_attempt cr km ss R (rng m) sk rfp d canon xpub ts p s = Some (Inr (a, k, Some anchor), r')" "view s = view r"
  proof (rule retry_won [OF c(2), of "\<lambda>s. view s = view r"])
    show "view s' = view r" if "grant_attempt cr km ss R (rng n) sk rfp d canon xpub ts p s = Some (Inr (anc, k, None), s')" "view s = view r"
      for n p s anc k s' using grant_attempt_lost [OF that(1)] that(2) ok(1) len by simp
  qed auto
  have "repo_fold cr km ss R coins0 sk rfp None s = Some (Inr f, s)" by (rule fold_view_only [OF me(1) ok(1) len at(2)])
  from grant_attempt_enrolls [OF at(1) _ _ ok(3-5) this me(2-4) joiner(1) c(1) joiner(2,3) _ joiner(5)] ok(1,2) joiner(4) at(2) show ?thesis by simp
qed

lemma init_opens_view:
  assumes i: "init_repo_remote cr km ss R rng sk ts r = Some (Inr rfp, r')"
    and ok: "store_ok (view r)" "blobs r = []" "signs_verifiably ss" "device_key_ok ss sk"
    and me: "device_id_of cr ss (sk_public ss sk) = Inr d" "xwing_seed cr ss sk = Inr seed"
      "\<And>w. dr_eseed rng 0 = Some w \<Longrightarrow> kem_agrees km seed (le_bytes 64 w)"
      "device_xwing_pub cr km ss (map_option (le_bytes 32) coins) sk = Inr xpub'"
  shows "\<exists>f. repo_fold cr km ss R coins sk rfp None r' = Some (Inr f, r') \<and> members (f_state f) = [(d, sk_public ss sk)]
    \<and> generation (f_mk f) = 1 \<and> rs_generation (f_state f) = 1 \<and> length (f_entries f) = 1 \<and> store_ok (view r') \<and> f_entries f = blobs r'"
proof -
  from i obtain key xpub e pt blob ks where it: "map_option (le_bytes 32) (dr_key rng) = Some key"
    "device_xwing_pub cr km ss (map_option (le_bytes 32) (dr_coins rng)) sk = Inr xpub"
    "genesis cr ss sk xpub (mk_commit cr (MasterKey_new 1 key)) ts = Some (Inr (e, rfp))" "encode_entry e = Some pt"
    "seal_entry cr (map_option (le_bytes 32) (dr_salt rng 0)) (roster_key cr (MasterKey_new 1 key)) 1 0 pt = Inr blob"
    "wrap_keyslot cr km (map_option (le_bytes 64) (dr_eseed rng 0)) key 1 d xpub = Inr ks"
    "r_roster_batch R (empty_write\<lparr>w_old_tip := ABSENT_HEAD, w_entries := [blob],
           w_keyslots := [\<lparr>ks_device_id = d, ks_gen = 1, ks_blob = ks\<rparr>]\<rparr>) r = (Inr True, r')"
    using me(1) by (auto simp: init_repo_remote_def Let_def sbind_eq_ok reading_ok trying_ok bind_eq_Some_conv genesis_outcome_ok)
  let ?mk = "MasterKey_new 1 key"
  have key: "length key = 32" using it(1) by auto
  have mkc: "length (mk_commit cr ?mk) = 32" by (simp add: mk_commit_def)
  note gn = genesis_folds [OF it(3) ok(3,4) me(1) length_device_xwing_pub [OF it(2)] mkc]
  note s = sealed_entry_opens [OF gn(1) it(4,5)]
  let ?st = "\<lparr>members = [(d, sk_public ss sk)], ever_members = [(d, sk_public ss sk)], rs_generation = 1,
    min_algo = MIN_ALGO_ID, mk_commits = [(1, mk_commit cr ?mk)], added_by = [], added_at = [],
    enroll_pubs = (if xpub = [] then [] else [(d, xpub)]), tip_seq = 0\<rparr>"
  have "open_entries cr [(1, roster_key cr ?mk)] 0 [blob] = Inr [e]" using s by simp
  then have cs: "cold_start_fold cr ss key 1 rfp [] [blob] = Some (Inr (?st, ?mk))"
    unfolding cold_start_fold_ok using s(1) gn(2) peel_one [of cr "roster_key cr ?mk" "[]"] by (simp del: open_entries.simps fold_chain.simps)
  have d32: "length d = 32" using length_device_id me(1) by blast
  from batch_won [OF it(7)] obtain n where "roster_batch cr (batch_of (empty_write\<lparr>w_old_tip := ABSENT_HEAD, w_entries := [blob],
         w_keyslots := [\<lparr>ks_device_id = d, ks_gen = 1, ks_blob = ks\<rparr>]\<rparr>)) (view r) = (Some n, view r')" by blast
  note w = single_write_applied [OF ok(1) d32 this]
  have bl: "blobs r' = [blob]" using w(1) ok(2) by simp
  from it(6) obtain es where es: "dr_eseed rng 0 = Some es" by (cases "dr_eseed rng 0") (auto simp: wrap_keyslot_def wrap_pq_def encapsulate_def rbind_eq_Inr)
  have u: "unwrap_keyslot_raw cr km ss (map_option (le_bytes 32) coins) ks 1 d sk = Inr key"
    using keyslot_opens [OF it(2) me(2) me(3) [OF es] _ key me(4)] it(6) es by simp
  have "repo_fold cr km ss R coins sk rfp None r' = Some (Inr \<lparr>f_mk = ?mk, f_state = ?st, f_anchor = anchor_of cr (blobs r'), f_entries = blobs r'\<rparr>, r')"
    by (rule fold_succeeds [of _ 1 _ _ _ d ks _ _ key "[]"])
      (use bl s(1) w me(1) u cs in \<open>simp_all add: MAX_TOTAL_SIGCHAIN_def enforce_min_algo_def ALGO_XWING_def MIN_ALGO_ID_def\<close>)
  then show ?thesis using bl w(3) by (simp add: MasterKey_new_def)
qed

end

section \<open>Properties\<close>

text \<open>
  C4: a reopened roster extends the one seen before. When a device cold-starts against the anchor of
  an earlier view, from any server, and succeeds, then the new chain has the earlier one as its
  beginning, entry by entry. The exceptions are collisions: of BLAKE3 on the two blobs at the
  anchor, of the commitment of that blob under the two roster keys, or of BLAKE3 on two entries at
  one position.
\<close>

theorem reopened_roster_extends:
  assumes "repo_fold cr km ss R coins sk rfp prev r = Some (Inr f, r')"
    "repo_fold cr km ss R' coins' sk' rfp' (Some (f_anchor f)) s = Some (Inr f', s')"
  shows "\<exists>keys es keys' es'. view_opens cr ss rfp f keys es \<and> view_opens cr ss rfp' f' keys' es' \<and> length es \<le> length es'
    \<and> (take (length es) es' = es
       \<or> hash_clash cr (last (f_entries f)) (f_entries f' ! (length es - 1))
       \<or> (\<exists>g rk rk'. map_of keys g = Some rk \<and> map_of keys' g = Some rk'
            \<and> keyed_clash cr (entry_commitment cr rk g (of_nat (length es - 1)) (last (f_entries f)))
                (entry_commitment cr rk' g (of_nat (length es - 1)) (last (f_entries f))))
       \<or> (\<exists>(e, e') \<in> set (zip es es'). entry_clash cr e e'))"
proof -
  obtain keys es where v: "view_opens cr ss rfp f keys es" using assms(1) by (rule repo_fold_opens)
  obtain keys' es' where v': "view_opens cr ss rfp' f' keys' es'" using assms(2) by (rule repo_fold_opens)
  from assms(1) obtain r1 where b: "fetch_roster_entries R r = Some (Inr (f_entries f), r1)" "f_entries f \<noteq> []" "f_anchor f = anchor_of cr (f_entries f)"
    by (rule repo_fold_cases)
  from assms(2) have an: "anchored cr (f_entries f') (f_anchor f)" by (rule repo_fold_cases) blast
  let ?n = "length (f_entries f)" and ?b = "last (f_entries f)" and ?b' = "f_entries f' ! (length (f_entries f) - 1)"
  have "?n \<le> MAX_TOTAL_SIGCHAIN" using fetch_entries_loop_bound [of R 0 "[]"] b(1) by (simp add: fetch_roster_entries_def)
  then have "unat (of_nat (?n - 1) :: u64) = ?n - 1" by (simp add: unat_of_nat MAX_TOTAL_SIGCHAIN_def)
  with an b(3) have at: "?n - 1 < length (f_entries f')" "hash cr ?b' = hash cr ?b" by (simp_all add: anchored_def anchor_of_def)
  note o = open_entries_nth [of cr keys 0 "f_entries f" es] and o' = open_entries_nth [of cr keys' 0 "f_entries f'" es']
  have len: "length es = ?n" "length es' = length (f_entries f')" and wf: "list_all entry_wf es" "list_all entry_wf es'"
    using o o' v v' by (simp_all add: view_opens_def)
  have le: "length es \<le> length es'" using at(1) len b(2) by simp
  have ne: "?n - 1 < ?n" using b(2) by simp
  have last: "?b = f_entries f ! (?n - 1)" using b(2) by (simp add: last_conv_nth)
  consider (clash) "hash_clash cr ?b ?b'" | (same) "?b' = ?b" using at(2) unfolding hash_clash_def by metis
  then have "take (length es) es' = es \<or> hash_clash cr ?b ?b'
     \<or> (\<exists>g rk rk'. map_of keys g = Some rk \<and> map_of keys' g = Some rk'
          \<and> keyed_clash cr (entry_commitment cr rk g (of_nat (?n - 1)) ?b) (entry_commitment cr rk' g (of_nat (?n - 1)) ?b))
     \<or> (\<exists>(e, e') \<in> set (zip es es'). entry_clash cr e e')"
  proof cases
    case same
    obtain g rk pt where 1: "blob_gen ?b = Inr g" "map_of keys g = Some rk" "open_entry cr rk g (of_nat (?n - 1)) ?b = Inr pt" "decode_entry pt = Inr (es ! (?n - 1))"
      using o v ne last by (auto simp: view_opens_def)
    obtain g' rk' pt' where 2: "blob_gen ?b' = Inr g'" "map_of keys' g' = Some rk'" "open_entry cr rk' g' (of_nat (?n - 1)) ?b' = Inr pt'"
      "decode_entry pt' = Inr (es' ! (?n - 1))" using o' v' at(1) by (auto simp: view_opens_def)
    have "g' = g" using 1(1) 2(1) same by simp
    from open_entry_one [OF 1(3) 2(3) [unfolded same this]] consider "pt = pt'"
      | "keyed_clash cr (entry_commitment cr rk g (of_nat (?n - 1)) ?b) (entry_commitment cr rk' g (of_nat (?n - 1)) ?b)" by blast
    then show ?thesis
    proof cases
      case 1
      have n: "es' \<noteq> []" "es \<noteq> []" using le len b(2) by auto
      have t: "take (length es) es' \<noteq> []" using n by simp
      have "fold_chain cr ss (take (length es) es' @ drop (length es) es') rfp' = Some (Inr (f_state f'))" using v' by (simp add: view_opens_def)
      then obtain st where st: "fold_chain cr ss (take (length es) es') rfp' = Some (Inr st)"
        unfolding fold_chain_append [OF t] orbind_eq_ok by blast
      have "es' ! (?n - 1) = es ! (?n - 1)" using 1 \<open>decode_entry pt = _\<close> \<open>decode_entry pt' = _\<close> by simp
      then have "last (take (length es) es') = last es" using n le len(1) ne last_conv_nth [OF t] by (simp add: last_conv_nth)
      then have "es = take (length es) es' \<or> (\<exists>(e, e') \<in> set (zip es (take (length es) es')). entry_clash cr e e')"
        using fold_chain_determined [OF _ st, of es rfp] v le wf by (auto simp: view_opens_def list_all_iff dest: in_set_takeD)
      moreover have "zip es (take (length es) es') = zip es es'" using take_zip [of "length es" es es'] le by simp
      ultimately show ?thesis by auto
    next
      case 2
      then show ?thesis using \<open>map_of keys g = _\<close> \<open>map_of keys' g' = _\<close> \<open>g' = g\<close> by blast
    qed
  qed blast
  note d = this [folded len(1)]
  show ?thesis
    by (rule exI [of _ keys], rule exI [of _ es], rule exI [of _ keys'], rule exI [of _ es']) (intro conjI v v' le d)
qed

text \<open>
  C6: the creator of a repository can open it. When \<open>init_repo_remote\<close> succeeded on a server without a
  roster, a cold start of the same device under the returned fingerprint succeeds: it returns a key
  of generation 1 and a roster in which this device is the only member. Assumed are the signature
  library's and the key agreement's documented behaviour for this device's keys.
\<close>

theorem init_opens:
  assumes "init_repo_remote cr km ss (MemRemote cr) rng sk ts r = Some (Inr rfp, r')"
    and "store_ok (mr_store r)" "t_roster (mr_store r) = []" "signs_verifiably ss" "device_key_ok ss sk"
    and "device_id_of cr ss (sk_public ss sk) = Inr d" "xwing_seed cr ss sk = Inr seed"
      "\<And>w. dr_eseed rng 0 = Some w \<Longrightarrow> kem_agrees km seed (le_bytes 64 w)"
      "device_xwing_pub cr km ss (map_option (le_bytes 32) coins) sk = Inr xpub'"
  shows "\<exists>mk st a. open_repo_remote cr km ss (MemRemote cr) coins sk rfp None r' = Some (Inr (mk, st, a), r')
    \<and> members st = [(d, sk_public ss sk)] \<and> generation mk = 1 \<and> rs_generation st = 1"
proof -
  from mem_roster.init_opens_view [OF assms(1,2) _ assms(4-9)] assms(3) obtain f where
    "repo_fold cr km ss (MemRemote cr) coins sk rfp None r' = Some (Inr f, r')" "members (f_state f) = [(d, sk_public ss sk)]"
    "generation (f_mk f) = 1" "rs_generation (f_state f) = 1" by auto
  then show ?thesis by (simp add: open_repo_remote_def)
qed

text \<open>
  C5: a granted device is enrolled. A member's grant to a joining device returns on a server that keeps
  the roster's contract only if the chain there was extended by one entry, and then the joiner's
  cold start succeeds under the same fingerprint: it returns the member's own master key, a roster
  with the joiner and every earlier member in it, and the anchor the grant returned.
\<close>

theorem grant_enrolls:
  assumes "grant_device_remote cr km ss (MemRemote cr) rng sk rfp prev (sk_public ss jk) xpub ts r = Some (Inr anchor, r')"
    and "store_ok (mr_store r)" "roster_len (mr_store r) < MAX_TOTAL_SIGCHAIN" "signs_verifiably ss" "device_key_ok ss sk" "device_key_ok ss jk"
    and "open_repo_remote cr km ss (MemRemote cr) coins0 sk rfp None r = Some (Inr (mk, st, a), r0)" "device_id_of cr ss (sk_public ss sk) = Inr me"
      "map_of (members st) me = Some (sk_public ss sk)" "rs_generation st = generation mk"
    and "device_id_of cr ss (sk_public ss jk) = Inr d" "device_xwing_pub cr km ss c jk = Inr xpub" "xwing_seed cr ss jk = Inr seed"
      "\<And>n w. dr_eseed (rng n) 0 = Some w \<Longrightarrow> kem_agrees km seed (le_bytes 64 w)"
      "device_xwing_pub cr km ss (map_option (le_bytes 32) coins) jk = Inr xpub'"
  shows "\<exists>st'. open_repo_remote cr km ss (MemRemote cr) coins jk rfp None r' = Some (Inr (mk, st', anchor), r')
    \<and> (\<forall>x. map_of (members st') x = (if x = d then Some (sk_public ss jk) else map_of (members st) x))
    \<and> roster_len (mr_store r') = roster_len (mr_store r) + 1"
proof -
  from assms(7) obtain f where f: "repo_fold cr km ss (MemRemote cr) coins0 sk rfp None r = Some (Inr f, r0)" "mk = f_mk f" "st = f_state f"
    by (auto simp: open_repo_remote_def sbind_eq_ok)
  have len: "length (map snd (t_roster (mr_store r))) < MAX_TOTAL_SIGCHAIN" using assms(3) by (simp add: roster_len_def)
  have k: "\<forall>n w. dr_eseed (rng n) 0 = Some w \<longrightarrow> kem_agrees km seed (le_bytes 64 w)" using assms(14) by blast
  from mem_roster.grant_enrolls_view [OF assms(1,2) len assms(4-6) f(1) assms(8) assms(9,10) [unfolded f(2,3)] assms(11-13) k assms(15)] obtain st' where
    o: "repo_fold cr km ss (MemRemote cr) coins jk rfp None r'
      = Some (Inr \<lparr>f_mk = f_mk f, f_state = st', f_anchor = anchor, f_entries = map snd (t_roster (mr_store r'))\<rparr>, r')"
    "members st' = bt_insert d (sk_public ss jk) (members (f_state f))" "t_roster (mr_store r') \<noteq> []"
    "butlast (map snd (t_roster (mr_store r'))) = map snd (t_roster (mr_store r))" by auto
  have "roster_len (mr_store r') = roster_len (mr_store r) + 1"
    using o(3) arg_cong [OF o(4), of length] by (simp add: roster_len_def flip: length_greater_0_conv)
  with o(1,2) f(2,3) show ?thesis by (simp add: open_repo_remote_def)
qed

section \<open>An example\<close>

definition toy_kem :: kem where
  "toy_kem = \<lparr>shake256_96 = (\<lambda>_. 0), sha3_256 = (\<lambda>_. 0), mlkem_generate = (\<lambda>_. ([], 0)), mlkem_encapsulate = (\<lambda>_ _. (0, 0)),
     mlkem_decapsulate = (\<lambda>_ _. 0), mlkem_validate = (\<lambda>_. True), x25519_public = (\<lambda>_. 0), x25519_dh = (\<lambda>_ _. 0)\<rparr>"

definition toy_rng :: draws where
  "toy_rng = \<lparr>dr_coins = Some 0, dr_key = Some 0, dr_salt = (\<lambda>_. Some 0), dr_eseed = (\<lambda>_. Some 0), dr_nonce = Some 0, dr_coins_after = Some 0\<rparr>"

lemma toy_kem_agrees: "kem_agrees toy_kem seed eseed"
  by (simp add: kem_agrees_def toy_kem_def case_prod_beta Let_def)

definition toy_seed :: "bytes \<Rightarrow> bytes" where
  "toy_seed sk = derive_secret toy_crypto L_XWING_SEED sk"

lemma toy_xwing_seed: "xwing_seed toy_crypto toy_ssh sk = Inr (toy_seed sk)"
  by (simp add: xwing_seed_def ed25519_seed_def toy_ssh_def toy_seed_def)

lemma toy_from_seed: "XWing_from_seed toy_kem (Some c) seed = Inr (seed, XWing_public toy_kem seed)"
  by (simp add: XWing_from_seed_ok pairwise_consistency_check_def XWing_public_def mlkem_keypair_def toy_kem_def case_prod_beta Let_def)

lemma toy_xwing_pub: "device_xwing_pub toy_crypto toy_kem toy_ssh (Some c) sk = Inr (XWing_to_bytes (XWing_public toy_kem (toy_seed sk)))"
  by (simp add: device_xwing_pub_def xwing_keypair_def toy_xwing_seed toy_from_seed)

lemma toy_wrap: "\<exists>ks. wrap_keyslot toy_crypto toy_kem (Some es) key g d (XWing_to_bytes (XWing_public toy_kem seed)) = Inr ks"
  using XWing_bytes_round_trip [OF toy_from_seed [of "[]" seed]] by (auto simp: wrap_keyslot_def wrap_pq_def encapsulate_def rbind_eq_Inr case_prod_beta Let_def)

lemma toy_key_ok: "length sk \<le> MAX_ROSTER_ENTRY_SIZE \<Longrightarrow> device_key_ok toy_ssh sk"
  by (simp add: device_key_ok_def toy_ssh_def)

lemma toy_device:
  "sk_public toy_ssh sk = sk" "device_id_of toy_crypto toy_ssh pk = Inr (hash toy_crypto pk)"
  "DevicePublic_to_canonical toy_ssh pk = Inr pk" "DeviceKey_sign toy_ssh sk ns msg = Inr []"
  by (simp_all add: device_id_of_def DevicePublic_to_canonical_def DeviceKey_sign_def toy_ssh_def)

lemma mem_batch_wins:
  assumes "fst (roster_tip cr (mr_store r)) = tip" "mr_refuse r = 0"
  shows "\<exists>r'. r_roster_batch (MemRemote cr) (empty_write\<lparr>w_old_tip := tip, w_entries := es, w_keyslots := ks\<rparr>) r = (Inr True, r') \<and> mr_refuse r' = 0"
  using assms by (simp add: MemRemote_def mem_roster_batch_def mem_write_def roster_batch_def batch_of_def empty_write_def head_cas_ok_def wrap_free_def
      Let_def case_prod_beta)

lemma toy_init:
  "\<exists>rfp r. init_repo_remote toy_crypto toy_kem toy_ssh (MemRemote toy_crypto) toy_rng [5] 0 (MemRemote_new Store_empty) = Some (Inr rfp, r)
     \<and> mr_refuse r = 0"
proof -
  let ?key = "le_bytes 32 (0 :: 256 word)"
  let ?mk = "MasterKey_new 1 ?key" and ?xp = "XWing_to_bytes (XWing_public toy_kem (toy_seed [5]))" and ?d = "hash toy_crypto [5]"
  let ?op = "Genesis [5] (mk_commit toy_crypto ?mk) ?xp"
  have wf: "op_wf ?op" by (simp add: mk_commit_def XWing_to_bytes_def MAX_ROSTER_ENTRY_SIZE_def ML_KEM_PK_LEN_def X_LEN_def)
  let ?e = "\<lparr>e_seq = 0, e_prev = replicate 32 0, e_op = ?op, e_ts = 0, e_signer = ?d, e_sig = []\<rparr>"
  have ewf: "entry_wf ?e" using wf by (simp add: entry_wf_def MAX_ROSTER_ENTRY_SIZE_def)
  obtain rfp where rfp: "entry_hash toy_crypto ?e = Some rfp" using entry_hash_wf [OF ewf] by blast
  have gn: "genesis toy_crypto toy_ssh [5] ?xp (mk_commit toy_crypto ?mk) 0 = Some (Inr (?e, rfp))"
    using rfp by (simp only: genesis_def toy_device map_err.simps orbind.simps Let_def signed_bytes_img [OF wf] bind.bind_lunit option.map)
  obtain pt where pt: "encode_entry ?e = Some pt" using encode_entry_img [OF ewf] by blast
  obtain blob where b: "seal_entry toy_crypto (Some (le_bytes 32 (0 :: 256 word))) (roster_key toy_crypto ?mk) 1 0 pt = Inr blob" by (simp add: seal_entry_def)
  obtain ks where ks: "wrap_keyslot toy_crypto toy_kem (Some (le_bytes 64 (0 :: 512 word))) ?key 1 ?d ?xp = Inr ks" using toy_wrap by blast
  obtain r where r: "r_roster_batch (MemRemote toy_crypto) (empty_write\<lparr>w_old_tip := ABSENT_HEAD, w_entries := [blob],
       w_keyslots := [\<lparr>ks_device_id = ?d, ks_gen = 1, ks_blob = ks\<rparr>]\<rparr>) (MemRemote_new Store_empty) = (Inr True, r)" "mr_refuse r = 0"
    using mem_batch_wins [of toy_crypto "MemRemote_new Store_empty" ABSENT_HEAD] by (auto simp: MemRemote_new_def roster_tip_def roster_len_def Store_empty_def)
  have "init_repo_remote toy_crypto toy_kem toy_ssh (MemRemote toy_crypto) toy_rng [5] 0 (MemRemote_new Store_empty) = Some (Inr rfp, r)"
    using toy_xwing_pub gn pt b ks r(1)
    by (simp add: init_repo_remote_def toy_device toy_rng_def reading_def trying_def genesis_outcome_def Let_def)
  with r(2) show ?thesis by blast
qed

lemma toy_no_roster: "t_roster Store_empty = []"
  by (simp add: Store_empty_def)

lemma toy_opened:
  assumes "init_repo_remote toy_crypto toy_kem toy_ssh (MemRemote toy_crypto) toy_rng [5] 0 (MemRemote_new Store_empty) = Some (Inr rfp, r)"
  shows "\<exists>f. repo_fold toy_crypto toy_kem toy_ssh (MemRemote toy_crypto) (Some 0) [5] rfp None r = Some (Inr f, r) \<and> members (f_state f) = [(hash toy_crypto [5], [5])]
    \<and> generation (f_mk f) = 1 \<and> rs_generation (f_state f) = 1 \<and> length (f_entries f) = 1 \<and> store_ok (mr_store r) \<and> f_entries f = mem_roster.blobs r"
  by (rule mem_roster.init_opens_view [OF assms, where coins = "Some 0", unfolded toy_device])
    (simp_all add: MemRemote_new_def Store_empty_ok toy_signs toy_key_ok MAX_ROSTER_ENTRY_SIZE_def toy_xwing_seed toy_kem_agrees toy_xwing_pub toy_no_roster)

theorem init_opens_witness:
  "\<exists>rfp r mk st a. init_repo_remote toy_crypto toy_kem toy_ssh (MemRemote toy_crypto) toy_rng [5] 0 (MemRemote_new Store_empty) = Some (Inr rfp, r)
     \<and> open_repo_remote toy_crypto toy_kem toy_ssh (MemRemote toy_crypto) (Some 0) [5] rfp None r = Some (Inr (mk, st, a), r)
     \<and> is_member st (hash toy_crypto [5])"
proof -
  obtain rfp r where i: "init_repo_remote toy_crypto toy_kem toy_ssh (MemRemote toy_crypto) toy_rng [5] 0 (MemRemote_new Store_empty) = Some (Inr rfp, r)"
    using toy_init by blast
  have "\<exists>mk st a. open_repo_remote toy_crypto toy_kem toy_ssh (MemRemote toy_crypto) (Some 0) [5] rfp None r = Some (Inr (mk, st, a), r)
    \<and> members st = [(hash toy_crypto [5], sk_public toy_ssh [5])] \<and> generation mk = 1 \<and> rs_generation st = 1"
    by (rule init_opens [OF i]) (simp_all add: MemRemote_new_def Store_empty_ok toy_no_roster toy_signs toy_key_ok MAX_ROSTER_ENTRY_SIZE_def toy_device toy_xwing_seed
        toy_kem_agrees toy_xwing_pub)
  with i show ?thesis by (auto simp: is_member_def)
qed

theorem reopened_roster_extends_witness:
  "\<exists>rfp r f keys es keys' es'. repo_fold toy_crypto toy_kem toy_ssh (MemRemote toy_crypto) (Some 0) [5] rfp (Some (f_anchor f)) r = Some (Inr f, r)
     \<and> view_opens toy_crypto toy_ssh rfp f keys es \<and> view_opens toy_crypto toy_ssh rfp f keys' es' \<and> length es \<le> length es'"
proof -
  obtain rfp r where i: "init_repo_remote toy_crypto toy_kem toy_ssh (MemRemote toy_crypto) toy_rng [5] 0 (MemRemote_new Store_empty) = Some (Inr rfp, r)"
    using toy_init by blast
  from toy_opened [OF i] obtain f where f: "repo_fold toy_crypto toy_kem toy_ssh (MemRemote toy_crypto) (Some 0) [5] rfp None r = Some (Inr f, r)"
    "length (f_entries f) = 1" "store_ok (mr_store r)" "f_entries f = mem_roster.blobs r" by blast
  have "length (mem_roster.blobs r) \<le> MAX_TOTAL_SIGCHAIN" using f(2,4) by (simp add: MAX_TOTAL_SIGCHAIN_def)
  note f' = mem_roster.reopens [OF f(1,3) this]
  from reopened_roster_extends [OF f(1) f'] f' show ?thesis by blast
qed

lemma toy_grant:
  assumes i: "init_repo_remote toy_crypto toy_kem toy_ssh (MemRemote toy_crypto) toy_rng [5] 0 (MemRemote_new Store_empty) = Some (Inr rfp, r)" "mr_refuse r = 0"
  shows "\<exists>a r'. grant_device_remote toy_crypto toy_kem toy_ssh (MemRemote toy_crypto) (\<lambda>_. toy_rng) [5] rfp None [6]
      (XWing_to_bytes (XWing_public toy_kem (toy_seed [6]))) 0 r = Some (Inr a, r')"
proof -
  from toy_opened [OF i(1)] obtain f where f: "repo_fold toy_crypto toy_kem toy_ssh (MemRemote toy_crypto) (Some 0) [5] rfp None r = Some (Inr f, r)"
    "length (f_entries f) = 1" "store_ok (mr_store r)" "f_entries f = mem_roster.blobs r" "generation (f_mk f) = 1" by blast
  let ?xp = "XWing_to_bytes (XWing_public toy_kem (toy_seed [6]))" and ?op = "AddDevice [6] (mk_commit toy_crypto (f_mk f)) (XWing_to_bytes (XWing_public toy_kem (toy_seed [6])))"
  from f(1) obtain g cand hist where v: "f_entries f \<noteq> []" "blob_gen (last (f_entries f)) = Inr g"
    "cold_start_fold toy_crypto toy_ssh cand g rfp hist (f_entries f) = Some (Inr (f_state f, f_mk f))" "f_anchor f = anchor_of toy_crypto (f_entries f)"
    by (rule repo_fold_cases)
  from v(3) obtain keys es where o: "peel_roster_keys toy_crypto (roster_key toy_crypto (f_mk f)) g hist = Inr keys"
    "open_entries toy_crypto keys 0 (f_entries f) = Inr es" "fold_chain toy_crypto toy_ssh es rfp = Some (Inr (f_state f))" "f_mk f = MasterKey_new g cand"
    by (auto simp: cold_start_fold_ok)
  have gen: "generation (f_mk f) = g" using o(4) by (simp add: MasterKey_new_def)
  note t = tip_of_view [OF o(1,2) v(1,2) refl v(4) gen]
  have sq: "e_seq (last es) \<noteq> - 1" using fold_chain_last_seq [OF o(3)] t(2) f(2) by simp
  have wf: "op_wf ?op" by (simp add: mk_commit_def XWing_to_bytes_def MAX_ROSTER_ENTRY_SIZE_def ML_KEM_PK_LEN_def X_LEN_def)
  obtain e where e: "append_entry toy_crypto toy_ssh (last es) ?op [5] 0 = Some (Inr e)" using toy_append [OF t(3) wf sq] by blast
  have "entry_wf e" by (rule append_entry_wf [OF e toy_key_ok wf]) (simp add: MAX_ROSTER_ENTRY_SIZE_def)
  then obtain pt where pt: "encode_entry e = Some pt" using encode_entry_img by blast
  obtain blob where b: "seal_entry toy_crypto (Some (le_bytes 32 (0 :: 256 word))) (roster_key toy_crypto (f_mk f)) (generation (f_mk f)) (e_seq e) pt = Inr blob"
    by (simp add: seal_entry_def)
  obtain ks where ks: "wrap_keyslot toy_crypto toy_kem (Some (le_bytes 64 (0 :: 512 word))) (mk_key (f_mk f)) (generation (f_mk f)) (hash toy_crypto [6]) ?xp = Inr ks"
    using toy_wrap by blast
  have ne: "mem_roster.blobs r \<noteq> []" using f(4) v(1) by metis
  have "fst (roster_tip toy_crypto (mr_store r)) = tip_hash (f_anchor f)"
    using mem_roster.roster_tip_view [OF f(3) ne, of toy_crypto] v(4) f(4) by (simp add: anchor_of_def)
  then obtain r' where r': "r_roster_batch (MemRemote toy_crypto) (empty_write\<lparr>w_old_tip := tip_hash (f_anchor f), w_entries := [blob],
       w_keyslots := [\<lparr>ks_device_id = hash toy_crypto [6], ks_gen = generation (f_mk f), ks_blob = ks\<rparr>]\<rparr>) r = (Inr True, r')"
    using mem_batch_wins i(2) by blast
  have at: "grant_attempt toy_crypto toy_kem toy_ssh (MemRemote toy_crypto) toy_rng [5] rfp (hash toy_crypto [6]) [6] ?xp 0 None r
      = Some (Inr (f_anchor f, tip_hash (f_anchor f), Some \<lparr>max_seq = e_seq e, tip_hash = hash toy_crypto blob\<rparr>), r')"
    using f(1) t(1) e pt b ks r' by (simp add: grant_attempt_def toy_rng_def reading_def trying_def repo_call_def Let_def)
  have x: "XWing_from_bytes toy_kem ?xp = Inr (XWing_public toy_kem (toy_seed [6]))" by (rule XWing_bytes_round_trip [OF toy_from_seed [of "[]"]])
  have "grant_device_remote toy_crypto toy_kem toy_ssh (MemRemote toy_crypto) (\<lambda>_. toy_rng) [5] rfp None [6] ?xp 0 r
      = Some (Inr \<lparr>max_seq = e_seq e, tip_hash = hash toy_crypto blob\<rparr>, r')"
    using at x by (simp add: grant_device_remote_def reading_def toy_device retry.simps)
  then show ?thesis by blast
qed

theorem grant_enrolls_witness:
  "\<exists>rfp r a r' mk st. init_repo_remote toy_crypto toy_kem toy_ssh (MemRemote toy_crypto) toy_rng [5] 0 (MemRemote_new Store_empty) = Some (Inr rfp, r)
     \<and> grant_device_remote toy_crypto toy_kem toy_ssh (MemRemote toy_crypto) (\<lambda>_. toy_rng) [5] rfp None [6]
         (XWing_to_bytes (XWing_public toy_kem (toy_seed [6]))) 0 r = Some (Inr a, r')
     \<and> open_repo_remote toy_crypto toy_kem toy_ssh (MemRemote toy_crypto) (Some 0) [6] rfp None r' = Some (Inr (mk, st, a), r')
     \<and> is_member st (hash toy_crypto [6]) \<and> roster_len (mr_store r') = 2"
proof -
  let ?xp = "XWing_to_bytes (XWing_public toy_kem (toy_seed [6]))"
  obtain rfp r where i: "init_repo_remote toy_crypto toy_kem toy_ssh (MemRemote toy_crypto) toy_rng [5] 0 (MemRemote_new Store_empty) = Some (Inr rfp, r)" "mr_refuse r = 0"
    using toy_init by blast
  from toy_grant [OF i] obtain a r' where g: "grant_device_remote toy_crypto toy_kem toy_ssh (MemRemote toy_crypto) (\<lambda>_. toy_rng) [5] rfp None
      (sk_public toy_ssh [6]) ?xp 0 r = Some (Inr a, r')" unfolding toy_device by blast
  from toy_opened [OF i(1)] obtain f where f: "repo_fold toy_crypto toy_kem toy_ssh (MemRemote toy_crypto) (Some 0) [5] rfp None r = Some (Inr f, r)"
    "members (f_state f) = [(hash toy_crypto [5], [5])]" "generation (f_mk f) = 1" "rs_generation (f_state f) = 1" "length (f_entries f) = 1"
    "store_ok (mr_store r)" "f_entries f = mem_roster.blobs r" by blast
  have o: "open_repo_remote toy_crypto toy_kem toy_ssh (MemRemote toy_crypto) (Some 0) [5] rfp None r = Some (Inr (f_mk f, f_state f, f_anchor f), r)"
    using f(1) by (simp add: open_repo_remote_def)
  have len: "roster_len (mr_store r) = 1" using f(5,7) by (simp add: roster_len_def)
  have "\<exists>st'. open_repo_remote toy_crypto toy_kem toy_ssh (MemRemote toy_crypto) (Some 0) [6] rfp None r' = Some (Inr (f_mk f, st', a), r')
    \<and> (\<forall>x. map_of (members st') x = (if x = hash toy_crypto [6] then Some (sk_public toy_ssh [6]) else map_of (members (f_state f)) x))
    \<and> roster_len (mr_store r') = roster_len (mr_store r) + 1"
    by (rule grant_enrolls [OF g f(6) _ toy_signs _ _ o, where c = "Some []" and coins = "Some 0" and me = "hash toy_crypto [5]"])
      (simp_all add: len MAX_TOTAL_SIGCHAIN_def toy_key_ok MAX_ROSTER_ENTRY_SIZE_def toy_device f(2-4) toy_xwing_seed toy_kem_agrees toy_xwing_pub)
  with i(1) g len show ?thesis unfolding toy_device is_member_def by fastforce
qed

end
