(* ===== verification/Snapshot.thy ===== *)
theory Snapshot
  imports Engine Chunk
begin

text \<open>
  The scanner of \<open>crates/secsec-snapshot\<close>: \<open>snapshot_tree\<close> and what it calls. A working folder is
  a value \<open>fnode\<close>: what the names of a directory stand for. What the operating system answers beside
  that is the record \<open>os\<close>: which directory listings, metadata look-ups and opens fail, with which
  error (a file deleted between the listing and the open is a \<open>NotFound\<close> here), how the reads of a
  file deliver its content, the clock, and the random salts. A walk asks each of these once per path,
  so a function of the path is general. Paths are lists of names from the folder down. The build is
  the Unix one: \<open>cfg!(windows)\<close> is false. A message of \<open>skipped\<close> is a \<open>skip_note\<close>.
\<close>

section \<open>The folder and the operating system\<close>

datatype fnode =
    FFile (f_mode: u32) (f_mtime: u64) (f_content: bytes)
  | FDir (f_mode: u32) (f_mtime: u64) (f_kids: "(bytes \<times> fnode) list")
  | FOther

type_synonym kids = "(bytes \<times> fnode) list"

record os =
  os_read_dir :: "bytes list \<Rightarrow> io_error option"
  os_stat :: "bytes list \<Rightarrow> io_error option"
  os_open :: "bytes list \<Rightarrow> io_error option"
  os_read :: "bytes list \<Rightarrow> bytes \<Rightarrow> io_error read_event list"
  os_salt :: "nat \<Rightarrow> 128 word option"
  os_now :: u64

datatype skip_note =
    TooManyChunks "bytes list" nat
  | Unreadable "bytes list" io_error

section \<open>Names\<close>

definition TMP_PREFIX :: bytes where "TMP_PREFIX = ascii ''.secsec-tmp-''"
definition OS_NAME_MAX :: nat where "OS_NAME_MAX = 255"

definition is_tmp :: "bytes \<Rightarrow> bool" where
  "is_tmp name \<longleftrightarrow> take (length TMP_PREFIX) name = TMP_PREFIX"

text \<open>On Unix a name is one \<open>Component::Normal\<close> equal to itself exactly under these conditions.\<close>

definition single_component :: "bytes \<Rightarrow> bool" where
  "single_component name \<longleftrightarrow> name \<noteq> [] \<and> name \<noteq> [46] \<and> name \<noteq> [46, 46] \<and> 47 \<notin> set name"

definition is_materializable :: "bytes \<Rightarrow> bool" where
  "is_materializable name \<longleftrightarrow>
     single_component name \<and> is_safe_entry_name name \<and> \<not> is_tmp name \<and> length name \<le> OS_NAME_MAX"

fun join_path :: "bytes list \<Rightarrow> bytes" where
  "join_path [] = []"
| "join_path [n] = n"
| "join_path (n # p) = n @ [47] @ join_path p"

section \<open>Limits, state and context\<close>

record limits =
  max_chunks_per_file :: nat
  max_fanout :: nat
  max_blob :: nat

definition SPEC :: limits where
  "SPEC = \<lparr>max_chunks_per_file = MAX_CHUNKS_PER_FILE, max_fanout = MAX_TREE_FANOUT, max_blob = MAX_BLOB_SIZE\<rparr>"

record prior =
  pr_root :: bytes
  pr_salt :: bytes
  pr_fast_path :: bool

type_synonym snapshot_memo = "(bytes list, u64 \<times> u64) btree"

record snap_state =
  ss_store :: store
  ss_memo :: snapshot_memo
  ss_skipped :: "skip_note list"
  ss_draws :: nat
  ss_log :: "(obj_type \<times> bytes \<times> bytes) list"

text \<open>
  \<open>ss_log\<close> is not part of the program: it records what the walk seals (type, salt and plaintext), so
  that a property can say which objects it speaks about.
\<close>

record snap_ctx =
  sc_keys :: master_keys
  sc_mk :: master_key
  sc_chunker :: chunker
  sc_fast_path :: bool
  sc_limits :: limits
  sc_os :: os

record snapshot =
  sn_root :: bytes
  sn_salt :: bytes
  sn_skipped :: "skip_note list"

definition mode_of :: "u32 \<Rightarrow> u32" where "mode_of m = m AND 511"

definition random_salt :: "os \<Rightarrow> snap_state \<Rightarrow> ((snap_error + bytes) \<times> snap_state) option" where
  "random_salt os s =
     Some (map_err (\<lambda>_. SnapRng) (ok_or () (map_option (le_bytes 16) (os_salt os (ss_draws s)))),
           s\<lparr>ss_draws := Suc (ss_draws s)\<rparr>)"

definition put_sealed :: "crypto \<Rightarrow> master_key \<Rightarrow> obj_type \<Rightarrow> bytes \<Rightarrow> bytes \<Rightarrow> snap_state \<Rightarrow> snap_state" where
  "put_sealed cr mk t salt b s =
     (let (i, blob) = seal_object cr mk t salt b
      in s\<lparr>ss_store := snd (put i blob (ss_store s)), ss_log := ss_log s @ [(t, salt, b)]\<rparr>)"

section \<open>One file\<close>

datatype file_scan = ScanEntry tree_entry | ScanSkip skip_note | ScanGone

text \<open>The fast path: same size and modification time as our last snapshot, and older than this pass.\<close>

definition fast_entry :: "snap_ctx \<Rightarrow> bytes \<Rightarrow> u32 \<Rightarrow> u64 \<Rightarrow> u64 \<Rightarrow> tree_entry option \<Rightarrow> tree_entry option" where
  "fast_entry ctx name mode mtime len prev =
     (case prev of
        Some (EFile _ _ pmtime psize salt cs) \<Rightarrow>
          if sc_fast_path ctx \<and> psize = len \<and> pmtime = mtime \<and> mtime < os_now (sc_os ctx)
          then Some (EFile name (mode_of mode) mtime psize salt cs) else None
      | _ \<Rightarrow> None)"

definition emit_chunk :: "crypto \<Rightarrow> snap_ctx \<Rightarrow> bytes \<Rightarrow> bytes list \<times> snap_state \<Rightarrow> bytes \<Rightarrow> snap_error + bytes list \<times> snap_state" where
  "emit_chunk cr ctx salt acc chunk =
     (if max_chunks_per_file (sc_limits ctx) \<le> length (fst acc) then Inl (Malformed ''chunk list exceeds maximum'')
      else
        let padded = pad_chunk chunk PowerOfTwo
        in Inr (fst acc @ [fst (seal_object cr (sc_mk ctx) TChunk salt padded)], put_sealed cr (sc_mk ctx) TChunk salt padded (snd acc)))"

definition file_salt :: "snap_ctx \<Rightarrow> tree_entry option \<Rightarrow> snap_state \<Rightarrow> ((snap_error + bytes) \<times> snap_state) option" where
  "file_salt ctx prev s = (case prev of Some (EFile _ _ _ _ salt _) \<Rightarrow> Some (Inr salt, s) | _ \<Rightarrow> random_salt (sc_os ctx) s)"

text \<open>From the open on: the chunks are sealed and put as the stream cuts them.\<close>

definition read_file :: "crypto \<Rightarrow> snap_ctx \<Rightarrow> bytes list \<Rightarrow> bytes \<Rightarrow> u32 \<Rightarrow> u64 \<Rightarrow> bytes \<Rightarrow> bytes \<Rightarrow> snap_state
    \<Rightarrow> ((snap_error + file_scan) \<times> snap_state) option" where
  "read_file cr ctx path name mode mtime content salt s =
     (case os_open (sc_os ctx) path of
        Some e \<Rightarrow> Some (Inr (if e = IoNotFound then ScanGone else ScanSkip (Unreadable path e)), s)
      | None \<Rightarrow>
          (case chunk_stream (sc_chunker ctx) (emit_chunk cr ctx salt) (os_read (sc_os ctx) path content) ([], s) of
             None \<Rightarrow> None
           | Some (Inr (sz, cs, s)) \<Rightarrow> Some (Inr (ScanEntry (EFile name (mode_of mode) mtime (of_nat sz) salt cs)), s)
           | Some (Inl (Emit e, cs, s)) \<Rightarrow>
               let limit = max_chunks_per_file (sc_limits ctx) in
               if limit \<le> length cs
               then Some (Inr (ScanSkip (TooManyChunks path limit)), s\<lparr>ss_memo := bt_insert path (of_nat (length content), mtime) (ss_memo s)\<rparr>)
               else Some (Inl e, s)
           | Some (Inl (Read e, cs, s)) \<Rightarrow> Some (Inr (ScanSkip (Unreadable path e)), s)))"

definition snapshot_file :: "crypto \<Rightarrow> snap_ctx \<Rightarrow> bytes list \<Rightarrow> bytes \<Rightarrow> u32 \<Rightarrow> u64 \<Rightarrow> bytes \<Rightarrow> tree_entry option \<Rightarrow> snap_state
    \<Rightarrow> ((snap_error + file_scan) \<times> snap_state) option" where
  "snapshot_file cr ctx path name mode mtime content prev s =
     (case fast_entry ctx name mode mtime (of_nat (length content)) prev of
        Some e \<Rightarrow> Some (Inr (ScanEntry e), s)
      | None \<Rightarrow>
          if map_of (ss_memo s) path = Some (of_nat (length content), mtime)
          then Some (Inr (ScanSkip (TooManyChunks path (max_chunks_per_file (sc_limits ctx)))), s)
          else sbind (file_salt ctx prev s) (read_file cr ctx path name mode mtime content))"

section \<open>One directory\<close>

type_synonym dir_scan =
  "bytes list \<Rightarrow> kids \<Rightarrow> tree option \<Rightarrow> bytes \<Rightarrow> snap_state \<Rightarrow> ((snap_error + bytes \<times> bytes) \<times> snap_state) option"

text \<open>
  A name of the listing: the first argument is the scan of a directory one level down. The result is
  \<open>None\<close> for what is neither a file nor a directory, which the loop passes over.
\<close>

definition prior_sub :: "crypto \<Rightarrow> snap_ctx \<Rightarrow> tree_entry option \<Rightarrow> snap_state \<Rightarrow> ((snap_error + tree option \<times> bytes) \<times> snap_state) option" where
  "prior_sub cr ctx prev s =
     (case prev of
        Some (EDir _ _ _ sub sub_salt) \<Rightarrow>
          reading id s (rbind (load_tree cr (sc_keys ctx) (ss_store s) sub sub_salt) (\<lambda>t. Inr (Some t, sub_salt)))
      | _ \<Rightarrow> sbind (random_salt (sc_os ctx) s) (\<lambda>salt s. Some (Inr (None, salt), s)))"

text \<open>A directory whose own listing fails is frozen, not failed.\<close>

fun dir_result :: "bytes list \<Rightarrow> bytes \<Rightarrow> u32 \<Rightarrow> u64 \<Rightarrow> snap_error + bytes \<times> bytes \<Rightarrow> snap_error + file_scan" where
  "dir_result path name mode mtime (Inr (sub, salt)) = Inr (ScanEntry (EDir name (mode_of mode) mtime sub salt))"
| "dir_result path name mode mtime (Inl (SnapIo e)) = Inr (ScanSkip (Unreadable path e))"
| "dir_result path name mode mtime (Inl e) = Inl e"

definition scan_node :: "crypto \<Rightarrow> dir_scan \<Rightarrow> snap_ctx \<Rightarrow> bytes list \<Rightarrow> bytes \<Rightarrow> fnode \<Rightarrow> tree_entry option \<Rightarrow> snap_state
    \<Rightarrow> ((snap_error + file_scan option) \<times> snap_state) option" where
  "scan_node cr sub_scan ctx path name node prev s =
     (case node of
        FFile mode mtime content \<Rightarrow>
          sbind (snapshot_file cr ctx path name mode mtime content prev s) (\<lambda>r s. Some (Inr (Some r), s))
      | FDir mode mtime ks \<Rightarrow>
          sbind (prior_sub cr ctx prev s) (\<lambda>(prev_sub, sub_salt) s.
          map_option (\<lambda>(r, s). (rbind (dir_result path name mode mtime r) (\<lambda>r. Inr (Some r)), s)) (sub_scan path ks prev_sub sub_salt s))
      | FOther \<Rightarrow> Some (Inr None, s))"

definition scan_result :: "file_scan \<Rightarrow> tree_entry option \<Rightarrow> snap_state \<Rightarrow> tree_entry list \<times> snap_state" where
  "scan_result r prev s =
     (case r of
        ScanEntry e \<Rightarrow> ([e], s)
      | ScanGone \<Rightarrow> ([], s)
      | ScanSkip msg \<Rightarrow> (case prev of Some e \<Rightarrow> [e] | None \<Rightarrow> [], s\<lparr>ss_skipped := ss_skipped s @ [msg]\<rparr>))"

definition carries_name :: "bytes \<Rightarrow> bool" where
  "carries_name n \<longleftrightarrow> from_utf8_ok n \<and> is_safe_entry_name n \<and> \<not> is_tmp n"

definition prior_entry :: "tree option \<Rightarrow> bytes \<Rightarrow> tree_entry option" where
  "prior_entry prev name = Option.bind prev (\<lambda>t. find_entry t name)"

fun scan_names :: "crypto \<Rightarrow> dir_scan \<Rightarrow> snap_ctx \<Rightarrow> bytes list \<Rightarrow> tree option \<Rightarrow> kids \<Rightarrow> bytes list \<Rightarrow> tree_entry list
    \<Rightarrow> snap_state \<Rightarrow> ((snap_error + bytes list \<times> tree_entry list) \<times> snap_state) option" where
  "scan_names cr sub_scan ctx dir prev [] seen es s = Some (Inr (seen, es), s)"
| "scan_names cr sub_scan ctx dir prev ((n, node) # ns) seen es s =
     (if \<not> carries_name n then scan_names cr sub_scan ctx dir prev ns seen es s else
      case os_stat (sc_os ctx) (dir @ [n]) of
        Some IoNotFound \<Rightarrow> scan_names cr sub_scan ctx dir prev ns seen es s
      | Some e \<Rightarrow> Some (Inl (SnapIo e), s)
      | None \<Rightarrow>
          sbind (scan_node cr sub_scan ctx (dir @ [n]) n node (prior_entry prev n) s) (\<lambda>r s.
          case r of
            None \<Rightarrow> scan_names cr sub_scan ctx dir prev ns seen es s
          | Some r \<Rightarrow>
              let (new, s) = scan_result r (prior_entry prev n) s
              in scan_names cr sub_scan ctx dir prev ns (n # seen) (es @ new) s))"

definition carried :: "tree option \<Rightarrow> bytes list \<Rightarrow> tree_entry list" where
  "carried prev seen =
     (case prev of
        None \<Rightarrow> []
      | Some t \<Rightarrow> filter (\<lambda>e. entry_name e \<notin> set seen \<and> \<not> is_materializable (entry_name e)) t)"

definition seal_dir :: "crypto \<Rightarrow> snap_ctx \<Rightarrow> bytes list \<Rightarrow> tree \<Rightarrow> bytes \<Rightarrow> snap_state \<Rightarrow> ((snap_error + bytes \<times> bytes) \<times> snap_state) option" where
  "seal_dir cr ctx dir t salt s =
     (if max_fanout (sc_limits ctx) < length t then Some (Inl (TreeTooLarge (join_path dir)), s) else
      case encode_tree t of
        None \<Rightarrow> None
      | Some b \<Rightarrow>
          let (i, blob) = seal_object cr (sc_mk ctx) TTree salt b
          in if max_blob (sc_limits ctx) < length blob then Some (Inl (TreeTooLarge (join_path dir)), s)
             else Some (Inr (i, salt), put_sealed cr (sc_mk ctx) TTree salt b s))"

text \<open>The first argument is the number of levels left: \<open>MAX_TREE_DEPTH\<close> less the source's \<open>depth\<close>.\<close>

primrec snapshot_dir :: "nat \<Rightarrow> crypto \<Rightarrow> snap_ctx \<Rightarrow> dir_scan" where
  "snapshot_dir 0 cr ctx dir ks prev salt s = Some (Inl DepthExceeded, s)"
| "snapshot_dir (Suc k) cr ctx dir ks prev salt s =
     (case os_read_dir (sc_os ctx) dir of
        Some e \<Rightarrow> Some (Inl (SnapIo e), s)
      | None \<Rightarrow>
          sbind (scan_names cr (snapshot_dir k cr ctx) ctx dir prev (sort_key fst ks) [] [] s) (\<lambda>(seen, es) s.
          seal_dir cr ctx dir (sort_key entry_name (es @ carried prev seen)) salt s))"

section \<open>The snapshot\<close>

text \<open>A folder that does not exist fails its listing.\<close>

definition snapshot_run :: "(bytes \<Rightarrow> bytes \<Rightarrow> nat \<Rightarrow> bytes) \<Rightarrow> crypto \<Rightarrow> limits \<Rightarrow> os \<Rightarrow> master_keys \<Rightarrow> prior option \<Rightarrow> kids option
    \<Rightarrow> store \<Rightarrow> snapshot_memo \<Rightarrow> ((snap_error + snapshot) \<times> snap_state) option" where
  "snapshot_run xof cr limits os keys prior folder st memo =
     (case current keys of
        None \<Rightarrow> None
      | Some mk \<Rightarrow>
        (case Chunker_with_defaults xof (cdc_seed cr mk) of
           None \<Rightarrow> None
         | Some chunker \<Rightarrow>
             let s = \<lparr>ss_store = st, ss_memo = memo, ss_skipped = [], ss_draws = 0, ss_log = []\<rparr>;
                 ctx = \<lparr>sc_keys = keys, sc_mk = mk, sc_chunker = chunker,
                        sc_fast_path = (case prior of Some p \<Rightarrow> pr_fast_path p | None \<Rightarrow> False), sc_limits = limits, sc_os = os\<rparr>
             in sbind (case prior of
                         Some p \<Rightarrow> reading id s (rbind (load_tree cr keys st (pr_root p) (pr_salt p)) (\<lambda>t. Inr (Some t, pr_salt p)))
                       | None \<Rightarrow> sbind (random_salt os s) (\<lambda>salt s. Some (Inr (None, salt), s))) (\<lambda>(prev, salt) s.
                case folder of
                  None \<Rightarrow> Some (Inl (SnapIo IoNotFound), s)
                | Some ks \<Rightarrow>
                    sbind (snapshot_dir MAX_TREE_DEPTH cr ctx [] ks prev salt s) (\<lambda>(i, salt) s.
                    Some (Inr \<lparr>sn_root = i, sn_salt = salt, sn_skipped = ss_skipped s\<rparr>, s)))))"

definition snapshot_tree_with :: "(bytes \<Rightarrow> bytes \<Rightarrow> nat \<Rightarrow> bytes) \<Rightarrow> crypto \<Rightarrow> limits \<Rightarrow> os \<Rightarrow> master_keys \<Rightarrow> prior option \<Rightarrow> kids option
    \<Rightarrow> store \<Rightarrow> snapshot_memo \<Rightarrow> ((snap_error + snapshot) \<times> store \<times> snapshot_memo) option" where
  "snapshot_tree_with xof cr limits os keys prior folder st memo =
     map_option (\<lambda>(r, s). (r, ss_store s, ss_memo s)) (snapshot_run xof cr limits os keys prior folder st memo)"

definition snapshot_tree :: "(bytes \<Rightarrow> bytes \<Rightarrow> nat \<Rightarrow> bytes) \<Rightarrow> crypto \<Rightarrow> os \<Rightarrow> master_keys \<Rightarrow> prior option \<Rightarrow> kids option
    \<Rightarrow> store \<Rightarrow> snapshot_memo \<Rightarrow> ((snap_error + snapshot) \<times> store \<times> snapshot_memo) option" where
  "snapshot_tree xof cr = snapshot_tree_with xof cr SPEC"

section \<open>Every tree a snapshot authors can be decoded\<close>

lemma chunk_loop_invar:
  "chunk_loop c emit buf eof src tot s = Some r \<Longrightarrow> P s \<Longrightarrow> (\<And>s x s'. P s \<Longrightarrow> emit s x = Inr s' \<Longrightarrow> P s') \<Longrightarrow>
     P (case r of Inl (_, s') \<Rightarrow> s' | Inr (_, s') \<Rightarrow> s')"
proof (induction c emit buf eof src tot s r rule: chunk_loop.raw_induct [rotated, consumes 1])
  case (1 loop c emit buf eof src tot s r)
  show ?case
  proof (cases "if \<not> eof \<and> length buf < cmax c then refill_loop (cmax c) buf src else Inr (buf, eof, src)")
    case (Inl e)
    with 1(2,3) show ?thesis by auto
  next
    case (Inr b)
    show ?thesis
    proof (cases "fst b = []")
      case True
      with 1(2,3) Inr show ?thesis by auto
    next
      case False
      show ?thesis
      proof (cases "emit s (take (next_cut c (fst b)) (fst b))")
        case (Inl e)
        with 1(2,3) Inr False show ?thesis by auto
      next
        case ok: (Inr s')
        with 1(2) Inr False have "loop c emit (drop (next_cut c (fst b)) (fst b)) (fst (snd b)) (snd (snd b)) (tot + next_cut c (fst b)) s' = Some r"
          by (simp add: Let_def)
        from 1(1) [OF this 1(4) [OF 1(3) ok] 1(4)] show ?thesis .
      qed
    qed
  qed
qed

lemma chunk_stream_invar:
  assumes "chunk_stream c emit src s = Some (Inr (n, s'))" "P s" "\<And>s x s'. P s \<Longrightarrow> emit s x = Inr s' \<Longrightarrow> P s'"
  shows "P s'"
  using chunk_loop_invar [where P = P, OF assms(1) [unfolded chunk_stream_def] assms(2,3)] by simp

definition listable :: "tree_entry \<Rightarrow> bool" where
  "listable e \<longleftrightarrow> name_wf (entry_name e) \<and> body_wf e"

lemma tree_wf_listable: "tree_wf t \<longleftrightarrow> length t \<le> MAX_TREE_FANOUT \<and> list_all listable t \<and> sorted_wrt (<) (map entry_name t)"
  by (simp add: tree_wf_def listable_def [abs_def])

lemma prior_entry_listable:
  assumes "\<forall>t. prev = Some t \<longrightarrow> tree_wf t" "prior_entry prev n = Some e"
  shows "listable e" "entry_name e = n"
  using assms by (auto simp: prior_entry_def find_entry_def tree_wf_listable list_all_iff find_Some_iff split: bind_splits)

lemma random_salt_ok: "random_salt os s = Some (Inr salt, s') \<Longrightarrow> length salt = 16 \<and> ss_skipped s' = ss_skipped s"
  by (auto simp: random_salt_def)

lemma emit_chunk_ok:
  assumes "emit_chunk cr ctx salt acc x = Inr acc'" "sc_limits ctx = SPEC"
  shows "length (fst acc') \<le> MAX_CHUNKS_PER_FILE" "list_all (\<lambda>c. length c = 32) (fst acc) \<Longrightarrow> list_all (\<lambda>c. length c = 32) (fst acc')"
  using assms by (auto simp: emit_chunk_def SPEC_def Let_def case_prod_beta split: if_splits)

lemma read_file_entry:
  assumes "read_file cr ctx path name mode mtime content salt s = Some (Inr (ScanEntry e), s')"
  obtains n cs where "e = EFile name (mode_of mode) mtime (of_nat n) salt cs"
    "chunk_stream (sc_chunker ctx) (emit_chunk cr ctx salt) (os_read (sc_os ctx) path content) ([], s) = Some (Inr (n, cs, s'))"
     "os_open (sc_os ctx) path = None"
  using assms by (auto simp: read_file_def Let_def split: if_splits option.splits sum.splits stream_error.splits)

text \<open>What a scan of a file may answer: an entry of its name that a tree can hold, or no entry.\<close>

lemma snapshot_file_listable:
  assumes "snapshot_file cr ctx path name mode mtime content prev s = Some (Inr (ScanEntry e), s')"
    "sc_limits ctx = SPEC" "name_wf name" "\<And>e. prev = Some e \<Longrightarrow> listable e"
  shows "listable e \<and> entry_name e = name"
proof (cases "fast_entry ctx name mode mtime (of_nat (length content)) prev")
  case (Some e')
  with assms(1) have "e = e'" by (simp add: snapshot_file_def)
  with Some assms(3,4) show ?thesis
    by (auto simp: fast_entry_def listable_def split: option.splits tree_entry.splits if_splits)
next
  case None
  with assms(1) obtain salt s1 where salt: "file_salt ctx prev s = Some (Inr salt, s1)"
    and rd: "read_file cr ctx path name mode mtime content salt s1 = Some (Inr (ScanEntry e), s')"
    by (auto simp: snapshot_file_def sbind_eq_ok split: if_splits)
  obtain n cs where e: "e = EFile name (mode_of mode) mtime (of_nat n) salt cs"
    and st: "chunk_stream (sc_chunker ctx) (emit_chunk cr ctx salt) (os_read (sc_os ctx) path content) ([], s1) = Some (Inr (n, cs, s'))"
    using read_file_entry [OF rd] .
  have "length salt = 16"
    using salt assms(4) random_salt_ok by (fastforce simp: file_salt_def listable_def split: option.splits tree_entry.splits)
  moreover define P where "P acc \<longleftrightarrow> length (fst acc) \<le> MAX_CHUNKS_PER_FILE \<and> list_all (\<lambda>c. length c = 32) (fst acc)"
    for acc :: "bytes list \<times> snap_state"
  have "P (cs, s')"
    by (rule chunk_stream_invar [where P = P, OF st]) (auto simp: P_def intro: emit_chunk_ok [OF _ assms(2)])
  ultimately show ?thesis using assms(3) by (simp add: e listable_def P_def)
qed

text \<open>Names of a directory are distinct and within what the file system allows, at every level.\<close>

fun node_wf :: "fnode \<Rightarrow> bool" where
  "node_wf (FFile _ _ _) = True"
| "node_wf (FDir _ _ ks) = (distinct (map fst ks) \<and> (\<forall>p \<in> set ks. length (fst p) \<le> OS_NAME_MAX \<and> node_wf (snd p)))"
| "node_wf FOther = True"

definition kids_wf :: "kids \<Rightarrow> bool" where
  "kids_wf ks \<longleftrightarrow> node_wf (FDir 0 0 ks)"

lemma kids_wfD:
  assumes "kids_wf ks"
  shows "distinct (map fst ks)" "(n, node) \<in> set ks \<Longrightarrow> length n \<le> OS_NAME_MAX \<and> node_wf node"
    "(n, FDir m t ks') \<in> set ks \<Longrightarrow> kids_wf ks'"
  using assms by (fastforce simp: kids_wf_def)+

lemma carries_name_wf: "carries_name n \<Longrightarrow> length n \<le> OS_NAME_MAX \<Longrightarrow> name_wf n"
  by (auto simp: carries_name_def name_wf_def OS_NAME_MAX_def MAX_NAME_LEN_def)

lemma prior_sub_ok:
  assumes "prior_sub cr ctx prev s = Some (Inr (t, salt), s')" "\<And>e. prev = Some e \<Longrightarrow> listable e"
  shows "length salt = 16" "\<forall>t'. t = Some t' \<longrightarrow> tree_wf t'" "ss_skipped s' = ss_skipped s" "prev = None \<Longrightarrow> t = None"
  using assms random_salt_ok
  by (auto simp: prior_sub_def reading_def rbind_eq_Inr load_tree_def decode_tree_iff listable_def sbind_eq_ok split: option.splits tree_entry.splits)

text \<open>What the sealing of a directory's tree gives.\<close>

definition authored_tree :: "crypto \<Rightarrow> master_key \<Rightarrow> bytes \<Rightarrow> bytes \<Rightarrow> tree \<Rightarrow> bool" where
  "authored_tree cr mk i salt t \<longleftrightarrow> tree_wf t \<and> i = fst (sealed_tree cr mk salt t) \<and> tree_fits cr mk salt t \<and> length salt = 16"

text \<open>The notes and the log only grow.\<close>

abbreviation noted :: "snap_state \<Rightarrow> nat" where
  "noted s \<equiv> length (ss_skipped s)"

definition grows :: "snap_state \<Rightarrow> snap_state \<Rightarrow> bool" where
  "grows s s' \<longleftrightarrow> noted s \<le> noted s' \<and> set (ss_log s) \<subseteq> set (ss_log s')"

lemma grows_refl [simp]: "grows s s"
  by (simp add: grows_def)

lemma grows_trans: "grows s s1 \<Longrightarrow> grows s1 s2 \<Longrightarrow> grows s s2"
  by (auto simp: grows_def)

definition growing :: "dir_scan \<Rightarrow> bool" where
  "growing sc \<longleftrightarrow> (\<forall>path ks prev salt s x s'. sc path ks prev salt s = Some (x, s') \<longrightarrow> grows s s')"

lemma growingD: "growing sc \<Longrightarrow> sc path ks prev salt s = Some (x, s') \<Longrightarrow> grows s s'"
  unfolding growing_def by blast

lemma grows_sbind:
  assumes "sbind m f = Some (x, s')" "\<And>y s1. m = Some (y, s1) \<Longrightarrow> grows s s1" "\<And>y s1. m = Some (Inr y, s1) \<Longrightarrow> f y s1 = Some (x, s') \<Longrightarrow> grows s1 s'"
  shows "grows s s'"
  using assms(1) by (cases rule: sbind_cases) (use assms(2,3) grows_trans in blast)+

lemma put_sealed_grows: "grows s (put_sealed cr mk t salt b s)"
  by (simp add: grows_def put_sealed_def Let_def case_prod_beta subset_insertI)

lemma random_salt_grows: "random_salt os s = Some (x, s') \<Longrightarrow> grows s s'"
  by (auto simp: random_salt_def grows_def)

lemma read_file_grows:
  assumes "read_file cr ctx path name mode mtime content salt s = Some (x, s')"
  shows "grows s s'"
proof (cases "os_open (sc_os ctx) path")
  case None
  with assms obtain r where r: "chunk_stream (sc_chunker ctx) (emit_chunk cr ctx salt) (os_read (sc_os ctx) path content) ([], s) = Some r"
    by (auto simp: read_file_def split: option.splits)
  have "grows s (snd (case r of Inl (_, acc) \<Rightarrow> acc | Inr (_, acc) \<Rightarrow> acc))"
    by (rule chunk_loop_invar [where P = "\<lambda>acc. grows s (snd acc)", OF r [unfolded chunk_stream_def]])
      (auto simp: emit_chunk_def Let_def split: if_splits intro: grows_trans [OF _ put_sealed_grows])
  with assms None r show ?thesis
    by (auto simp: read_file_def grows_def Let_def split: sum.splits prod.splits stream_error.splits if_splits)
qed (use assms in \<open>auto simp: read_file_def\<close>)

lemma snapshot_file_grows:
  assumes "snapshot_file cr ctx path name mode mtime content prev s = Some (x, s')"
  shows "grows s s'"
proof -
  have salt: "grows s s2" if "file_salt ctx prev s = Some (y, s2)" for y s2
    using that random_salt_grows by (auto simp: file_salt_def split: option.splits tree_entry.splits)
  have "grows s s'" if "sbind (file_salt ctx prev s) (read_file cr ctx path name mode mtime content) = Some (x, s')"
    by (rule grows_sbind [OF that]) (use salt read_file_grows in blast)+
  with assms show ?thesis by (auto simp: snapshot_file_def split: option.splits if_splits)
qed

lemma prior_sub_grows:
  assumes "prior_sub cr ctx prev s = Some (y, s2)"
  shows "grows s s2"
proof -
  have "grows s s2" if "sbind (random_salt (sc_os ctx) s) (\<lambda>salt s. Some (Inr (None, salt), s)) = Some (y, s2)"
    by (rule grows_sbind [OF that]) (use random_salt_grows in auto)
  with assms show ?thesis by (auto simp: prior_sub_def reading_def split: option.splits tree_entry.splits)
qed

lemma scan_node_grows:
  assumes "growing sub_scan" "scan_node cr sub_scan ctx path name node prev s = Some (x, s')"
  shows "grows s s'"
proof (cases node)
  case (FFile mode mtime content)
  with assms(2) have "sbind (snapshot_file cr ctx path name mode mtime content prev s) (\<lambda>r s. Some (Inr (Some r), s)) = Some (x, s')"
    by (simp add: scan_node_def)
  then show ?thesis by (rule grows_sbind) (use snapshot_file_grows in auto)
next
  case (FDir mode mtime ks)
  with assms(2) have "sbind (prior_sub cr ctx prev s) (\<lambda>(prev_sub, sub_salt) s.
      map_option (\<lambda>(r, s). (rbind (dir_result path name mode mtime r) (\<lambda>r. Inr (Some r)), s)) (sub_scan path ks prev_sub sub_salt s)) = Some (x, s')"
    by (simp add: scan_node_def)
  then show ?thesis
    by (rule grows_sbind) (use prior_sub_grows growingD [OF assms(1)] in \<open>auto split: prod.splits\<close>)
qed (use assms(2) in \<open>simp add: scan_node_def\<close>)

text \<open>What one name adds to the tree, with the states its scan starts and ends in between the given ones.\<close>

definition adds :: "crypto \<Rightarrow> dir_scan \<Rightarrow> snap_ctx \<Rightarrow> bytes list \<Rightarrow> tree option \<Rightarrow> snap_state \<Rightarrow> snap_state \<Rightarrow> bytes \<times> fnode \<Rightarrow> tree_entry list \<Rightarrow> bool" where
  "adds cr sub_scan ctx dir prev lo hi = (\<lambda>(n, node) new.
     (if carries_name n \<and> os_stat (sc_os ctx) (dir @ [n]) = None \<and> node \<noteq> FOther
      then \<exists>r s1 s2. scan_node cr sub_scan ctx (dir @ [n]) n node (prior_entry prev n) s1 = Some (Inr (Some r), s2)
         \<and> new = fst (scan_result r (prior_entry prev n) s2) \<and> grows lo s1 \<and> grows (snd (scan_result r (prior_entry prev n) s2)) hi
      else new = [] \<and> (carries_name n \<and> node \<noteq> FOther \<longrightarrow> os_stat (sc_os ctx) (dir @ [n]) = Some IoNotFound)))"

definition seen_names :: "snap_ctx \<Rightarrow> bytes list \<Rightarrow> kids \<Rightarrow> bytes set" where
  "seen_names ctx dir ns = {n. \<exists>node. (n, node) \<in> set ns \<and> carries_name n \<and> os_stat (sc_os ctx) (dir @ [n]) = None \<and> node \<noteq> FOther}"

lemma scan_node_other: "scan_node cr sub_scan ctx path name node prev s = Some (Inr None, s') \<Longrightarrow> node = FOther"
  by (cases node) (auto simp: scan_node_def sbind_eq_ok rbind_eq_Inr)

lemma scan_result_grows: "grows s (snd (scan_result r prev s))"
  by (auto simp: scan_result_def grows_def split: file_scan.splits)

lemma adds_mono: "adds cr sub_scan ctx dir prev lo hi p new \<Longrightarrow> grows lo' lo \<Longrightarrow> grows hi hi' \<Longrightarrow> adds cr sub_scan ctx dir prev lo' hi' p new"
  unfolding adds_def by (cases p) (auto split: if_splits intro: grows_trans)

lemma adds_list_mono:
  assumes "list_all2 (adds cr sub_scan ctx dir prev lo hi) ns ess" "grows lo' lo" "grows hi hi'"
  shows "list_all2 (adds cr sub_scan ctx dir prev lo' hi') ns ess"
  using assms(1) by (rule list_all2_mono) (rule adds_mono [OF _ assms(2,3)])

lemma scan_names_adds:
  assumes "growing sub_scan" "scan_names cr sub_scan ctx dir prev ns seen es s = Some (Inr (seen', es'), s')"
  shows "\<exists>ess. es' = es @ concat ess \<and> list_all2 (adds cr sub_scan ctx dir prev s s') ns ess
    \<and> set seen' = set seen \<union> seen_names ctx dir ns \<and> grows s s'"
  using assms(2)
proof (induction ns arbitrary: seen es s)
  case Nil
  then show ?case by (simp add: seen_names_def)
next
  case (Cons p ns)
  obtain n node where p: "p = (n, node)" by (cases p)
  show ?case
  proof (cases "carries_name n \<and> os_stat (sc_os ctx) (dir @ [n]) = None")
    case False
    with Cons.prems p have rest: "scan_names cr sub_scan ctx dir prev ns seen es s = Some (Inr (seen', es'), s')"
      and nf: "carries_name n \<Longrightarrow> os_stat (sc_os ctx) (dir @ [n]) = Some IoNotFound"
      by (auto split: if_splits option.splits io_error.splits)
    from Cons.IH [OF rest] obtain ess where "es' = es @ concat ess" "grows s s'"
      "list_all2 (adds cr sub_scan ctx dir prev s s') ns ess" "set seen' = set seen \<union> seen_names ctx dir ns" by blast
    with False nf show ?thesis
      by (intro exI [of _ "[] # ess"]) (auto simp: p adds_def seen_names_def)
  next
    case True
    with Cons.prems p obtain r s1 where node: "scan_node cr sub_scan ctx (dir @ [n]) n node (prior_entry prev n) s = Some (Inr r, s1)"
      and rest: "(case r of None \<Rightarrow> scan_names cr sub_scan ctx dir prev ns seen es s1
          | Some r \<Rightarrow> let (new, s) = scan_result r (prior_entry prev n) s1
              in scan_names cr sub_scan ctx dir prev ns (n # seen) (es @ new) s) = Some (Inr (seen', es'), s')"
      by (auto simp: sbind_eq_ok)
    note le = scan_node_grows [OF assms(1) node]
    show ?thesis
    proof (cases r)
      case None
      note other = scan_node_other [OF node [unfolded None]]
      from node other None have "s1 = s" by (simp add: scan_node_def)
      with None rest have "scan_names cr sub_scan ctx dir prev ns seen es s = Some (Inr (seen', es'), s')" by simp
      from Cons.IH [OF this] obtain ess where "es' = es @ concat ess" "grows s s'"
        "list_all2 (adds cr sub_scan ctx dir prev s s') ns ess" "set seen' = set seen \<union> seen_names ctx dir ns" by blast
      with other show ?thesis by (intro exI [of _ "[] # ess"]) (auto simp: p adds_def seen_names_def)
    next
      case (Some r')
      obtain new s2 where sr: "scan_result r' (prior_entry prev n) s1 = (new, s2)" by fastforce
      with rest Some have "scan_names cr sub_scan ctx dir prev ns (n # seen) (es @ new) s2 = Some (Inr (seen', es'), s')" by simp
      from Cons.IH [OF this] obtain ess where ess: "es' = es @ new @ concat ess" "grows s2 s'"
        "list_all2 (adds cr sub_scan ctx dir prev s2 s') ns ess" "set seen' = insert n (set seen) \<union> seen_names ctx dir ns" by auto
      have le2: "grows s s2" using grows_trans [OF le scan_result_grows [of s1 r' "prior_entry prev n"]] sr by simp
      have node_not: "node \<noteq> FOther" using node Some by (auto simp: scan_node_def)
      have "adds cr sub_scan ctx dir prev s s' p new"
        using True node Some sr ess(2) node_not by (simp add: p adds_def) (metis fst_conv snd_conv grows_refl)
      moreover have "list_all2 (adds cr sub_scan ctx dir prev s s') ns ess"
        by (rule adds_list_mono [OF ess(3) le2]) simp
      ultimately show ?thesis using ess True grows_trans [OF le2 ess(2)] node_not
        by (intro exI [of _ "new # ess"]) (auto simp: p seen_names_def)
    qed
  qed
qed

lemma scan_names_grows:
  "growing sub_scan \<Longrightarrow> scan_names cr sub_scan ctx dir prev ns seen es s = Some (x, s') \<Longrightarrow> grows s s'"
proof (induction ns arbitrary: seen es s)
  case (Cons p ns)
  obtain n node where p: "p = (n, node)" by (cases p)
  show ?case
  proof (cases "carries_name n \<and> os_stat (sc_os ctx) (dir @ [n]) = None")
    case False
    with Cons p show ?thesis by (auto split: if_splits option.splits io_error.splits)
  next
    case True
    with Cons.prems(2) p have "sbind (scan_node cr sub_scan ctx (dir @ [n]) n node (prior_entry prev n) s) (\<lambda>r s.
        case r of None \<Rightarrow> scan_names cr sub_scan ctx dir prev ns seen es s
        | Some r \<Rightarrow> let (new, s) = scan_result r (prior_entry prev n) s
            in scan_names cr sub_scan ctx dir prev ns (n # seen) (es @ new) s) = Some (x, s')" by simp
    then show ?thesis
    proof (cases rule: sbind_cases)
      case (ok r s1)
      note le = scan_node_grows [OF Cons.prems(1) ok(1)]
      show ?thesis
      proof (cases r)
        case None
        with ok(2) have "scan_names cr sub_scan ctx dir prev ns seen es s1 = Some (x, s')" by simp
        from grows_trans [OF le Cons.IH [OF Cons.prems(1) this]] show ?thesis .
      next
        case (Some r')
        let ?sr = "scan_result r' (prior_entry prev n) s1"
        from Some ok(2) have "scan_names cr sub_scan ctx dir prev ns (n # seen) (es @ fst ?sr) (snd ?sr) = Some (x, s')"
          by (simp add: case_prod_beta)
        from grows_trans [OF grows_trans [OF le scan_result_grows] Cons.IH [OF Cons.prems(1) this]] show ?thesis .
      qed
    qed (use scan_node_grows [OF Cons.prems(1)] in simp)
  qed
qed simp

lemma seal_dir_grows: "seal_dir cr ctx dir t salt s = Some (x, s') \<Longrightarrow> grows s s'"
  by (auto simp: seal_dir_def Let_def case_prod_beta put_sealed_grows split: if_splits option.splits)

lemma snapshot_dir_growing: "growing (snapshot_dir k cr ctx)"
proof (induction k)
  case (Suc k)
  show ?case unfolding growing_def
  proof (intro allI impI)
    fix path ks prev salt s x s'
    assume a: "snapshot_dir (Suc k) cr ctx path ks prev salt s = Some (x, s')"
    show "grows s s'"
    proof (cases "os_read_dir (sc_os ctx) path")
      case None
      with a have "sbind (scan_names cr (snapshot_dir k cr ctx) ctx path prev (sort_key fst ks) [] [] s) (\<lambda>(seen, es) s.
          seal_dir cr ctx path (sort_key entry_name (es @ carried prev seen)) salt s) = Some (x, s')" by simp
      then show ?thesis
        by (rule grows_sbind) (use scan_names_grows [OF Suc] seal_dir_grows in \<open>auto split: prod.splits\<close>)
    qed (use a in simp)
  qed
qed (simp add: growing_def)

definition addresses :: "dir_scan \<Rightarrow> bool" where
  "addresses sc \<longleftrightarrow> (\<forall>path ks prev salt s i sl s'. sc path ks prev salt s = Some (Inr (i, sl), s') \<longrightarrow> length i = 32 \<and> sl = salt)"

lemma snapshot_dir_addresses: "addresses (snapshot_dir k cr ctx)"
  by (cases k) (auto simp: addresses_def sbind_eq_ok seal_dir_def Let_def case_prod_beta split: option.splits if_splits)

lemma adds_cases:
  assumes "adds cr sub_scan ctx dir prev lo hi (n, node) new"
  obtains (none) "new = []" "carries_name n \<Longrightarrow> node \<noteq> FOther \<Longrightarrow> os_stat (sc_os ctx) (dir @ [n]) = Some IoNotFound"
  | (scanned) r s1 s2 where "carries_name n" "os_stat (sc_os ctx) (dir @ [n]) = None" "node \<noteq> FOther"
      "scan_node cr sub_scan ctx (dir @ [n]) n node (prior_entry prev n) s1 = Some (Inr (Some r), s2)"
      "new = fst (scan_result r (prior_entry prev n) s2)" "grows lo s1" "grows (snd (scan_result r (prior_entry prev n) s2)) hi"
  using assms by (auto simp: adds_def split: if_splits)

lemma scan_node_listable:
  assumes "scan_node cr sub_scan ctx path n node prev s = Some (Inr (Some (ScanEntry e)), s')" "addresses sub_scan"
    "sc_limits ctx = SPEC" "name_wf n" "\<And>e. prev = Some e \<Longrightarrow> listable e"
  shows "listable e \<and> entry_name e = n"
proof (cases node)
  case (FFile mode mtime content)
  with assms show ?thesis using snapshot_file_listable by (fastforce simp: scan_node_def sbind_eq_ok)
next
  case (FDir mode mtime ks)
  with assms(1) obtain ps s1 r s2 where ps: "prior_sub cr ctx prev s = Some (Inr ps, s1)"
    and sub: "sub_scan path ks (fst ps) (snd ps) s1 = Some (r, s2)" "dir_result path n mode mtime r = Inr (ScanEntry e)"
    by (auto simp: scan_node_def sbind_eq_ok rbind_eq_Inr)
  obtain i sl where r: "r = Inr (i, sl)" "e = EDir n (mode_of mode) mtime i sl"
    using sub(2) by (cases rule: dir_result.elims) auto
  with sub(1) assms(2) have "length i = 32" "sl = snd ps" unfolding addresses_def by blast+
  moreover have "length (snd ps) = 16" using prior_sub_ok(1) [of cr ctx prev s "fst ps" "snd ps" s1] ps assms(5) by simp
  ultimately show ?thesis using assms(4) r(2) by (simp add: listable_def)
qed (use assms(1) in \<open>simp add: scan_node_def\<close>)

lemma adds_listable:
  assumes "adds cr sub_scan ctx dir prev lo hi (n, node) new" "addresses sub_scan" "sc_limits ctx = SPEC" "length n \<le> OS_NAME_MAX"
    "\<forall>t. prev = Some t \<longrightarrow> tree_wf t"
  shows "new = [] \<or> (\<exists>e. new = [e] \<and> listable e \<and> entry_name e = n)"
  using assms(1)
proof (cases rule: adds_cases)
  case (scanned r s1 s2)
  show ?thesis
  proof (cases r)
    case (ScanEntry e)
    with scan_node_listable [OF _ assms(2,3) carries_name_wf [OF scanned(1) assms(4)]] scanned(4,5) prior_entry_listable [OF assms(5)]
    show ?thesis by (auto simp: scan_result_def)
  next
    case (ScanSkip m)
    with scanned(5) prior_entry_listable [OF assms(5)] show ?thesis by (auto simp: scan_result_def split: option.splits)
  qed (use scanned(5) in \<open>simp add: scan_result_def\<close>)
qed simp

lemma adds_sorted:
  assumes "list_all2 (adds cr sub_scan ctx dir prev lo hi) ns ess" "sorted_wrt (<) (map fst ns)" "\<forall>p \<in> set ns. length (fst p) \<le> OS_NAME_MAX"
    "addresses sub_scan" "sc_limits ctx = SPEC" "\<forall>t. prev = Some t \<longrightarrow> tree_wf t"
  shows "sorted_wrt (<) (map entry_name (concat ess)) \<and> list_all listable (concat ess) \<and> entry_name ` set (concat ess) \<subseteq> fst ` set ns"
  using assms(1-3)
proof (induction ns arbitrary: ess)
  case (Cons p ns)
  from Cons.prems(1) obtain new ess' where ess: "ess = new # ess'" "adds cr sub_scan ctx dir prev lo hi p new"
    "list_all2 (adds cr sub_scan ctx dir prev lo hi) ns ess'" by (auto simp: list_all2_Cons1)
  obtain n node where p: "p = (n, node)" by (cases p)
  have new: "new = [] \<or> (\<exists>e. new = [e] \<and> listable e \<and> entry_name e = n)"
    using adds_listable [OF ess(2) [unfolded p] assms(4,5) _ assms(6)] Cons.prems(3) p by simp
  have IH: "sorted_wrt (<) (map entry_name (concat ess')) \<and> list_all listable (concat ess') \<and> entry_name ` set (concat ess') \<subseteq> fst ` set ns"
    using Cons.IH [OF ess(3)] Cons.prems(2,3) by simp
  have above: "n < y" if "y \<in> fst ` set ns" for y using Cons.prems(2) that by (auto simp: p)
  from new show ?case
  proof
    assume "new = []"
    with IH show ?thesis by (simp add: ess(1) p subset_insertI2)
  next
    assume "\<exists>e. new = [e] \<and> listable e \<and> entry_name e = n"
    then obtain e where e: "new = [e]" "listable e" "entry_name e = n" by blast
    have "\<forall>y \<in> set (map entry_name (concat ess')). n < y" using IH above by (simp add: image_subset_iff)
    with e IH show ?thesis by (simp add: ess(1) p subset_insertI2)
  qed
qed simp

lemma sort_key_distinct:
  assumes "distinct (map f xs)"
  shows "sorted_wrt (<) (map f (sort_key f xs))"
  using assms by (simp add: strict_sorted_iff distinct_map)

text \<open>What a successful scan of a directory returns.\<close>

lemma snapshot_dir_result:
  assumes "snapshot_dir (Suc k) cr ctx dir ks prev salt s = Some (Inr (i, sl), s')"
    "sc_limits ctx = SPEC" "kids_wf ks" "\<forall>t. prev = Some t \<longrightarrow> tree_wf t" "length salt = 16"
  obtains ess seen where
    "list_all2 (adds cr (snapshot_dir k cr ctx) ctx dir prev s s') (sort_key fst ks) ess"
    "set seen = seen_names ctx dir ks"
    "authored_tree cr (sc_mk ctx) i salt (sort_key entry_name (concat ess @ carried prev seen))"
    "sl = salt" "get (ss_store s') i \<noteq> None" "os_read_dir (sc_os ctx) dir = None"
    "distinct (map entry_name (concat ess @ carried prev seen))" "sorted_wrt (<) (map entry_name (concat ess))"
    "(TTree, salt, the (encode_tree (sort_key entry_name (concat ess @ carried prev seen)))) \<in> set (ss_log s')"
proof -
  from assms(1) obtain seen es s1 where rd: "os_read_dir (sc_os ctx) dir = None"
    and sc: "scan_names cr (snapshot_dir k cr ctx) ctx dir prev (sort_key fst ks) [] [] s = Some (Inr (seen, es), s1)"
    and sd: "seal_dir cr ctx dir (sort_key entry_name (es @ carried prev seen)) salt s1 = Some (Inr (i, sl), s')"
    by (auto simp: sbind_eq_ok split: option.splits)
  from scan_names_adds [OF snapshot_dir_growing sc] obtain ess where ess: "es = concat ess"
    "list_all2 (adds cr (snapshot_dir k cr ctx) ctx dir prev s s1) (sort_key fst ks) ess" "set seen = seen_names ctx dir ks"
    by (auto simp: seen_names_def)
  note kw = kids_wfD [OF assms(3)]
  have "\<forall>p \<in> set (sort_key fst ks). length (fst p) \<le> OS_NAME_MAX" using kw(2) by fastforce
  from adds_sorted [OF ess(2) sort_key_distinct [OF kw(1)] this snapshot_dir_addresses assms(2,4)]
  have es: "sorted_wrt (<) (map entry_name es)" "list_all listable es" "entry_name ` set es \<subseteq> fst ` set ks" by (simp_all add: ess(1))
  have sees: "entry_name ` set es \<subseteq> set seen"
  proof
    fix n assume "n \<in> entry_name ` set es"
    then obtain es1 e where e: "es1 \<in> set ess" "e \<in> set es1" "entry_name e = n" by (auto simp: ess(1))
    then obtain j where j: "j < length ess" "e \<in> set (ess ! j)" "entry_name e = n" by (metis in_set_conv_nth)
    obtain m node where m: "sort_key fst ks ! j = (m, node)" by (cases "sort_key fst ks ! j")
    from ess(2) j(1) have a: "adds cr (snapshot_dir k cr ctx) ctx dir prev s s1 (m, node) (ess ! j)"
      by (metis list_all2_conv_all_nth m)
    have "j < length ks" using j(1) ess(2) by (metis list_all2_lengthD length_sort)
    then have mem: "(m, node) \<in> set ks" using m by (metis length_sort nth_mem set_sort)
    from adds_listable [OF a snapshot_dir_addresses assms(2) _ assms(4)] kw(2) [OF mem] j(2,3) have "m = n" by auto
    from a j(2) have "carries_name m \<and> os_stat (sc_os ctx) (dir @ [m]) = None \<and> node \<noteq> FOther"
      by (cases rule: adds_cases) auto
    with mem \<open>m = n\<close> show "n \<in> set seen" by (auto simp: ess(3) seen_names_def)
  qed
  have pw: "list_all listable (carried prev seen)" "distinct (map entry_name (carried prev seen))" "set seen \<inter> entry_name ` set (carried prev seen) = {}"
    using assms(4) by (auto simp: carried_def tree_wf_listable list_all_iff strict_sorted_iff distinct_map_filter split: option.splits)
  have d: "distinct (map entry_name (es @ carried prev seen))"
    using es(1) pw(2,3) sees by (auto simp: strict_sorted_iff)
  let ?t = "sort_key entry_name (es @ carried prev seen)"
  have "length ?t \<le> MAX_TREE_FANOUT" "tree_fits cr (sc_mk ctx) salt ?t" "i = fst (sealed_tree cr (sc_mk ctx) salt ?t)" "sl = salt"
    and st: "s' = s1\<lparr>ss_store := put_object (sealed_tree cr (sc_mk ctx) salt ?t) (ss_store s1), ss_log := ss_log s1 @ [(TTree, salt, the (encode_tree ?t))]\<rparr>"
    using sd assms(2) by (auto simp: seal_dir_def SPEC_def tree_fits_def sealed_tree_def put_object_def put_sealed_def Let_def case_prod_beta split: if_splits option.splits)
  moreover have "tree_wf ?t" using calculation(1) es(2) pw(1) sort_key_distinct [OF d] by (simp add: tree_wf_listable list_all_iff ball_Un)
  moreover have gr: "grows s1 s'" and "(TTree, salt, the (encode_tree ?t)) \<in> set (ss_log s')" by (auto simp: st grows_def)
  moreover have "list_all2 (adds cr (snapshot_dir k cr ctx) ctx dir prev s s') (sort_key fst ks) ess"
    by (rule adds_list_mono [OF ess(2) _ gr]) simp
  moreover have "get (ss_store s') i \<noteq> None" using calculation(3) by (simp add: st get_put_object)
  ultimately show thesis using ess es(1) rd d assms(5) that [of ess seen] by (simp add: authored_tree_def)
qed

section \<open>A failed read is not a deletion\<close>

text \<open>The name stands for no file and no directory, or vanished while the walk looked at it.\<close>

definition gone :: "os \<Rightarrow> bytes list \<Rightarrow> kids \<Rightarrow> bytes \<Rightarrow> bool" where
  "gone os dir ks n \<longleftrightarrow> map_of ks n = None \<or> map_of ks n = Some FOther
     \<or> os_stat os (dir @ [n]) = Some IoNotFound \<or> os_open os (dir @ [n]) = Some IoNotFound"

lemma adds_gone:
  assumes "adds cr sub_scan ctx dir prev lo hi (n, node) new" "map_of ks n = Some node" "carries_name n"
    "prior_entry prev n \<noteq> None" "new = []"
  shows "gone (sc_os ctx) dir ks n"
  using assms(1)
proof (cases rule: adds_cases)
  case none
  with assms(2,3) show ?thesis by (auto simp: gone_def)
next
  case (scanned r s1 s2)
  with assms(4,5) have "r = ScanGone" by (auto simp: scan_result_def split: file_scan.splits option.splits)
  with scanned(4) obtain mode mtime content s0 where f: "node = FFile mode mtime content"
      "snapshot_file cr ctx (dir @ [n]) n mode mtime content (prior_entry prev n) s1 = Some (Inr ScanGone, s0)"
    by (cases node) (auto simp: scan_node_def sbind_eq_ok rbind_eq_Inr elim!: dir_result.elims)
  then have "os_open (sc_os ctx) (dir @ [n]) = Some IoNotFound"
    by (auto simp: snapshot_file_def read_file_def sbind_eq_ok Let_def split: option.splits if_splits sum.splits stream_error.splits)
  then show ?thesis by (simp add: gone_def)
qed

lemma in_adds:
  assumes "list_all2 P ns ess" "p \<in> set ns"
  obtains new where "P p new" "new \<in> set ess"
  using assms by (metis in_set_conv_nth list_all2_conv_all_nth)

lemma prior_entry_some: "tree_wf t \<Longrightarrow> e \<in> set t \<Longrightarrow> prior_entry (Some t) (entry_name e) = Some e"
proof -
  assume "tree_wf t" "e \<in> set t"
  then have d: "distinct (map entry_name t)" by (auto simp: tree_wf_def strict_sorted_iff)
  have "find (\<lambda>e'. entry_name e' = entry_name e) t \<noteq> None" using \<open>e \<in> set t\<close> by (auto simp: find_None_iff)
  then obtain e' where "find (\<lambda>e'. entry_name e' = entry_name e) t = Some e'" by blast
  moreover from this have "e' \<in> set t" "entry_name e' = entry_name e" by (auto simp: find_Some_iff)
  ultimately show ?thesis using d \<open>e \<in> set t\<close> by (auto simp: prior_entry_def find_entry_def distinct_map dest: inj_onD)
qed

section \<open>An example folder\<close>

text \<open>A folder with one empty file, its tree, and a store that holds it.\<close>

definition ex_os :: os where
  "ex_os = \<lparr>os_read_dir = (\<lambda>_. None), os_stat = (\<lambda>_. None), os_open = (\<lambda>_. None), os_read = (\<lambda>_ c. [Piece c]),
     os_salt = (\<lambda>n. Some 1), os_now = 9\<rparr>"

definition ex_folder :: kids where
  "ex_folder = [([97], FFile 33188 7 [])]"

definition ex_listing :: tree where
  "ex_listing = [EFile [97] 420 7 0 (le_bytes 16 (1 :: 128 word)) []]"

definition ex_sealed :: "bytes \<times> bytes" where
  "ex_sealed = sealed_tree ex_crypto ex_mk (le_bytes 16 (1 :: 128 word)) ex_listing"

lemma ex_name [simp]: "from_utf8_ok [97]" "is_safe_entry_name [97]" "is_materializable [97]" "\<not> is_tmp [97]"
  by code_simp+

lemma ex_listing_wf: "tree_wf ex_listing"
  by (simp add: ex_listing_def tree_wf_def name_wf_def MAX_TREE_FANOUT_def MAX_NAME_LEN_def)

lemma ex_listing_fits: "tree_fits ex_crypto ex_mk (le_bytes 16 (1 :: 128 word)) ex_listing"
  unfolding tree_fits_def sealed_tree_def
  by (simp add: length_seal_object encode_tree_img [OF ex_listing_wf])
    (simp add: ex_listing_def FRAME_LEN_def CTX_TAG_LEN_def MAX_BLOB_SIZE_def MAX_TREE_FANOUT_def)

lemma chunk_stream_empty: "0 < cmax c \<Longrightarrow> chunk_stream c emit [Piece []] s = Some (Inr (0, s))"
  unfolding chunk_stream_def by (subst chunk_loop.simps) (simp add: refill_loop.simps)

lemma some_depth: obtains k where "MAX_TREE_DEPTH = Suc k"
  by (cases MAX_TREE_DEPTH) (auto simp: MAX_TREE_DEPTH_def)

lemma ex_load: "load_tree ex_crypto ex_keys (put_object ex_sealed Store_empty) (fst ex_sealed) (le_bytes 16 (1 :: 128 word)) = Inr ex_listing"
proof -
  have "get Store_empty i = None" for i by (simp add: Store_empty_def get_def)
  then show ?thesis
    unfolding ex_sealed_def using ex_for_gen ex_listing_fits ex_listing_wf by (intro load_tree_sealed) (simp_all add: get_put_object)
qed


text \<open>The file of the prior tree is there but cannot be opened: its entry stays.\<close>

definition ex_denied :: snap_ctx where
  "ex_denied = \<lparr>sc_keys = ex_keys, sc_mk = ex_mk, sc_chunker = the (Chunker_with_defaults toy_xof []), sc_fast_path = False, sc_limits = SPEC,
     sc_os = ex_os\<lparr>os_open := \<lambda>_. Some (IoOther ''denied'')\<rparr>\<rparr>"


section \<open>What a first snapshot records\<close>

text \<open>The names a tree carries, in order; a chunk list of a content; a tree that records a folder to the given depth.\<close>

definition visible :: "kids \<Rightarrow> kids" where
  "visible ks = filter (\<lambda>(n, node). carries_name n \<and> node \<noteq> FOther) (sort_key fst ks)"

type_synonym sealings = "(obj_type \<times> bytes \<times> bytes) set"

definition chunked :: "crypto \<Rightarrow> master_key \<Rightarrow> sealings \<Rightarrow> bytes \<Rightarrow> bytes \<Rightarrow> bytes list \<Rightarrow> bool" where
  "chunked cr mk L salt content cs \<longleftrightarrow> (\<exists>parts. concat parts = content \<and> (\<forall>p \<in> set parts. (TChunk, salt, pad_chunk p PowerOfTwo) \<in> L)
     \<and> cs = map (\<lambda>p. fst (seal_object cr mk TChunk salt (pad_chunk p PowerOfTwo))) parts)"

definition shows_node :: "crypto \<Rightarrow> master_key \<Rightarrow> sealings \<Rightarrow> (bytes \<Rightarrow> bytes \<Rightarrow> kids \<Rightarrow> bool) \<Rightarrow> tree_entry \<Rightarrow> bytes \<times> fnode \<Rightarrow> bool" where
  "shows_node cr mk L sub_shows e = (\<lambda>(n, node). case node of
     FFile mode mtime c \<Rightarrow> \<exists>salt cs. e = EFile n (mode_of mode) mtime (of_nat (length c)) salt cs \<and> length salt = 16 \<and> chunked cr mk L salt c cs
   | FDir mode mtime ks \<Rightarrow> \<exists>i salt. e = EDir n (mode_of mode) mtime i salt \<and> sub_shows i salt ks
   | FOther \<Rightarrow> False)"

primrec depicts :: "nat \<Rightarrow> crypto \<Rightarrow> master_key \<Rightarrow> sealings \<Rightarrow> bytes \<Rightarrow> bytes \<Rightarrow> kids \<Rightarrow> bool" where
  "depicts 0 cr mk L i salt ks = False"
| "depicts (Suc k) cr mk L i salt ks =
     (\<exists>t. authored_tree cr mk i salt t \<and> (TTree, salt, the (encode_tree t)) \<in> L
       \<and> list_all2 (shows_node cr mk L (depicts k cr mk L)) t (visible ks))"

definition quiet :: "os \<Rightarrow> bool" where
  "quiet os \<longleftrightarrow> (\<forall>p. os_read_dir os p = None \<and> os_stat os p = None \<and> os_open os p = None) \<and> (\<forall>p c. delivered (os_read os p c) = Some c)"

lemma put_sealed_log [simp]: "ss_log (put_sealed cr mk t salt b s) = ss_log s @ [(t, salt, b)]"
  by (simp add: put_sealed_def Let_def case_prod_beta)

lemma emit_all_chunks:
  "emit_all (emit_chunk cr ctx salt) parts tot acc = (Inr (n, acc') :: (io_error, snap_error) stream_error \<times> bytes list \<times> snap_state + nat \<times> bytes list \<times> snap_state) \<Longrightarrow>
     n = tot + length (concat parts) \<and> fst acc' = fst acc @ map (\<lambda>p. fst (seal_object cr (sc_mk ctx) TChunk salt (pad_chunk p PowerOfTwo))) parts
     \<and> set (ss_log (snd acc)) \<union> (\<lambda>p. (TChunk, salt, pad_chunk p PowerOfTwo)) ` set parts \<subseteq> set (ss_log (snd acc'))"
proof (induction parts arbitrary: tot acc)
  case (Cons p parts)
  from Cons.prems obtain acc1 where acc: "emit_chunk cr ctx salt acc p = Inr acc1"
    "emit_all (emit_chunk cr ctx salt) parts (tot + length p) acc1 = (Inr (n, acc') :: (io_error, snap_error) stream_error \<times> bytes list \<times> snap_state + nat \<times> bytes list \<times> snap_state)"
    by (auto split: sum.splits)
  then have "fst acc1 = fst acc @ [fst (seal_object cr (sc_mk ctx) TChunk salt (pad_chunk p PowerOfTwo))]"
    "ss_log (snd acc1) = ss_log (snd acc) @ [(TChunk, salt, pad_chunk p PowerOfTwo)]"
    by (auto simp: emit_chunk_def Let_def split: if_splits)
  with Cons.IH [OF acc(2)] show ?case by simp
qed simp

lemma read_file_shows:
  assumes "read_file cr ctx path name mode mtime c salt s = Some (Inr (ScanEntry e), s')" "chunker_ok (sc_chunker ctx)" "quiet (sc_os ctx)" "length salt = 16"
    "set (ss_log s') \<subseteq> L"
  shows "\<exists>cs. e = EFile name (mode_of mode) mtime (of_nat (length c)) salt cs \<and> chunked cr (sc_mk ctx) L salt c cs"
proof -
  obtain n cs where e: "e = EFile name (mode_of mode) mtime (of_nat n) salt cs"
    and st: "chunk_stream (sc_chunker ctx) (emit_chunk cr ctx salt) (os_read (sc_os ctx) path c) ([], s) = Some (Inr (n, cs, s'))"
    using read_file_entry [OF assms(1)] .
  obtain parts where parts: "chunks (sc_chunker ctx) c = Some parts" using chunks_total [OF assms(2)] by blast
  have "chunk_stream (sc_chunker ctx) (emit_chunk cr ctx salt) (os_read (sc_os ctx) path c) ([], s)
      = Some (emit_all (emit_chunk cr ctx salt) parts 0 ([], s))"
    using chunk_loop_chunks [OF assms(2) parts, of "[]" False "os_read (sc_os ctx) path c"] assms(3) by (simp add: chunk_stream_def quiet_def)
  with st have em: "emit_all (emit_chunk cr ctx salt) parts 0 ([], s) = (Inr (n, cs, s') :: (io_error, snap_error) stream_error \<times> bytes list \<times> snap_state + nat \<times> bytes list \<times> snap_state)"
    by simp
  have "concat parts = c" using chunks_props [OF assms(2) parts] by simp
  with emit_all_chunks [OF em] assms(5) have "n = length c" "chunked cr (sc_mk ctx) L salt c cs"
    unfolding chunked_def by (auto intro!: exI [of _ parts])
  then show ?thesis by (simp add: e)
qed

lemma shows_node_mono: "shows_node cr mk L sub_shows e p \<Longrightarrow> L \<subseteq> L' \<Longrightarrow> shows_node cr mk L' sub_shows e p"
  by (fastforce simp: shows_node_def chunked_def split: fnode.splits prod.splits)

lemma adds_shows:
  assumes "adds cr sub_scan ctx dir None lo hi (n, node) new" "chunker_ok (sc_chunker ctx)" "quiet (sc_os ctx)" "growing sub_scan" "noted hi = noted lo"
    "\<And>mode mtime ks salt s i sl s'. node = FDir mode mtime ks \<Longrightarrow> sub_scan (dir @ [n]) ks None salt s = Some (Inr (i, sl), s')
       \<Longrightarrow> length salt = 16 \<Longrightarrow> noted s' = noted s \<Longrightarrow> set (ss_log s') \<subseteq> set (ss_log hi) \<Longrightarrow> sl = salt \<and> sub_shows i salt ks"
  shows "if carries_name n \<and> node \<noteq> FOther then \<exists>e. new = [e] \<and> shows_node cr (sc_mk ctx) (set (ss_log hi)) sub_shows e (n, node) else new = []"
  using assms(1)
proof (cases rule: adds_cases)
  case none
  with assms(3) show ?thesis by (auto simp: quiet_def)
next
  case (scanned r s1 s2)
  note node = scanned(4) [unfolded prior_entry_def bind.simps]
  let ?sr = "scan_result r None s2"
  have end_: "grows (snd ?sr) hi" using scanned(7) by (simp add: prior_entry_def)
  note le = scan_node_grows [OF assms(4) node] scan_result_grows [of s2 r None]
  have same: "noted s2 = noted s1" "noted (snd ?sr) = noted s2"
    using le end_ scanned(6) assms(5) by (auto simp: grows_def)
  have log: "set (ss_log s2) \<subseteq> set (ss_log hi)" using le(2) end_ by (auto simp: grows_def)
  have no: "r \<noteq> ScanSkip m" for m using same(2) by (auto simp: scan_result_def)
  show ?thesis
  proof (cases node)
    case (FFile mode mtime c)
    with node have sf: "snapshot_file cr ctx (dir @ [n]) n mode mtime c None s1 = Some (Inr r, s2)"
      by (auto simp: scan_node_def sbind_eq_ok)
    with no obtain salt s4 where salt: "file_salt ctx None s1 = Some (Inr salt, s4)"
      and rd: "read_file cr ctx (dir @ [n]) n mode mtime c salt s4 = Some (Inr r, s2)"
      by (auto simp: snapshot_file_def fast_entry_def sbind_eq_ok split: if_splits)
    obtain e where e: "r = ScanEntry e"
      using no rd assms(3) by (cases r) (auto simp: read_file_def quiet_def Let_def split: option.splits sum.splits stream_error.splits if_splits)
    have "length salt = 16" using salt random_salt_ok by (auto simp: file_salt_def)
    with read_file_shows [OF rd [unfolded e] assms(2,3) _ log] scanned(1,5) show ?thesis
      by (auto simp: e scan_result_def FFile shows_node_def)
  next
    case (FDir mode mtime ks)
    with node obtain ps s3 x where ps: "prior_sub cr ctx None s1 = Some (Inr ps, s3)"
      and sub: "sub_scan (dir @ [n]) ks (fst ps) (snd ps) s3 = Some (x, s2)" and x: "dir_result (dir @ [n]) n mode mtime x = Inr r"
      by (auto simp: scan_node_def sbind_eq_ok rbind_eq_Inr)
    from x no obtain i sl where i: "x = Inr (i, sl)" "r = ScanEntry (EDir n (mode_of mode) mtime i sl)"
      by (cases rule: dir_result.elims) auto
    have p: "length (snd ps) = 16" "fst ps = None" "noted s3 = noted s1"
      using prior_sub_ok [of cr ctx None s1 "fst ps" "snd ps" s3] ps by simp_all
    have "sl = snd ps \<and> sub_shows i (snd ps) ks"
      using assms(6) [OF FDir, of "snd ps" s3 i sl s2] sub i(1) p same(1) log by simp
    then show ?thesis using scanned(1,5) by (auto simp: i(2) scan_result_def FDir shows_node_def)
  qed (use scanned(3) in simp)
qed

lemma adds_visible:
  assumes "list_all2 (adds cr sub_scan ctx dir None lo hi) ns ess"
    "\<And>p new. p \<in> set ns \<Longrightarrow> adds cr sub_scan ctx dir None lo hi p new \<Longrightarrow>
       if carries_name (fst p) \<and> snd p \<noteq> FOther then \<exists>e. new = [e] \<and> R e p else new = []"
  shows "list_all2 R (concat ess) (filter (\<lambda>(n, node). carries_name n \<and> node \<noteq> FOther) ns)"
  using assms
proof (induction ns ess rule: list_all2_induct)
  case (Cons p ns new ess)
  from Cons.prems [of p new] Cons.hyps(1)
  have "if carries_name (fst p) \<and> snd p \<noteq> FOther then \<exists>e. new = [e] \<and> R e p else new = []" by simp
  moreover have "list_all2 R (concat ess) (filter (\<lambda>(n, node). carries_name n \<and> node \<noteq> FOther) ns)"
    by (rule Cons.IH, rule Cons.prems) simp_all
  ultimately show ?case by (cases p) (auto split: if_splits)
qed simp

lemma snapshot_dir_depicts:
  "snapshot_dir k cr ctx dir ks None salt s = Some (Inr (i, sl), s') \<Longrightarrow> sc_limits ctx = SPEC \<Longrightarrow> chunker_ok (sc_chunker ctx) \<Longrightarrow>
     quiet (sc_os ctx) \<Longrightarrow> kids_wf ks \<Longrightarrow> length salt = 16 \<Longrightarrow> noted s' = noted s \<Longrightarrow> set (ss_log s') \<subseteq> L \<Longrightarrow>
     sl = salt \<and> depicts k cr (sc_mk ctx) L i salt ks"
proof (induction k arbitrary: dir ks salt s i sl s')
  case (Suc k)
  have pw: "\<forall>t. None = Some t \<longrightarrow> tree_wf t" by simp
  obtain ess seen where a: "list_all2 (adds cr (snapshot_dir k cr ctx) ctx dir None s s') (sort_key fst ks) ess"
    and t: "authored_tree cr (sc_mk ctx) i salt (sort_key entry_name (concat ess @ carried None seen))" and sl: "sl = salt"
    and so: "sorted_wrt (<) (map entry_name (concat ess))"
    and lg: "(TTree, salt, the (encode_tree (sort_key entry_name (concat ess @ carried None seen)))) \<in> set (ss_log s')"
    by (rule snapshot_dir_result [OF Suc.prems(1,2,5) pw Suc.prems(6)]) (rule that)
  have "sort_key entry_name (concat ess @ carried None seen) = concat ess"
    using so by (simp add: carried_def sort_key_id_if_sorted strict_sorted_iff)
  with t lg have t: "authored_tree cr (sc_mk ctx) i salt (concat ess)" "(TTree, salt, the (encode_tree (concat ess))) \<in> L"
    using Suc.prems(8) by auto
  let ?R = "shows_node cr (sc_mk ctx) L (depicts k cr (sc_mk ctx) L)"
  have "list_all2 ?R (concat ess) (visible ks)" unfolding visible_def
  proof (rule adds_visible [OF a])
    fix p new assume p: "p \<in> set (sort_key fst ks)" "adds cr (snapshot_dir k cr ctx) ctx dir None s s' p new"
    obtain n node where nn: "p = (n, node)" by (cases p)
    have "if carries_name n \<and> node \<noteq> FOther
        then \<exists>e. new = [e] \<and> shows_node cr (sc_mk ctx) (set (ss_log s')) (depicts k cr (sc_mk ctx) L) e (n, node) else new = []"
    proof (rule adds_shows [OF p(2) [unfolded nn] Suc.prems(3,4) snapshot_dir_growing Suc.prems(7)])
      fix mode mtime ks' salt' s1 i1 sl1 s2
      assume "node = FDir mode mtime ks'" "snapshot_dir k cr ctx (dir @ [n]) ks' None salt' s1 = Some (Inr (i1, sl1), s2)"
        "length salt' = 16" "noted s2 = noted s1" "set (ss_log s2) \<subseteq> set (ss_log s')"
      then show "sl1 = salt' \<and> depicts k cr (sc_mk ctx) L i1 salt' ks'"
        using Suc.IH Suc.prems(2-4,8) kids_wfD(3) [OF Suc.prems(5)] p(1) nn by simp
    qed
    then show "if carries_name (fst p) \<and> snd p \<noteq> FOther then \<exists>e. new = [e] \<and> ?R e p else new = []"
      using Suc.prems(8) by (auto simp: nn elim: shows_node_mono split: if_splits)
  qed
  with t sl show ?case by auto
qed simp

lemma snapshot_run_depicts:
  assumes "snapshot_run xof cr SPEC os keys None (Some ks) st memo = Some (Inr sn, s')" "quiet os" "kids_wf ks" "sn_skipped sn = []"
  shows "\<exists>mk. current keys = Some mk \<and> depicts MAX_TREE_DEPTH cr mk (set (ss_log s')) (sn_root sn) (sn_salt sn) ks"
proof -
  from assms(1) obtain mk ch where mk: "current keys = Some mk" "Chunker_with_defaults xof (cdc_seed cr mk) = Some ch"
    by (auto simp: snapshot_run_def split: option.splits)
  let ?s = "\<lparr>ss_store = st, ss_memo = memo, ss_skipped = [], ss_draws = 0, ss_log = []\<rparr>"
  let ?ctx = "\<lparr>sc_keys = keys, sc_mk = mk, sc_chunker = ch, sc_fast_path = False, sc_limits = SPEC, sc_os = os\<rparr>"
  from assms(1) mk obtain salt s1 i sl where salt: "random_salt os ?s = Some (Inr salt, s1)"
    and dir: "snapshot_dir MAX_TREE_DEPTH cr ?ctx [] ks None salt s1 = Some (Inr (i, sl), s')"
    and sn: "sn = \<lparr>sn_root = i, sn_salt = sl, sn_skipped = ss_skipped s'\<rparr>"
    by (auto simp: snapshot_run_def Let_def sbind_eq_ok)
  have "length salt = 16" "noted s' = noted s1" using random_salt_ok [OF salt] assms(4) by (simp_all add: sn)
  moreover have "chunker_ok ch" using mk(2) Chunker_new_ok by (simp add: Chunker_with_defaults_def)
  ultimately have "sl = salt \<and> depicts MAX_TREE_DEPTH cr mk (set (ss_log s')) i salt ks"
    using snapshot_dir_depicts [OF dir, of "set (ss_log s')"] assms(2,3) by simp
  with mk(1) show ?thesis by (simp add: sn)
qed

end
