(* ===== verification/Restore.thy ===== *)
theory Restore
  imports Snapshot Conflicts
begin

text \<open>
  The restore half of \<open>crates/secsec-snapshot\<close>: \<open>restore_tree_into\<close>, \<open>restore_commit_tree\<close>,
  \<open>restore_path\<close> and what they call. The state of a call is the directory it works in (its mode,
  modification time and names) and the walk's own state. Any system call that lists or changes the
  file system may fail: \<open>rc_faults\<close> is the sequence of their outcomes, \<open>None\<close> for success, and a call
  that fails changes nothing. Looking up the metadata of a name is exact. A directory whose names
  change takes the time \<open>re_now\<close>. Names are compared byte by byte. The \<open>None\<close> of a call is a panic.
\<close>

section \<open>State and system calls\<close>

record fdir =
  fd_mode :: u32
  fd_mtime :: u64
  fd_kids :: kids

record rctx =
  rc_faults :: "io_error option list"
  rc_draws :: nat
  rc_conflicts :: "bytes list"
  rc_skipped :: "bytes list"

record renv =
  re_crypto :: crypto
  re_keys :: master_keys
  re_store :: store
  re_label :: bytes
  re_random :: "nat \<Rightarrow> 64 word option"
  re_file_mode :: u32
  re_dir_mode :: u32
  re_now :: u64

type_synonym rstate = "fdir \<times> rctx"
type_synonym 'a rcall = "rstate \<Rightarrow> ((snap_error + 'a) \<times> rstate) option"

definition ret :: "'a \<Rightarrow> 'a rcall" where
  "ret x s = Some (Inr x, s)"

definition fails :: "snap_error \<Rightarrow> 'a rcall" where
  "fails e s = Some (Inl e, s)"

text \<open>The outcome of the next system call, and a call with the given effect.\<close>

definition next_fault :: "rctx \<Rightarrow> io_error option \<times> rctx" where
  "next_fault c = (case rc_faults c of [] \<Rightarrow> (None, c) | f # fs \<Rightarrow> (f, c\<lparr>rc_faults := fs\<rparr>))"

definition sys :: "(fdir \<Rightarrow> fdir) \<Rightarrow> unit rcall" where
  "sys f = (\<lambda>(d, c). case next_fault c of
     (Some e, c) \<Rightarrow> Some (Inl (SnapIo e), d, c)
   | (None, c) \<Rightarrow> Some (Inr (), f d, c))"

definition put_node :: "renv \<Rightarrow> bytes \<Rightarrow> fnode \<Rightarrow> fdir \<Rightarrow> fdir" where
  "put_node env n node d = d\<lparr>fd_kids := bt_insert n node (fd_kids d), fd_mtime := re_now env\<rparr>"

definition del_node :: "renv \<Rightarrow> bytes \<Rightarrow> fdir \<Rightarrow> fdir" where
  "del_node env n d = d\<lparr>fd_kids := bt_remove n (fd_kids d), fd_mtime := re_now env\<rparr>"

definition set_node :: "bytes \<Rightarrow> fnode \<Rightarrow> fdir \<Rightarrow> fdir" where
  "set_node n node d = d\<lparr>fd_kids := bt_insert n node (fd_kids d)\<rparr>"

abbreviation disk :: "fdir \<Rightarrow> bytes \<Rightarrow> fnode option" where
  "disk d n \<equiv> map_of (fd_kids d) n"

text \<open>A call in the directory of that name.\<close>

definition within_dir :: "bytes \<Rightarrow> 'a rcall \<Rightarrow> 'a rcall" where
  "within_dir n f = (\<lambda>(d, c). case disk d n of
     Some (FDir m t ks) \<Rightarrow>
       map_option (\<lambda>(x, d', c'). (x, set_node n (FDir (fd_mode d') (fd_mtime d') (fd_kids d')) d, c'))
         (f (\<lparr>fd_mode = m, fd_mtime = t, fd_kids = ks\<rparr>, c))
   | _ \<Rightarrow> Some (Inl (SnapIo IoNotFound), d, c))"

definition is_file :: "fnode \<Rightarrow> bool" where "is_file node \<longleftrightarrow> (case node of FFile _ _ _ \<Rightarrow> True | _ \<Rightarrow> False)"
definition is_dir :: "fnode \<Rightarrow> bool" where "is_dir node \<longleftrightarrow> (case node of FDir _ _ _ \<Rightarrow> True | _ \<Rightarrow> False)"

text \<open>\<open>create_dir_all\<close> of one name, \<open>remove_file\<close>, \<open>remove_dir_all\<close> and \<open>rename\<close>.\<close>

definition create_dir_all :: "renv \<Rightarrow> bytes \<Rightarrow> unit rcall" where
  "create_dir_all env n = (\<lambda>(d, c). case disk d n of
     None \<Rightarrow> sys (put_node env n (FDir (re_dir_mode env) (re_now env) [])) (d, c)
   | Some node \<Rightarrow> if is_dir node then ret () (d, c) else fails (SnapIo (IoOther ''exists'')) (d, c))"

definition remove_file :: "renv \<Rightarrow> bytes \<Rightarrow> unit rcall" where
  "remove_file env n = (\<lambda>(d, c). case disk d n of
     None \<Rightarrow> fails (SnapIo IoNotFound) (d, c)
   | Some node \<Rightarrow> if is_dir node then fails (SnapIo (IoOther ''is a directory'')) (d, c) else sys (del_node env n) (d, c))"

definition remove_dir_all :: "renv \<Rightarrow> bytes \<Rightarrow> unit rcall" where
  "remove_dir_all env n = sys (del_node env n)"

definition rename :: "renv \<Rightarrow> bytes \<Rightarrow> bytes \<Rightarrow> unit rcall" where
  "rename env tmp dest = (\<lambda>(d, c). case (disk d tmp, disk d dest) of
     (Some node, t) \<Rightarrow>
       if (case t of Some x \<Rightarrow> is_dir x | None \<Rightarrow> False) then fails (SnapIo (IoOther ''is a directory'')) (d, c)
       else sys (\<lambda>d. put_node env dest node (del_node env tmp d)) (d, c)
   | (None, _) \<Rightarrow> fails (SnapIo IoNotFound) (d, c))"

section \<open>Metadata\<close>

definition unchanged_since :: "fnode \<Rightarrow> tree_entry option \<Rightarrow> bool" where
  "unchanged_since node snap \<longleftrightarrow>
     (case (node, snap) of
        (FFile _ mtime content, Some (EFile _ _ smtime sz _ _)) \<Rightarrow> of_nat (length content) = sz \<and> mtime = smtime
      | _ \<Rightarrow> False)"

definition ensure_writable :: "u32 option rcall" where
  "ensure_writable = (\<lambda>(d, c).
     if fd_mode d AND 128 \<noteq> 0 then ret None (d, c)
     else sbind (sys (\<lambda>d. d\<lparr>fd_mode := fd_mode d OR 448\<rparr>) (d, c)) (\<lambda>_. ret (Some (fd_mode d))))"

definition put_back :: "u32 option \<Rightarrow> unit rcall" where
  "put_back perms = (case perms of None \<Rightarrow> ret () | Some p \<Rightarrow> sys (\<lambda>d. d\<lparr>fd_mode := p\<rparr>))"

fun with_meta :: "u32 \<Rightarrow> u64 \<Rightarrow> fnode \<Rightarrow> fnode" where
  "with_meta m t (FFile _ _ c) = FFile m t c"
| "with_meta m t (FDir _ _ ks) = FDir m t ks"
| "with_meta m t FOther = FOther"

text \<open>
  The recorded mode, unless the author had none, then the recorded time: a \<open>u64\<close> of nanoseconds is at
  most \<open>1.9e10\<close> seconds, so the split into seconds and nanoseconds is exact and nothing saturates.
\<close>

definition change_node :: "bytes \<Rightarrow> (fnode \<Rightarrow> fnode) \<Rightarrow> fdir \<Rightarrow> fdir" where
  "change_node n f d = (case disk d n of Some node \<Rightarrow> set_node n (f node) d | None \<Rightarrow> d)"

definition apply_metadata :: "bytes \<Rightarrow> u32 \<Rightarrow> u64 \<Rightarrow> unit rcall" where
  "apply_metadata n mode mtime s =
     sbind (if mode \<noteq> 0 then sys (change_node n (\<lambda>x. with_meta (mode AND 511) (f_mtime x) x)) s else ret () s) (\<lambda>_.
     sys (change_node n (\<lambda>x. with_meta (f_mode x) mtime x)))"

section \<open>Temporary files and folder icons\<close>

fun remove_temps :: "renv \<Rightarrow> bytes list \<Rightarrow> unit rcall" where
  "remove_temps env [] s = ret () s"
| "remove_temps env (n # ns) s =
     sbind (if from_utf8_ok n \<and> is_tmp n \<and> (case disk (fst s) n of Some node \<Rightarrow> is_file node | None \<Rightarrow> False)
            then remove_file env n s else ret () s) (\<lambda>_. remove_temps env ns)"

definition remove_stale_temps :: "renv \<Rightarrow> unit rcall" where
  "remove_stale_temps env s = sbind (sys id s) (\<lambda>_ s. remove_temps env (map fst (fd_kids (fst s))) s)"

definition MACOS_FOLDER_ICON :: bytes where "MACOS_FOLDER_ICON = ascii ''Icon'' @ [13]"

definition remove_lone_folder_icon :: "renv \<Rightarrow> unit rcall" where
  "remove_lone_folder_icon env s =
     sbind (sys id s) (\<lambda>_ s.
     case fd_kids (fst s) of
       [(n, node)] \<Rightarrow> if n = MACOS_FOLDER_ICON \<and> is_file node then remove_file env n s else ret () s
     | _ \<Rightarrow> ret () s)"

section \<open>Keep-both names\<close>

definition conflict_base :: "bytes \<Rightarrow> bytes \<Rightarrow> bytes" where
  "conflict_base name l =
     (case stem_ext name of
        (stem, Some ext) \<Rightarrow> stem @ conflict_tag l @ [46] @ ext
      | (_, None) \<Rightarrow> name @ conflict_tag l)"

text \<open>The loop on \<open>candidate\<close> and \<open>n\<close>; the increment of \<open>n\<close> panics at the last \<open>u32\<close>.\<close>

function free_name :: "(bytes \<Rightarrow> bool) \<Rightarrow> bytes \<Rightarrow> bytes \<Rightarrow> bytes \<Rightarrow> u32 \<Rightarrow> bytes option" where
  "free_name busy name label candidate n =
     (if busy candidate then
        (if n = - 1 then None else free_name busy name label (conflict_base name (label @ [45] @ dec (unat n))) (n + 1))
      else Some candidate)"
  by pat_completeness auto
termination
proof (relation "measure (\<lambda>(_, _, _, _, n). 2 ^ 32 - unat n)")
  fix n :: u32
  assume "n \<noteq> - 1"
  then have "1 + n \<noteq> 0" by (metis add.inverse_unique)
  then have "unat (n + 1) = Suc (unat n)" using unatSuc [of n] by (simp add: add.commute)
  moreover have "unat n < 2 ^ 32" using unsigned_less [of n] by simp
  ultimately show "((busy, name, label, conflict_base name (label @ [45] @ dec (unat n)), n + 1), busy, name, label, candidate, n)
      \<in> measure (\<lambda>(_, _, _, _, n). 2 ^ 32 - unat n)" for busy name label candidate by simp
qed simp

declare free_name.simps [simp del]

definition local_conflict_name :: "kids \<Rightarrow> bytes \<Rightarrow> bytes \<Rightarrow> bytes list \<Rightarrow> bytes option" where
  "local_conflict_name ks name label taken =
     free_name (\<lambda>candidate. candidate \<in> set taken \<or> map_of ks candidate \<noteq> None \<or> \<not> is_materializable candidate)
       name label (conflict_base name label) 2"

definition conflict_dest :: "renv \<Rightarrow> bytes \<Rightarrow> bytes \<Rightarrow> bytes list \<Rightarrow> bytes rcall" where
  "conflict_dest env name rel_path keep = (\<lambda>(d, c).
     case local_conflict_name (fd_kids d) name (re_label env) keep of
       None \<Rightarrow> None
     | Some cname \<Rightarrow> ret cname (d, c\<lparr>rc_conflicts := rc_conflicts c @ [rel_path]\<rparr>))"

section \<open>Removing what our snapshot tracked\<close>

text \<open>One name our snapshot has an entry for, with what is there now; the first argument removes what a
  tree tracked in a directory.\<close>

definition clear_name :: "(bytes \<Rightarrow> tree \<Rightarrow> bool rcall) \<Rightarrow> renv \<Rightarrow> tree_entry \<Rightarrow> fnode \<Rightarrow> unit rcall" where
  "clear_name sub env e node s =
     (case e of
        EFile n _ _ _ _ _ \<Rightarrow> if unchanged_since node (Some e) then remove_file env n s else ret () s
      | EDir n _ _ i salt \<Rightarrow>
          if is_dir node
          then sbind (reading id s (load_tree (re_crypto env) (re_keys env) (re_store env) i salt)) (\<lambda>t s. sbind (sub n t s) (\<lambda>_. ret ()))
          else ret () s)"

fun clear_entries :: "(bytes \<Rightarrow> tree \<Rightarrow> bool rcall) \<Rightarrow> renv \<Rightarrow> tree \<Rightarrow> unit rcall" where
  "clear_entries sub env [] s = ret () s"
| "clear_entries sub env (e # es) s =
     sbind (case disk (fst s) (entry_name e) of None \<Rightarrow> ret () s | Some node \<Rightarrow> clear_name sub env e node s) (\<lambda>_.
     clear_entries sub env es)"

definition try_remove_dir :: "renv \<Rightarrow> bytes \<Rightarrow> rstate \<Rightarrow> bool \<times> rstate" where
  "try_remove_dir env n = (\<lambda>(d, c). case next_fault c of
     (Some _, c) \<Rightarrow> (False, d, c)
   | (None, c) \<Rightarrow> (case disk d n of
        Some (FDir _ _ []) \<Rightarrow> (True, del_node env n d, c)
      | _ \<Rightarrow> (False, d, c)))"

text \<open>
  The directory is given by its name in the directory of the call; the first argument is the number
  of levels left, \<open>MAX_TREE_DEPTH\<close> less \<open>depth\<close>.
\<close>

primrec remove_tracked :: "nat \<Rightarrow> renv \<Rightarrow> bytes \<Rightarrow> tree \<Rightarrow> bool rcall" where
  "remove_tracked 0 env n snap s = fails DepthExceeded s"
| "remove_tracked (Suc k) env n snap s =
     sbind (within_dir n (\<lambda>s.
       sbind (ensure_writable s) (\<lambda>perms s.
       sbind (clear_entries (remove_tracked k env) env snap s) (\<lambda>_ s.
       sbind (remove_stale_temps env s) (\<lambda>_ s.
       sbind (remove_lone_folder_icon env s) (\<lambda>_. ret perms))))) s) (\<lambda>perms s.
     let (removed, s) = try_remove_dir env n s
     in if removed then ret True s else sbind (within_dir n (put_back perms) s) (\<lambda>_. ret False))"

section \<open>Writing one file\<close>

record file_target =
  ft_mode :: u32
  ft_mtime :: u64
  ft_size :: u64
  ft_salt :: bytes
  ft_chunks :: "bytes list"

definition hex_of :: "bytes \<Rightarrow> bytes" where
  "hex_of b = concat (map (\<lambda>x. [hex_digit (drop_bit 4 x), hex_digit (x AND 15)]) b)"

text \<open>The chunks, in order, appended to the temporary file; the result is the count of bytes written.\<close>

fun write_chunks :: "renv \<Rightarrow> bytes \<Rightarrow> bytes \<Rightarrow> u64 \<Rightarrow> bytes list \<Rightarrow> bytes \<Rightarrow> bytes rcall" where
  "write_chunks env tmp salt sz [] written s = ret written s"
| "write_chunks env tmp salt sz (c # cs) written s =
     sbind (reading id s (fetch_open (re_crypto env) (re_keys env) TChunk salt c (re_store env))) (\<lambda>padded s.
     sbind (reading SnapObject s (unpad_chunk padded PowerOfTwo)) (\<lambda>plain s.
     if MAX_CHUNK_LEN < length plain \<or> unat sz < sat_add (length written) (length plain)
     then fails (Malformed ''restored file exceeds its declared size'') s else
     sbind (sys (change_node tmp (\<lambda>_. FFile (re_file_mode env) (re_now env) (written @ plain))) s) (\<lambda>_.
     write_chunks env tmp salt sz cs (written @ plain))))"

definition write_tmp :: "renv \<Rightarrow> bytes \<Rightarrow> bytes \<Rightarrow> file_target \<Rightarrow> unit rcall" where
  "write_tmp env tmp dest ft = (\<lambda>(d, c).
     sbind (if disk d tmp \<noteq> None then fails (SnapIo (IoOther ''exists'')) (d, c)
            else sys (put_node env tmp (FFile (re_file_mode env) (re_now env) [])) (d, c)) (\<lambda>_ s.
     sbind (write_chunks env tmp (ft_salt ft) (ft_size ft) (ft_chunks ft) [] s) (\<lambda>written s.
     if length written \<noteq> unat (ft_size ft) then fails (Malformed ''restored file size mismatch'') s else
     sbind (sys id s) (\<lambda>_ s.
     sbind (apply_metadata tmp (ft_mode ft) (ft_mtime ft) s) (\<lambda>_.
     rename env tmp dest)))))"

definition drop_tmp :: "renv \<Rightarrow> bytes \<Rightarrow> rstate \<Rightarrow> rstate" where
  "drop_tmp env tmp s = (case remove_file env tmp s of Some (_, s) \<Rightarrow> s | None \<Rightarrow> s)"

definition write_file_atomic :: "renv \<Rightarrow> bytes \<Rightarrow> file_target \<Rightarrow> unit rcall" where
  "write_file_atomic env dest ft = (\<lambda>(d, c).
     case re_random env (rc_draws c) of
       None \<Rightarrow> fails SnapRng (d, c\<lparr>rc_draws := Suc (rc_draws c)\<rparr>)
     | Some w \<Rightarrow>
         let tmp = TMP_PREFIX @ hex_of (le_bytes 8 w)
         in map_option (\<lambda>(r, s). (r, if isl r then drop_tmp env tmp s else s))
              (write_tmp env tmp dest ft (d, c\<lparr>rc_draws := Suc (rc_draws c)\<rparr>)))"

section \<open>One directory\<close>

datatype against = AgainstSnapshot "tree option" | Overwrite

fun ours_of :: "against \<Rightarrow> tree option" where
  "ours_of (AgainstSnapshot t) = t"
| "ours_of Overwrite = None"

definition join_rel :: "bytes \<Rightarrow> bytes \<Rightarrow> bytes" where
  "join_rel prefix name = (if prefix = [] then name else prefix @ [47] @ name)"

text \<open>The deletions: one name of the listing that the target does not keep.\<close>

definition delete_name :: "(bytes \<Rightarrow> tree \<Rightarrow> bool rcall) \<Rightarrow> renv \<Rightarrow> against \<Rightarrow> bytes \<Rightarrow> unit rcall" where
  "delete_name sub env ag n s =
     (case disk (fst s) n of
        None \<Rightarrow> fails (SnapIo IoNotFound) s
      | Some node \<Rightarrow>
          if ag = Overwrite then
            (if is_file node then remove_file env n s else if is_dir node then remove_dir_all env n s else ret () s)
          else
            (case prior_entry (ours_of ag) n of Some e \<Rightarrow> clear_name sub env e node s | None \<Rightarrow> ret () s))"

fun delete_names :: "(bytes \<Rightarrow> tree \<Rightarrow> bool rcall) \<Rightarrow> renv \<Rightarrow> against \<Rightarrow> bytes list \<Rightarrow> bytes list \<Rightarrow> unit rcall" where
  "delete_names sub env ag keep [] s = ret () s"
| "delete_names sub env ag keep (n # ns) s =
     sbind (if from_utf8_ok n \<and> n \<notin> set keep \<and> is_safe_entry_name n \<and> \<not> is_tmp n then delete_name sub env ag n s else ret () s) (\<lambda>_.
     delete_names sub env ag keep ns)"

text \<open>
  Where an incoming file goes: nowhere (\<open>None\<close>), over its own name, or to a keep-both name. The first
  argument removes what our snapshot tracked in a directory of the name.
\<close>

definition same_chunks :: "tree_entry option \<Rightarrow> bytes list \<Rightarrow> bool" where
  "same_chunks snap cs \<longleftrightarrow> (case snap of Some (EFile _ _ _ _ _ c) \<Rightarrow> c = cs | _ \<Rightarrow> False)"

definition clear_dir :: "(bytes \<Rightarrow> tree \<Rightarrow> bool rcall) \<Rightarrow> renv \<Rightarrow> against \<Rightarrow> tree_entry option \<Rightarrow> bytes \<Rightarrow> bool rcall" where
  "clear_dir sub env ag snap n s =
     (if ag = Overwrite then sbind (remove_dir_all env n s) (\<lambda>_. ret True)
      else
        (case snap of
           Some (EDir _ _ _ i salt) \<Rightarrow>
             sbind (reading id s (load_tree (re_crypto env) (re_keys env) (re_store env) i salt)) (\<lambda>t. sub n t)
         | _ \<Rightarrow> ret False s))"

definition file_dest :: "(bytes \<Rightarrow> tree \<Rightarrow> bool rcall) \<Rightarrow> renv \<Rightarrow> against \<Rightarrow> bytes list \<Rightarrow> bytes \<Rightarrow> bytes \<Rightarrow> file_target \<Rightarrow> bytes option rcall" where
  "file_dest sub env ag keep n rel_path ft s =
     (let snap = prior_entry (ours_of ag) n;
          kept = ag \<noteq> Overwrite \<and> same_chunks snap (ft_chunks ft)
      in case disk (fst s) n of
           None \<Rightarrow> ret (if kept then None else Some n) s
         | Some (FFile a b c) \<Rightarrow>
             if kept then
               sbind (if unchanged_since (FFile a b c) snap then apply_metadata n (ft_mode ft) (ft_mtime ft) s else ret () s) (\<lambda>_. ret None)
             else if ag = Overwrite \<or> unchanged_since (FFile a b c) snap then ret (Some n) s
             else sbind (conflict_dest env n rel_path keep s) (\<lambda>d. ret (Some d))
         | Some (FDir _ _ _) \<Rightarrow>
             sbind (clear_dir sub env ag snap n s) (\<lambda>cleared s.
             if cleared then ret (Some n) s else sbind (conflict_dest env n rel_path keep s) (\<lambda>d. ret (Some d)))
         | Some FOther \<Rightarrow> sbind (remove_file env n s) (\<lambda>_. ret (Some n)))"

definition snap_sub :: "tree_entry option \<Rightarrow> (bytes \<times> bytes) option" where
  "snap_sub snap = (case snap of Some (EDir _ _ _ i salt) \<Rightarrow> Some (i, salt) | _ \<Rightarrow> None)"

definition dir_dest :: "renv \<Rightarrow> against \<Rightarrow> bytes list \<Rightarrow> bytes \<Rightarrow> bytes \<Rightarrow> bytes \<Rightarrow> bytes option rcall" where
  "dir_dest env ag keep n rel_path subtree s =
     (let snap = prior_entry (ours_of ag) n
      in case disk (fst s) n of
           None \<Rightarrow> ret (if ag \<noteq> Overwrite \<and> map_option fst (snap_sub snap) = Some subtree then None else Some n) s
         | Some (FDir _ _ _) \<Rightarrow> ret (Some n) s
         | Some (FFile a b c) \<Rightarrow>
             if ag = Overwrite \<or> unchanged_since (FFile a b c) snap then sbind (remove_file env n s) (\<lambda>_. ret (Some n))
             else sbind (conflict_dest env n rel_path keep s) (\<lambda>d. ret (Some d))
         | Some FOther \<Rightarrow> sbind (remove_file env n s) (\<lambda>_. ret (Some n)))"

text \<open>Our snapshot of the same directory, only when writing to that same name.\<close>

definition sub_against :: "renv \<Rightarrow> against \<Rightarrow> bytes \<Rightarrow> bytes \<Rightarrow> snap_error + against" where
  "sub_against env ag n dest =
     rbind (case snap_sub (prior_entry (ours_of ag) n) of
              Some (i, salt) \<Rightarrow>
                if dest = n then rbind (load_tree (re_crypto env) (re_keys env) (re_store env) i salt) (\<lambda>t. Inr (Some t)) else Inr None
            | None \<Rightarrow> Inr None)
       (\<lambda>t. Inr (if ag = Overwrite then Overwrite else AgainstSnapshot t))"

type_synonym dir_restore = "bytes option \<Rightarrow> bytes \<Rightarrow> bytes \<Rightarrow> against \<Rightarrow> bytes \<Rightarrow> unit rcall"

definition skip_entry :: "bytes \<Rightarrow> unit rcall" where
  "skip_entry rel_path = (\<lambda>(d, c). ret () (d, c\<lparr>rc_skipped := rc_skipped c @ [rel_path]\<rparr>))"

definition restore_entry :: "dir_restore \<Rightarrow> (bytes \<Rightarrow> tree \<Rightarrow> bool rcall) \<Rightarrow> renv \<Rightarrow> against \<Rightarrow> bytes list \<Rightarrow> bytes \<Rightarrow> tree_entry \<Rightarrow> unit rcall" where
  "restore_entry sub_restore sub env ag keep rel e s =
     (let n = entry_name e;
          rel_path = join_rel rel n
      in if \<not> is_materializable n then skip_entry rel_path s
         else case e of
           EFile _ mode mtime sz salt cs \<Rightarrow>
             let ft = \<lparr>ft_mode = mode, ft_mtime = mtime, ft_size = sz, ft_salt = salt, ft_chunks = cs\<rparr>
             in sbind (file_dest sub env ag keep n rel_path ft s) (\<lambda>dest.
                case dest of None \<Rightarrow> ret () | Some dest \<Rightarrow> write_file_atomic env dest ft)
         | EDir _ mode mtime i salt \<Rightarrow>
             sbind (dir_dest env ag keep n rel_path i s) (\<lambda>dest s.
             case dest of
               None \<Rightarrow> ret () s
             | Some dest \<Rightarrow>
                 sbind (reading id s (sub_against env ag n dest)) (\<lambda>sag s.
                 sbind (sub_restore (Some dest) i salt sag rel_path s) (\<lambda>_.
                 apply_metadata dest mode mtime))))"

fun restore_entries :: "dir_restore \<Rightarrow> (bytes \<Rightarrow> tree \<Rightarrow> bool rcall) \<Rightarrow> renv \<Rightarrow> against \<Rightarrow> bytes list \<Rightarrow> bytes \<Rightarrow> tree \<Rightarrow> unit rcall" where
  "restore_entries sub_restore sub env ag keep rel [] s = ret () s"
| "restore_entries sub_restore sub env ag keep rel (e # es) s =
     sbind (restore_entry sub_restore sub env ag keep rel e s) (\<lambda>_. restore_entries sub_restore sub env ag keep rel es)"

definition restore_loaded :: "dir_restore \<Rightarrow> (bytes \<Rightarrow> tree \<Rightarrow> bool rcall) \<Rightarrow> renv \<Rightarrow> tree \<Rightarrow> against \<Rightarrow> bytes \<Rightarrow> unit rcall" where
  "restore_loaded sub_restore sub env t ag rel s =
     sbind (ensure_writable s) (\<lambda>perms s.
     sbind (remove_stale_temps env s) (\<lambda>_ s.
     sbind (sys id s) (\<lambda>_ s.
     sbind (delete_names sub env ag (map entry_name t) (map fst (fd_kids (fst s))) s) (\<lambda>_ s.
     sbind (restore_entries sub_restore sub env ag (map entry_name t) rel t s) (\<lambda>_.
     put_back perms)))))"

text \<open>
  The first argument is the number of levels left; the next name says which directory: one of the
  directory of the call, created if absent, or (\<open>None\<close>) the directory of the call itself.
\<close>

primrec restore_dir :: "nat \<Rightarrow> renv \<Rightarrow> dir_restore" where
  "restore_dir 0 env at i salt ag rel s = fails DepthExceeded s"
| "restore_dir (Suc k) env at i salt ag rel s =
     sbind (reading id s (load_tree (re_crypto env) (re_keys env) (re_store env) i salt)) (\<lambda>t s.
     case at of
       None \<Rightarrow> restore_loaded (restore_dir k env) (remove_tracked k env) env t ag rel s
     | Some n \<Rightarrow>
         sbind (create_dir_all env n s) (\<lambda>_.
         within_dir n (restore_loaded (restore_dir k env) (remove_tracked k env) env t ag rel)))"

section \<open>The entry points\<close>

text \<open>The destination is the directory, or \<open>None\<close> when it does not exist yet.\<close>

definition make_root :: "renv \<Rightarrow> fdir option \<Rightarrow> rctx \<Rightarrow> ((snap_error + unit) \<times> rstate) option" where
  "make_root env dest c =
     (case dest of
        Some d \<Rightarrow> ret () (d, c)
      | None \<Rightarrow> sys id (\<lparr>fd_mode = re_dir_mode env, fd_mtime = re_now env, fd_kids = []\<rparr>, c))"

definition restore_tree_into :: "renv \<Rightarrow> bytes \<times> bytes \<Rightarrow> (bytes \<times> bytes) option \<Rightarrow> fdir option \<Rightarrow> rctx \<Rightarrow> ((snap_error + unit) \<times> rstate) option" where
  "restore_tree_into env target ours dest c =
     sbind (make_root env dest c) (\<lambda>_ s.
     sbind (reading id s (case ours of
              None \<Rightarrow> Inr None
            | Some (i, salt) \<Rightarrow> rbind (load_tree (re_crypto env) (re_keys env) (re_store env) i salt) (\<lambda>t. Inr (Some t)))) (\<lambda>ours.
     restore_dir MAX_TREE_DEPTH env None (fst target) (snd target) (AgainstSnapshot ours) []))"

definition restore_commit_tree :: "renv \<Rightarrow> commit \<Rightarrow> bytes \<Rightarrow> (bytes \<times> bytes) option \<Rightarrow> fdir option \<Rightarrow> rctx \<Rightarrow> ((snap_error + unit) \<times> rstate) option" where
  "restore_commit_tree env c cid ours =
     restore_tree_into (env\<lparr>re_label := hex12 (c_device_id c) @ [45] @ hex12 cid\<rparr>) (root_tree c, root_salt c) ours"

text \<open>
  \<open>restore_path\<close>: \<open>safe_join\<close> walks the components one by one, creates missing directories and refuses
  anything else on the way, named by its path below the root (the second argument is the path so far);
  the last component is handed to the write. Without components the source returns the root itself, a
  case \<open>restore_path\<close> below takes before the call.
\<close>

fun safe_join :: "renv \<Rightarrow> bytes \<Rightarrow> bytes list \<Rightarrow> (bytes \<Rightarrow> 'a rcall) \<Rightarrow> 'a rcall" where
  "safe_join env shown [] f s = fails (UnsafePath shown) s"
| "safe_join env shown [n] f s = f n s"
| "safe_join env shown (n # m # p) f s =
     (case disk (fst s) n of
        Some node \<Rightarrow> if is_dir node then within_dir n (safe_join env (join_rel shown n) (m # p) f) s else fails (UnsafePath (join_rel shown n)) s
      | None \<Rightarrow>
          sbind (sys (put_node env n (FDir (re_dir_mode env) (re_now env) [])) s) (\<lambda>_. within_dir n (safe_join env (join_rel shown n) (m # p) f)))"

definition pruned :: "bytes \<Rightarrow> ((snap_error + 'a) \<times> 's) option \<Rightarrow> ((snap_error + 'a) \<times> 's) option" where
  "pruned path = map_option (\<lambda>(r, s). (map_err (\<lambda>e. case e of Missing _ \<Rightarrow> PrunedBeyondRetention path | e \<Rightarrow> e) r, s))"

definition restore_node :: "renv \<Rightarrow> bytes \<Rightarrow> path_node \<Rightarrow> bytes \<Rightarrow> unit rcall" where
  "restore_node env path node n s =
     (case node of
        PFile mode mtime sz salt cs \<Rightarrow>
          sbind (if (case disk (fst s) n of Some x \<Rightarrow> is_dir x | None \<Rightarrow> False) then remove_dir_all env n s else ret () s) (\<lambda>_ s.
          pruned path (write_file_atomic env n \<lparr>ft_mode = mode, ft_mtime = mtime, ft_size = sz, ft_salt = salt, ft_chunks = cs\<rparr> s))
      | PDir i salt \<Rightarrow>
          sbind (if (case disk (fst s) n of Some x \<Rightarrow> \<not> is_dir x | None \<Rightarrow> False) then remove_file env n s else ret () s) (\<lambda>_ s.
          pruned path (restore_dir MAX_TREE_DEPTH env (Some n) i salt Overwrite path s)))"

definition restore_path :: "renv \<Rightarrow> commit \<Rightarrow> bytes \<Rightarrow> unit rcall" where
  "restore_path env c path s =
     (let comps = path_components path
      in if list_ex (\<lambda>n. n = [46, 46] \<or> \<not> is_materializable n) comps then fails (UnsafePath path) s else
         case resolve_path (re_crypto env) (re_keys env) (re_store env) (root_tree c) (root_salt c) path of
           Inr None \<Rightarrow> fails (PathNotFound path) s
         | Inl (Missing _) \<Rightarrow> fails (PrunedBeyondRetention path) s
         | Inl e \<Rightarrow> fails e s
         | Inr (Some node) \<Rightarrow>
             (case comps of
                [] \<Rightarrow> (case node of
                          PDir i salt \<Rightarrow> pruned path (restore_dir MAX_TREE_DEPTH env None i salt Overwrite path s)
                        | _ \<Rightarrow> None)
              | _ \<Rightarrow> safe_join env [] comps (restore_node env path node) s))"

section \<open>What a restore keeps\<close>

fun node_at :: "kids \<Rightarrow> bytes list \<Rightarrow> fnode option" where
  "node_at ks [] = None"
| "node_at ks [n] = map_of ks n"
| "node_at ks (n # m # p) = (case map_of ks n of Some (FDir _ _ ks') \<Rightarrow> node_at ks' (m # p) | _ \<Rightarrow> None)"

abbreviation found :: "bytes list \<Rightarrow> fnode \<Rightarrow> rstate \<Rightarrow> bool" where
  "found p f s \<equiv> node_at (fd_kids (fst s)) p = Some f"

definition keeps :: "bytes list \<Rightarrow> fnode \<Rightarrow> 'a rcall \<Rightarrow> bool" where
  "keeps p f m \<longleftrightarrow> (\<forall>s x s'. found p f s \<longrightarrow> m s = Some (x, s') \<longrightarrow> found p f s')"

lemma keepsI: "(\<And>s x s'. found p f s \<Longrightarrow> m s = Some (x, s') \<Longrightarrow> found p f s') \<Longrightarrow> keeps p f m"
  unfolding keeps_def by blast

lemma keepsD: "keeps p f m \<Longrightarrow> m s = Some (x, s') \<Longrightarrow> found p f s \<Longrightarrow> found p f s'"
  unfolding keeps_def by blast

lemma keeps_pure [simp]: "keeps p f (ret x)" "keeps p f (fails e)"
  by (simp_all add: keeps_def ret_def fails_def)

lemma keeps_reading [simp]: "keeps p f (\<lambda>s. reading g s (r s))"
  by (auto simp: keeps_def reading_def)

lemma keeps_sbind: "keeps p f m \<Longrightarrow> (\<And>x. keeps p f (g x)) \<Longrightarrow> keeps p f (\<lambda>s. sbind (m s) g)"
  by (rule keepsI, erule sbind_cases) (auto dest: keepsD)

text \<open>A call that depends on the state keeps the node if what it does in each state does.\<close>

lemma keeps_pick:
  assumes "\<And>s. found p f s \<Longrightarrow> \<exists>m'. m s = m' s \<and> keeps p f m'"
  shows "keeps p f m"
proof (rule keepsI)
  fix s x s' assume "found p f s" "m s = Some (x, s')"
  moreover from assms [OF this(1)] obtain m' where "m s = m' s" "keeps p f m'" by blast
  ultimately show "found p f s'" by (metis keepsD)
qed

lemma keeps_cong:
  assumes "\<And>s. m s = m' s" "keeps p f m'"
  shows "keeps p f m"
proof -
  have "m = m'" using assms(1) by (rule ext)
  with assms(2) show ?thesis by simp
qed

lemma keeps_if: "(b \<Longrightarrow> keeps p f m) \<Longrightarrow> (\<not> b \<Longrightarrow> keeps p f m') \<Longrightarrow> keeps p f (\<lambda>s. if b then m s else m' s)"
  by (cases b) simp_all

lemma keeps_when: "keeps p f m \<Longrightarrow> keeps p f m' \<Longrightarrow> keeps p f (\<lambda>s. if b s then m s else m' s)"
  by (rule keeps_pick) metis

lemma keeps_sys:
  assumes "\<And>d. node_at (fd_kids d) p = Some f \<Longrightarrow> node_at (fd_kids (h d)) p = Some f"
  shows "keeps p f (sys h)"
  using assms by (auto simp: keeps_def sys_def split: prod.splits option.splits)

lemma node_at_cong: "map_of ks' n = map_of ks n \<Longrightarrow> node_at ks' (n # p) = node_at ks (n # p)"
  by (cases p) simp_all

lemma node_at_file:
  assumes "node_at ks (n # p) = Some f" "is_file f"
  obtains (leaf) "p = []" "map_of ks n = Some f"
  | (branch) m t ks' where "p \<noteq> []" "map_of ks n = Some (FDir m t ks')" "node_at ks' p = Some f"
  using assms by (cases p) (auto split: option.splits fnode.splits)

lemma node_at_dir: "map_of ks n = Some (FDir m t ks') \<Longrightarrow> p \<noteq> [] \<Longrightarrow> node_at ks (n # p) = node_at ks' p"
  by (cases p) simp_all

lemma node_at_empty [simp]: "node_at [] p = None"
  by (induction "[] :: kids" p rule: node_at.induct) simp_all

text \<open>Operations on another name keep the node, and so do operations inside the directory that keep it there.\<close>

lemma kids_simps [simp]:
  "fd_kids (put_node env n node d) = bt_insert n node (fd_kids d)" "fd_kids (del_node env n d) = bt_remove n (fd_kids d)"
  "fd_kids (set_node n node d) = bt_insert n node (fd_kids d)"
  by (simp_all add: put_node_def del_node_def set_node_def)

lemma keeps_other:
  assumes "m \<noteq> n"
  shows "keeps (n # p) f (sys (put_node env m node))" "keeps (n # p) f (sys (del_node env m))" "keeps (n # p) f (sys (change_node m g))"
  using assms by (auto intro!: keeps_sys simp: change_node_def node_at_cong [of "bt_insert m _ _" n] node_at_cong [of "bt_remove m _" n] split: option.splits)

lemma keeps_remove_file: "m \<noteq> n \<Longrightarrow> keeps (n # p) f (remove_file env m)"
  by (rule keepsI) (auto simp: remove_file_def fails_def split: prod.splits option.splits if_splits dest: keepsD [OF keeps_other(2)])

lemma keeps_remove_file_dir: "p \<noteq> [] \<Longrightarrow> is_file f \<Longrightarrow> keeps (n # p) f (remove_file env n)"
  by (rule keepsI) (auto simp: remove_file_def fails_def is_dir_def node_at_dir elim!: node_at_file split: prod.splits)

lemma keeps_within:
  assumes "is_file f" "m = n \<Longrightarrow> p \<noteq> [] \<Longrightarrow> keeps p f g"
  shows "keeps (n # p) f (within_dir m g)"
proof (rule keepsI)
  fix s x s' assume f: "found (n # p) f s" and r: "within_dir m g s = Some (x, s')"
  obtain d c where s: "s = (d, c)" by (cases s)
  show "found (n # p) f s'"
  proof (cases "disk d m")
    case None
    with f r s show ?thesis by (auto simp: within_dir_def)
  next
    case (Some node)
    show ?thesis
    proof (cases "is_dir node")
      case False
      with Some f r s show ?thesis by (auto simp: within_dir_def is_dir_def split: fnode.splits)
    next
      case True
      then obtain mo t ks where node: "node = FDir mo t ks" by (cases node) (auto simp: is_dir_def)
      with r s Some obtain d' c' where g: "g (\<lparr>fd_mode = mo, fd_mtime = t, fd_kids = ks\<rparr>, c) = Some (x, d', c')"
        and s': "s' = (set_node m (FDir (fd_mode d') (fd_mtime d') (fd_kids d')) d, c')" by (auto simp: within_dir_def)
      show ?thesis
      proof (cases "m = n")
        case False
        with f show ?thesis by (simp add: s s' node_at_cong [of "bt_insert m _ _" n])
      next
        case eq: True
        from f s have "node_at (fd_kids d) (n # p) = Some f" by simp
        from this assms(1) show ?thesis
        proof (cases rule: node_at_file)
          case leaf
          with Some eq node have "f = FDir mo t ks" by simp
          with assms(1) show ?thesis by (simp add: is_file_def)
        next
          case (branch m1 t1 ks1)
          with Some eq node have "node_at ks p = Some f" by simp
          with keepsD [OF assms(2) [OF eq branch(1)] g] branch(1) show ?thesis
            by (simp add: s' eq node_at_dir)
        qed
      qed
    qed
  qed
qed

lemma keeps_sys_id [simp]: "keeps p f (sys id)"
  by (rule keeps_sys) simp

lemma keeps_meta [simp]: "keeps p f ensure_writable" "keeps p f (put_back perms)"
proof -
  have s: "keeps p f (sys (\<lambda>d. d\<lparr>fd_mode := g d\<rparr>))" for g by (rule keeps_sys) simp
  have "\<exists>m'. ensure_writable st = m' st \<and> keeps p f m'" for st
    by (intro exI [of _ "if fd_mode (fst st) AND 128 \<noteq> 0 then ret None
          else (\<lambda>s. sbind (sys (\<lambda>d. d\<lparr>fd_mode := fd_mode d OR 448\<rparr>) s) (\<lambda>_. ret (Some (fd_mode (fst st)))))"])
      (auto simp: ensure_writable_def split: prod.splits intro!: keeps_sbind s)
  then show "keeps p f ensure_writable" by (rule keeps_pick)
  show "keeps p f (put_back perms)" using s by (cases perms) (simp_all add: put_back_def)
qed

lemma keeps_change:
  assumes "m \<noteq> n \<or> p \<noteq> []" "is_file f"
  shows "keeps (n # p) f (sys (change_node m (\<lambda>x. with_meta (g x) (h x) x)))"
proof (cases "m = n")
  case True
  with assms(1) have p: "p \<noteq> []" by simp
  show ?thesis
  proof (rule keeps_sys)
    fix d :: fdir assume "node_at (fd_kids d) (n # p) = Some f"
    from this assms(2) show "node_at (fd_kids (change_node m (\<lambda>x. with_meta (g x) (h x) x) d)) (n # p) = Some f"
      by (cases rule: node_at_file) (use p True assms(2) in \<open>simp_all add: change_node_def node_at_dir\<close>)
  qed
qed (rule keeps_other)

lemma keeps_apply_metadata:
  assumes "m \<noteq> n \<or> p \<noteq> []" "is_file f"
  shows "keeps (n # p) f (apply_metadata m mode mtime)"
  unfolding apply_metadata_def [abs_def]
  by (intro keeps_sbind keeps_if keeps_change [OF assms] keeps_pure)

lemma keeps_remove_known:
  assumes "is_file f" "m \<noteq> n \<or> p \<noteq> []"
  shows "keeps (n # p) f (remove_file env m)"
  using assms keeps_remove_file keeps_remove_file_dir by metis

lemma keeps_remove_temps:
  assumes "is_file f" "p = [] \<Longrightarrow> \<not> is_tmp n"
  shows "keeps (n # p) f (remove_temps env ns)"
proof (induction ns)
  case Nil
  show ?case by (rule keeps_pick) (auto intro: exI [of _ "ret ()"])
next
  case (Cons m ns)
  have "keeps (n # p) f (\<lambda>s. if from_utf8_ok m \<and> is_tmp m \<and> (case disk (fst s) m of Some node \<Rightarrow> is_file node | None \<Rightarrow> False)
      then remove_file env m s else ret () s)"
  proof (cases "m = n \<and> p = []")
    case True
    with assms(2) show ?thesis by simp
  next
    case False
    with assms(1) show ?thesis by (intro keeps_when keeps_remove_known) simp_all
  qed
  from keeps_sbind [OF this Cons] show ?case by (rule keeps_cong [rotated]) simp
qed

lemma keeps_stale_temps:
  assumes "is_file f" "p = [] \<Longrightarrow> \<not> is_tmp n"
  shows "keeps (n # p) f (remove_stale_temps env)"
  unfolding remove_stale_temps_def [abs_def]
proof (intro keeps_sbind keeps_sys_id keeps_pick)
  fix s :: rstate
  show "\<exists>m'. remove_temps env (map fst (fd_kids (fst s))) s = m' s \<and> keeps (n # p) f m'"
    by (intro exI [of _ "remove_temps env (map fst (fd_kids (fst s)))"]) (use keeps_remove_temps [OF assms] in simp)
qed

lemma keeps_lone_icon:
  assumes "is_file f" "p = [] \<Longrightarrow> n \<noteq> MACOS_FOLDER_ICON"
  shows "keeps (n # p) f (remove_lone_folder_icon env)"
  unfolding remove_lone_folder_icon_def [abs_def]
proof (intro keeps_sbind keeps_sys_id keeps_pick)
  fix s :: rstate
  have "keeps (n # p) f (\<lambda>s. if m = MACOS_FOLDER_ICON \<and> is_file node then remove_file env m s else ret () s)" for m node
  proof (cases "m = n \<and> p = []")
    case True
    with assms(2) show ?thesis by simp
  next
    case False
    with assms(1) show ?thesis by (intro keeps_when keeps_remove_known) simp_all
  qed
  then have "\<exists>m'. (if m = MACOS_FOLDER_ICON \<and> is_file node then remove_file env m s else ret () s) = m' s \<and> keeps (n # p) f m'" for m node
    by (intro exI [of _ "\<lambda>s. if m = MACOS_FOLDER_ICON \<and> is_file node then remove_file env m s else ret () s"]) simp
  moreover have "\<exists>m'. ret () s = m' s \<and> keeps (n # p) f m'" by (intro exI [of _ "ret ()"]) simp
  ultimately show "\<exists>m'. (case fd_kids (fst s) of [(m, node)] \<Rightarrow> if m = MACOS_FOLDER_ICON \<and> is_file node then remove_file env m s else ret () s
      | _ \<Rightarrow> ret () s) = m' s \<and> keeps (n # p) f m'"
    by (cases "fd_kids (fst s)" rule: remdups_adj.cases) auto
qed

section \<open>Local edits survive\<close>

text \<open>
  Our snapshot of a subdirectory, and the files a restore must not touch: not one of restore's own
  temporaries or a folder icon, and not what our snapshot recorded there.
\<close>

definition sub_tree :: "renv \<Rightarrow> tree option \<Rightarrow> bytes \<Rightarrow> tree option" where
  "sub_tree env ours n =
     (case snap_sub (prior_entry ours n) of
        None \<Rightarrow> None
      | Some (i, salt) \<Rightarrow> (case load_tree (re_crypto env) (re_keys env) (re_store env) i salt of Inr t \<Rightarrow> Some t | Inl _ \<Rightarrow> None))"

fun edited :: "renv \<Rightarrow> tree option \<Rightarrow> bytes list \<Rightarrow> fnode \<Rightarrow> bool" where
  "edited env ours [] f = False"
| "edited env ours [n] f \<longleftrightarrow> \<not> is_tmp n \<and> n \<noteq> MACOS_FOLDER_ICON \<and> \<not> unchanged_since f (prior_entry ours n)"
| "edited env ours (n # m # p) f = edited env (sub_tree env ours n) (m # p) f"

lemma edited_branch: "p \<noteq> [] \<Longrightarrow> edited env ours (n # p) f = edited env (sub_tree env ours n) p f"
  by (cases p) simp_all

lemma load_tree_wf: "load_tree cr keys st i salt = Inr t \<Longrightarrow> tree_wf t"
  by (auto simp: load_tree_def rbind_eq_Inr decode_tree_iff)

lemma sub_tree_loaded:
  "prior_entry ours n = Some (EDir a b c i salt) \<Longrightarrow> load_tree (re_crypto env) (re_keys env) (re_store env) i salt = Inr t \<Longrightarrow> sub_tree env ours n = Some t"
  by (simp add: sub_tree_def snap_sub_def)

definition clears :: "renv \<Rightarrow> fnode \<Rightarrow> (bytes \<Rightarrow> tree \<Rightarrow> bool rcall) \<Rightarrow> bool" where
  "clears env f sub \<longleftrightarrow> (\<forall>m t n p. tree_wf t \<longrightarrow> (m = n \<and> p \<noteq> [] \<longrightarrow> edited env (Some t) p f) \<longrightarrow> keeps (n # p) f (sub m t))"

lemma keeps_load:
  assumes "\<And>t. load_tree (re_crypto env) (re_keys env) (re_store env) i salt = Inr t \<Longrightarrow> keeps p f (g t)"
  shows "keeps p f (\<lambda>s. sbind (reading id s (load_tree (re_crypto env) (re_keys env) (re_store env) i salt)) g)"
proof (cases "load_tree (re_crypto env) (re_keys env) (re_store env) i salt")
  case (Inl e)
  then show ?thesis by (intro keeps_cong [OF _ keeps_pure(2)]) (simp add: reading_def fails_def)
next
  case (Inr t)
  with assms show ?thesis by (intro keeps_cong [OF _ assms]) (simp_all add: reading_def)
qed

lemma keeps_sub:
  assumes "clears env f sub" "tree_wf t" "m = n \<Longrightarrow> p \<noteq> [] \<Longrightarrow> edited env (Some t) p f"
  shows "keeps (n # p) f (sub m t)" "keeps (n # p) f (\<lambda>s. sbind (sub m t s) (\<lambda>_. ret ()))"
proof -
  show k: "keeps (n # p) f (sub m t)" using assms unfolding clears_def by blast
  show "keeps (n # p) f (\<lambda>s. sbind (sub m t s) (\<lambda>_. ret ()))" by (rule keeps_sbind [OF k]) simp
qed

lemma keeps_clear_name:
  assumes "is_file f" "clears env f sub" "prior_entry ours (entry_name e) = Some e" "edited env ours (n # p) f"
    "entry_name e = n \<Longrightarrow> p = [] \<Longrightarrow> node = f" "entry_name e = n \<Longrightarrow> p \<noteq> [] \<Longrightarrow> is_dir node"
  shows "keeps (n # p) f (clear_name sub env e node)"
proof (cases e)
  case (EFile m a b c d g)
  have "keeps (n # p) f (remove_file env m)" if u: "unchanged_since node (Some e)"
  proof (rule keeps_remove_known [OF assms(1)], rule ccontr)
    assume "\<not> (m \<noteq> n \<or> p \<noteq> [])"
    with EFile assms(3-5) u show False by auto
  qed
  then show ?thesis by (auto simp: clear_name_def [abs_def] EFile intro!: keeps_if)
next
  case (EDir m a b i salt)
  have "keeps (n # p) f (\<lambda>s. sbind (sub m t s) (\<lambda>_. ret ()))"
    if l: "load_tree (re_crypto env) (re_keys env) (re_store env) i salt = Inr t" for t
  proof (rule keeps_sub(2) [OF assms(2) load_tree_wf [OF l]])
    assume "m = n" "p \<noteq> []"
    with assms(3,4) EDir sub_tree_loaded [of ours n _ _ _ i salt env t] l show "edited env (Some t) p f" by (simp add: edited_branch)
  qed
  then show ?thesis unfolding clear_name_def [abs_def] EDir tree_entry.case by (intro keeps_if keeps_load keeps_pure)
qed

lemma keeps_clear_entries:
  assumes "is_file f" "clears env f sub" "edited env (Some snap) (n # p) f" "tree_wf snap" "set es \<subseteq> set snap"
  shows "keeps (n # p) f (clear_entries sub env es)"
  using assms(5)
proof (induction es)
  case Nil
  show ?case by (rule keeps_cong [OF _ keeps_pure(1)]) simp
next
  case (Cons e es)
  have "keeps (n # p) f (\<lambda>s. case disk (fst s) (entry_name e) of None \<Rightarrow> ret () s | Some node \<Rightarrow> clear_name sub env e node s)"
  proof (rule keeps_pick)
    fix s :: rstate assume s: "found (n # p) f s"
    show "\<exists>m'. (case disk (fst s) (entry_name e) of None \<Rightarrow> ret () s | Some node \<Rightarrow> clear_name sub env e node s) = m' s \<and> keeps (n # p) f m'"
    proof (cases "disk (fst s) (entry_name e)")
      case None
      then show ?thesis by (intro exI [of _ "ret ()"]) simp
    next
      case (Some node)
      have "keeps (n # p) f (clear_name sub env e node)"
      proof (rule keeps_clear_name [OF assms(1,2) _ assms(3)])
        show "prior_entry (Some snap) (entry_name e) = Some e" using Cons.prems assms(4) by (intro prior_entry_some) auto
        show "node = f" if "entry_name e = n" "p = []" using that Some s by simp
        show "is_dir node" if "entry_name e = n" "p \<noteq> []"
          using s assms(1) by (cases rule: node_at_file) (use that Some in \<open>auto simp: is_dir_def\<close>)
      qed
      with Some show ?thesis by (intro exI [of _ "clear_name sub env e node"]) simp
    qed
  qed
  moreover have "keeps (n # p) f (clear_entries sub env es)" using Cons by simp
  ultimately have "keeps (n # p) f (\<lambda>s. sbind (case disk (fst s) (entry_name e) of None \<Rightarrow> ret () s | Some node \<Rightarrow> clear_name sub env e node s)
      (\<lambda>_. clear_entries sub env es))" by (rule keeps_sbind)
  then show ?case by (rule keeps_cong [rotated]) simp
qed

text \<open>\<open>remove_tracked\<close> keeps an edited file, and says that the directory is gone only when it is.\<close>

lemma try_remove_dir_keeps:
  assumes "found (n # p) f s" "is_file f" "try_remove_dir env m s = (b, s')"
  shows "found (n # p) f s'" "b \<Longrightarrow> disk (fst s') m = None"
proof -
  obtain d c where s: "s = (d, c)" by (cases s)
  have ne: "m \<noteq> n" if "disk d m = Some (FDir a b [])" for a b
    using assms(1,2) that unfolding s by (cases p) (auto simp: is_file_def)
  show "found (n # p) f s'"
  proof (cases "\<exists>a b c'. next_fault c = (None, c') \<and> disk d m = Some (FDir a b [])")
    case True
    with ne have "m \<noteq> n" by blast
    with True assms(1,3) show ?thesis by (auto simp: s try_remove_dir_def node_at_cong [of "bt_remove m _" n])
  next
    case False
    with assms(1,3) show ?thesis by (auto simp: s try_remove_dir_def split: prod.splits option.splits fnode.splits list.splits)
  qed
  show "disk (fst s') m = None" if b
    using assms(3) that by (auto simp: s try_remove_dir_def split: prod.splits option.splits fnode.splits list.splits)
qed

lemma keeps_remove_tracked: "is_file f \<Longrightarrow> clears env f (remove_tracked k env)"
proof (induction k)
  case 0
  show ?case unfolding clears_def by (auto intro!: keeps_cong [OF _ keeps_pure(2)])
next
  case (Suc k)
  show ?case unfolding clears_def
  proof (intro allI impI)
    fix m n :: bytes and t p assume t: "tree_wf t" and e: "m = n \<and> p \<noteq> [] \<longrightarrow> edited env (Some t) p f"
    let ?inner = "\<lambda>s. sbind (ensure_writable s) (\<lambda>perms s.
       sbind (clear_entries (remove_tracked k env) env t s) (\<lambda>_ s.
       sbind (remove_stale_temps env s) (\<lambda>_ s.
       sbind (remove_lone_folder_icon env s) (\<lambda>_. ret perms))))"
    let ?outer = "\<lambda>perms s. let (removed, s) = try_remove_dir env m s
      in if removed then ret True s else sbind (within_dir m (put_back perms) s) (\<lambda>_. ret False)"
    have "keeps p f ?inner" if mn: "m = n" "p \<noteq> []"
    proof -
      obtain n' p' where p: "p = n' # p'" using mn(2) by (cases p) auto
      have ed: "edited env (Some t) (n' # p') f" using e mn p by simp
      have leaf: "\<not> is_tmp n'" "n' \<noteq> MACOS_FOLDER_ICON" if "p' = []" using ed that by auto
      show ?thesis unfolding p
        by (intro keeps_sbind keeps_meta keeps_clear_entries [OF Suc.prems Suc.IH [OF Suc.prems] ed t order_refl]
            keeps_stale_temps [OF Suc.prems leaf(1)] keeps_lone_icon [OF Suc.prems leaf(2)] keeps_pure)
    qed
    then have inner: "keeps (n # p) f (within_dir m ?inner)" by (rule keeps_within [OF Suc.prems])
    have pb: "keeps (n # p) f (\<lambda>s. sbind (within_dir m (put_back perms) s) (\<lambda>_. ret False))" for perms
      by (intro keeps_sbind keeps_within [OF Suc.prems] keeps_meta keeps_pure)
    have outer: "keeps (n # p) f (?outer perms)" for perms
    proof (rule keepsI)
      fix s x s' assume s: "found (n # p) f s" "?outer perms s = Some (x, s')"
      obtain b s1 where t: "try_remove_dir env m s = (b, s1)" by (cases "try_remove_dir env m s")
      note f1 = try_remove_dir_keeps(1) [OF s(1) Suc.prems t]
      from s(2) t f1 keepsD [OF pb _ f1] show "found (n # p) f s'" by (auto simp: ret_def split: if_splits)
    qed
    have "keeps (n # p) f (\<lambda>s. sbind (within_dir m ?inner s) ?outer)" by (rule keeps_sbind [OF inner outer])
    then show "keeps (n # p) f (remove_tracked (Suc k) env m t)" by (rule keeps_cong [rotated]) simp
  qed
qed

lemma remove_tracked_gone:
  assumes "remove_tracked k env m t s = Some (Inr True, s')"
  shows "disk (fst s') m = None"
proof (cases k)
  case (Suc k')
  with assms obtain perms s1 where "(let (removed, s) = try_remove_dir env m s1
      in if removed then ret True s else sbind (within_dir m (put_back perms) s) (\<lambda>_. ret False)) = Some (Inr True, s')"
    by (auto simp: sbind_eq_ok simp del: Let_def)
  then obtain s2 where "try_remove_dir env m s1 = (True, s2)" "s' = s2"
    by (auto simp: ret_def sbind_eq_ok Let_def split: prod.splits if_splits)
  then show ?thesis
    by (auto simp: try_remove_dir_def split: prod.splits option.splits fnode.splits list.splits)
qed (use assms in \<open>simp add: fails_def\<close>)

text \<open>Keep-both names are free, materializable names; temporaries are never a user's file.\<close>

lemma free_name_not_busy: "free_name busy name label cand n = Some r \<Longrightarrow> \<not> busy r"
  by (induction busy name label cand n rule: free_name.induct) (subst (asm) (2) free_name.simps, auto split: if_splits)

lemma conflict_dest_free:
  assumes "conflict_dest env name rel_path keep s = Some (x, s')"
  obtains dest where "x = Inr dest" "disk (fst s) dest = None" "is_materializable dest" "dest \<notin> set keep" "fst s' = fst s"
  using assms
  by (auto simp: conflict_dest_def local_conflict_name_def ret_def split: prod.splits option.splits dest!: free_name_not_busy)

lemma tmp_is_tmp: "is_tmp (TMP_PREFIX @ x)"
  by (simp add: is_tmp_def)

lemma keeps_write_chunks:
  assumes "m \<noteq> n"
  shows "keeps (n # p) f (write_chunks env m salt sz cs written)"
proof (induction cs arbitrary: written)
  case Nil
  show ?case by (rule keeps_cong [OF _ keeps_pure(1)]) simp
next
  case (Cons c cs)
  have "keeps (n # p) f (\<lambda>s. sbind (reading id s (fetch_open (re_crypto env) (re_keys env) TChunk salt c (re_store env))) (\<lambda>padded s.
     sbind (reading SnapObject s (unpad_chunk padded PowerOfTwo)) (\<lambda>plain s.
     if MAX_CHUNK_LEN < length plain \<or> unat sz < sat_add (length written) (length plain)
     then fails (Malformed ''restored file exceeds its declared size'') s else
     sbind (sys (change_node m (\<lambda>_. FFile (re_file_mode env) (re_now env) (written @ plain))) s) (\<lambda>_.
     write_chunks env m salt sz cs (written @ plain)))))"
    by (intro keeps_sbind keeps_reading keeps_if keeps_other(3) [OF assms] keeps_pure Cons)
  then show ?case by (rule keeps_cong [rotated]) simp
qed

lemma keeps_rename:
  assumes "tmp \<noteq> n" "dest \<noteq> n"
  shows "keeps (n # p) f (rename env tmp dest)"
proof (rule keepsI)
  have k: "keeps (n # p) f (sys (\<lambda>d. put_node env dest node (del_node env tmp d)))" for node
    by (rule keeps_sys) (use assms in \<open>simp add: node_at_cong [of "bt_insert dest _ _" n] node_at_cong [of "bt_remove tmp _" n]\<close>)
  fix s x s' assume "found (n # p) f s" "rename env tmp dest s = Some (x, s')"
  then show "found (n # p) f s'"
    by (auto simp: rename_def fails_def split: prod.splits option.splits if_splits dest: keepsD [OF k])
qed

lemma keeps_write_file:
  assumes "is_file f" "dest \<noteq> n" "p = [] \<Longrightarrow> \<not> is_tmp n"
  shows "keeps (n # p) f (write_file_atomic env dest ft)"
proof (rule keepsI)
  fix s x s' assume f: "found (n # p) f s" and r: "write_file_atomic env dest ft s = Some (x, s')"
  obtain d c where s: "s = (d, c)" by (cases s)
  let ?c = "c\<lparr>rc_draws := Suc (rc_draws c)\<rparr>"
  show "found (n # p) f s'"
  proof (cases "re_random env (rc_draws c)")
    case None
    with r f show ?thesis by (auto simp: s write_file_atomic_def fails_def)
  next
    case (Some w)
    define tmp where "tmp = TMP_PREFIX @ hex_of (le_bytes 8 w)"
    with Some r obtain s1 where w: "write_tmp env tmp dest ft (d, ?c) = Some (x, s1)" and s': "s' = (if isl x then drop_tmp env tmp s1 else s1)"
      by (auto simp: s write_file_atomic_def Let_def)
    have f': "found (n # p) f (d, ?c)" using f s by simp
    have "found (n # p) f s1"
    proof (cases "disk d tmp = None")
      case False
      with w f' show ?thesis by (auto simp: write_tmp_def fails_def)
    next
      case True
      have "disk d n \<noteq> None" using f' by (cases p) (auto split: option.splits)
      with True have ne: "tmp \<noteq> n" by auto
      have "keeps (n # p) f (\<lambda>s. sbind (sys (put_node env tmp (FFile (re_file_mode env) (re_now env) [])) s) (\<lambda>_ s.
         sbind (write_chunks env tmp (ft_salt ft) (ft_size ft) (ft_chunks ft) [] s) (\<lambda>written s.
         if length written \<noteq> unat (ft_size ft) then fails (Malformed ''restored file size mismatch'') s else
         sbind (sys id s) (\<lambda>_ s.
         sbind (apply_metadata tmp (ft_mode ft) (ft_mtime ft) s) (\<lambda>_.
         rename env tmp dest)))))" (is "keeps _ _ ?body")
        by (intro keeps_sbind keeps_other(1) [OF ne] keeps_write_chunks [OF ne] keeps_if keeps_pure keeps_sys_id
            keeps_apply_metadata [OF _ assms(1)] keeps_rename [OF ne assms(2)]) (use ne in simp)
      moreover have "?body (d, ?c) = Some (x, s1)" using w True by (simp add: write_tmp_def)
      ultimately show ?thesis using f' by (rule keepsD)
    qed
    moreover have "keeps (n # p) f (remove_file env tmp)"
      by (rule keeps_remove_known [OF assms(1)]) (use assms(3) tmp_is_tmp tmp_def in auto)
    ultimately show ?thesis by (auto simp: s' drop_tmp_def split: option.split dest: keepsD)
  qed
qed

lemma found_disk: "found (n # p) f s \<Longrightarrow> disk (fst s) n \<noteq> None"
  by (cases p) (auto split: option.splits)

lemma sbind_ret_map: "sbind m (\<lambda>d. ret (g d)) = Some (x, s') \<Longrightarrow> \<exists>y. m = Some (y, s') \<and> x = rbind y (\<lambda>d. Inr (g d))"
  by (erule sbind_cases) (auto simp: ret_def)

lemma conflict_dest_away:
  assumes "found (n # p) f s" "sbind (conflict_dest env m rel_path keep s) (\<lambda>d. ret (Some d)) = Some (x, s')"
  shows "found (n # p) f s' \<and> (\<forall>dest. x = Inr (Some dest) \<longrightarrow> dest \<noteq> n)"
proof -
  from sbind_ret_map [OF assms(2)] obtain y where y: "conflict_dest env m rel_path keep s = Some (y, s')" "x = rbind y (\<lambda>d. Inr (Some d))" by blast
  from conflict_dest_free [OF y(1)] obtain dest where "y = Inr dest" "disk (fst s) dest = None" "fst s' = fst s" by blast
  with y(2) found_disk [OF assms(1)] assms(1) show ?thesis by auto
qed

lemma remove_then:
  assumes "found (n # p) f s" "m \<noteq> n" "sbind (remove_file env m s) (\<lambda>_. ret (Some m)) = Some (x, s')"
  shows "found (n # p) f s' \<and> (\<forall>dest. x = Inr (Some dest) \<longrightarrow> dest \<noteq> n)"
proof -
  from sbind_ret_map [OF assms(3)] obtain y where y: "remove_file env m s = Some (y, s')" "x = rbind y (\<lambda>_. Inr (Some m))" by blast
  have "found (n # p) f s'" by (rule keepsD [OF keeps_remove_file [OF assms(2)] y(1) assms(1)])
  with y(2) assms(2) show ?thesis by (auto simp: rbind_eq_Inr)
qed

definition tells :: "(bytes \<Rightarrow> tree \<Rightarrow> bool rcall) \<Rightarrow> bool" where
  "tells sub \<longleftrightarrow> (\<forall>m t s s'. sub m t s = Some (Inr True, s') \<longrightarrow> disk (fst s') m = None)"

lemma clear_dir_keeps:
  assumes "found (n # p) f s" "is_file f" "clears env f sub" "tells sub" "p \<noteq> []" "edited env ours (n # p) f"
    "clear_dir sub env (AgainstSnapshot ours) (prior_entry ours n) n s = Some (x, s')"
  shows "found (n # p) f s' \<and> x \<noteq> Inr True"
proof (cases "prior_entry ours n")
  case (Some e)
  show ?thesis
  proof (cases e)
    case (EDir a b c i salt)
    with Some assms(7) have r: "sbind (reading id s (load_tree (re_crypto env) (re_keys env) (re_store env) i salt)) (\<lambda>t. sub n t) = Some (x, s')"
      by (simp add: clear_dir_def)
    show ?thesis
    proof (cases "load_tree (re_crypto env) (re_keys env) (re_store env) i salt")
      case (Inl e)
      with r assms(1) show ?thesis by (auto simp: reading_def)
    next
      case (Inr t)
      with r have sub: "sub n t s = Some (x, s')" by (simp add: reading_def)
      have "edited env (Some t) p f" using assms(5,6) sub_tree_loaded [OF Some [unfolded EDir] Inr] by (simp add: edited_branch)
      then have "keeps (n # p) f (sub n t)" by (intro keeps_sub(1) [OF assms(3) load_tree_wf [OF Inr]])
      then have f': "found (n # p) f s'" using sub assms(1) by (rule keepsD)
      moreover have "disk (fst s') n = None" if "x = Inr True" using assms(4) sub that unfolding tells_def by blast
      ultimately show ?thesis using found_disk [OF f'] by blast
    qed
  qed (use assms(1,7) Some in \<open>auto simp: clear_dir_def ret_def\<close>)
qed (use assms(1,7) in \<open>auto simp: clear_dir_def ret_def\<close>)

lemma file_dest_keeps:
  assumes "found (n # p) f s" "is_file f" "clears env f sub" "tells sub" "edited env ours (n # p) f"
    "file_dest sub env (AgainstSnapshot ours) keep m rel_path ft s = Some (x, s')"
  shows "found (n # p) f s' \<and> (\<forall>dest. x = Inr (Some dest) \<longrightarrow> dest \<noteq> n)"
proof (cases "disk (fst s) m")
  case None
  with assms(1,6) found_disk [OF assms(1)] show ?thesis by (auto simp: file_dest_def ret_def split: if_splits)
next
  case (Some node)
  show ?thesis
  proof (cases node)
    case (FFile a b c)
    have edit: "\<not> unchanged_since node (prior_entry ours m)" if "m = n" "p = []"
      using assms(1,5) Some that by simp
    have dir: "m = n \<Longrightarrow> p = []"
      using assms(1,2) by (cases rule: node_at_file) (use Some FFile in auto)
    consider (kept) "same_chunks (prior_entry ours m) (ft_chunks ft)"
      | (over) "\<not> same_chunks (prior_entry ours m) (ft_chunks ft)" "unchanged_since node (prior_entry ours m)"
      | (both) "\<not> same_chunks (prior_entry ours m) (ft_chunks ft)" "\<not> unchanged_since node (prior_entry ours m)" by blast
    then show ?thesis
    proof cases
      case kept
      have k: "keeps (n # p) f (\<lambda>s. if unchanged_since node (prior_entry ours m) then apply_metadata m (ft_mode ft) (ft_mtime ft) s else ret () s)"
        by (intro keeps_if keeps_apply_metadata [OF _ assms(2)] keeps_pure) (use edit in blast)
      from kept Some FFile assms(6) have "sbind (if unchanged_since node (prior_entry ours m) then apply_metadata m (ft_mode ft) (ft_mtime ft) s else ret () s) (\<lambda>_. ret None) = Some (x, s')"
        by (simp add: file_dest_def)
      from sbind_ret_map [OF this] obtain y where y: "(if unchanged_since node (prior_entry ours m) then apply_metadata m (ft_mode ft) (ft_mtime ft) s else ret () s) = Some (y, s')"
        "x = rbind y (\<lambda>_. Inr None)" by blast
      from keepsD [OF k y(1) assms(1)] y(2) show ?thesis by (auto simp: rbind_eq_Inr)
    next
      case over
      with edit dir have "m \<noteq> n" by blast
      with over Some FFile assms(1,6) show ?thesis by (auto simp: file_dest_def ret_def)
    next
      case both
      with Some FFile assms(6) have "sbind (conflict_dest env m rel_path keep s) (\<lambda>d. ret (Some d)) = Some (x, s')" by (simp add: file_dest_def)
      with assms(1) show ?thesis by (rule conflict_dest_away)
    qed
  next
    case (FDir a b ks)
    with Some assms(6) have r: "sbind (clear_dir sub env (AgainstSnapshot ours) (prior_entry ours m) m s) (\<lambda>cleared s.
        if cleared then ret (Some m) s else sbind (conflict_dest env m rel_path keep s) (\<lambda>d. ret (Some d))) = Some (x, s')"
      by (simp add: file_dest_def)
    have cd: "found (n # p) f s1 \<and> (m = n \<longrightarrow> y \<noteq> Inr True)"
      if c: "clear_dir sub env (AgainstSnapshot ours) (prior_entry ours m) m s = Some (y, s1)" for y s1
    proof (cases "m = n")
      case True
      have "p \<noteq> []" using assms(1,2) Some FDir True by (auto simp: is_file_def)
      with clear_dir_keeps [OF assms(1-4) _ assms(5)] c True show ?thesis by simp
    next
      case False
      have "keeps (n # p) f (clear_dir sub env (AgainstSnapshot ours) (prior_entry ours m) m)"
      proof (cases "snap_sub (prior_entry ours m)")
        case None
        then have "clear_dir sub env (AgainstSnapshot ours) (prior_entry ours m) m = ret False"
          by (intro ext) (auto simp: clear_dir_def snap_sub_def split: option.splits tree_entry.splits)
        then show ?thesis by simp
      next
        case (Some q)
        then obtain e1 e2 e3 i salt where pe: "prior_entry ours m = Some (EDir e1 e2 e3 i salt)"
          by (auto simp: snap_sub_def split: option.splits tree_entry.splits)
        have "keeps (n # p) f (\<lambda>s. sbind (reading id s (load_tree (re_crypto env) (re_keys env) (re_store env) i salt)) (\<lambda>t. sub m t))"
          by (rule keeps_load, rule keeps_sub(1) [OF assms(3) load_tree_wf]) (use False in simp_all)
        then show ?thesis by (rule keeps_cong [rotated]) (simp add: clear_dir_def pe)
      qed
      with c assms(1) False keepsD show ?thesis by blast
    qed
    from r show ?thesis
    proof (cases rule: sbind_cases)
      case (ok cleared s1)
      from cd [OF ok(1)] have f1: "found (n # p) f s1" and ne: "cleared \<Longrightarrow> m \<noteq> n" by auto
      show ?thesis
      proof (cases cleared)
        case True
        with ok(2) f1 ne show ?thesis by (auto simp: ret_def)
      next
        case False
        with ok(2) conflict_dest_away [OF f1] show ?thesis by simp
      qed
    qed (use cd in auto)
  next
    case FOther
    have ne: "m \<noteq> n" using assms(1,2) Some FOther by (cases p) (auto simp: is_file_def split: option.splits)
    from FOther Some assms(6) have "sbind (remove_file env m s) (\<lambda>_. ret (Some m)) = Some (x, s')" by (simp add: file_dest_def)
    from remove_then [OF assms(1) ne this] show ?thesis by blast
  qed
qed

lemma dir_dest_keeps:
  assumes "found (n # p) f s" "is_file f" "edited env ours (n # p) f"
    "dir_dest env (AgainstSnapshot ours) keep m rel_path sub s = Some (x, s')"
  shows "found (n # p) f s' \<and> (\<forall>dest. x = Inr (Some dest) \<longrightarrow> dest = n \<longrightarrow> m = n \<and> p \<noteq> [])"
proof (cases "disk (fst s) m")
  case None
  with assms(1,4) found_disk [OF assms(1)] show ?thesis by (auto simp: dir_dest_def ret_def split: if_splits)
next
  case (Some node)
  show ?thesis
  proof (cases node)
    case (FFile a b c)
    show ?thesis
    proof (cases "unchanged_since node (prior_entry ours m)")
      case True
      have ne: "m \<noteq> n"
      proof
        assume "m = n"
        from assms(1,2) show False by (cases rule: node_at_file) (use \<open>m = n\<close> True Some FFile assms(3) in auto)
      qed
      from True FFile Some assms(4) have "sbind (remove_file env m s) (\<lambda>_. ret (Some m)) = Some (x, s')" by (simp add: dir_dest_def)
      from remove_then [OF assms(1) ne this] show ?thesis by blast
    next
      case False
      with Some FFile assms(4) have "sbind (conflict_dest env m rel_path keep s) (\<lambda>d. ret (Some d)) = Some (x, s')" by (simp add: dir_dest_def)
      from conflict_dest_away [OF assms(1) this] show ?thesis by blast
    qed
  next
    case (FDir a b ks)
    have "p \<noteq> []" if "m = n" using assms(1,2) Some FDir that by (auto simp: is_file_def)
    with FDir Some assms(1,4) show ?thesis by (auto simp: dir_dest_def ret_def)
  next
    case FOther
    have ne: "m \<noteq> n" using assms(1,2) Some FOther by (cases p) (auto simp: is_file_def split: option.splits)
    from FOther Some assms(4) have "sbind (remove_file env m s) (\<lambda>_. ret (Some m)) = Some (x, s')" by (simp add: dir_dest_def)
    from remove_then [OF assms(1) ne this] show ?thesis by blast
  qed
qed

definition spares :: "renv \<Rightarrow> fnode \<Rightarrow> dir_restore \<Rightarrow> bool" where
  "spares env f sr \<longleftrightarrow> (\<forall>dest i salt t rel n p. (\<forall>t'. t = Some t' \<longrightarrow> tree_wf t') \<longrightarrow> (dest = n \<and> p \<noteq> [] \<longrightarrow> edited env t p f)
     \<longrightarrow> keeps (n # p) f (sr (Some dest) i salt (AgainstSnapshot t) rel))"

lemma sub_against_tree:
  assumes "sub_against env (AgainstSnapshot ours) m dest = Inr sag"
  shows "\<exists>t. sag = AgainstSnapshot t \<and> (\<forall>t'. t = Some t' \<longrightarrow> tree_wf t') \<and> (dest = m \<longrightarrow> t = sub_tree env ours m)"
proof (cases "snap_sub (prior_entry ours m)")
  case None
  with assms show ?thesis by (auto simp: sub_against_def sub_tree_def)
next
  case (Some q)
  obtain i salt where q: "q = (i, salt)" by (cases q)
  show ?thesis
  proof (cases "dest = m")
    case True
    with assms Some q obtain t where "load_tree (re_crypto env) (re_keys env) (re_store env) i salt = Inr t" "sag = AgainstSnapshot (Some t)"
      by (auto simp: sub_against_def rbind_eq_Inr)
    with Some q load_tree_wf show ?thesis by (auto simp: sub_tree_def)
  qed (use assms Some q in \<open>auto simp: sub_against_def\<close>)
qed

lemma keeps_restore_entry:
  assumes "is_file f" "clears env f sub" "tells sub" "spares env f sr" "edited env ours (n # p) f"
  shows "keeps (n # p) f (restore_entry sr sub env (AgainstSnapshot ours) keep rel e)"
proof (rule keepsI)
  fix s x s' assume f: "found (n # p) f s" and r: "restore_entry sr sub env (AgainstSnapshot ours) keep rel e s = Some (x, s')"
  let ?m = "entry_name e" and ?ag = "AgainstSnapshot ours"
  have leaf: "p = [] \<Longrightarrow> \<not> is_tmp n" using assms(5) by auto
  show "found (n # p) f s'"
  proof (cases "is_materializable ?m")
    case False
    with f r show ?thesis by (auto simp: restore_entry_def skip_entry_def ret_def split: prod.splits)
  next
    case True
    show ?thesis
    proof (cases e)
      case (EFile a mode mtime sz salt cs)
      define ft where "ft = \<lparr>ft_mode = mode, ft_mtime = mtime, ft_size = sz, ft_salt = salt, ft_chunks = cs\<rparr>"
      from r True EFile have "sbind (file_dest sub env ?ag keep ?m (join_rel rel ?m) ft s)
          (\<lambda>dest. case dest of None \<Rightarrow> ret () | Some dest \<Rightarrow> write_file_atomic env dest ft) = Some (x, s')"
        unfolding ft_def by (simp add: restore_entry_def Let_def)
      then show ?thesis
      proof (cases rule: sbind_cases)
        case (err e')
        with file_dest_keeps [OF f assms(1-3,5)] show ?thesis by blast
      next
        case (ok dest s1)
        note fd = file_dest_keeps [OF f assms(1-3,5) ok(1)]
        show ?thesis
        proof (cases dest)
          case None
          with ok(2) fd show ?thesis by (auto simp: ret_def)
        next
          case (Some d)
          with fd have "d \<noteq> n" by simp
          from keepsD [OF keeps_write_file [OF assms(1) this leaf]] ok(2) Some fd show ?thesis by simp
        qed
      qed
    next
      case (EDir a mode mtime i salt)
      have "sbind (dir_dest env ?ag keep ?m (join_rel rel ?m) i s) (\<lambda>dest s.
          case dest of None \<Rightarrow> ret () s
          | Some dest \<Rightarrow> sbind (reading id s (sub_against env ?ag ?m dest)) (\<lambda>sag s.
              sbind (sr (Some dest) i salt sag (join_rel rel ?m) s) (\<lambda>_. apply_metadata dest mode mtime))) = Some (x, s')"
        using r True unfolding EDir tree_entry.sel restore_entry_def Let_def by simp
      then show ?thesis
      proof (cases rule: sbind_cases)
        case (err e')
        with dir_dest_keeps [OF f assms(1,5)] show ?thesis by blast
      next
        case (ok dest s1)
        note dd = dir_dest_keeps [OF f assms(1,5) ok(1)]
        show ?thesis
        proof (cases dest)
          case None
          with ok(2) dd show ?thesis by (auto simp: ret_def)
        next
          case (Some d)
          show ?thesis
          proof (cases "sub_against env ?ag ?m d")
            case (Inl e')
            with ok(2) Some dd show ?thesis by (auto simp: reading_def)
          next
            case (Inr sag)
            from sub_against_tree [OF Inr] obtain t where t: "sag = AgainstSnapshot t" "\<forall>t'. t = Some t' \<longrightarrow> tree_wf t'"
              "d = ?m \<Longrightarrow> t = sub_tree env ours ?m" by blast
            have here: "?m = n \<and> p \<noteq> []" if "d = n" using dd that Some by blast
            have "edited env t p f" if "d = n" "p \<noteq> []"
              using here [OF that(1)] t(3) that assms(5) by (simp add: edited_branch)
            then have k: "keeps (n # p) f (sr (Some d) i salt sag (join_rel rel ?m))"
              using assms(4) t(2) unfolding spares_def t(1) by blast
            have k2: "keeps (n # p) f (apply_metadata d mode mtime)"
              by (rule keeps_apply_metadata [OF _ assms(1)]) (use here in blast)
            from ok(2) Some Inr have "sbind (sr (Some d) i salt sag (join_rel rel ?m) s1) (\<lambda>_. apply_metadata d mode mtime) = Some (x, s')"
              by (simp add: reading_def)
            with keepsD [OF keeps_sbind [OF k k2]] dd show ?thesis by blast
          qed
        qed
      qed
    qed
  qed
qed

lemma keeps_restore_entries:
  assumes "is_file f" "clears env f sub" "tells sub" "spares env f sr" "edited env ours (n # p) f"
  shows "keeps (n # p) f (restore_entries sr sub env (AgainstSnapshot ours) keep rel es)"
proof (induction es)
  case Nil
  show ?case by (rule keeps_cong [OF _ keeps_pure(1)]) simp
next
  case (Cons e es)
  from keeps_sbind [OF keeps_restore_entry [OF assms] Cons] show ?case by (rule keeps_cong [rotated]) simp
qed

lemma keeps_delete_names:
  assumes "is_file f" "clears env f sub" "edited env ours (n # p) f" "\<forall>t. ours = Some t \<longrightarrow> tree_wf t"
  shows "keeps (n # p) f (delete_names sub env (AgainstSnapshot ours) keep ns)"
proof (induction ns)
  case Nil
  show ?case by (rule keeps_cong [OF _ keeps_pure(1)]) simp
next
  case (Cons m ns)
  have "keeps (n # p) f (delete_name sub env (AgainstSnapshot ours) m)"
  proof (rule keeps_pick)
    fix s :: rstate assume s: "found (n # p) f s"
    show "\<exists>m'. delete_name sub env (AgainstSnapshot ours) m s = m' s \<and> keeps (n # p) f m'"
    proof (cases "disk (fst s) m")
      case None
      then show ?thesis by (intro exI [of _ "fails (SnapIo IoNotFound)"]) (simp add: delete_name_def)
    next
      case (Some node)
      show ?thesis
      proof (cases "prior_entry ours m")
        case None
        with Some show ?thesis by (intro exI [of _ "ret ()"]) (simp add: delete_name_def)
      next
        case (Some e)
        have e: "entry_name e = m" by (rule prior_entry_listable(2) [OF assms(4) Some])
        have "keeps (n # p) f (clear_name sub env e node)"
        proof (rule keeps_clear_name [OF assms(1,2) _ assms(3)])
          show "prior_entry ours (entry_name e) = Some e" using Some e by simp
          show "node = f" if "entry_name e = n" "p = []" using that \<open>disk (fst s) m = Some node\<close> e s by simp
          show "is_dir node" if "entry_name e = n" "p \<noteq> []"
            using s assms(1) by (cases rule: node_at_file) (use that \<open>disk (fst s) m = Some node\<close> e in \<open>auto simp: is_dir_def\<close>)
        qed
        with Some \<open>disk (fst s) m = Some node\<close> show ?thesis by (intro exI [of _ "clear_name sub env e node"]) (simp add: delete_name_def)
      qed
    qed
  qed
  then have "keeps (n # p) f (\<lambda>s. sbind (if from_utf8_ok m \<and> m \<notin> set keep \<and> is_safe_entry_name m \<and> \<not> is_tmp m
      then delete_name sub env (AgainstSnapshot ours) m s else ret () s) (\<lambda>_. delete_names sub env (AgainstSnapshot ours) keep ns))"
    by (intro keeps_sbind keeps_if Cons keeps_pure)
  then show ?case by (rule keeps_cong [rotated]) simp
qed

lemma keeps_restore_loaded:
  assumes "is_file f" "clears env f sub" "tells sub" "spares env f sr" "edited env ours p f" "\<forall>t. ours = Some t \<longrightarrow> tree_wf t"
  shows "keeps p f (restore_loaded sr sub env t (AgainstSnapshot ours) rel)"
proof -
  obtain n q where p: "p = n # q" using assms(5) by (cases p) auto
  note ed = assms(5) [unfolded p]
  have leaf: "q = [] \<Longrightarrow> \<not> is_tmp n" using ed by auto
  have d: "keeps (n # q) f (\<lambda>s. delete_names sub env (AgainstSnapshot ours) keep (map fst (fd_kids (fst s))) s)" for keep
  proof (rule keeps_pick)
    fix s :: rstate
    show "\<exists>m'. delete_names sub env (AgainstSnapshot ours) keep (map fst (fd_kids (fst s))) s = m' s \<and> keeps (n # q) f m'"
      by (intro exI [of _ "delete_names sub env (AgainstSnapshot ours) keep (map fst (fd_kids (fst s)))"] conjI refl
          keeps_delete_names [OF assms(1,2) ed assms(6)])
  qed
  show ?thesis unfolding p restore_loaded_def [abs_def]
    by (intro keeps_sbind keeps_meta keeps_stale_temps [OF assms(1) leaf] keeps_sys_id d keeps_restore_entries [OF assms(1-4) ed])
qed

lemma keeps_create_dir: "keeps (n # p) f (create_dir_all env m)"
proof (rule keeps_pick)
  fix s :: rstate assume s: "found (n # p) f s"
  show "\<exists>m'. create_dir_all env m s = m' s \<and> keeps (n # p) f m'"
  proof (cases "disk (fst s) m")
    case None
    with found_disk [OF s] have "m \<noteq> n" by auto
    with None show ?thesis
      by (intro exI [of _ "sys (put_node env m (FDir (re_dir_mode env) (re_now env) []))"])
        (auto simp: create_dir_all_def split: prod.splits intro: keeps_other)
  next
    case (Some node)
    then show ?thesis
      by (intro exI [of _ "if is_dir node then ret () else fails (SnapIo (IoOther ''exists''))"])
        (auto simp: create_dir_all_def split: prod.splits)
  qed
qed

lemma remove_tracked_tells: "tells (remove_tracked k env)"
  using remove_tracked_gone unfolding tells_def by blast

lemma restore_dir_spares: "is_file f \<Longrightarrow> spares env f (restore_dir k env)"
proof (induction k)
  case 0
  show ?case unfolding spares_def by (auto intro!: keeps_cong [OF _ keeps_pure(2)])
next
  case (Suc k)
  show ?case unfolding spares_def
  proof (intro allI impI)
    fix dest n :: bytes and i salt t rel p
    assume t: "\<forall>t'. t = Some t' \<longrightarrow> tree_wf t'" and e: "dest = n \<and> p \<noteq> [] \<longrightarrow> edited env t p f"
    let ?g = "\<lambda>tr. restore_loaded (restore_dir k env) (remove_tracked k env) env tr (AgainstSnapshot t) rel"
    have w: "keeps (n # p) f (within_dir dest (?g tr))" for tr
    proof (rule keeps_within [OF Suc.prems])
      assume "dest = n" "p \<noteq> []"
      with e show "keeps p f (?g tr)"
        by (intro keeps_restore_loaded [OF Suc.prems keeps_remove_tracked [OF Suc.prems] remove_tracked_tells Suc.IH [OF Suc.prems] _ t]) simp
    qed
    have "keeps (n # p) f (\<lambda>s. sbind (reading id s (load_tree (re_crypto env) (re_keys env) (re_store env) i salt)) (\<lambda>tr s.
        sbind (create_dir_all env dest s) (\<lambda>_. within_dir dest (?g tr))))"
      by (intro keeps_load keeps_sbind keeps_create_dir w)
    then show "keeps (n # p) f (restore_dir (Suc k) env (Some dest) i salt (AgainstSnapshot t) rel)"
      by (rule keeps_cong [rotated]) simp
  qed
qed

lemma restore_dir_keeps:
  assumes "is_file f" "edited env ours p f" "\<forall>t. ours = Some t \<longrightarrow> tree_wf t"
  shows "keeps p f (restore_dir k env None i salt (AgainstSnapshot ours) rel)"
proof (cases k)
  case 0
  then show ?thesis by (intro keeps_cong [OF _ keeps_pure(2)]) simp
next
  case (Suc k')
  have "keeps p f (\<lambda>s. sbind (reading id s (load_tree (re_crypto env) (re_keys env) (re_store env) i salt)) (\<lambda>tr.
      restore_loaded (restore_dir k' env) (remove_tracked k' env) env tr (AgainstSnapshot ours) rel))"
    by (intro keeps_load keeps_restore_loaded [OF assms(1) keeps_remove_tracked [OF assms(1)] remove_tracked_tells restore_dir_spares [OF assms(1)] assms(2,3)])
  then show ?thesis unfolding Suc by (rule keeps_cong [rotated]) simp
qed

section \<open>An explicit restore stays below its path\<close>

lemma keeps_restore_dir_other:
  assumes "is_file f" "dest \<noteq> n"
  shows "keeps (n # p) f (restore_dir k env (Some dest) i salt ag rel)"
proof (cases k)
  case 0
  then show ?thesis by (intro keeps_cong [OF _ keeps_pure(2)]) simp
next
  case (Suc k')
  have "keeps (n # p) f (\<lambda>s. sbind (reading id s (load_tree (re_crypto env) (re_keys env) (re_store env) i salt)) (\<lambda>tr s.
      sbind (create_dir_all env dest s) (\<lambda>_.
      within_dir dest (restore_loaded (restore_dir k' env) (remove_tracked k' env) env tr ag rel))))"
    by (intro keeps_load keeps_sbind keeps_create_dir keeps_within [OF assms(1)]) (use assms(2) in simp)
  then show ?thesis unfolding Suc by (rule keeps_cong [rotated]) simp
qed

lemma keeps_pruned:
  assumes "keeps p f m"
  shows "keeps p f (\<lambda>s. pruned path (m s))"
proof (rule keepsI)
  fix s x s' assume "found p f s" "pruned path (m s) = Some (x, s')"
  moreover from this(2) obtain y where "m s = Some (y, s')" by (auto simp: pruned_def)
  ultimately show "found p f s'" using keepsD [OF assms] by blast
qed

lemma keeps_restore_node:
  assumes "is_file f" "m \<noteq> n" "p = [] \<Longrightarrow> \<not> is_tmp n"
  shows "keeps (n # p) f (restore_node env path node m)"
proof (cases node)
  case (PFile mode mtime sz salt cs)
  show ?thesis unfolding restore_node_def [abs_def] PFile path_node.case remove_dir_all_def [abs_def]
    by (intro keeps_sbind keeps_when keeps_other(2) [OF assms(2)] keeps_pure keeps_pruned keeps_write_file [OF assms])
next
  case (PDir i salt)
  show ?thesis unfolding restore_node_def [abs_def] PDir path_node.case
    by (intro keeps_sbind keeps_when keeps_remove_file [OF assms(2)] keeps_pure keeps_pruned keeps_restore_dir_other [OF assms(1,2)])
qed

lemma keeps_safe_join:
  assumes "is_file f" "take (length comps) q \<noteq> comps" "q \<noteq> []"
    "\<And>m n p. m \<noteq> n \<Longrightarrow> (p = [] \<Longrightarrow> n = last q) \<Longrightarrow> keeps (n # p) f (g m)"
  shows "keeps q f (safe_join env shown comps g)"
  using assms(2-4)
proof (induction comps arbitrary: q shown rule: induct_list012)
  case (2 m)
  obtain n p where q: "q = n # p" using "2.prems"(2) by (cases q) auto
  have "keeps q f (g m)" unfolding q by (rule "2.prems"(3)) (use "2.prems"(1) q in auto)
  then show ?case by (rule keeps_cong [rotated]) simp
next
  case (3 a b comps)
  obtain n p where q: "q = n # p" using "3.prems"(2) by (cases q) auto
  have w: "keeps q f (within_dir a (safe_join env (join_rel shown a) (b # comps) g))" unfolding q
  proof (rule keeps_within [OF assms(1)])
    assume n: "a = n" "p \<noteq> []"
    then have last: "last q = last p" by (simp add: q)
    show "keeps p f (safe_join env (join_rel shown a) (b # comps) g)"
      by (rule "3.IH"(2)) (use "3.prems"(1,3) q n last in simp_all)
  qed
  show ?case
  proof (rule keeps_pick)
    fix s :: rstate assume s: "found q f s"
    show "\<exists>m'. safe_join env shown (a # b # comps) g s = m' s \<and> keeps q f m'"
    proof (cases "disk (fst s) a")
      case None
      with found_disk s q have ne: "a \<noteq> n" by blast
      have "keeps q f (\<lambda>s. sbind (sys (put_node env a (FDir (re_dir_mode env) (re_now env) [])) s) (\<lambda>_. within_dir a (safe_join env (join_rel shown a) (b # comps) g)))"
        by (intro keeps_sbind w) (simp add: q keeps_other(1) [OF ne])
      moreover have "safe_join env shown (a # b # comps) g s
          = sbind (sys (put_node env a (FDir (re_dir_mode env) (re_now env) [])) s) (\<lambda>_. within_dir a (safe_join env (join_rel shown a) (b # comps) g))"
        using None by simp
      ultimately show ?thesis by (intro exI conjI)
    next
      case (Some node)
      then show ?thesis
        by (intro exI [of _ "if is_dir node then within_dir a (safe_join env (join_rel shown a) (b # comps) g) else fails (UnsafePath (join_rel shown a))"]) (use w in simp)
    qed
  qed
qed simp

section \<open>Keep-both names that are too long\<close>

lemma length_conflict_base: "length (conflict_base name l) = length name + 10 + length l"
proof -
  obtain stem ext where se: "stem_ext name = (stem, ext)" by (cases "stem_ext name")
  have "ext = None \<or> name = stem @ [46] @ the ext"
    using se rsplit_dot_eq [of name] by (auto simp: stem_ext_def split: option.splits if_splits)
  then have "length name = length stem + 1 + length (the ext)" if "ext \<noteq> None" using that by (metis One_nat_def add.assoc length_Cons length_append list.size(3) plus_1_eq_Suc add_0 One_nat_def)
  then show ?thesis by (cases ext) (auto simp: conflict_base_def se conflict_tag_def ascii_def)
qed

lemma free_name_all_busy:
  "busy cand \<Longrightarrow> (\<And>m. busy (conflict_base name (label @ [45] @ dec m))) \<Longrightarrow> free_name busy name label cand n = None"
proof (induction busy name label cand n rule: free_name.induct)
  case (1 busy name label cand n)
  show ?case
  proof (cases "n = - 1")
    case False
    with "1.IH" [OF "1.prems"(1) False "1.prems"(2) "1.prems"(2)] "1.prems"(1) show ?thesis by (subst free_name.simps) simp
  qed (subst free_name.simps, simp add: "1.prems"(1))
qed

text \<open>A device that reads the store of the example folder.\<close>

definition ex_env :: renv where
  "ex_env = \<lparr>re_crypto = ex_crypto, re_keys = ex_keys, re_store = put_object ex_sealed Store_empty, re_label = [], re_random = (\<lambda>n. Some (of_nat n)),
     re_file_mode = 420, re_dir_mode = 493, re_now = 11\<rparr>"

definition ex_ctx :: rctx where
  "ex_ctx = \<lparr>rc_faults = [], rc_draws = 0, rc_conflicts = [], rc_skipped = []\<rparr>"

lemma ex_env_simps [simp]:
  "re_crypto ex_env = ex_crypto" "re_keys ex_env = ex_keys" "re_store ex_env = put_object ex_sealed Store_empty" "re_random ex_env n = Some (of_nat n)"
  "re_file_mode ex_env = 420" "re_dir_mode ex_env = 493" "re_now ex_env = 11"
  by (simp_all add: ex_env_def)

lemma ex_ctx_simps [simp]: "rc_faults ex_ctx = []"
  by (simp add: ex_ctx_def)

lemma sys_clear: "rc_faults c = [] \<Longrightarrow> sys f (d, c) = Some (Inr (), f d, c)"
  by (simp add: sys_def next_fault_def)

lemma TMP_PREFIX_bytes: "TMP_PREFIX = [46, 115, 101, 99, 115, 101, 99, 45, 116, 109, 112, 45]"
  by code_simp

lemma ex_write:
  assumes "rc_faults c = []" "fd_kids d \<in> {[], [([98], FFile 420 8 [6])]}"
  shows "\<exists>d' c'. write_file_atomic ex_env [97] \<lparr>ft_mode = 420, ft_mtime = 7, ft_size = 0, ft_salt = salt, ft_chunks = []\<rparr> (d, c) = Some (Inr (), d', c')"
  using assms
  by (auto simp: write_file_atomic_def write_tmp_def sys_clear apply_metadata_def rename_def change_node_def put_node_def set_node_def del_node_def
        ret_def Let_def TMP_PREFIX_bytes is_dir_def)

section \<open>Properties\<close>

text \<open>Our snapshot of the folder, as the restore loads it.\<close>

definition loaded_ours :: "renv \<Rightarrow> (bytes \<times> bytes) option \<Rightarrow> tree option" where
  "loaded_ours env ours =
     (case ours of
        None \<Rightarrow> None
      | Some (i, salt) \<Rightarrow> (case load_tree (re_crypto env) (re_keys env) (re_store env) i salt of Inr t \<Rightarrow> Some t | Inl _ \<Rightarrow> None))"

text \<open>
  C14: a restore during sync never destroys a local edit. Take any file \<open>f\<close> at any path \<open>p\<close> of the
  destination that is not what our own snapshot recorded there (no entry, another kind of entry, or
  another size or modification time), and whose name is neither a temporary file's nor the macOS folder
  icon's. Whatever the target tree is, and whether the restore succeeds, fails on an object or fails at
  any system call, the same file, content and metadata, is at \<open>p\<close> afterwards: what comes in goes to a
  keep-both name, and no deletion, no replaced directory and no cleared directory takes it along.
\<close>

theorem restore_spares_edits:
  assumes "restore_tree_into env target ours (Some d) c = Some (x, d', c')" "node_at (fd_kids d) p = Some f" "is_file f"
    "edited env (loaded_ours env ours) p f"
  shows "node_at (fd_kids d') p = Some f"
proof (cases "case ours of None \<Rightarrow> Inr None
    | Some (i, salt) \<Rightarrow> rbind (load_tree (re_crypto env) (re_keys env) (re_store env) i salt) (\<lambda>t. Inr (Some t))")
  case (Inl e)
  with assms(1,2) show ?thesis by (auto simp: restore_tree_into_def make_root_def ret_def reading_def)
next
  case (Inr t)
  then have t: "t = loaded_ours env ours" "\<forall>t'. t = Some t' \<longrightarrow> tree_wf t'"
    by (auto simp: loaded_ours_def rbind_eq_Inr dest: load_tree_wf split: option.splits)
  from Inr assms(1) have "restore_dir MAX_TREE_DEPTH env None (fst target) (snd target) (AgainstSnapshot t) [] (d, c) = Some (x, d', c')"
    by (simp add: restore_tree_into_def make_root_def ret_def reading_def)
  from keepsD [OF restore_dir_keeps [OF assms(3) assms(4) [folded t(1)] t(2)] this] assms(2) show ?thesis by simp
qed

text \<open>Our snapshot and the target agree on the file, and the local copy has been edited.\<close>

theorem restore_spares_edits_witness:
  "\<exists>x d' c'. restore_tree_into ex_env (fst ex_sealed, le_bytes 16 (1 :: 128 word)) (Some (fst ex_sealed, le_bytes 16 (1 :: 128 word)))
       (Some \<lparr>fd_mode = 493, fd_mtime = 5, fd_kids = [([97], FFile 420 8 [6])]\<rparr>) ex_ctx = Some (x, d', c')
     \<and> node_at (fd_kids d') [[97]] = Some (FFile 420 8 [6])"
proof -
  let ?salt = "le_bytes 16 (1 :: 128 word)" and ?d = "\<lparr>fd_mode = 493, fd_mtime = 5, fd_kids = [([97], FFile 420 8 [6])]\<rparr>"
  obtain k where depth: "MAX_TREE_DEPTH = Suc k" by (rule some_depth)
  have r: "\<exists>x d' c'. restore_tree_into ex_env (fst ex_sealed, ?salt) (Some (fst ex_sealed, ?salt)) (Some ?d) ex_ctx = Some (x, d', c')"
    by (simp add: restore_tree_into_def make_root_def sys_clear reading_def depth ex_load restore_loaded_def ensure_writable_def ret_def remove_stale_temps_def
        ex_listing_def restore_entry_def file_dest_def prior_entry_def same_chunks_def put_back_def Let_def find_entry_def unchanged_since_def)
  have "edited ex_env (loaded_ours ex_env (Some (fst ex_sealed, ?salt))) [[97]] (FFile 420 8 [6])"
    by (simp add: loaded_ours_def ex_load prior_entry_def ex_listing_def find_entry_def unchanged_since_def MACOS_FOLDER_ICON_def)
  moreover from r obtain x d' c' where
    r: "restore_tree_into ex_env (fst ex_sealed, ?salt) (Some (fst ex_sealed, ?salt)) (Some ?d) ex_ctx = Some (x, d', c')" by blast
  ultimately have "node_at (fd_kids d') [[97]] = Some (FFile 420 8 [6])"
    by (intro restore_spares_edits [OF r]) (simp_all add: is_file_def)
  with r show ?thesis by blast
qed



text \<open>
  C40: a keep-both name is not always found. When the local file's name is longer than 220 bytes, which
  a file system allows (up to 255), no candidate name with the 25 bytes of the device and commit label
  fits, so the search for a free name runs through all counters and panics at the last \<open>u32\<close>: it
  returns no name, for every directory and every set of names already taken.
\<close>

theorem long_name_conflict_panics:
  assumes "220 < length name" "length label = 25"
  shows "local_conflict_name ks name label taken = None"
proof -
  have "\<not> is_materializable (conflict_base name (label @ l))" for l
    using assms by (simp add: is_materializable_def length_conflict_base OS_NAME_MAX_def)
  from this [of "[]"] this show ?thesis unfolding local_conflict_name_def by (intro free_name_all_busy) simp_all
qed

theorem long_name_conflict_panics_witness:
  "local_conflict_name [] (replicate 230 97) (replicate 12 97 @ [45] @ replicate 12 98) [] = None"
  by (rule long_name_conflict_panics) simp_all

end
