(* ===== verification/Folders.thy ===== *)
theory Folders
  imports Restore
begin

text \<open>
  Snapshot and restore together: what a first snapshot of a folder records is what a restore into an
  empty folder brings back, on any device and from any store, unless that store holds, at the address
  of an object the snapshot sealed, another plaintext with the same address.
\<close>

section \<open>What comes back\<close>

text \<open>The names a device can create, with the recorded mode (the default one if the author had none).\<close>

definition comes_back :: "bytes \<times> fnode \<Rightarrow> bool" where
  "comes_back = (\<lambda>(n, node). carries_name n \<and> is_materializable n \<and> node \<noteq> FOther)"

definition mode_or :: "u32 \<Rightarrow> u32 \<Rightarrow> u32" where
  "mode_or dflt m = (if m = 0 then dflt else m AND 511)"

function restored :: "renv \<Rightarrow> fnode \<Rightarrow> fnode" where
  "restored env (FFile m t c) = FFile (mode_or (re_file_mode env) (mode_of m)) t c"
| "restored env (FDir m t ks) = FDir (mode_or (re_dir_mode env) (mode_of m)) t
     (map (\<lambda>(n, node). (n, restored env node)) (filter comes_back (sort_key fst ks)))"
| "restored env FOther = FOther"
  by pat_completeness auto
termination
proof (relation "measure (\<lambda>(_, node). size node)")
  fix env m t ks p and n :: bytes and node :: fnode
  assume "p \<in> set (filter comes_back (sort_key fst ks))" "(n, node) = p"
  then have "(n, node) \<in> set ks" by auto
  then have "size node < size (FDir m t ks)" by (induction ks) (auto simp: less_Suc_eq_le)
  then show "((env, node), env, FDir m t ks) \<in> measure (\<lambda>(_, node). size node)" by simp
qed simp

definition restored_kids :: "renv \<Rightarrow> kids \<Rightarrow> kids" where
  "restored_kids env ks = map (\<lambda>(n, node). (n, restored env node)) (filter comes_back (sort_key fst ks))"

text \<open>No object of the store the restore reads has the address of another plaintext the snapshot sealed.\<close>

definition faithful :: "renv \<Rightarrow> master_key \<Rightarrow> sealings \<Rightarrow> bool" where
  "faithful env mk L \<longleftrightarrow> (\<forall>t salt b b'. (t, salt, b) \<in> L \<longrightarrow>
     fetch_open (re_crypto env) (re_keys env) t salt (fst (seal_object (re_crypto env) mk t salt b)) (re_store env) = Inr b' \<longrightarrow> b' = b)"

section \<open>Successful calls\<close>

lemma sys_ok: "sys f (d, c) = Some (Inr u, d', c') \<Longrightarrow> d' = f d"
  by (auto simp: sys_def split: prod.splits option.splits)

lemma ret_ok [simp]: "ret x s = Some (Inr y, s') \<longleftrightarrow> y = x \<and> s' = s"
  by (auto simp: ret_def)

lemma fails_ok [simp]: "fails e s \<noteq> Some (Inr y, s')"
  by (simp add: fails_def)

lemma within_ok:
  assumes "within_dir n f (d, c) = Some (Inr x, d', c')" "disk d n = Some (FDir m t ks)"
  obtains d1 where "f (\<lparr>fd_mode = m, fd_mtime = t, fd_kids = ks\<rparr>, c) = Some (Inr x, d1, c')"
    "d' = set_node n (FDir (fd_mode d1) (fd_mtime d1) (fd_kids d1)) d"
  using assms by (auto simp: within_dir_def)

lemma bt_insert_last: "(\<And>x. x \<in> fst ` set m \<Longrightarrow> x < k) \<Longrightarrow> bt_insert k v m = m @ [(k, v)]"
  by (induction m) (auto simp: less_imp_neq split: if_splits)

lemma bt_put_twice: "bt_wf m \<Longrightarrow> bt_insert k v (bt_insert k w m) = bt_insert k v m"
  by (intro bt_eqI) auto

lemma bt_put_drop: "bt_wf m \<Longrightarrow> map_of m k = None \<Longrightarrow> bt_remove k (bt_insert k v m) = m"
  by (intro bt_eqI) (auto simp: fun_upd_idem)

lemma with_meta_simps [simp]:
  "with_meta m t (with_meta m' t' x) = with_meta m t x" "x \<noteq> FOther \<Longrightarrow> f_mode (with_meta m t x) = m" "with_meta m t x = FOther \<longleftrightarrow> x = FOther"
  "x \<noteq> FOther \<Longrightarrow> with_meta (f_mode x) (f_mtime x) x = x" "x \<noteq> FOther \<Longrightarrow> f_mtime (with_meta m t x) = t"
  by (cases x; simp)+

lemma change_node_ok:
  assumes "sys (change_node n f) (d, c) = Some (Inr u, d', c')" "disk d n = Some x"
  shows "fd_kids d' = bt_insert n (f x) (fd_kids d)" "fd_mode d' = fd_mode d"
  using sys_ok [OF assms(1)] assms(2) by (simp_all add: change_node_def set_node_def)

lemma apply_metadata_ok:
  assumes "apply_metadata n mode mtime (d, c) = Some (Inr u, d', c')" "disk d n = Some x" "x \<noteq> FOther" "bt_wf (fd_kids d)"
  shows "fd_kids d' = bt_insert n (with_meta (mode_or (f_mode x) mode) mtime x) (fd_kids d)" "fd_mode d' = fd_mode d"
proof -
  from assms(1) obtain d1 c1 where 1: "(if mode \<noteq> 0 then sys (change_node n (\<lambda>x. with_meta (mode AND 511) (f_mtime x) x)) (d, c) else ret () (d, c)) = Some (Inr (), d1, c1)"
    and 2: "sys (change_node n (\<lambda>x. with_meta (f_mode x) mtime x)) (d1, c1) = Some (Inr u, d', c')"
    by (auto simp: apply_metadata_def sbind_eq_ok)
  have same: "bt_insert n x (fd_kids d) = fd_kids d"
    using assms(2,4) by (intro bt_eqI) (auto simp: fun_upd_idem)
  have d1: "fd_kids d1 = bt_insert n (with_meta (mode_or (f_mode x) mode) (f_mtime x) x) (fd_kids d)" "fd_mode d1 = fd_mode d"
  proof -
    show "fd_kids d1 = bt_insert n (with_meta (mode_or (f_mode x) mode) (f_mtime x) x) (fd_kids d)" "fd_mode d1 = fd_mode d"
      using 1 change_node_ok [of n _ d c "()" d1 c1 x] assms(2,3) same by (auto simp: mode_or_def split: if_splits)
  qed
  then have "disk d1 n = Some (with_meta (mode_or (f_mode x) mode) (f_mtime x) x)" by simp
  from change_node_ok [OF 2 this] d1 assms(3,4) show "fd_kids d' = bt_insert n (with_meta (mode_or (f_mode x) mode) mtime x) (fd_kids d)" "fd_mode d' = fd_mode d"
    by (simp_all add: bt_put_twice)
qed

text \<open>The plaintexts of a chunk list, as the store has them.\<close>

definition opened :: "renv \<Rightarrow> bytes \<Rightarrow> bytes \<Rightarrow> bytes \<Rightarrow> bool" where
  "opened env salt i p \<longleftrightarrow> (\<exists>b. fetch_open (re_crypto env) (re_keys env) TChunk salt i (re_store env) = Inr b \<and> unpad_chunk b PowerOfTwo = Inr p)"

lemma write_chunks_ok:
  "write_chunks env tmp salt sz cs written (d, c) = Some (Inr w, d', c') \<Longrightarrow> bt_wf (fd_kids d) \<Longrightarrow>
     disk d tmp = Some (FFile (re_file_mode env) (re_now env) written) \<Longrightarrow>
     (\<exists>parts. list_all2 (opened env salt) cs parts \<and> w = written @ concat parts)
     \<and> fd_kids d' = bt_insert tmp (FFile (re_file_mode env) (re_now env) w) (fd_kids d) \<and> fd_mode d' = fd_mode d"
proof (induction cs arbitrary: written d c)
  case Nil
  have "bt_insert tmp (FFile (re_file_mode env) (re_now env) written) (fd_kids d) = fd_kids d"
    using Nil.prems(2,3) by (intro bt_eqI) (auto simp: fun_upd_idem)
  with Nil.prems(1) show ?case by auto
next
  case (Cons i cs)
  from Cons.prems(1) obtain b plain d1 c1 where b: "fetch_open (re_crypto env) (re_keys env) TChunk salt i (re_store env) = Inr b"
    "unpad_chunk b PowerOfTwo = Inr plain"
    and w: "sys (change_node tmp (\<lambda>_. FFile (re_file_mode env) (re_now env) (written @ plain))) (d, c) = Some (Inr (), d1, c1)"
    and r: "write_chunks env tmp salt sz cs (written @ plain) (d1, c1) = Some (Inr w, d', c')"
    by (auto simp: sbind_eq_ok reading_def split: if_splits)
  note d1 = change_node_ok [OF w Cons.prems(3)]
  have "bt_wf (fd_kids d1)" "disk d1 tmp = Some (FFile (re_file_mode env) (re_now env) (written @ plain))"
    using d1(1) Cons.prems(2) by auto
  from Cons.IH [OF r this] obtain parts where ih: "list_all2 (opened env salt) cs parts" "w = (written @ plain) @ concat parts"
    "fd_kids d' = bt_insert tmp (FFile (re_file_mode env) (re_now env) w) (fd_kids d1)" "fd_mode d' = fd_mode d1" by blast
  have "opened env salt i plain" using b by (auto simp: opened_def)
  with ih d1 Cons.prems(2) show ?case by (auto simp: bt_put_twice intro!: exI [of _ "plain # parts"])
qed

lemma write_file_ok:
  assumes "write_file_atomic env dest ft (d, c) = Some (Inr u, d', c')" "bt_wf (fd_kids d)" "\<not> is_tmp dest"
  shows "\<exists>parts. list_all2 (opened env (ft_salt ft)) (ft_chunks ft) parts
    \<and> fd_kids d' = bt_insert dest (FFile (mode_or (re_file_mode env) (ft_mode ft)) (ft_mtime ft) (concat parts)) (fd_kids d)
    \<and> fd_mode d' = fd_mode d"
proof -
  from assms(1) obtain w where w: "re_random env (rc_draws c) = Some w"
    by (auto simp: write_file_atomic_def split: option.splits)
  define tmp where "tmp = TMP_PREFIX @ hex_of (le_bytes 8 w)"
  from assms(1) w have "write_tmp env tmp dest ft (d, c\<lparr>rc_draws := Suc (rc_draws c)\<rparr>) = Some (Inr u, d', c')"
    by (auto simp: write_file_atomic_def tmp_def Let_def)
  then obtain d1 c1 d2 c2 d3 c3 d4 c4 wr where fresh: "disk d tmp = None"
    and 1: "sys (put_node env tmp (FFile (re_file_mode env) (re_now env) [])) (d, c\<lparr>rc_draws := Suc (rc_draws c)\<rparr>) = Some (Inr (), d1, c1)"
    and 2: "write_chunks env tmp (ft_salt ft) (ft_size ft) (ft_chunks ft) [] (d1, c1) = Some (Inr wr, d2, c2)"
    and 3: "sys id (d2, c2) = Some (Inr (), d3, c3)"
    and 4: "apply_metadata tmp (ft_mode ft) (ft_mtime ft) (d3, c3) = Some (Inr (), d4, c4)"
    and 5: "rename env tmp dest (d4, c4) = Some (Inr u, d', c')"
    by (auto simp: write_tmp_def sbind_eq_ok split: if_splits)
  let ?fm = "re_file_mode env" and ?now = "re_now env"
  have k1: "fd_kids d1 = bt_insert tmp (FFile ?fm ?now []) (fd_kids d)" "fd_mode d1 = fd_mode d" using sys_ok [OF 1] by (simp_all add: put_node_def)
  have "bt_wf (fd_kids d1)" "disk d1 tmp = Some (FFile ?fm ?now [])" using k1(1) assms(2) by auto
  from write_chunks_ok [OF 2 this] obtain parts where parts: "list_all2 (opened env (ft_salt ft)) (ft_chunks ft) parts" "wr = concat parts"
    and k2: "fd_kids d2 = bt_insert tmp (FFile ?fm ?now wr) (fd_kids d1)" "fd_mode d2 = fd_mode d1" by auto
  have d3: "d3 = d2" using sys_ok [OF 3] by simp
  have "disk d3 tmp = Some (FFile ?fm ?now wr)" "bt_wf (fd_kids d3)" using k1(1) k2(1) assms(2) by (auto simp: d3)
  from apply_metadata_ok [OF 4 this(1) _ this(2)] have k4: "fd_kids d4 = bt_insert tmp (FFile (mode_or ?fm (ft_mode ft)) (ft_mtime ft) wr) (fd_kids d)" "fd_mode d4 = fd_mode d"
    using k1 k2 assms(2) by (simp_all add: d3 bt_put_twice)
  from 5 k4(1) have "d' = put_node env dest (FFile (mode_or ?fm (ft_mode ft)) (ft_mtime ft) wr) (del_node env tmp d4)"
    by (auto simp: rename_def split: option.splits if_splits dest!: sys_ok)
  with k4 fresh assms(2) parts show ?thesis by (intro exI [of _ parts]) (simp add: put_node_def del_node_def bt_put_drop)
qed

section \<open>Restoring into an empty folder\<close>

lemma faithful_chunks:
  assumes "faithful env mk L" "chunked (re_crypto env) mk L salt c cs" "list_all2 (opened env salt) cs parts"
  shows "concat parts = c"
proof -
  from assms(2) obtain ps where ps: "concat ps = c" "\<forall>p \<in> set ps. (TChunk, salt, pad_chunk p PowerOfTwo) \<in> L"
    "cs = map (\<lambda>p. fst (seal_object (re_crypto env) mk TChunk salt (pad_chunk p PowerOfTwo))) ps" by (auto simp: chunked_def)
  have "list_all2 (\<lambda>p p'. opened env salt (fst (seal_object (re_crypto env) mk TChunk salt (pad_chunk p PowerOfTwo))) p') ps parts"
    using assms(3) by (simp add: ps(3) list_all2_map1)
  then have "parts = ps" using ps(2)
  proof (induction rule: list_all2_induct)
    case (Cons p ps p' parts)
    from Cons.hyps(1) obtain b where b: "fetch_open (re_crypto env) (re_keys env) TChunk salt (fst (seal_object (re_crypto env) mk TChunk salt (pad_chunk p PowerOfTwo))) (re_store env) = Inr b"
      "unpad_chunk b PowerOfTwo = Inr p'" by (auto simp: opened_def)
    have "(TChunk, salt, pad_chunk p PowerOfTwo) \<in> L" using Cons.prems by simp
    with assms(1) b(1) have "b = pad_chunk p PowerOfTwo" unfolding faithful_def by blast
    with b(2) pad_unpad_chunk [of p PowerOfTwo] Cons show ?case by simp
  qed simp
  with ps(1) show ?thesis by simp
qed

definition brought :: "renv \<Rightarrow> kids \<Rightarrow> kids" where
  "brought env vs = map (\<lambda>(n, node). (n, restored env node)) (filter (\<lambda>p. is_materializable (fst p)) vs)"

lemma restored_kids_visible: "restored_kids env ks = brought env (visible ks)"
  by (simp add: restored_kids_def brought_def visible_def comes_back_def case_prod_beta conj_commute conj_left_commute cong: filter_cong)

lemma mode_or_of [simp]: "mode_or dflt (mode_of m) = (if mode_of m = 0 then dflt else mode_of m)"
  by (simp add: mode_or_def mode_of_def and.assoc)

text \<open>A subdirectory: what the recursive call has to bring.\<close>

definition brings :: "renv \<Rightarrow> (bytes \<Rightarrow> bytes \<Rightarrow> kids \<Rightarrow> bool) \<Rightarrow> dir_restore \<Rightarrow> bool" where
  "brings env sub_shows sr \<longleftrightarrow> (\<forall>n i salt ks rel d c u d' c'. sub_shows i salt ks \<longrightarrow> disk d n = None \<longrightarrow> bt_wf (fd_kids d) \<longrightarrow>
     sr (Some n) i salt (AgainstSnapshot None) rel (d, c) = Some (Inr u, d', c') \<longrightarrow>
     (\<exists>t. fd_kids d' = bt_insert n (FDir (re_dir_mode env) t (restored_kids env ks)) (fd_kids d)) \<and> fd_mode d' = fd_mode d)"

lemma restore_entry_brings:
  assumes "restore_entry sr sub env (AgainstSnapshot None) keep rel e (d, c) = Some (Inr u, d', c')"
    "shows_node (re_crypto env) mk L sub_shows e (n, node)" "entry_name e = n" "brings env sub_shows sr" "faithful env mk L"
    "bt_wf (fd_kids d)" "disk d n = None"
  shows "fd_kids d' = (if is_materializable n then bt_insert n (restored env node) (fd_kids d) else fd_kids d)" "fd_mode d' = fd_mode d"
proof -
  have "fd_kids d' = (if is_materializable n then bt_insert n (restored env node) (fd_kids d) else fd_kids d) \<and> fd_mode d' = fd_mode d"
  proof (cases "is_materializable n")
    case False
    with assms(1,3) show ?thesis by (auto simp: restore_entry_def skip_entry_def Let_def)
  next
    case True
    then have nt: "\<not> is_tmp n" by (simp add: is_materializable_def)
    show ?thesis
    proof (cases node)
      case (FFile m t b)
      then obtain salt cs where e: "e = EFile n (mode_of m) t (of_nat (length b)) salt cs" and ch: "chunked (re_crypto env) mk L salt b cs"
        using assms(2) by (auto simp: shows_node_def)
      define ft where "ft = \<lparr>ft_mode = mode_of m, ft_mtime = t, ft_size = of_nat (length b), ft_salt = salt, ft_chunks = cs\<rparr>"
      have "write_file_atomic env n ft (d, c) = Some (Inr (), d', c')"
        using assms(1,7) True unfolding ft_def
        by (simp add: restore_entry_def e file_dest_def same_chunks_def prior_entry_def ret_def Let_def)
      from write_file_ok [OF this assms(6) nt] obtain parts where "list_all2 (opened env salt) cs parts"
        "fd_kids d' = bt_insert n (FFile (mode_or (re_file_mode env) (mode_of m)) t (concat parts)) (fd_kids d)" "fd_mode d' = fd_mode d"
        by (auto simp: ft_def)
      with faithful_chunks [OF assms(5) ch] True FFile show ?thesis by simp
    next
      case (FDir m t ks)
      then obtain i salt where e: "e = EDir n (mode_of m) t i salt" and sub: "sub_shows i salt ks"
        using assms(2) by (auto simp: shows_node_def)
      have "sbind (sr (Some n) i salt (AgainstSnapshot None) (join_rel rel n) (d, c)) (\<lambda>_. apply_metadata n (mode_of m) t) = Some (Inr (), d', c')"
        using assms(1,7) True
        by (simp add: restore_entry_def e dir_dest_def snap_sub_def sub_against_def prior_entry_def ret_def reading_def Let_def)
      then obtain d1 c1 where sr: "sr (Some n) i salt (AgainstSnapshot None) (join_rel rel n) (d, c) = Some (Inr (), d1, c1)"
        and am: "apply_metadata n (mode_of m) t (d1, c1) = Some (Inr (), d', c')" by (auto simp: sbind_eq_ok)
      from sr sub assms(4,6,7) obtain t1 where k1: "fd_kids d1 = bt_insert n (FDir (re_dir_mode env) t1 (restored_kids env ks)) (fd_kids d)" "fd_mode d1 = fd_mode d"
        unfolding brings_def by blast
      have "disk d1 n = Some (FDir (re_dir_mode env) t1 (restored_kids env ks))" "bt_wf (fd_kids d1)" using k1(1) assms(6) by auto
      from apply_metadata_ok [OF am this(1) _ this(2)] k1 assms(6) True FDir show ?thesis
        by (simp add: bt_put_twice restored_kids_def)
    qed (use assms(2) in \<open>simp add: shows_node_def\<close>)
  qed
  then show "fd_kids d' = (if is_materializable n then bt_insert n (restored env node) (fd_kids d) else fd_kids d)" "fd_mode d' = fd_mode d" by blast+
qed

lemma shows_node_name: "shows_node cr mk L sub_shows e (n, node) \<Longrightarrow> entry_name e = n"
  by (auto simp: shows_node_def split: fnode.splits)

lemma restore_entries_brings:
  assumes "list_all2 (shows_node (re_crypto env) mk L sub_shows) es vs" "brings env sub_shows sr" "faithful env mk L"
  shows "restore_entries sr sub env (AgainstSnapshot None) keep rel es (d, c) = Some (Inr u, d', c') \<Longrightarrow> bt_wf (fd_kids d) \<Longrightarrow>
     sorted_wrt (<) (map entry_name es) \<Longrightarrow> (\<And>x e. x \<in> fst ` set (fd_kids d) \<Longrightarrow> e \<in> set es \<Longrightarrow> x < entry_name e) \<Longrightarrow>
     fd_kids d' = fd_kids d @ brought env vs \<and> fd_mode d' = fd_mode d"
  using assms(1)
proof (induction es arbitrary: vs d c)
  case Nil
  then show ?case by (simp add: brought_def)
next
  case (Cons e es)
  from Cons.prems(5) obtain n node vs' where vs: "vs = (n, node) # vs'" "shows_node (re_crypto env) mk L sub_shows e (n, node)"
    "list_all2 (shows_node (re_crypto env) mk L sub_shows) es vs'" by (cases vs) auto
  note en = shows_node_name [OF vs(2)]
  from Cons.prems(1) obtain d1 c1 where e1: "restore_entry sr sub env (AgainstSnapshot None) keep rel e (d, c) = Some (Inr (), d1, c1)"
    and es1: "restore_entries sr sub env (AgainstSnapshot None) keep rel es (d1, c1) = Some (Inr u, d', c')" by (auto simp: sbind_eq_ok)
  have below: "x < n" if "x \<in> fst ` set (fd_kids d)" for x using Cons.prems(4) [OF that, of e] en by simp
  have fresh: "disk d n = None" using below by (auto simp: map_of_eq_None_iff)
  note k1 = restore_entry_brings [OF e1 vs(2) en assms(2,3) Cons.prems(2) fresh]
  have k1': "fd_kids d1 = fd_kids d @ brought env [(n, node)]"
  proof -
    have "bt_insert n v (fd_kids d) = fd_kids d @ [(n, v)]" for v by (rule bt_insert_last) (rule below)
    with k1(1) show ?thesis by (simp add: brought_def)
  qed
  have "fd_kids d' = fd_kids d1 @ brought env vs' \<and> fd_mode d' = fd_mode d1"
  proof (rule Cons.IH [OF es1 _ _ _ vs(3)])
    show "bt_wf (fd_kids d1)" using k1(1) Cons.prems(2) by auto
    show "sorted_wrt (<) (map entry_name es)" using Cons.prems(3) by simp
    fix x e' assume x: "x \<in> fst ` set (fd_kids d1)" "e' \<in> set es"
    have "x \<in> fst ` set (fd_kids d) \<or> x = n" using x(1) k1' by (auto simp: brought_def split: if_splits)
    then show "x < entry_name e'" using Cons.prems(3,4) x(2) en by auto
  qed
  then show ?case using k1' k1(2) by (simp add: vs(1) brought_def)
qed

lemma ensure_writable_ok:
  assumes "ensure_writable (d, c) = Some (Inr perms, d', c')"
  shows "fd_kids d' = fd_kids d" "put_back perms (d1, c1) = Some (Inr u, d2, c2) \<Longrightarrow> fd_mode d1 = fd_mode d' \<Longrightarrow> fd_kids d2 = fd_kids d1 \<and> fd_mode d2 = fd_mode d"
proof -
  have *: "fd_kids d' = fd_kids d \<and> perms = (if fd_mode d AND 128 \<noteq> 0 then None else Some (fd_mode d)) \<and> (perms = None \<longrightarrow> fd_mode d' = fd_mode d)"
    using assms by (auto simp: ensure_writable_def sbind_eq_ok dest!: sys_ok split: if_splits)
  then show "fd_kids d' = fd_kids d" by blast
  assume "put_back perms (d1, c1) = Some (Inr u, d2, c2)" "fd_mode d1 = fd_mode d'"
  with * show "fd_kids d2 = fd_kids d1 \<and> fd_mode d2 = fd_mode d"
    by (auto simp: put_back_def dest!: sys_ok split: if_splits)
qed

lemma restore_loaded_brings:
  assumes "restore_loaded sr sub env t (AgainstSnapshot None) rel (d, c) = Some (Inr u, d', c')" "fd_kids d = []"
    "list_all2 (shows_node (re_crypto env) mk L sub_shows) t (visible ks)" "tree_wf t" "brings env sub_shows sr" "faithful env mk L"
  shows "fd_kids d' = restored_kids env ks" "fd_mode d' = fd_mode d"
proof -
  from assms(1) obtain perms d1 c1 d2 c2 d3 c3 d4 c4 d5 c5 where 1: "ensure_writable (d, c) = Some (Inr perms, d1, c1)"
    and 2: "remove_stale_temps env (d1, c1) = Some (Inr (), d2, c2)" and 3: "sys id (d2, c2) = Some (Inr (), d3, c3)"
    and 4: "delete_names sub env (AgainstSnapshot None) (map entry_name t) (map fst (fd_kids d3)) (d3, c3) = Some (Inr (), d4, c4)"
    and 5: "restore_entries sr sub env (AgainstSnapshot None) (map entry_name t) rel t (d4, c4) = Some (Inr (), d5, c5)"
    and 6: "put_back perms (d5, c5) = Some (Inr u, d', c')"
    by (auto simp: restore_loaded_def sbind_eq_ok)
  have k1: "fd_kids d1 = []" using ensure_writable_ok(1) [OF 1] assms(2) by simp
  have k2: "d2 = d1" using 2 k1 by (auto simp: remove_stale_temps_def sbind_eq_ok dest!: sys_ok)
  have k3: "d3 = d1" using sys_ok [OF 3] k2 by simp
  have k4: "d4 = d1" using 4 k1 k3 by simp
  have "fd_kids d5 = fd_kids d4 @ brought env (visible ks) \<and> fd_mode d5 = fd_mode d4"
    by (rule restore_entries_brings [OF assms(3,5,6) 5]) (use assms(4) k1 k4 in \<open>auto simp: tree_wf_def\<close>)
  then have k5: "fd_kids d5 = restored_kids env ks" "fd_mode d5 = fd_mode d1" using k1 k4 by (simp_all add: restored_kids_visible)
  from ensure_writable_ok(2) [OF 1 6 k5(2)] k5(1) show "fd_kids d' = restored_kids env ks" "fd_mode d' = fd_mode d" by simp_all
qed

lemma load_faithful:
  assumes "faithful env mk L" "authored_tree (re_crypto env) mk i salt t" "(TTree, salt, the (encode_tree t)) \<in> L"
    "load_tree (re_crypto env) (re_keys env) (re_store env) i salt = Inr t'"
  shows "t' = t"
proof -
  obtain b where b: "encode_tree t = Some b" using assms(2) by (auto simp: authored_tree_def tree_fits_def)
  from assms(4) obtain b' where b': "fetch_open (re_crypto env) (re_keys env) TTree salt i (re_store env) = Inr b'" "decode_tree b' = Inr t'"
    by (auto simp: load_tree_def rbind_eq_Inr)
  have "b' = b" using assms(1,2,3) b b'(1) unfolding faithful_def authored_tree_def sealed_tree_def by fastforce
  moreover have "decode_tree b = Inr t" using assms(2) b by (simp add: authored_tree_def decode_tree_iff)
  ultimately show ?thesis using b'(2) by simp
qed

lemma restore_dir_brings:
  assumes "faithful env mk L"
  shows "brings env (depicts k (re_crypto env) mk L) (restore_dir k env)"
    "\<lbrakk>depicts k (re_crypto env) mk L i salt ks; fd_kids d = []; restore_dir k env None i salt (AgainstSnapshot None) rel (d, c) = Some (Inr u, d', c')\<rbrakk>
      \<Longrightarrow> fd_kids d' = restored_kids env ks"
proof (induction k arbitrary: i salt ks rel d c u d' c')
  case (Suc k)
  let ?sub = "depicts k (re_crypto env) mk L"
  have here: "fd_kids d1 = restored_kids env ks \<and> fd_mode d1 = fd_mode d0"
    if dp: "depicts (Suc k) (re_crypto env) mk L i salt ks" and ld: "load_tree (re_crypto env) (re_keys env) (re_store env) i salt = Inr t"
      and rl: "restore_loaded (restore_dir k env) (remove_tracked k env) env t (AgainstSnapshot None) rel (d0, c0) = Some (Inr u, d1, c1)" "fd_kids d0 = []"
    for i salt ks t rel d0 c0 u d1 c1
  proof -
    from dp obtain t0 where t0: "authored_tree (re_crypto env) mk i salt t0" "(TTree, salt, the (encode_tree t0)) \<in> L"
      "list_all2 (shows_node (re_crypto env) mk L ?sub) t0 (visible ks)" by auto
    have "t = t0" by (rule load_faithful [OF assms t0(1,2) ld])
    with restore_loaded_brings [OF rl t0(3) [folded \<open>t = t0\<close>] load_tree_wf [OF ld] Suc.IH(1) assms] show ?thesis by simp
  qed
  {
    case 1
    show ?case unfolding brings_def
    proof (intro allI impI)
      fix n i salt ks rel d c u d' c'
      assume dp: "depicts (Suc k) (re_crypto env) mk L i salt ks" and n: "disk d n = None" and wf: "bt_wf (fd_kids d)"
        and r: "restore_dir (Suc k) env (Some n) i salt (AgainstSnapshot None) rel (d, c) = Some (Inr u, d', c')"
      from r n obtain t d1 c1 where ld: "load_tree (re_crypto env) (re_keys env) (re_store env) i salt = Inr t"
        and cr: "sys (put_node env n (FDir (re_dir_mode env) (re_now env) [])) (d, c) = Some (Inr (), d1, c1)"
        and w: "within_dir n (restore_loaded (restore_dir k env) (remove_tracked k env) env t (AgainstSnapshot None) rel) (d1, c1) = Some (Inr u, d', c')"
        by (auto simp: sbind_eq_ok reading_def create_dir_all_def)
      note d1 = sys_ok [OF cr]
      have "disk d1 n = Some (FDir (re_dir_mode env) (re_now env) [])" by (simp add: d1)
      from within_ok [OF w this] obtain d2 where rl: "restore_loaded (restore_dir k env) (remove_tracked k env) env t (AgainstSnapshot None) rel
          (\<lparr>fd_mode = re_dir_mode env, fd_mtime = re_now env, fd_kids = []\<rparr>, c1) = Some (Inr u, d2, c')"
        and d': "d' = set_node n (FDir (fd_mode d2) (fd_mtime d2) (fd_kids d2)) d1" .
      from here [OF dp ld rl] wf show "(\<exists>t. fd_kids d' = bt_insert n (FDir (re_dir_mode env) t (restored_kids env ks)) (fd_kids d)) \<and> fd_mode d' = fd_mode d"
        by (auto simp: d' d1 bt_put_twice set_node_def put_node_def)
    qed
  next
    case 2
    from 2(3) obtain t where ld: "load_tree (re_crypto env) (re_keys env) (re_store env) i salt = Inr t"
      and rl: "restore_loaded (restore_dir k env) (remove_tracked k env) env t (AgainstSnapshot None) rel (d, c) = Some (Inr u, d', c')"
      by (auto simp: sbind_eq_ok reading_def)
    from here [OF 2(1) ld rl 2(2)] show ?case by simp
  }
qed (simp_all add: brings_def)

lemma unfaithful_clash:
  assumes "\<not> faithful env mk L"
  shows "\<exists>t salt b mk' b'. (t, salt, b) \<in> L
    \<and> fetch_open (re_crypto env) (re_keys env) t salt (fst (seal_object (re_crypto env) mk t salt b)) (re_store env) = Inr b'
    \<and> keyed_clash (re_crypto env) (address_input (re_crypto env) mk t salt b) (address_input (re_crypto env) mk' t salt b')"
proof -
  let ?cr = "re_crypto env"
  from assms obtain t salt b b' where L: "(t, salt, b) \<in> L" "b' \<noteq> b"
    and op: "fetch_open ?cr (re_keys env) t salt (fst (seal_object ?cr mk t salt b)) (re_store env) = Inr b'"
    by (auto simp: faithful_def)
  then obtain mk' where "fst (seal_object ?cr mk' t salt b') = fst (seal_object ?cr mk t salt b)"
    by (auto simp: fetch_open_def rbind_eq_Inr open_object_iff dest!: arg_cong [of _ _ fst])
  then have eq: "keyed_hash ?cr (fst (address_input ?cr mk t salt b)) (snd (address_input ?cr mk t salt b))
      = keyed_hash ?cr (fst (address_input ?cr mk' t salt b')) (snd (address_input ?cr mk' t salt b'))"
    by (simp add: fst_seal_object content_id_def address_input_def)
  have "snd (address_input ?cr mk t salt b) \<noteq> snd (address_input ?cr mk' t salt b')"
    using L(2) by (simp add: address_input_def)
  with eq have "keyed_clash ?cr (address_input ?cr mk t salt b) (address_input ?cr mk' t salt b')"
    unfolding keyed_clash_def by metis
  with L(1) op show ?thesis by blast
qed

section \<open>Properties\<close>

text \<open>
  C13: what a snapshot records is what a restore brings back. Take a first snapshot of a folder that
  was read without faults and left nothing out, and a restore of its root into an empty place, by any
  device, from any store, with any key set, that succeeds. Then the folder it leaves is the
  original: the same names (those a device can hold) with the same content and modification time
  at every level, and the recorded permission bits. The only other possibility is that the store served,
  at the address of an object the snapshot sealed, another plaintext with the same address, which
  is a collision of the keyed hash.
\<close>

theorem restore_returns_snapshot:
  assumes "snapshot_run xof (re_crypto env) SPEC os keys None (Some ks) st memo = Some (Inr sn, s')" "quiet os" "kids_wf ks"
    "sn_skipped sn = []" "current keys = Some mk"
    "restore_tree_into env (sn_root sn, sn_salt sn) None None c = Some (Inr u, d', c')"
  shows "fd_kids d' = restored_kids env ks
    \<or> (\<exists>t salt b mk' b'. (t, salt, b) \<in> set (ss_log s')
        \<and> fetch_open (re_crypto env) (re_keys env) t salt (fst (seal_object (re_crypto env) mk t salt b)) (re_store env) = Inr b'
        \<and> keyed_clash (re_crypto env) (address_input (re_crypto env) mk t salt b) (address_input (re_crypto env) mk' t salt b'))"
proof (cases "faithful env mk (set (ss_log s'))")
  case True
  have dp: "depicts MAX_TREE_DEPTH (re_crypto env) mk (set (ss_log s')) (sn_root sn) (sn_salt sn) ks"
    using snapshot_run_depicts [OF assms(1-4)] assms(5) by simp
  let ?d = "\<lparr>fd_mode = re_dir_mode env, fd_mtime = re_now env, fd_kids = []\<rparr>"
  from assms(6) obtain c1 where "restore_dir MAX_TREE_DEPTH env None (sn_root sn) (sn_salt sn) (AgainstSnapshot None) [] (?d, c1) = Some (Inr u, d', c')"
    unfolding restore_tree_into_def make_root_def option.case sbind_eq_ok
    by (auto simp: reading_def dest!: sys_ok)
  from restore_dir_brings(2) [OF True dp _ this] show ?thesis by simp
next
  case False
  from unfaithful_clash [OF this] show ?thesis by blast
qed

lemma ex_snapshot:
  "\<exists>s'. snapshot_run toy_xof ex_crypto SPEC ex_os ex_keys None (Some ex_folder) Store_empty [] =
     Some (Inr \<lparr>sn_root = fst ex_sealed, sn_salt = le_bytes 16 (1 :: 128 word), sn_skipped = []\<rparr>, s')"
proof -
  obtain c where c: "Chunker_with_defaults toy_xof (cdc_seed ex_crypto ex_mk) = Some c" using Chunker_with_defaults_total by blast
  then have max: "0 < cmax c" by (simp add: default_max MAX_CHUNK_LEN_def DEFAULT_MAX_def)
  obtain k where depth: "MAX_TREE_DEPTH = Suc k" by (rule some_depth)
  obtain b where b: "encode_tree ex_listing = Some b" "length ex_listing \<le> MAX_TREE_FANOUT"
      "length (snd (seal_object ex_crypto ex_mk TTree (le_bytes 16 (1 :: 128 word)) b)) \<le> MAX_BLOB_SIZE"
    using ex_listing_fits by (auto simp: tree_fits_def sealed_tree_def)
  have draw: "random_salt ex_os s = Some (Inr (le_bytes 16 (1 :: 128 word)), s\<lparr>ss_draws := Suc (ss_draws s)\<rparr>)" for s
    by (simp add: random_salt_def ex_os_def)
  have dir: "snapshot_dir (Suc k) ex_crypto ctx [] ex_folder None (le_bytes 16 (1 :: 128 word)) s =
      seal_dir ex_crypto ctx [] ex_listing (le_bytes 16 (1 :: 128 word)) (s\<lparr>ss_draws := Suc (ss_draws s)\<rparr>)"
    if "sc_os ctx = ex_os" "0 < cmax (sc_chunker ctx)" "ss_memo s = []" for ctx s
    using that by (simp add: ex_folder_def ex_os_def carries_name_def scan_node_def snapshot_file_def fast_entry_def prior_entry_def file_salt_def
      random_salt_def read_file_def chunk_stream_empty scan_result_def carried_def ex_listing_def mode_of_def)
  show ?thesis using c max b
    by (simp add: snapshot_run_def depth draw dir MasterKey_keys_def seal_dir_def SPEC_def put_sealed_def case_prod_beta ex_sealed_def sealed_tree_def
        Let_def del: snapshot_dir.simps)
qed

lemma ex_restore:
  "\<exists>d c. restore_tree_into ex_env (fst ex_sealed, le_bytes 16 (1 :: 128 word)) None None ex_ctx = Some (Inr (), d, c)"
proof -
  obtain k where depth: "MAX_TREE_DEPTH = Suc k" by (rule some_depth)
  from ex_write [of ex_ctx "\<lparr>fd_mode = 493, fd_mtime = 11, fd_kids = []\<rparr>" "le_bytes 16 (1 :: 128 word)"]
  show ?thesis
    by (auto simp: restore_tree_into_def make_root_def sys_clear reading_def depth ex_load restore_loaded_def ensure_writable_def ret_def remove_stale_temps_def
        ex_listing_def restore_entry_def file_dest_def prior_entry_def same_chunks_def put_back_def)
qed

theorem restore_returns_snapshot_witness:
  "\<exists>sn s' d' c'. snapshot_run toy_xof ex_crypto SPEC ex_os ex_keys None (Some ex_folder) Store_empty [] = Some (Inr sn, s')
     \<and> sn_skipped sn = []
     \<and> restore_tree_into ex_env (sn_root sn, sn_salt sn) None None ex_ctx
         = Some (Inr (), d', c')
     \<and> (fd_kids d' = restored_kids ex_env ex_folder
       \<or> (\<exists>t salt b mk' b'. (t, salt, b) \<in> set (ss_log s')
          \<and> fetch_open ex_crypto ex_keys t salt (fst (seal_object ex_crypto ex_mk t salt b)) (re_store ex_env) = Inr b'
          \<and> keyed_clash ex_crypto (address_input ex_crypto ex_mk t salt b) (address_input ex_crypto mk' t salt b')))"
proof -
  let ?sn = "\<lparr>sn_root = fst ex_sealed, sn_salt = le_bytes 16 (1 :: 128 word), sn_skipped = []\<rparr>"
  from ex_snapshot ex_restore obtain s' d' c' where
    s: "snapshot_run toy_xof ex_crypto SPEC ex_os ex_keys None (Some ex_folder) Store_empty [] = Some (Inr ?sn, s')"
    and r: "restore_tree_into ex_env (sn_root ?sn, sn_salt ?sn) None None ex_ctx
      = Some (Inr (), d', c')" by auto
  have "quiet ex_os" "kids_wf ex_folder" "current ex_keys = Some ex_mk"
    by (simp_all add: quiet_def ex_os_def ex_folder_def MasterKey_keys_def kids_wf_def OS_NAME_MAX_def)
  from restore_returns_snapshot [where env = ex_env, unfolded ex_env_simps, OF s this(1,2) _ this(3) r] s r
  show ?thesis by auto
qed

end
