(* ===== verification/Spec2Isabelle.thy ===== *)
theory Spec2Isabelle
  imports Chunk Objects Store Server Merging Prune Enroll Folders
begin

text \<open>
  A verification of \<open>secsec\<close>, an end-to-end encrypted file synchronizer. Devices hold the keys; a
  server that is not trusted with contents stores opaque blobs, orders the writes and limits its
  peers. All paths below are under \<open>src/crates/secsec-\<close>.

  \<^bold>\<open>The parts and how they interact.\<close> A client scans a directory, cuts files into chunks, seals each
  chunk, directory tree and commit into a content-addressed object, and pushes the objects it lacks
  to the server, then swaps the sealed, signed head of its ref with a compare-and-swap. Another
  client fetches the head, opens and checks the commits it does not have, passes them through gates
  that detect a server replaying old state, and fast-forwards or merges. Who is a member, and which
  master key is current, is recorded in a hash-chained, signed roster. The server answers the requests
  of a small binary protocol, each authorized by a signature bound to the session.

  \<^bold>\<open>Theories and sources.\<close>

  \<^item> \<open>Sec_Prelude\<close>: results as sums, aborts as \<open>None\<close>, little-endian bytes, ordered maps as strictly
    ascending association lists (\<open>BTreeMap\<close>, \<open>BTreeSet\<close>, the tables of the database), and the locales
    for them.
  \<^item> \<open>Canon\<close> (\<open>canon/src/lib.rs\<close>): the canonical writer and reader. The locale \<open>codec\<close> states what one
    field's writer and reader promise each other; every message format is shown canonical through its
    interpretations.
  \<^item> \<open>Frame\<close> (\<open>frame\<close>), \<open>Wire\<close> (\<open>proto/src/wire.rs\<close>), \<open>Proto\<close> (\<open>proto/src/lib.rs\<close>, \<open>prune.rs\<close>),
    \<open>Limits\<close> (\<open>proto/src/server.rs\<close>): blob frames, the protocol's messages with their bounds, what a
    request signature covers, and the rate limiters and quotas of the server.
  \<^item> \<open>Crypto\<close> (\<open>aead\<close>, \<open>kdf\<close>), \<open>Objects\<close> (\<open>object\<close>), \<open>Sigs\<close> (\<open>sig\<close>), \<open>Chunk\<close> (\<open>chunk\<close>): the key
    schedule, the committing AEAD over the locale \<open>sealing\<close>, content addresses, device keys and
    signatures, and the content-defined chunker, in memory and streaming.
  \<^item> \<open>Store\<close> (\<open>store\<close>), \<open>Server\<close> (\<open>server/src/lib.rs\<close>): the server's tables and transactions, and the
    server: admission, nonces, pairing, enrollment gate, and every request handler. Both have a step
    relation; their invariants are proved over all reachable states.
  \<^item> \<open>Dag\<close>, \<open>Head\<close>, \<open>Rollback\<close>, \<open>Merge\<close> (\<open>sync/src\<close>: \<open>dag.rs\<close>, \<open>lib.rs\<close>, \<open>rollback.rs\<close>, \<open>merge.rs\<close>):
    reachability between commits, sealed and signed heads, the frontier with its gates, and the
    three-way merge of directory trees with keep-both names.
  \<^item> \<open>Roster\<close> (\<open>roster\<close>): the signed membership chain, its sealing, the key histories, cold start and
    revocation.
  \<^item> \<open>Trees\<close>, \<open>Graph\<close>, \<open>Conflicts\<close> (\<open>snapshot\<close>, its object graph): tree and commit encodings, the name
    guard, sealing and opening, the walks over stored objects (\<open>Trees\<close> has the model); what the
    retention walk returns (\<open>Graph\<close>); that merged trees can be stored (\<open>Conflicts\<close>).
  \<^item> \<open>Engine\<close>, \<open>Merging\<close> (\<open>engine\<close>): loading and sealing whole trees, the loaded commit graph, acceptance
    of a sibling head (\<open>Engine\<close>); the round trip of sealed trees and the outcome of a merge (\<open>Merging\<close>).

  \<^bold>\<open>How code becomes definitions.\<close> A function keeps its name; a method is \<open>Type_method\<close>. A \<open>Result\<close> is a
  sum with the error on the left; where the source may panic the result is also an option, and \<open>None\<close>
  is the panic. State is a record, threaded explicitly; in \<open>Engine\<close> an error still returns the store,
  since what was put stays. Machine integers are words where they are encoded, compared or wrap, and
  natural numbers where the source bounds them. A \<open>String\<close> is its UTF-8 bytes. Loops are recursive
  functions with a termination proof: the stack walks end because every visited id is stored and not
  yet seen, the tree walks because the depth is bounded by \<open>MAX_TREE_DEPTH\<close>. No definition has fuel.

  \<^bold>\<open>Parameters.\<close> The record \<open>crypto\<close> holds BLAKE3 (plain, keyed, key derivation), the ChaCha20 stream
  and Poly1305 as arbitrary functions; \<open>ssh\<close> holds the \<open>ssh-key\<close> library. No theorem assumes them
  injective or secure: where binding depends on a hash, the conclusion names the two inputs of the
  code that would collide. Nonces, salts, clocks and the entropy source are arguments.

  \<^bold>\<open>What the theorems show.\<close> Encodings are canonical (one byte string per value, and back). Objects,
  heads, roster entries and frontiers open exactly as their own sealings. The store's invariant holds
  in every reachable state, its writes are atomic and its roster only grows; the server changes the
  store only for an authorized request and keeps its limits. A merge loses no content, invents none,
  can always be stored again, and lands in the store as a commit of both heads. A sibling is accepted
  only when each of its new commits was signed by a member and is newer than what was seen, so old
  state is detected for good. The roster's tip determines the whole chain, folding admits only entries
  signed by members, revocation removes exactly the devices it should, and the key history gives back
  every key. The retention walk returns exactly the live objects.

  \<^bold>\<open>Bounds.\<close> \<open>merge_returns\<close> bounds trees by \<open>tree_limit\<close> entries (two to the 28th), far beyond what
  the fan-out and depth limits of storable trees meet in practice, because the counter of keep-both
  names is a checked 32-bit integer. Label lengths are bounded by 1024 bytes in \<open>label_ok\<close>; the labels
  the program makes have 25.

  \<^bold>\<open>Not modelled.\<close> Scanning and restoring the file system (\<open>snapshot\<close>), the database engine itself (each
  table is an ordered map, a transaction one step), post-quantum encapsulation (\<open>pq\<close>), QUIC and TLS
  (\<open>transport\<close>), the asynchronous client and server loops, the command line, fuzz targets. Timing,
  memory zeroing and side channels are outside the model.

  \<^bold>\<open>Next.\<close> The client's push set, pruning and history (\<open>client\<close>); the framing and the authentication
  handshake of the transport.
\<close>

end
